(* ===== verification/Prelude.thy ===== *)
theory Prelude
  imports Main "HOL-Library.Word"
begin

text \<open>
  Shared vocabulary of the pifus development: the C integer types as words, the outcome type of
  code that may call \<open>exit\<close>, the arithmetic of cyclic indices that both the element ring buffer
  (\<open>api/src/pifus_ring_buffer.c\<close>) and the byte ring buffer (\<open>api/src/pifus_byte_buffer.c\<close>) use,
  and the copy of a byte run into an array (\<open>memcpy\<close>).
\<close>

section \<open>C integer types\<close>

type_synonym u8 = "8 word"
type_synonym u16 = "16 word"
type_synonym u32 = "32 word"
type_synonym u64 = "64 word"

type_synonym byte = u8

text \<open>
  Code that may leave the program: \<open>exit(1)\<close>, a dereference of a null pointer, or a use of a union
  member that was not written. Every other value of the model is a normal return.
\<close>

datatype fault = Exit_Failure | Null_Dereference | Indeterminate_Value

datatype 'a res = Ok 'a | Fault fault

fun res_bind :: "'a res \<Rightarrow> ('a \<Rightarrow> 'b res) \<Rightarrow> 'b res" where
  "res_bind (Ok x) f = f x"
| "res_bind (Fault e) f = Fault e"

lemma res_bind_Ok:
  assumes "res_bind r f = Ok y"
  obtains x where "r = Ok x" "f x = Ok y"
  using assms by (cases r) auto

text \<open>Collections that carry the component proofs.\<close>

named_theorems ring_simps \<open>cyclic index arithmetic\<close>
named_theorems mem_simps \<open>reads over writes of the byte memory\<close>
named_theorems unat_simps \<open>unsigned readings of words that do not wrap\<close>

lemma unat_plus_one_u16 [unat_simps]:
  fixes w x :: u16
  assumes "unat w < unat x"
  shows "unat (w + 1) = Suc (unat w)"
proof -
  have "unat x < 2 ^ 16" using unsigned_less [of x, where ?'a = nat] by simp
  with assms have "unat w + 1 < 2 ^ 16" by simp
  then show ?thesis by (simp add: unat_word_ariths)
qed

lemma word_eq_iff_unat: "(a = b) = (unat a = unat b)"
  for a b :: "'a::len word"
  by (simp add: word_unat_eq_iff)

lemma take_update: "k < length xs \<Longrightarrow> take (Suc k) (xs[k := x]) = take k xs @ [x]"
  by (simp add: take_Suc_conv_app_nth)

lemma unat_drop_bit_1_less: "m \<noteq> 0 \<Longrightarrow> unat (drop_bit 1 m) < unat m" for m :: u32
  using word_gt_0 [of m] by (simp add: unat_drop_bit_eq word_less_nat_alt drop_bit_eq_div [where ?'a = nat])

lemma unat_ucast_u16_u32 [unat_simps]: "unat (ucast (w :: u16) :: u32) = unat w"
proof -
  have "unat w < 2 ^ 16" using unsigned_less [of w, where ?'a = nat] by simp
  then show ?thesis by (simp add: unsigned_ucast_eq take_bit_nat_eq_self)
qed

lemma unat_less_u16: "unat (w :: u16) < 65536"
  using unsigned_less [of w, where ?'a = nat] by simp

lemma unat_less_u8: "unat (w :: u8) < 256"
  using unsigned_less [of w, where ?'a = nat] by simp

lemma unat_minus_le: "b \<le> a \<Longrightarrow> unat (a - b) = unat a - unat b"
  for a b :: "'a::len word"
  by (rule unat_sub)

lemma unat_minus_nat: "unat b \<le> unat a \<Longrightarrow> unat (a - b) = unat a - unat b"
  for a b :: "'a::len word"
  by (simp add: unat_sub word_le_nat_alt)

lemma unat_pos_iff: "(0 < w) = (0 < unat w)"
  for w :: "'a::len word"
  by (simp add: word_less_nat_alt)

section \<open>Cyclic indices\<close>

definition cyc_succ :: "nat \<Rightarrow> nat \<Rightarrow> nat" where
  "cyc_succ e i = (if Suc i = e then 0 else Suc i)"

definition ring_count :: "nat \<Rightarrow> nat \<Rightarrow> nat \<Rightarrow> nat" where
  "ring_count e h t = (if t \<le> h then h - t else h + e - t)"

definition ring_view :: "'a list \<Rightarrow> nat \<Rightarrow> nat \<Rightarrow> nat \<Rightarrow> 'a list" where
  "ring_view buf e t n = map (\<lambda>i. buf ! ((t + i) mod e)) [0..<n]"

lemma length_ring_view [simp]: "length (ring_view buf e t n) = n"
  by (simp add: ring_view_def)

lemma ring_view_0 [simp]: "ring_view buf e t 0 = []"
  by (simp add: ring_view_def)

lemma ring_view_nth [simp]: "i < n \<Longrightarrow> ring_view buf e t n ! i = buf ! ((t + i) mod e)"
  by (simp add: ring_view_def)

lemma cyc_succ_less [ring_simps]: "i < e \<Longrightarrow> cyc_succ e i < e"
  by (auto simp: cyc_succ_def)

lemma cyc_succ_mod: "i < e \<Longrightarrow> cyc_succ e i = Suc i mod e"
  by (auto simp: cyc_succ_def)

lemma ring_count_less [ring_simps]: "h < e \<Longrightarrow> t < e \<Longrightarrow> ring_count e h t < e"
  by (auto simp: ring_count_def)

lemma ring_count_0 [ring_simps]: "h < e \<Longrightarrow> t < e \<Longrightarrow> (ring_count e h t = 0) = (h = t)"
  by (auto simp: ring_count_def)

lemma ring_count_full [ring_simps]:
  "h < e \<Longrightarrow> t < e \<Longrightarrow> (cyc_succ e h = t) = (ring_count e h t = e - 1)"
  by (auto simp: ring_count_def cyc_succ_def)

lemma ring_count_succ_head [ring_simps]:
  "h < e \<Longrightarrow> t < e \<Longrightarrow> cyc_succ e h \<noteq> t \<Longrightarrow>
   ring_count e (cyc_succ e h) t = Suc (ring_count e h t)"
  by (auto simp: ring_count_def cyc_succ_def)

lemma ring_count_succ_tail [ring_simps]:
  "h < e \<Longrightarrow> t < e \<Longrightarrow> h \<noteq> t \<Longrightarrow>
   ring_count e h t = Suc (ring_count e h (cyc_succ e t))"
  by (auto simp: ring_count_def cyc_succ_def)

lemma ring_head_index [ring_simps]:
  assumes "h < e" "t < e"
  shows "(t + ring_count e h t) mod e = h"
proof (cases "t \<le> h")
  case True
  with assms show ?thesis by (simp add: ring_count_def)
next
  case False
  with assms have "t + ring_count e h t = h + e" by (simp add: ring_count_def)
  with assms show ?thesis by simp
qed

lemma ring_mod_cases: "r < e \<Longrightarrow> i < e \<Longrightarrow> (r + i) mod e = (if r + i < e then r + i else r + i - e)"
  for r i e :: nat
  by (simp add: le_mod_geq)

lemma ring_index_inj:
  assumes "i < e" "j < e" "(t + i) mod e = (t + j) mod e"
  shows "i = (j::nat)"
proof -
  let ?r = "t mod e"
  have "?r < e" using assms(1) by simp
  moreover have "(?r + i) mod e = (?r + j) mod e" using assms(3) by (simp add: mod_add_left_eq)
  ultimately show ?thesis using assms(1,2) by (auto simp: ring_mod_cases split: if_splits)
qed

lemma ring_count_add [ring_simps]:
  assumes "h < e" "t < e" "ring_count e h t + k < e"
  shows "ring_count e ((h + k) mod e) t = ring_count e h t + k"
proof -
  have "k < e" using assms(3) by simp
  with assms show ?thesis by (auto simp: ring_count_def ring_mod_cases split: if_splits)
qed

lemma ring_count_drop [ring_simps]:
  assumes "h < e" "t < e" "k \<le> ring_count e h t"
  shows "ring_count e h ((t + k) mod e) = ring_count e h t - k"
proof -
  have "k < e" using assms ring_count_less [of h e t] by simp
  with assms show ?thesis by (auto simp: ring_count_def ring_mod_cases split: if_splits)
qed

lemma ring_view_upd_head [ring_simps]:
  assumes "h < e" "t < e"
  shows "ring_view (buf[h := x]) e t (ring_count e h t) = ring_view buf e t (ring_count e h t)"
proof -
  let ?n = "ring_count e h t"
  have "(t + i) mod e \<noteq> h" if "i < ?n" for i
    using that assms ring_index_inj [of i e ?n t] ring_count_less [of h e t]
      ring_head_index [of h e t] by auto
  then show ?thesis
    unfolding ring_view_def by (intro map_cong) (auto simp: nth_list_update_neq [OF not_sym])
qed

lemma ring_view_extend:
  assumes "h < e" "t < e"
  shows "ring_view buf e t (Suc (ring_count e h t)) = ring_view buf e t (ring_count e h t) @ [buf ! h]"
  using assms by (simp add: ring_view_def ring_head_index)

lemma ring_view_snoc:
  assumes "h < e" "t < e" "h < length buf" "n = ring_count e h t"
  shows "ring_view (buf[h := x]) e t (Suc n) = ring_view buf e t n @ [x]"
  using assms by (simp add: ring_view_extend ring_view_upd_head)

lemma ring_view_Cons:
  assumes "t < e"
  shows "ring_view buf e t (Suc n) = buf ! t # ring_view buf e (cyc_succ e t) n"
proof -
  have "(t + Suc i) mod e = (cyc_succ e t + i) mod e" for i
  proof (cases "Suc t = e")
    case True
    then have "t + Suc i = e + i" by simp
    with True show ?thesis by (simp only: cyc_succ_def mod_add_self1 if_True) simp
  qed (simp add: cyc_succ_def)
  then show ?thesis using assms
    by (simp add: ring_view_def upt_conv_Cons map_Suc_upt [symmetric] del: upt_Suc)
qed

lemma ring_view_add:
  "ring_view buf e t (m + n) = ring_view buf e t m @ ring_view buf e (t + m) n"
  by (rule nth_equalityI) (auto simp: nth_append add.assoc)

lemma ring_view_mod [simp]: "ring_view buf e (t mod e) n = ring_view buf e t n"
  by (simp add: ring_view_def mod_simps)

lemma ring_view_linear:
  assumes "t + n \<le> e" "e \<le> length buf"
  shows "ring_view buf e t n = take n (drop t buf)"
proof (cases "n = 0")
  case False
  show ?thesis by (rule nth_equalityI) (use assms False in auto)
qed simp

lemma ring_view_pieces:
  assumes "t < e" "e \<le> length buf" "n \<le> e"
  shows "ring_view buf e t n =
     (if t + n \<le> e then take n (drop t buf) else take (e - t) (drop t buf) @ take (n - (e - t)) buf)"
proof (cases "t + n \<le> e")
  case False
  have "ring_view buf e t n = ring_view buf e t (e - t) @ ring_view buf e e (n - (e - t))"
    using ring_view_add [of buf e t "e - t" "n - (e - t)"] False assms by simp
  also have "ring_view buf e e (n - (e - t)) = ring_view buf e 0 (n - (e - t))"
    using ring_view_mod [of buf e e] by simp
  finally show ?thesis using False assms by (simp add: ring_view_linear)
qed (use assms in \<open>simp add: ring_view_linear\<close>)

section \<open>Copies into an array\<close>

definition blit :: "'a list \<Rightarrow> nat \<Rightarrow> 'a list \<Rightarrow> 'a list" where
  "blit buf i xs = take i buf @ xs @ drop (i + length xs) buf"

lemma length_blit [simp]: "i + length xs \<le> length buf \<Longrightarrow> length (blit buf i xs) = length buf"
  by (simp add: blit_def)

lemma blit_nth:
  "i + length xs \<le> length buf \<Longrightarrow> j < length buf \<Longrightarrow>
   blit buf i xs ! j = (if i \<le> j \<and> j < i + length xs then xs ! (j - i) else buf ! j)"
  by (auto simp: blit_def nth_append min_def)

lemma blit_Nil [simp]: "i \<le> length buf \<Longrightarrow> blit buf i [] = buf"
  by (simp add: blit_def)

text \<open>
  A write of \<open>xs\<close> into the ring from index \<open>h\<close> on, in at most two linear pieces.
\<close>

definition ring_write :: "'a list \<Rightarrow> nat \<Rightarrow> nat \<Rightarrow> 'a list \<Rightarrow> 'a list" where
  "ring_write buf e h xs =
     (if h + length xs < e then blit buf h xs
      else blit (blit buf h (take (e - h) xs)) 0 (drop (e - h) xs))"

lemma ring_write_parts:
  assumes "h < e" "e \<le> length buf" "length xs \<le> e" "\<not> h + length xs < e"
  shows "length (take (e - h) xs) = e - h" "length (blit buf h (take (e - h) xs)) = length buf"
    "length (drop (e - h) xs) \<le> length buf"
proof -
  show l: "length (take (e - h) xs) = e - h" using assms by auto
  show "length (blit buf h (take (e - h) xs)) = length buf"
    using assms l by (subst length_blit) auto
  show "length (drop (e - h) xs) \<le> length buf" using assms by auto
qed

lemma length_ring_write [simp]:
  assumes "h < e" "e \<le> length buf" "length xs \<le> e"
  shows "length (ring_write buf e h xs) = length buf"
proof (cases "h + length xs < e")
  case False
  with ring_write_parts [OF assms False] show ?thesis by (simp add: ring_write_def)
qed (use assms in \<open>simp add: ring_write_def\<close>)

lemma ring_write_nth:
  assumes "h < e" "e \<le> length buf" "length xs \<le> e" "k < e"
  shows "ring_write buf e h xs ! ((h + k) mod e) =
     (if k < length xs then xs ! k else buf ! ((h + k) mod e))"
proof (cases "h + length xs < e")
  case True
  with assms show ?thesis by (auto simp: ring_write_def blit_nth ring_mod_cases)
next
  case False
  note rp = ring_write_parts [OF assms(1-3) False]
  from False assms rp show ?thesis
    by (auto simp: ring_write_def blit_nth ring_mod_cases simp del: length_take)
qed

lemma ring_write_view:
  assumes "h < e" "t < e" "e \<le> length buf" "ring_count e h t + length xs < e"
  shows "ring_view (ring_write buf e h xs) e t (ring_count e h t + length xs) =
     ring_view buf e t (ring_count e h t) @ xs"
proof -
  let ?c = "ring_count e h t" and ?b = "ring_write buf e h xs"
  have bk: "(t + j) mod e = (h + (e - ?c + j)) mod e" if "j < ?c" for j
  proof -
    have "?c < e" using assms(1,2) by (rule ring_count_less)
    then have "(h + (e - ?c + j)) mod e = ((t + ?c) mod e + (e - ?c + j)) mod e"
      using assms(1,2) by (simp add: ring_head_index)
    also have "\<dots> = (t + ?c + (e - ?c + j)) mod e" by (simp add: mod_simps)
    also have "t + ?c + (e - ?c + j) = t + j + e" using \<open>?c < e\<close> by simp
    finally show ?thesis by simp
  qed
  have old: "?b ! ((t + j) mod e) = buf ! ((t + j) mod e)" if "j < ?c" for j
    unfolding bk [OF that] using that assms ring_count_less [of h e t]
    by (subst ring_write_nth) auto
  have new: "?b ! ((t + (?c + k)) mod e) = xs ! k" if "k < length xs" for k
  proof -
    have "(t + (?c + k)) mod e = (h + k) mod e"
      using ring_head_index [OF assms(1,2)] by (metis add.assoc mod_add_left_eq)
    with that assms show ?thesis by (simp add: ring_write_nth)
  qed
  show ?thesis
    by (rule nth_equalityI) (auto simp: nth_append old, metis new add_diff_inverse_nat
        nat_add_left_cancel_less)
qed

section \<open>Searching\<close>

lemma find_append:
  "List.find P (xs @ ys) = (case List.find P xs of None \<Rightarrow> List.find P ys | Some x \<Rightarrow> Some x)"
  by (induction xs) auto

section \<open>Counting\<close>

lemma length_filter_upd:
  "k < length xs \<Longrightarrow> length (filter P (xs[k := x])) + (if P (xs ! k) then 1 else 0) =
     length (filter P xs) + (if P x then 1 else 0)"
proof (induction xs arbitrary: k)
  case (Cons y ys)
  then show ?case by (cases k) auto
qed simp

lemma filter_hd_tl:
  "xs \<noteq> [] \<Longrightarrow> length (filter P xs) = (if P (hd xs) then 1 else 0) + length (filter P (tl xs))"
  by (cases xs) auto

end
