(* ===== verification/Bounded_Queue.thy ===== *)
theory Bounded_Queue
  imports Prelude
begin

text \<open>
  The contract every queue of pifus promises its clients: a first-in first-out queue with a fixed
  capacity, whose \<open>put\<close> refuses when the queue is full and whose \<open>get\<close> answers nothing when it
  is empty. The submission queue, completion queue, write queue, receive queue, new-socket queue and
  the three TX queues all rely on it; \<open>Ring_Buffer\<close> discharges it for the code.
\<close>

section \<open>Operation sequences\<close>

datatype 'a qop = Put 'a | Get

text \<open>
  A run of operations in any order: the elements the queue accepted and the elements it handed out,
  both in order, and the final queue.
\<close>

fun qrun :: "('q \<Rightarrow> 'a \<Rightarrow> bool \<times> 'q) \<Rightarrow> ('q \<Rightarrow> 'a option \<times> 'q) \<Rightarrow> 'q \<Rightarrow> 'a qop list
    \<Rightarrow> 'a list \<times> 'a list \<times> 'q" where
  "qrun put get q [] = ([], [], q)"
| "qrun put get q (Put x # ops) =
     (case put q x of (ok, q1) \<Rightarrow>
        (case qrun put get q1 ops of (acc, out, q2) \<Rightarrow> ((if ok then x # acc else acc), out, q2)))"
| "qrun put get q (Get # ops) =
     (case get q of (r, q1) \<Rightarrow>
        (case qrun put get q1 ops of (acc, out, q2) \<Rightarrow>
           (acc, (case r of None \<Rightarrow> out | Some y \<Rightarrow> y # out), q2)))"

section \<open>The interface\<close>

locale bounded_queue =
  fixes inv :: "'q \<Rightarrow> bool"
    and content :: "'q \<Rightarrow> 'a list"
    and cap :: "'q \<Rightarrow> nat"
    and put :: "'q \<Rightarrow> 'a \<Rightarrow> bool \<times> 'q"
    and get :: "'q \<Rightarrow> 'a option \<times> 'q"
  assumes bounded: "inv q \<Longrightarrow> length (content q) \<le> cap q"
    and put_refused: "inv q \<Longrightarrow> length (content q) = cap q \<Longrightarrow> put q x = (False, q)"
    and put_accepted: "inv q \<Longrightarrow> length (content q) < cap q \<Longrightarrow> put q x = (ok, q') \<Longrightarrow>
        ok \<and> inv q' \<and> content q' = content q @ [x] \<and> cap q' = cap q"
    and get_none: "inv q \<Longrightarrow> content q = [] \<Longrightarrow> get q = (None, q)"
    and get_some: "inv q \<Longrightarrow> content q \<noteq> [] \<Longrightarrow> get q = (r, q') \<Longrightarrow>
        r = Some (hd (content q)) \<and> inv q' \<and> content q' = tl (content q) \<and> cap q' = cap q"
begin

lemma put_cases:
  assumes "inv q" "put q x = (ok, q')"
  shows "inv q'" "cap q' = cap q" "content q' = content q @ (if ok then [x] else [])"
    "ok = (length (content q) < cap q)"
proof -
  have "inv q' \<and> cap q' = cap q \<and> content q' = content q @ (if ok then [x] else []) \<and>
      ok = (length (content q) < cap q)"
  proof (cases "length (content q) = cap q")
    case True
    with assms put_refused [OF assms(1) True, of x] show ?thesis by simp
  next
    case False
    with bounded [OF assms(1)] have lt: "length (content q) < cap q" by simp
    with put_accepted [OF assms(1) lt assms(2)] show ?thesis by simp
  qed
  then show "inv q'" "cap q' = cap q" "content q' = content q @ (if ok then [x] else [])"
    "ok = (length (content q) < cap q)" by blast+
qed

lemma get_cases:
  assumes "inv q" "get q = (r, q')"
  shows "inv q'" "cap q' = cap q"
    "content q = (case r of None \<Rightarrow> [] | Some y \<Rightarrow> [y]) @ content q'"
    "(r = None) = (content q = [])"
proof -
  have "inv q' \<and> cap q' = cap q \<and>
      content q = (case r of None \<Rightarrow> [] | Some y \<Rightarrow> [y]) @ content q' \<and>
      (r = None) = (content q = [])"
  proof (cases "content q = []")
    case True
    with assms get_none show ?thesis by auto
  next
    case False
    with get_some [OF assms(1) False assms(2)] assms(1) show ?thesis by auto
  qed
  then show "inv q'" "cap q' = cap q"
    "content q = (case r of None \<Rightarrow> [] | Some y \<Rightarrow> [y]) @ content q'"
    "(r = None) = (content q = [])" by blast+
qed

text \<open>
  No operation sequence loses, duplicates or reorders an element: what was in the queue followed by
  what it accepted is what it handed out followed by what is left.
\<close>

lemma fifo_run:
  assumes "inv q" "qrun put get q ops = (acc, out, q')"
  shows "inv q' \<and> cap q' = cap q \<and> content q @ acc = out @ content q'"
  using assms
proof (induction ops arbitrary: q acc out)
  case Nil
  then show ?case by simp
next
  case (Cons op ops)
  show ?case
  proof (cases op)
    case (Put x)
    obtain ok q1 acc1 out1 where p: "put q x = (ok, q1)"
      and r: "qrun put get q1 ops = (acc1, out1, q')"
      using Cons.prems(2) Put by (auto split: prod.splits)
    with Cons.prems(2) Put have eq: "acc = (if ok then x # acc1 else acc1)" "out = out1" by auto
    note pc = put_cases [OF Cons.prems(1) p]
    from Cons.IH [OF pc(1) r] pc eq show ?thesis by auto
  next
    case Get
    obtain a q1 acc1 out1 where g: "get q = (a, q1)"
      and r: "qrun put get q1 ops = (acc1, out1, q')"
      using Cons.prems(2) Get by (auto split: prod.splits)
    with Cons.prems(2) Get
    have eq: "acc = acc1" "out = (case a of None \<Rightarrow> [] | Some y \<Rightarrow> [y]) @ out1"
      by (auto split: option.splits)
    note gc = get_cases [OF Cons.prems(1) g]
    from Cons.IH [OF gc(1) r] gc eq show ?thesis by auto
  qed
qed

text \<open>Whatever fits in an empty queue comes out again, in order.\<close>

lemma put_all:
  assumes "inv q" "length (content q) + length xs \<le> cap q"
    "qrun put get q (map Put xs) = (acc, out, q')"
  shows "acc = xs \<and> out = [] \<and> inv q' \<and> content q' = content q @ xs"
  using assms
proof (induction xs arbitrary: q acc out)
  case Nil
  then show ?case by simp
next
  case (Cons x xs)
  obtain ok q1 acc1 out1 where p: "put q x = (ok, q1)"
    and r: "qrun put get q1 (map Put xs) = (acc1, out1, q')"
    using Cons.prems(3) by (auto split: prod.splits)
  note pc = put_cases [OF Cons.prems(1) p]
  have ok: "ok" using pc(4) Cons.prems(2) by simp
  have "length (content q1) + length xs \<le> cap q1" using pc ok Cons.prems(2) by simp
  from Cons.IH [OF pc(1) this r] Cons.prems(3) p r pc ok show ?case by auto
qed

lemma get_all:
  assumes "inv q" "qrun put get q (replicate (length (content q)) Get) = (acc, out, q')"
  shows "acc = [] \<and> out = content q \<and> inv q' \<and> content q' = []"
  using assms
proof (induction "content q" arbitrary: q acc out)
  case Nil
  then show ?case by (metis length_replicate list.size(3) qrun.simps(1) prod.inject replicate_empty)
next
  case (Cons x xs)
  from Cons.hyps(2) have c: "content q = x # xs" by simp
  obtain a q1 acc1 out1 where g: "get q = (a, q1)"
    and r: "qrun put get q1 (replicate (length xs) Get) = (acc1, out1, q')"
    using Cons.prems(2) c by (auto split: prod.splits)
  have gs: "a = Some x" "inv q1" "content q1 = xs"
    using get_some [OF Cons.prems(1) _ g] c by auto
  from Cons.hyps(1) [of q1 acc1 out1] gs r Cons.prems(2) g c show ?case by auto
qed

end

end
