(* ===== verification/Ring_Buffer.thy ===== *)
theory Ring_Buffer
  imports Bounded_Queue
begin

text \<open>
  The lock-free element ring buffer of \<open>api/src/pifus_ring_buffer.c\<close> (macros
  \<open>RING_BUFFER_FN_*\<close>, instantiated there for six element types and modelled once, polymorphically).
  The C struct holds three 16 bit indices; the element array is a separate argument of every
  operation, as in the source. A pointer into the array (\<open>*pel = &buf[tail]\<close>) is the index it
  points to. \<open>rb_inv\<close> is the invariant under which every array access is in bounds, \<open>rb_list\<close>
  the queue content, oldest element first; the locale \<open>bounded_queue\<close> states what a client relies on.
\<close>

section \<open>Model\<close>

record ring_buffer =
  rb_end :: u16
  rb_head :: u16
  rb_tail :: u16

definition ring_buffer_create :: "ring_buffer \<Rightarrow> u16 \<Rightarrow> ring_buffer" where
  "ring_buffer_create rb buffer_length =
     rb\<lparr>rb_end := buffer_length, rb_head := 0, rb_tail := 0\<rparr>"

text \<open>\<open>head + 1\<close> is computed in \<open>unsigned int\<close> and truncated to \<open>uint16_t\<close>: word addition.\<close>

definition ring_buffer_put :: "ring_buffer \<Rightarrow> 'a list \<Rightarrow> 'a \<Rightarrow> bool \<times> ring_buffer \<times> 'a list" where
  "ring_buffer_put rb buf el =
     (let head0 = rb_head rb + 1;
          head = (if head0 = rb_end rb then 0 else head0)
      in if head \<noteq> rb_tail rb
         then (True, rb\<lparr>rb_head := head\<rparr>, buf[unat (rb_head rb) := el])
         else (False, rb, buf))"

definition ring_buffer_get :: "ring_buffer \<Rightarrow> 'a list \<Rightarrow> 'a option \<times> ring_buffer" where
  "ring_buffer_get rb buf =
     (let tail = rb_tail rb
      in if rb_head rb \<noteq> tail
         then (let pel = buf ! unat tail;
                   tail1 = tail + 1;
                   tail2 = (if tail1 = rb_end rb then 0 else tail1)
               in (Some pel, rb\<lparr>rb_tail := tail2\<rparr>))
         else (None, rb))"

definition ring_buffer_peek :: "ring_buffer \<Rightarrow> u16 option" where
  "ring_buffer_peek rb =
     (let tail = rb_tail rb in if rb_head rb \<noteq> tail then Some tail else None)"

definition ring_buffer_erase_first :: "ring_buffer \<Rightarrow> bool \<times> ring_buffer" where
  "ring_buffer_erase_first rb =
     (let tail = rb_tail rb
      in if rb_head rb \<noteq> tail
         then (let tail1 = tail + 1;
                   tail2 = (if tail1 = rb_end rb then 0 else tail1)
               in (True, rb\<lparr>rb_tail := tail2\<rparr>))
         else (False, rb))"

text \<open>
  The two scanning loops. They need not end when an index is outside the ring (\<open>head \<ge> end\<close>), so
  the value \<open>None\<close> is a loop that does not return; \<open>Some None\<close> is the result \<open>false\<close>.
\<close>

partial_function (option) find_loop ::
    "ring_buffer \<Rightarrow> 'a list \<Rightarrow> ('a \<Rightarrow> bool) \<Rightarrow> u16 \<Rightarrow> u16 option option" where
  "find_loop rb buf satisfies tail =
     (if rb_head rb \<noteq> tail
      then if satisfies (buf ! unat tail) then Some (Some tail)
           else find_loop rb buf satisfies
                  (if tail + 1 = rb_end rb then 0 else tail + 1)
      else Some None)"

definition ring_buffer_find :: "ring_buffer \<Rightarrow> 'a list \<Rightarrow> ('a \<Rightarrow> bool) \<Rightarrow> u16 option option" where
  "ring_buffer_find rb buf satisfies = find_loop rb buf satisfies (rb_tail rb)"

definition ring_buffer_is_full :: "ring_buffer \<Rightarrow> bool" where
  "ring_buffer_is_full rb =
     (let head0 = rb_head rb + 1;
          head = (if head0 = rb_end rb then 0 else head0)
      in head = rb_tail rb)"

partial_function (option) peek_index_loop ::
    "ring_buffer \<Rightarrow> u16 \<Rightarrow> u16 \<Rightarrow> u16 \<Rightarrow> u16 option option" where
  "peek_index_loop rb index tail current_index =
     (if rb_head rb \<noteq> tail
      then if current_index = index then Some (Some tail)
           else peek_index_loop rb index
                  (if tail + 1 = rb_end rb then 0 else tail + 1) (current_index + 1)
      else Some None)"

definition ring_buffer_peek_index :: "ring_buffer \<Rightarrow> u16 \<Rightarrow> u16 option option" where
  "ring_buffer_peek_index rb index = peek_index_loop rb index (rb_tail rb) 0"

section \<open>Invariant and content\<close>

definition rb_inv :: "ring_buffer \<Rightarrow> 'a list \<Rightarrow> bool" where
  "rb_inv rb buf \<longleftrightarrow> unat (rb_head rb) < unat (rb_end rb) \<and> unat (rb_tail rb) < unat (rb_end rb)
     \<and> unat (rb_end rb) \<le> length buf"

definition rb_count :: "ring_buffer \<Rightarrow> nat" where
  "rb_count rb = ring_count (unat (rb_end rb)) (unat (rb_head rb)) (unat (rb_tail rb))"

definition rb_list :: "ring_buffer \<Rightarrow> 'a list \<Rightarrow> 'a list" where
  "rb_list rb buf = ring_view buf (unat (rb_end rb)) (unat (rb_tail rb)) (rb_count rb)"

lemma length_rb_list [simp]: "length (rb_list rb buf) = rb_count rb"
  by (simp add: rb_list_def)

lemma wrap_succ [unat_simps]:
  fixes w e :: u16
  assumes "unat w < unat e"
  shows "unat (if w + 1 = e then 0 else w + 1) = cyc_succ (unat e) (unat w)"
  using assms by (auto simp: cyc_succ_def word_eq_iff_unat unat_plus_one_u16)

lemmas rb_unfold = rb_inv_def rb_count_def rb_list_def

lemma rb_count_bound: "rb_inv rb buf \<Longrightarrow> rb_count rb < unat (rb_end rb)"
  by (simp add: rb_unfold ring_count_less)

lemma rb_empty_iff: "rb_inv rb buf \<Longrightarrow> rb_list rb buf = [] \<longleftrightarrow> rb_head rb = rb_tail rb"
  by (metis length_0_conv length_rb_list rb_count_def rb_inv_def ring_count_0 word_eq_iff_unat)

lemma rb_list_Cons:
  assumes "rb_inv rb buf" "rb_head rb \<noteq> rb_tail rb"
  shows "rb_list rb buf = buf ! unat (rb_tail rb) #
           ring_view buf (unat (rb_end rb)) (cyc_succ (unat (rb_end rb)) (unat (rb_tail rb)))
             (ring_count (unat (rb_end rb)) (unat (rb_head rb))
                (cyc_succ (unat (rb_end rb)) (unat (rb_tail rb))))"
  using assms
  by (simp add: rb_unfold ring_count_succ_tail word_eq_iff_unat ring_view_Cons)

section \<open>Functional behaviour\<close>

lemma create_inv:
  "0 < unat n \<Longrightarrow> unat n \<le> length buf \<Longrightarrow> rb_inv (ring_buffer_create rb n) buf"
  by (simp add: ring_buffer_create_def rb_inv_def)

lemma create_list [simp]: "rb_list (ring_buffer_create rb n) buf = []"
  by (simp add: ring_buffer_create_def rb_list_def rb_count_def ring_count_def)

lemma is_full_iff:
  assumes "rb_inv rb buf"
  shows "ring_buffer_is_full rb \<longleftrightarrow> length (rb_list rb buf) = unat (rb_end rb) - 1"
proof -
  have "unat (rb_head rb) < unat (rb_end rb)" using assms by (simp add: rb_inv_def)
  from wrap_succ [OF this] show ?thesis using assms
    by (auto simp: ring_buffer_is_full_def Let_def word_eq_iff_unat [of _ "rb_tail rb"]
        rb_inv_def rb_count_def ring_count_full)
qed

lemma put_full:
  "rb_inv rb buf \<Longrightarrow> ring_buffer_is_full rb \<Longrightarrow> ring_buffer_put rb buf el = (False, rb, buf)"
  by (simp add: ring_buffer_is_full_def ring_buffer_put_def Let_def)

lemma put_not_full:
  assumes inv: "rb_inv rb buf" and nf: "\<not> ring_buffer_is_full rb"
    and put: "ring_buffer_put rb buf el = (ok, rb', buf')"
  shows "ok" "rb_inv rb' buf'" "rb_list rb' buf' = rb_list rb buf @ [el]"
    "rb_end rb' = rb_end rb" "length buf' = length buf" "rb_tail rb' = rb_tail rb"
proof -
  let ?e = "unat (rb_end rb)" and ?h = "unat (rb_head rb)" and ?t = "unat (rb_tail rb)"
  have b: "?h < ?e" "?t < ?e" "?e \<le> length buf" using inv by (auto simp: rb_inv_def)
  have h': "unat (rb_head rb') = cyc_succ ?e ?h"
    and rest: "ok" "rb_end rb' = rb_end rb" "rb_tail rb' = rb_tail rb" "buf' = buf[?h := el]"
    using put nf wrap_succ [OF b(1)]
    by (auto simp: ring_buffer_is_full_def ring_buffer_put_def Let_def split: if_splits)
  have ne: "cyc_succ ?e ?h \<noteq> ?t"
    using nf wrap_succ [OF b(1)] by (auto simp: ring_buffer_is_full_def Let_def word_eq_iff_unat)
  show "ok" "rb_end rb' = rb_end rb" "length buf' = length buf" "rb_tail rb' = rb_tail rb"
    using rest by auto
  show "rb_inv rb' buf'" using b h' rest by (simp add: rb_inv_def cyc_succ_less)
  show "rb_list rb' buf' = rb_list rb buf @ [el]"
    using b h' rest ne
    by (simp add: rb_list_def rb_count_def ring_count_succ_head ring_view_snoc)
qed

lemma get_empty:
  "rb_inv rb buf \<Longrightarrow> rb_list rb buf = [] \<Longrightarrow> ring_buffer_get rb buf = (None, rb)"
  by (simp add: rb_empty_iff ring_buffer_get_def Let_def)

lemma erase_nonempty:
  assumes inv: "rb_inv rb buf" and ne: "rb_list rb buf \<noteq> []"
    and er: "ring_buffer_erase_first rb = (ok, rb')"
  shows "ok" "rb_inv rb' buf" "rb_list rb buf = buf ! unat (rb_tail rb) # rb_list rb' buf"
    "rb_end rb' = rb_end rb" "rb_head rb' = rb_head rb"
proof -
  let ?e = "unat (rb_end rb)" and ?t = "unat (rb_tail rb)"
  have b: "?t < ?e" using inv by (auto simp: rb_inv_def)
  have ht: "rb_head rb \<noteq> rb_tail rb" using inv ne by (simp add: rb_empty_iff)
  have t': "unat (rb_tail rb') = cyc_succ ?e ?t"
    and rest: "ok" "rb_end rb' = rb_end rb" "rb_head rb' = rb_head rb"
    using er ht wrap_succ [OF b]
    by (auto simp: ring_buffer_erase_first_def Let_def split: if_splits)
  show "ok" "rb_end rb' = rb_end rb" "rb_head rb' = rb_head rb" using rest by auto
  show "rb_inv rb' buf" using inv t' rest by (simp add: rb_inv_def cyc_succ_less)
  show "rb_list rb buf = buf ! unat (rb_tail rb) # rb_list rb' buf"
    using rb_list_Cons [OF inv ht] t' rest by (simp add: rb_list_def rb_count_def)
qed

lemma get_via_erase:
  "ring_buffer_get rb buf =
     (if rb_head rb \<noteq> rb_tail rb
      then (Some (buf ! unat (rb_tail rb)), snd (ring_buffer_erase_first rb)) else (None, rb))"
  by (simp add: ring_buffer_get_def ring_buffer_erase_first_def Let_def)

lemma get_nonempty:
  assumes inv: "rb_inv rb buf" and ne: "rb_list rb buf \<noteq> []"
    and get: "ring_buffer_get rb buf = (r, rb')"
  shows "r = Some (hd (rb_list rb buf))" "rb_inv rb' buf" "rb_list rb' buf = tl (rb_list rb buf)"
    "rb_end rb' = rb_end rb"
proof -
  obtain ok rb2 where er: "ring_buffer_erase_first rb = (ok, rb2)" by force
  note e = erase_nonempty [OF inv ne er]
  have "r = Some (buf ! unat (rb_tail rb))" "rb' = rb2"
    using get er inv ne by (auto simp: get_via_erase rb_empty_iff)
  with e show "r = Some (hd (rb_list rb buf))" "rb_inv rb' buf"
    "rb_list rb' buf = tl (rb_list rb buf)" "rb_end rb' = rb_end rb" by auto
qed

lemma erase_empty:
  "rb_inv rb buf \<Longrightarrow> rb_list rb buf = [] \<Longrightarrow> ring_buffer_erase_first rb = (False, rb)"
  by (simp add: rb_empty_iff ring_buffer_erase_first_def Let_def)

lemma peek_spec:
  assumes "rb_inv rb buf"
  shows "ring_buffer_peek rb = (if rb_list rb buf = [] then None else Some (rb_tail rb))"
    "rb_list rb buf \<noteq> [] \<Longrightarrow> buf ! unat (rb_tail rb) = hd (rb_list rb buf)"
    "unat (rb_tail rb) < length buf"
  using assms by (auto simp: ring_buffer_peek_def rb_empty_iff rb_list_Cons rb_inv_def)

subsection \<open>The scanning loops\<close>

text \<open>Position \<open>k\<close> of the content lives in this slot of the array.\<close>

definition rb_slot :: "ring_buffer \<Rightarrow> nat \<Rightarrow> nat" where
  "rb_slot rb k = (unat (rb_tail rb) + k) mod unat (rb_end rb)"

lemma rb_slot_less:
  assumes "rb_inv rb buf"
  shows "rb_slot rb k < length buf"
proof -
  have "0 < unat (rb_end rb)" using assms by (auto simp: rb_inv_def)
  then have "rb_slot rb k < unat (rb_end rb)" by (simp add: rb_slot_def)
  with assms show ?thesis by (simp add: rb_inv_def)
qed

lemma rb_slot_unat:
  assumes "rb_inv rb buf"
  shows "unat (of_nat (rb_slot rb k) :: u16) = rb_slot rb k"
proof -
  have "0 < unat (rb_end rb)" using assms by (auto simp: rb_inv_def)
  then have "rb_slot rb k < unat (rb_end rb)" by (simp add: rb_slot_def)
  then show ?thesis using unat_less_u16 [of "rb_end rb"] by (simp add: unat_of_nat take_bit_nat_eq_self)
qed

lemma find_takeWhile:
  "\<exists>x\<in>set xs. P x \<Longrightarrow> length (takeWhile (\<lambda>x. \<not> P x) xs) < length xs
     \<and> List.find P xs = Some (xs ! length (takeWhile (\<lambda>x. \<not> P x) xs))"
  by (induction xs) auto

lemma rb_list_nth: "k < rb_count rb \<Longrightarrow> rb_list rb buf ! k = buf ! rb_slot rb k"
  by (simp add: rb_list_def rb_slot_def)

lemma rb_list_update:
  assumes "rb_inv rb buf" "k < rb_count rb"
  shows "rb_list rb (buf[rb_slot rb k := x]) = (rb_list rb buf)[k := x]"
proof (rule nth_equalityI)
  fix i assume "i < length (rb_list rb (buf[rb_slot rb k := x]))"
  then have i: "i < rb_count rb" by simp
  have "rb_slot rb i = rb_slot rb k \<Longrightarrow> i = k"
    using ring_index_inj [of i "unat (rb_end rb)" k "unat (rb_tail rb)"] i assms(2) rb_count_bound [OF assms(1)]
    by (simp add: rb_slot_def)
  then show "rb_list rb (buf[rb_slot rb k := x]) ! i = (rb_list rb buf)[k := x] ! i"
    using i assms rb_slot_less [OF assms(1), of k] by (auto simp: rb_list_nth nth_list_update)
qed simp

text \<open>A nonempty buffer seen by a consumer that updates its head in place and then erases it.\<close>

lemma rb_head_slot:
  assumes "rb_inv rb buf" "rb_list rb buf = e # es"
  shows "ring_buffer_peek rb = Some (rb_tail rb)" "buf ! unat (rb_tail rb) = e"
    "rb_inv rb (buf[unat (rb_tail rb) := e'])" "rb_list rb (buf[unat (rb_tail rb) := e']) = e' # es"
    "rb_inv (snd (ring_buffer_erase_first rb)) buf" "rb_list (snd (ring_buffer_erase_first rb)) buf = es"
    "rb_end (snd (ring_buffer_erase_first rb)) = rb_end rb"
proof -
  obtain ok rb' where er: "ring_buffer_erase_first rb = (ok, rb')" by force
  note x = erase_nonempty [OF assms(1) _ er]
  show "ring_buffer_peek rb = Some (rb_tail rb)" "buf ! unat (rb_tail rb) = e"
    using peek_spec [OF assms(1)] assms(2) by auto
  show "rb_inv rb (buf[unat (rb_tail rb) := e'])" using assms(1) by (simp add: rb_inv_def)
  have "rb_count rb = Suc (length es)" using arg_cong [OF assms(2), of length] by simp
  moreover have "unat (rb_tail rb) = rb_slot rb 0" using assms(1) by (simp add: rb_slot_def rb_inv_def)
  ultimately show "rb_list rb (buf[unat (rb_tail rb) := e']) = e' # es"
    using rb_list_update [OF assms(1), of 0 e'] assms(2) by simp
  show "rb_inv (snd (ring_buffer_erase_first rb)) buf" "rb_list (snd (ring_buffer_erase_first rb)) buf = es"
    "rb_end (snd (ring_buffer_erase_first rb)) = rb_end rb"
    using er x(2-4) assms(2) by simp_all
qed

text \<open>One round of a scanning loop: the facts both loops use about the index it moves to.\<close>

lemma scan_step:
  assumes inv: "rb_inv rb buf" and t: "unat tail < unat (rb_end rb)"
    and cnt: "Suc n = ring_count (unat (rb_end rb)) (unat (rb_head rb)) (unat tail)"
    and t': "tail' = (if tail + 1 = rb_end rb then 0 else tail + 1)"
  shows "rb_head rb \<noteq> tail" "unat tail' < unat (rb_end rb)"
    "n = ring_count (unat (rb_end rb)) (unat (rb_head rb)) (unat tail')"
    "ring_view buf (unat (rb_end rb)) (unat tail) (Suc n) =
       buf ! unat tail # ring_view buf (unat (rb_end rb)) (unat tail') n"
    "(unat tail' + k) mod unat (rb_end rb) = (unat tail + Suc k) mod unat (rb_end rb)"
proof -
  let ?e = "unat (rb_end rb)" and ?h = "unat (rb_head rb)"
  have u: "unat tail' = cyc_succ ?e (unat tail)" using wrap_succ [OF t] t' by simp
  have ne: "?h \<noteq> unat tail" using assms by (metis Zero_not_Suc rb_inv_def ring_count_0)
  then show "rb_head rb \<noteq> tail" by auto
  show "unat tail' < ?e" using u t by (simp add: cyc_succ_less)
  show "n = ring_count ?e ?h (unat tail')"
    using cnt ne u t inv ring_count_succ_tail [of ?h ?e "unat tail"] by (simp add: rb_inv_def)
  show "ring_view buf ?e (unat tail) (Suc n) = buf ! unat tail # ring_view buf ?e (unat tail') n"
    using t u by (simp add: ring_view_Cons)
  show "(unat tail' + k) mod ?e = (unat tail + Suc k) mod ?e"
    using t u by (simp add: cyc_succ_mod mod_simps)
qed

lemma find_loop_spec:
  assumes "rb_inv rb buf" "unat tail < unat (rb_end rb)"
    and "n = ring_count (unat (rb_end rb)) (unat (rb_head rb)) (unat tail)"
    and "xs = ring_view buf (unat (rb_end rb)) (unat tail) n"
  shows "find_loop rb buf P tail =
     Some (if \<exists>x\<in>set xs. P x
           then Some (of_nat ((unat tail + length (takeWhile (\<lambda>x. \<not> P x) xs)) mod unat (rb_end rb)))
           else None)"
  using assms
proof (induction n arbitrary: tail xs)
  case 0
  then have "rb_head rb = tail" by (simp add: ring_count_0 rb_inv_def word_eq_iff_unat)
  with 0 show ?case by (simp add: find_loop.simps)
next
  case (Suc n)
  define tail' where "tail' = (if tail + 1 = rb_end rb then 0 else tail + 1)"
  note st = scan_step [OF Suc.prems(1,2,3) tail'_def]
  have "find_loop rb buf P tail =
      (if P (buf ! unat tail) then Some (Some tail) else find_loop rb buf P tail')"
    using st(1) by (subst find_loop.simps) (simp add: tail'_def)
  with Suc.IH [OF Suc.prems(1) st(2) st(3) refl] Suc.prems(2,4) st(4,5) show ?case by auto
qed

lemma peek_index_loop_spec:
  assumes "rb_inv rb buf" "unat tail < unat (rb_end rb)"
    and "n = ring_count (unat (rb_end rb)) (unat (rb_head rb)) (unat tail)"
    and "unat ci + n < 2 ^ 16" "unat ci \<le> unat index"
  shows "peek_index_loop rb index tail ci =
     Some (if unat index - unat ci < n
           then Some (of_nat ((unat tail + (unat index - unat ci)) mod unat (rb_end rb))) else None)"
  using assms
proof (induction n arbitrary: tail ci)
  case 0
  then have "rb_head rb = tail" by (simp add: ring_count_0 rb_inv_def word_eq_iff_unat)
  with 0 show ?case by (simp add: peek_index_loop.simps)
next
  case (Suc n)
  define tail' where "tail' = (if tail + 1 = rb_end rb then 0 else tail + 1)"
  note st = scan_step [OF Suc.prems(1,2,3) tail'_def]
  have unf: "peek_index_loop rb index tail ci =
      (if ci = index then Some (Some tail) else peek_index_loop rb index tail' (ci + 1))"
    using st(1) by (subst peek_index_loop.simps) (simp add: tail'_def)
  show ?case
  proof (cases "ci = index")
    case True
    with unf Suc.prems(2) show ?thesis by simp
  next
    case False
    then have lt: "unat ci < unat index" using Suc.prems(5) by (simp add: word_eq_iff_unat)
    have uc: "unat (ci + 1) = Suc (unat ci)" by (rule unat_plus_one_u16 [OF lt])
    have d: "unat index - unat ci = Suc (unat index - Suc (unat ci))" using lt by simp
    have "peek_index_loop rb index tail' (ci + 1) =
       Some (if unat index - unat (ci + 1) < n
         then Some (of_nat ((unat tail' + (unat index - unat (ci + 1))) mod unat (rb_end rb)))
         else None)"
      using Suc.IH [OF Suc.prems(1) st(2) st(3), of "ci + 1"] Suc.prems(4) lt uc by simp
    with unf False show ?thesis by (simp add: uc st(5) d)
  qed
qed

lemma find_spec:
  assumes "rb_inv rb buf"
  shows "ring_buffer_find rb buf P =
     Some (if \<exists>x\<in>set (rb_list rb buf). P x
           then Some (of_nat (rb_slot rb (length (takeWhile (\<lambda>x. \<not> P x) (rb_list rb buf))))) else None)"
  unfolding ring_buffer_find_def rb_slot_def
  using assms by (intro find_loop_spec) (auto simp: rb_inv_def rb_list_def rb_count_def)

lemma peek_index_spec:
  assumes "rb_inv rb buf"
  shows "ring_buffer_peek_index rb index =
     Some (if unat index < rb_count rb then Some (of_nat (rb_slot rb (unat index))) else None)"
proof -
  have "rb_count rb < 2 ^ 16"
    using rb_count_bound [OF assms] unat_less_u16 [of "rb_end rb"] by simp
  with assms show ?thesis
    unfolding ring_buffer_peek_index_def rb_slot_def
    by (subst peek_index_loop_spec [OF assms]) (auto simp: rb_inv_def rb_count_def)
qed

text \<open>The two outcomes of \<open>find\<close>, with the position of the element it points to.\<close>

lemma find_cases:
  assumes "rb_inv rb buf"
  obtains "ring_buffer_find rb buf P = Some None" "\<forall>x\<in>set (rb_list rb buf). \<not> P x"
  | i k where "ring_buffer_find rb buf P = Some (Some i)" "k < rb_count rb" "unat i = rb_slot rb k"
      "P (rb_list rb buf ! k)" "List.find P (rb_list rb buf) = Some (rb_list rb buf ! k)"
proof (cases "\<exists>x\<in>set (rb_list rb buf). P x")
  case True
  let ?k = "length (takeWhile (\<lambda>x. \<not> P x) (rb_list rb buf))"
  note f = find_takeWhile [OF True]
  then have "P (rb_list rb buf ! ?k)" by (auto simp: find_Some_iff)
  with True f that(2) [of "of_nat (rb_slot rb ?k)" ?k] show thesis
    by (simp add: find_spec [OF assms] rb_slot_unat [OF assms])
next
  case False
  with that(1) show thesis by (simp add: find_spec [OF assms])
qed

section \<open>The ring buffer as a bounded queue\<close>

text \<open>The queue a client sees: the indices together with the array they index.\<close>

type_synonym 'a rb_queue = "ring_buffer \<times> 'a list"

fun rbq_put :: "'a rb_queue \<Rightarrow> 'a \<Rightarrow> bool \<times> 'a rb_queue" where
  "rbq_put (rb, buf) x = ring_buffer_put rb buf x"

fun rbq_get :: "'a rb_queue \<Rightarrow> 'a option \<times> 'a rb_queue" where
  "rbq_get (rb, buf) = (case ring_buffer_get rb buf of (r, rb') \<Rightarrow> (r, rb', buf))"

definition rbq_cap :: "'a rb_queue \<Rightarrow> nat" where
  "rbq_cap q = unat (rb_end (fst q)) - 1"

interpretation rbq: bounded_queue "\<lambda>(rb, buf). rb_inv rb buf" "\<lambda>(rb, buf). rb_list rb buf"
    rbq_cap rbq_put rbq_get
proof (unfold_locales, goal_cases)
  case (1 q)
  then show ?case using rb_count_bound by (fastforce simp: rbq_cap_def)
next
  case (2 q x)
  obtain rb buf where q: "q = (rb, buf)" by force
  with 2 have "rb_inv rb buf" "ring_buffer_is_full rb"
    using is_full_iff [of rb buf] by (auto simp: rbq_cap_def)
  with q put_full [of rb buf x] show ?case by simp
next
  case (3 q x ok q')
  obtain rb buf where q: "q = (rb, buf)" by force
  obtain rb' buf' where q': "q' = (rb', buf')" by force
  have inv: "rb_inv rb buf" using 3 q by simp
  have "\<not> ring_buffer_is_full rb" using 3 q is_full_iff [OF inv] by (simp add: rbq_cap_def)
  from put_not_full [OF inv this, of x ok rb' buf'] 3 q q' show ?case by (simp add: rbq_cap_def)
next
  case (4 q)
  then show ?case by (auto simp: get_empty split: prod.splits)
next
  case (5 q r q')
  obtain rb buf where q: "q = (rb, buf)" by force
  obtain rb' where g: "ring_buffer_get rb buf = (r, rb')" and q': "q' = (rb', buf)"
    using 5 q by (auto split: prod.splits)
  from 5 q get_nonempty [OF _ _ g] q' show ?case by (simp add: rbq_cap_def)
qed

section \<open>Properties\<close>

text \<open>
  C1. Whatever sequence of puts and gets runs on a freshly created ring buffer, the elements handed
  out followed by those still held are exactly the accepted ones in order: nothing is lost, duplicated
  or reordered. The indices stay inside the array and at most \<open>n - 1\<close> elements are held.
\<close>

theorem ring_buffer_fifo:
  assumes "0 < unat n" "unat n \<le> length buf"
    and "qrun rbq_put rbq_get (ring_buffer_create rb n, buf) ops = (acc, out, (rb', buf'))"
  shows "acc = out @ rb_list rb' buf' \<and> rb_inv rb' buf' \<and> length (rb_list rb' buf') \<le> unat n - 1"
  using rbq.fifo_run [OF _ assms(3)] create_inv [OF assms(1,2), of rb] rb_count_bound [of rb' buf']
    create_list [of rb n buf]
  by (auto simp: rbq_cap_def ring_buffer_create_def)

theorem ring_buffer_fifo_witness:
  "qrun rbq_put rbq_get (ring_buffer_create \<lparr>rb_end = 9, rb_head = 7, rb_tail = 1\<rparr> 3, [0, 0, 0 :: nat])
      [Put 5, Put 6, Put 7, Get, Put 8, Get] =
     ([5, 6, 8], [5, 6], (\<lparr>rb_end = 3, rb_head = 0, rb_tail = 2\<rparr>, [5, 6, 8]))
   \<and> rb_list \<lparr>rb_end = 3, rb_head = 0, rb_tail = 2\<rparr> [5, 6, 8 :: nat] = [8]"
proof -
  let ?r = "qrun rbq_put rbq_get (ring_buffer_create \<lparr>rb_end = 9, rb_head = 7, rb_tail = 1\<rparr> 3, [0, 0, 0 :: nat])
      [Put 5, Put 6, Put 7, Get, Put 8, Get]"
  have e: "?r = ([5, 6, 8], [5, 6], (\<lparr>rb_end = 3, rb_head = 0, rb_tail = 2\<rparr>, [5, 6, 8]))"
    by (simp add: ring_buffer_create_def ring_buffer_put_def ring_buffer_get_def)
  from ring_buffer_fifo [OF _ _ e] e show ?thesis by simp
qed

text \<open>
  \<open>put\<close> on every branch: it answers true exactly when fewer than \<open>end - 1\<close> elements are held, and
  then appends the element; otherwise indices and array are unchanged. \<open>is_full\<close> agrees with it.
\<close>

theorem ring_buffer_put_cases:
  assumes "rb_inv rb buf" "ring_buffer_put rb buf el = (ok, rb', buf')"
  shows "ok = (length (rb_list rb buf) < unat (rb_end rb) - 1) \<and> ok = (\<not> ring_buffer_is_full rb)
     \<and> rb_inv rb' buf' \<and> length buf' = length buf
     \<and> (if ok then rb_list rb' buf' = rb_list rb buf @ [el] else rb' = rb \<and> buf' = buf)"
  using put_full [OF assms(1), of el] put_not_full [OF assms(1) _ assms(2)] is_full_iff [OF assms(1)]
    rb_count_bound [OF assms(1)] assms
  by (cases "ring_buffer_is_full rb") auto

theorem ring_buffer_put_cases_witness:
  "ring_buffer_put \<lparr>rb_end = 3, rb_head = 2, rb_tail = 1\<rparr> [4, 5, 6 :: nat] 9 =
      (True, \<lparr>rb_end = 3, rb_head = 0, rb_tail = 1\<rparr>, [4, 5, 9])
   \<and> \<not> ring_buffer_is_full \<lparr>rb_end = 3, rb_head = 2, rb_tail = 1\<rparr>"
proof -
  have e: "ring_buffer_put \<lparr>rb_end = 3, rb_head = 2, rb_tail = 1\<rparr> [4, 5, 6 :: nat] 9 =
      (True, \<lparr>rb_end = 3, rb_head = 0, rb_tail = 1\<rparr>, [4, 5, 9])"
    by (simp add: ring_buffer_put_def)
  have "rb_inv \<lparr>rb_end = 3, rb_head = 2, rb_tail = 1\<rparr> [4, 5, 6 :: nat]" by (simp add: rb_inv_def)
  from ring_buffer_put_cases [OF this e] e show ?thesis by simp
qed

text \<open>
  The scanning \<open>find\<close> and \<open>peek_index\<close> always return on a well-formed buffer. \<open>find\<close> yields an index
  inside the array whose element is the first one of the content that satisfies the predicate, or
  answers false when there is none; \<open>peek_index i\<close> yields the slot of the \<open>i\<close>-th oldest element.
\<close>

theorem ring_buffer_scan:
  assumes "rb_inv rb buf"
  shows "(\<exists>r. ring_buffer_find rb buf P = Some r
        \<and> map_option (\<lambda>i. buf ! unat i) r = List.find P (rb_list rb buf)
        \<and> pred_option (\<lambda>i. unat i < length buf) r)
     \<and> (\<exists>r. ring_buffer_peek_index rb index = Some r
        \<and> map_option (\<lambda>i. buf ! unat i) r =
            (if unat index < length (rb_list rb buf) then Some (rb_list rb buf ! unat index) else None)
        \<and> pred_option (\<lambda>i. unat i < length buf) r)"
proof
  let ?k = "length (takeWhile (\<lambda>x. \<not> P x) (rb_list rb buf))"
  have first: "?k < length (rb_list rb buf)" "List.find P (rb_list rb buf) = Some (rb_list rb buf ! ?k)"
    if "\<exists>x\<in>set (rb_list rb buf). P x"
    using find_takeWhile [OF that] by auto
  show "\<exists>r. ring_buffer_find rb buf P = Some r
        \<and> map_option (\<lambda>i. buf ! unat i) r = List.find P (rb_list rb buf)
        \<and> pred_option (\<lambda>i. unat i < length buf) r"
    using first rb_slot_less [OF assms] rb_list_nth [of ?k rb buf]
    by (auto simp: find_spec [OF assms] find_None_iff2 rb_slot_unat [OF assms])
  show "\<exists>r. ring_buffer_peek_index rb index = Some r
        \<and> map_option (\<lambda>i. buf ! unat i) r =
            (if unat index < length (rb_list rb buf) then Some (rb_list rb buf ! unat index) else None)
        \<and> pred_option (\<lambda>i. unat i < length buf) r"
    using rb_slot_less [OF assms] rb_list_nth [of "unat index" rb buf]
    by (auto simp: peek_index_spec [OF assms] rb_slot_unat [OF assms])
qed

theorem ring_buffer_scan_witness:
  "\<exists>r. ring_buffer_find \<lparr>rb_end = 3, rb_head = 1, rb_tail = 2\<rparr> [4, 5, 6 :: nat] (\<lambda>x. x < 6) = Some r
     \<and> map_option (\<lambda>i. [4, 5, 6 :: nat] ! unat i) r = Some 4"
proof -
  let ?rb = "\<lparr>rb_end = 3, rb_head = 1, rb_tail = 2\<rparr>" and ?buf = "[4, 5, 6 :: nat]"
  have "rb_inv ?rb ?buf" by (simp add: rb_inv_def)
  from ring_buffer_scan [OF this, of "\<lambda>x. x < 6" 0] have
    "\<exists>r. ring_buffer_find ?rb ?buf (\<lambda>x. x < 6) = Some r
        \<and> map_option (\<lambda>i. ?buf ! unat i) r = List.find (\<lambda>x. x < 6) (rb_list ?rb ?buf)" by blast
  moreover have "List.find (\<lambda>x. x < 6) (rb_list ?rb ?buf) = Some 4"
    by (simp add: rb_list_def rb_count_def ring_count_def ring_view_def upt_rec)
  ultimately show ?thesis by metis
qed

end
