(* ===== verification/Ring_Buffer_SPSC.thy ===== *)
theory Ring_Buffer_SPSC
  imports Ring_Buffer
begin

text \<open>
  The ring buffer is shared between an application process and the stack process without a lock:
  one side only calls \<open>put\<close>, the other only \<open>get\<close>. Here the two C functions are cut into their
  single reads and writes of shared memory (\<open>api/src/pifus_ring_buffer.c\<close>, lines 52-84), and the
  steps of producer and consumer interleave in any order on a sequentially consistent memory.
\<close>

section \<open>The two programs, one shared access per step\<close>

datatype 'a producer =
    PIdle
  | PLocal 'a u16     \<comment> \<open>local \<open>head\<close> computed (lines 55-58)\<close>
  | PWrite 'a u16     \<comment> \<open>\<open>tail\<close> read, buffer not full (line 59)\<close>
  | PPublish 'a u16   \<comment> \<open>element stored (line 60)\<close>

datatype 'a consumer =
    CIdle
  | CLocal u16        \<comment> \<open>local \<open>tail\<close> read (line 72)\<close>
  | CRead u16         \<comment> \<open>\<open>head\<close> read, buffer not empty (line 73)\<close>
  | CAdvance u16 'a   \<comment> \<open>element copied out (line 74)\<close>

record 'a spsc =
  s_rb :: ring_buffer
  s_buf :: "'a list"
  s_prod :: "'a producer"
  s_cons :: "'a consumer"
  s_sent :: "'a list"   \<comment> \<open>elements whose \<open>put\<close> returned true, in order\<close>
  s_recvd :: "'a list"  \<comment> \<open>elements \<open>get\<close> returned, in order\<close>

definition wrap :: "ring_buffer \<Rightarrow> u16 \<Rightarrow> u16" where
  "wrap rb i = (if i + 1 = rb_end rb then 0 else i + 1)"

inductive spsc_step :: "'a spsc \<Rightarrow> 'a spsc \<Rightarrow> bool" where
  put_begin: "s_prod s = PIdle \<Longrightarrow>
     spsc_step s (s\<lparr>s_prod := PLocal el (wrap (s_rb s) (rb_head (s_rb s)))\<rparr>)"
| put_refuse: "s_prod s = PLocal el h \<Longrightarrow> h = rb_tail (s_rb s) \<Longrightarrow>
     spsc_step s (s\<lparr>s_prod := PIdle\<rparr>)"
| put_room: "s_prod s = PLocal el h \<Longrightarrow> h \<noteq> rb_tail (s_rb s) \<Longrightarrow>
     spsc_step s (s\<lparr>s_prod := PWrite el h\<rparr>)"
| put_write: "s_prod s = PWrite el h \<Longrightarrow>
     spsc_step s (s\<lparr>s_buf := (s_buf s)[unat (rb_head (s_rb s)) := el], s_prod := PPublish el h\<rparr>)"
| put_publish: "s_prod s = PPublish el h \<Longrightarrow>
     spsc_step s (s\<lparr>s_rb := (s_rb s)\<lparr>rb_head := h\<rparr>, s_prod := PIdle, s_sent := s_sent s @ [el]\<rparr>)"
| get_begin: "s_cons s = CIdle \<Longrightarrow>
     spsc_step s (s\<lparr>s_cons := CLocal (rb_tail (s_rb s))\<rparr>)"
| get_refuse: "s_cons s = CLocal t \<Longrightarrow> rb_head (s_rb s) = t \<Longrightarrow>
     spsc_step s (s\<lparr>s_cons := CIdle\<rparr>)"
| get_ready: "s_cons s = CLocal t \<Longrightarrow> rb_head (s_rb s) \<noteq> t \<Longrightarrow>
     spsc_step s (s\<lparr>s_cons := CRead t\<rparr>)"
| get_read: "s_cons s = CRead t \<Longrightarrow>
     spsc_step s (s\<lparr>s_cons := CAdvance t (s_buf s ! unat t)\<rparr>)"
| get_advance: "s_cons s = CAdvance t v \<Longrightarrow>
     spsc_step s (s\<lparr>s_rb := (s_rb s)\<lparr>rb_tail := wrap (s_rb s) t\<rparr>, s_cons := CIdle,
                    s_recvd := s_recvd s @ [v]\<rparr>)"

definition spsc_start :: "ring_buffer \<Rightarrow> u16 \<Rightarrow> 'a list \<Rightarrow> 'a spsc" where
  "spsc_start rb n buf = \<lparr>s_rb = ring_buffer_create rb n, s_buf = buf, s_prod = PIdle,
     s_cons = CIdle, s_sent = [], s_recvd = []\<rparr>"

inductive spsc_reachable :: "'a spsc \<Rightarrow> 'a spsc \<Rightarrow> bool" for s0 where
  start: "spsc_reachable s0 s0"
| step: "spsc_reachable s0 s \<Longrightarrow> spsc_step s s' \<Longrightarrow> spsc_reachable s0 s'"

section \<open>Invariant\<close>

fun prod_inv :: "ring_buffer \<Rightarrow> 'a list \<Rightarrow> 'a producer \<Rightarrow> bool" where
  "prod_inv rb buf PIdle = True"
| "prod_inv rb buf (PLocal el h) = (h = wrap rb (rb_head rb))"
| "prod_inv rb buf (PWrite el h) = (h = wrap rb (rb_head rb) \<and> h \<noteq> rb_tail rb)"
| "prod_inv rb buf (PPublish el h) =
     (h = wrap rb (rb_head rb) \<and> h \<noteq> rb_tail rb \<and> buf ! unat (rb_head rb) = el)"

fun cons_inv :: "ring_buffer \<Rightarrow> 'a list \<Rightarrow> 'a consumer \<Rightarrow> bool" where
  "cons_inv rb buf CIdle = True"
| "cons_inv rb buf (CLocal t) = (t = rb_tail rb)"
| "cons_inv rb buf (CRead t) = (t = rb_tail rb \<and> rb_head rb \<noteq> t)"
| "cons_inv rb buf (CAdvance t v) = (t = rb_tail rb \<and> rb_head rb \<noteq> t \<and> v = buf ! unat t)"

definition spsc_inv :: "'a spsc \<Rightarrow> bool" where
  "spsc_inv s \<longleftrightarrow> rb_inv (s_rb s) (s_buf s) \<and> prod_inv (s_rb s) (s_buf s) (s_prod s)
     \<and> cons_inv (s_rb s) (s_buf s) (s_cons s)
     \<and> s_sent s = s_recvd s @ rb_list (s_rb s) (s_buf s)"

text \<open>
  The shared facts: what a store into the free slot, the publication of \<open>head\<close> and the release of
  \<open>tail\<close> do to the content.
\<close>

lemma unat_wrap: "unat i < unat (rb_end rb) \<Longrightarrow> unat (wrap rb i) = cyc_succ (unat (rb_end rb)) (unat i)"
  unfolding wrap_def by (rule wrap_succ)

lemma write_keeps_content:
  "rb_inv rb buf \<Longrightarrow> rb_list rb (buf[unat (rb_head rb) := el]) = rb_list rb buf"
  by (simp add: rb_unfold ring_view_upd_head)

lemma publish_appends:
  assumes "rb_inv rb buf" "h = wrap rb (rb_head rb)" "h \<noteq> rb_tail rb"
  shows "rb_inv (rb\<lparr>rb_head := h\<rparr>) buf"
    "rb_list (rb\<lparr>rb_head := h\<rparr>) buf = rb_list rb buf @ [buf ! unat (rb_head rb)]"
proof -
  let ?e = "unat (rb_end rb)" and ?h = "unat (rb_head rb)" and ?t = "unat (rb_tail rb)"
  have b: "?h < ?e" "?t < ?e" using assms(1) by (auto simp: rb_inv_def)
  have u: "unat h = cyc_succ ?e ?h" using unat_wrap [OF b(1)] assms(2) by simp
  with assms(3) have "cyc_succ ?e ?h \<noteq> ?t" by (simp add: word_eq_iff_unat)
  with b u show "rb_list (rb\<lparr>rb_head := h\<rparr>) buf = rb_list rb buf @ [buf ! ?h]"
    by (simp add: rb_list_def rb_count_def ring_count_succ_head ring_view_extend)
  show "rb_inv (rb\<lparr>rb_head := h\<rparr>) buf" using assms(1) u b by (simp add: rb_inv_def cyc_succ_less)
qed

lemma advance_drops:
  assumes "rb_inv rb buf" "rb_head rb \<noteq> rb_tail rb"
  shows "rb_inv (rb\<lparr>rb_tail := wrap rb (rb_tail rb)\<rparr>) buf"
    "rb_list rb buf = buf ! unat (rb_tail rb) # rb_list (rb\<lparr>rb_tail := wrap rb (rb_tail rb)\<rparr>) buf"
proof -
  have "ring_buffer_erase_first rb = (True, rb\<lparr>rb_tail := wrap rb (rb_tail rb)\<rparr>)"
    using assms(2) by (simp add: ring_buffer_erase_first_def wrap_def Let_def)
  from erase_nonempty [OF assms(1) _ this] assms
  show "rb_inv (rb\<lparr>rb_tail := wrap rb (rb_tail rb)\<rparr>) buf"
    "rb_list rb buf = buf ! unat (rb_tail rb) # rb_list (rb\<lparr>rb_tail := wrap rb (rb_tail rb)\<rparr>) buf"
    by (auto simp: rb_empty_iff)
qed

text \<open>
  Releasing a slot cannot fill the buffer, and publishing one cannot empty it: the facts each side
  knows about the other's index stay true.
\<close>

lemma advance_keeps_room:
  assumes "rb_inv rb buf" "rb_head rb \<noteq> rb_tail rb"
  shows "wrap rb (rb_head rb) \<noteq> wrap rb (rb_tail rb)"
proof
  assume "wrap rb (rb_head rb) = wrap rb (rb_tail rb)"
  then have "cyc_succ (unat (rb_end rb)) (unat (rb_head rb)) = cyc_succ (unat (rb_end rb)) (unat (rb_tail rb))"
    using assms(1) unat_wrap by (metis rb_inv_def)
  with assms show False by (auto simp: cyc_succ_def rb_inv_def word_eq_iff_unat split: if_splits)
qed

lemma prod_inv_advance:
  assumes "rb_inv rb buf" "rb_head rb \<noteq> rb_tail rb" "prod_inv rb buf p"
  shows "prod_inv (rb\<lparr>rb_tail := wrap rb (rb_tail rb)\<rparr>) buf p"
  using assms advance_keeps_room [OF assms(1,2)] by (cases p) (auto simp: wrap_def)

lemma cons_inv_publish:
  assumes "h \<noteq> rb_tail rb" "cons_inv rb buf c"
  shows "cons_inv (rb\<lparr>rb_head := h\<rparr>) buf c"
  using assms by (cases c) auto

lemma cons_inv_write:
  assumes "rb_inv rb buf" "cons_inv rb buf c"
  shows "cons_inv rb (buf[unat (rb_head rb) := el]) c"
  using assms by (cases c) (auto simp: nth_list_update word_eq_iff_unat)

lemma spsc_step_inv: "spsc_step s s' \<Longrightarrow> spsc_inv s \<Longrightarrow> spsc_inv s'"
proof (induction rule: spsc_step.induct)
  case (put_write s el h)
  then show ?case
    by (auto simp: spsc_inv_def write_keeps_content cons_inv_write rb_inv_def)
next
  case (put_publish s el h)
  then show ?case
    using publish_appends [of "s_rb s" "s_buf s" h] by (auto simp: spsc_inv_def cons_inv_publish)
next
  case (get_advance s t v)
  then show ?case
    using advance_drops [of "s_rb s" "s_buf s"] prod_inv_advance [of "s_rb s" "s_buf s" "s_prod s"]
    by (auto simp: spsc_inv_def)
qed (auto simp: spsc_inv_def)

lemma spsc_start_inv:
  "0 < unat n \<Longrightarrow> unat n \<le> length buf \<Longrightarrow> spsc_inv (spsc_start rb n buf)"
  by (simp add: spsc_inv_def spsc_start_def create_inv)

lemma spsc_reachable_inv: "spsc_reachable s0 s \<Longrightarrow> spsc_inv s0 \<Longrightarrow> spsc_inv s"
  by (induction rule: spsc_reachable.induct) (auto intro: spsc_step_inv)

section \<open>Properties\<close>

text \<open>
  C2. However the single reads and writes of one producer and one consumer interleave on a fresh ring
  buffer, the elements the consumer has received followed by those in the buffer are exactly the
  elements whose put has completed, in order, without a lock.
\<close>

theorem spsc_no_loss:
  assumes "0 < unat n" "unat n \<le> length buf" "spsc_reachable (spsc_start rb n buf) s"
  shows "s_sent s = s_recvd s @ rb_list (s_rb s) (s_buf s) \<and> rb_inv (s_rb s) (s_buf s)"
  using spsc_reachable_inv [OF assms(3) spsc_start_inv [OF assms(1,2)]] by (simp add: spsc_inv_def)

text \<open>A schedule in which the consumer starts to look while the producer is about to publish.\<close>

definition spsc_demo :: "nat spsc" where
  "spsc_demo = \<lparr>s_rb = \<lparr>rb_end = 3, rb_head = 1, rb_tail = 0\<rparr>, s_buf = [7, 0, 0], s_prod = PIdle,
     s_cons = CRead 0, s_sent = [7], s_recvd = []\<rparr>"

lemma spsc_demo_reachable:
  "spsc_reachable (spsc_start \<lparr>rb_end = 0, rb_head = 0, rb_tail = 0\<rparr> 3 [0, 0, 0]) spsc_demo"
proof -
  let ?s = "spsc_start \<lparr>rb_end = 0, rb_head = 0, rb_tail = 0\<rparr> 3 [0, 0, 0 :: nat]"
  have 1: "spsc_reachable ?s (?s\<lparr>s_prod := PLocal 7 1\<rparr>)"
    using spsc_reachable.step [OF spsc_reachable.start put_begin [of ?s 7]]
    by (simp add: spsc_start_def ring_buffer_create_def wrap_def)
  have 2: "spsc_reachable ?s (?s\<lparr>s_prod := PWrite 7 1\<rparr>)"
    using spsc_reachable.step [OF 1 put_room [of _ 7 1]]
    by (simp add: spsc_start_def ring_buffer_create_def)
  have 3: "spsc_reachable ?s (?s\<lparr>s_prod := PWrite 7 1, s_cons := CLocal 0\<rparr>)"
    using spsc_reachable.step [OF 2 get_begin] by (simp add: spsc_start_def ring_buffer_create_def)
  have 4: "spsc_reachable ?s (?s\<lparr>s_buf := [7, 0, 0], s_prod := PPublish 7 1, s_cons := CLocal 0\<rparr>)"
    using spsc_reachable.step [OF 3 put_write [of _ 7 1]]
    by (simp add: spsc_start_def ring_buffer_create_def)
  have 5: "spsc_reachable ?s (spsc_demo\<lparr>s_cons := CLocal 0\<rparr>)"
    using spsc_reachable.step [OF 4 put_publish [of _ 7 1]]
    by (simp add: spsc_start_def ring_buffer_create_def spsc_demo_def)
  show ?thesis
    using spsc_reachable.step [OF 5 get_ready [of _ 0]] by (simp add: spsc_demo_def)
qed

theorem spsc_no_loss_witness:
  "s_sent spsc_demo = s_recvd spsc_demo @ rb_list (s_rb spsc_demo) (s_buf spsc_demo)
   \<and> rb_list (s_rb spsc_demo) (s_buf spsc_demo) = [7]"
  using spsc_no_loss [OF _ _ spsc_demo_reachable] by (simp add: spsc_demo_def)

end
