(* ===== verification/Byte_Stream.thy ===== *)
theory Byte_Stream
  imports Prelude
begin

text \<open>
  The contract of a byte buffer between a network producer and a reading consumer: \<open>add\<close> takes a
  prefix of what it is offered, \<open>pop\<close> hands out a prefix of what is held. The receive path of the
  stack relies on it; \<open>Byte_Buffer\<close> discharges it for \<open>api/src/pifus_byte_buffer.c\<close>.
\<close>

datatype sop = Add "byte list" u16 | Pop u16

text \<open>A run of operations: the bytes taken in, the bytes handed out, the final buffer.\<close>

fun srun :: "('q \<Rightarrow> byte list \<Rightarrow> u16 \<Rightarrow> u16 \<times> 'q) \<Rightarrow> ('q \<Rightarrow> u16 \<Rightarrow> u16 \<times> byte list \<times> 'q) \<Rightarrow>
    'q \<Rightarrow> sop list \<Rightarrow> byte list \<times> byte list \<times> 'q" where
  "srun add pop q [] = ([], [], q)"
| "srun add pop q (Add xs len # ops) =
     (case add q xs len of (n, q1) \<Rightarrow>
        (case srun add pop q1 ops of (i, out, q2) \<Rightarrow> (take (unat n) xs @ i, out, q2)))"
| "srun add pop q (Pop len # ops) =
     (case pop q len of (n, ys, q1) \<Rightarrow>
        (case srun add pop q1 ops of (i, out, q2) \<Rightarrow> (i, ys @ out, q2)))"

fun sop_ok :: "sop \<Rightarrow> bool" where
  "sop_ok (Add xs len) = (unat len \<le> length xs)"
| "sop_ok (Pop len) = True"

locale byte_stream =
  fixes inv :: "'q \<Rightarrow> bool"
    and content :: "'q \<Rightarrow> byte list"
    and room :: "'q \<Rightarrow> nat"
    and add :: "'q \<Rightarrow> byte list \<Rightarrow> u16 \<Rightarrow> u16 \<times> 'q"
    and pop :: "'q \<Rightarrow> u16 \<Rightarrow> u16 \<times> byte list \<times> 'q"
  assumes add_law: "inv q \<Longrightarrow> unat len \<le> length xs \<Longrightarrow> add q xs len = (n, q') \<Longrightarrow>
      unat n = min (unat len) (room q) \<and> inv q' \<and> content q' = content q @ take (unat n) xs
      \<and> room q' = room q - unat n"
    and pop_law: "inv q \<Longrightarrow> pop q len = (n, ys, q') \<Longrightarrow>
      unat n = min (unat len) (length (content q)) \<and> inv q' \<and> ys = take (unat n) (content q)
      \<and> content q' = drop (unat n) (content q) \<and> room q' = room q + unat n"
begin

lemma stream_run:
  assumes "inv q" "list_all sop_ok ops" "srun add pop q ops = (i, out, q')"
  shows "inv q' \<and> content q @ i = out @ content q' \<and> room q' + length (content q') = room q + length (content q)"
  using assms
proof (induction ops arbitrary: q i out)
  case Nil
  then show ?case by simp
next
  case (Cons op ops)
  show ?case
  proof (cases op)
    case (Add xs len)
    obtain n q1 i1 where a: "add q xs len = (n, q1)" and r: "srun add pop q1 ops = (i1, out, q')"
      and i: "i = take (unat n) xs @ i1"
      using Cons.prems(3) Add by (auto split: prod.splits)
    have ok: "unat len \<le> length xs" "list_all sop_ok ops" using Cons.prems(2) Add by auto
    note l = add_law [OF Cons.prems(1) ok(1) a]
    then have "inv q1" by blast
    from Cons.IH [OF this ok(2) r] l i ok(1) show ?thesis by auto
  next
    case (Pop len)
    obtain n ys q1 out1 where p: "pop q len = (n, ys, q1)" and r: "srun add pop q1 ops = (i, out1, q')"
      and o': "out = ys @ out1"
      using Cons.prems(3) Pop by (auto split: prod.splits)
    note l = pop_law [OF Cons.prems(1) p]
    then have "inv q1" by blast
    moreover have "list_all sop_ok ops" using Cons.prems(2) by simp
    ultimately have ih: "inv q' \<and> content q1 @ i = out1 @ content q' \<and>
        room q' + length (content q') = room q1 + length (content q1)"
      using Cons.IH [OF _ _ r] by blast
    have "content q = ys @ content q1" "room q1 + length (content q1) = room q + length (content q)"
      using l by auto
    with ih o' show ?thesis by simp
  qed
qed

end

end
