(* ===== verification/Byte_Buffer.thy ===== *)
theory Byte_Buffer
  imports Byte_Stream
begin

text \<open>
  The byte ring buffer of \<open>api/src/pifus_byte_buffer.c\<close>, in which the stack keeps received bytes
  that no receive operation has claimed yet. Indices are 16 bit words; \<open>bb_list\<close> is the byte
  sequence it holds, \<open>bb_inv\<close> the invariant that keeps every \<open>memcpy\<close> inside the array.
\<close>

section \<open>Model\<close>

record pifus_byte_buffer =
  bb_head :: u16
  bb_end :: u16
  bb_tail :: u16

definition byte_buffer_create :: "pifus_byte_buffer \<Rightarrow> u16 \<Rightarrow> pifus_byte_buffer" where
  "byte_buffer_create bb buffer_length = bb\<lparr>bb_tail := 0, bb_end := buffer_length, bb_head := 0\<rparr>"

text \<open>
  The counting loop of \<open>pifus_byte_buffer_add\<close> (lines 24-39) over the local variables \<open>head\<close>,
  \<open>overstepped\<close> and \<open>really_added_length\<close>.
\<close>

function add_loop :: "pifus_byte_buffer \<Rightarrow> u16 \<Rightarrow> u16 \<Rightarrow> bool \<Rightarrow> u16 \<Rightarrow> u16 \<times> bool \<times> u16" where
  "add_loop bb to_add_length head overstepped added =
     (if added < to_add_length
      then (let head1 = (if head = bb_end bb then 0 else head);
                over1 = (if head = bb_end bb then True else overstepped)
            in if head1 = bb_tail bb then (head1, over1, added)
               else add_loop bb to_add_length (head1 + 1) over1 (added + 1))
      else (head, overstepped, added))"
  by pat_completeness auto
termination
  by (relation "measure (\<lambda>(bb, n, h, ov, k). unat n - unat k)")
    (auto simp: word_less_nat_alt unat_plus_one_u16 intro: diff_less_mono2)

declare add_loop.simps [simp del]

definition byte_buffer_add ::
    "pifus_byte_buffer \<Rightarrow> byte list \<Rightarrow> byte list \<Rightarrow> u16 \<Rightarrow> u16 \<times> pifus_byte_buffer \<times> byte list" where
  "byte_buffer_add bb0 buffer to_add to_add_length =
     (let bb = (if bb_head bb0 = bb_end bb0 then bb0\<lparr>bb_head := 0\<rparr> else bb0)
      in case add_loop bb to_add_length (bb_head bb + 1) False 0 of
        (head1, over1, added) \<Rightarrow>
          if added > 0
          then (let head = (if head1 = 0 then bb_end bb - 1 else head1 - 1);
                    overstepped = (if head1 = 0 then False else over1);
                    buffer' =
                      (if overstepped
                       then (let ecl = bb_end bb - bb_head bb;
                                 b1 = (if ecl > 0
                                       then blit buffer (unat (bb_head bb)) (take (unat ecl) to_add)
                                       else buffer)
                             in blit b1 0 (take (unat (added - ecl)) (drop (unat ecl) to_add)))
                       else blit buffer (unat (bb_head bb)) (take (unat added) to_add))
                in (added, bb\<lparr>bb_head := head\<rparr>, buffer'))
          else (added, bb, buffer))"

text \<open>The counting loop of \<open>pifus_byte_buffer_pop\<close> (lines 74-92).\<close>

function pop_loop :: "pifus_byte_buffer \<Rightarrow> u16 \<Rightarrow> u16 \<Rightarrow> bool \<Rightarrow> u16 \<Rightarrow> u16 \<times> bool \<times> u16" where
  "pop_loop bb len tail overstepped popped =
     (if popped < len
      then if bb_head bb = tail then (tail, overstepped, popped)
           else if tail = bb_end bb
           then if bb_head bb = 0 then (0, overstepped, popped)
                else pop_loop bb len (0 + 1) True (popped + 1)
           else pop_loop bb len (tail + 1) overstepped (popped + 1)
      else (tail, overstepped, popped))"
  by pat_completeness auto
termination
  by (relation "measure (\<lambda>(bb, n, h, ov, k). unat n - unat k)")
    (auto simp: word_less_nat_alt unat_plus_one_u16 intro: diff_less_mono2)

declare pop_loop.simps [simp del]

text \<open>The bytes written to \<open>output_buffer\<close> are the second component of the result.\<close>

definition byte_buffer_pop ::
    "pifus_byte_buffer \<Rightarrow> byte list \<Rightarrow> u16 \<Rightarrow> u16 \<times> byte list \<times> pifus_byte_buffer" where
  "byte_buffer_pop bb buffer len =
     (case pop_loop bb len (bb_tail bb) False 0 of
       (tail1, overstepped, popped) \<Rightarrow>
         if popped > 0
         then (let output =
                 (if overstepped
                  then (let ecl = bb_end bb - bb_tail bb
                        in (if ecl > 0 then take (unat ecl) (drop (unat (bb_tail bb)) buffer) else [])
                           @ take (unat (popped - ecl)) buffer)
                  else take (unat popped) (drop (unat (bb_tail bb)) buffer));
                 tail = (if tail1 = bb_end bb then 0 else tail1)
               in (popped, output, bb\<lparr>bb_tail := tail\<rparr>))
         else (popped, [], bb))"

definition byte_buffer_is_empty :: "pifus_byte_buffer \<Rightarrow> bool" where
  "byte_buffer_is_empty bb \<longleftrightarrow> bb_head bb = bb_tail bb"

section \<open>Invariant and content\<close>

definition bb_inv :: "pifus_byte_buffer \<Rightarrow> byte list \<Rightarrow> bool" where
  "bb_inv bb buf \<longleftrightarrow> unat (bb_head bb) < unat (bb_end bb) \<and> unat (bb_tail bb) < unat (bb_end bb)
     \<and> unat (bb_end bb) \<le> length buf"

definition bb_count :: "pifus_byte_buffer \<Rightarrow> nat" where
  "bb_count bb = ring_count (unat (bb_end bb)) (unat (bb_head bb)) (unat (bb_tail bb))"

definition bb_list :: "pifus_byte_buffer \<Rightarrow> byte list \<Rightarrow> byte list" where
  "bb_list bb buf = ring_view buf (unat (bb_end bb)) (unat (bb_tail bb)) (bb_count bb)"

definition bb_room :: "pifus_byte_buffer \<Rightarrow> nat" where
  "bb_room bb = unat (bb_end bb) - 1 - bb_count bb"

lemma length_bb_list [simp]: "length (bb_list bb buf) = bb_count bb"
  by (simp add: bb_list_def)

lemma bb_count_bound: "bb_inv bb buf \<Longrightarrow> bb_count bb < unat (bb_end bb)"
  by (simp add: bb_inv_def bb_count_def ring_count_less)

lemma bb_empty_iff: "bb_inv bb buf \<Longrightarrow> byte_buffer_is_empty bb \<longleftrightarrow> bb_list bb buf = []"
  by (metis bb_count_def bb_inv_def byte_buffer_is_empty_def length_0_conv length_bb_list
      ring_count_0 word_eq_iff_unat)

lemma bb_create:
  assumes "0 < unat n" "unat n \<le> length buf"
  shows "bb_inv (byte_buffer_create bb n) buf" "bb_list (byte_buffer_create bb n) buf = []"
  using assms
  by (auto simp: byte_buffer_create_def bb_inv_def bb_list_def bb_count_def ring_count_def)

section \<open>Adding bytes\<close>

text \<open>
  One round of the counting loop after \<open>k\<close> bytes, when the next byte would go to index
  \<open>(h + k) mod e\<close>: whether it finds the buffer full, and the local variables it leaves.
\<close>

definition add_state :: "pifus_byte_buffer \<Rightarrow> nat \<Rightarrow> u16 \<Rightarrow> bool \<Rightarrow> bool" where
  "add_state bb k head over \<longleftrightarrow>
     unat head = Suc ((unat (bb_head bb) + k) mod unat (bb_end bb)) \<and>
     (over \<longleftrightarrow> unat (bb_end bb) \<le> unat (bb_head bb) + k)"

lemma add_round:
  assumes inv: "bb_inv bb buf" and k: "k \<le> bb_room bb" and st: "add_state bb k head over"
  defines "head1 \<equiv> if head = bb_end bb then 0 else head"
    and "over1 \<equiv> if head = bb_end bb then True else over"
  shows "head1 = bb_tail bb \<longleftrightarrow> k = bb_room bb"
    "if head1 = 0 then unat (bb_head bb) + k = unat (bb_end bb) - 1 else add_state bb k head1 over1"
    "add_state bb (Suc k) (head1 + 1) over1"
proof -
  let ?t = "unat (bb_tail bb)"
  define e h where eh: "e = unat (bb_end bb)" "h = unat (bb_head bb)"
  define c where "c = (h + k) mod e"
  have b: "h < e" "?t < e" "c < e" using inv by (auto simp: bb_inv_def eh c_def)
  have uh: "unat head = Suc c" and ov: "over \<longleftrightarrow> e \<le> h + k"
    using st by (auto simp: add_state_def eh c_def)
  have u1: "unat head1 = cyc_succ e c"
    using uh by (auto simp: head1_def cyc_succ_def eh word_eq_iff_unat)
  have room: "bb_room bb = e - 1 - bb_count bb" "bb_count bb < e"
    using bb_count_bound [OF inv] by (simp_all add: bb_room_def eh)
  have "ring_count e c ?t = bb_count bb + k"
    using b room k ring_count_add [of h e ?t k] by (simp add: c_def bb_count_def eh)
  with ring_count_full [OF b(3,2)] room k show "head1 = bb_tail bb \<longleftrightarrow> k = bb_room bb"
    by (auto simp: word_eq_iff_unat u1)
  have last: "head = bb_end bb \<longleftrightarrow> h + k = e - 1"
  proof -
    have "h + k < 2 * e - 1" using b room k by simp
    then have "c = e - 1 \<longleftrightarrow> h + k = e - 1"
      using b by (auto simp: c_def mod_if le_mod_geq split: if_splits)
    with uh b show ?thesis by (auto simp: eh word_eq_iff_unat)
  qed
  show "if head1 = 0 then unat (bb_head bb) + k = unat (bb_end bb) - 1 else add_state bb k head1 over1"
    using last st uh by (auto simp: head1_def over1_def eh)
  have "unat (head1 + 1) = Suc (cyc_succ e c)"
    using u1 b unat_plus_one_u16 [of head1 "bb_end bb"] cyc_succ_less [of c e] by (simp add: eh)
  moreover have "(h + Suc k) mod e = cyc_succ e c" using b by (simp add: c_def cyc_succ_mod mod_simps)
  moreover have "over1 \<longleftrightarrow> e \<le> h + Suc k" using last ov b by (auto simp: over1_def)
  ultimately show "add_state bb (Suc k) (head1 + 1) over1" by (simp add: add_state_def eh)
qed

lemma add_loop_spec:
  assumes inv: "bb_inv bb buf"
    and "unat added = k" "k \<le> bb_room bb" "k \<le> unat len" "add_state bb k head over"
    and "add_loop bb len head over added = (head', over', added')"
  shows "unat added' = min (unat len) (bb_room bb) \<and>
    (if head' = 0 then unat (bb_head bb) + unat added' = unat (bb_end bb) - 1
     else add_state bb (unat added') head' over')"
  using assms(2-)
proof (induction "unat len - k" arbitrary: k added head over)
  case 0
  then have "\<not> added < len" by (simp add: word_less_nat_alt)
  with 0 show ?case
    by (subst (asm) add_loop.simps) (auto simp: min_def add_state_def)
next
  case (Suc n)
  define head1 where "head1 = (if head = bb_end bb then 0 else head)"
  define over1 where "over1 = (if head = bb_end bb then True else over)"
  note rd = add_round [OF inv Suc.prems(2,4), folded head1_def over1_def]
  have lt: "added < len" using Suc.hyps(2) Suc.prems(1) by (simp add: word_less_nat_alt)
  have unf: "add_loop bb len head over added =
      (if head1 = bb_tail bb then (head1, over1, added)
       else add_loop bb len (head1 + 1) over1 (added + 1))"
    using lt by (subst add_loop.simps) (simp add: Let_def head1_def over1_def)
  show ?case
  proof (cases "head1 = bb_tail bb")
    case True
    with Suc.prems(5) unf have r: "head' = head1" "over' = over1" "unat added' = k"
      using Suc.prems(1) by auto
    have "k = min (unat len) (bb_room bb)" using True rd(1) Suc.prems(3) by simp
    then show ?thesis unfolding r using rd(2) by blast
  next
    case False
    have n': "n = unat len - Suc k" using Suc.hyps(2) by simp
    have ua: "unat (added + 1) = Suc k"
      using lt Suc.prems(1) by (simp add: unat_plus_one_u16 word_less_nat_alt)
    have "Suc k \<le> bb_room bb" using False rd(1) Suc.prems(2) by simp
    moreover have "Suc k \<le> unat len" using Suc.hyps(2) by simp
    moreover have "add_loop bb len (head1 + 1) over1 (added + 1) = (head', over', added')"
      using Suc.prems(5) unf False by simp
    ultimately show ?thesis using Suc.hyps(1) [OF n' ua] rd(3) by blast
  qed
qed

text \<open>
  \<open>pifus_byte_buffer_add\<close> stores as much of a prefix as there is room for, behind what the buffer
  already holds, and reports how much that was.
\<close>

lemma byte_buffer_add_shape:
  assumes inv: "bb_inv bb buf" and len: "unat len \<le> length to_add"
    and res: "byte_buffer_add bb buf to_add len = (n, bb', buf')"
  shows "unat n = min (unat len) (bb_room bb)"
    "bb' = (if n > 0 then bb\<lparr>bb_head := bb_head bb'\<rparr> else bb)"
    "unat (bb_head bb') = (unat (bb_head bb) + unat n) mod unat (bb_end bb)"
    "buf' = ring_write buf (unat (bb_end bb)) (unat (bb_head bb)) (take (unat n) to_add)"
proof -
  obtain head1 over1 added where l: "add_loop bb len (bb_head bb + 1) False 0 = (head1, over1, added)"
    by (metis prod_cases3)
  let ?e = "unat (bb_end bb)" and ?h = "unat (bb_head bb)"
  have b: "?h < ?e" "?e \<le> length buf" using inv by (auto simp: bb_inv_def)
  have "add_state bb 0 (bb_head bb + 1) False"
    using b unat_plus_one_u16 [OF b(1)] by (simp add: add_state_def)
  from add_loop_spec [OF inv _ _ _ this l]
  have post: "unat added = min (unat len) (bb_room bb)"
    "if head1 = 0 then ?h + unat added = ?e - 1 else add_state bb (unat added) head1 over1"
    by auto
  define head where "head = (if head1 = 0 then bb_end bb - 1 else head1 - 1)"
  define over where "over = (if head1 = 0 then False else over1)"
  have hd: "unat head = (?h + unat added) mod ?e" and ov: "over \<longleftrightarrow> ?e \<le> ?h + unat added"
  proof -
    have "unat (bb_end bb - 1) = ?e - 1" using b by (subst unat_minus_nat) auto
    moreover have "head1 \<noteq> 0 \<Longrightarrow> unat (head1 - 1) = unat head1 - 1"
      by (subst unat_minus_nat) (auto simp: Suc_le_eq unat_gt_0)
    ultimately show "unat head = (?h + unat added) mod ?e" "over \<longleftrightarrow> ?e \<le> ?h + unat added"
      using post(2) b by (auto simp: head_def over_def add_state_def split: if_splits)
  qed
  define wr where "wr = (if over
      then blit (if bb_end bb - bb_head bb > 0
             then blit buf ?h (take (unat (bb_end bb - bb_head bb)) to_add) else buf) 0
             (take (unat (added - (bb_end bb - bb_head bb))) (drop (unat (bb_end bb - bb_head bb)) to_add))
      else blit buf ?h (take (unat added) to_add))"
  have r: "n = added \<and> bb' = (if added > 0 then bb\<lparr>bb_head := head\<rparr> else bb)
      \<and> buf' = (if added > 0 then wr else buf)"
    using res l b by (auto simp: byte_buffer_add_def Let_def head_def over_def wr_def split: if_splits)
  show "unat n = min (unat len) (bb_room bb)" using r post(1) by simp
  show "bb' = (if n > 0 then bb\<lparr>bb_head := bb_head bb'\<rparr> else bb)" using r by simp
  show "unat (bb_head bb') = (?h + unat n) mod ?e"
    using r hd b by (auto simp: unat_pos_iff)
  have "wr = ring_write buf ?e ?h (take (unat added) to_add)"
  proof -
    have ecl: "unat (bb_end bb - bb_head bb) = ?e - ?h" using b by (subst unat_minus_nat) auto
    have tl: "length (take (unat added) to_add) = unat added" using post(1) len by simp
    show ?thesis
    proof (cases over)
      case True
      then have "unat (added - (bb_end bb - bb_head bb)) = unat added - (?e - ?h)"
        using ov ecl by (subst unat_minus_nat) auto
      with True ov ecl tl b show ?thesis
        by (auto simp: wr_def ring_write_def unat_pos_iff drop_take min_def)
    qed (use ov tl in \<open>simp add: wr_def ring_write_def\<close>)
  qed
  then show "buf' = ring_write buf ?e ?h (take (unat n) to_add)"
    using r b by (auto simp: unat_pos_iff ring_write_def)
qed

lemma byte_buffer_add_spec:
  assumes inv: "bb_inv bb buf" and len: "unat len \<le> length to_add"
    and res: "byte_buffer_add bb buf to_add len = (n, bb', buf')"
  shows "unat n = min (unat len) (bb_room bb)" "bb_inv bb' buf'" "length buf' = length buf"
    "bb_list bb' buf' = bb_list bb buf @ take (unat n) to_add" "bb_end bb' = bb_end bb"
proof -
  note sh = byte_buffer_add_shape [OF assms]
  let ?e = "unat (bb_end bb)" and ?h = "unat (bb_head bb)" and ?t = "unat (bb_tail bb)"
  have b: "?h < ?e" "?t < ?e" "?e \<le> length buf" using inv by (auto simp: bb_inv_def)
  show n: "unat n = min (unat len) (bb_room bb)" by (rule sh(1))
  have fr: "bb_end bb' = bb_end bb" "bb_tail bb' = bb_tail bb" by (subst sh(2), simp)+
  then show "bb_end bb' = bb_end bb" by simp
  have tk: "length (take (unat n) to_add) = unat n" using n len by simp
  have fit: "bb_count bb + unat n < ?e" using n b bb_count_bound [OF inv] by (auto simp: bb_room_def)
  show lb: "length buf' = length buf" using sh(4) tk fit b by simp
  show "bb_inv bb' buf'" using sh(3) b fr lb by (simp add: bb_inv_def)
  have "bb_count bb' = bb_count bb + unat n"
    using b fit sh(3) fr by (simp add: bb_count_def ring_count_add)
  then show "bb_list bb' buf' = bb_list bb buf @ take (unat n) to_add"
    using ring_write_view [OF b, of "take (unat n) to_add"] fit tk sh(4) fr
    by (simp add: bb_list_def bb_count_def)
qed

section \<open>Taking bytes\<close>

definition pop_state :: "pifus_byte_buffer \<Rightarrow> nat \<Rightarrow> u16 \<Rightarrow> bool \<Rightarrow> bool" where
  "pop_state bb k tail over \<longleftrightarrow>
     (if over then unat (bb_end bb) < unat (bb_tail bb) + k \<and>
                   unat tail = unat (bb_tail bb) + k - unat (bb_end bb)
      else unat (bb_tail bb) + k \<le> unat (bb_end bb) \<and> unat tail = unat (bb_tail bb) + k)"

lemma pop_round:
  assumes inv: "bb_inv bb buf" and k: "k \<le> bb_count bb" and st: "pop_state bb k tail over"
  shows "(bb_head bb = tail \<or> tail = bb_end bb \<and> bb_head bb = 0) \<longleftrightarrow> k = bb_count bb"
    "tail = bb_end bb \<Longrightarrow> pop_state bb (Suc k) (0 + 1) True \<and> unat (bb_tail bb) + k = unat (bb_end bb)
       \<and> \<not> over"
    "tail \<noteq> bb_end bb \<Longrightarrow> pop_state bb (Suc k) (tail + 1) over"
proof -
  let ?e = "unat (bb_end bb)" and ?h = "unat (bb_head bb)" and ?t = "unat (bb_tail bb)"
  have b: "?h < ?e" "?t < ?e" and c: "bb_count bb < ?e"
    using inv bb_count_bound [OF inv] by (auto simp: bb_inv_def)
  have eq: "k = bb_count bb \<longleftrightarrow> (?t + k) mod ?e = ?h"
    using ring_head_index [OF b] ring_index_inj [of k ?e "bb_count bb" ?t] k c
    by (auto simp: bb_count_def)
  show "(bb_head bb = tail \<or> tail = bb_end bb \<and> bb_head bb = 0) \<longleftrightarrow> k = bb_count bb"
    unfolding eq using st b k c
    by (auto simp: pop_state_def word_eq_iff_unat ring_mod_cases le_Suc_ex split: if_splits)
  show "pop_state bb (Suc k) (0 + 1) True \<and> ?t + k = ?e \<and> \<not> over" if "tail = bb_end bb"
    using st that b k c by (auto simp: pop_state_def split: if_splits)
  show "pop_state bb (Suc k) (tail + 1) over" if "tail \<noteq> bb_end bb"
  proof -
    have "unat tail < ?e" using st that b k c by (auto simp: pop_state_def word_eq_iff_unat split: if_splits)
    from unat_plus_one_u16 [OF this] this st show ?thesis by (auto simp: pop_state_def split: if_splits)
  qed
qed

lemma pop_loop_spec:
  assumes inv: "bb_inv bb buf"
    and "unat popped = k" "k \<le> bb_count bb" "k \<le> unat len" "pop_state bb k tail over"
    and "pop_loop bb len tail over popped = (tail', over', popped')"
  shows "unat popped' = min (unat len) (bb_count bb) \<and>
    (pop_state bb (unat popped') tail' over' \<or>
     tail' = 0 \<and> \<not> over' \<and> unat (bb_tail bb) + unat popped' = unat (bb_end bb))"
  using assms(2-)
proof (induction "unat len - k" arbitrary: k popped tail over)
  case 0
  then have "\<not> popped < len" by (simp add: word_less_nat_alt)
  with 0 show ?case by (subst (asm) pop_loop.simps) auto
next
  case (Suc n)
  note rd = pop_round [OF inv Suc.prems(2,4)]
  have lt: "popped < len" using Suc.hyps(2) Suc.prems(1) by (simp add: word_less_nat_alt)
  show ?case
  proof (cases "k = bb_count bb")
    case True
    then have "(tail', over', popped') = (if bb_head bb = tail then tail else 0, over, popped)"
      using rd(1) lt Suc.prems(5) by (subst (asm) pop_loop.simps) (auto split: if_splits)
    moreover have "k = min (unat len) (bb_count bb)" using True Suc.prems(3) by simp
    ultimately show ?thesis using True rd(1,2) Suc.prems(1,4) by (auto split: if_splits)
  next
    case False
    define tail1 where "tail1 = (if tail = bb_end bb then 0 + 1 else tail + 1)"
    define over1 where "over1 = (if tail = bb_end bb then True else over)"
    have st: "pop_state bb (Suc k) tail1 over1" using rd(2,3) by (auto simp: tail1_def over1_def)
    have n': "n = unat len - Suc k" and le: "Suc k \<le> unat len" using Suc.hyps(2) by simp_all
    have ua: "unat (popped + 1) = Suc k"
      using lt Suc.prems(1) by (simp add: unat_plus_one_u16 word_less_nat_alt)
    have le': "Suc k \<le> bb_count bb" using False Suc.prems(2) by simp
    have "pop_loop bb len tail1 over1 (popped + 1) = (tail', over', popped')"
      using rd(1) lt Suc.prems(5) False
      by (subst (asm) pop_loop.simps) (auto simp: tail1_def over1_def split: if_splits)
    with Suc.hyps(1) [OF n' ua le' le st] show ?thesis by blast
  qed
qed

lemma byte_buffer_pop_spec:
  assumes inv: "bb_inv bb buf" and res: "byte_buffer_pop bb buf len = (n, out, bb')"
  shows "unat n = min (unat len) (bb_count bb)" "out = take (unat n) (bb_list bb buf)"
    "bb_list bb' buf = drop (unat n) (bb_list bb buf)" "bb_inv bb' buf" "bb_end bb' = bb_end bb"
proof -
  obtain tail1 over popped where l: "pop_loop bb len (bb_tail bb) False 0 = (tail1, over, popped)"
    by (metis prod_cases3)
  let ?e = "unat (bb_end bb)" and ?h = "unat (bb_head bb)" and ?t = "unat (bb_tail bb)"
  have b: "?h < ?e" "?t < ?e" "?e \<le> length buf" using inv by (auto simp: bb_inv_def)
  have "pop_state bb 0 (bb_tail bb) False" using b by (simp add: pop_state_def)
  from pop_loop_spec [OF inv _ _ _ this l]
  have post: "unat popped = min (unat len) (bb_count bb)"
    "pop_state bb (unat popped) tail1 over \<or> tail1 = 0 \<and> \<not> over \<and> ?t + unat popped = ?e" by auto
  have c: "unat popped \<le> bb_count bb" "bb_count bb < ?e" using post(1) bb_count_bound [OF inv] by auto
  define tail where "tail = (if tail1 = bb_end bb then 0 else tail1)"
  have ov: "over \<longleftrightarrow> ?e < ?t + unat popped" using post(2) by (auto simp: pop_state_def split: if_splits)
  have tl: "unat tail = (?t + unat popped) mod ?e"
    using post(2) b c
    by (auto simp: tail_def pop_state_def ring_mod_cases word_eq_iff_unat split: if_splits)
  define rd where "rd = (if over
      then (if bb_end bb - bb_tail bb > 0 then take (unat (bb_end bb - bb_tail bb)) (drop ?t buf) else [])
           @ take (unat (popped - (bb_end bb - bb_tail bb))) buf
      else take (unat popped) (drop ?t buf))"
  have r: "n = popped" "out = (if popped > 0 then rd else [])"
    "bb' = (if popped > 0 then bb\<lparr>bb_tail := tail\<rparr> else bb)"
    using res l by (auto simp: byte_buffer_pop_def Let_def rd_def tail_def split: if_splits)
  show "unat n = min (unat len) (bb_count bb)" using r post(1) by simp
  have t': "unat (bb_tail bb') = (?t + unat popped) mod ?e" and fr: "bb_end bb' = bb_end bb" "bb_head bb' = bb_head bb"
    using r(3) tl b by (auto simp: unat_pos_iff)
  show "bb_inv bb' buf" "bb_end bb' = bb_end bb" using t' fr b by (auto simp: bb_inv_def)
  have split_view: "bb_list bb buf = ring_view buf ?e ?t (unat popped) @
      ring_view buf ?e (?t + unat popped) (bb_count bb - unat popped)"
    unfolding bb_list_def using ring_view_add [of buf ?e ?t "unat popped" "bb_count bb - unat popped"] c by simp
  have "bb_count bb' = bb_count bb - unat popped"
    using t' fr b c ring_count_drop [OF b(1,2), of "unat popped"] by (simp add: bb_count_def)
  then show "bb_list bb' buf = drop (unat n) (bb_list bb buf)"
    using split_view r(1) t' fr by (simp add: bb_list_def)
  have "rd = ring_view buf ?e ?t (unat popped)"
  proof -
    have ecl: "unat (bb_end bb - bb_tail bb) = ?e - ?t" using b by (subst unat_minus_nat) auto
    have "unat (popped - (bb_end bb - bb_tail bb)) = unat popped - (?e - ?t)" if over
      using that ov ecl by (subst unat_minus_nat) auto
    with ov ecl b c ring_view_pieces [OF b(2,3), of "unat popped"] show ?thesis
      by (auto simp: rd_def unat_pos_iff)
  qed
  then show "out = take (unat n) (bb_list bb buf)"
    using split_view r by (auto simp: unat_pos_iff)
qed

section \<open>The byte buffer as a byte stream\<close>

type_synonym bb_queue = "pifus_byte_buffer \<times> byte list"

fun bbq_add :: "bb_queue \<Rightarrow> byte list \<Rightarrow> u16 \<Rightarrow> u16 \<times> bb_queue" where
  "bbq_add (bb, buf) xs len = byte_buffer_add bb buf xs len"

fun bbq_pop :: "bb_queue \<Rightarrow> u16 \<Rightarrow> u16 \<times> byte list \<times> bb_queue" where
  "bbq_pop (bb, buf) len = (case byte_buffer_pop bb buf len of (n, ys, bb') \<Rightarrow> (n, ys, bb', buf))"

interpretation bbq: byte_stream "\<lambda>(bb, buf). bb_inv bb buf" "\<lambda>(bb, buf). bb_list bb buf"
    "\<lambda>(bb, buf). bb_room bb" bbq_add bbq_pop
proof (unfold_locales, goal_cases)
  case (1 q len xs n q')
  obtain bb buf where q: "q = (bb, buf)" by force
  obtain bb' buf' where q': "q' = (bb', buf')" by force
  have inv: "bb_inv bb buf" and a: "byte_buffer_add bb buf xs len = (n, bb', buf')"
    using 1 q q' by auto
  note s = byte_buffer_add_spec [OF inv 1(2) a]
  have "bb_count bb' = bb_count bb + unat n" using arg_cong [OF s(4), of length] s(1) 1(2) by simp
  with s q q' show ?case by (simp add: bb_room_def)
next
  case (2 q len n ys q')
  obtain bb buf where q: "q = (bb, buf)" by force
  obtain bb' where q': "q' = (bb', buf)" and p: "byte_buffer_pop bb buf len = (n, ys, bb')"
    using 2 q by (auto split: prod.splits)
  have inv: "bb_inv bb buf" using 2 q by simp
  note s = byte_buffer_pop_spec [OF inv p]
  have "bb_count bb' = bb_count bb - unat n" using arg_cong [OF s(3), of length] by simp
  moreover have "unat n \<le> bb_count bb" "bb_count bb < unat (bb_end bb)"
    using s(1) bb_count_bound [OF inv] by auto
  ultimately show ?case using s q q' by (simp add: bb_room_def)
qed

section \<open>Properties\<close>

text \<open>
  C10. Byte stream: after any sequence of adds and pops on a fresh buffer of \<open>n\<close> bytes, the bytes handed
  out followed by the bytes held are exactly the bytes taken in, in order, and never more than
  \<open>n - 1\<close> bytes are held.
\<close>

theorem byte_buffer_stream:
  assumes "0 < unat n" "unat n \<le> length buf" "list_all sop_ok ops"
    and "srun bbq_add bbq_pop (byte_buffer_create bb n, buf) ops = (i, out, (bb', buf'))"
  shows "i = out @ bb_list bb' buf' \<and> bb_inv bb' buf' \<and> length (bb_list bb' buf') + bb_room bb' = unat n - 1"
proof -
  have "bb_room (byte_buffer_create bb n) = unat n - 1" "bb_count (byte_buffer_create bb n) = 0"
    by (simp_all add: bb_room_def byte_buffer_create_def bb_count_def ring_count_def)
  with bbq.stream_run [OF _ assms(3,4)] bb_create [OF assms(1,2), of bb] show ?thesis by auto
qed

theorem byte_buffer_stream_witness:
  "srun bbq_add bbq_pop (byte_buffer_create \<lparr>bb_head = 1, bb_end = 1, bb_tail = 1\<rparr> 4, [0, 0, 0, 0])
      [Add [1, 2, 3, 4] 4, Pop 2, Add [5, 6] 2, Pop 9] =
     ([1, 2, 3, 5, 6], [1, 2, 3, 5, 6], (\<lparr>bb_head = 1, bb_end = 4, bb_tail = 1\<rparr>, [6, 2, 3, 5]))
   \<and> bb_list \<lparr>bb_head = 1, bb_end = 4, bb_tail = 1\<rparr> [6, 2, 3, 5] = []"
proof -
  let ?r = "srun bbq_add bbq_pop (byte_buffer_create \<lparr>bb_head = 1, bb_end = 1, bb_tail = 1\<rparr> 4, [0, 0, 0, 0])
      [Add [1, 2, 3, 4] 4, Pop 2, Add [5, 6] 2, Pop 9]"
  have e: "?r = ([1, 2, 3, 5, 6], [1, 2, 3, 5, 6], (\<lparr>bb_head = 1, bb_end = 4, bb_tail = 1\<rparr>, [6, 2, 3, 5]))"
    by code_simp
  from byte_buffer_stream [OF _ _ _ e] e show ?thesis by simp
qed

text \<open>
  Partial adds and pops: \<open>add\<close> takes the longest prefix that fits and reports its length, \<open>pop\<close>
  hands out the longest prefix available; both loops return for every input, wrap around included.
\<close>

theorem byte_buffer_add_pop:
  assumes "bb_inv bb buf" "unat len \<le> length xs" "byte_buffer_add bb buf xs len = (n, bb1, buf1)"
    and "byte_buffer_pop bb1 buf1 k = (m, out, bb2)"
  shows "unat n = min (unat len) (bb_room bb) \<and> unat m = min (unat k) (bb_count bb + unat n)
     \<and> out @ bb_list bb2 buf1 = bb_list bb buf @ take (unat n) xs \<and> length out = unat m \<and> bb_inv bb2 buf1"
proof -
  note a = byte_buffer_add_spec [OF assms(1-3)]
  note p = byte_buffer_pop_spec [OF a(2) assms(4)]
  have "bb_count bb1 = bb_count bb + unat n" using arg_cong [OF a(4), of length] a(1) assms(2) by simp
  then have "unat m = min (unat k) (bb_count bb + unat n)" "length out = unat m" using p by simp_all
  moreover have "out @ bb_list bb2 buf1 = bb_list bb1 buf1" using p(2,3) by simp
  ultimately show ?thesis using a p(4) by simp
qed

theorem byte_buffer_add_pop_witness:
  "byte_buffer_add \<lparr>bb_head = 3, bb_end = 4, bb_tail = 3\<rparr> [0, 0, 0, 9] [1, 2, 3, 4] 4 =
     (3, \<lparr>bb_head = 2, bb_end = 4, bb_tail = 3\<rparr>, [2, 3, 0, 1])
   \<and> byte_buffer_pop \<lparr>bb_head = 2, bb_end = 4, bb_tail = 3\<rparr> [2, 3, 0, 1] 2 =
     (2, [1, 2], \<lparr>bb_head = 2, bb_end = 4, bb_tail = 1\<rparr>)
   \<and> [1, 2] @ bb_list \<lparr>bb_head = 2, bb_end = 4, bb_tail = 1\<rparr> [2, 3, 0, 1] = [1, 2, 3]"
proof -
  have a: "byte_buffer_add \<lparr>bb_head = 3, bb_end = 4, bb_tail = 3\<rparr> [0, 0, 0, 9] [1, 2, 3, 4] 4 =
     (3, \<lparr>bb_head = 2, bb_end = 4, bb_tail = 3\<rparr>, [2, 3, 0, 1])" by code_simp
  have p: "byte_buffer_pop \<lparr>bb_head = 2, bb_end = 4, bb_tail = 3\<rparr> [2, 3, 0, 1] 2 =
     (2, [1, 2], \<lparr>bb_head = 2, bb_end = 4, bb_tail = 1\<rparr>)" by code_simp
  have i: "bb_inv \<lparr>bb_head = 3, bb_end = 4, bb_tail = 3\<rparr> [0, 0, 0, 9]"
    "bb_list \<lparr>bb_head = 3, bb_end = 4, bb_tail = 3\<rparr> [0, 0, 0, 9] = []" by code_simp+
  from byte_buffer_add_pop [OF i(1) _ a p] a p i(2) show ?thesis by simp
qed

end
