(* ===== verification/Operations.thy ===== *)
theory Operations
  imports Prelude
begin

text \<open>
  The vocabulary shared by applications and the stack (\<open>api/include/pifus_operation.h\<close>,
  \<open>pifus_qos.h\<close>, \<open>pifus_ip.h\<close> and their sources): operation codes ordered by their numeric value,
  priorities, address strings, and the operations and results that travel through the queues. The
  C unions are datatypes with one constructor per member; a value that no assignment has written is
  \<open>Indeterminate\<close>. Enumerations other than the operation codes are kept as 32 bit words, because the
  code compares values it reads from shared memory.
\<close>

section \<open>Operation codes\<close>

datatype operation_code =
    TCP_BIND | TCP_LISTEN | TCP_ACCEPT | TCP_CONNECT | TCP_WRITE | TCP_RECV | TCP_CLOSE | TCP_ABORT
  | UDP_BIND | UDP_CONNECT | UDP_DISCONNECT | UDP_SEND | UDP_RECV
  | CONNECTION_LOST | CLIENT_NOP | NOP

fun code_value :: "operation_code \<Rightarrow> nat" where
  "code_value TCP_BIND = 0" | "code_value TCP_LISTEN = 1" | "code_value TCP_ACCEPT = 2"
| "code_value TCP_CONNECT = 3" | "code_value TCP_WRITE = 4" | "code_value TCP_RECV = 5"
| "code_value TCP_CLOSE = 6" | "code_value TCP_ABORT = 7"
| "code_value UDP_BIND = 100" | "code_value UDP_CONNECT = 101" | "code_value UDP_DISCONNECT = 102"
| "code_value UDP_SEND = 103" | "code_value UDP_RECV = 104"
| "code_value CONNECTION_LOST = 200" | "code_value CLIENT_NOP = 254" | "code_value NOP = 255"

lemma code_value_inject: "code_value c = code_value d \<Longrightarrow> c = d"
  by (cases c; cases d) simp_all

text \<open>The comparison of enumerators in C is that of their values.\<close>

instantiation operation_code :: linorder
begin

definition less_eq_operation_code :: "operation_code \<Rightarrow> operation_code \<Rightarrow> bool" where
  "less_eq_operation_code c d \<longleftrightarrow> code_value c \<le> code_value d"

definition less_operation_code :: "operation_code \<Rightarrow> operation_code \<Rightarrow> bool" where
  "less_operation_code c d \<longleftrightarrow> code_value c < code_value d"

instance
  by standard (auto simp: less_eq_operation_code_def less_operation_code_def code_value_inject)

end

fun operation_str :: "operation_code \<Rightarrow> string" where
  "operation_str TCP_BIND = ''TCP_BIND''" | "operation_str TCP_LISTEN = ''TCP_LISTEN''"
| "operation_str TCP_ACCEPT = ''TCP_ACCEPT''" | "operation_str TCP_CONNECT = ''TCP_CONNECT''"
| "operation_str TCP_WRITE = ''TCP_WRITE''" | "operation_str TCP_RECV = ''TCP_RECV''"
| "operation_str TCP_CLOSE = ''TCP_CLOSE''" | "operation_str TCP_ABORT = ''TCP_ABORT''"
| "operation_str UDP_BIND = ''UDP_BIND''" | "operation_str UDP_CONNECT = ''UDP_CONNECT''"
| "operation_str UDP_DISCONNECT = ''UDP_DISCONNECT''" | "operation_str UDP_SEND = ''UDP_SEND''"
| "operation_str UDP_RECV = ''UDP_RECV''" | "operation_str CONNECTION_LOST = ''CONNECTION_LOST''"
| "operation_str CLIENT_NOP = ''CLIENT_NOP''" | "operation_str NOP = ''NOP''"

section \<open>Priorities\<close>

type_synonym pifus_priority = u32

definition PRIORITY_LOW :: pifus_priority where "PRIORITY_LOW = 0"
definition PRIORITY_MEDIUM :: pifus_priority where "PRIORITY_MEDIUM = 1"
definition PRIORITY_HIGH :: pifus_priority where "PRIORITY_HIGH = 2"

lemmas priority_defs = PRIORITY_LOW_def PRIORITY_MEDIUM_def PRIORITY_HIGH_def

definition prio_str :: "pifus_priority \<Rightarrow> string" where
  "prio_str prio =
     (if prio = PRIORITY_HIGH then ''PRIORITY_HIGH''
      else if prio = PRIORITY_MEDIUM then ''PRIORITY_MEDIUM''
      else if prio = PRIORITY_LOW then ''PRIORITY_LOW''
      else ''UNKNOWN PRIORITY'')"

definition str_to_prio :: "string \<Rightarrow> pifus_priority" where
  "str_to_prio str =
     (if str = ''LOW'' then PRIORITY_LOW
      else if str = ''HIGH'' then PRIORITY_HIGH
      else PRIORITY_MEDIUM)"

section \<open>Address strings\<close>

text \<open>
  \<open>strncpy(value, str, 45)\<close> on the characters of \<open>str\<close> without its terminator: at most 45 of them are
  copied and the rest of the array is filled with NUL. \<open>c_string\<close> is what a reader of the array that
  stops at the first NUL sees, \<open>None\<close> when there is no NUL in it.
\<close>

definition NUL :: char where "NUL = CHR 0x00"

definition ip_addr_from_string :: "string \<Rightarrow> char list" where
  "ip_addr_from_string str = take 45 (str @ replicate 45 NUL)"

definition c_string :: "char list \<Rightarrow> string option" where
  "c_string arr = (if NUL \<in> set arr then Some (takeWhile (\<lambda>c. c \<noteq> NUL) arr) else None)"

section \<open>Operations and results\<close>

datatype op_data =
    Bind_Data (bind_ip_type: u32) (bind_port: u16)
  | Connect_Data (connect_ip_addr: "char list") (connect_port: u16)
  | Write_Data (write_block_offset: u64)
  | Recv_Data (recv_block_offset: u64) (recv_size: u64)
  | Listen_Data (listen_backlog_size: u8)
  | Indeterminate

record pifus_operation =
  op_code :: operation_code
  op_data :: op_data

definition is_tcp_operation :: "pifus_operation \<Rightarrow> bool" where
  "is_tcp_operation operation \<longleftrightarrow> op_code operation < UDP_BIND"

datatype result_code = PIFUS_OK | PIFUS_ERR | PIFUS_ASYNC | PIFUS_TRY_AGAIN

text \<open>
  The pointers of the result: \<open>memory_block_ptr\<close> and \<open>data_block_ptr\<close> are offsets in the application
  region, the accepted socket is a socket pointer and \<open>pcb\<close> a pointer of the stack process.
\<close>

datatype res_data =
    Res_Write u64
  | Res_Recv u64 u64 "nat option" "nat option"
  | Res_Accept "nat option" "nat option"
  | Res_Indeterminate

record operation_result =
  res_code :: operation_code
  result_code :: result_code
  res_data :: res_data

record write_queue_entry =
  wqe_size :: u64
  wqe_block_offset :: u64

record recv_queue_entry =
  rqe_size :: u64
  rqe_block_offset :: u64
  rqe_data_offset :: u64

record internal_operation =
  iop_operation :: pifus_operation
  iop_socket :: nat

section \<open>Lemmas\<close>

lemma is_tcp_operation_iff:
  "is_tcp_operation op \<longleftrightarrow>
     op_code op \<in> {TCP_BIND, TCP_LISTEN, TCP_ACCEPT, TCP_CONNECT, TCP_WRITE, TCP_RECV, TCP_CLOSE, TCP_ABORT}"
  by (cases "op_code op") (simp_all add: is_tcp_operation_def less_operation_code_def)

lemma length_ip_addr_from_string [simp]: "length (ip_addr_from_string str) = 45"
  by (simp add: ip_addr_from_string_def)

section \<open>Properties\<close>

text \<open>
  An address string without NUL is read back from the 45 byte array exactly when it has at most 44
  characters; a longer one (the longest textual IPv6 address has 45) leaves the array unterminated.
\<close>

theorem ip_addr_from_string_terminated:
  assumes "NUL \<notin> set str"
  shows "c_string (ip_addr_from_string str) = (if length str \<le> 44 then Some str else None)"
proof (cases "length str \<le> 44")
  case True
  then obtain k where "45 - length str = Suc k" by (cases "45 - length str") auto
  moreover from this have "k \<le> 44" by simp
  ultimately have "ip_addr_from_string str = str @ NUL # replicate k NUL"
    using True by (simp add: ip_addr_from_string_def min_def)
  with True assms show ?thesis by (auto simp: c_string_def takeWhile_tail)
next
  case False
  then have "ip_addr_from_string str = take 45 str" by (simp add: ip_addr_from_string_def)
  with False assms show ?thesis by (auto simp: c_string_def dest: in_set_takeD)
qed

theorem ip_addr_from_string_terminated_witness:
  "c_string (ip_addr_from_string ''192.168.1.200'') = Some ''192.168.1.200''
   \<and> c_string (ip_addr_from_string ''0000:0000:0000:0000:0000:ffff:192.168.100.228'') = None"
  using ip_addr_from_string_terminated [of "''192.168.1.200''"]
    ip_addr_from_string_terminated [of "''0000:0000:0000:0000:0000:ffff:192.168.100.228''"]
  by (simp add: NUL_def)

end
