(* ===== verification/Socket.thy ===== *)
theory Socket
  imports Ring_Buffer Byte_Buffer Operations
begin

text \<open>
  The shared memory region of a socket (\<open>struct pifus_socket\<close>, \<open>api/include/pifus_shmem.h\<close>) and the
  one operation every stack handler uses on it, \<open>enqueue_in_cqueue\<close> of \<open>stack.c\<close>. A socket pointer
  is a natural number; the union of protocol control blocks is the pointer \<open>pcb\<close>, \<open>None\<close> for NULL.
\<close>

section \<open>Model\<close>

definition PROTOCOL_TCP :: u32 where "PROTOCOL_TCP = 0"
definition PROTOCOL_UDP :: u32 where "PROTOCOL_UDP = 1"

definition SQUEUE_SIZE :: u16 where "SQUEUE_SIZE = 10"
definition CQUEUE_SIZE :: u16 where "CQUEUE_SIZE = 65535"
definition WRITE_QUEUE_SIZE :: u16 where "WRITE_QUEUE_SIZE = 32"
definition RECV_QUEUE_SIZE :: u16 where "RECV_QUEUE_SIZE = 32"
definition RECV_BUFFER_SIZE :: u16 where "RECV_BUFFER_SIZE = 32000"

lemmas queue_sizes = SQUEUE_SIZE_def CQUEUE_SIZE_def WRITE_QUEUE_SIZE_def RECV_QUEUE_SIZE_def
  RECV_BUFFER_SIZE_def

record pifus_socket =
  protocol :: u32
  app_index :: u32
  socket_index :: u32
  priority :: pifus_priority
  squeue_futex :: u32
  squeue :: ring_buffer
  squeue_buffer :: "pifus_operation list"
  cqueue_futex :: u32
  cqueue :: ring_buffer
  cqueue_buffer :: "operation_result list"
  write_queue :: ring_buffer
  write_queue_buffer :: "write_queue_entry list"
  recv_queue :: ring_buffer
  recv_queue_buffer :: "recv_queue_entry list"
  unread_data_offset :: u16
  recv_buffer :: pifus_byte_buffer
  recv_buffer_array :: "byte list"
  accepted_sockets_priority :: pifus_priority
  enqueued_ops :: u64
  dequeued_ops :: u64
  pcb :: "nat option"

text \<open>A region just created: \<open>shm_map_region\<close> with \<open>create\<close> fills it with zero bytes.\<close>

definition zero_rb :: ring_buffer where
  "zero_rb = \<lparr>rb_end = 0, rb_head = 0, rb_tail = 0\<rparr>"

definition zero_op :: pifus_operation where
  "zero_op = \<lparr>op_code = TCP_BIND, op_data = Bind_Data 0 0\<rparr>"

definition zero_result :: operation_result where
  "zero_result = \<lparr>res_code = TCP_BIND, result_code = PIFUS_OK, res_data = Res_Write 0\<rparr>"

definition zero_socket :: pifus_socket where
  "zero_socket =
     \<lparr>protocol = 0, app_index = 0, socket_index = 0, priority = 0,
      squeue_futex = 0, squeue = zero_rb, squeue_buffer = replicate (unat SQUEUE_SIZE) zero_op,
      cqueue_futex = 0, cqueue = zero_rb, cqueue_buffer = replicate (unat CQUEUE_SIZE) zero_result,
      write_queue = zero_rb,
      write_queue_buffer = replicate (unat WRITE_QUEUE_SIZE) \<lparr>wqe_size = 0, wqe_block_offset = 0\<rparr>,
      recv_queue = zero_rb,
      recv_queue_buffer =
        replicate (unat RECV_QUEUE_SIZE) \<lparr>rqe_size = 0, rqe_block_offset = 0, rqe_data_offset = 0\<rparr>,
      unread_data_offset = 0, recv_buffer = \<lparr>bb_head = 0, bb_end = 0, bb_tail = 0\<rparr>,
      recv_buffer_array = replicate (unat RECV_BUFFER_SIZE) 0,
      accepted_sockets_priority = 0, enqueued_ops = 0, dequeued_ops = 0, pcb = None\<rparr>"

text \<open>
  \<open>enqueue_in_cqueue\<close>: a full completion queue drops the result. The \<open>futex_wake\<close> that follows the
  increment wakes waiters and changes no memory.
\<close>

definition enqueue_in_cqueue :: "pifus_socket \<Rightarrow> operation_result \<Rightarrow> pifus_socket" where
  "enqueue_in_cqueue socket operation_result =
     (case ring_buffer_put (cqueue socket) (cqueue_buffer socket) operation_result of
        (ok, rb, buf) \<Rightarrow>
          (let s1 = socket\<lparr>cqueue := rb, cqueue_buffer := buf\<rparr>
           in if ok then s1\<lparr>cqueue_futex := cqueue_futex s1 + 1\<rparr> else s1))"

definition tcp_err_callback :: "pifus_socket \<Rightarrow> pifus_socket" where
  "tcp_err_callback socket =
     enqueue_in_cqueue (socket\<lparr>pcb := None\<rparr>)
       \<lparr>res_code = CONNECTION_LOST, result_code = PIFUS_ERR, res_data = Res_Indeterminate\<rparr>"

section \<open>Contents and invariant\<close>

definition sq_list :: "pifus_socket \<Rightarrow> pifus_operation list" where
  "sq_list s = rb_list (squeue s) (squeue_buffer s)"

definition cq_list :: "pifus_socket \<Rightarrow> operation_result list" where
  "cq_list s = rb_list (cqueue s) (cqueue_buffer s)"

definition wq_list :: "pifus_socket \<Rightarrow> write_queue_entry list" where
  "wq_list s = rb_list (write_queue s) (write_queue_buffer s)"

definition rq_list :: "pifus_socket \<Rightarrow> recv_queue_entry list" where
  "rq_list s = rb_list (recv_queue s) (recv_queue_buffer s)"

definition rbuf_list :: "pifus_socket \<Rightarrow> byte list" where
  "rbuf_list s = bb_list (recv_buffer s) (recv_buffer_array s)"

definition cq_cap :: "pifus_socket \<Rightarrow> nat" where
  "cq_cap s = unat (rb_end (cqueue s)) - 1"

lemmas sock_views = sq_list_def cq_list_def wq_list_def rq_list_def rbuf_list_def cq_cap_def

definition sock_inv :: "pifus_socket \<Rightarrow> bool" where
  "sock_inv s \<longleftrightarrow> rb_inv (squeue s) (squeue_buffer s) \<and> rb_inv (cqueue s) (cqueue_buffer s)
     \<and> rb_inv (write_queue s) (write_queue_buffer s) \<and> rb_inv (recv_queue s) (recv_queue_buffer s)
     \<and> bb_inv (recv_buffer s) (recv_buffer_array s)"

text \<open>Pushing a result on a bounded queue whose excess is dropped.\<close>

lemma take_snoc_push:
  assumes "length xs \<le> c"
  shows "(if length xs < c then xs @ [y] else xs) = take c (xs @ [y])"
  using assms by auto

lemma enqueue_in_cqueue_spec:
  assumes "sock_inv s"
  shows "sock_inv (enqueue_in_cqueue s r)" "cq_list (enqueue_in_cqueue s r) = take (cq_cap s) (cq_list s @ [r])"
    "cq_cap (enqueue_in_cqueue s r) = cq_cap s"
    "cqueue_futex (enqueue_in_cqueue s r) =
       cqueue_futex s + (if length (cq_list s) < cq_cap s then 1 else 0)"
proof -
  obtain ok rb buf where put: "ring_buffer_put (cqueue s) (cqueue_buffer s) r = (ok, rb, buf)"
    by (metis prod_cases3)
  have inv: "rb_inv (cqueue s) (cqueue_buffer s)" using assms by (simp add: sock_inv_def)
  have c: "rbq_put (cqueue s, cqueue_buffer s) r = (ok, (rb, buf))" using put by simp
  have i: "case (cqueue s, cqueue_buffer s) of (rb, buf) \<Rightarrow> rb_inv rb buf" using inv by simp
  note p = rbq.put_cases [OF i c]
  have le: "length (cq_list s) \<le> cq_cap s" using rbq.bounded [OF i] by (simp add: cq_list_def cq_cap_def rbq_cap_def)
  have e: "enqueue_in_cqueue s r = (let s1 = s\<lparr>cqueue := rb, cqueue_buffer := buf\<rparr>
      in if ok then s1\<lparr>cqueue_futex := cqueue_futex s1 + 1\<rparr> else s1)"
    using put by (simp add: enqueue_in_cqueue_def)
  have ok: "ok = (length (cq_list s) < cq_cap s)" using p(4) by (simp add: rbq_cap_def cq_list_def cq_cap_def)
  show "sock_inv (enqueue_in_cqueue s r)"
    using p(1) assms by (simp add: e Let_def sock_inv_def)
  show "cq_list (enqueue_in_cqueue s r) = take (cq_cap s) (cq_list s @ [r])"
    using p(3) ok le take_snoc_push [OF le, of r] by (simp add: e Let_def cq_list_def)
  show "cq_cap (enqueue_in_cqueue s r) = cq_cap s"
    using p(2) by (simp add: e Let_def cq_cap_def rbq_cap_def)
  show "cqueue_futex (enqueue_in_cqueue s r) =
       cqueue_futex s + (if length (cq_list s) < cq_cap s then 1 else 0)"
    using ok by (simp add: e Let_def)
qed

lemma enqueue_in_cqueue_frame [simp]:
  "protocol (enqueue_in_cqueue s r) = protocol s" "app_index (enqueue_in_cqueue s r) = app_index s"
  "socket_index (enqueue_in_cqueue s r) = socket_index s" "priority (enqueue_in_cqueue s r) = priority s"
  "squeue_futex (enqueue_in_cqueue s r) = squeue_futex s"
  "squeue (enqueue_in_cqueue s r) = squeue s" "squeue_buffer (enqueue_in_cqueue s r) = squeue_buffer s"
  "write_queue (enqueue_in_cqueue s r) = write_queue s"
  "write_queue_buffer (enqueue_in_cqueue s r) = write_queue_buffer s"
  "recv_queue (enqueue_in_cqueue s r) = recv_queue s"
  "recv_queue_buffer (enqueue_in_cqueue s r) = recv_queue_buffer s"
  "unread_data_offset (enqueue_in_cqueue s r) = unread_data_offset s"
  "recv_buffer (enqueue_in_cqueue s r) = recv_buffer s"
  "recv_buffer_array (enqueue_in_cqueue s r) = recv_buffer_array s"
  "accepted_sockets_priority (enqueue_in_cqueue s r) = accepted_sockets_priority s"
  "enqueued_ops (enqueue_in_cqueue s r) = enqueued_ops s"
  "dequeued_ops (enqueue_in_cqueue s r) = dequeued_ops s" "pcb (enqueue_in_cqueue s r) = pcb s"
  by (simp_all add: enqueue_in_cqueue_def Let_def split: prod.splits)

lemma enqueue_in_cqueue_views [simp]:
  "sq_list (enqueue_in_cqueue s r) = sq_list s" "wq_list (enqueue_in_cqueue s r) = wq_list s"
  "rq_list (enqueue_in_cqueue s r) = rq_list s" "rbuf_list (enqueue_in_cqueue s r) = rbuf_list s"
  by (simp_all add: sock_views)

text \<open>Several results in a row: the queue keeps the longest prefix that fits.\<close>

lemma take_append_push: "length xs \<le> c \<Longrightarrow> take c (take c (xs @ ys) @ zs) = take c (xs @ ys @ zs)"
  by (cases "c \<le> length (xs @ ys)") auto

section \<open>Properties\<close>

text \<open>
  Delivering a completion appends it to the socket's completion queue and bumps the futex the
  application waits on; a full queue drops the completion, keeps the futex and everything else. No
  other queue or field of the socket changes.
\<close>

theorem enqueue_in_cqueue_delivers:
  assumes "sock_inv s"
  shows "(if length (cq_list s) < cq_cap s
      then cq_list (enqueue_in_cqueue s r) = cq_list s @ [r]
        \<and> cqueue_futex (enqueue_in_cqueue s r) = cqueue_futex s + 1
      else cq_list (enqueue_in_cqueue s r) = cq_list s \<and> cqueue_futex (enqueue_in_cqueue s r) = cqueue_futex s)
     \<and> sock_inv (enqueue_in_cqueue s r) \<and> sq_list (enqueue_in_cqueue s r) = sq_list s
     \<and> wq_list (enqueue_in_cqueue s r) = wq_list s \<and> rq_list (enqueue_in_cqueue s r) = rq_list s
     \<and> rbuf_list (enqueue_in_cqueue s r) = rbuf_list s"
proof -
  have "length (cq_list s) \<le> cq_cap s"
    using assms rb_count_bound [of "cqueue s" "cqueue_buffer s"] by (simp add: sock_inv_def cq_list_def cq_cap_def)
  then show ?thesis using enqueue_in_cqueue_spec [OF assms] by auto
qed

text \<open>A small socket for the concrete applications: every queue has four slots.\<close>

definition demo_socket :: pifus_socket where
  "demo_socket = zero_socket\<lparr>
     squeue := ring_buffer_create zero_rb 4, squeue_buffer := replicate 4 zero_op,
     cqueue := ring_buffer_create zero_rb 4, cqueue_buffer := replicate 4 zero_result,
     write_queue := ring_buffer_create zero_rb 4,
     write_queue_buffer := replicate 4 \<lparr>wqe_size = 0, wqe_block_offset = 0\<rparr>,
     recv_queue := ring_buffer_create zero_rb 4,
     recv_queue_buffer := replicate 4 \<lparr>rqe_size = 0, rqe_block_offset = 0, rqe_data_offset = 0\<rparr>,
     recv_buffer := byte_buffer_create \<lparr>bb_head = 0, bb_end = 0, bb_tail = 0\<rparr> 4,
     recv_buffer_array := replicate 4 0\<rparr>"

lemma demo_socket_inv: "sock_inv demo_socket"
  by (simp add: sock_inv_def demo_socket_def create_inv bb_create)

lemma demo_socket_views:
  "sq_list demo_socket = []" "cq_list demo_socket = []" "wq_list demo_socket = []"
  "rq_list demo_socket = []" "rbuf_list demo_socket = []" "cq_cap demo_socket = 3"
  by (simp_all add: demo_socket_def sock_views bb_create) (simp add: ring_buffer_create_def)

theorem enqueue_in_cqueue_delivers_witness:
  "cq_list (enqueue_in_cqueue demo_socket zero_result) = [zero_result]"
  using enqueue_in_cqueue_delivers [OF demo_socket_inv, of zero_result] by (simp add: demo_socket_views)

end
