(* ===== verification/Service_Queue.thy ===== *)
theory Service_Queue
  imports Prelude
begin

text \<open>
  The contract of a queue whose consumer looks at the next element, handles it, and then removes it:
  the peek and the removal that follows it agree on the element. The main loop of the stack serves
  its transmit queue this way; \<open>Prio_Ring\<close> discharges the contract.
\<close>

text \<open>At most \<open>n\<close> rounds of peek and removal; the elements served, in order.\<close>

fun serve :: "('q \<Rightarrow> 'a option \<times> 'q) \<Rightarrow> ('q \<Rightarrow> (bool \<times> 'q) res) \<Rightarrow> nat \<Rightarrow> 'q \<Rightarrow> 'a list \<times> 'q" where
  "serve peek erase 0 q = ([], q)"
| "serve peek erase (Suc n) q =
     (case peek q of
        (None, q1) \<Rightarrow> ([], q1)
      | (Some x, q1) \<Rightarrow>
          (case erase q1 of
             Ok (ok, q2) \<Rightarrow> (case serve peek erase n q2 of (xs, q3) \<Rightarrow> (x # xs, q3))
           | Fault f \<Rightarrow> ([], q1)))"

locale service_queue =
  fixes inv :: "'q \<Rightarrow> bool"
    and content :: "'q \<Rightarrow> 'a list"
    and peek :: "'q \<Rightarrow> 'a option \<times> 'q"
    and erase :: "'q \<Rightarrow> (bool \<times> 'q) res"
  assumes peek_none: "inv q \<Longrightarrow> content q = [] \<Longrightarrow> peek q = (None, q)"
    and peek_erase: "inv q \<Longrightarrow> content q \<noteq> [] \<Longrightarrow>
      \<exists>q1 q2. peek q = (Some (hd (content q)), q1) \<and> erase q1 = Ok (True, q2)
        \<and> inv q2 \<and> content q2 = tl (content q)"
begin

lemma serve_in_order:
  assumes "inv q"
  shows "\<exists>q'. serve peek erase n q = (take n (content q), q') \<and> inv q' \<and> content q' = drop n (content q)"
  using assms
proof (induction n arbitrary: q)
  case (Suc n)
  show ?case
  proof (cases "content q")
    case Nil
    with Suc.prems peek_none show ?thesis by simp
  next
    case (Cons x xs)
    then obtain q1 q2 where s: "peek q = (Some x, q1)" "erase q1 = Ok (True, q2)" "inv q2" "content q2 = xs"
      using peek_erase [OF Suc.prems] by auto
    from Suc.IH [OF s(3)] s Cons show ?thesis by auto
  qed
qed simp

end

end
