(* ===== verification/Prio_Ring.thy ===== *)
theory Prio_Ring
  imports Ring_Buffer Operations Service_Queue
begin

text \<open>
  The transmit queue of the stack (\<open>api/src/pifus_priority_aware_ring_buffer.c\<close>): three ring buffers
  of internal operations, served high before medium before low. \<open>last_peek\<close> remembers which ring the
  last peek looked at; in C it is a pointer into the structure, here its name, \<open>None\<close> for NULL.
  The contract \<open>service_queue\<close> is discharged at the end.
\<close>

section \<open>Model\<close>

datatype ring_name = High | Medium | Low

record prio_ring =
  low_prio_queue :: ring_buffer
  low_prio_queue_buffer :: "internal_operation list"
  low_prio_queue_futex :: u32
  medium_prio_queue :: ring_buffer
  medium_prio_queue_buffer :: "internal_operation list"
  medium_prio_queue_futex :: u32
  high_prio_queue :: ring_buffer
  high_prio_queue_buffer :: "internal_operation list"
  high_prio_queue_futex :: u32
  last_peek :: "ring_name option"

definition TX_QUEUE_SIZE :: u16 where "TX_QUEUE_SIZE = 512"

fun pr_ring :: "prio_ring \<Rightarrow> ring_name \<Rightarrow> ring_buffer" where
  "pr_ring q High = high_prio_queue q"
| "pr_ring q Medium = medium_prio_queue q"
| "pr_ring q Low = low_prio_queue q"

fun pr_buffer :: "prio_ring \<Rightarrow> ring_name \<Rightarrow> internal_operation list" where
  "pr_buffer q High = high_prio_queue_buffer q"
| "pr_buffer q Medium = medium_prio_queue_buffer q"
| "pr_buffer q Low = low_prio_queue_buffer q"

fun pr_set_ring :: "prio_ring \<Rightarrow> ring_name \<Rightarrow> ring_buffer \<Rightarrow> prio_ring" where
  "pr_set_ring q High rb = q\<lparr>high_prio_queue := rb\<rparr>"
| "pr_set_ring q Medium rb = q\<lparr>medium_prio_queue := rb\<rparr>"
| "pr_set_ring q Low rb = q\<lparr>low_prio_queue := rb\<rparr>"

fun pr_set_buffer :: "prio_ring \<Rightarrow> ring_name \<Rightarrow> internal_operation list \<Rightarrow> prio_ring" where
  "pr_set_buffer q High b = q\<lparr>high_prio_queue_buffer := b\<rparr>"
| "pr_set_buffer q Medium b = q\<lparr>medium_prio_queue_buffer := b\<rparr>"
| "pr_set_buffer q Low b = q\<lparr>low_prio_queue_buffer := b\<rparr>"

definition prio_ring_create :: "prio_ring \<Rightarrow> prio_ring" where
  "prio_ring_create q =
     q\<lparr>high_prio_queue := ring_buffer_create (high_prio_queue q) TX_QUEUE_SIZE,
       medium_prio_queue := ring_buffer_create (medium_prio_queue q) TX_QUEUE_SIZE,
       low_prio_queue := ring_buffer_create (low_prio_queue q) TX_QUEUE_SIZE\<rparr>"

text \<open>The element a peek points to is named by its ring and its slot there.\<close>

definition prio_ring_peek :: "prio_ring \<Rightarrow> (ring_name \<times> u16) option \<times> prio_ring" where
  "prio_ring_peek q =
     (case ring_buffer_peek (high_prio_queue q) of
        Some i \<Rightarrow> (Some (High, i), q\<lparr>last_peek := Some High\<rparr>)
      | None \<Rightarrow>
     (case ring_buffer_peek (medium_prio_queue q) of
        Some i \<Rightarrow> (Some (Medium, i), q\<lparr>last_peek := Some Medium\<rparr>)
      | None \<Rightarrow>
     (case ring_buffer_peek (low_prio_queue q) of
        Some i \<Rightarrow> (Some (Low, i), q\<lparr>last_peek := Some Low\<rparr>)
      | None \<Rightarrow> (None, q))))"

definition prio_ring_erase_first :: "prio_ring \<Rightarrow> (bool \<times> prio_ring) res" where
  "prio_ring_erase_first q =
     (case last_peek q of
        None \<Rightarrow> Fault Null_Dereference
      | Some r \<Rightarrow> (case ring_buffer_erase_first (pr_ring q r) of
                    (ok, rb) \<Rightarrow> Ok (ok, pr_set_ring q r rb)))"

text \<open>The outer option is \<open>None\<close> when one of the three scans does not return.\<close>

definition prio_ring_find ::
    "prio_ring \<Rightarrow> (internal_operation \<Rightarrow> bool) \<Rightarrow> (ring_name \<times> u16) option option" where
  "prio_ring_find q satisfies =
     Option.bind (ring_buffer_find (high_prio_queue q) (high_prio_queue_buffer q) satisfies)
       (\<lambda>r. case r of Some i \<Rightarrow> Some (Some (High, i)) | None \<Rightarrow>
     Option.bind (ring_buffer_find (medium_prio_queue q) (medium_prio_queue_buffer q) satisfies)
       (\<lambda>r. case r of Some i \<Rightarrow> Some (Some (Medium, i)) | None \<Rightarrow>
     Option.bind (ring_buffer_find (low_prio_queue q) (low_prio_queue_buffer q) satisfies)
       (\<lambda>r. case r of Some i \<Rightarrow> Some (Some (Low, i)) | None \<Rightarrow> Some None)))"

text \<open>What the priority threads do with their ring, and the access through a found element.\<close>

definition pr_put :: "prio_ring \<Rightarrow> ring_name \<Rightarrow> internal_operation \<Rightarrow> bool \<times> prio_ring" where
  "pr_put q r x =
     (case ring_buffer_put (pr_ring q r) (pr_buffer q r) x of
        (ok, rb, buf) \<Rightarrow> (ok, pr_set_buffer (pr_set_ring q r rb) r buf))"

definition pr_at :: "prio_ring \<Rightarrow> ring_name \<times> u16 \<Rightarrow> internal_operation" where
  "pr_at q p = pr_buffer q (fst p) ! unat (snd p)"

definition pr_store :: "prio_ring \<Rightarrow> ring_name \<times> u16 \<Rightarrow> internal_operation \<Rightarrow> prio_ring" where
  "pr_store q p x = pr_set_buffer q (fst p) ((pr_buffer q (fst p))[unat (snd p) := x])"

section \<open>Invariant and content\<close>

definition pr_inv :: "prio_ring \<Rightarrow> bool" where
  "pr_inv q \<longleftrightarrow> rb_inv (high_prio_queue q) (high_prio_queue_buffer q)
     \<and> rb_inv (medium_prio_queue q) (medium_prio_queue_buffer q)
     \<and> rb_inv (low_prio_queue q) (low_prio_queue_buffer q)"

definition pr_list :: "prio_ring \<Rightarrow> ring_name \<Rightarrow> internal_operation list" where
  "pr_list q r = rb_list (pr_ring q r) (pr_buffer q r)"

text \<open>The order in which the stack serves the operations.\<close>

definition pr_all :: "prio_ring \<Rightarrow> internal_operation list" where
  "pr_all q = pr_list q High @ pr_list q Medium @ pr_list q Low"

text \<open>The ring a peek chooses.\<close>

definition pr_top :: "prio_ring \<Rightarrow> ring_name option" where
  "pr_top q = (if pr_list q High \<noteq> [] then Some High else if pr_list q Medium \<noteq> [] then Some Medium
     else if pr_list q Low \<noteq> [] then Some Low else None)"

lemma pr_inv_ring: "pr_inv q \<Longrightarrow> rb_inv (pr_ring q r) (pr_buffer q r)"
  by (cases r) (auto simp: pr_inv_def)

lemma pr_inv_iff: "pr_inv q \<longleftrightarrow> (\<forall>r. rb_inv (pr_ring q r) (pr_buffer q r))"
  unfolding pr_inv_def by (metis pr_buffer.simps pr_ring.simps ring_name.exhaust)

lemma pr_get_set [simp]:
  "pr_ring (pr_set_ring q r rb) r' = (if r' = r then rb else pr_ring q r')"
  "pr_buffer (pr_set_ring q r rb) r' = pr_buffer q r'"
  "pr_ring (pr_set_buffer q r b) r' = pr_ring q r'"
  "pr_buffer (pr_set_buffer q r b) r' = (if r' = r then b else pr_buffer q r')"
  "last_peek (pr_set_ring q r rb) = last_peek q" "last_peek (pr_set_buffer q r b) = last_peek q"
  by (cases r; cases r'; simp)+

lemma pr_last_peek [simp]:
  "pr_ring (q\<lparr>last_peek := l\<rparr>) r = pr_ring q r" "pr_buffer (q\<lparr>last_peek := l\<rparr>) r = pr_buffer q r"
  "pr_list (q\<lparr>last_peek := l\<rparr>) = pr_list q" "pr_inv (q\<lparr>last_peek := l\<rparr>) = pr_inv q"
proof -
  show r: "pr_ring (q\<lparr>last_peek := l\<rparr>) r = pr_ring q r" "pr_buffer (q\<lparr>last_peek := l\<rparr>) r = pr_buffer q r" for r
    by (cases r; simp)+
  show "pr_list (q\<lparr>last_peek := l\<rparr>) = pr_list q" "pr_inv (q\<lparr>last_peek := l\<rparr>) = pr_inv q"
    by (auto simp: pr_list_def r pr_inv_def)
qed

lemma pr_last_peek_views [simp]:
  "pr_all (q\<lparr>last_peek := l\<rparr>) = pr_all q" "pr_top (q\<lparr>last_peek := l\<rparr>) = pr_top q"
  by (simp_all only: pr_all_def pr_top_def pr_last_peek)

section \<open>Behaviour of the operations\<close>

lemma prio_ring_create_spec:
  assumes "\<forall>r. 512 \<le> length (pr_buffer q r)"
  shows "pr_inv (prio_ring_create q)" "pr_list (prio_ring_create q) r = []"
proof -
  have "512 \<le> length (high_prio_queue_buffer q)" "512 \<le> length (medium_prio_queue_buffer q)"
    "512 \<le> length (low_prio_queue_buffer q)"
    using assms [THEN spec, of High] assms [THEN spec, of Medium] assms [THEN spec, of Low] by auto
  then show "pr_inv (prio_ring_create q)"
    by (simp add: pr_inv_def prio_ring_create_def create_inv TX_QUEUE_SIZE_def)
  show "pr_list (prio_ring_create q) r = []" by (cases r) (simp_all add: pr_list_def prio_ring_create_def)
qed

text \<open>One ring seen from a peek: whether it is empty and what it points to.\<close>

lemma pr_peek_ring:
  assumes "pr_inv q"
  shows "ring_buffer_peek (pr_ring q r) =
      (if pr_list q r = [] then None else Some (rb_tail (pr_ring q r)))"
    "pr_list q r \<noteq> [] \<Longrightarrow> pr_at q (r, rb_tail (pr_ring q r)) = hd (pr_list q r)"
  using peek_spec [OF pr_inv_ring [OF assms], of r] by (auto simp: pr_list_def pr_at_def)

lemma prio_ring_peek_spec:
  assumes "pr_inv q"
  shows "prio_ring_peek q =
     (case pr_top q of None \<Rightarrow> (None, q)
      | Some r \<Rightarrow> (Some (r, rb_tail (pr_ring q r)), q\<lparr>last_peek := Some r\<rparr>))"
  using pr_peek_ring(1) [OF assms, of High] pr_peek_ring(1) [OF assms, of Medium]
    pr_peek_ring(1) [OF assms, of Low]
  by (simp add: prio_ring_peek_def pr_top_def)

lemma pr_top_all: "pr_top q = None \<longleftrightarrow> pr_all q = []"
  "pr_top q = Some r \<Longrightarrow> pr_list q r \<noteq> [] \<and> hd (pr_all q) = hd (pr_list q r)"
  by (auto simp: pr_top_def pr_all_def split: if_splits)

lemma prio_ring_erase_spec:
  assumes "pr_inv q" "last_peek q = Some r" "pr_list q r \<noteq> []"
  obtains q' where "prio_ring_erase_first q = Ok (True, q')" "pr_inv q'" "last_peek q' = Some r"
    "\<And>r'. pr_list q' r' = (if r' = r then tl (pr_list q r) else pr_list q r')"
proof -
  obtain ok rb where er: "ring_buffer_erase_first (pr_ring q r) = (ok, rb)" by force
  note e = erase_nonempty [OF pr_inv_ring [OF assms(1)] _ er]
  have ne: "rb_list (pr_ring q r) (pr_buffer q r) \<noteq> []" using assms(3) by (simp add: pr_list_def)
  show thesis
  proof
    show "prio_ring_erase_first q = Ok (True, pr_set_ring q r rb)"
      using er assms(2) e(1) [OF ne] by (simp add: prio_ring_erase_first_def)
    show "pr_inv (pr_set_ring q r rb)"
      using e(2) [OF ne] assms(1) by (simp add: pr_inv_iff)
    show "last_peek (pr_set_ring q r rb) = Some r" using assms(2) by simp
    show "pr_list (pr_set_ring q r rb) r' = (if r' = r then tl (pr_list q r) else pr_list q r')" for r'
      using e(3) [OF ne] by (simp add: pr_list_def)
  qed
qed

lemma pr_top_tl_all:
  assumes "pr_top q = Some r"
    and "\<And>r'. pr_list q' r' = (if r' = r then tl (pr_list q r) else pr_list q r')"
  shows "pr_all q' = tl (pr_all q)"
  using assms by (auto simp: pr_all_def pr_top_def split: if_splits)

lemma pr_put_spec:
  assumes "pr_inv q" "pr_put q r x = (ok, q')"
  shows "pr_inv q'" "ok \<longleftrightarrow> length (pr_list q r) < unat (rb_end (pr_ring q r)) - 1"
    "\<And>r'. pr_list q' r' = pr_list q r' @ (if ok \<and> r' = r then [x] else [])"
    "rb_end (pr_ring q' r') = rb_end (pr_ring q r')" "last_peek q' = last_peek q"
proof -
  obtain rb buf where put: "ring_buffer_put (pr_ring q r) (pr_buffer q r) x = (ok, rb, buf)"
    and q': "q' = pr_set_buffer (pr_set_ring q r rb) r buf"
    using assms(2) by (auto simp: pr_put_def split: prod.splits)
  have inv: "rb_inv (pr_ring q r) (pr_buffer q r)" using pr_inv_ring [OF assms(1)] .
  have *: "rb_inv rb buf \<and> rb_list rb buf = pr_list q r @ (if ok then [x] else [])
      \<and> rb_end rb = rb_end (pr_ring q r) \<and> ok = (length (pr_list q r) < unat (rb_end (pr_ring q r)) - 1)"
    using put_full [OF inv, of x] put_not_full [OF inv _ put] is_full_iff [OF inv] put inv
      rb_count_bound [OF inv]
    by (cases "ring_buffer_is_full (pr_ring q r)") (auto simp: pr_list_def)
  with assms(1) q' show "pr_inv q'" by (auto simp: pr_inv_iff)
  from * show "ok \<longleftrightarrow> length (pr_list q r) < unat (rb_end (pr_ring q r)) - 1" by blast
  from * q' show "pr_list q' r' = pr_list q r' @ (if ok \<and> r' = r then [x] else [])" for r'
    by (auto simp: pr_list_def)
  from * q' show "rb_end (pr_ring q' r') = rb_end (pr_ring q r')" "last_peek q' = last_peek q" by auto
qed

lemma prio_ring_find_spec:
  assumes "pr_inv q"
  obtains "prio_ring_find q P = Some None" "\<forall>x\<in>set (pr_all q). \<not> P x"
  | r i k where "prio_ring_find q P = Some (Some (r, i))" "k < length (pr_list q r)"
      "unat i = rb_slot (pr_ring q r) k" "P (pr_list q r ! k)"
      "List.find P (pr_all q) = Some (pr_list q r ! k)"
proof -
  have none: "List.find P xs = None" if "\<forall>x\<in>set xs. \<not> P x" for xs
    using that by (simp add: find_None_iff)
  note c = find_cases [OF pr_inv_ring [OF assms], of _ P, folded pr_list_def]
  note defs = prio_ring_find_def pr_all_def find_append
  from c [of High] show thesis
  proof cases
    case 1
    note h = this
    from c [of Medium] show thesis
    proof cases
      case 1
      note m = this
      from c [of Low] show thesis
      proof cases
        case 1
        with h m that(1) show thesis by (auto simp: defs pr_list_def)
      next
        case (2 i k)
        with h m none that(2) [of Low i k] show thesis by (simp add: defs pr_list_def)
      qed
    next
      case (2 i k)
      with h none that(2) [of Medium i k] show thesis by (simp add: defs pr_list_def)
    qed
  next
    case (2 i k)
    with that(2) [of High i k] show thesis by (simp add: defs pr_list_def)
  qed
qed

lemma pr_at_slot:
  "k < length (pr_list q r) \<Longrightarrow> unat i = rb_slot (pr_ring q r) k \<Longrightarrow> pr_at q (r, i) = pr_list q r ! k"
  by (simp add: pr_at_def pr_list_def rb_list_nth)

lemma pr_store_spec:
  assumes "pr_inv q" "k < length (pr_list q r)" "unat i = rb_slot (pr_ring q r) k"
  shows "pr_inv (pr_store q (r, i) x)"
    "pr_list (pr_store q (r, i) x) r' = (if r' = r then (pr_list q r)[k := x] else pr_list q r')"
    "last_peek (pr_store q (r, i) x) = last_peek q"
  using assms rb_list_update [OF pr_inv_ring [OF assms(1)], of k r x]
  by (auto simp: pr_store_def pr_inv_iff pr_list_def rb_inv_def)

text \<open>The same in terms of the service order.\<close>

lemma pr_store_all:
  assumes "pr_inv q" "k < length (pr_list q r)" "unat i = rb_slot (pr_ring q r) k"
  obtains K where "K < length (pr_all q)" "pr_all q ! K = pr_at q (r, i)"
    "\<And>x. pr_all (pr_store q (r, i) x) = (pr_all q)[K := x]"
proof -
  define K where "K = (case r of High \<Rightarrow> k | Medium \<Rightarrow> length (pr_list q High) + k
     | Low \<Rightarrow> length (pr_list q High) + length (pr_list q Medium) + k)"
  show thesis
  proof (rule that [of K])
    show "K < length (pr_all q)" using assms(2) by (cases r) (auto simp: K_def pr_all_def)
    show "pr_all q ! K = pr_at q (r, i)"
      using assms(2) pr_at_slot [OF assms(2,3)] by (cases r) (auto simp: K_def pr_all_def nth_append)
    show "pr_all (pr_store q (r, i) x) = (pr_all q)[K := x]" for x
      using assms(2) pr_store_spec(2) [OF assms, of x]
      by (cases r) (auto simp: K_def pr_all_def list_update_append)
  qed
qed

text \<open>The slot a peek names: position 0 of its ring.\<close>

lemma pr_top_slot:
  assumes "pr_inv q" "pr_top q = Some r"
  shows "0 < length (pr_list q r)" "unat (rb_tail (pr_ring q r)) = rb_slot (pr_ring q r) 0"
    "pr_at q (r, rb_tail (pr_ring q r)) = hd (pr_all q)"
  using assms pr_top_all(2) [OF assms(2)] pr_peek_ring(2) [OF assms(1), of r] pr_inv_ring [OF assms(1), of r]
  by (auto simp: rb_slot_def rb_inv_def)

section \<open>Service in priority order\<close>

definition pr_next :: "prio_ring \<Rightarrow> internal_operation option \<times> prio_ring" where
  "pr_next q = (case prio_ring_peek q of (p, q') \<Rightarrow> (map_option (pr_at q') p, q'))"

lemma pr_next_erase:
  assumes "pr_inv q" "pr_all q \<noteq> []"
  obtains q1 q2 where "pr_next q = (Some (hd (pr_all q)), q1)" "prio_ring_erase_first q1 = Ok (True, q2)"
    "pr_inv q2" "pr_all q2 = tl (pr_all q)"
proof -
  obtain r where r: "pr_top q = Some r" using assms(2) pr_top_all(1) by (cases "pr_top q") auto
  note t = pr_top_all(2) [OF r]
  let ?q1 = "q\<lparr>last_peek := Some r\<rparr>"
  have p: "pr_next q = (Some (hd (pr_all q)), ?q1)"
    using prio_ring_peek_spec [OF assms(1)] r t pr_peek_ring(2) [of ?q1 r] assms(1)
    by (simp add: pr_next_def)
  have "pr_inv ?q1" "last_peek ?q1 = Some r" "pr_list ?q1 r \<noteq> []" using assms(1) t by simp_all
  from prio_ring_erase_spec [OF this] obtain q2 where q2: "prio_ring_erase_first ?q1 = Ok (True, q2)"
    "pr_inv q2" "\<And>r'. pr_list q2 r' = (if r' = r then tl (pr_list q r) else pr_list q r')"
    by (metis pr_last_peek(3))
  from that [OF p q2(1,2)] pr_top_tl_all [OF r q2(3)] show thesis .
qed

interpretation prq: service_queue pr_inv pr_all pr_next prio_ring_erase_first
proof (unfold_locales, goal_cases)
  case (1 q)
  then show ?case using prio_ring_peek_spec [OF 1(1)] pr_top_all(1) [of q] by (simp add: pr_next_def)
next
  case (2 q)
  then show ?case using pr_next_erase [OF 2] by metis
qed

section \<open>Properties\<close>

text \<open>
  C17. Serving the transmit queue by peek and erase hands out the operations strictly by priority (high,
  then medium, then low) and first-in first-out within a priority; \<open>erase_first\<close> removes exactly the
  operation the peek before it returned and never follows a null \<open>last_peek\<close>.
\<close>

theorem prio_ring_serves_by_priority:
  assumes "pr_inv q"
  shows "\<exists>q'. serve pr_next prio_ring_erase_first n q = (take n (pr_list q High @ pr_list q Medium @ pr_list q Low), q')
     \<and> pr_inv q' \<and> pr_list q' High @ pr_list q' Medium @ pr_list q' Low
        = drop n (pr_list q High @ pr_list q Medium @ pr_list q Low)"
  using prq.serve_in_order [OF assms] by (simp add: pr_all_def)

definition pr_demo :: prio_ring where
  "pr_demo =
     (let op = (\<lambda>n. \<lparr>iop_operation = \<lparr>op_code = NOP, op_data = Indeterminate\<rparr>, iop_socket = n\<rparr>);
          rb = (\<lambda>h. \<lparr>rb_end = 3, rb_head = h, rb_tail = 0\<rparr>)
      in \<lparr>low_prio_queue = rb 2, low_prio_queue_buffer = [op 5, op 6, op 0], low_prio_queue_futex = 0,
          medium_prio_queue = rb 0, medium_prio_queue_buffer = [op 0, op 0, op 0], medium_prio_queue_futex = 0,
          high_prio_queue = rb 1, high_prio_queue_buffer = [op 1, op 0, op 0], high_prio_queue_futex = 0,
          last_peek = None\<rparr>)"

theorem prio_ring_serves_by_priority_witness:
  "map iop_socket (fst (serve pr_next prio_ring_erase_first 2 pr_demo)) = [1, 5]"
proof -
  have "pr_inv pr_demo" by (simp add: pr_inv_def pr_demo_def Let_def rb_inv_def)
  moreover have "map iop_socket (take 2 (pr_list pr_demo High @ pr_list pr_demo Medium @ pr_list pr_demo Low)) = [1, 5]"
    by (simp add: pr_demo_def Let_def pr_list_def rb_list_def rb_count_def ring_count_def ring_view_def upt_rec)
  ultimately show ?thesis using prio_ring_serves_by_priority [of pr_demo 2] by auto
qed

end
