(* ===== verification/Memory.thy ===== *)
theory Memory
  imports Prelude
begin

text \<open>
  The bytes of a shared memory region, addressed by their offset from the start of the region, with
  the C accesses the allocator makes on it: \<open>memset\<close>, \<open>memcpy\<close>, and the little-endian 64 bit
  fields of \<open>struct pifus_memory_block\<close> (x86-64 layout: \<open>free\<close> at 0, \<open>size\<close> at 8,
  \<open>prev_block_offset\<close> at 16, 24 bytes in all). Reads over writes are collected in \<open>mem_simps\<close>.
\<close>

section \<open>Bytes\<close>

type_synonym mem = "nat \<Rightarrow> byte"

definition mload :: "mem \<Rightarrow> nat \<Rightarrow> nat \<Rightarrow> byte list" where
  "mload m a n = map m [a..<a + n]"

definition mstore :: "mem \<Rightarrow> nat \<Rightarrow> byte list \<Rightarrow> mem" where
  "mstore m a bs = (\<lambda>x. if a \<le> x \<and> x < a + length bs then bs ! (x - a) else m x)"

definition memset :: "mem \<Rightarrow> nat \<Rightarrow> byte \<Rightarrow> nat \<Rightarrow> mem" where
  "memset m a v n = (\<lambda>x. if a \<le> x \<and> x < a + n then v else m x)"

lemma length_mload [simp]: "length (mload m a n) = n"
  by (simp add: mload_def)

lemma mload_cong: "(\<And>x. a \<le> x \<Longrightarrow> x < a + n \<Longrightarrow> m x = m' x) \<Longrightarrow> mload m a n = mload m' a n"
  by (auto simp: mload_def)

lemma mload_mstore_same [mem_simps]: "n = length bs \<Longrightarrow> mload (mstore m a bs) a n = bs"
  by (rule nth_equalityI) (auto simp: mload_def mstore_def)

lemma mload_mstore_disjoint [mem_simps]:
  "a + n \<le> b \<or> b + length bs \<le> a \<Longrightarrow> mload (mstore m b bs) a n = mload m a n"
  by (rule mload_cong) (auto simp: mstore_def)

lemma mload_memset_in [mem_simps]:
  "b \<le> a \<Longrightarrow> a + n \<le> b + k \<Longrightarrow> mload (memset m b v k) a n = replicate n v"
  by (rule nth_equalityI) (auto simp: mload_def memset_def)

lemma mload_memset_disjoint [mem_simps]:
  "a + n \<le> b \<or> b + k \<le> a \<Longrightarrow> mload (memset m b v k) a n = mload m a n"
  by (rule mload_cong) (auto simp: memset_def)

lemma mload_upd_disjoint [mem_simps]:
  "b < a \<or> a + n \<le> b \<Longrightarrow> mload (m(b := v)) a n = mload m a n"
  by (rule mload_cong) auto

lemma mstore_out [mem_simps]: "x < a \<or> a + length bs \<le> x \<Longrightarrow> mstore m a bs x = m x"
  by (auto simp: mstore_def)

lemma memset_out [mem_simps]: "x < a \<or> a + n \<le> x \<Longrightarrow> memset m a v n x = m x"
  by (auto simp: memset_def)

lemma memset_in [mem_simps]: "a \<le> x \<Longrightarrow> x < a + n \<Longrightarrow> memset m a v n x = v"
  by (auto simp: memset_def)

section \<open>Little-endian integers\<close>

fun le_bytes :: "nat \<Rightarrow> nat \<Rightarrow> byte list" where
  "le_bytes 0 n = []"
| "le_bytes (Suc k) n = of_nat n # le_bytes k (n div 256)"

fun le_nat :: "byte list \<Rightarrow> nat" where
  "le_nat [] = 0"
| "le_nat (b # bs) = unat b + 256 * le_nat bs"

lemma length_le_bytes [simp]: "length (le_bytes k n) = k"
  by (induction k arbitrary: n) auto

lemma le_nat_le_bytes [simp]: "le_nat (le_bytes k n) = n mod 256 ^ k"
proof (induction k arbitrary: n)
  case (Suc k)
  have "n mod 256 + 256 * (n div 256 mod 256 ^ k) = n mod (256 * 256 ^ k)"
    by (simp add: mod_mult2_eq)
  with Suc show ?case by (simp add: unat_of_nat)
qed simp

lemma le_nat_bound: "le_nat bs < 256 ^ length bs"
proof (induction bs)
  case (Cons b bs)
  have "unat b < 256" by (rule unat_less_u8)
  with Cons show ?case by simp
qed simp

lemma le_nat_zeros [simp]: "le_nat (replicate k 0) = 0"
  by (induction k) auto

section \<open>Fields of a memory block header\<close>

definition blk_free :: "mem \<Rightarrow> nat \<Rightarrow> bool" where
  "blk_free m b \<longleftrightarrow> m b \<noteq> 0"

definition set_free :: "mem \<Rightarrow> nat \<Rightarrow> bool \<Rightarrow> mem" where
  "set_free m b v = m(b := (if v then 1 else 0))"

definition blk_size :: "mem \<Rightarrow> nat \<Rightarrow> nat" where
  "blk_size m b = le_nat (mload m (b + 8) 8)"

definition set_size :: "mem \<Rightarrow> nat \<Rightarrow> nat \<Rightarrow> mem" where
  "set_size m b n = mstore m (b + 8) (le_bytes 8 n)"

definition blk_prev :: "mem \<Rightarrow> nat \<Rightarrow> int" where
  "blk_prev m b = sint (of_nat (le_nat (mload m (b + 16) 8)) :: u64)"

definition set_prev :: "mem \<Rightarrow> nat \<Rightarrow> int \<Rightarrow> mem" where
  "set_prev m b i = mstore m (b + 16) (le_bytes 8 (unat (of_int i :: u64)))"

lemmas blk_field_defs = blk_free_def set_free_def blk_size_def set_size_def blk_prev_def set_prev_def

lemma blk_size_set_size [mem_simps]: "blk_size (set_size m b n) b = n mod 2 ^ 64"
  by (simp add: blk_field_defs mem_simps)

lemma blk_prev_set_prev [mem_simps]:
  assumes "- (2 ^ 63) \<le> i" "i < 2 ^ 63"
  shows "blk_prev (set_prev m b i) b = i"
proof -
  have "unat (of_int i :: u64) mod 256 ^ 8 = unat (of_int i :: u64)"
    using unsigned_less [of "of_int i :: u64", where ?'a = nat] by simp
  then have "blk_prev (set_prev m b i) b = sint (of_int i :: u64)"
    by (simp add: blk_prev_def set_prev_def mem_simps)
  also have "\<dots> = i" using assms by (simp add: signed_of_int signed_take_bit_int_eq_self)
  finally show ?thesis .
qed

lemma blk_free_set_free [mem_simps]: "blk_free (set_free m b v) b = v"
  by (simp add: blk_field_defs)

text \<open>Different fields of one header, and headers at least 24 bytes apart, do not interfere.\<close>

lemma blk_same_block [mem_simps]:
  "blk_size (set_prev m b i) b = blk_size m b" "blk_size (set_free m b v) b = blk_size m b"
  "blk_prev (set_size m b n) b = blk_prev m b" "blk_prev (set_free m b v) b = blk_prev m b"
  "blk_free (set_size m b n) b = blk_free m b" "blk_free (set_prev m b i) b = blk_free m b"
  by (simp_all add: blk_field_defs mem_simps)

lemma blk_other_block [mem_simps]:
  assumes "a + 24 \<le> b \<or> b + 24 \<le> a"
  shows "blk_size (set_size m b n) a = blk_size m a" "blk_size (set_prev m b i) a = blk_size m a"
    "blk_size (set_free m b v) a = blk_size m a"
    "blk_prev (set_size m b n) a = blk_prev m a" "blk_prev (set_prev m b i) a = blk_prev m a"
    "blk_prev (set_free m b v) a = blk_prev m a"
    "blk_free (set_size m b n) a = blk_free m a" "blk_free (set_prev m b i) a = blk_free m a"
    "blk_free (set_free m b v) a = blk_free m a"
  using assms by (auto simp: blk_field_defs mem_simps)

lemma set_field_out [mem_simps]:
  assumes "x < b \<or> b + 24 \<le> x"
  shows "set_size m b n x = m x" "set_prev m b i x = m x" "set_free m b v x = m x"
  using assms by (auto simp: blk_field_defs mem_simps)

lemma blk_memset_out [mem_simps]:
  assumes "a + 24 \<le> b \<or> b + k \<le> a"
  shows "blk_size (memset m b v k) a = blk_size m a" "blk_prev (memset m b v k) a = blk_prev m a"
    "blk_free (memset m b v k) a = blk_free m a"
  using assms by (auto simp: blk_field_defs mem_simps)

lemma blk_memset_in [mem_simps]:
  assumes "b \<le> a" "a + 24 \<le> b + k"
  shows "blk_size (memset m b 0 k) a = 0" "blk_free (memset m b 0 k) a = False"
  using assms by (auto simp: blk_field_defs mem_simps)

lemma blk_cong:
  assumes "\<And>x. a \<le> x \<Longrightarrow> x < a + 24 \<Longrightarrow> m x = m' x"
  shows "blk_size m a = blk_size m' a" "blk_prev m a = blk_prev m' a" "blk_free m a = blk_free m' a"
proof -
  have "mload m (a + 8) 8 = mload m' (a + 8) 8" "mload m (a + 16) 8 = mload m' (a + 16) 8" "m a = m' a"
    using assms by (auto intro!: mload_cong)
  then show "blk_size m a = blk_size m' a" "blk_prev m a = blk_prev m' a" "blk_free m a = blk_free m' a"
    by (simp_all add: blk_field_defs)
qed

lemma blk_zero: "(\<And>x. a \<le> x \<Longrightarrow> m x = 0) \<Longrightarrow> blk_size m a = 0"
  using blk_cong(1) [of a m "\<lambda>_. 0"] by (simp add: blk_size_def mload_def map_replicate_const)

end
