(* ===== verification/Region_Allocator.thy ===== *)
theory Region_Allocator
  imports Memory
begin

text \<open>
  What the socket layer relies on when it places payloads in shared memory: an allocation hands out
  bytes nobody else uses and leaves the bytes in use alone, and stores into bytes in use do not
  disturb the allocator. \<open>Shmem\<close> discharges it for the block allocator of the application region.
  The ghost state \<open>'g\<close> is whatever the implementation keeps to know the bytes in use.
\<close>

text \<open>
  A run of allocations, each followed by a store that fills the new block; the payloads in order.
\<close>

fun alloc_writes :: "(mem \<Rightarrow> nat \<Rightarrow> (mem \<times> (int \<times> nat) option) res) \<Rightarrow> (nat \<Rightarrow> nat) \<Rightarrow>
    mem \<Rightarrow> byte list list \<Rightarrow> mem option" where
  "alloc_writes alloc data_ptr m [] = Some m"
| "alloc_writes alloc data_ptr m (bs # rest) =
     (case alloc m (length bs) of
        Ok (m', Some (off, b)) \<Rightarrow> alloc_writes alloc data_ptr (mstore m' (data_ptr b) bs) rest
      | _ \<Rightarrow> None)"

locale region_allocator =
  fixes inv :: "mem \<Rightarrow> 'g \<Rightarrow> bool"
    and used :: "'g \<Rightarrow> nat set"
    and alloc :: "mem \<Rightarrow> nat \<Rightarrow> (mem \<times> (int \<times> nat) option) res"
    and data_ptr :: "nat \<Rightarrow> nat"
  assumes alloc_law: "inv m g \<Longrightarrow> 0 < n \<Longrightarrow> alloc m n = Ok (m', Some (off, b)) \<Longrightarrow>
      \<exists>g'. inv m' g' \<and> used g' = used g \<union> {data_ptr b..<data_ptr b + n} \<and>
        used g \<inter> {data_ptr b..<data_ptr b + n} = {} \<and> (\<forall>x \<in> used g. m' x = m x)"
    and alloc_none_law: "inv m g \<Longrightarrow> 0 < n \<Longrightarrow> alloc m n = Ok (m', None) \<Longrightarrow> m' = m"
    and alloc_total: "inv m g \<Longrightarrow> 0 < n \<Longrightarrow> \<exists>m' r. alloc m n = Ok (m', r)"
    and write_law: "inv m g \<Longrightarrow> (\<And>x. x \<notin> used g \<Longrightarrow> m' x = m x) \<Longrightarrow> inv m' g"
begin

lemma store_payload:
  assumes "inv m g" "{a..<a + length bs} \<subseteq> used g"
  shows "inv (mstore m a bs) g"
  by (rule write_law [OF assms(1)]) (use assms(2) in \<open>auto simp: mstore_def\<close>)

text \<open>A payload stored in an allocated block is read back unchanged after such a run.\<close>

lemma payload_survives:
  assumes "inv m g" "{a..<a + n} \<subseteq> used g" "list_all (\<lambda>bs. bs \<noteq> []) pss" "alloc_writes alloc data_ptr m pss = Some m'"
  shows "mload m' a n = mload m a n"
  using assms
proof (induction pss arbitrary: m g)
  case (Cons bs pss)
  then obtain m1 off b where al: "alloc m (length bs) = Ok (m1, Some (off, b))"
    and rest: "alloc_writes alloc data_ptr (mstore m1 (data_ptr b) bs) pss = Some m'"
    by (auto split: res.splits option.splits prod.splits)
  have "0 < length bs" using Cons.prems(3) by simp
  from alloc_law [OF Cons.prems(1) this al] obtain g' where
    g': "inv m1 g'" "used g' = used g \<union> {data_ptr b..<data_ptr b + length bs}"
    "used g \<inter> {data_ptr b..<data_ptr b + length bs} = {}" "\<forall>x \<in> used g. m1 x = m x" by blast
  have "inv (mstore m1 (data_ptr b) bs) g'" by (rule store_payload [OF g'(1)]) (use g'(2) in auto)
  from Cons.IH [OF this _ _ rest] g'(2) Cons.prems(2,3)
  have "mload m' a n = mload (mstore m1 (data_ptr b) bs) a n" by auto
  also have "\<dots> = mload m a n"
    by (rule mload_cong) (use g'(3,4) Cons.prems(2) in \<open>fastforce simp: mstore_def\<close>)
  finally show ?case .
qed simp

end

end
