(* ===== verification/Shmem.thy ===== *)
theory Shmem
  imports Region_Allocator
begin

text \<open>
  The allocator of an application's data region (\<open>api/src/pifus_shmem.c\<close>). Its state is the region's
  bytes: block headers lie in the region itself, the first directly behind \<open>struct pifus_app\<close>, and
  each header's size leads to the next one. A pointer is the offset from the start of the region, so
  \<open>app\<close> is 0; pointer arithmetic that leaves the 64 bit address space is undefined in C and is not
  represented (offsets are unbounded naturals), while the stored \<open>size_t\<close> values wrap at \<open>2 ^ 64\<close>.
\<close>

section \<open>Model\<close>

definition SHM_APP_SIZE :: nat where "SHM_APP_SIZE = 1000000"
definition sizeof_app :: nat where "sizeof_app = 4"
definition sizeof_block :: nat where "sizeof_block = 24"

lemmas shm_consts = SHM_APP_SIZE_def sizeof_app_def sizeof_block_def

definition shm_data_is_ptr_out_of_range :: "nat \<Rightarrow> bool" where
  "shm_data_is_ptr_out_of_range ptr \<longleftrightarrow> ptr > SHM_APP_SIZE"

definition shm_data_get_offset :: "nat \<Rightarrow> int" where
  "shm_data_get_offset block = int block + int sizeof_app - 8"

definition shm_data_get_block_ptr :: "int \<Rightarrow> nat" where
  "shm_data_get_block_ptr block_offset = nat (int sizeof_app + block_offset)"

definition shm_data_get_data_ptr :: "nat \<Rightarrow> nat" where
  "shm_data_get_data_ptr memory_block = memory_block + sizeof_block"

definition shm_data_get_next_block_ptr :: "mem \<Rightarrow> nat \<Rightarrow> nat option" where
  "shm_data_get_next_block_ptr m block =
     (let next_block = block + sizeof_block + blk_size m block
      in if shm_data_is_ptr_out_of_range next_block then None else Some next_block)"

lemma next_block_Some:
  "shm_data_get_next_block_ptr m b = Some n \<Longrightarrow> b < n \<and> n \<le> SHM_APP_SIZE"
  by (auto simp: shm_data_get_next_block_ptr_def shm_data_is_ptr_out_of_range_def Let_def
      sizeof_block_def split: if_splits)

text \<open>
  The search for a block. A split whose new header would lie outside the region dereferences the null
  pointer that \<open>shm_data_get_next_block_ptr\<close> returns.
\<close>

function shm_data_next_suitable_block ::
    "mem \<Rightarrow> nat option \<Rightarrow> nat \<Rightarrow> nat \<Rightarrow> (mem \<times> nat option) res" where
  "shm_data_next_suitable_block m previous_block current_block desired_size =
     (if \<not> blk_size m current_block > 0
      then if shm_data_is_ptr_out_of_range (shm_data_get_data_ptr current_block + desired_size)
           then Ok (m, None)
           else (let m1 = set_size m current_block desired_size;
                     m2 = set_prev m1 current_block
                            (case previous_block of None \<Rightarrow> -1 | Some p \<Rightarrow> shm_data_get_offset p)
                 in Ok (m2, Some current_block))
      else
        (let next_block = shm_data_get_next_block_ptr m current_block
         in if blk_size m current_block = desired_size \<and> blk_free m current_block
            then Ok (m, Some current_block)
            else if blk_size m current_block > desired_size
                 \<and> blk_size m current_block - desired_size > sizeof_block
                 \<and> blk_free m current_block
            then (let pre_split_size = blk_size m current_block;
                      m1 = set_size m current_block desired_size
                  in case shm_data_get_next_block_ptr m1 current_block of
                       None \<Rightarrow> Fault Null_Dereference
                     | Some new_next_block \<Rightarrow>
                         (let m2 = set_free m1 new_next_block True;
                              m3 = set_size m2 new_next_block (pre_split_size - desired_size - sizeof_block);
                              m4 = set_prev m3 new_next_block (shm_data_get_offset current_block);
                              m5 = (case next_block of
                                      None \<Rightarrow> m4
                                    | Some nb \<Rightarrow>
                                        if blk_size m4 nb > 0
                                        then set_prev m4 nb (shm_data_get_offset new_next_block) else m4)
                          in Ok (m5, Some current_block)))
            else (case next_block of
                    Some nb \<Rightarrow> shm_data_next_suitable_block m (Some current_block) nb desired_size
                  | None \<Rightarrow> Ok (m, None))))"
  by pat_completeness auto
termination
proof (relation "measure (\<lambda>(m, p, c, d). Suc SHM_APP_SIZE - c)", goal_cases)
  case (2 m previous_block current_block desired_size next_block nb)
  then show ?case using next_block_Some [of m current_block nb] by auto
qed simp

declare shm_data_next_suitable_block.simps [simp del]

text \<open>The result of a successful allocation: the offset and the pointer of the block.\<close>

definition shm_data_allocate :: "mem \<Rightarrow> nat \<Rightarrow> (mem \<times> (int \<times> nat) option) res" where
  "shm_data_allocate m sz =
     res_bind (shm_data_next_suitable_block m None sizeof_app sz)
       (\<lambda>(m1, allocating_block). case allocating_block of
           None \<Rightarrow> Ok (m1, None)
         | Some b \<Rightarrow> Ok (set_free m1 b False, Some (shm_data_get_offset b, b)))"

definition shm_data_delete_block :: "mem \<Rightarrow> nat \<Rightarrow> mem" where
  "shm_data_delete_block m block = memset m block 0 (sizeof_block + blk_size m block)"

definition shm_data_free :: "mem \<Rightarrow> nat \<Rightarrow> mem" where
  "shm_data_free m block =
     (let next_block = shm_data_get_next_block_ptr m block;
          exists_previous_block = (blk_prev m block \<ge> 0);
          exists_next_block = (case next_block of None \<Rightarrow> False | Some nb \<Rightarrow> blk_size m nb > 0)
      in if \<not> exists_previous_block \<and> \<not> exists_next_block
         then shm_data_delete_block m block
         else
           (let (m1, new_merged_block) =
                  (if exists_previous_block
                   then (let previous_block = shm_data_get_block_ptr (blk_prev m block)
                         in if blk_free m previous_block
                            then (let ma = (if exists_next_block
                                            then set_prev m (the next_block) (blk_prev m block) else m);
                                      mb = set_size ma previous_block
                                             (blk_size ma previous_block + (sizeof_block + blk_size ma block))
                                  in (mb, previous_block))
                            else (m, block))
                   else (m, block));
                m2 = (if exists_next_block \<and> blk_free m1 (the next_block)
                      then set_size m1 new_merged_block
                             (blk_size m1 new_merged_block + (sizeof_block + blk_size m1 (the next_block)))
                      else m1);
                m3 = memset m2 (new_merged_block + sizeof_block) 0 (blk_size m2 new_merged_block)
            in set_free m3 new_merged_block True))"

section \<open>The block list\<close>

text \<open>
  \<open>chain m a p bs\<close>: from address \<open>a\<close> on, the region holds headers for the blocks \<open>bs\<close> (free flag
  and size), linked back to the offset \<open>p\<close> of the block before.
\<close>

type_synonym block = "bool \<times> nat"

fun chain :: "mem \<Rightarrow> nat \<Rightarrow> int \<Rightarrow> block list \<Rightarrow> bool" where
  "chain m a p [] = True"
| "chain m a p ((f, s) # bs) =
     (0 < s \<and> blk_size m a = s \<and> blk_free m a = f \<and> blk_prev m a = p
      \<and> a + 24 + s \<le> SHM_APP_SIZE \<and> chain m (a + 24 + s) (shm_data_get_offset a) bs)"

fun chain_end :: "nat \<Rightarrow> block list \<Rightarrow> nat" where
  "chain_end a [] = a"
| "chain_end a ((f, s) # bs) = chain_end (a + 24 + s) bs"

text \<open>The offset a block behind \<open>bs\<close> is linked back to.\<close>

fun chain_link :: "nat \<Rightarrow> int \<Rightarrow> block list \<Rightarrow> int" where
  "chain_link a p [] = p"
| "chain_link a p ((f, s) # bs) = chain_link (a + 24 + s) (shm_data_get_offset a) bs"

fun headers :: "nat \<Rightarrow> block list \<Rightarrow> nat set" where
  "headers a [] = {}"
| "headers a ((f, s) # bs) = {a..<a + 24} \<union> headers (a + 24 + s) bs"

text \<open>The bytes that belong to blocks handed out to the application.\<close>

fun live :: "nat \<Rightarrow> block list \<Rightarrow> nat set" where
  "live a [] = {}"
| "live a ((f, s) # bs) = (if f then {} else {a + 24..<a + 24 + s}) \<union> live (a + 24 + s) bs"

definition heap_inv :: "mem \<Rightarrow> block list \<Rightarrow> bool" where
  "heap_inv m bs \<longleftrightarrow> chain m 4 (-1) bs \<and> (\<forall>x \<ge> chain_end 4 bs. m x = 0)"

lemma chain_end_ge: "a \<le> chain_end a bs"
  by (induction a bs rule: chain_end.induct) auto

lemma chain_end_header: "bs \<noteq> [] \<Longrightarrow> a + 24 \<le> chain_end a bs"
proof (induction a bs rule: chain_end.induct)
  case (2 a f s bs)
  then show ?case using chain_end_ge [of "a + 24 + s" bs] by simp
qed simp

lemma chain_end_le: "chain m a p bs \<Longrightarrow> a \<le> SHM_APP_SIZE \<Longrightarrow> chain_end a bs \<le> SHM_APP_SIZE"
  by (induction m a p bs rule: chain.induct) auto

lemma headers_bounds: "x \<in> headers a bs \<Longrightarrow> a \<le> x \<and> x < chain_end a bs"
proof (induction a bs rule: headers.induct)
  case (2 a f s bs)
  then show ?case using chain_end_ge [of "a + 24 + s" bs] by auto
qed simp

lemma live_bounds: "x \<in> live a bs \<Longrightarrow> a + 24 \<le> x \<and> x < chain_end a bs"
proof (induction a bs rule: live.induct)
  case (2 a f s bs)
  then show ?case using chain_end_ge [of "a + 24 + s" bs] by (auto split: if_splits)
qed simp

lemma live_headers: "x \<in> live a bs \<Longrightarrow> x \<notin> headers a bs"
proof (induction a bs rule: live.induct)
  case (2 a f s bs)
  then show ?case
    using headers_bounds [of x "a + 24 + s" bs] live_bounds [of x "a + 24 + s" bs]
    by (auto split: if_splits)
qed simp

lemma chain_cong:
  "(\<And>x. x \<in> headers a bs \<Longrightarrow> m' x = m x) \<Longrightarrow> chain m' a p bs = chain m a p bs"
proof (induction m a p bs rule: chain.induct)
  case (2 m a p f s bs)
  have "blk_size m' a = blk_size m a" "blk_prev m' a = blk_prev m a" "blk_free m' a = blk_free m a"
    using 2(2) by (auto intro!: blk_cong)
  with 2 show ?case by simp
qed simp

lemma chain_cong_above:
  "(\<And>x. a \<le> x \<Longrightarrow> m' x = m x) \<Longrightarrow> chain m' a p bs = chain m a p bs"
  by (rule chain_cong) (use headers_bounds in blast)

lemma chain_append [simp]:
  "chain m a p (us @ vs) = (chain m a p us \<and> chain m (chain_end a us) (chain_link a p us) vs)"
  by (induction m a p us rule: chain.induct) auto

lemma chain_end_append [simp]: "chain_end a (us @ vs) = chain_end (chain_end a us) vs"
  by (induction a us rule: chain_end.induct) auto

lemma chain_link_snoc [simp]: "chain_link a p (us @ [(f, s)]) = shm_data_get_offset (chain_end a us)"
  by (induction a p us rule: chain_link.induct) auto

lemma headers_append [simp]: "headers a (us @ vs) = headers a us \<union> headers (chain_end a us) vs"
  by (induction a us rule: headers.induct) auto

lemma live_append [simp]: "live a (us @ vs) = live a us \<union> live (chain_end a us) vs"
  by (induction a us rule: live.induct) auto

lemma offset_simps [simp]:
  "shm_data_get_offset b = int b - 4" "shm_data_get_block_ptr (int b - 4) = b"
  by (simp_all add: shm_data_get_offset_def shm_data_get_block_ptr_def sizeof_app_def)

text \<open>Writes outside the headers leave the block list alone; a header may be linked anew.\<close>

lemma chain_relink:
  assumes "chain m a p bs" "bs \<noteq> []" "- (2 ^ 63) \<le> p'" "p' < 2 ^ 63"
  shows "chain (set_prev m a p') a p' bs"
proof (cases bs)
  case (Cons b bs')
  obtain f s where b: "b = (f, s)" by force
  have "chain (set_prev m a p') (a + 24 + s) (shm_data_get_offset a) bs' =
      chain m (a + 24 + s) (shm_data_get_offset a) bs'"
    by (rule chain_cong_above) (simp add: mem_simps)
  with assms Cons b show ?thesis by (simp add: mem_simps)
qed (use assms in simp)

lemma next_block_in_chain:
  "chain m a p ((f, s) # bs) \<Longrightarrow> shm_data_get_next_block_ptr m a = Some (a + 24 + s)"
  by (auto simp: shm_data_get_next_block_ptr_def shm_data_is_ptr_out_of_range_def shm_consts)

lemma chain_head_size:
  assumes "chain m a p bs" "\<forall>x \<ge> chain_end a bs. m x = 0"
  shows "0 < blk_size m a \<longleftrightarrow> bs \<noteq> []"
proof (cases bs)
  case Nil
  with assms(2) blk_zero [of a m] show ?thesis by simp
next
  case (Cons b bs')
  with assms(1) show ?thesis by (cases b) auto
qed

section \<open>Allocation\<close>

text \<open>
  The abstract allocator: the first free block of exactly the size asked for, or the first one larger
  by more than a header, which is split; else a new block at the end of the list if the region has
  room. The block handed out is marked as in use.
\<close>

fun alloc_blocks :: "nat \<Rightarrow> nat \<Rightarrow> block list \<Rightarrow> (nat \<times> block list) option" where
  "alloc_blocks a n [] = (if SHM_APP_SIZE < a + 24 + n then None else Some (a, [(False, n)]))"
| "alloc_blocks a n ((f, s) # bs) =
     (if f \<and> s = n then Some (a, (False, n) # bs)
      else if f \<and> n + 24 < s then Some (a, (False, n) # (True, s - n - 24) # bs)
      else map_option (\<lambda>(b, bs'). (b, (f, s) # bs')) (alloc_blocks (a + 24 + s) n bs))"

text \<open>What a search that starts at \<open>a\<close> with the list \<open>bs\<close> must have done to the memory.\<close>

definition alloc_post :: "mem \<Rightarrow> nat \<Rightarrow> int \<Rightarrow> block list \<Rightarrow> mem \<Rightarrow> block list \<Rightarrow> bool" where
  "alloc_post m a p bs m' bs' \<longleftrightarrow>
     chain m' a p bs' \<and> (\<forall>x \<ge> chain_end a bs'. m' x = 0) \<and>
     (\<forall>x. x < a \<or> x \<in> live a bs \<longrightarrow> m' x = m x)"

lemma search_append:
  assumes zero: "\<forall>x \<ge> a. m x = 0" and n: "0 < n" "a + 24 + n \<le> SHM_APP_SIZE"
    and p: "p = (case prev of None \<Rightarrow> -1 | Some q \<Rightarrow> shm_data_get_offset q)" "- (2 ^ 63) \<le> p" "p < 2 ^ 63"
  defines "m' \<equiv> set_prev (set_size m a n) a p"
  shows "shm_data_next_suitable_block m prev a n = Ok (m', Some a)"
    "alloc_post m a p [] (set_free m' a False) [(False, n)]"
proof -
  have "blk_size m a = 0" using zero by (intro blk_zero) auto
  then show "shm_data_next_suitable_block m prev a n = Ok (m', Some a)"
    using n p(1)
    by (subst shm_data_next_suitable_block.simps)
      (auto simp: shm_data_is_ptr_out_of_range_def shm_data_get_data_ptr_def sizeof_block_def m'_def)
  have "n < 2 ^ 64" using n(2) by (simp add: SHM_APP_SIZE_def)
  with n p zero show "alloc_post m a p [] (set_free m' a False) [(False, n)]"
    by (simp add: alloc_post_def m'_def mem_simps)
qed

lemma search_split:
  assumes ch: "chain m a p ((True, s) # bs)" and zero: "\<forall>x \<ge> chain_end a ((True, s) # bs). m x = 0"
    and n: "0 < n" "n + 24 < s"
  shows "\<exists>m'. shm_data_next_suitable_block m prev a n = Ok (m', Some a) \<and>
     alloc_post m a p ((True, s) # bs) (set_free m' a False) ((False, n) # (True, s - n - 24) # bs)"
proof -
  let ?nb = "a + 24 + s" and ?new = "a + 24 + n"
  have bnd: "?nb \<le> SHM_APP_SIZE" "s < 2 ^ 64" "s - n - 24 < 2 ^ 64" "n < 2 ^ 64" "?nb < 2 ^ 63"
    using ch n by (auto simp: SHM_APP_SIZE_def)
  have "24 < s - n" using n by simp
  define m4 where "m4 = set_prev (set_size (set_free (set_size m a n) ?new True) ?new (s - n - 24))
      ?new (int a - 4)"
  define m5 where "m5 = (if bs \<noteq> [] then set_prev m4 ?nb (int ?new - 4) else m4)"
  have rest: "chain m4 ?nb (int a - 4) bs"
    using ch n by (subst chain_cong_above [of _ _ m]) (auto simp: m4_def mem_simps)
  have z4: "\<forall>x \<ge> chain_end ?nb bs. m4 x = 0"
    using zero n chain_end_ge [of ?nb bs] by (auto simp: m4_def mem_simps)
  have "shm_data_get_next_block_ptr (set_size m a n) a = Some ?new"
    using bnd n by (simp add: shm_data_get_next_block_ptr_def shm_data_is_ptr_out_of_range_def
        sizeof_block_def mem_simps)
  then have run: "shm_data_next_suitable_block m prev a n = Ok (m5, Some a)"
    using ch n \<open>24 < s - n\<close> next_block_in_chain [OF ch] chain_head_size [OF rest z4]
    by (subst shm_data_next_suitable_block.simps)
      (simp add: Let_def sizeof_block_def m4_def m5_def)
  have c5: "chain m5 ?nb (int ?new - 4) bs"
    using chain_relink [OF rest, of "int ?new - 4"] bnd n by (auto simp: m5_def)
  have hd: "blk_size m5 a = n" "blk_prev m5 a = p" "blk_size m5 ?new = s - n - 24" "blk_free m5 ?new"
    "blk_prev m5 ?new = int a - 4"
    using ch n bnd by (simp_all add: m5_def m4_def mem_simps)
  have same: "m5 x = m x" if "x < a \<or> ?nb + 24 \<le> x \<or> bs = [] \<and> ?nb \<le> x" for x
    using that n by (auto simp: m5_def m4_def mem_simps)
  have "chain (set_free m5 a False) ?nb (int ?new - 4) bs"
    using c5 by (subst chain_cong_above) (auto simp: mem_simps)
  then have "chain (set_free m5 a False) a p ((False, n) # (True, s - n - 24) # bs)"
    using hd n bnd by (simp add: mem_simps add_ac)
  moreover have "set_free m5 a False x = 0" if "x \<ge> chain_end ?nb bs" for x
  proof -
    have "?nb + 24 \<le> x \<or> bs = [] \<and> ?nb \<le> x"
      using that chain_end_header [of bs ?nb] by (cases "bs = []") auto
    with same [of x] zero that n show ?thesis by (auto simp: mem_simps)
  qed
  moreover have "set_free m5 a False x = m x" if "x < a \<or> x \<in> live ?nb bs" for x
    using that same [of x] live_bounds [of x ?nb bs] by (auto simp: mem_simps)
  moreover have "a + 24 + n + 24 + (s - n - 24) = ?nb" using n by simp
  then have "chain_end a ((False, n) # (True, s - n - 24) # bs) = chain_end ?nb bs"
    by (simp only: chain_end.simps)
  ultimately have "alloc_post m a p ((True, s) # bs) (set_free m5 a False)
      ((False, n) # (True, s - n - 24) # bs)"
    by (simp add: alloc_post_def del: chain.simps chain_end.simps)
  with run show ?thesis by blast
qed

lemma search_spec:
  assumes "chain m a p bs" "\<forall>x \<ge> chain_end a bs. m x = 0" "0 < n" "a \<le> SHM_APP_SIZE"
    and "p = (case prev of None \<Rightarrow> -1 | Some q \<Rightarrow> shm_data_get_offset q)" "- (2 ^ 63) \<le> p" "p < 2 ^ 63"
  shows "case alloc_blocks a n bs of
      None \<Rightarrow> shm_data_next_suitable_block m prev a n = Ok (m, None)
    | Some (b, bs') \<Rightarrow> \<exists>m'. shm_data_next_suitable_block m prev a n = Ok (m', Some b) \<and>
        alloc_post m a p bs (set_free m' b False) bs'"
  using assms
proof (induction bs arbitrary: a p prev)
  case Nil
  have "blk_size m a = 0" using Nil.prems(2) by (intro blk_zero) auto
  then show ?case
    using Nil.prems search_append [of a m n p prev]
    by (subst shm_data_next_suitable_block.simps)
      (auto simp: shm_data_is_ptr_out_of_range_def shm_data_get_data_ptr_def sizeof_block_def)
next
  case (Cons x bs)
  obtain f s where x: "x = (f, s)" by force
  let ?nb = "a + 24 + s"
  have c: "0 < s" "blk_size m a = s" "blk_free m a = f" "?nb \<le> SHM_APP_SIZE"
    "chain m ?nb (shm_data_get_offset a) bs" using Cons.prems(1) x by auto
  have nxt: "shm_data_get_next_block_ptr m a = Some ?nb"
    using Cons.prems(1) x next_block_in_chain by blast
  consider "f" "s = n" | "f" "n + 24 < s" | "\<not> (f \<and> (s = n \<or> n + 24 < s))" by blast
  then show ?case
  proof cases
    case 1
    have "chain (set_free m a False) ?nb (shm_data_get_offset a) bs"
      using c(5) by (subst chain_cong_above) (auto simp: mem_simps)
    moreover have "\<forall>y. y < a \<or> y \<in> live ?nb bs \<longrightarrow> set_free m a False y = m y"
      using live_bounds by (fastforce simp: mem_simps)
    moreover have "\<forall>y \<ge> chain_end ?nb bs. set_free m a False y = 0"
      using Cons.prems(2) x chain_end_ge [of ?nb bs] by (auto simp: mem_simps)
    moreover have "shm_data_next_suitable_block m prev a n = Ok (m, Some a)"
      using 1 c by (subst shm_data_next_suitable_block.simps) simp
    ultimately show ?thesis using 1 x Cons.prems(1)
      by (simp add: alloc_post_def mem_simps)
  next
    case 2
    with search_split [of m a p s bs n prev] Cons.prems(1-3) x show ?thesis by simp
  next
    case 3
    have "24 < s - n \<longleftrightarrow> n + 24 < s" by auto
    with 3 c nxt have step: "shm_data_next_suitable_block m prev a n =
        shm_data_next_suitable_block m (Some a) ?nb n"
      by (subst shm_data_next_suitable_block.simps) (auto simp: sizeof_block_def)
    have "int a - 4 < 2 ^ 63" using Cons.prems(4) by (simp add: SHM_APP_SIZE_def)
    then have ih: "case alloc_blocks ?nb n bs of
        None \<Rightarrow> shm_data_next_suitable_block m (Some a) ?nb n = Ok (m, None)
      | Some (b, bs') \<Rightarrow> \<exists>m'. shm_data_next_suitable_block m (Some a) ?nb n = Ok (m', Some b) \<and>
          alloc_post m ?nb (shm_data_get_offset a) bs (set_free m' b False) bs'"
      using Cons.IH [OF c(5), of "Some a"] Cons.prems(2,3) x c(4) by simp
    have lift: "alloc_post m a p ((f, s) # bs) m' ((f, s) # bs')"
      if "alloc_post m ?nb (shm_data_get_offset a) bs m' bs'" for m' bs'
    proof -
      have "\<And>y. a \<le> y \<Longrightarrow> y < a + 24 \<Longrightarrow> m' y = m y" using that by (simp add: alloc_post_def)
      then have "blk_size m' a = s" "blk_prev m' a = p" "blk_free m' a = f"
        using blk_cong [of a m' m] c Cons.prems(1) x by auto
      with that c show ?thesis by (auto simp: alloc_post_def)
    qed
    from 3 ih lift x step show ?thesis by (auto split: option.splits)
  qed
qed

lemma shm_data_allocate_spec:
  assumes "heap_inv m bs" "0 < n"
  shows "case alloc_blocks 4 n bs of
      None \<Rightarrow> shm_data_allocate m n = Ok (m, None)
    | Some (b, bs') \<Rightarrow> \<exists>m'. shm_data_allocate m n = Ok (m', Some (shm_data_get_offset b, b)) \<and>
        heap_inv m' bs' \<and> (\<forall>x \<in> live 4 bs. m' x = m x) \<and> (\<forall>x < 4. m' x = m x)"
proof -
  have "chain m 4 (-1) bs" "\<forall>x \<ge> chain_end 4 bs. m x = 0" using assms by (auto simp: heap_inv_def)
  from search_spec [OF this assms(2), of None]
  show ?thesis
    by (auto simp: shm_data_allocate_def sizeof_app_def heap_inv_def alloc_post_def SHM_APP_SIZE_def
        split: option.splits)
qed

section \<open>Release\<close>

text \<open>
  The abstract release of a block of size \<open>s\<close> between \<open>us\<close> and \<open>vs\<close>: it is merged with a free
  block before it and a free block behind it; the last block of the region disappears.
\<close>

definition merge_left :: "block list \<Rightarrow> bool" where
  "merge_left us \<longleftrightarrow> us \<noteq> [] \<and> fst (last us)"

definition merge_right :: "block list \<Rightarrow> bool" where
  "merge_right vs \<longleftrightarrow> vs \<noteq> [] \<and> fst (hd vs)"

definition free_blocks :: "block list \<Rightarrow> nat \<Rightarrow> block list \<Rightarrow> block list" where
  "free_blocks us s vs =
     (if us = [] \<and> vs = [] then []
      else (if merge_left us then butlast us else us) @
           (True, (if merge_left us then snd (last us) + 24 else 0) + s +
                  (if merge_right vs then 24 + snd (hd vs) else 0)) #
           (if merge_right vs then tl vs else vs))"

text \<open>The address of the merged block, its size before and after the merge with its successor.\<close>

definition merged_addr :: "block list \<Rightarrow> nat" where
  "merged_addr us = (if merge_left us then chain_end 4 (butlast us) else chain_end 4 us)"

definition merged_left_size :: "block list \<Rightarrow> nat \<Rightarrow> nat" where
  "merged_left_size us s = (if merge_left us then snd (last us) + 24 else 0) + s"

definition merged_size :: "block list \<Rightarrow> nat \<Rightarrow> block list \<Rightarrow> nat" where
  "merged_size us s vs = merged_left_size us s + (if merge_right vs then 24 + snd (hd vs) else 0)"

lemmas merge_defs = merge_left_def merge_right_def merged_addr_def merged_left_size_def merged_size_def

lemma heap_inv_split:
  assumes "heap_inv m (us @ (False, s) # vs)" "b = chain_end 4 us"
  shows "chain m 4 (-1) us" "0 < s" "blk_size m b = s" "blk_prev m b = chain_link 4 (-1) us"
    "b + 24 + s \<le> SHM_APP_SIZE" "chain m (b + 24 + s) (int b - 4) vs" "4 \<le> b"
    "\<forall>x \<ge> chain_end (b + 24 + s) vs. m x = 0"
    "shm_data_get_next_block_ptr m b = Some (b + 24 + s)"
  using assms chain_end_ge [of 4 us] next_block_in_chain [of m b _ False s vs]
  by (auto simp: heap_inv_def)

text \<open>Where the merged block lies and how far it reaches.\<close>

lemma merged_bounds:
  assumes "heap_inv m (us @ (False, s) # vs)" "b = chain_end 4 us"
  shows "merged_addr us + 24 + merged_left_size us s = b + 24 + s"
    "4 \<le> merged_addr us" "merged_addr us \<le> b" "merge_left us \<Longrightarrow> merged_addr us + 24 \<le> b"
    "merged_addr us + 24 + merged_size us s vs \<le> SHM_APP_SIZE"
    "merge_left us \<Longrightarrow> blk_size m (merged_addr us) + 24 + s = merged_left_size us s \<and>
       blk_free m (merged_addr us) \<and> chain_link 4 (-1) us = int (merged_addr us) - 4"
    "chain m 4 (-1) (if merge_left us then butlast us else us)"
    "blk_prev m (merged_addr us) = chain_link 4 (-1) (if merge_left us then butlast us else us)"
proof -
  note h = heap_inv_split [OF assms]
  have ge: "4 \<le> chain_end 4 (butlast us)" by (rule chain_end_ge)
  show "merged_addr us + 24 + merged_left_size us s = b + 24 + s" "4 \<le> merged_addr us"
    "merged_addr us \<le> b" "merge_left us \<Longrightarrow> merged_addr us + 24 \<le> b"
    "merge_left us \<Longrightarrow> blk_size m (merged_addr us) + 24 + s = merged_left_size us s \<and>
       blk_free m (merged_addr us) \<and> chain_link 4 (-1) us = int (merged_addr us) - 4"
    "chain m 4 (-1) (if merge_left us then butlast us else us)"
    "blk_prev m (merged_addr us) = chain_link 4 (-1) (if merge_left us then butlast us else us)"
    using h assms(2) ge by (cases us rule: rev_cases; force simp: merge_defs)+
  then show "merged_addr us + 24 + merged_size us s vs \<le> SHM_APP_SIZE"
    using h by (cases vs) (auto simp: merge_defs)
qed

text \<open>The memory after the headers are rewritten, and before the data is cleared.\<close>

definition free_headers :: "mem \<Rightarrow> block list \<Rightarrow> nat \<Rightarrow> block list \<Rightarrow> mem" where
  "free_headers m us s vs =
     (let nb = chain_end 4 us + 24 + s;
          m0 = (if merge_left us \<and> vs \<noteq> [] then set_prev m nb (int (merged_addr us) - 4) else m);
          m1 = (if merge_left us then set_size m0 (merged_addr us) (merged_left_size us s) else m0)
      in if merge_right vs then set_size m1 (merged_addr us) (merged_size us s vs) else m1)"

lemma free_headers_reads:
  assumes inv: "heap_inv m (us @ (False, s) # vs)" "b = chain_end 4 us"
  shows "blk_size (free_headers m us s vs) (merged_addr us) = merged_size us s vs"
    "blk_prev (free_headers m us s vs) (merged_addr us) = blk_prev m (merged_addr us)"
    "x < merged_addr us \<or> merged_addr us + 24 \<le> x \<Longrightarrow>
       \<not> (merge_left us \<and> vs \<noteq> [] \<and> b + 24 + s + 16 \<le> x \<and> x < b + 24 + s + 24) \<Longrightarrow>
       free_headers m us s vs x = m x"
proof -
  note h = heap_inv_split [OF assms] and mb = merged_bounds [OF assms]
  have lim: "merged_size us s vs < 2 ^ 64" "merged_left_size us s < 2 ^ 64"
    using mb(5) by (auto simp: SHM_APP_SIZE_def merged_size_def)
  have own: "\<not> merge_left us \<Longrightarrow> blk_size m (merged_addr us) = merged_left_size us s"
    using h(3) inv(2) by (simp add: merged_addr_def merged_left_size_def)
  show "blk_size (free_headers m us s vs) (merged_addr us) = merged_size us s vs"
    using lim own mb(4) inv(2) by (auto simp: free_headers_def Let_def mem_simps merged_size_def)
  show "blk_prev (free_headers m us s vs) (merged_addr us) = blk_prev m (merged_addr us)"
    using mb(4) inv(2) by (auto simp: free_headers_def Let_def mem_simps)
  show "free_headers m us s vs x = m x"
    if "x < merged_addr us \<or> merged_addr us + 24 \<le> x"
      "\<not> (merge_left us \<and> vs \<noteq> [] \<and> b + 24 + s + 16 \<le> x \<and> x < b + 24 + s + 24)"
  proof -
    have "set_prev m (b + 24 + s) i x = m x" if "merge_left us \<and> vs \<noteq> []" for i
      using \<open>\<not> (merge_left us \<and> _)\<close> that by (auto simp: set_prev_def mstore_out)
    with that(1) inv(2) show ?thesis by (auto simp: free_headers_def Let_def mem_simps)
  qed
qed

lemma free_eval:
  assumes inv: "heap_inv m (us @ (False, s) # vs)" "b = chain_end 4 us" and ne: "us \<noteq> [] \<or> vs \<noteq> []"
  shows "shm_data_free m b =
     set_free (memset (free_headers m us s vs) (merged_addr us + 24) 0 (merged_size us s vs))
       (merged_addr us) True"
proof -
  note h = heap_inv_split [OF inv(1,2)] and mb = merged_bounds [OF inv(1,2)]
  let ?nb = "b + 24 + s" and ?M = "merged_addr us"
  have nx: "0 < blk_size m ?nb \<longleftrightarrow> vs \<noteq> []" using chain_head_size [OF h(6,8)] .
  have pv: "0 \<le> blk_prev m b \<longleftrightarrow> us \<noteq> []"
    unfolding h(4) using chain_end_ge [of 4 "butlast us"] by (cases us rule: rev_cases) auto
  have pf: "us \<noteq> [] \<Longrightarrow> blk_free m (shm_data_get_block_ptr (blk_prev m b)) \<longleftrightarrow> merge_left us"
    unfolding h(4) using h(1) by (cases us rule: rev_cases) (auto simp: merge_left_def)
  have nf: "vs \<noteq> [] \<Longrightarrow> blk_free m ?nb \<longleftrightarrow> merge_right vs"
    using h(6) by (cases vs) (auto simp: merge_right_def)
  have nq: "vs \<noteq> [] \<Longrightarrow> blk_size m ?nb = snd (hd vs)" using h(6) by (cases vs) auto
  have lim: "merged_left_size us s < 2 ^ 64" "merged_size us s vs < 2 ^ 64"
    using mb(5) by (auto simp: SHM_APP_SIZE_def merged_size_def)
  show ?thesis
  proof (cases "merge_left us")
    case True
    then have ptr: "shm_data_get_block_ptr (blk_prev m b) = ?M" "blk_prev m b = int ?M - 4" "us \<noteq> []"
      "blk_free m ?M"
      using mb(6) h(4) by (auto simp: merge_left_def)
    have sz: "merged_left_size us s = blk_size m ?M + (24 + s)" using mb(6) True by simp
    from True ptr sz lim nx nf nq pv h(3,9) mb(4) inv(2) show ?thesis
      by (auto simp: shm_data_free_def Let_def free_headers_def mem_simps sizeof_block_def
          merged_size_def merge_right_def)
  next
    case False
    then have M: "?M = b" "merged_left_size us s = s"
      using inv(2) by (auto simp: merged_addr_def merged_left_size_def)
    from False M lim nx nf nq pv pf ne h(3,9) inv(2) show ?thesis
      by (auto simp: shm_data_free_def Let_def free_headers_def mem_simps sizeof_block_def
          merged_size_def merge_right_def)
  qed
qed

text \<open>
  The block list without the back links: what the search for a block relies on.
\<close>

fun shape :: "mem \<Rightarrow> nat \<Rightarrow> block list \<Rightarrow> bool" where
  "shape m a [] = True"
| "shape m a ((f, s) # bs) =
     (0 < s \<and> blk_size m a = s \<and> blk_free m a = f \<and> a + 24 + s \<le> SHM_APP_SIZE
      \<and> shape m (a + 24 + s) bs)"

lemma chain_shape: "chain m a p bs \<Longrightarrow> shape m a bs"
  by (induction m a p bs rule: chain.induct) auto

lemma shape_append [simp]: "shape m a (us @ vs) = (shape m a us \<and> shape m (chain_end a us) vs)"
  by (induction m a us rule: shape.induct) auto

text \<open>
  Reads of the memory a release leaves: the merged block, everything before it, everything behind it.
\<close>

lemma free_reads:
  assumes inv: "heap_inv m (us @ (False, s) # vs)" "b = chain_end 4 us" and ne: "us \<noteq> [] \<or> vs \<noteq> []"
  defines "M \<equiv> merged_addr us" and "S \<equiv> merged_size us s vs" and "m' \<equiv> shm_data_free m b"
  shows "blk_size m' M = S" "blk_prev m' M = blk_prev m M" "blk_free m' M"
    "x < M \<Longrightarrow> m' x = m x"
    "M + 24 + S \<le> x \<Longrightarrow>
       \<not> (merge_left us \<and> vs \<noteq> [] \<and> b + 24 + s + 16 \<le> x \<and> x < b + 24 + s + 24) \<Longrightarrow> m' x = m x"
    "merge_left us \<Longrightarrow> vs \<noteq> [] \<Longrightarrow> \<not> merge_right vs \<Longrightarrow> chain m' (b + 24 + s) (int M - 4) vs"
proof -
  note fh = free_headers_reads [OF inv] and mb = merged_bounds [OF inv] and h = heap_inv_split [OF inv]
  have m': "m' = set_free (memset (free_headers m us s vs) (M + 24) 0 S) M True"
    unfolding m'_def M_def S_def by (rule free_eval [OF inv ne])
  show "blk_size m' M = S" "blk_prev m' M = blk_prev m M" "blk_free m' M"
    using fh(1,2) by (simp_all add: m' M_def S_def mem_simps)
  have le: "M \<le> b" "M + 24 + S \<ge> b + 24 + s" using mb(1,3) by (auto simp: M_def S_def merged_size_def)
  show "x < M \<Longrightarrow> m' x = m x" using fh(3) [of x] le by (auto simp: m' M_def mem_simps)
  show "m' x = m x" if "M + 24 + S \<le> x"
    "\<not> (merge_left us \<and> vs \<noteq> [] \<and> b + 24 + s + 16 \<le> x \<and> x < b + 24 + s + 24)"
    using fh(3) [of x] that by (auto simp: m' M_def mem_simps)
  show "chain m' (b + 24 + s) (int M - 4) vs" if "merge_left us" "vs \<noteq> []" "\<not> merge_right vs"
  proof -
    let ?nb = "b + 24 + s"
    have S: "M + 24 + S = ?nb" using mb(1) that(3) by (simp add: M_def S_def merged_size_def)
    have "m' x = set_prev m ?nb (int M - 4) x" if "?nb \<le> x" for x
      using that S \<open>merge_left us\<close> \<open>vs \<noteq> []\<close> \<open>\<not> merge_right vs\<close> inv(2)
      by (auto simp: m' free_headers_def Let_def mem_simps M_def)
    then have "chain m' ?nb (int M - 4) vs = chain (set_prev m ?nb (int M - 4)) ?nb (int M - 4) vs"
      by (rule chain_cong_above)
    moreover have "M < 2 ^ 63" using S h(5) by (simp add: SHM_APP_SIZE_def)
    ultimately show ?thesis using chain_relink [OF h(6) that(2), of "int M - 4"] by simp
  qed
qed

lemma free_blocks_eq:
  "us \<noteq> [] \<or> vs \<noteq> [] \<Longrightarrow> free_blocks us s vs =
     (if merge_left us then butlast us else us) @ (True, merged_size us s vs) #
     (if merge_right vs then tl vs else vs)"
  by (auto simp: free_blocks_def merged_size_def merged_left_size_def)

text \<open>The block list behind the merged block, with the link its first header carries.\<close>

lemma free_tail:
  assumes inv: "heap_inv m (us @ (False, s) # vs)" "b = chain_end 4 us" and ne: "us \<noteq> [] \<or> vs \<noteq> []"
  defines "M \<equiv> merged_addr us" and "e \<equiv> merged_addr us + 24 + merged_size us s vs"
    and "vs' \<equiv> if merge_right vs then tl vs else vs" and "m' \<equiv> shm_data_free m b"
  shows "chain m' e (if merge_right vs then int (b + 24 + s) - 4 else int M - 4) vs'"
    "chain_end e vs' = chain_end (b + 24 + s) vs" "b + 24 + s \<le> e" "chain_end 4 (if merge_left us then butlast us else us) = M"
    "live e vs' = live (b + 24 + s) vs"
proof -
  note fr = free_reads [OF inv ne] and mb = merged_bounds [OF inv] and h = heap_inv_split [OF inv]
  let ?nb = "b + 24 + s"
  show "chain_end 4 (if merge_left us then butlast us else us) = M" by (simp add: M_def merged_addr_def)
  show "?nb \<le> e" using mb(1) by (simp add: e_def merged_size_def)
  have "chain m' e (if merge_right vs then int ?nb - 4 else int M - 4) vs' \<and>
      chain_end e vs' = chain_end ?nb vs \<and> live e vs' = live ?nb vs"
  proof (cases "merge_right vs")
    case True
    then obtain q where vs: "vs = (True, q) # vs'" by (cases vs) (auto simp: merge_right_def vs'_def)
    have e: "e = ?nb + 24 + q" using mb(1) True vs by (simp add: e_def merged_size_def)
    have "chain m' e (int ?nb - 4) vs' = chain m e (int ?nb - 4) vs'"
      by (rule chain_cong_above) (use fr(5) e in \<open>auto simp: m'_def e_def\<close>)
    with h(6) vs e True show ?thesis by simp
  next
    case False
    have e: "e = ?nb" using mb(1) False by (simp add: e_def merged_size_def)
    have "chain m' ?nb (int M - 4) vs"
    proof (cases "merge_left us \<and> vs \<noteq> []")
      case True
      with False fr(6) show ?thesis by (simp add: m'_def M_def)
    next
      case nl: False
      have "chain m' ?nb (int b - 4) vs = chain m ?nb (int b - 4) vs"
        by (rule chain_cong_above) (use fr(5) e nl in \<open>auto simp: m'_def e_def\<close>)
      with h(6) nl inv(2) show ?thesis by (auto simp: M_def merged_addr_def)
    qed
    with e False show ?thesis by (simp add: vs'_def)
  qed
  then show "chain m' e (if merge_right vs then int ?nb - 4 else int M - 4) vs'"
    "chain_end e vs' = chain_end ?nb vs" "live e vs' = live ?nb vs" by blast+
qed

lemma free_frame:
  assumes inv: "heap_inv m (us @ (False, s) # vs)" "b = chain_end 4 us" and ne: "us \<noteq> [] \<or> vs \<noteq> []"
  shows "x \<in> live 4 us \<union> live (b + 24 + s) vs \<Longrightarrow> shm_data_free m b x = m x"
    "chain_end (b + 24 + s) vs \<le> x \<Longrightarrow> shm_data_free m b x = 0"
proof -
  note fr = free_reads [OF inv ne] and h = heap_inv_split [OF inv] and ft = free_tail [OF inv ne]
  let ?e = "merged_addr us + 24 + merged_size us s vs"
  show "shm_data_free m b x = 0" if "chain_end (b + 24 + s) vs \<le> x"
  proof -
    have "?e \<le> x" using that ft(2) chain_end_ge order_trans by metis
    moreover have "vs \<noteq> [] \<Longrightarrow> b + 24 + s + 24 \<le> x"
      using that chain_end_header [of vs "b + 24 + s"] by simp
    ultimately have "shm_data_free m b x = m x" by (intro fr(5)) auto
    with h(8) that show ?thesis by simp
  qed
  show "shm_data_free m b x = m x" if "x \<in> live 4 us \<union> live (b + 24 + s) vs"
  proof (cases "x \<in> live 4 us")
    case True
    then have "x \<in> live 4 (if merge_left us then butlast us else us)"
      by (cases us rule: rev_cases) (auto simp: merge_left_def split: if_splits)
    then have "x < merged_addr us" using live_bounds ft(4) by metis
    then show ?thesis by (rule fr(4))
  next
    case False
    then have "x \<in> live (b + 24 + s) vs" using that by simp
    moreover from this have "?e + 24 \<le> x" using live_bounds ft(5) by metis
    ultimately show ?thesis using fr(5) [of x] live_bounds [of x "b + 24 + s" vs] by auto
  qed
qed

lemma shm_data_free_spec:
  assumes inv: "heap_inv m (us @ (False, s) # vs)" "b = chain_end 4 us" and ne: "us \<noteq> [] \<or> vs \<noteq> []"
  defines "m' \<equiv> shm_data_free m b"
  shows "shape m' 4 (free_blocks us s vs)" "\<forall>x \<ge> chain_end 4 (free_blocks us s vs). m' x = 0"
    "heap_inv m' (free_blocks us s vs) \<longleftrightarrow> \<not> (merge_right vs \<and> tl vs \<noteq> [])"
proof -
  note h = heap_inv_split [OF inv] and fr = free_reads [OF inv ne, folded m'_def]
    and mb = merged_bounds [OF inv] and ft = free_tail [OF inv ne, folded m'_def]
  define us' where "us' = (if merge_left us then butlast us else us)"
  define vs' where "vs' = (if merge_right vs then tl vs else vs)"
  define M S e where MSe: "M = merged_addr us" "S = merged_size us s vs" "e = M + 24 + S"
  note ft' = ft [folded us'_def vs'_def MSe(1,2), folded MSe(3)] and fr' = fr [folded MSe(1,2)]
    and mb' = mb [folded us'_def MSe(1), folded MSe(2)]
  have "chain m' 4 (-1) us' = chain m 4 (-1) us'"
    by (rule chain_cong) (use headers_bounds ft'(4) fr'(4) in metis)
  moreover have "0 < S" using h(2) by (simp add: MSe merged_size_def merged_left_size_def)
  ultimately have front: "chain m' 4 (-1) (us' @ [(True, S)])"
    using mb'(5,7,8) ft'(4) fr'(1-3) by simp
  have z: "\<forall>x \<ge> chain_end e vs'. m' x = 0"
    using free_frame(2) [OF inv ne] ft'(2) by (simp add: m'_def)
  have fb: "free_blocks us s vs = (us' @ [(True, S)]) @ vs'"
    using free_blocks_eq [OF ne] by (simp add: us'_def vs'_def MSe)
  have ce: "chain_end 4 (us' @ [(True, S)]) = e" and lk: "chain_link 4 (-1) (us' @ [(True, S)]) = int M - 4"
    using ft'(4) by (simp_all add: MSe(3))
  show "shape m' 4 (free_blocks us s vs)"
    unfolding fb shape_append ce using chain_shape [OF front] chain_shape [OF ft'(1)] by simp
  show "\<forall>x \<ge> chain_end 4 (free_blocks us s vs). m' x = 0"
    unfolding fb chain_end_append [of 4 "us' @ [(True, S)]"] ce using z .
  have "chain m' e (int M - 4) vs' \<longleftrightarrow> \<not> (merge_right vs \<and> tl vs \<noteq> [])"
  proof (cases "merge_right vs")
    case True
    have "int (b + 24 + s) - 4 \<noteq> int M - 4" using mb'(3) by simp
    with ft'(1) True show ?thesis by (cases "tl vs") (auto simp: vs'_def)
  qed (use ft'(1) in simp)
  then show "heap_inv m' (free_blocks us s vs) \<longleftrightarrow> \<not> (merge_right vs \<and> tl vs \<noteq> [])"
    unfolding heap_inv_def fb chain_append [of m' 4 "-1" "us' @ [(True, S)]"]
      chain_end_append [of 4 "us' @ [(True, S)]"] ce lk using front z by simp
qed

lemma shm_data_free_last:
  assumes "heap_inv m [(False, s)]"
  shows "heap_inv (shm_data_free m 4) []"
proof -
  have "heap_inv m ([] @ (False, s) # [])" "(4::nat) = chain_end 4 []" using assms by simp_all
  note h = heap_inv_split [OF this, simplified]
  have "shm_data_free m 4 = memset m 4 0 (24 + s)"
    using h blk_zero [of "4 + 24 + s" m]
    by (simp add: shm_data_free_def shm_data_delete_block_def sizeof_block_def)
  with h show ?thesis by (auto simp: heap_inv_def memset_def)
qed

section \<open>The allocator as a region allocator\<close>

lemma alloc_blocks_live:
  assumes "alloc_blocks a n bs = Some (b, bs')"
  shows "live a bs' = live a bs \<union> {b + 24..<b + 24 + n}"
    "live a bs \<inter> {b + 24..<b + 24 + n} = {}" "a \<le> b" "b + 24 + n \<le> chain_end a bs'"
proof -
  have "live a bs' = live a bs \<union> {b + 24..<b + 24 + n} \<and> live a bs \<inter> {b + 24..<b + 24 + n} = {}
      \<and> a \<le> b \<and> b + 24 + n \<le> chain_end a bs'"
    using assms
  proof (induction a n bs arbitrary: b bs' rule: alloc_blocks.induct)
    case (1 a n)
    then show ?case by (auto split: if_splits)
  next
    case (2 a n f s bs)
    let ?nb = "a + 24 + s"
    have ge: "?nb \<le> chain_end ?nb bs" by (rule chain_end_ge)
    have bd: "\<And>x. x \<in> live ?nb bs \<Longrightarrow> ?nb + 24 \<le> x" using live_bounds by blast
    consider "f" "s = n" | "f" "s \<noteq> n" "n + 24 < s" | "\<not> (f \<and> (s = n \<or> n + 24 < s))" by blast
    then show ?case
    proof cases
      case 1
      with 2(2) ge bd show ?thesis by fastforce
    next
      case 2
      have e: "a + 24 + n + 24 + (s - n - 24) = ?nb" using 2 by simp
      have r: "b = a" "bs' = (False, n) # (True, s - n - 24) # bs"
        using 2 \<open>alloc_blocks a n ((f, s) # bs) = Some (b, bs')\<close> by (auto split: if_splits)
      have "live a bs' = {a + 24..<a + 24 + n} \<union> live ?nb bs" "chain_end a bs' = chain_end ?nb bs"
        by (simp_all only: r live.simps chain_end.simps e if_False if_True) auto
      with r 2 ge bd show ?thesis by fastforce
    next
      case 3
      then obtain bs1 where r: "alloc_blocks ?nb n bs = Some (b, bs1)" "bs' = (f, s) # bs1"
        using 2(2) by (auto split: if_splits)
      with 2(1) 3 have ih: "live ?nb bs1 = live ?nb bs \<union> {b + 24..<b + 24 + n}"
        "live ?nb bs \<inter> {b + 24..<b + 24 + n} = {}" "?nb \<le> b" "b + 24 + n \<le> chain_end ?nb bs1" by blast+
      with r(2) show ?thesis by auto
    qed
  qed
  then show "live a bs' = live a bs \<union> {b + 24..<b + 24 + n}"
    "live a bs \<inter> {b + 24..<b + 24 + n} = {}" "a \<le> b" "b + 24 + n \<le> chain_end a bs'" by blast+
qed

lemma heap_inv_write:
  assumes "heap_inv m bs" "\<And>x. x \<notin> live 4 bs \<Longrightarrow> m' x = m x"
  shows "heap_inv m' bs"
proof -
  have "chain m' 4 (-1) bs = chain m 4 (-1) bs"
    by (rule chain_cong) (use live_headers assms(2) in blast)
  moreover have "m' x = 0" if "chain_end 4 bs \<le> x" for x
  proof -
    have "x \<notin> live 4 bs" using live_bounds [of x 4 bs] that by auto
    then have "m' x = m x" by (rule assms(2))
    with that assms(1) show ?thesis by (simp add: heap_inv_def)
  qed
  ultimately show ?thesis using assms(1) by (simp add: heap_inv_def)
qed

interpretation shm: region_allocator heap_inv "live 4" shm_data_allocate shm_data_get_data_ptr
proof (unfold_locales, goal_cases)
  case (1 m g n m' off b)
  then show ?case
    using shm_data_allocate_spec [OF 1(1,2)]
    by (auto simp: shm_data_get_data_ptr_def sizeof_block_def dest: alloc_blocks_live split: option.splits)
next
  case (2 m g n m')
  then show ?case using shm_data_allocate_spec [OF 2(1,2)] by (auto split: option.splits)
next
  case (3 m g n)
  then show ?case using shm_data_allocate_spec [OF 3] by (auto split: option.splits)
next
  case (4 m g m')
  then show ?case by (rule heap_inv_write)
qed

section \<open>Properties\<close>


lemma heap_inv_empty: "heap_inv (\<lambda>_. 0) []"
  by (simp add: heap_inv_def)




text \<open>
  C8. Release: freeing any used block that is not alone in the region keeps every other used byte,
  merges the block with free neighbours, and leaves a well-formed region \<^emph>\<open>exactly when\<close> it does not
  merge with a free successor that has a further block behind it.
\<close>

theorem shm_data_free_refines:
  assumes "heap_inv m (us @ (False, s) # vs)" "us \<noteq> [] \<or> vs \<noteq> []"
  defines "m' \<equiv> shm_data_free m (chain_end 4 us)"
  shows "(\<forall>x \<in> live 4 us \<union> live (chain_end 4 us + 24 + s) vs. m' x = m x)
     \<and> shape m' 4 (free_blocks us s vs)
     \<and> (heap_inv m' (free_blocks us s vs) \<longleftrightarrow> \<not> (merge_right vs \<and> tl vs \<noteq> []))"
  using free_frame(1) [OF assms(1) refl assms(2)] shm_data_free_spec(1,3) [OF assms(1) refl assms(2)]
  unfolding m'_def by blast

text \<open>Three blocks in a row, as the applications of the release theorems need them.\<close>

lemma three_blocks:
  "\<exists>m1 m2 m3. shm_data_allocate (\<lambda>_. 0) 8 = Ok (m1, Some (0, 4))
     \<and> shm_data_allocate m1 8 = Ok (m2, Some (32, 36)) \<and> shm_data_allocate m2 8 = Ok (m3, Some (64, 68))
     \<and> heap_inv m3 [(False, 8), (False, 8), (False, 8)]"
proof -
  obtain m1 where 1: "shm_data_allocate (\<lambda>_. 0) 8 = Ok (m1, Some (0, 4))" "heap_inv m1 [(False, 8)]"
    using shm_data_allocate_spec [OF heap_inv_empty, of 8] by (auto simp: shm_consts shm_data_get_offset_def)
  obtain m2 where 2: "shm_data_allocate m1 8 = Ok (m2, Some (32, 36))" "heap_inv m2 [(False, 8), (False, 8)]"
    using shm_data_allocate_spec [OF 1(2), of 8] by (auto simp: shm_consts shm_data_get_offset_def)
  obtain m3 where 3: "shm_data_allocate m2 8 = Ok (m3, Some (64, 68))"
    "heap_inv m3 [(False, 8), (False, 8), (False, 8)]"
    using shm_data_allocate_spec [OF 2(2), of 8] by (auto simp: shm_consts shm_data_get_offset_def)
  from 1 2 3 show ?thesis by blast
qed

theorem shm_data_free_refines_witness:
  "\<exists>m. heap_inv m [(False, 8), (False, 8), (False, 8)]
     \<and> heap_inv (shm_data_free m 36) [(False, 8), (True, 8), (False, 8)]"
proof -
  obtain m where m: "heap_inv m [(False, 8), (False, 8), (False, 8)]" using three_blocks by blast
  then have "heap_inv m ([(False, 8)] @ (False, 8) # [(False, 8)])" by simp
  from shm_data_free_refines [OF this] m show ?thesis
    by (auto simp: free_blocks_def merge_left_def merge_right_def)
qed

text \<open>A block released between a free successor and a further block: the link behind stays stale.\<close>

lemma stale_link:
  assumes "heap_inv m [(False, 8), (True, 8), (False, 8)]"
  defines "m' \<equiv> shm_data_free m 4"
  shows "shape m' 4 [(True, 40), (False, 8)]" "blk_prev m' 68 = 32" "\<forall>x \<ge> 100. m' x = 0"
proof -
  have i: "heap_inv m ([] @ (False, 8) # [(True, 8), (False, 8)])" using assms(1) by simp
  show "shape m' 4 [(True, 40), (False, 8)]"
    using shm_data_free_spec(1) [OF i] by (simp add: m'_def free_blocks_def merge_left_def merge_right_def)
  show "\<forall>x \<ge> 100. m' x = 0"
    using shm_data_free_spec(2) [OF i] by (simp add: m'_def free_blocks_def merge_left_def merge_right_def)
  show "blk_prev m' 68 = 32"
    using free_tail(1) [OF i]
    by (simp add: m'_def merge_left_def merge_right_def merged_addr_def merged_size_def merged_left_size_def)
qed

lemma reuse_merged:
  assumes "shape m 4 [(True, 40), (False, 8)]"
  shows "shm_data_allocate m 40 = Ok (set_free m 4 False, Some (0, 4))"
  using assms
  by (simp add: shm_data_allocate_def shm_data_next_suitable_block.simps [of m] sizeof_app_def
      shm_data_get_offset_def)

text \<open>The payload of the reused block; its byte 8 reads as the free flag of a header at address 36.\<close>

definition stale_payload :: "byte list" where
  "stale_payload = replicate 8 0 @ 1 # replicate 31 0"

lemma free_through_stale_link:
  assumes "shape m 4 [(True, 40), (False, 8)]" "blk_prev m 68 = 32" "\<forall>x \<ge> 100. m x = 0"
  shows "shm_data_free (mstore (set_free m 4 False) 28 stale_payload) 68 44 = 32"
proof -
  define w where "w = mstore (set_free m 4 False) 28 stale_payload"
  have len: "length stale_payload = 40" by (simp add: stale_payload_def)
  have w68: "blk_size w 68 = 8" "blk_prev w 68 = 32"
    using assms(1,2) blk_cong [of 68 w m] len by (auto simp: w_def mem_simps set_free_def)
  have "w x = 0" if "100 \<le> x" for x
    using that assms(3) len by (simp add: w_def mem_simps set_free_def)
  then have w100: "blk_size w 100 = 0" by (rule blk_zero)
  have pay: "w x = stale_payload ! (x - 28)" if "28 \<le> x" "x < 68" for x
    using that len by (simp add: w_def mstore_def)
  have "mload w 44 8 = replicate 8 0"
    by (rule nth_equalityI) (auto simp: mload_def pay stale_payload_def nth_append nth_Cons')
  then have w36: "blk_size w 36 = 0" "blk_free w 36"
    by (simp_all add: blk_size_def blk_free_def pay stale_payload_def nth_append numeral_nat)
  have "shm_data_free w 68 = set_free (memset (set_size w 36 32) 60 0 32) 36 True"
    using w36 w68 w100
    by (simp add: shm_data_free_def shm_data_get_next_block_ptr_def shm_data_is_ptr_out_of_range_def
        shm_data_get_block_ptr_def shm_consts mem_simps)
  moreover have "le_bytes 8 32 ! 0 = 32" using le_bytes.simps(2) [of 7 32] by simp
  ultimately show ?thesis
    unfolding w_def [symmetric] by (simp add: set_free_def memset_def set_size_def mstore_def)
qed

text \<open>
  C9. The release of a block through a stale back link destroys live data: after three allocations,
  two releases and a reuse of the merged block, releasing the third block changes the payload stored
  in the reused one, which is still in use.
\<close>

theorem shm_data_free_corrupts_payload:
  "\<exists>m1 m2 m3 m6. shm_data_allocate (\<lambda>_. 0) 8 = Ok (m1, Some (0, 4))
     \<and> shm_data_allocate m1 8 = Ok (m2, Some (32, 36)) \<and> shm_data_allocate m2 8 = Ok (m3, Some (64, 68))
     \<and> shm_data_allocate (shm_data_free (shm_data_free m3 36) 4) 40 = Ok (m6, Some (0, 4))
     \<and> mload (mstore m6 28 stale_payload) 28 40 = stale_payload
     \<and> mload (shm_data_free (mstore m6 28 stale_payload) 68) 28 40 \<noteq> stale_payload"
proof -
  obtain m1 m2 m3 where a: "shm_data_allocate (\<lambda>_. 0) 8 = Ok (m1, Some (0, 4))"
    "shm_data_allocate m1 8 = Ok (m2, Some (32, 36))" "shm_data_allocate m2 8 = Ok (m3, Some (64, 68))"
    and i: "heap_inv m3 ([(False, 8)] @ (False, 8) # [(False, 8)])" using three_blocks by auto
  have "heap_inv (shm_data_free m3 36) [(False, 8), (True, 8), (False, 8)]"
    using shm_data_free_spec(3) [OF i] by (simp add: free_blocks_def merge_left_def merge_right_def)
  note st = stale_link [OF this]
  note r = reuse_merged [OF st(1)] and c = free_through_stale_link [OF st]
  let ?w = "mstore (set_free (shm_data_free (shm_data_free m3 36) 4) 4 False) 28 stale_payload"
  have "mload (shm_data_free ?w 68) 28 40 ! 16 = 32" using c by (simp add: mload_def)
  moreover have "stale_payload ! 16 = 0" by (simp add: stale_payload_def nth_append nth_Cons')
  moreover have "mload ?w 28 40 = stale_payload" by (simp add: mem_simps stale_payload_def)
  ultimately show ?thesis using a r by (intro exI conjI) auto
qed

end
