(* ===== verification/Pbuf.thy ===== *)
theory Pbuf
  imports Prelude
begin

text \<open>
  lwIP packet buffers (\<open>lwip/src/core/pbuf.c\<close>). A chain of \<open>struct pbuf\<close> is the list of its nodes in
  \<open>next\<close> order, NULL the empty list; the bytes behind a node's \<open>payload\<close> pointer are its
  \<open>pb_payload\<close>. \<open>pchain_inv\<close> is the invariant stated in \<open>lwip/pbuf.h\<close>, \<open>chain_bytes\<close> the packet.
\<close>

section \<open>Model\<close>

record pbuf =
  pb_payload :: "byte list"
  pb_tot_len :: u16
  pb_len :: u16

text \<open>\<open>pbuf_skip\<close>: the node that holds the byte at the offset, and the offset inside it.\<close>

fun pbuf_skip :: "pbuf list \<Rightarrow> u16 \<Rightarrow> pbuf list \<times> u16" where
  "pbuf_skip [] offset_left = ([], offset_left)"
| "pbuf_skip (q # qs) offset_left =
     (if pb_len q \<le> offset_left then pbuf_skip qs (offset_left - pb_len q) else (q # qs, offset_left))"

section \<open>Invariant and content\<close>

definition chain_bytes :: "pbuf list \<Rightarrow> byte list" where
  "chain_bytes ps = concat (map pb_payload ps)"

fun pchain_inv :: "pbuf list \<Rightarrow> bool" where
  "pchain_inv [] = True"
| "pchain_inv (p # ps) =
     (unat (pb_len p) = length (pb_payload p) \<and>
      unat (pb_tot_len p) = unat (pb_len p) + (case ps of [] \<Rightarrow> 0 | q # qs \<Rightarrow> unat (pb_tot_len q)) \<and>
      pchain_inv ps)"

lemma chain_bytes_simps [simp]:
  "chain_bytes [] = []" "chain_bytes (p # ps) = pb_payload p @ chain_bytes ps"
  by (simp_all add: chain_bytes_def)

lemma pchain_tot_len: "pchain_inv (p # ps) \<Longrightarrow> unat (pb_tot_len p) = length (chain_bytes (p # ps))"
proof (induction ps arbitrary: p)
  case (Cons q qs)
  have "pchain_inv (q # qs)" using Cons.prems by simp
  then have "unat (pb_tot_len q) = length (chain_bytes (q # qs))" by (rule Cons.IH)
  with Cons.prems show ?case by simp
qed simp

lemma pchain_length: "pchain_inv ps \<Longrightarrow> length (chain_bytes ps) < 2 ^ 16"
  using pchain_tot_len unat_less_u16 by (cases ps) (auto, metis)

text \<open>A position in a chain: the nodes from \<open>next\<close> on, of which the first is read up to the offset.\<close>

definition pos_ok :: "pbuf list \<Rightarrow> u16 \<Rightarrow> bool" where
  "pos_ok ps off \<longleftrightarrow> pchain_inv ps \<and> (ps \<noteq> [] \<longrightarrow> unat off \<le> unat (pb_len (hd ps)))"

definition pos_bytes :: "pbuf list \<Rightarrow> u16 \<Rightarrow> byte list" where
  "pos_bytes ps off = (if ps = [] then [] else drop (unat off) (chain_bytes ps))"

lemma pos_bytes_length: "pos_ok ps off \<Longrightarrow> length (pos_bytes ps off) < 2 ^ 16"
  using pchain_length [of ps] by (auto simp: pos_ok_def pos_bytes_def)

lemma pos_zero [simp]: "pos_ok ps 0 = pchain_inv ps" "pos_bytes ps 0 = chain_bytes ps"
  by (auto simp: pos_ok_def pos_bytes_def)

lemma pos_split:
  assumes "pos_ok (q # qs) off"
  shows "pos_bytes (q # qs) off = drop (unat off) (pb_payload q) @ chain_bytes qs"
    "length (drop (unat off) (pb_payload q)) = unat (pb_len q - off)"
    "unat (pb_len q - off) = unat (pb_len q) - unat off"
proof -
  have "unat (pb_len q - off) = unat (pb_len q) - unat off"
    using assms by (intro unat_minus_nat) (simp add: pos_ok_def)
  with assms show "unat (pb_len q - off) = unat (pb_len q) - unat off"
    "pos_bytes (q # qs) off = drop (unat off) (pb_payload q) @ chain_bytes qs"
    "length (drop (unat off) (pb_payload q)) = unat (pb_len q - off)"
    by (auto simp: pos_ok_def pos_bytes_def)
qed

lemma pbuf_skip_spec:
  assumes "pchain_inv ps" "pbuf_skip ps off = (qs, off')"
  shows "pos_ok qs off'" "pos_bytes qs off' = drop (unat off) (chain_bytes ps)"
proof -
  have "pos_ok qs off' \<and> pos_bytes qs off' = drop (unat off) (chain_bytes ps)"
    using assms
  proof (induction ps off rule: pbuf_skip.induct)
    case (2 q ps off)
    show ?case
    proof (cases "pb_len q \<le> off")
      case True
      then have "unat (off - pb_len q) = unat off - unat (pb_len q)"
        by (intro unat_minus_nat) (simp add: word_le_nat_alt)
      with 2 True show ?thesis by (simp add: word_le_nat_alt)
    next
      case False
      with 2 show ?thesis by (auto simp: pos_ok_def pos_bytes_def word_le_nat_alt)
    qed
  qed (simp add: pos_ok_def pos_bytes_def)
  then show "pos_ok qs off'" "pos_bytes qs off' = drop (unat off) (chain_bytes ps)" by blast+
qed

end
