(* ===== verification/Stack_State.thy ===== *)
theory Stack_State
  imports Socket Prio_Ring Shmem Pbuf
begin

text \<open>
  The state of the stack process (\<open>lwip/custom/stack/src/stack.c\<close>, lines 34-58) and the part of the
  lwIP raw API it calls. Regions and sockets are reached through pointers: \<open>app_ptrs\<close> and
  \<open>socket_ptrs\<close> hold region numbers, the maps \<open>app_regions\<close> and \<open>socket_regions\<close> their contents.
  The arrays have \<open>MAX_APP_AMOUNT\<close> and \<open>MAX_SOCKETS_PER_APP\<close> entries. lwIP's own state is opaque;
  the functions on it are the fields of \<open>lwip_api\<close>, an argument of every handler, so that what is
  proved holds for every behaviour of these functions.
\<close>

definition MAX_APP_AMOUNT :: nat where "MAX_APP_AMOUNT = 100"
definition MAX_SOCKETS_PER_APP :: nat where "MAX_SOCKETS_PER_APP = 127"

type_synonym err_t = int

definition ERR_OK :: err_t where "ERR_OK = 0"
definition ERR_MEM :: err_t where "ERR_MEM = -1"

lemma err_distinct [simp]: "ERR_OK \<noteq> ERR_MEM" "ERR_MEM \<noteq> ERR_OK"
  by (simp_all add: ERR_OK_def ERR_MEM_def)

datatype ip_any = IP4_ADDR_ANY | IP6_ADDR_ANY | IP_ANY_TYPE | Ip_Undetermined

text \<open>
  The API functions thread lwIP's state \<open>'l\<close>. Protocol control blocks are pointers (\<open>None\<close> is NULL);
  payload pointers are pairs of a region and an address in it; the callbacks pifus registers are
  fixed, so registering one takes no further argument. \<open>'i\<close> is lwIP's \<open>ip_addr_t\<close>.
\<close>

record ('l, 'i) lwip_api =
  lw_tcp_new :: "'l \<Rightarrow> nat option \<times> 'l"
  lw_tcp_nagle_disable :: "'l \<Rightarrow> nat \<Rightarrow> 'l"
  lw_tcp_arg :: "'l \<Rightarrow> nat option \<Rightarrow> nat option \<Rightarrow> 'l"
  lw_tcp_bind :: "'l \<Rightarrow> nat option \<Rightarrow> ip_any \<Rightarrow> u16 \<Rightarrow> err_t \<times> 'l"
  lw_ipaddr_aton :: "char list \<Rightarrow> 'i"
  lw_tcp_connect :: "'l \<Rightarrow> nat option \<Rightarrow> 'i \<Rightarrow> u16 \<Rightarrow> err_t \<times> 'l"
  lw_tcp_listen_with_backlog :: "'l \<Rightarrow> nat option \<Rightarrow> u8 \<Rightarrow> nat option \<times> 'l"
  lw_tcp_accept :: "'l \<Rightarrow> nat option \<Rightarrow> 'l"
  lw_tcp_recv :: "'l \<Rightarrow> nat option \<Rightarrow> 'l"
  lw_tcp_recved :: "'l \<Rightarrow> nat option \<Rightarrow> u16 \<Rightarrow> 'l"
  lw_tcp_write :: "'l \<Rightarrow> nat option \<Rightarrow> nat \<times> nat \<Rightarrow> u16 \<Rightarrow> u8 \<Rightarrow> err_t \<times> 'l"
  lw_tcp_sent :: "'l \<Rightarrow> nat option \<Rightarrow> 'l"
  lw_tcp_output :: "'l \<Rightarrow> nat option \<Rightarrow> 'l"
  lw_pbuf_free :: "'l \<Rightarrow> pbuf list \<Rightarrow> 'l"
  lw_tcp_close :: "'l \<Rightarrow> nat option \<Rightarrow> err_t \<times> 'l"

record 'l stack =
  st_lwip :: 'l
  app_ptrs :: "nat option list"
  app_regions :: "nat \<Rightarrow> mem"
  next_app_number :: u32
  socket_ptrs :: "nat option list list"
  socket_regions :: "nat \<Rightarrow> pifus_socket"
  socket_futexes :: "u32 list list"
  tx_queue :: prio_ring
  full_sndbuf_iterations :: u8

text \<open>
  What a handler \<open>tx_tcp_*\<close> returns: the \<open>result_code\<close> and \<open>data\<close> fields of its
  \<open>pifus_operation_result\<close>; the field \<open>code\<close> is set by \<open>process_tx_op\<close> afterwards.
\<close>

type_synonym tx_result = "result_code \<times> res_data"

definition set_socket :: "'l stack \<Rightarrow> nat \<Rightarrow> pifus_socket \<Rightarrow> 'l stack" where
  "set_socket st p s = st\<lparr>socket_regions := (socket_regions st)(p := s)\<rparr>"

lemma set_socket_simps [simp]:
  "socket_regions (set_socket st p s) = (socket_regions st)(p := s)"
  "st_lwip (set_socket st p s) = st_lwip st" "app_ptrs (set_socket st p s) = app_ptrs st"
  "app_regions (set_socket st p s) = app_regions st" "socket_ptrs (set_socket st p s) = socket_ptrs st"
  "tx_queue (set_socket st p s) = tx_queue st" "socket_futexes (set_socket st p s) = socket_futexes st"
  "next_app_number (set_socket st p s) = next_app_number st"
  "full_sndbuf_iterations (set_socket st p s) = full_sndbuf_iterations st"
  by (simp_all add: set_socket_def)

text \<open>Every socket region the stack can reach is well formed, and so is the transmit queue.\<close>

definition stack_inv :: "'l stack \<Rightarrow> bool" where
  "stack_inv st \<longleftrightarrow> pr_inv (tx_queue st) \<and>
     (\<forall>iop \<in> set (pr_all (tx_queue st)). sock_inv (socket_regions st (iop_socket iop)))"

section \<open>A small stack\<close>

text \<open>
  The state and the lwIP used by the concrete applications of the theorems: application 0 with a
  zeroed region, every socket pointer leads to \<open>demo_socket\<close>, lwIP's send buffer is full.
\<close>

definition demo_api :: "(unit, unit) lwip_api" where
  "demo_api = \<lparr>lw_tcp_new = (\<lambda>l. (Some 1, l)), lw_tcp_nagle_disable = (\<lambda>l p. l),
     lw_tcp_arg = (\<lambda>l p a. l), lw_tcp_bind = (\<lambda>l p a n. (ERR_OK, l)), lw_ipaddr_aton = (\<lambda>s. ()),
     lw_tcp_connect = (\<lambda>l p a n. (ERR_OK, l)), lw_tcp_listen_with_backlog = (\<lambda>l p n. (p, l)),
     lw_tcp_accept = (\<lambda>l p. l), lw_tcp_recv = (\<lambda>l p. l), lw_tcp_recved = (\<lambda>l p n. l),
     lw_tcp_write = (\<lambda>l p d n f. (ERR_MEM, l)), lw_tcp_sent = (\<lambda>l p. l), lw_tcp_output = (\<lambda>l p. l),
     lw_pbuf_free = (\<lambda>l p. l), lw_tcp_close = (\<lambda>l p. (ERR_OK, l))\<rparr>"

definition demo_stack :: "unit stack" where
  "demo_stack = \<lparr>st_lwip = (), app_ptrs = [Some 0], app_regions = (\<lambda>_ _. 0), next_app_number = 1,
     socket_ptrs = [[None, Some 7]], socket_regions = (\<lambda>_. demo_socket), socket_futexes = [[0, 0]],
     tx_queue = pr_demo, full_sndbuf_iterations = 0\<rparr>"

lemma demo_socket_app: "app_index demo_socket = 0" "\<not> ring_buffer_is_full (write_queue demo_socket)"
  by (simp_all add: demo_socket_def zero_socket_def ring_buffer_create_def ring_buffer_is_full_def)

end
