(* ===== verification/Tcp_Write.thy ===== *)
theory Tcp_Write
  imports Stack_State
begin

text \<open>
  The write path of the stack (\<open>lwip/custom/stack/src/tcp/write.c\<close>): \<open>tx_tcp_write\<close> hands a block of the
  application region to lwIP without copying it and remembers its length in the write queue of the
  socket; \<open>tcp_sent_callback\<close>, called when the peer has acknowledged \<open>len\<close> bytes, completes the
  writes these bytes cover. \<open>ack\<close> is the abstract account of that queue.
\<close>

section \<open>Model\<close>

text \<open>\<open>len - size\<close> is computed in 64 bits and passed on as a \<open>u16_t\<close>.\<close>

partial_function (option) tcp_sent_callback ::
    "pifus_socket \<Rightarrow> u16 \<Rightarrow> (err_t \<times> pifus_socket) res option" where
  "tcp_sent_callback socket len =
     (case ring_buffer_peek (write_queue socket) of
        None \<Rightarrow> Some (Fault Exit_Failure)
      | Some i \<Rightarrow>
          (let entry = write_queue_buffer socket ! unat i
           in if wqe_size entry \<le> ucast len
              then (let s1 = socket\<lparr>write_queue := snd (ring_buffer_erase_first (write_queue socket))\<rparr>;
                        s2 = enqueue_in_cqueue s1 \<lparr>res_code = TCP_WRITE, result_code = PIFUS_OK,
                               res_data = Res_Write (wqe_block_offset entry)\<rparr>
                    in if wqe_size entry < ucast len
                       then tcp_sent_callback s2 (ucast (ucast len - wqe_size entry :: u64))
                       else Some (Ok (ERR_OK, s2)))
              else Some (Ok (ERR_OK, socket\<lparr>write_queue_buffer :=
                     (write_queue_buffer socket)[unat i := entry\<lparr>wqe_size := wqe_size entry - ucast len\<rparr>]\<rparr>))))"

definition tx_tcp_write ::
    "('l, 'i) lwip_api \<Rightarrow> 'l stack \<Rightarrow> internal_operation \<Rightarrow> (tx_result \<times> 'l stack) res" where
  "tx_tcp_write api st internal_op =
     (let write_data = op_data (iop_operation internal_op);
          offset = write_block_offset write_data;
          sp = iop_socket internal_op;
          socket = socket_regions st sp
      in if ring_buffer_is_full (write_queue socket) then Ok ((PIFUS_ERR, Res_Write offset), st)
         else case app_ptrs st ! unat (app_index socket) of
           None \<Rightarrow> Fault Null_Dereference
         | Some app \<Rightarrow>
             (let block = shm_data_get_block_ptr (sint offset);
                  data_ptr = shm_data_get_data_ptr block;
                  block_size = blk_size (app_regions st app) block
              in case lw_tcp_write api (st_lwip st) (pcb socket) (app, data_ptr) (of_nat block_size) 0 of
                   (result, lw1) \<Rightarrow>
                     if result = ERR_OK
                     then (case ring_buffer_put (write_queue socket) (write_queue_buffer socket)
                                  \<lparr>wqe_size = of_nat block_size, wqe_block_offset = offset\<rparr> of
                             (ok, rb, buf) \<Rightarrow>
                               if ok
                               then (let lw2 = lw_tcp_sent api lw1 (pcb socket);
                                         lw3 = lw_tcp_output api lw2 (pcb socket)
                                     in Ok ((PIFUS_ASYNC, Res_Write offset),
                                            (set_socket st sp
                                               (socket\<lparr>write_queue := rb, write_queue_buffer := buf\<rparr>))
                                              \<lparr>st_lwip := lw3\<rparr>))
                               else Fault Exit_Failure)
                     else if result = ERR_MEM
                     then Ok ((PIFUS_TRY_AGAIN, Res_Write offset), st\<lparr>st_lwip := lw1\<rparr>)
                     else Ok ((PIFUS_ERR, Res_Write offset), st\<lparr>st_lwip := lw1\<rparr>)))"

section \<open>Acknowledgements\<close>

text \<open>
  The abstract account: \<open>n\<close> acknowledged bytes against the sizes still outstanding. The first
  component lists the blocks that are now completely sent; \<open>None\<close> when bytes are left over.
\<close>

fun ack :: "(nat \<times> u64) list \<Rightarrow> nat \<Rightarrow> (u64 list \<times> (nat \<times> u64) list) option" where
  "ack [] n = None"
| "ack ((s, off) # es) n =
     (if s < n then map_option (\<lambda>(offs, es'). (off # offs, es')) (ack es (n - s))
      else if s = n then Some ([off], es)
      else Some ([], (s - n, off) # es))"

definition wq_account :: "pifus_socket \<Rightarrow> (nat \<times> u64) list" where
  "wq_account s = map (\<lambda>e. (unat (wqe_size e), wqe_block_offset e)) (wq_list s)"

definition write_result :: "u64 \<Rightarrow> operation_result" where
  "write_result off = \<lparr>res_code = TCP_WRITE, result_code = PIFUS_OK, res_data = Res_Write off\<rparr>"

lemma ack_total:
  "0 < n \<Longrightarrow> n \<le> sum_list (map fst es) \<Longrightarrow> \<exists>offs es'. ack es n = Some (offs, es')"
proof (induction es n rule: ack.induct)
  case (2 s off es n)
  then show ?case by (cases "s < n") (auto simp: le_diff_conv add.commute)
qed simp

lemma ack_sum: "ack es n = Some (offs, es') \<Longrightarrow>
    sum_list (map fst es') + n = sum_list (map fst es) \<and> map snd es = offs @ map snd es'"
  by (induction es n arbitrary: offs es' rule: ack.induct) (auto split: if_splits)

lemma ucast_le_iff: "(a :: u64) \<le> ucast (len :: u16) \<longleftrightarrow> unat a \<le> unat len"
  "(a :: u64) < ucast len \<longleftrightarrow> unat a < unat len" "unat (ucast len :: u64) = unat len"
proof -
  have "unat len < 2 ^ 64" using unat_less_u16 [of len] by simp
  then show u: "unat (ucast len :: u64) = unat len"
    by (simp add: unsigned_ucast_eq take_bit_nat_eq_self)
  show "a \<le> ucast len \<longleftrightarrow> unat a \<le> unat len" "a < ucast len \<longleftrightarrow> unat a < unat len"
    by (simp_all only: word_le_nat_alt word_less_nat_alt u)
qed

lemma unat_sub_u16:
  assumes "unat (a :: u64) \<le> unat (len :: u16)"
  shows "unat (ucast (ucast len - a :: u64) :: u16) = unat len - unat a"
proof -
  have "unat (ucast len - a :: u64) = unat len - unat a"
    using assms by (subst unat_sub) (auto simp: ucast_le_iff)
  moreover have "unat len - unat a < 2 ^ 16" using unat_less_u16 [of len] by simp
  ultimately show ?thesis by (simp add: unsigned_ucast_eq take_bit_nat_eq_self)
qed

text \<open>One round: the head of the queue, its removal and the update of its size.\<close>

lemma wq_head:
  assumes "sock_inv s" "wq_list s = e # es"
  shows "\<exists>i. ring_buffer_peek (write_queue s) = Some i \<and> write_queue_buffer s ! unat i = e
     \<and> sock_inv (s\<lparr>write_queue := snd (ring_buffer_erase_first (write_queue s))\<rparr>)
     \<and> wq_list (s\<lparr>write_queue := snd (ring_buffer_erase_first (write_queue s))\<rparr>) = es
     \<and> (\<forall>e'. sock_inv (s\<lparr>write_queue_buffer := (write_queue_buffer s)[unat i := e']\<rparr>)
          \<and> wq_list (s\<lparr>write_queue_buffer := (write_queue_buffer s)[unat i := e']\<rparr>) = e' # es)"
proof -
  have inv: "rb_inv (write_queue s) (write_queue_buffer s)"
    and l: "rb_list (write_queue s) (write_queue_buffer s) = e # es"
    using assms by (auto simp: sock_inv_def wq_list_def)
  from rb_head_slot [OF this] assms(1) show ?thesis by (auto simp: sock_inv_def wq_list_def)
qed

lemma take_push_cons:
  assumes "length xs \<le> c"
  shows "take c (take c (xs @ [y]) @ ys) = take c (xs @ y # ys)"
  using take_append_push [OF assms, of "[y]" ys] by simp

lemma tcp_sent_callback_refines:
  assumes "sock_inv s"
  shows "case ack (wq_account s) (unat len) of
      None \<Rightarrow> tcp_sent_callback s len = Some (Fault Exit_Failure)
    | Some (offs, es') \<Rightarrow> \<exists>s'. tcp_sent_callback s len = Some (Ok (ERR_OK, s')) \<and> sock_inv s'
        \<and> wq_account s' = es' \<and> cq_list s' = take (cq_cap s) (cq_list s @ map write_result offs)
        \<and> sq_list s' = sq_list s \<and> rq_list s' = rq_list s \<and> rbuf_list s' = rbuf_list s \<and> cq_cap s' = cq_cap s"
  using assms
proof (induction "wq_list s" arbitrary: s len)
  case Nil
  then have "ring_buffer_peek (write_queue s) = None"
    using peek_spec(1) [of "write_queue s" "write_queue_buffer s"] by (simp add: sock_inv_def wq_list_def)
  with Nil show ?case by (simp add: wq_account_def tcp_sent_callback.simps)
next
  case (Cons e es)
  obtain i where i: "ring_buffer_peek (write_queue s) = Some i" "write_queue_buffer s ! unat i = e"
    and pop: "sock_inv (s\<lparr>write_queue := snd (ring_buffer_erase_first (write_queue s))\<rparr>)"
      "wq_list (s\<lparr>write_queue := snd (ring_buffer_erase_first (write_queue s))\<rparr>) = es"
    and upd: "\<And>e'. sock_inv (s\<lparr>write_queue_buffer := (write_queue_buffer s)[unat i := e']\<rparr>)"
      "\<And>e'. wq_list (s\<lparr>write_queue_buffer := (write_queue_buffer s)[unat i := e']\<rparr>) = e' # es"
    using wq_head [OF Cons.prems Cons.hyps(2) [symmetric]] by blast
  define s1 where "s1 = s\<lparr>write_queue := snd (ring_buffer_erase_first (write_queue s))\<rparr>"
  define s2 where "s2 = enqueue_in_cqueue s1 (write_result (wqe_block_offset e))"
  define len' :: u16 where "len' = ucast (ucast len - wqe_size e :: u64)"
  have s1: "sock_inv s1" "wq_list s1 = es" "cq_list s1 = cq_list s" "cq_cap s1 = cq_cap s"
    "sq_list s1 = sq_list s" "rq_list s1 = rq_list s" "rbuf_list s1 = rbuf_list s"
    using pop by (auto simp: s1_def sock_views)
  note q = enqueue_in_cqueue_spec [OF s1(1), of "write_result (wqe_block_offset e)", folded s2_def]
  have s2: "es = wq_list s2" "sq_list s2 = sq_list s" "rq_list s2 = rq_list s" "rbuf_list s2 = rbuf_list s"
    using s1 by (simp_all add: s2_def)
  have le: "length (cq_list s) \<le> cq_cap s"
    using Cons.prems rb_count_bound [of "cqueue s" "cqueue_buffer s"] by (simp add: sock_inv_def sock_views)
  have unf: "tcp_sent_callback s len =
      (if unat (wqe_size e) < unat len then tcp_sent_callback s2 len'
       else if unat (wqe_size e) = unat len then Some (Ok (ERR_OK, s2))
       else Some (Ok (ERR_OK, s\<lparr>write_queue_buffer := (write_queue_buffer s)
               [unat i := e\<lparr>wqe_size := wqe_size e - ucast len\<rparr>]\<rparr>)))"
    by (subst tcp_sent_callback.simps)
      (auto simp: i s1_def s2_def len'_def write_result_def ucast_le_iff Let_def)
  have acc: "wq_account s = (unat (wqe_size e), wqe_block_offset e) # wq_account s2"
    using Cons.hyps(2) s2(1) by (simp add: wq_account_def flip: Cons.hyps(2))
  consider "unat (wqe_size e) < unat len" | "unat (wqe_size e) = unat len" | "unat len < unat (wqe_size e)"
    by linarith
  then show ?case
  proof cases
    case 1
    then have "unat len' = unat len - unat (wqe_size e)" by (simp add: len'_def unat_sub_u16)
    with Cons.hyps(1) [OF s2(1) q(1), of len'] unf 1 acc s1 s2 q le show ?thesis
      by (auto simp: take_push_cons [OF le] simp del: take_append split: option.splits)
  next
    case 2
    with unf acc s1 s2 q show ?thesis by simp
  next
    case 3
    then have "unat (wqe_size e - ucast len) = unat (wqe_size e) - unat len"
      by (subst unat_sub) (auto simp: word_le_nat_alt ucast_le_iff)
    with 3 unf acc upd s2 le show ?thesis by (auto simp: wq_account_def sock_views)
  qed
qed

section \<open>Submission\<close>

text \<open>The submission on a socket whose application region is mapped, branch by branch.\<close>

lemma tx_tcp_write_full:
  "ring_buffer_is_full (write_queue (socket_regions st (iop_socket iop))) \<Longrightarrow>
     tx_tcp_write api st iop = Ok ((PIFUS_ERR, Res_Write (write_block_offset (op_data (iop_operation iop)))), st)"
  by (simp add: tx_tcp_write_def Let_def)

lemma tx_tcp_write_eval:
  assumes "sock_inv (socket_regions st sp)" "sp = iop_socket iop" "s = socket_regions st sp"
    and "\<not> ring_buffer_is_full (write_queue s)" "app_ptrs st ! unat (app_index s) = Some app"
    and "off = write_block_offset (op_data (iop_operation iop))"
    and "n = blk_size (app_regions st app) (shm_data_get_block_ptr (sint off))"
    and "lw_tcp_write api (st_lwip st) (pcb s)
           (app, shm_data_get_data_ptr (shm_data_get_block_ptr (sint off))) (of_nat n) 0 = (err, lw)"
  obtains rb buf where "err = ERR_OK"
    "tx_tcp_write api st iop = Ok ((PIFUS_ASYNC, Res_Write off),
       (set_socket st sp (s\<lparr>write_queue := rb, write_queue_buffer := buf\<rparr>))
         \<lparr>st_lwip := lw_tcp_output api (lw_tcp_sent api lw (pcb s)) (pcb s)\<rparr>)"
    "rb_inv rb buf" "rb_list rb buf = wq_list s @ [\<lparr>wqe_size = of_nat n, wqe_block_offset = off\<rparr>]"
  | "err \<noteq> ERR_OK"
    "tx_tcp_write api st iop =
       Ok ((if err = ERR_MEM then PIFUS_TRY_AGAIN else PIFUS_ERR, Res_Write off), st\<lparr>st_lwip := lw\<rparr>)"
proof (cases "err = ERR_OK")
  case True
  obtain ok rb buf where put: "ring_buffer_put (write_queue s) (write_queue_buffer s)
      \<lparr>wqe_size = of_nat n, wqe_block_offset = off\<rparr> = (ok, rb, buf)" by (metis prod_cases3)
  have "rb_inv (write_queue s) (write_queue_buffer s)" using assms(1,3) by (simp add: sock_inv_def)
  note p = put_not_full [OF this assms(4) put]
  show thesis
    by (rule that(1) [OF True, of buf rb])
      (use assms True put p in \<open>simp_all add: tx_tcp_write_def Let_def wq_list_def\<close>)
next
  case False
  show thesis by (rule that(2) [OF False]) (use assms False in \<open>simp add: tx_tcp_write_def Let_def\<close>)
qed

section \<open>Properties\<close>

lemma ack_none: "0 < n \<Longrightarrow> ack es n = None \<longleftrightarrow> sum_list (map fst es) < n"
  using ack_total [of n es] ack_sum [of es n] by (cases "ack es n") fastforce+


definition sent_demo :: pifus_socket where
  "sent_demo = demo_socket\<lparr>write_queue := \<lparr>rb_end = 4, rb_head = 2, rb_tail = 0\<rparr>,
     write_queue_buffer := [\<lparr>wqe_size = 10, wqe_block_offset = 100\<rparr>, \<lparr>wqe_size = 5, wqe_block_offset = 200\<rparr>,
       \<lparr>wqe_size = 0, wqe_block_offset = 0\<rparr>, \<lparr>wqe_size = 0, wqe_block_offset = 0\<rparr>]\<rparr>"

lemma sent_demo_facts: "sock_inv sent_demo" "wq_account sent_demo = [(10, 100), (5, 200)]"
  "cq_list sent_demo = []" "cq_cap sent_demo = 3"
proof -
  show "sock_inv sent_demo"
    using demo_socket_inv by (simp add: sent_demo_def sock_inv_def rb_inv_def)
  show "wq_account sent_demo = [(10, 100), (5, 200)]"
    by (simp add: sent_demo_def wq_account_def wq_list_def rb_list_def rb_count_def ring_count_def
        ring_view_def upt_rec)
  show "cq_list sent_demo = []" "cq_cap sent_demo = 3"
    using demo_socket_views by (simp_all add: sent_demo_def cq_list_def cq_cap_def)
qed


text \<open>
  Submission of a write: with a full write queue the operation is refused and lwIP is not called.
  Otherwise lwIP is offered the block's payload and, exactly when it accepts it, the block is
  appended to the write queue and completes later; a full send buffer means try again, any other
  failure an error, both without a trace in the queue. The check that the queue has room never fails.
\<close>

theorem tx_tcp_write_cases:
  fixes api :: "('l, 'i) lwip_api"
  assumes "sock_inv (socket_regions st (iop_socket iop))"
    and "app_ptrs st ! unat (app_index (socket_regions st (iop_socket iop))) = Some app"
  defines "s \<equiv> socket_regions st (iop_socket iop)"
    and "off \<equiv> write_block_offset (op_data (iop_operation iop))"
  defines "blk \<equiv> shm_data_get_block_ptr (sint off)"
  defines "n \<equiv> blk_size (app_regions st app) blk"
  defines "err \<equiv> fst (lw_tcp_write api (st_lwip st) (pcb s) (app, shm_data_get_data_ptr blk) (of_nat n) 0)"
  shows "\<exists>rc st'. tx_tcp_write api st iop = Ok ((rc, Res_Write off), st')
     \<and> rc = (if ring_buffer_is_full (write_queue s) then PIFUS_ERR else if err = ERR_OK then PIFUS_ASYNC
             else if err = ERR_MEM then PIFUS_TRY_AGAIN else PIFUS_ERR)
     \<and> sock_inv (socket_regions st' (iop_socket iop))
     \<and> wq_list (socket_regions st' (iop_socket iop)) =
         wq_list s @ (if rc = PIFUS_ASYNC then [\<lparr>wqe_size = of_nat n, wqe_block_offset = off\<rparr>] else [])
     \<and> (\<forall>p. p \<noteq> iop_socket iop \<longrightarrow> socket_regions st' p = socket_regions st p)
     \<and> app_regions st' = app_regions st \<and> tx_queue st' = tx_queue st"
proof (cases "ring_buffer_is_full (write_queue s)")
  case True
  with assms(1) show ?thesis
    using tx_tcp_write_full [of st iop api] by (simp add: s_def off_def)
next
  case False
  obtain e lw where w: "lw_tcp_write api (st_lwip st) (pcb s) (app, shm_data_get_data_ptr blk) (of_nat n) 0 = (e, lw)"
    by force
  then have e: "err = e" by (simp add: err_def)
  note ev = tx_tcp_write_eval [OF assms(1) refl s_def [THEN meta_eq_to_obj_eq] False assms(2) [folded s_def]
      off_def [THEN meta_eq_to_obj_eq] n_def [THEN meta_eq_to_obj_eq, unfolded blk_def] w [unfolded blk_def]]
  from ev show ?thesis
  proof cases
    case (1 rb buf)
    then show ?thesis using False e assms(1) by (simp add: s_def sock_inv_def wq_list_def)
  next
    case 2
    then show ?thesis using False e assms(1) by (simp add: s_def)
  qed
qed

definition write_demo_op :: internal_operation where
  "write_demo_op = \<lparr>iop_operation = \<lparr>op_code = TCP_WRITE, op_data = Write_Data 32\<rparr>, iop_socket = 7\<rparr>"

theorem tx_tcp_write_cases_witness:
  "\<exists>st'. tx_tcp_write demo_api demo_stack write_demo_op = Ok ((PIFUS_TRY_AGAIN, Res_Write 32), st')
     \<and> wq_list (socket_regions st' 7) = []"
  using tx_tcp_write_cases [of demo_stack write_demo_op 0 demo_api] demo_socket_inv
  by (simp add: demo_stack_def write_demo_op_def demo_socket_app demo_socket_views demo_api_def) blast

end
