(* ===== verification/Tcp_Recv.thy ===== *)
theory Tcp_Recv
  imports Stack_State
begin

text \<open>
  The receive path of the stack (\<open>lwip/custom/stack/src/tcp/recv.c\<close>). \<open>tx_tcp_recv\<close> queues a request
  for bytes or answers it from the socket's byte buffer; \<open>tcp_recv_callback\<close>, called by lwIP with a
  chain of packet buffers, copies the bytes into the blocks of the waiting requests, buffers what no
  request wants, and leaves the rest to lwIP. The loops of the callback are the functions
  \<open>recv_copy_loop\<close>, \<open>recv_loop\<close> and \<open>buffer_loop\<close> on its local variables; \<open>fill\<close> is the abstract
  distribution of a byte sequence over the waiting requests.
\<close>

section \<open>Model\<close>

text \<open>\<open>recv_queue_entry->size -= n; recv_queue_entry->data_offset += n\<close> (lines 23-24 and 127-128).\<close>

definition consume :: "recv_queue_entry \<Rightarrow> u16 \<Rightarrow> recv_queue_entry" where
  "consume entry n = entry\<lparr>rqe_size := rqe_size entry - ucast n,
                           rqe_data_offset := rqe_data_offset entry + ucast n\<rparr>"

text \<open>Lines 12-28.\<close>

definition pop_from_buffer ::
    "pifus_socket \<Rightarrow> mem \<Rightarrow> nat \<Rightarrow> recv_queue_entry \<Rightarrow> u16 \<Rightarrow> u16 \<times> pifus_socket \<times> mem \<times> recv_queue_entry" where
  "pop_from_buffer socket m recv_block entry len_needed_recv =
     (let data_ptr = shm_data_get_data_ptr recv_block + unat (rqe_data_offset entry)
      in case byte_buffer_pop (recv_buffer socket) (recv_buffer_array socket) len_needed_recv of
           (n, out, bb) \<Rightarrow>
             (let socket1 = socket\<lparr>recv_buffer := bb\<rparr>; m1 = mstore m data_ptr out
              in if n > 0
                 then (n, socket1, m1, consume entry n)
                 else (n, socket1, m1, entry)))"

text \<open>Lines 96-129: copy from the chain into the block of one request.\<close>

function recv_copy_loop ::
    "nat \<Rightarrow> pbuf list \<Rightarrow> u16 \<Rightarrow> u16 \<Rightarrow> u16 \<Rightarrow> u16 \<Rightarrow> mem \<Rightarrow> recv_queue_entry
     \<Rightarrow> pbuf list \<times> u16 \<times> u16 \<times> u16 \<times> u16 \<times> mem \<times> recv_queue_entry" where
  "recv_copy_loop recv_block [] offset needed available ackable m entry =
     ([], offset, needed, available, ackable, m, entry)"
| "recv_copy_loop recv_block (q # qs) offset needed available ackable m entry =
     (if needed > 0
      then (let len_next_pbuf = pb_len q - offset;
                pbuf_completely_consumed = (\<not> len_next_pbuf > needed);
                amount_to_copy = (if len_next_pbuf > needed then needed else len_next_pbuf);
                data_ptr = shm_data_get_data_ptr recv_block + unat (rqe_data_offset entry);
                m1 = mstore m data_ptr (take (unat amount_to_copy) (drop (unat offset) (pb_payload q)));
                entry1 = consume entry amount_to_copy
            in if pbuf_completely_consumed
               then recv_copy_loop recv_block qs 0 (needed - amount_to_copy) (available - amount_to_copy)
                      (ackable + amount_to_copy) m1 entry1
               else recv_copy_loop recv_block (q # qs) (offset + amount_to_copy) (needed - amount_to_copy)
                      (available - amount_to_copy) (ackable + amount_to_copy) m1 entry1)
      else (q # qs, offset, needed, available, ackable, m, entry))"
  by pat_completeness auto
termination
  by (relation "measures [\<lambda>(b, qs, off, n, av, ack, m, e). length qs, \<lambda>(b, qs, off, n, av, ack, m, e). unat n]")
    (auto simp: unat_pos_iff)

declare recv_copy_loop.simps [simp del]

record recv_state =
  rs_socket :: pifus_socket
  rs_mem :: mem
  rs_next_pbuf :: "pbuf list"
  rs_offset :: u16
  rs_available :: u16
  rs_ackable :: u16
  rs_buffer_empty :: bool

text \<open>
  Lines 76-88: what the byte buffer can contribute to a request. The size of the request is read into
  a 16 bit variable.
\<close>

definition recv_from_buffer ::
    "recv_state \<Rightarrow> nat \<Rightarrow> recv_queue_entry \<Rightarrow> u16 \<times> pifus_socket \<times> mem \<times> recv_queue_entry \<times> bool" where
  "recv_from_buffer st recv_block entry =
     (let len_needed_recv = ucast (rqe_size entry) :: u16
      in if \<not> rs_buffer_empty st
         then (case pop_from_buffer (rs_socket st) (rs_mem st) recv_block entry len_needed_recv of
                 (n, socket1, m1, entry1) \<Rightarrow>
                   if n > 0 then (len_needed_recv - n, socket1, m1, entry1, rs_buffer_empty st)
                   else (len_needed_recv, socket1, m1, entry1, True))
         else (len_needed_recv, rs_socket st, rs_mem st, entry, rs_buffer_empty st))"

text \<open>Lines 74-145: one round of the matching loop, for the request in slot \<open>i\<close> of the receive queue.\<close>

definition recv_round :: "recv_state \<Rightarrow> u16 \<Rightarrow> recv_state" where
  "recv_round st i =
     (let entry = recv_queue_buffer (rs_socket st) ! unat i;
          recv_block = shm_data_get_block_ptr (sint (rqe_block_offset entry))
      in case recv_from_buffer st recv_block entry of (needed, socket1, m1, entry1, empty1) \<Rightarrow>
           (let recv_op_fulfilled = (\<not> needed > rs_available st)
            in case recv_copy_loop recv_block (rs_next_pbuf st) (rs_offset st) needed (rs_available st)
                      (rs_ackable st) m1 entry1 of
                 (next2, offset2, needed2, available2, ackable2, m2, entry2) \<Rightarrow>
                   (let socket2 = socket1\<lparr>recv_queue_buffer := (recv_queue_buffer socket1)[unat i := entry2]\<rparr>;
                        socket3 =
                          (if recv_op_fulfilled
                           then enqueue_in_cqueue
                                  (socket2\<lparr>recv_queue := snd (ring_buffer_erase_first (recv_queue socket2))\<rparr>)
                                  \<lparr>res_code = TCP_RECV, result_code = PIFUS_OK,
                                   res_data = Res_Recv (rqe_block_offset entry2) 0 None None\<rparr>
                           else socket2)
                    in \<lparr>rs_socket = socket3, rs_mem = m2, rs_next_pbuf = next2, rs_offset = offset2,
                        rs_available = available2, rs_ackable = ackable2, rs_buffer_empty = empty1\<rparr>)))"

text \<open>Lines 70-146.\<close>

partial_function (option) recv_loop :: "recv_state \<Rightarrow> recv_state option" where
  "recv_loop st =
     (case ring_buffer_peek (recv_queue (rs_socket st)) of
        None \<Rightarrow> Some st
      | Some i \<Rightarrow> if rs_available st > 0 \<or> \<not> rs_buffer_empty st
                  then recv_loop (recv_round st i) else Some st)"

text \<open>Lines 155-179: buffer the bytes no request wants.\<close>

fun buffer_loop :: "pifus_socket \<Rightarrow> pbuf list \<Rightarrow> u16 \<Rightarrow> u16 \<Rightarrow> u16 \<Rightarrow> pifus_socket \<times> u16 \<times> u16" where
  "buffer_loop socket [] offset available ackable = (socket, available, ackable)"
| "buffer_loop socket (q # qs) offset available ackable =
     (if available > 0
      then (let len_next_pbuf = pb_len q - offset
            in case byte_buffer_add (recv_buffer socket) (recv_buffer_array socket)
                      (drop (unat offset) (pb_payload q)) len_next_pbuf of
                 (bytes_copied, bb, arr) \<Rightarrow>
                   (let socket1 = socket\<lparr>recv_buffer := bb, recv_buffer_array := arr\<rparr>
                    in if bytes_copied < len_next_pbuf
                       then (socket1, available - bytes_copied, ackable + bytes_copied)
                       else buffer_loop socket1 qs 0 (available - bytes_copied) (ackable + bytes_copied)))
      else (socket, available, ackable))"

text \<open>Lines 148-180.\<close>

definition buffer_rest :: "recv_state \<Rightarrow> pifus_socket \<times> u16 \<times> u16" where
  "buffer_rest rs =
     (if rs_available rs > 0
      then buffer_loop (rs_socket rs) (rs_next_pbuf rs) (rs_offset rs) (rs_available rs) (rs_ackable rs)
      else (rs_socket rs, rs_available rs, rs_ackable rs))"

text \<open>Lines 51-62: the bytes still unread, the node they start in and the offset there.\<close>

definition recv_begin :: "pbuf list \<Rightarrow> u16 \<Rightarrow> u16 \<times> pbuf list \<times> u16" where
  "recv_begin p unread =
     (if unread > 0
      then (case pbuf_skip p unread of (q, off) \<Rightarrow> (pb_tot_len (hd p) - unread, q, off))
      else (pb_tot_len (hd p), p, 0))"

text \<open>
  Lines 30-196. \<open>arg\<close> is the socket pointer lwIP was given, NULL for a connection whose socket the
  application has not created yet; an empty chain is the null pointer lwIP passes when the peer has
  closed.
\<close>

definition tcp_recv_callback ::
    "('l, 'i) lwip_api \<Rightarrow> 'l stack \<Rightarrow> nat option \<Rightarrow> nat option \<Rightarrow> pbuf list \<Rightarrow> err_t \<Rightarrow> (err_t \<times> 'l stack) res option" where
  "tcp_recv_callback api st arg tpcb p err =
     (case arg of
        None \<Rightarrow> Some (Ok (ERR_MEM, st))
      | Some sp \<Rightarrow>
          if err \<noteq> ERR_OK then Some (Ok (err, st))
          else if p = [] then Some (Ok (ERR_OK, st))
          else
            (let socket = socket_regions st sp
             in case app_ptrs st ! unat (app_index socket) of
               None \<Rightarrow> Some (Fault Null_Dereference)
             | Some app \<Rightarrow>
               (let (available, next_pbuf, offset) = recv_begin p (unread_data_offset socket)
                in Option.bind
                     (recv_loop \<lparr>rs_socket = socket, rs_mem = app_regions st app, rs_next_pbuf = next_pbuf,
                        rs_offset = offset, rs_available = available, rs_ackable = 0,
                        rs_buffer_empty = byte_buffer_is_empty (recv_buffer socket)\<rparr>)
                     (\<lambda>rs.
                        (let (socket2, available2, ackable2) = buffer_rest rs;
                             lw1 = lw_tcp_recved api (st_lwip st) tpcb ackable2;
                             st1 = st\<lparr>app_regions := (app_regions st)(app := rs_mem rs)\<rparr>
                         in if available2 > 0
                            then Some (Ok (ERR_MEM,
                              (set_socket st1 sp
                                 (socket2\<lparr>unread_data_offset := pb_tot_len (hd p) - available2\<rparr>))\<lparr>st_lwip := lw1\<rparr>))
                            else Some (Ok (ERR_OK,
                              (set_socket st1 sp (socket2\<lparr>unread_data_offset := 0\<rparr>))
                                \<lparr>st_lwip := lw_pbuf_free api lw1 p\<rparr>)))))))"

text \<open>Lines 198-248.\<close>

definition tx_tcp_recv ::
    "('l, 'i) lwip_api \<Rightarrow> 'l stack \<Rightarrow> internal_operation \<Rightarrow> (tx_result \<times> 'l stack) res" where
  "tx_tcp_recv api st internal_op =
     (let recv_data = op_data (iop_operation internal_op);
          sp = iop_socket internal_op;
          socket = socket_regions st sp;
          lw1 = lw_tcp_recv api (st_lwip st) (pcb socket);
          entry = \<lparr>rqe_size = recv_size recv_data, rqe_block_offset = recv_block_offset recv_data,
                   rqe_data_offset = 0\<rparr>;
          data = Res_Recv (rqe_block_offset entry) (rqe_size entry) None None;
          finish = (\<lambda>so m2 en.
            case ring_buffer_put (recv_queue so) (recv_queue_buffer so) en of
              (ok, rb, buf) \<Rightarrow>
                ((if ok then PIFUS_ASYNC else PIFUS_ERR, data),
                 (set_socket m2 sp (so\<lparr>recv_queue := rb, recv_queue_buffer := buf\<rparr>))\<lparr>st_lwip := lw1\<rparr>))
      in if \<not> byte_buffer_is_empty (recv_buffer socket)
         then (case app_ptrs st ! unat (app_index socket) of
                 None \<Rightarrow> Fault Null_Dereference
               | Some app \<Rightarrow>
                   (let recv_block = shm_data_get_block_ptr (sint (rqe_block_offset entry))
                    in case pop_from_buffer socket (app_regions st app) recv_block entry (ucast (rqe_size entry)) of
                         (n, so, m, en) \<Rightarrow>
                           (let st1 = st\<lparr>app_regions := (app_regions st)(app := m)\<rparr>
                            in if n > 0 \<and> recv_size recv_data = ucast n
                               then Ok ((PIFUS_OK, data), (set_socket st1 sp so)\<lparr>st_lwip := lw1\<rparr>)
                               else Ok (finish so st1 en))))
         else Ok (finish socket st entry))"

section \<open>Requests\<close>

text \<open>
  What a request wants of the loop, which reads its size into a 16 bit variable: the size modulo 65536. The offset
  of the next byte is taken not to wrap at 64 bits.
\<close>

definition rqe_need :: "recv_queue_entry \<Rightarrow> nat" where
  "rqe_need e = unat (ucast (rqe_size e) :: u16)"

lemma rqe_need_mod: "rqe_need e = unat (rqe_size e) mod 65536"
  by (simp add: rqe_need_def unsigned_ucast_eq take_bit_eq_mod)

definition rqe_fit :: "recv_queue_entry \<Rightarrow> bool" where
  "rqe_fit e \<longleftrightarrow> unat (rqe_data_offset e) + rqe_need e < 2 ^ 64"

text \<open>Where the next byte of a request goes, and the request after \<open>n\<close> bytes.\<close>

definition rqe_ptr :: "recv_queue_entry \<Rightarrow> nat" where
  "rqe_ptr e = shm_data_get_data_ptr (shm_data_get_block_ptr (sint (rqe_block_offset e))) + unat (rqe_data_offset e)"

definition advance :: "recv_queue_entry \<Rightarrow> nat \<Rightarrow> recv_queue_entry" where
  "advance e n = e\<lparr>rqe_size := rqe_size e - of_nat n, rqe_data_offset := rqe_data_offset e + of_nat n\<rparr>"

lemma advance_simps [simp]:
  "advance e 0 = e" "advance (advance e m) n = advance e (m + n)"
  "rqe_block_offset (advance e n) = rqe_block_offset e"
  by (simp_all add: advance_def algebra_simps)

lemma consume_advance: "consume e n = advance e (unat n)"
  by (simp add: advance_def consume_def)

lemma ucast_minus_of_nat: "(ucast (w - of_nat n :: u64) :: u16) = ucast w - of_nat n"
proof -
  have "(k mod 2 ^ 64 - j) mod 2 ^ 16 = (k - j) mod 2 ^ 64 mod (2 ^ 16 :: int)" for k j :: int
    by (subst mod_diff_left_eq [symmetric]) (simp add: mod_mod_cancel mod_diff_left_eq)
  then show ?thesis by transfer (simp add: take_bit_eq_mod)
qed

lemma advance_unat:
  assumes "rqe_fit e" "n \<le> rqe_need e"
  shows "rqe_need (advance e n) = rqe_need e - n"
    "unat (rqe_data_offset (advance e n)) = unat (rqe_data_offset e) + n"
    "rqe_ptr (advance e n) = rqe_ptr e + n"
proof -
  have "n < 2 ^ 16" using assms(2) unat_less_u16 [of "ucast (rqe_size e)"] by (simp add: rqe_need_def)
  then have n: "unat (of_nat n :: u16) = n" "unat (of_nat n :: u64) = n"
    by (simp_all add: unat_of_nat take_bit_nat_eq_self)
  have "(ucast (rqe_size e - of_nat n) :: u16) = ucast (rqe_size e) - of_nat n"
    by (simp add: ucast_minus_of_nat)
  then show "rqe_need (advance e n) = rqe_need e - n"
    using assms(2) n(1) by (simp add: advance_def rqe_need_def unat_minus_nat)
  show o: "unat (rqe_data_offset (advance e n)) = unat (rqe_data_offset e) + n"
    using assms n by (simp add: advance_def rqe_fit_def unat_add_lem [THEN iffD1])
  then show "rqe_ptr (advance e n) = rqe_ptr e + n" by (simp add: rqe_ptr_def)
qed

lemma rqe_fit_advance: "rqe_fit e \<Longrightarrow> n \<le> rqe_need e \<Longrightarrow> rqe_fit (advance e n)"
  by (simp add: rqe_fit_def [of "advance e n"] advance_unat) (auto simp: rqe_fit_def)

lemma mstore_append: "mstore (mstore m a xs) (a + length xs) ys = mstore m a (xs @ ys)"
  by (rule ext) (auto simp: mstore_def nth_append)

lemma mstore_Nil [simp]: "mstore m a [] = m"
  by (rule ext) (auto simp: mstore_def)

lemma pop_entry: "(if n > 0 then consume e n else e) = advance e (unat n)"
  by (cases "n = 0") (simp_all add: consume_advance word_neq_0_conv)

lemma pop_from_buffer_eq:
  "pop_from_buffer s m (shm_data_get_block_ptr (sint (rqe_block_offset e))) e len =
     (case byte_buffer_pop (recv_buffer s) (recv_buffer_array s) len of
        (n, out, bb) \<Rightarrow> (n, s\<lparr>recv_buffer := bb\<rparr>, mstore m (rqe_ptr e) out, advance e (unat n)))"
  by (simp add: pop_from_buffer_def Let_def rqe_ptr_def pop_entry [symmetric] split: prod.splits)

lemma pop_from_buffer_spec:
  assumes "sock_inv s" "pop_from_buffer s m (shm_data_get_block_ptr (sint (rqe_block_offset e))) e len = (n, s', m', e')"
  shows "unat n = min (unat len) (length (rbuf_list s))" "m' = mstore m (rqe_ptr e) (take (unat n) (rbuf_list s))"
    "e' = advance e (unat n)" "sock_inv s'" "rbuf_list s' = drop (unat n) (rbuf_list s)"
    "\<exists>bb. s' = s\<lparr>recv_buffer := bb\<rparr> \<and> bb_end bb = bb_end (recv_buffer s)"
proof -
  obtain out bb where p: "byte_buffer_pop (recv_buffer s) (recv_buffer_array s) len = (n, out, bb)"
    and r: "s' = s\<lparr>recv_buffer := bb\<rparr>" "m' = mstore m (rqe_ptr e) out" "e' = advance e (unat n)"
    using assms(2) unfolding pop_from_buffer_eq by (auto split: prod.splits)
  have "bb_inv (recv_buffer s) (recv_buffer_array s)" using assms(1) by (simp add: sock_inv_def)
  note b = byte_buffer_pop_spec [OF this p]
  show "unat n = min (unat len) (length (rbuf_list s))" "m' = mstore m (rqe_ptr e) (take (unat n) (rbuf_list s))"
    "e' = advance e (unat n)" "sock_inv s'" "rbuf_list s' = drop (unat n) (rbuf_list s)"
    "\<exists>bb. s' = s\<lparr>recv_buffer := bb\<rparr> \<and> bb_end bb = bb_end (recv_buffer s)"
    using r b assms(1) by (auto simp: rbuf_list_def sock_inv_def)
qed

lemma copy_combine:
  assumes "rqe_fit e" "a \<le> rqe_need e" "a \<le> length R"
  shows "mstore (mstore m (rqe_ptr e) (take a R)) (rqe_ptr (advance e a)) (take k (drop a R)) =
     mstore m (rqe_ptr e) (take (a + k) R)"
  using assms mstore_append [of m "rqe_ptr e" "take a R" "take k (drop a R)"]
  by (simp add: advance_unat take_add)

text \<open>The copy loop takes as much as the request needs or the chain has.\<close>

lemma recv_copy_loop_spec:
  assumes "pos_ok ps off" "unat avail = length (pos_bytes ps off)" "rqe_fit e" "unat needed \<le> rqe_need e"
    and "blk = shm_data_get_block_ptr (sint (rqe_block_offset e))"
    and "recv_copy_loop blk ps off needed avail ackable m e = (ps', off', needed', avail', ackable', m', e')"
  shows "\<exists>k. k = min (unat needed) (length (pos_bytes ps off)) \<and> pos_ok ps' off'
     \<and> pos_bytes ps' off' = drop k (pos_bytes ps off) \<and> unat avail' = length (pos_bytes ps' off')
     \<and> e' = advance e k \<and> m' = mstore m (rqe_ptr e) (take k (pos_bytes ps off)) \<and> ackable' = ackable + of_nat k"
  using assms
proof (induction ps arbitrary: off needed avail ackable m e)
  case Nil
  then show ?case by (simp add: recv_copy_loop.simps pos_bytes_def)
next
  case (Cons q qs)
  let ?R = "pos_bytes (q # qs) off" and ?ln = "pb_len q - off"
  note sp = pos_split [OF Cons.prems(1)]
  show ?case
  proof (cases "needed > 0")
    case False
    then have "unat needed = 0" by (simp add: unat_pos_iff)
    with Cons.prems False show ?thesis by (auto simp: recv_copy_loop.simps)
  next
    case n: True
    define a where "a = (if ?ln > needed then needed else ?ln)"
    have a: "unat a = min (unat needed) (unat ?ln)" by (auto simp: a_def word_less_nat_alt)
    have aR: "unat a \<le> length ?R" using a sp by simp
    have ua: "unat (needed - a) = unat needed - unat a" "unat (avail - a) = length ?R - unat a"
      using a aR Cons.prems(2) by (simp_all add: unat_minus_nat)
    have src: "take (unat a) (drop (unat off) (pb_payload q)) = take (unat a) ?R"
      using a sp by simp
    let ?m1 = "mstore m (rqe_ptr e) (take (unat a) ?R)" and ?e1 = "advance e (unat a)"
    show ?thesis
    proof (cases "?ln > needed")
      case False
      have al: "a = ?ln" using False by (simp add: a_def)
      have nx: "pos_ok qs 0" "pos_bytes qs 0 = drop (unat a) ?R"
        using Cons.prems(1) sp al by (simp_all add: pos_ok_def)
      have fit: "rqe_fit ?e1" "unat (needed - a) \<le> rqe_need ?e1"
        using Cons.prems(3,4) a ua by (simp_all add: rqe_fit_advance advance_unat)
      have unf: "recv_copy_loop blk (q # qs) off needed avail ackable m e =
          recv_copy_loop blk qs 0 (needed - a) (avail - a) (ackable + a) ?m1 ?e1"
        using src n False Cons.prems(5)
        by (subst recv_copy_loop.simps(2)) (simp add: Let_def al consume_advance rqe_ptr_def)
      have av: "unat (avail - a) = length (pos_bytes qs 0)" using ua(2) nx(2) by simp
      have bl: "blk = shm_data_get_block_ptr (sint (rqe_block_offset ?e1))" using Cons.prems(5) by simp
      have comb: "mstore ?m1 (rqe_ptr ?e1) (take k (drop (unat a) ?R)) = mstore m (rqe_ptr e) (take (unat a + k) ?R)" for k
        using copy_combine [OF Cons.prems(3) _ aR] a Cons.prems(4) by simp
      from Cons.IH [OF nx(1) av fit bl Cons.prems(6) [unfolded unf]] obtain k where
        k: "k = min (unat needed - unat a) (length ?R - unat a)" "pos_ok ps' off'"
        "pos_bytes ps' off' = drop k (drop (unat a) ?R)" "unat avail' = length (pos_bytes ps' off')"
        "e' = advance e (unat a + k)" "m' = mstore m (rqe_ptr e) (take (unat a + k) ?R)"
        "ackable' = ackable + a + of_nat k"
        unfolding nx(2) ua comb by auto
      moreover have "unat a + k = min (unat needed) (length ?R)" using k(1) a aR by linarith
      moreover have "ackable' = ackable + of_nat (unat a + k)" using k(7) by simp
      ultimately show ?thesis by (intro exI [of _ "unat a + k"]) (simp add: add.commute)
    next
      case True
      have al: "a = needed" using True by (simp add: a_def)
      have lt: "unat off + unat needed < unat (pb_len q)" using True sp(3) by (simp add: word_less_nat_alt)
      have o: "unat (off + needed) = unat off + unat needed"
        using lt unat_less_u16 [of "pb_len q"] by (simp add: unat_add_lem [THEN iffD1])
      have "recv_copy_loop blk (q # qs) off needed avail ackable m e =
          (q # qs, off + needed, 0, avail - needed, ackable + needed, ?m1, ?e1)"
        using src n True Cons.prems(5)
        by (subst recv_copy_loop.simps(2)) (simp add: Let_def al consume_advance rqe_ptr_def recv_copy_loop.simps(2))
      with Cons.prems(1,6) lt o al aR ua show ?thesis
        by (auto simp: pos_ok_def pos_bytes_def add.commute)
    qed
  qed
qed

section \<open>One round of the matching loop\<close>

text \<open>
  Requests the loop serves in order: while the byte buffer may hold bytes, every request wants some. Of a request
  that wants none the loop would conclude that the byte buffer is empty.
\<close>

definition rqe_ok :: "bool \<Rightarrow> recv_queue_entry \<Rightarrow> bool" where
  "rqe_ok buffer_empty e \<longleftrightarrow> rqe_fit e \<and> (buffer_empty \<or> 0 < rqe_need e)"

lemma list_rqe_ok_mono: "list_all (rqe_ok b) es \<Longrightarrow> b \<longrightarrow> b' \<Longrightarrow> list_all (rqe_ok b') es"
  by (auto simp: list_all_iff rqe_ok_def)

definition rs_bytes :: "recv_state \<Rightarrow> byte list" where
  "rs_bytes st = pos_bytes (rs_next_pbuf st) (rs_offset st)"

definition rs_inv :: "recv_state \<Rightarrow> bool" where
  "rs_inv st \<longleftrightarrow> sock_inv (rs_socket st) \<and> pos_ok (rs_next_pbuf st) (rs_offset st)
     \<and> unat (rs_available st) = length (rs_bytes st)
     \<and> (rs_buffer_empty st \<longrightarrow> rbuf_list (rs_socket st) = [])"

text \<open>Only the receive buffer of the socket changes when the buffer contributes.\<close>

lemma recv_from_buffer_spec:
  assumes "rs_inv st" "rqe_ok (rs_buffer_empty st) e" "s = rs_socket st"
    and "recv_from_buffer st (shm_data_get_block_ptr (sint (rqe_block_offset e))) e = (needed, s1, m1, e1, empty1)"
  shows "\<exists>n bb. n = min (rqe_need e) (length (rbuf_list s)) \<and> unat needed = rqe_need e - n
     \<and> e1 = advance e n \<and> m1 = mstore (rs_mem st) (rqe_ptr e) (take n (rbuf_list s))
     \<and> s1 = s\<lparr>recv_buffer := bb\<rparr> \<and> bb_end bb = bb_end (recv_buffer s) \<and> sock_inv s1
     \<and> rbuf_list s1 = drop n (rbuf_list s) \<and> (empty1 \<longrightarrow> rbuf_list s1 = [])
     \<and> (rbuf_list s = [] \<longrightarrow> empty1) \<and> (rs_buffer_empty st \<longrightarrow> empty1)"
proof (cases "rs_buffer_empty st")
  case True
  then have "rbuf_list s = []" "sock_inv s" using assms(1,3) by (auto simp: rs_inv_def)
  with assms True show ?thesis
    by (intro exI [of _ 0] exI [of _ "recv_buffer s"])
      (auto simp: recv_from_buffer_def rqe_ok_def rqe_need_def Let_def)
next
  case False
  define len :: u16 where "len = ucast (rqe_size e)"
  obtain n s1' m1' e1' where p: "pop_from_buffer s (rs_mem st)
      (shm_data_get_block_ptr (sint (rqe_block_offset e))) e len = (n, s1', m1', e1')" by (metis prod_cases4)
  have "sock_inv s" using assms(1,3) by (simp add: rs_inv_def)
  note ps = pop_from_buffer_spec [OF this p]
  have ul: "unat len = rqe_need e" by (simp add: len_def rqe_need_def)
  have r: "needed = len - n" "s1 = s1'" "m1 = m1'" "e1 = e1'" "empty1 \<longleftrightarrow> n = 0"
    using assms(3,4) False p word_gt_0 [of n]
    by (auto simp: recv_from_buffer_def Let_def len_def [symmetric] split: if_splits)
  have "unat needed = rqe_need e - unat n" using r(1) ps(1) ul by (simp add: unat_minus_nat)
  moreover have "n = 0 \<longleftrightarrow> rbuf_list s = []"
    using ps(1) ul assms(2) False by (auto simp: rqe_ok_def word_eq_iff_unat min_def split: if_splits)
  ultimately show ?thesis using ps ul r False by (intro exI [of _ "unat n"]) auto
qed

definition recv_result :: "u64 \<Rightarrow> operation_result" where
  "recv_result off = \<lparr>res_code = TCP_RECV, result_code = PIFUS_OK, res_data = Res_Recv off 0 None None\<rparr>"

text \<open>The fields of a socket that the matching loop never touches.\<close>

definition same_frame :: "pifus_socket \<Rightarrow> pifus_socket \<Rightarrow> bool" where
  "same_frame s s' \<longleftrightarrow> sq_list s' = sq_list s \<and> wq_list s' = wq_list s \<and> cq_cap s' = cq_cap s
     \<and> bb_end (recv_buffer s') = bb_end (recv_buffer s) \<and> app_index s' = app_index s
     \<and> unread_data_offset s' = unread_data_offset s"

lemma same_frame_refl [simp]: "same_frame s s"
  by (simp add: same_frame_def)

lemma same_frame_trans: "same_frame s s' \<Longrightarrow> same_frame s' s'' \<Longrightarrow> same_frame s s''"
  by (simp add: same_frame_def)

text \<open>The queue side of a round: the request at the head is replaced or completed.\<close>

lemma finish_request:
  fixes e' :: recv_queue_entry and r :: operation_result
  assumes "sock_inv s" "rq_list s = e # es" "i = rb_tail (recv_queue s)"
  defines "s2 \<equiv> s\<lparr>recv_queue_buffer := (recv_queue_buffer s)[unat i := e']\<rparr>"
  defines "s3 \<equiv> enqueue_in_cqueue (s2\<lparr>recv_queue := snd (ring_buffer_erase_first (recv_queue s2))\<rparr>) r"
  shows "sock_inv s2" "rq_list s2 = e' # es" "cq_list s2 = cq_list s" "rbuf_list s2 = rbuf_list s" "same_frame s s2"
    "sock_inv s3" "rq_list s3 = es" "cq_list s3 = take (cq_cap s) (cq_list s @ [r])" "rbuf_list s3 = rbuf_list s"
    "same_frame s s3"
proof -
  have inv: "rb_inv (recv_queue s) (recv_queue_buffer s)" "rb_list (recv_queue s) (recv_queue_buffer s) = e # es"
    using assms(1,2) by (auto simp: sock_inv_def rq_list_def)
  note h = rb_head_slot(3,4) [OF inv, of e'] and h2 = rb_head_slot(5,6) [OF rb_head_slot(3,4) [OF inv, of e']]
  show s2: "sock_inv s2" "rq_list s2 = e' # es" "cq_list s2 = cq_list s" "rbuf_list s2 = rbuf_list s" "same_frame s s2"
    using assms(1,3) h by (auto simp: s2_def sock_inv_def sock_views same_frame_def)
  let ?s = "s2\<lparr>recv_queue := snd (ring_buffer_erase_first (recv_queue s2))\<rparr>"
  have i: "sock_inv ?s" "rq_list ?s = es" "cq_list ?s = cq_list s" "cq_cap ?s = cq_cap s"
    "rbuf_list ?s = rbuf_list s" "same_frame s ?s"
    using assms(1,3) h2 by (auto simp: s2_def sock_inv_def sock_views same_frame_def)
  note q = enqueue_in_cqueue_spec [OF i(1), of r]
  show "sock_inv s3" "rq_list s3 = es" "cq_list s3 = take (cq_cap s) (cq_list s @ [r])" "rbuf_list s3 = rbuf_list s"
    "same_frame s s3"
    using q i by (auto simp: s3_def same_frame_def)
qed

text \<open>The two sources of a round in sequence: the byte buffer, then the chain.\<close>

lemma recv_sources:
  assumes inv: "rs_inv st" and s: "s = rs_socket st" and ok: "rqe_ok (rs_buffer_empty st) e"
    and b: "recv_from_buffer st blk e = (needed, s1, m1, e1, empty1)"
    and blk: "blk = shm_data_get_block_ptr (sint (rqe_block_offset e))"
    and c: "recv_copy_loop blk (rs_next_pbuf st) (rs_offset st) needed (rs_available st) (rs_ackable st) m1 e1
       = (next2, off2, needed2, avail2, ack2, m2, e2)"
  defines "D \<equiv> rbuf_list s @ rs_bytes st"
  defines "k \<equiv> min (rqe_need e) (length D)"
  shows "pos_ok next2 off2" "pos_bytes next2 off2 = drop (k - length (rbuf_list s)) (rs_bytes st)"
    "unat avail2 = length (pos_bytes next2 off2)" "e2 = advance e k" "m2 = mstore (rs_mem st) (rqe_ptr e) (take k D)"
    "ack2 = rs_ackable st + of_nat (length (rs_bytes st) - length (pos_bytes next2 off2))"
    "(\<not> needed > rs_available st) \<longleftrightarrow> rqe_need e \<le> length D"
proof -
  obtain n where n: "n = min (rqe_need e) (length (rbuf_list s))" "unat needed = rqe_need e - n"
    "e1 = advance e n" "m1 = mstore (rs_mem st) (rqe_ptr e) (take n (rbuf_list s))"
    using recv_from_buffer_spec [OF inv ok s b [unfolded blk]] by blast
  have fit: "rqe_fit e" "n \<le> rqe_need e" using ok n(1) by (simp_all add: rqe_ok_def)
  have e1: "rqe_fit e1" "unat needed \<le> rqe_need e1" "blk = shm_data_get_block_ptr (sint (rqe_block_offset e1))"
    using fit n blk by (simp_all add: rqe_fit_advance advance_unat)
  have av: "pos_ok (rs_next_pbuf st) (rs_offset st)"
    "unat (rs_available st) = length (pos_bytes (rs_next_pbuf st) (rs_offset st))"
    using inv by (simp_all add: rs_inv_def rs_bytes_def)
  from recv_copy_loop_spec [OF av e1 c] obtain j where
    j: "j = min (unat needed) (length (rs_bytes st))" "pos_ok next2 off2" "pos_bytes next2 off2 = drop j (rs_bytes st)"
    "unat avail2 = length (pos_bytes next2 off2)" "e2 = advance e (n + j)"
    "m2 = mstore m1 (rqe_ptr e1) (take j (rs_bytes st))" "ack2 = rs_ackable st + of_nat j"
    using n(3) by (auto simp: rs_bytes_def)
  have kj: "k = n + j" "j = k - length (rbuf_list s)" using n(1,2) j(1) unfolding k_def D_def length_append by linarith+
  show "pos_ok next2 off2" "unat avail2 = length (pos_bytes next2 off2)" using j by simp_all
  show "pos_bytes next2 off2 = drop (k - length (rbuf_list s)) (rs_bytes st)"
    using j(3) unfolding kj(2) [symmetric] .
  show "e2 = advance e k" using j(5) unfolding kj(1) .
  show "ack2 = rs_ackable st + of_nat (length (rs_bytes st) - length (pos_bytes next2 off2))"
    using j(1,3,7) by (simp add: min_def)
  have "take k D = take n (rbuf_list s) @ take j (rs_bytes st)"
    unfolding kj(1) D_def using n(1,2) j(1) by (cases "rqe_need e \<le> length (rbuf_list s)") auto
  moreover have "rqe_ptr e1 = rqe_ptr e + length (take n (rbuf_list s))"
    using n(1,3) fit by (simp add: advance_unat)
  ultimately show "m2 = mstore (rs_mem st) (rqe_ptr e) (take k D)"
    using j(6) n(4) by (simp only: mstore_append)
  show "(\<not> needed > rs_available st) \<longleftrightarrow> rqe_need e \<le> length D"
    using n(1,2) av(2) by (auto simp: word_less_nat_alt D_def rs_bytes_def)
qed

lemma recv_round_spec:
  assumes inv: "rs_inv st" and s: "s = rs_socket st" and q: "rq_list s = e # es" and ok: "rqe_ok (rs_buffer_empty st) e"
  defines "D \<equiv> rbuf_list s @ rs_bytes st"
  defines "k \<equiv> min (rqe_need e) (length D)"
  defines "st' \<equiv> recv_round st (rb_tail (recv_queue s))"
  shows "rs_inv st'" "rs_mem st' = mstore (rs_mem st) (rqe_ptr e) (take k D)"
    "rbuf_list (rs_socket st') = drop k (rbuf_list s)" "rs_bytes st' = drop (k - length (rbuf_list s)) (rs_bytes st)"
    "rq_list (rs_socket st') = (if rqe_need e \<le> length D then es else advance e k # es)"
    "cq_list (rs_socket st') =
       (if rqe_need e \<le> length D then take (cq_cap s) (cq_list s @ [recv_result (rqe_block_offset e)])
        else cq_list s)"
    "same_frame s (rs_socket st')" "D = [] \<Longrightarrow> rs_buffer_empty st'" "rs_buffer_empty st \<Longrightarrow> rs_buffer_empty st'"
    "rs_ackable st' = rs_ackable st + of_nat (length (rs_bytes st) - length (rs_bytes st'))"
proof -
  define blk where "blk = shm_data_get_block_ptr (sint (rqe_block_offset e))"
  let ?i = "rb_tail (recv_queue s)"
  have si: "sock_inv s" using inv s by (simp add: rs_inv_def)
  have slot: "recv_queue_buffer s ! unat ?i = e"
    using rb_head_slot(2) [of "recv_queue s" "recv_queue_buffer s"] si q by (simp add: sock_inv_def rq_list_def)
  obtain needed s1 m1 e1 empty1 where b: "recv_from_buffer st blk e = (needed, s1, m1, e1, empty1)"
    by (metis prod_cases5)
  obtain next2 off2 needed2 avail2 ack2 m2 e2 where
    c: "recv_copy_loop blk (rs_next_pbuf st) (rs_offset st) needed (rs_available st) (rs_ackable st) m1 e1
       = (next2, off2, needed2, avail2, ack2, m2, e2)" by (metis prod_cases7)
  obtain n bb where n: "n = min (rqe_need e) (length (rbuf_list s))" "s1 = s\<lparr>recv_buffer := bb\<rparr>"
    "bb_end bb = bb_end (recv_buffer s)" "sock_inv s1" "rbuf_list s1 = drop n (rbuf_list s)"
    "empty1 \<longrightarrow> rbuf_list s1 = []" "rbuf_list s = [] \<longrightarrow> empty1" "rs_buffer_empty st \<longrightarrow> empty1"
    using recv_from_buffer_spec [OF inv ok s b [unfolded blk_def]] by blast
  note src = recv_sources [OF inv s ok b blk_def c, folded D_def, folded k_def]
  have s1: "rq_list s1 = e # es" "recv_queue s1 = recv_queue s" "cq_list s1 = cq_list s" "cq_cap s1 = cq_cap s" "same_frame s s1"
    using n(2,3) q by (auto simp: sock_views same_frame_def)
  note f = finish_request [OF n(4) s1(1) refl, unfolded s1(2-4)]
  define s2 where "s2 = s1\<lparr>recv_queue_buffer := (recv_queue_buffer s1)[unat ?i := advance e k]\<rparr>"
  define s3 where "s3 = (if rqe_need e \<le> length D
     then enqueue_in_cqueue (s2\<lparr>recv_queue := snd (ring_buffer_erase_first (recv_queue s2))\<rparr>)
       (recv_result (rqe_block_offset e)) else s2)"
  have st': "st' = \<lparr>rs_socket = s3, rs_mem = m2, rs_next_pbuf = next2, rs_offset = off2,
      rs_available = avail2, rs_ackable = ack2, rs_buffer_empty = empty1\<rparr>"
    using b c src(4,7) slot s
    by (simp add: st'_def recv_round_def blk_def [symmetric] s3_def s2_def recv_result_def)
  have dn: "drop n (rbuf_list s) = drop k (rbuf_list s)" by (auto simp: n(1) k_def D_def min_def)
  have s3: "sock_inv s3" "rbuf_list s3 = drop k (rbuf_list s)" "same_frame s s3"
    "rq_list s3 = (if rqe_need e \<le> length D then es else advance e k # es)"
    "cq_list s3 = (if rqe_need e \<le> length D then take (cq_cap s) (cq_list s @ [recv_result (rqe_block_offset e)])
        else cq_list s)"
    using f [of "advance e k"] n(5) dn same_frame_trans [OF s1(5)] by (auto simp: s3_def s2_def)
  show "rs_inv st'" "rs_mem st' = mstore (rs_mem st) (rqe_ptr e) (take k D)"
    "rbuf_list (rs_socket st') = drop k (rbuf_list s)" "rs_bytes st' = drop (k - length (rbuf_list s)) (rs_bytes st)"
    "rq_list (rs_socket st') = (if rqe_need e \<le> length D then es else advance e k # es)"
    "cq_list (rs_socket st') =
       (if rqe_need e \<le> length D then take (cq_cap s) (cq_list s @ [recv_result (rqe_block_offset e)])
        else cq_list s)"
    "same_frame s (rs_socket st')" "D = [] \<Longrightarrow> rs_buffer_empty st'" "rs_buffer_empty st \<Longrightarrow> rs_buffer_empty st'"
    "rs_ackable st' = rs_ackable st + of_nat (length (rs_bytes st) - length (rs_bytes st'))"
    using src s3 n dn by (auto simp: st' rs_inv_def rs_bytes_def D_def)
qed

section \<open>The matching loop\<close>

text \<open>
  The abstract distribution: the waiting requests take the bytes in order; the result lists the
  stores into the blocks, the blocks completed, the requests still waiting and the bytes left over.
\<close>

fun fill :: "recv_queue_entry list \<Rightarrow> byte list \<Rightarrow>
    (nat \<times> byte list) list \<times> u64 list \<times> recv_queue_entry list \<times> byte list" where
  "fill [] D = ([], [], [], D)"
| "fill (e # es) D =
     (if D = [] then ([], [], e # es, [])
      else if rqe_need e \<le> length D
      then (case fill es (drop (rqe_need e) D) of
              (ws, cs, rest, D') \<Rightarrow>
                ((rqe_ptr e, take (rqe_need e) D) # ws, rqe_block_offset e # cs, rest, D'))
      else ([(rqe_ptr e, D)], [], advance e (length D) # es, []))"

definition stores :: "mem \<Rightarrow> (nat \<times> byte list) list \<Rightarrow> mem" where
  "stores = foldl (\<lambda>m (a, bs). mstore m a bs)"

lemma stores_simps [simp]: "stores m [] = m" "stores m ((a, bs) # ws) = stores (mstore m a bs) ws"
  by (simp_all add: stores_def)

lemma rq_peek:
  "sock_inv s \<Longrightarrow> ring_buffer_peek (recv_queue s) = (if rq_list s = [] then None else Some (rb_tail (recv_queue s)))"
  using peek_spec(1) [of "recv_queue s" "recv_queue_buffer s"] by (simp add: sock_inv_def rq_list_def)

text \<open>Nothing happens any more when neither buffer nor chain has bytes.\<close>

lemma recv_loop_drained:
  assumes "rs_inv st" "list_all (rqe_ok (rs_buffer_empty st)) (rq_list (rs_socket st))" "rbuf_list (rs_socket st) = []" "rs_bytes st = []"
  shows "\<exists>st'. recv_loop st = Some st' \<and> rs_inv st' \<and> rs_mem st' = rs_mem st \<and> rbuf_list (rs_socket st') = []
     \<and> rs_bytes st' = [] \<and> rq_list (rs_socket st') = rq_list (rs_socket st)
     \<and> cq_list (rs_socket st') = cq_list (rs_socket st) \<and> same_frame (rs_socket st) (rs_socket st')
     \<and> rs_ackable st' = rs_ackable st"
proof -
  let ?s = "rs_socket st"
  have si: "sock_inv ?s" "rs_available st = 0" using assms(1,4) by (auto simp: rs_inv_def unat_eq_zero)
  show ?thesis
  proof (cases "rq_list ?s = [] \<or> rs_buffer_empty st")
    case True
    then have "recv_loop st = Some st" using si by (auto simp: recv_loop.simps rq_peek)
    with assms show ?thesis by simp
  next
    case False
    then obtain e es where q: "rq_list ?s = e # es" by (cases "rq_list ?s") auto
    have ok: "rqe_ok (rs_buffer_empty st) e" using assms(2) q by simp
    note r = recv_round_spec [OF assms(1) refl q ok, unfolded assms(3,4)]
    let ?st' = "recv_round st (rb_tail (recv_queue ?s))"
    have sz: "\<not> rqe_need e \<le> 0" using ok False by (simp add: rqe_ok_def)
    have l: "recv_loop st = recv_loop ?st'" using False q si by (subst recv_loop.simps) (simp add: rq_peek)
    have "sock_inv (rs_socket ?st')" "rs_available ?st' = 0" "rs_buffer_empty ?st'"
      using r(1,4,8) by (auto simp: rs_inv_def unat_eq_zero)
    then have "recv_loop ?st' = Some ?st'" by (subst recv_loop.simps) (simp add: rq_peek)
    with l r q sz show ?thesis by simp
  qed
qed

lemma cq_bound: "sock_inv s \<Longrightarrow> length (cq_list s) \<le> cq_cap s"
  using rb_count_bound [of "cqueue s" "cqueue_buffer s"] by (simp add: sock_inv_def sock_views)

lemma recv_loop_spec:
  assumes "rs_inv st" "list_all (rqe_ok (rs_buffer_empty st)) (rq_list (rs_socket st))" "s = rs_socket st"
    and "fill (rq_list s) (rbuf_list s @ rs_bytes st) = (ws, cs, rest, D')"
  shows "\<exists>st'. recv_loop st = Some st' \<and> rs_inv st' \<and> rs_mem st' = stores (rs_mem st) ws
     \<and> rbuf_list (rs_socket st') @ rs_bytes st' = D' \<and> rq_list (rs_socket st') = rest
     \<and> cq_list (rs_socket st') = take (cq_cap s) (cq_list s @ map recv_result cs) \<and> same_frame s (rs_socket st')
     \<and> length (rs_bytes st') \<le> length (rs_bytes st)
     \<and> rs_ackable st' = rs_ackable st + of_nat (length (rs_bytes st) - length (rs_bytes st'))"
  using assms
proof (induction "rq_list s" arbitrary: st s ws cs)
  case Nil
  have "length (cq_list s) \<le> cq_cap s"
    using Nil.prems(1,3) rb_count_bound [of "cqueue s" "cqueue_buffer s"]
    by (simp add: rs_inv_def sock_inv_def sock_views)
  moreover have "recv_loop st = Some st"
    using Nil.prems(1,3) Nil.hyps by (simp add: recv_loop.simps rq_peek rs_inv_def)
  ultimately show ?case using Nil by auto
next
  case (Cons e es)
  note q = Cons.hyps(2) [symmetric]
  have ok: "rqe_ok (rs_buffer_empty st) e" "list_all (rqe_ok (rs_buffer_empty st)) es" using Cons.prems(2,3) q by auto
  have si: "sock_inv s" using Cons.prems(1,3) by (simp add: rs_inv_def)
  let ?D = "rbuf_list s @ rs_bytes st" and ?st' = "recv_round st (rb_tail (recv_queue s))"
  note r = recv_round_spec [OF Cons.prems(1,3) q ok(1)]
  show ?case
  proof (cases "?D = []")
    case True
    have f: "ws = []" "cs = []" "rest = rq_list s" "D' = []" using True q Cons.prems(4) by auto
    have "rbuf_list (rs_socket st) = []" "rs_bytes st = []" using True Cons.prems(3) by auto
    from recv_loop_drained [OF Cons.prems(1,2) this] f cq_bound [OF si] True Cons.prems(3) show ?thesis by auto
  next
    case False
    have "rs_available st > 0 \<or> \<not> rs_buffer_empty st"
      using False Cons.prems(1,3) by (auto simp: rs_inv_def word_gt_0 word_eq_iff_unat)
    then have l: "recv_loop st = recv_loop ?st'"
      using q si Cons.prems(3) by (subst recv_loop.simps) (simp add: rq_peek)
    let ?k = "min (rqe_need e) (length ?D)" and ?s' = "rs_socket ?st'"
    have D': "rbuf_list ?s' @ rs_bytes ?st' = drop ?k ?D" using r(3,4) by simp
    have le: "length (rs_bytes ?st') \<le> length (rs_bytes st)" using r(4) by simp
    show ?thesis
    proof (cases "rqe_need e \<le> length ?D")
      case True
      obtain ws' cs' where f: "fill es (drop (rqe_need e) ?D) = (ws', cs', rest, D')"
        "ws = (rqe_ptr e, take (rqe_need e) ?D) # ws'" "cs = rqe_block_offset e # cs'"
        using Cons.prems(4) True False unfolding q by (auto split: prod.splits)
      have rq: "es = rq_list ?s'" using r(5) True by simp
      have "fill (rq_list ?s') (rbuf_list ?s' @ rs_bytes ?st') = (ws', cs', rest, D')"
        using f(1) D' True rq by (simp add: min_def)
      moreover have "list_all (rqe_ok (rs_buffer_empty ?st')) (rq_list ?s')"
        using list_rqe_ok_mono [OF ok(2)] r(9) unfolding rq [symmetric] by blast
      ultimately obtain st2 where
        st2: "recv_loop ?st' = Some st2" "rs_inv st2" "rs_mem st2 = stores (rs_mem ?st') ws'"
        "rbuf_list (rs_socket st2) @ rs_bytes st2 = D'" "rq_list (rs_socket st2) = rest"
        "cq_list (rs_socket st2) = take (cq_cap ?s') (cq_list ?s' @ map recv_result cs')"
        "same_frame ?s' (rs_socket st2)" "length (rs_bytes st2) \<le> length (rs_bytes ?st')"
        "rs_ackable st2 = rs_ackable ?st' + of_nat (length (rs_bytes ?st') - length (rs_bytes st2))"
        using Cons.hyps(1) [OF rq r(1) _ refl] by blast
      have cq: "take (cq_cap ?s') (cq_list ?s' @ map recv_result cs') = take (cq_cap s) (cq_list s @ map recv_result cs)"
        using r(6,7) True f(3) take_append_push [OF cq_bound [OF si], of "[recv_result (rqe_block_offset e)]" "map recv_result cs'"]
        by (simp add: same_frame_def del: take_append)
      have ack: "rs_ackable st2 = rs_ackable st + of_nat (length (rs_bytes st) - length (rs_bytes st2))"
        using st2(8,9) le r(10) by (simp add: of_nat_diff)
      have mem: "rs_mem st2 = stores (rs_mem st) ws" using st2(3) r(2) f(2) True by (simp add: min_def)
      show ?thesis
        using l st2(1,2,4,5,6,8) cq ack mem le same_frame_trans [OF r(7) st2(7)] by auto
    next
      case f: False
      have ws: "ws = [(rqe_ptr e, ?D)]" "cs = []" "rest = advance e (length ?D) # es" "D' = []"
        using Cons.prems(4) f False unfolding q by auto
      have dr: "rbuf_list ?s' = []" "rs_bytes ?st' = []" using D' f by auto
      have rq: "rq_list ?s' = rest" using r(5) f ws(3) by simp
      have "rqe_ok b (advance e (length ?D))" for b
        using f ok(1) by (simp add: rqe_ok_def rqe_fit_advance advance_unat)
      moreover have "list_all (rqe_ok (rs_buffer_empty ?st')) es" using list_rqe_ok_mono [OF ok(2)] r(9) by blast
      ultimately have "list_all (rqe_ok (rs_buffer_empty ?st')) (rq_list ?s')" using rq ws(3) by simp
      from recv_loop_drained [OF r(1) this dr] obtain st2 where
        st2: "recv_loop ?st' = Some st2" "rs_inv st2" "rs_mem st2 = rs_mem ?st'" "rbuf_list (rs_socket st2) = []"
        "rs_bytes st2 = []" "rq_list (rs_socket st2) = rest" "cq_list (rs_socket st2) = cq_list s"
        "same_frame ?s' (rs_socket st2)" "rs_ackable st2 = rs_ackable ?st'"
        using rq r(6) f by auto
      have mem: "rs_mem st2 = stores (rs_mem st) ws" using st2(3) r(2) f ws(1) by (simp add: min_def)
      have "rs_ackable st2 = rs_ackable st + of_nat (length (rs_bytes st) - length (rs_bytes st2))"
        using st2(5,9) r(10) dr(2) by simp
      then show ?thesis
        using l st2(1,2,4,5,6,7) mem ws(2,4) cq_bound [OF si] same_frame_trans [OF r(7) st2(8)] by auto
    qed
  qed
qed

section \<open>Buffering the rest\<close>

lemma buffer_step:
  assumes "sock_inv s" "unat len \<le> length xs"
    and "byte_buffer_add (recv_buffer s) (recv_buffer_array s) xs len = (n, bb, arr)"
  defines "s1 \<equiv> s\<lparr>recv_buffer := bb, recv_buffer_array := arr\<rparr>"
  shows "unat n = min (unat len) (bb_room (recv_buffer s))" "sock_inv s1"
    "rbuf_list s1 = rbuf_list s @ take (unat n) xs" "bb_room bb = bb_room (recv_buffer s) - unat n"
    "same_frame s s1" "rq_list s1 = rq_list s" "cq_list s1 = cq_list s"
proof -
  have inv: "bb_inv (recv_buffer s) (recv_buffer_array s)" using assms(1) by (simp add: sock_inv_def)
  note a = byte_buffer_add_spec [OF inv assms(2,3)]
  have "bb_count bb = bb_count (recv_buffer s) + unat n"
    using arg_cong [OF a(4), of length] a(1) assms(2) by simp
  with a assms(1) show "unat n = min (unat len) (bb_room (recv_buffer s))" "sock_inv s1"
    "rbuf_list s1 = rbuf_list s @ take (unat n) xs" "bb_room bb = bb_room (recv_buffer s) - unat n"
    "same_frame s s1" "rq_list s1 = rq_list s" "cq_list s1 = cq_list s"
    by (auto simp: s1_def sock_inv_def sock_views same_frame_def bb_room_def)
qed

lemma buffer_loop_spec:
  assumes "sock_inv s" "pos_ok ps off" "unat avail = length (pos_bytes ps off)"
    and "buffer_loop s ps off avail ack = (s', avail', ack')"
  shows "\<exists>j. j = min (length (pos_bytes ps off)) (bb_room (recv_buffer s)) \<and> sock_inv s'
     \<and> rbuf_list s' = rbuf_list s @ take j (pos_bytes ps off) \<and> unat avail' = length (pos_bytes ps off) - j
     \<and> ack' = ack + of_nat j \<and> same_frame s s' \<and> rq_list s' = rq_list s \<and> cq_list s' = cq_list s"
  using assms
proof (induction s ps off avail ack rule: buffer_loop.induct)
  case (1 s off avail ack)
  then show ?case by (simp add: pos_bytes_def)
next
  case (2 s q qs off avail ack)
  let ?R = "pos_bytes (q # qs) off" and ?ln = "pb_len q - off" and ?xs = "drop (unat off) (pb_payload q)"
  note sp = pos_split [OF "2.prems"(2)]
  show ?case
  proof (cases "avail > 0")
    case False
    then have "avail = 0" using word_gt_0 by blast
    with "2.prems" show ?thesis by auto
  next
    case True
    obtain n bb arr where a: "byte_buffer_add (recv_buffer s) (recv_buffer_array s) ?xs ?ln = (n, bb, arr)"
      by (metis prod_cases3)
    have "unat ?ln \<le> length ?xs" using sp(2) by simp
    note b = buffer_step [OF "2.prems"(1) this a]
    let ?s1 = "s\<lparr>recv_buffer := bb, recv_buffer_array := arr\<rparr>"
    have av: "unat (avail - n) = length ?R - unat n"
      using "2.prems"(3) b(1) sp by (simp add: unat_minus_nat)
    show ?thesis
    proof (cases "n < ?ln")
      case lt: True
      with "2.prems"(4) True a have r: "s' = ?s1" "avail' = avail - n" "ack' = ack + n"
        by (simp_all add: Let_def)
      have "unat n = min (length ?R) (bb_room (recv_buffer s))"
        using lt b(1) sp by (simp add: word_less_nat_alt)
      moreover have "take (unat n) ?xs = take (unat n) ?R" using b(1) sp by simp
      moreover have "ack' = ack + of_nat (unat n)" using r(3) by simp
      ultimately show ?thesis
        using r(1,2) b(2,3,5-7) av by (intro exI [of _ "unat n"]) simp
    next
      case ge: False
      have n: "unat n = unat ?ln" "n = ?ln" using ge b(1) by (auto simp: word_less_nat_alt word_eq_iff_unat)
      have r: "buffer_loop ?s1 qs 0 (avail - n) (ack + n) = (s', avail', ack')"
        using "2.prems"(4) True a ge by (simp add: Let_def)
      have nx: "pos_ok qs 0" "unat (avail - n) = length (pos_bytes qs 0)" "?R = ?xs @ pos_bytes qs 0" "length ?xs = unat n"
        using "2.prems"(2) sp n av by (simp_all add: pos_ok_def)
      have ih: "\<exists>j. j = min (length (pos_bytes qs 0)) (bb_room (recv_buffer ?s1)) \<and> sock_inv s'
         \<and> rbuf_list s' = rbuf_list ?s1 @ take j (pos_bytes qs 0) \<and> unat avail' = length (pos_bytes qs 0) - j
         \<and> ack' = ack + n + of_nat j \<and> same_frame ?s1 s' \<and> rq_list s' = rq_list ?s1 \<and> cq_list s' = cq_list ?s1"
        by (rule "2.IH" [OF True refl a [symmetric] refl refl ge b(2) nx(1,2) r])
      then obtain j where j: "j = min (length (pos_bytes qs 0)) (bb_room bb)" "sock_inv s'"
        "rbuf_list s' = rbuf_list ?s1 @ take j (pos_bytes qs 0)" "unat avail' = length (pos_bytes qs 0) - j"
        "ack' = ack + n + of_nat j" "same_frame ?s1 s'" "rq_list s' = rq_list ?s1" "cq_list s' = cq_list ?s1" by auto
      have jn: "unat n + j = min (length ?R) (bb_room (recv_buffer s))"
        using j(1) b(1,4) nx(3,4) n by simp
      have ack: "ack' = ack + of_nat (unat n + j)" using j(5) by simp
      have rb: "rbuf_list s' = rbuf_list s @ take (unat n + j) ?R" using j(3) b(3) nx(3,4) by simp
      show ?thesis
        using jn ack rb j(2,4,7,8) nx(3,4) b(6,7) same_frame_trans [OF b(5) j(6)]
        by (intro exI [of _ "unat n + j"]) simp
    qed
  qed
qed

section \<open>The callback\<close>

lemma fill_conserves:
  assumes "fill es D = (ws, cs, rest, D')"
  shows "concat (map snd ws) @ D' = D" "rest = [] \<or> D' = []"
proof -
  have "concat (map snd ws) @ D' = D \<and> (rest = [] \<or> D' = [])"
    using assms
  proof (induction es D arbitrary: ws cs rest D' rule: fill.induct)
    case (2 e es D)
    show ?case
    proof (cases "D \<noteq> [] \<and> rqe_need e \<le> length D")
      case True
      then obtain ws' cs' where f: "fill es (drop (rqe_need e) D) = (ws', cs', rest, D')"
        "ws = (rqe_ptr e, take (rqe_need e) D) # ws'"
        using "2.prems" by (auto split: prod.splits)
      from "2.IH" [OF _ _ f(1)] f(2) True show ?thesis by simp
    next
      case False
      with "2.prems" show ?thesis by (auto split: if_splits)
    qed
  qed simp
  then show "concat (map snd ws) @ D' = D" "rest = [] \<or> D' = []" by blast+
qed

text \<open>What the callback reads of the chain at its start (lines 55-62).\<close>

lemma recv_start:
  assumes "pchain_inv p" "p \<noteq> []" "unat u \<le> length (chain_bytes p)"
    and "recv_begin p u = (avail, nxt, off)"
  shows "pos_ok nxt off" "pos_bytes nxt off = drop (unat u) (chain_bytes p)"
    "unat avail = length (chain_bytes p) - unat u"
proof -
  have t: "unat (pb_tot_len (hd p)) = length (chain_bytes p)"
    using assms(1,2) pchain_tot_len by (cases p) auto
  have "pos_ok nxt off \<and> pos_bytes nxt off = drop (unat u) (chain_bytes p)
      \<and> unat avail = length (chain_bytes p) - unat u"
  proof (cases "u > 0")
    case True
    obtain q o' where sk: "pbuf_skip p u = (q, o')" by force
    with assms(3,4) True t pbuf_skip_spec [OF assms(1) sk] show ?thesis
      by (auto simp: unat_minus_nat recv_begin_def)
  next
    case False
    then have "u = 0" using word_gt_0 by blast
    with assms(1,4) t show ?thesis by (auto simp: recv_begin_def)
  qed
  then show "pos_ok nxt off" "pos_bytes nxt off = drop (unat u) (chain_bytes p)"
    "unat avail = length (chain_bytes p) - unat u" by blast+
qed

text \<open>Matching and buffering together, on the local state of the callback.\<close>

lemma recv_distribute:
  assumes "rs_inv st" "list_all (rqe_ok (rs_buffer_empty st)) (rq_list (rs_socket st))" "s = rs_socket st" "rs_ackable st = 0"
    and "fill (rq_list s) (rbuf_list s @ rs_bytes st) = (ws, cs, rest, D')"
  obtains st' s2 av2 ack2 where "recv_loop st = Some st'" "rs_mem st' = stores (rs_mem st) ws"
    "buffer_rest st' = (s2, av2, ack2)"
    "sock_inv s2" "rq_list s2 = rest" "cq_list s2 = take (cq_cap s) (cq_list s @ map recv_result cs)"
    "rbuf_list s2 = take (unat (bb_end (recv_buffer s)) - 1) D'"
    "unat av2 = length D' - (unat (bb_end (recv_buffer s)) - 1)"
    "ack2 = of_nat (length (rs_bytes st) - unat av2)" "same_frame s s2"
proof -
  let ?cap = "unat (bb_end (recv_buffer s)) - 1"
  obtain st' where l: "recv_loop st = Some st'" "rs_inv st'" "rs_mem st' = stores (rs_mem st) ws"
    "rbuf_list (rs_socket st') @ rs_bytes st' = D'" "rq_list (rs_socket st') = rest"
    "cq_list (rs_socket st') = take (cq_cap s) (cq_list s @ map recv_result cs)" "same_frame s (rs_socket st')"
    "length (rs_bytes st') \<le> length (rs_bytes st)"
    "rs_ackable st' = of_nat (length (rs_bytes st) - length (rs_bytes st'))"
    using recv_loop_spec [OF assms(1,2,3,5)] assms(4) by auto
  let ?s = "rs_socket st'"
  have si: "sock_inv ?s" "pos_ok (rs_next_pbuf st') (rs_offset st')"
    "unat (rs_available st') = length (pos_bytes (rs_next_pbuf st') (rs_offset st'))"
    using l(2) by (auto simp: rs_inv_def rs_bytes_def)
  have room: "length (rbuf_list ?s) + bb_room (recv_buffer ?s) = ?cap"
    using si(1) l(7) bb_count_bound [of "recv_buffer ?s" "recv_buffer_array ?s"]
    by (simp add: sock_inv_def rbuf_list_def bb_room_def same_frame_def)
  obtain s2 av2 ack2 where b: "buffer_loop ?s (rs_next_pbuf st') (rs_offset st') (rs_available st') (rs_ackable st')
      = (s2, av2, ack2)" by (metis prod_cases3)
  obtain j where j: "j = min (length (rs_bytes st')) (bb_room (recv_buffer ?s))" "sock_inv s2"
    "rbuf_list s2 = rbuf_list ?s @ take j (rs_bytes st')" "unat av2 = length (rs_bytes st') - j"
    "ack2 = rs_ackable st' + of_nat j" "same_frame ?s s2" "rq_list s2 = rq_list ?s" "cq_list s2 = cq_list ?s"
    using buffer_loop_spec [OF si b] by (auto simp: rs_bytes_def)
  have zero: "(s2, av2, ack2) = (?s, rs_available st', rs_ackable st')" if "\<not> rs_available st' > 0"
    using that b by (cases "rs_next_pbuf st'") auto
  show thesis
  proof (rule that [OF l(1,3)])
    show "buffer_rest st' = (s2, av2, ack2)" using b zero by (auto simp: buffer_rest_def)
    show "sock_inv s2" "rq_list s2 = rest" "cq_list s2 = take (cq_cap s) (cq_list s @ map recv_result cs)"
      using j l by simp_all
    show "same_frame s s2" using same_frame_trans [OF l(7) j(6)] .
    show "rbuf_list s2 = take ?cap D'" using j(1,3) unfolding l(4) [symmetric] room [symmetric] by (simp add: min_def)
    show "unat av2 = length D' - ?cap" using j(1,4) unfolding l(4) [symmetric] room [symmetric] by simp
    show "ack2 = of_nat (length (rs_bytes st) - unat av2)"
      using j(1,4,5) l(8,9) by (simp add: of_nat_diff)
  qed
qed

lemma tcp_recv_callback_spec:
  assumes "s = socket_regions st sp" "sock_inv s" "app_ptrs st ! unat (app_index s) = Some app"
    and "pchain_inv p" "p \<noteq> []" "unat (unread_data_offset s) \<le> length (chain_bytes p)"
    and "list_all (rqe_ok (rbuf_list s = [])) (rq_list s)" "U = drop (unat (unread_data_offset s)) (chain_bytes p)"
    and "fill (rq_list s) (rbuf_list s @ U) = (ws, cs, rest, D')" "cap = unat (bb_end (recv_buffer s)) - 1"
  shows "\<exists>s' lw. tcp_recv_callback api st (Some sp) tpcb p ERR_OK =
       Some (Ok (if length D' \<le> cap then ERR_OK else ERR_MEM,
         (set_socket (st\<lparr>app_regions := (app_regions st)(app := stores (app_regions st app) ws)\<rparr>) sp s')
           \<lparr>st_lwip := lw\<rparr>))
     \<and> sock_inv s' \<and> rq_list s' = rest \<and> cq_list s' = take (cq_cap s) (cq_list s @ map recv_result cs)
     \<and> rbuf_list s' = take cap D' \<and> sq_list s' = sq_list s \<and> wq_list s' = wq_list s
     \<and> unat (unread_data_offset s') = (if length D' \<le> cap then 0 else length (chain_bytes p) - length (drop cap D'))
     \<and> lw = (let lw1 = lw_tcp_recved api (st_lwip st) tpcb (of_nat (length U - length (drop cap D')))
             in if length D' \<le> cap then lw_pbuf_free api lw1 p else lw1)"
proof -
  let ?u = "unread_data_offset s"
  obtain avail nxt off where start: "recv_begin p ?u = (avail, nxt, off)" by (metis prod_cases3)
  note r = recv_start [OF assms(4-6) start]
  define rs where "rs = \<lparr>rs_socket = s, rs_mem = app_regions st app, rs_next_pbuf = nxt, rs_offset = off,
      rs_available = avail, rs_ackable = 0, rs_buffer_empty = byte_buffer_is_empty (recv_buffer s)\<rparr>"
  have emp: "byte_buffer_is_empty (recv_buffer s) = (rbuf_list s = [])"
    using bb_empty_iff [of "recv_buffer s" "recv_buffer_array s"] assms(2) by (simp add: sock_inv_def rbuf_list_def)
  have rs: "rs_inv rs" "list_all (rqe_ok (rs_buffer_empty rs)) (rq_list (rs_socket rs))" "s = rs_socket rs" "rs_ackable rs = 0" "rs_bytes rs = U"
    using r assms(2,7,8) emp by (simp_all add: rs_def rs_inv_def rs_bytes_def)
  have mem: "rs_mem rs = app_regions st app" by (simp add: rs_def)
  have f: "fill (rq_list s) (rbuf_list s @ rs_bytes rs) = (ws, cs, rest, D')" using assms(9) rs(5) by simp
  obtain st' s2 av2 ack2 where
    d: "recv_loop rs = Some st'" "rs_mem st' = stores (app_regions st app) ws"
    "buffer_rest st' = (s2, av2, ack2)"
    and v: "sock_inv s2" "rq_list s2 = rest" "cq_list s2 = take (cq_cap s) (cq_list s @ map recv_result cs)"
    "rbuf_list s2 = take cap D'" "unat av2 = length D' - cap" "ack2 = of_nat (length U - unat av2)" "same_frame s s2"
    by (rule recv_distribute [OF rs(1-4) f, unfolded rs(5) mem assms(10) [symmetric]])
  have e: "av2 > 0 \<longleftrightarrow> \<not> length D' \<le> cap" using v(5) by (simp add: word_gt_0 word_eq_iff_unat)
  define u' where "u' = (if length D' \<le> cap then 0 else pb_tot_len (hd p) - av2)"
  define lw where "lw = (let lw1 = lw_tcp_recved api (st_lwip st) tpcb ack2
      in if length D' \<le> cap then lw_pbuf_free api lw1 p else lw1)"
  have cb: "tcp_recv_callback api st (Some sp) tpcb p ERR_OK =
       Some (Ok (if length D' \<le> cap then ERR_OK else ERR_MEM,
         (set_socket (st\<lparr>app_regions := (app_regions st)(app := stores (app_regions st app) ws)\<rparr>) sp
            (s2\<lparr>unread_data_offset := u'\<rparr>))\<lparr>st_lwip := lw\<rparr>))"
    using assms(1) [symmetric] assms(3,5) start d(1) [unfolded rs_def] d(2,3) e
    by (simp add: tcp_recv_callback_def u'_def lw_def Let_def)
  have "unat (pb_tot_len (hd p)) = length (chain_bytes p)" using assms(4,5) pchain_tot_len by (cases p) auto
  moreover have "length (drop cap D') \<le> length U"
    using arg_cong [OF fill_conserves(1) [OF assms(9)], of length] assms(2,10)
      bb_count_bound [of "recv_buffer s" "recv_buffer_array s"]
    by (simp add: sock_inv_def rbuf_list_def)
  ultimately have u': "unat u' = (if length D' \<le> cap then 0 else length (chain_bytes p) - length (drop cap D'))"
    using v(5) assms(8) by (simp add: u'_def unat_minus_nat)
  show ?thesis
    by (rule exI [of _ "s2\<lparr>unread_data_offset := u'\<rparr>"], rule exI [of _ lw])
      (use cb u' v in \<open>auto simp: lw_def Let_def sock_inv_def sock_views same_frame_def\<close>)
qed

section \<open>Requests for bytes\<close>

text \<open>Appending a request to the receive queue.\<close>

lemma queue_request:
  assumes "sock_inv s" "ring_buffer_put (recv_queue s) (recv_queue_buffer s) e = (ok, rb, buf)"
  defines "s' \<equiv> s\<lparr>recv_queue := rb, recv_queue_buffer := buf\<rparr>"
  shows "sock_inv s'" "rbuf_list s' = rbuf_list s" "ok \<longleftrightarrow> length (rq_list s) < unat (rb_end (recv_queue s)) - 1"
    "rq_list s' = rq_list s @ (if ok then [e] else [])"
proof -
  have c: "rbq_put (recv_queue s, recv_queue_buffer s) e = (ok, (rb, buf))" using assms(2) by simp
  have "case (recv_queue s, recv_queue_buffer s) of (rb, buf) \<Rightarrow> rb_inv rb buf" using assms(1) by (simp add: sock_inv_def)
  note p = rbq.put_cases [OF this c]
  then show "sock_inv s'" "rbuf_list s' = rbuf_list s" "ok \<longleftrightarrow> length (rq_list s) < unat (rb_end (recv_queue s)) - 1"
    "rq_list s' = rq_list s @ (if ok then [e] else [])"
    using assms(1) by (auto simp: s'_def sock_inv_def sock_views rbq_cap_def)
qed

definition rqe_small :: "recv_queue_entry \<Rightarrow> bool" where
  "rqe_small e \<longleftrightarrow> 0 < unat (rqe_size e) \<and> unat (rqe_size e) < 65536 \<and> rqe_fit e"

definition request :: "internal_operation \<Rightarrow> recv_queue_entry" where
  "request iop = \<lparr>rqe_size = recv_size (op_data (iop_operation iop)),
     rqe_block_offset = recv_block_offset (op_data (iop_operation iop)), rqe_data_offset = 0\<rparr>"

lemma tx_tcp_recv_empty:
  assumes "s = socket_regions st (iop_socket iop)" "sock_inv s" "rbuf_list s = []"
  obtains ok rb buf where
    "tx_tcp_recv api st iop = Ok ((if ok then PIFUS_ASYNC else PIFUS_ERR,
        Res_Recv (rqe_block_offset (request iop)) (rqe_size (request iop)) None None),
      (set_socket st (iop_socket iop) (s\<lparr>recv_queue := rb, recv_queue_buffer := buf\<rparr>))
        \<lparr>st_lwip := lw_tcp_recv api (st_lwip st) (pcb s)\<rparr>)"
    "ring_buffer_put (recv_queue s) (recv_queue_buffer s) (request iop) = (ok, rb, buf)"
proof -
  obtain ok rb buf where p: "ring_buffer_put (recv_queue s) (recv_queue_buffer s) (request iop) = (ok, rb, buf)"
    by (metis prod_cases3)
  have "byte_buffer_is_empty (recv_buffer s)"
    using bb_empty_iff [of "recv_buffer s" "recv_buffer_array s"] assms(2,3) by (simp add: sock_inv_def rbuf_list_def)
  with assms(1) [symmetric] p show thesis
    by (intro that [OF _ p]) (simp add: tx_tcp_recv_def Let_def request_def)
qed

lemma tx_tcp_recv_buffered:
  assumes "s = socket_regions st (iop_socket iop)" "sock_inv s" "rbuf_list s \<noteq> []" "rq_list s = []"
    and "1 < unat (rb_end (recv_queue s))" "app_ptrs st ! unat (app_index s) = Some app" "rqe_small (request iop)"
  defines "e \<equiv> request iop" and "n \<equiv> min (unat (rqe_size (request iop))) (length (rbuf_list s))"
  obtains s' where
    "tx_tcp_recv api st iop = Ok ((if unat (rqe_size e) \<le> length (rbuf_list s) then PIFUS_OK else PIFUS_ASYNC,
        Res_Recv (rqe_block_offset e) (rqe_size e) None None),
      (set_socket (st\<lparr>app_regions := (app_regions st)(app := mstore (app_regions st app) (rqe_ptr e) (take n (rbuf_list s)))\<rparr>)
         (iop_socket iop) s')\<lparr>st_lwip := lw_tcp_recv api (st_lwip st) (pcb s)\<rparr>)"
    "sock_inv s'" "rbuf_list s' = drop n (rbuf_list s)"
    "rq_list s' = (if unat (rqe_size e) \<le> length (rbuf_list s) then [] else [advance e n])"
proof -
  let ?blk = "shm_data_get_block_ptr (sint (rqe_block_offset e))"
  obtain w s1 m1 e1 where p: "pop_from_buffer s (app_regions st app) ?blk e (ucast (rqe_size e)) = (w, s1, m1, e1)"
    by (metis prod_cases4)
  note ps = pop_from_buffer_spec [OF assms(2) p]
  have fit: "rqe_fit e" "0 < unat (rqe_size e)" "unat (rqe_size e) < 65536" using assms(7) by (simp_all add: rqe_small_def e_def)
  then have w: "unat w = n" using ps(1) rqe_need_mod [of e] by (simp add: rqe_need_def n_def e_def)
  then have w0: "w > 0" using fit(2) assms(3) by (simp add: word_gt_0 word_eq_iff_unat n_def e_def)
  have eq: "rqe_size e = ucast w \<longleftrightarrow> unat (rqe_size e) \<le> length (rbuf_list s)"
  proof -
    have "n < 2 ^ 64" using fit(3) by (simp add: n_def e_def min_def)
    then have "unat (ucast w :: u64) = n" using w by (simp add: unsigned_ucast_eq take_bit_nat_eq_self)
    then show ?thesis using w by (auto simp: word_eq_iff_unat n_def e_def)
  qed
  have ne: "\<not> byte_buffer_is_empty (recv_buffer s)"
    using bb_empty_iff [of "recv_buffer s" "recv_buffer_array s"] assms(2,3) by (simp add: sock_inv_def rbuf_list_def)
  obtain ok rb buf where q: "ring_buffer_put (recv_queue s1) (recv_queue_buffer s1) e1 = (ok, rb, buf)"
    by (metis prod_cases3)
  note qr = queue_request [OF ps(4) q]
  have rq: "rq_list s1 = []" "rb_end (recv_queue s1) = rb_end (recv_queue s)"
    using ps(6) assms(4) by (auto simp: rq_list_def)
  define s' where "s' = (if unat (rqe_size e) \<le> length (rbuf_list s) then s1
     else s1\<lparr>recv_queue := rb, recv_queue_buffer := buf\<rparr>)"
  show thesis
  proof (rule that [of s'])
    show "sock_inv s'" "rbuf_list s' = drop n (rbuf_list s)"
      "rq_list s' = (if unat (rqe_size e) \<le> length (rbuf_list s) then [] else [advance e n])"
      using ps(3-5) qr rq w assms(5) by (auto simp: s'_def)
    have "tx_tcp_recv api st iop = Ok ((if unat (rqe_size e) \<le> length (rbuf_list s) then PIFUS_OK
          else if ok then PIFUS_ASYNC else PIFUS_ERR, Res_Recv (rqe_block_offset e) (rqe_size e) None None),
        (set_socket (st\<lparr>app_regions := (app_regions st)(app := m1)\<rparr>) (iop_socket iop) s')
          \<lparr>st_lwip := lw_tcp_recv api (st_lwip st) (pcb s)\<rparr>)"
      using assms(1) [symmetric] assms(6) p ne w0 eq q
      by (simp add: tx_tcp_recv_def Let_def e_def request_def s'_def)
    then show "tx_tcp_recv api st iop = Ok ((if unat (rqe_size e) \<le> length (rbuf_list s) then PIFUS_OK else PIFUS_ASYNC,
        Res_Recv (rqe_block_offset e) (rqe_size e) None None),
      (set_socket (st\<lparr>app_regions := (app_regions st)(app := mstore (app_regions st app) (rqe_ptr e) (take n (rbuf_list s)))\<rparr>)
         (iop_socket iop) s')\<lparr>st_lwip := lw_tcp_recv api (st_lwip st) (pcb s)\<rparr>)"
      using ps(2) qr(3) rq w assms(5) by simp
  qed
qed

section \<open>Properties\<close>

lemma suffix_drop: "A @ U = B @ Y \<Longrightarrow> length Y \<le> length U \<Longrightarrow> drop (length U - length Y) U = Y"
  by (auto simp: append_eq_append_conv2)

text \<open>
  C11. In-order delivery: the bytes buffered before the call followed by the unread bytes of the chain are
  exactly the bytes stored into the blocks of waiting requests, followed by the bytes buffered after
  the call, followed by the bytes left to lwIP. Requests complete in order and are reported once each;
  bytes are buffered only when no request waits; the callback returns, answers ERR_OK exactly when
  nothing is left, and acknowledges to lwIP as many bytes as it consumed. A request completes when it has got
  \<open>rqe_need\<close> bytes, its size modulo 65536, for the loop reads the size into 16 bits: one for 65541 bytes
  completes after five. While bytes are buffered, every waiting request is taken to want at least one byte in
  this sense, and \<open>rqe_fit\<close> says that its offset does not wrap at 64 bits; \<open>fill\<close> is the distribution of the bytes over the requests.
\<close>

theorem tcp_recv_callback_in_order:
  fixes api :: "('l, 'i) lwip_api"
  assumes "sock_inv s" "socket_regions st sp = s" "app_ptrs st ! unat (app_index s) = Some app"
    and "pchain_inv p" "p \<noteq> []" "unat (unread_data_offset s) \<le> length (chain_bytes p)"
    and "list_all rqe_fit (rq_list s)" "rbuf_list s = [] \<or> list_all (\<lambda>e. 0 < rqe_need e) (rq_list s)"
    and "fill (rq_list s) (rbuf_list s @ drop (unat (unread_data_offset s)) (chain_bytes p)) = (ws, cs, rest, left)"
  shows "\<exists>rc st' s' unread. tcp_recv_callback api st (Some sp) tpcb p ERR_OK = Some (Ok (rc, st'))
     \<and> s' = socket_regions st' sp \<and> sock_inv s'
     \<and> app_regions st' app = stores (app_regions st app) ws \<and> rq_list s' = rest
     \<and> cq_list s' = take (cq_cap s) (cq_list s @ map recv_result cs)
     \<and> concat (map snd ws) @ rbuf_list s' @ unread = rbuf_list s @ drop (unat (unread_data_offset s)) (chain_bytes p)
     \<and> (rq_list s' = [] \<or> rbuf_list s' = [])
     \<and> rc = (if unread = [] then ERR_OK else ERR_MEM)
     \<and> (unread \<noteq> [] \<longrightarrow> drop (unat (unread_data_offset s')) (chain_bytes p) = unread)
     \<and> st_lwip st' = (let lw1 = lw_tcp_recved api (st_lwip st) tpcb
           (of_nat (length (drop (unat (unread_data_offset s)) (chain_bytes p)) - length unread))
         in if unread = [] then lw_pbuf_free api lw1 p else lw1)"
proof -
  define U where "U = drop (unat (unread_data_offset s)) (chain_bytes p)"
  define cap where "cap = unat (bb_end (recv_buffer s)) - 1"
  have ok: "list_all (rqe_ok (rbuf_list s = [])) (rq_list s)"
    using assms(7,8) by (auto simp: list_all_iff rqe_ok_def)
  obtain s' lw where cb: "tcp_recv_callback api st (Some sp) tpcb p ERR_OK =
       Some (Ok (if length left \<le> cap then ERR_OK else ERR_MEM,
         (set_socket (st\<lparr>app_regions := (app_regions st)(app := stores (app_regions st app) ws)\<rparr>) sp s')
           \<lparr>st_lwip := lw\<rparr>))"
    and s': "sock_inv s'" "rq_list s' = rest" "cq_list s' = take (cq_cap s) (cq_list s @ map recv_result cs)"
     "rbuf_list s' = take cap left"
     "unat (unread_data_offset s') = (if length left \<le> cap then 0 else length (chain_bytes p) - length (drop cap left))"
    and lw: "lw = (let lw1 = lw_tcp_recved api (st_lwip st) tpcb (of_nat (length U - length (drop cap left)))
             in if length left \<le> cap then lw_pbuf_free api lw1 p else lw1)"
    using tcp_recv_callback_spec [OF assms(2) [symmetric] assms(1,3-6) ok U_def assms(9) [folded U_def] cap_def, of api tpcb]
    by blast
  note fc = fill_conserves [OF assms(9) [folded U_def]]
  have all: "rbuf_list s @ U = (concat (map snd ws) @ take cap left) @ drop cap left" using fc(1) by simp
  have "length (rbuf_list s) \<le> cap"
    using assms(1) bb_count_bound [of "recv_buffer s" "recv_buffer_array s"]
    by (simp add: cap_def sock_inv_def rbuf_list_def)
  then have le: "length (drop cap left) \<le> length U" using arg_cong [OF fc(1), of length] by simp
  have "drop (length (chain_bytes p) - length (drop cap left)) (chain_bytes p) = drop cap left"
    using suffix_drop [OF all le] le assms(6) by (simp add: U_def)
  with s' lw cb all fc(2) show ?thesis
    by (intro exI [of _ "if length left \<le> cap then ERR_OK else ERR_MEM"] exI [of _ "drop cap left"] exI conjI)
      (auto simp: U_def)
qed

text \<open>A socket with one request for 65541 bytes, and a packet of six bytes: the request completes with five of them.\<close>

definition recv_demo :: pifus_socket where
  "recv_demo = demo_socket\<lparr>recv_queue := \<lparr>rb_end = 4, rb_head = 1, rb_tail = 0\<rparr>,
     recv_queue_buffer := \<lparr>rqe_size = 65541, rqe_block_offset = 0, rqe_data_offset = 0\<rparr> #
       replicate 3 \<lparr>rqe_size = 0, rqe_block_offset = 0, rqe_data_offset = 0\<rparr>\<rparr>"

definition recv_demo_stack :: "unit stack" where
  "recv_demo_stack = \<lparr>st_lwip = (), app_ptrs = [Some 0], app_regions = (\<lambda>_ _. 0), next_app_number = 1,
     socket_ptrs = [[None, Some 7]], socket_regions = (\<lambda>_. recv_demo), socket_futexes = [[0, 0]],
     tx_queue = pr_demo, full_sndbuf_iterations = 0\<rparr>"

lemma recv_demo_facts: "sock_inv recv_demo" "rbuf_list recv_demo = []"
  "rq_list recv_demo = [\<lparr>rqe_size = 65541, rqe_block_offset = 0, rqe_data_offset = 0\<rparr>]"
  "app_index recv_demo = 0" "unread_data_offset recv_demo = 0"
proof -
  show "sock_inv recv_demo" using demo_socket_inv by (simp add: recv_demo_def sock_inv_def rb_inv_def)
  show "rq_list recv_demo = [\<lparr>rqe_size = 65541, rqe_block_offset = 0, rqe_data_offset = 0\<rparr>]"
    by (simp add: recv_demo_def rq_list_def rb_list_def rb_count_def ring_count_def ring_view_def)
  show "rbuf_list recv_demo = []" using demo_socket_views(5) by (simp add: recv_demo_def rbuf_list_def)
  show "app_index recv_demo = 0" "unread_data_offset recv_demo = 0"
    by (simp_all add: recv_demo_def demo_socket_def zero_socket_def)
qed

theorem tcp_recv_callback_in_order_witness:
  "\<exists>rc st'. tcp_recv_callback (undefined :: (unit, unit) lwip_api) recv_demo_stack (Some 7) None
       [\<lparr>pb_payload = [1, 2, 3, 4, 5, 6], pb_tot_len = 6, pb_len = 6\<rparr>] ERR_OK = Some (Ok (rc, st'))
     \<and> app_regions st' 0 = mstore (\<lambda>_. 0) 28 [1, 2, 3, 4, 5] \<and> rq_list (socket_regions st' 7) = []"
proof -
  let ?p = "[\<lparr>pb_payload = [1, 2, 3, 4, 5, 6 :: byte], pb_tot_len = 6, pb_len = 6\<rparr>]"
  have f: "fill (rq_list recv_demo) (rbuf_list recv_demo @ drop (unat (unread_data_offset recv_demo)) (chain_bytes ?p)) =
      ([(28, [1, 2, 3, 4, 5])], [0], [], [6])"
    by (simp add: recv_demo_facts rqe_need_mod rqe_ptr_def shm_data_get_data_ptr_def shm_data_get_block_ptr_def shm_consts)
  have "list_all rqe_fit (rq_list recv_demo)" by (simp add: recv_demo_facts rqe_fit_def rqe_need_mod)
  from tcp_recv_callback_in_order [OF recv_demo_facts(1), of recv_demo_stack 7 0 ?p "[(28, [1, 2, 3, 4, 5])]" "[0]" "[]"
      "[6]" undefined None] this f show ?thesis
    by (simp add: recv_demo_stack_def recv_demo_facts) blast
qed

text \<open>
  A request for bytes is answered from the byte buffer first: it completes at once when the buffer
  holds enough, takes what there is and waits for the rest otherwise, and is refused only when the
  receive queue is full; no buffered byte is lost, and waiting requests and buffered bytes still
  exclude each other.
\<close>

theorem tx_tcp_recv_cases:
  fixes api :: "('l, 'i) lwip_api"
  assumes "sock_inv s" "socket_regions st (iop_socket iop) = s" "app_ptrs st ! unat (app_index s) = Some app"
    and "rqe_small (request iop)" "rq_list s = [] \<or> rbuf_list s = []" "1 < unat (rb_end (recv_queue s))"
  shows "\<exists>rc st' s'. tx_tcp_recv api st iop = Ok ((rc, Res_Recv (rqe_block_offset (request iop)) (rqe_size (request iop)) None None), st')
     \<and> s' = socket_regions st' (iop_socket iop) \<and> sock_inv s' \<and> (rq_list s' = [] \<or> rbuf_list s' = [])
     \<and> (if rbuf_list s = [] then app_regions st' = app_regions st \<and> rbuf_list s' = []
          \<and> (if length (rq_list s) < unat (rb_end (recv_queue s)) - 1
             then rc = PIFUS_ASYNC \<and> rq_list s' = rq_list s @ [request iop] else rc = PIFUS_ERR \<and> rq_list s' = rq_list s)
        else (let n = min (unat (rqe_size (request iop))) (length (rbuf_list s))
          in app_regions st' app = mstore (app_regions st app) (rqe_ptr (request iop)) (take n (rbuf_list s))
             \<and> rbuf_list s' = drop n (rbuf_list s)
             \<and> (if unat (rqe_size (request iop)) \<le> length (rbuf_list s) then rc = PIFUS_OK \<and> rq_list s' = []
                else rc = PIFUS_ASYNC \<and> rq_list s' = [advance (request iop) n])))"
proof (cases "rbuf_list s = []")
  case True
  obtain ok rb buf where t: "tx_tcp_recv api st iop = Ok ((if ok then PIFUS_ASYNC else PIFUS_ERR,
        Res_Recv (rqe_block_offset (request iop)) (rqe_size (request iop)) None None),
      (set_socket st (iop_socket iop) (s\<lparr>recv_queue := rb, recv_queue_buffer := buf\<rparr>))
        \<lparr>st_lwip := lw_tcp_recv api (st_lwip st) (pcb s)\<rparr>)"
    and q: "ring_buffer_put (recv_queue s) (recv_queue_buffer s) (request iop) = (ok, rb, buf)"
    by (rule tx_tcp_recv_empty [OF assms(2) [symmetric] assms(1) True])
  with queue_request [OF assms(1) q] True show ?thesis by auto
next
  case False
  let ?n = "min (unat (rqe_size (request iop))) (length (rbuf_list s))"
  have rq: "rq_list s = []" using False assms(5) by blast
  obtain s' where t: "tx_tcp_recv api st iop =
      Ok ((if unat (rqe_size (request iop)) \<le> length (rbuf_list s) then PIFUS_OK else PIFUS_ASYNC,
        Res_Recv (rqe_block_offset (request iop)) (rqe_size (request iop)) None None),
      (set_socket (st\<lparr>app_regions := (app_regions st)(app :=
          mstore (app_regions st app) (rqe_ptr (request iop)) (take ?n (rbuf_list s)))\<rparr>)
         (iop_socket iop) s')\<lparr>st_lwip := lw_tcp_recv api (st_lwip st) (pcb s)\<rparr>)"
    "sock_inv s'" "rbuf_list s' = drop ?n (rbuf_list s)"
    "rq_list s' = (if unat (rqe_size (request iop)) \<le> length (rbuf_list s) then [] else [advance (request iop) ?n])"
    by (rule tx_tcp_recv_buffered [OF assms(2) [symmetric] assms(1) False rq assms(6,3,4)])
  with False show ?thesis by (auto simp: Let_def)
qed

definition recv_request_demo :: internal_operation where
  "recv_request_demo = \<lparr>iop_operation = \<lparr>op_code = TCP_RECV, op_data = Recv_Data 64 3\<rparr>, iop_socket = 7\<rparr>"

theorem tx_tcp_recv_cases_witness:
  "\<exists>st'. tx_tcp_recv (undefined :: (unit, unit) lwip_api) recv_demo_stack recv_request_demo =
       Ok ((PIFUS_ASYNC, Res_Recv 64 3 None None), st')
     \<and> length (rq_list (socket_regions st' 7)) = 2"
proof -
  have r: "request recv_request_demo = \<lparr>rqe_size = 3, rqe_block_offset = 64, rqe_data_offset = 0\<rparr>"
    by (simp add: request_def recv_request_demo_def)
  have e: "rb_end (recv_queue recv_demo) = 4" "iop_socket recv_request_demo = 7"
    by (simp_all add: recv_demo_def recv_request_demo_def)
  have "rqe_small (request recv_request_demo)" by (simp add: r rqe_small_def rqe_fit_def rqe_need_mod)
  from tx_tcp_recv_cases [OF recv_demo_facts(1), of recv_demo_stack recv_request_demo 0 undefined] this
  show ?thesis
    by (simp add: recv_demo_stack_def recv_demo_facts r e) force
qed

end
