(* ===== verification/Tcp_Connection.thy ===== *)
theory Tcp_Connection
  imports Stack_State
begin

text \<open>
  The handlers that open and close connections (\<open>lwip/custom/stack/src/tcp/{bind,connect,listen,
  accept,close}.c\<close>) and the callbacks lwIP calls when a connection has been set up. A handler gets
  the operation and returns the result fields; a callback gets the socket pointer it was given as
  argument.
\<close>

section \<open>bind.c\<close>

text \<open>An unknown address type leaves the local variable \<open>ip_addr_type\<close> unassigned.\<close>

definition PIFUS_IPV4_ADDR :: u32 where "PIFUS_IPV4_ADDR = 0"
definition PIFUS_IPV6_ADDR :: u32 where "PIFUS_IPV6_ADDR = 6"
definition PIFUS_IPVX_ADDR :: u32 where "PIFUS_IPVX_ADDR = 46"

definition tx_tcp_bind ::
    "('l, 'i) lwip_api \<Rightarrow> 'l stack \<Rightarrow> internal_operation \<Rightarrow> (tx_result \<times> 'l stack) res" where
  "tx_tcp_bind api st internal_op =
     (let bind_data = op_data (iop_operation internal_op);
          socket = socket_regions st (iop_socket internal_op);
          ip_addr_type =
            (if bind_ip_type bind_data = PIFUS_IPV4_ADDR then IP4_ADDR_ANY
             else if bind_ip_type bind_data = PIFUS_IPV6_ADDR then IP6_ADDR_ANY
             else if bind_ip_type bind_data = PIFUS_IPVX_ADDR then IP_ANY_TYPE
             else Ip_Undetermined)
      in case lw_tcp_bind api (st_lwip st) (pcb socket) ip_addr_type (bind_port bind_data) of
           (result, lw1) \<Rightarrow>
             Ok ((if result = ERR_OK then PIFUS_OK else PIFUS_ERR, Res_Indeterminate), st\<lparr>st_lwip := lw1\<rparr>))"

section \<open>connect.c\<close>

definition tcp_connected_callback :: "'l stack \<Rightarrow> nat \<Rightarrow> err_t \<times> 'l stack" where
  "tcp_connected_callback st arg =
     (ERR_OK, set_socket st arg (enqueue_in_cqueue (socket_regions st arg)
        \<lparr>res_code = TCP_CONNECT, result_code = PIFUS_OK, res_data = Res_Indeterminate\<rparr>))"

definition tx_tcp_connect ::
    "('l, 'i) lwip_api \<Rightarrow> 'l stack \<Rightarrow> internal_operation \<Rightarrow> (tx_result \<times> 'l stack) res" where
  "tx_tcp_connect api st internal_op =
     (let connect_data = op_data (iop_operation internal_op);
          socket = socket_regions st (iop_socket internal_op);
          reader_addr = lw_ipaddr_aton api (connect_ip_addr connect_data)
      in case lw_tcp_connect api (st_lwip st) (pcb socket) reader_addr (connect_port connect_data) of
           (result, lw1) \<Rightarrow>
             Ok ((if result = ERR_OK then PIFUS_ASYNC else PIFUS_ERR, Res_Indeterminate), st\<lparr>st_lwip := lw1\<rparr>))"

section \<open>listen.c\<close>

definition tx_tcp_listen ::
    "('l, 'i) lwip_api \<Rightarrow> 'l stack \<Rightarrow> internal_operation \<Rightarrow> (tx_result \<times> 'l stack) res" where
  "tx_tcp_listen api st internal_op =
     (let listen_data = op_data (iop_operation internal_op);
          sp = iop_socket internal_op;
          socket = socket_regions st sp
      in case lw_tcp_listen_with_backlog api (st_lwip st) (pcb socket) (listen_backlog_size listen_data) of
           (None, lw1) \<Rightarrow> Ok ((PIFUS_ERR, Res_Indeterminate), st\<lparr>st_lwip := lw1\<rparr>)
         | (Some new_pcb, lw1) \<Rightarrow>
             Ok ((PIFUS_OK, Res_Indeterminate),
                 (set_socket st sp (socket\<lparr>pcb := Some new_pcb\<rparr>))\<lparr>st_lwip := lw1\<rparr>))"

section \<open>accept.c\<close>

text \<open>
  The receive callback is registered at once and the argument cleared, so that data that arrives
  before the application has created the socket is refused with ERR_MEM.
\<close>

definition tcp_accepted_callback ::
    "('l, 'i) lwip_api \<Rightarrow> 'l stack \<Rightarrow> nat \<Rightarrow> nat option \<Rightarrow> err_t \<times> 'l stack" where
  "tcp_accepted_callback api st arg newpcb =
     (let lw1 = lw_tcp_recv api (st_lwip st) newpcb;
          lw2 = lw_tcp_arg api lw1 newpcb None
      in (ERR_OK, (set_socket st arg (enqueue_in_cqueue (socket_regions st arg)
            \<lparr>res_code = TCP_ACCEPT, result_code = PIFUS_OK, res_data = Res_Accept None newpcb\<rparr>))
              \<lparr>st_lwip := lw2\<rparr>))"

definition tx_tcp_accept ::
    "('l, 'i) lwip_api \<Rightarrow> 'l stack \<Rightarrow> internal_operation \<Rightarrow> (tx_result \<times> 'l stack) res" where
  "tx_tcp_accept api st internal_op =
     (let socket = socket_regions st (iop_socket internal_op)
      in Ok ((PIFUS_ASYNC, Res_Indeterminate), st\<lparr>st_lwip := lw_tcp_accept api (st_lwip st) (pcb socket)\<rparr>))"

section \<open>close.c\<close>

definition set_socket_ptr :: "'l stack \<Rightarrow> u32 \<Rightarrow> u32 \<Rightarrow> nat option \<Rightarrow> 'l stack" where
  "set_socket_ptr st a i p =
     st\<lparr>socket_ptrs := (socket_ptrs st)[unat a := (socket_ptrs st ! unat a)[unat i := p]]\<rparr>"

definition tx_tcp_close ::
    "('l, 'i) lwip_api \<Rightarrow> 'l stack \<Rightarrow> internal_operation \<Rightarrow> (tx_result \<times> 'l stack) res" where
  "tx_tcp_close api st internal_op =
     (let socket = socket_regions st (iop_socket internal_op)
      in case lw_tcp_close api (st_lwip st) (pcb socket) of
           (result, lw1) \<Rightarrow>
             if result = ERR_OK
             then Ok ((PIFUS_OK, Res_Indeterminate),
                      (set_socket_ptr st (app_index socket) (socket_index socket) None)\<lparr>st_lwip := lw1\<rparr>)
             else Ok ((PIFUS_ERR, Res_Indeterminate), st\<lparr>st_lwip := lw1\<rparr>))"

section \<open>Lemmas\<close>

lemma set_socket_ptr_simps [simp]:
  "socket_regions (set_socket_ptr st a i p) = socket_regions st"
  "tx_queue (set_socket_ptr st a i p) = tx_queue st" "app_ptrs (set_socket_ptr st a i p) = app_ptrs st"
  "app_regions (set_socket_ptr st a i p) = app_regions st"
  "full_sndbuf_iterations (set_socket_ptr st a i p) = full_sndbuf_iterations st"
  by (simp_all add: set_socket_ptr_def)

text \<open>
  What every handler of this theory shares: it always returns, it answers with one of the final codes
  or with PIFUS_ASYNC, and it leaves the queues of every socket alone.
\<close>

definition keeps_queues :: "pifus_socket \<Rightarrow> pifus_socket \<Rightarrow> bool" where
  "keeps_queues s s' \<longleftrightarrow> squeue s' = squeue s \<and> squeue_buffer s' = squeue_buffer s \<and> cqueue s' = cqueue s
     \<and> cqueue_buffer s' = cqueue_buffer s \<and> write_queue s' = write_queue s
     \<and> write_queue_buffer s' = write_queue_buffer s \<and> recv_queue s' = recv_queue s
     \<and> recv_queue_buffer s' = recv_queue_buffer s \<and> recv_buffer s' = recv_buffer s
     \<and> recv_buffer_array s' = recv_buffer_array s"

lemma keeps_queues_refl [simp]: "keeps_queues s s"
  by (simp add: keeps_queues_def)

lemma keeps_queues_pcb [simp]: "keeps_queues s (s\<lparr>pcb := p\<rparr>)"
  by (simp add: keeps_queues_def)

lemma keeps_queues_inv: "keeps_queues s s' \<Longrightarrow> sock_inv s' = sock_inv s"
  by (simp add: keeps_queues_def sock_inv_def)

definition connection_step :: "'l stack \<Rightarrow> (tx_result \<times> 'l stack) res \<Rightarrow> bool" where
  "connection_step st r \<longleftrightarrow> (\<exists>rc d st'. r = Ok ((rc, d), st') \<and> rc \<in> {PIFUS_OK, PIFUS_ERR, PIFUS_ASYNC}
     \<and> (\<forall>p. keeps_queues (socket_regions st p) (socket_regions st' p))
     \<and> tx_queue st' = tx_queue st \<and> app_regions st' = app_regions st
     \<and> full_sndbuf_iterations st' = full_sndbuf_iterations st)"

lemma connection_handlers:
  "connection_step st (tx_tcp_bind api st iop)" "connection_step st (tx_tcp_connect api st iop)"
  "connection_step st (tx_tcp_listen api st iop)" "connection_step st (tx_tcp_accept api st iop)"
  "connection_step st (tx_tcp_close api st iop)"
  by (auto simp: connection_step_def tx_tcp_bind_def tx_tcp_connect_def tx_tcp_listen_def
      tx_tcp_accept_def tx_tcp_close_def Let_def split: prod.splits option.splits)

section \<open>Properties\<close>

text \<open>
  Closing: when lwIP closes the connection the stack forgets the socket, so that its slot reads NULL
  for the priority threads, and no other slot changes; when lwIP refuses, the socket stays known.
\<close>

theorem tx_tcp_close_forgets:
  fixes api :: "('l, 'i) lwip_api"
  defines "s \<equiv> \<lambda>st iop. socket_regions st (iop_socket iop)"
  assumes "unat (app_index (s st iop)) < length (socket_ptrs st)"
    and "unat (socket_index (s st iop)) < length (socket_ptrs st ! unat (app_index (s st iop)))"
  shows "\<exists>rc d st'. tx_tcp_close api st iop = Ok ((rc, d), st')
     \<and> rc = (if fst (lw_tcp_close api (st_lwip st) (pcb (s st iop))) = ERR_OK then PIFUS_OK else PIFUS_ERR)
     \<and> (\<forall>a i. a < length (socket_ptrs st) \<longrightarrow> i < length (socket_ptrs st ! a) \<longrightarrow>
          socket_ptrs st' ! a ! i =
            (if rc = PIFUS_OK \<and> a = unat (app_index (s st iop)) \<and> i = unat (socket_index (s st iop))
             then None else socket_ptrs st ! a ! i))"
  using assms
  by (auto simp: tx_tcp_close_def Let_def set_socket_ptr_def nth_list_update split: prod.splits)

theorem tx_tcp_close_forgets_witness:
  "\<exists>d st'. tx_tcp_close demo_api
       (demo_stack\<lparr>socket_regions := (\<lambda>_. demo_socket\<lparr>socket_index := 1\<rparr>)\<rparr>) \<lparr>iop_operation = zero_op, iop_socket = 7\<rparr>
       = Ok ((PIFUS_OK, d), st') \<and> socket_ptrs st' ! 0 ! 1 = None"
proof -
  define st where "st = demo_stack\<lparr>socket_regions := (\<lambda>_. demo_socket\<lparr>socket_index := 1\<rparr>)\<rparr>"
  let ?iop = "\<lparr>iop_operation = zero_op, iop_socket = 7\<rparr>"
  have st: "socket_ptrs st = [[None, Some 7]]" "app_index (socket_regions st 7) = 0"
    "socket_index (socket_regions st 7) = 1"
    by (simp_all add: st_def demo_stack_def demo_socket_app)
  have len: "unat (app_index (socket_regions st (iop_socket ?iop))) < length (socket_ptrs st)"
    "unat (socket_index (socket_regions st (iop_socket ?iop))) <
       length (socket_ptrs st ! unat (app_index (socket_regions st (iop_socket ?iop))))"
    by (simp_all add: st)
  have ok: "fst (lw_tcp_close demo_api l p) = ERR_OK" for l p by (simp add: demo_api_def)
  from tx_tcp_close_forgets [OF len, of demo_api] obtain d st' where
    "tx_tcp_close demo_api st ?iop = Ok ((PIFUS_OK, d), st')"
    "\<forall>a i. a < 1 \<longrightarrow> i < length (socket_ptrs st ! a) \<longrightarrow>
       socket_ptrs st' ! a ! i = (if a = 0 \<and> i = 1 then None else socket_ptrs st ! a ! i)"
    by (auto simp: st ok)
  then show ?thesis unfolding st_def [symmetric] by (auto simp: st)
qed

end
