(* ===== verification/Stack.thy ===== *)
theory Stack
  imports Tcp_Write Tcp_Recv Tcp_Connection
begin

text \<open>
  The main loop of the stack (\<open>lwip/custom/stack/src/stack.c\<close>): \<open>process_tx_op\<close> dispatches an
  operation to its handler, \<open>handle_operation\<close> delivers the result and removes the operation from the
  transmit queue, \<open>lwip_loop_iteration\<close> serves up to fifty operations. An operation in the queue is
  named by its ring and slot. The loops are partial functions; that they return is proved.
\<close>

section \<open>Model\<close>

definition MAX_DEQUEUES_PER_ITERATION :: u8 where "MAX_DEQUEUES_PER_ITERATION = 50"
definition MAX_FULL_SND_BUF_ITERATIONS :: u8 where "MAX_FULL_SND_BUF_ITERATIONS = 64"

text \<open>
  Lines 101-110: a socket without control block gets one. \<open>tcp_nagle_disable\<close> is a macro that writes
  through the pointer, so a failing \<open>tcp_new\<close> is a null dereference.
\<close>

definition ensure_pcb :: "('l, 'i) lwip_api \<Rightarrow> 'l stack \<Rightarrow> nat \<Rightarrow> 'l stack res" where
  "ensure_pcb api st sp =
     (if pcb (socket_regions st sp) = None
      then (case lw_tcp_new api (st_lwip st) of
              (None, lw1) \<Rightarrow> Fault Null_Dereference
            | (Some new_pcb, lw1) \<Rightarrow>
                (let lw2 = lw_tcp_nagle_disable api lw1 new_pcb;
                     lw3 = lw_tcp_arg api lw2 (Some new_pcb) (Some sp)
                 in Ok ((set_socket st sp ((socket_regions st sp)\<lparr>pcb := Some new_pcb\<rparr>))\<lparr>st_lwip := lw3\<rparr>)))
      else Ok st)"

text \<open>
  Lines 112-137, by operation code. The default branch leaves the result code indeterminate, and the caller reads it.
\<close>

fun dispatch_tcp :: "('l, 'i) lwip_api \<Rightarrow> 'l stack \<Rightarrow> internal_operation \<Rightarrow> operation_code \<Rightarrow> (tx_result \<times> 'l stack) res" where
  "dispatch_tcp api st iop TCP_BIND = tx_tcp_bind api st iop"
| "dispatch_tcp api st iop TCP_CONNECT = tx_tcp_connect api st iop"
| "dispatch_tcp api st iop TCP_WRITE = tx_tcp_write api st iop"
| "dispatch_tcp api st iop TCP_RECV = tx_tcp_recv api st iop"
| "dispatch_tcp api st iop TCP_LISTEN = tx_tcp_listen api st iop"
| "dispatch_tcp api st iop TCP_ACCEPT = tx_tcp_accept api st iop"
| "dispatch_tcp api st iop TCP_CLOSE = tx_tcp_close api st iop"
| "dispatch_tcp api st iop code = Fault Indeterminate_Value"

text \<open>Lines 93-147.\<close>

definition process_tx_op ::
    "('l, 'i) lwip_api \<Rightarrow> 'l stack \<Rightarrow> internal_operation \<Rightarrow> (operation_result \<times> 'l stack) res" where
  "process_tx_op api st internal_op =
     (let code = op_code (iop_operation internal_op);
          outcome =
            (if code = NOP \<or> code = CLIENT_NOP then Ok ((PIFUS_OK, Res_Indeterminate), st)
             else if is_tcp_operation (iop_operation internal_op)
             then res_bind (ensure_pcb api st (iop_socket internal_op))
                    (\<lambda>st1. dispatch_tcp api st1 internal_op code)
             else Fault Exit_Failure)
      in res_bind outcome (\<lambda>((rc, d), st2). Ok (\<lparr>res_code = code, result_code = rc, res_data = d\<rparr>, st2)))"

definition is_recv_op :: "internal_operation \<Rightarrow> bool" where
  "is_recv_op operation \<longleftrightarrow> op_code (iop_operation operation) = TCP_RECV"

text \<open>Lines 188-205: deliver the result, count it, remove the operation or overwrite it with NOP.\<close>

definition complete_operation ::
    "'l stack \<Rightarrow> ring_name \<times> u16 \<Rightarrow> operation_result \<Rightarrow> bool \<Rightarrow> u8 \<Rightarrow> (bool \<times> u8 \<times> 'l stack) res" where
  "complete_operation st tx_op result recv_scan dequeued_ops_count =
     (let iop = pr_at (tx_queue st) tx_op;
          sp = iop_socket iop;
          s1 = (if result_code result \<noteq> PIFUS_ASYNC then enqueue_in_cqueue (socket_regions st sp) result
                else socket_regions st sp);
          st1 = set_socket st sp (s1\<lparr>dequeued_ops := dequeued_ops s1 + 1\<rparr>)
      in if recv_scan
         then Ok (True, dequeued_ops_count,
                  st1\<lparr>tx_queue := pr_store (tx_queue st1) tx_op
                         (iop\<lparr>iop_operation := (iop_operation iop)\<lparr>op_code := NOP\<rparr>\<rparr>)\<rparr>)
         else res_bind (prio_ring_erase_first (tx_queue st1))
                (\<lambda>(ok, q). Ok (True, dequeued_ops_count + 1, st1\<lparr>full_sndbuf_iterations := 0, tx_queue := q\<rparr>)))"

text \<open>
  Lines 153-206. The result of a call: \<open>None\<close> when it does not return, a fault, or the boolean result
  with the counter behind \<open>dequeued_ops\<close> and the new state.
\<close>

partial_function (option) handle_operation ::
    "('l, 'i) lwip_api \<Rightarrow> 'l stack \<Rightarrow> ring_name \<times> u16 \<Rightarrow> bool \<Rightarrow> u8 \<Rightarrow> (bool \<times> u8 \<times> 'l stack) res option" where
  "handle_operation api st tx_op recv_scan dequeued_ops_count =
     (case process_tx_op api st (pr_at (tx_queue st) tx_op) of
        Fault f \<Rightarrow> Some (Fault f)
      | Ok (result, st1) \<Rightarrow>
          if res_code result = NOP \<and> \<not> recv_scan
          then Some (res_bind (prio_ring_erase_first (tx_queue st1))
                 (\<lambda>(ok, q). Ok (True, dequeued_ops_count, st1\<lparr>tx_queue := q\<rparr>)))
          else if result_code result = PIFUS_TRY_AGAIN
          then if full_sndbuf_iterations st1 \<ge> MAX_FULL_SND_BUF_ITERATIONS
               then Option.bind (prio_ring_find (tx_queue st1) is_recv_op)
                      (\<lambda>r. case r of
                            Some recv_op \<Rightarrow> handle_operation api st1 recv_op True dequeued_ops_count
                          | None \<Rightarrow> Some (Ok (False, dequeued_ops_count, st1)))
               else Some (Ok (False, dequeued_ops_count,
                      st1\<lparr>full_sndbuf_iterations := full_sndbuf_iterations st1 + 1\<rparr>))
          else Some (complete_operation st1 tx_op result recv_scan dequeued_ops_count))"

text \<open>Lines 208-219.\<close>

partial_function (option) lwip_loop ::
    "('l, 'i) lwip_api \<Rightarrow> 'l stack \<Rightarrow> u8 \<Rightarrow> 'l stack res option" where
  "lwip_loop api st dequeued_operations =
     (if dequeued_operations < MAX_DEQUEUES_PER_ITERATION
      then (case prio_ring_peek (tx_queue st) of
              (None, q) \<Rightarrow> Some (Ok (st\<lparr>tx_queue := q\<rparr>))
            | (Some tx_op, q) \<Rightarrow>
                Option.bind (handle_operation api (st\<lparr>tx_queue := q\<rparr>) tx_op False dequeued_operations)
                  (\<lambda>r. case r of
                        Fault f \<Rightarrow> Some (Fault f)
                      | Ok (go_on, dequeued1, st1) \<Rightarrow>
                          if go_on then lwip_loop api st1 dequeued1 else Some (Ok st1)))
      else Some (Ok st))"

definition lwip_loop_iteration :: "('l, 'i) lwip_api \<Rightarrow> 'l stack \<Rightarrow> 'l stack res option" where
  "lwip_loop_iteration api st = lwip_loop api st 0"

text \<open>Lines 221-229, without the eventfd; starting the threads is in \<open>Discovery\<close>.\<close>

definition lwip_init_complete :: "'l stack \<Rightarrow> 'l stack" where
  "lwip_init_complete st = st\<lparr>tx_queue := prio_ring_create (tx_queue st)\<rparr>"

section \<open>What a handler leaves alone\<close>

definition tx_frame :: "'l stack \<Rightarrow> 'l stack \<Rightarrow> bool" where
  "tx_frame st st' \<longleftrightarrow> tx_queue st' = tx_queue st \<and> full_sndbuf_iterations st' = full_sndbuf_iterations st
     \<and> (\<forall>p. enqueued_ops (socket_regions st' p) = enqueued_ops (socket_regions st p)
          \<and> dequeued_ops (socket_regions st' p) = dequeued_ops (socket_regions st p)
          \<and> squeue (socket_regions st' p) = squeue (socket_regions st p)
          \<and> squeue_buffer (socket_regions st' p) = squeue_buffer (socket_regions st p)
          \<and> cqueue (socket_regions st' p) = cqueue (socket_regions st p)
          \<and> cqueue_buffer (socket_regions st' p) = cqueue_buffer (socket_regions st p))"

lemma tx_frame_refl [simp]: "tx_frame st st"
  by (simp add: tx_frame_def)

lemma tx_frame_trans: "tx_frame st st1 \<Longrightarrow> tx_frame st1 st2 \<Longrightarrow> tx_frame st st2"
  by (simp add: tx_frame_def)

lemma connection_frame:
  "tx_tcp_bind api st iop = Ok (r, st') \<Longrightarrow> tx_frame st st'"
  "tx_tcp_connect api st iop = Ok (r, st') \<Longrightarrow> tx_frame st st'"
  "tx_tcp_listen api st iop = Ok (r, st') \<Longrightarrow> tx_frame st st'"
  "tx_tcp_accept api st iop = Ok (r, st') \<Longrightarrow> tx_frame st st'"
  "tx_tcp_close api st iop = Ok (r, st') \<Longrightarrow> tx_frame st st'"
  by (auto simp: tx_frame_def tx_tcp_bind_def tx_tcp_connect_def tx_tcp_listen_def
      tx_tcp_accept_def tx_tcp_close_def Let_def split: prod.splits option.splits if_splits)

lemma tx_tcp_write_frame: "tx_tcp_write api st iop = Ok (r, st') \<Longrightarrow> tx_frame st st'"
  by (auto simp: tx_frame_def tx_tcp_write_def Let_def split: prod.splits option.splits if_splits)

lemma pop_from_buffer_frame:
  "pop_from_buffer s m b e n = (w, s', m', e') \<Longrightarrow> \<exists>bb. s' = s\<lparr>recv_buffer := bb\<rparr>"
  by (auto simp: pop_from_buffer_def Let_def split: prod.splits if_splits)

lemma tx_tcp_recv_frame: "tx_tcp_recv api st iop = Ok (r, st') \<Longrightarrow> tx_frame st st'"
  by (auto simp: tx_frame_def tx_tcp_recv_def Let_def split: prod.splits option.splits if_splits
      dest!: pop_from_buffer_frame)

lemma ensure_pcb_frame: "ensure_pcb api st sp = Ok st' \<Longrightarrow> tx_frame st st'"
  by (auto simp: ensure_pcb_def tx_frame_def Let_def split: if_splits prod.splits option.splits)

lemma dispatch_frame: "dispatch_tcp api st iop c = Ok (r, st') \<Longrightarrow> tx_frame st st'"
  by (cases c) (auto dest: connection_frame tx_tcp_write_frame tx_tcp_recv_frame)

text \<open>Only a write asks to be tried again.\<close>

lemma tx_tcp_recv_code: "tx_tcp_recv api st iop = Ok ((rc, d), st') \<Longrightarrow> rc \<in> {PIFUS_OK, PIFUS_ASYNC, PIFUS_ERR}"
  by (auto simp: tx_tcp_recv_def Let_def split: prod.splits option.splits if_splits)

lemma connection_code:
  "connection_step st r \<Longrightarrow> r = Ok ((rc, d), st') \<Longrightarrow> rc \<in> {PIFUS_OK, PIFUS_ASYNC, PIFUS_ERR}"
  by (auto simp: connection_step_def)

lemma dispatch_try_again: "dispatch_tcp api st iop c = Ok ((PIFUS_TRY_AGAIN, d), st') \<Longrightarrow> c = TCP_WRITE"
  by (cases c) (auto dest: tx_tcp_recv_code connection_code [OF connection_handlers(1)]
      connection_code [OF connection_handlers(2)] connection_code [OF connection_handlers(3)]
      connection_code [OF connection_handlers(4)] connection_code [OF connection_handlers(5)])

lemma process_tx_op_spec:
  assumes "process_tx_op api st iop = Ok (r, st')"
  shows "tx_frame st st'" "res_code r = op_code (iop_operation iop)"
    "result_code r = PIFUS_TRY_AGAIN \<Longrightarrow> op_code (iop_operation iop) = TCP_WRITE"
proof -
  let ?c = "op_code (iop_operation iop)"
  show "res_code r = ?c" using assms
    by (auto simp: process_tx_op_def Let_def elim!: res_bind_Ok split: if_splits)
  consider "r = \<lparr>res_code = ?c, result_code = PIFUS_OK, res_data = Res_Indeterminate\<rparr>" "st' = st"
    | st1 rc d where "ensure_pcb api st (iop_socket iop) = Ok st1" "dispatch_tcp api st1 iop ?c = Ok ((rc, d), st')"
        "r = \<lparr>res_code = ?c, result_code = rc, res_data = d\<rparr>"
    using assms by (auto simp: process_tx_op_def Let_def elim!: res_bind_Ok split: if_splits)
  then show "tx_frame st st'" "result_code r = PIFUS_TRY_AGAIN \<Longrightarrow> ?c = TCP_WRITE"
    by (cases; auto dest: dispatch_try_again intro: tx_frame_trans [OF ensure_pcb_frame dispatch_frame])+
qed

section \<open>Accounting\<close>

text \<open>
  The operations of a socket that are still in the transmit queue; an operation overwritten with NOP
  has been handled. \<open>counted\<close> is the invariant behind the rate limit of the priority threads: the
  difference of the two counters of a socket is the number of its operations in the queue.
\<close>

definition pending :: "prio_ring \<Rightarrow> nat \<Rightarrow> nat" where
  "pending q p = length (filter (\<lambda>iop. iop_socket iop = p \<and> op_code (iop_operation iop) \<noteq> NOP) (pr_all q))"

definition counted :: "'l stack \<Rightarrow> bool" where
  "counted st \<longleftrightarrow> (\<forall>p. enqueued_ops (socket_regions st p) - dequeued_ops (socket_regions st p)
     = of_nat (pending (tx_queue st) p))"

text \<open>What the loop consumes: the operations, and the receive operations a scan can overwrite.\<close>

definition weight :: "prio_ring \<Rightarrow> nat" where
  "weight q = length (pr_all q) + length (filter is_recv_op (pr_all q))"

lemma weight_tl: "pr_all q \<noteq> [] \<Longrightarrow> pr_all q' = tl (pr_all q) \<Longrightarrow> weight q' < weight q"
  by (cases "pr_all q") (auto simp: weight_def)

lemma pending_tl:
  assumes "pr_all q \<noteq> []" "pr_all q' = tl (pr_all q)"
  shows "pending q p = pending q' p +
     (if iop_socket (hd (pr_all q)) = p \<and> op_code (iop_operation (hd (pr_all q))) \<noteq> NOP then 1 else 0)"
  using filter_hd_tl [OF assms(1)] by (simp add: pending_def assms(2))

text \<open>Completion of the operation at the head, and of one found by the scan.\<close>

lemma complete_head:
  assumes "pr_inv (tx_queue st)" "pr_top (tx_queue st) = Some r" "last_peek (tx_queue st) = Some r"
  shows "\<exists>st'. complete_operation st (r, rb_tail (pr_ring (tx_queue st) r)) res False d = Ok (True, d + 1, st')
     \<and> pr_inv (tx_queue st') \<and> pr_all (tx_queue st') = tl (pr_all (tx_queue st))
     \<and> full_sndbuf_iterations st' = 0
     \<and> socket_regions st' = (let sp = iop_socket (hd (pr_all (tx_queue st)));
          s = (if result_code res \<noteq> PIFUS_ASYNC then enqueue_in_cqueue (socket_regions st sp) res else socket_regions st sp)
        in (socket_regions st)(sp := s\<lparr>dequeued_ops := dequeued_ops s + 1\<rparr>))"
proof -
  let ?q = "tx_queue st"
  have "pr_list ?q r \<noteq> []" using pr_top_all(2) [OF assms(2)] by blast
  from prio_ring_erase_spec [OF assms(1,3) this] obtain q' where q': "prio_ring_erase_first ?q = Ok (True, q')"
    "pr_inv q'" "\<And>r'. pr_list q' r' = (if r' = r then tl (pr_list ?q r) else pr_list ?q r')" by blast
  show ?thesis
    using q'(1,2) pr_top_tl_all [OF assms(2) q'(3)] pr_top_slot(3) [OF assms(1,2)]
    by (simp add: complete_operation_def Let_def)
qed

lemma complete_scan:
  assumes "pr_inv (tx_queue st)" "k < length (pr_list (tx_queue st) r)" "unat i = rb_slot (pr_ring (tx_queue st) r) k"
    and "iop = pr_at (tx_queue st) (r, i)"
  shows "\<exists>K st'. complete_operation st (r, i) res True d = Ok (True, d, st')
     \<and> pr_inv (tx_queue st') \<and> K < length (pr_all (tx_queue st)) \<and> pr_all (tx_queue st) ! K = iop
     \<and> pr_all (tx_queue st') = (pr_all (tx_queue st))[K := iop\<lparr>iop_operation := (iop_operation iop)\<lparr>op_code := NOP\<rparr>\<rparr>]
     \<and> full_sndbuf_iterations st' = full_sndbuf_iterations st
     \<and> socket_regions st' = (let sp = iop_socket iop;
          s = (if result_code res \<noteq> PIFUS_ASYNC then enqueue_in_cqueue (socket_regions st sp) res else socket_regions st sp)
        in (socket_regions st)(sp := s\<lparr>dequeued_ops := dequeued_ops s + 1\<rparr>))"
proof -
  obtain K where K: "K < length (pr_all (tx_queue st))" "pr_all (tx_queue st) ! K = pr_at (tx_queue st) (r, i)"
    "\<And>x. pr_all (pr_store (tx_queue st) (r, i) x) = (pr_all (tx_queue st))[K := x]"
    by (rule pr_store_all [OF assms(1-3)]) blast
  with assms(4) pr_store_spec(1) [OF assms(1-3)] show ?thesis
    by (intro exI [of _ K], cases "result_code res = PIFUS_ASYNC") (simp_all add: complete_operation_def Let_def)
qed

text \<open>Both completions keep the accounting.\<close>

lemma pending_update:
  assumes "K < length (pr_all q)" "pr_all q ! K = iop" "op_code (iop_operation iop) \<noteq> NOP"
    and "pr_all q' = (pr_all q)[K := iop\<lparr>iop_operation := (iop_operation iop)\<lparr>op_code := NOP\<rparr>\<rparr>]"
  shows "pending q p = pending q' p + (if iop_socket iop = p then 1 else 0)"
  using length_filter_upd [OF assms(1), where P = "\<lambda>iop. iop_socket iop = p \<and> op_code (iop_operation iop) \<noteq> NOP"
      and x = "iop\<lparr>iop_operation := (iop_operation iop)\<lparr>op_code := NOP\<rparr>\<rparr>"] assms(2,3)
  by (simp add: pending_def assms(4) split: if_splits)

lemma weight_update:
  assumes "K < length (pr_all q)" "pr_all q ! K = iop" "is_recv_op iop"
    and "pr_all q' = (pr_all q)[K := iop\<lparr>iop_operation := (iop_operation iop)\<lparr>op_code := NOP\<rparr>\<rparr>]"
  shows "weight q' < weight q"
  using length_filter_upd [OF assms(1), where P = is_recv_op
      and x = "iop\<lparr>iop_operation := (iop_operation iop)\<lparr>op_code := NOP\<rparr>\<rparr>"] assms(2,3)
  by (simp add: weight_def assms(4)) (simp add: is_recv_op_def)

lemma counted_complete:
  assumes "counted st" "\<And>p. pending (tx_queue st) p = pending (tx_queue st') p + (if sp = p then 1 else 0)"
    and "socket_regions st' = (socket_regions st)(sp := s\<lparr>dequeued_ops := dequeued_ops s + 1\<rparr>)"
    and "s = (if b then enqueue_in_cqueue (socket_regions st sp) res else socket_regions st sp)"
  shows "counted st'"
proof -
  have "enqueued_ops (socket_regions st p) - dequeued_ops (socket_regions st p) =
      of_nat (pending (tx_queue st') p) + (if sp = p then 1 else 0)" for p
    using assms(1) assms(2) [of p] by (simp add: counted_def)
  then show ?thesis using assms(3,4) by (auto simp: counted_def algebra_simps)
qed

lemma counted_frame: "tx_frame st st' \<Longrightarrow> counted st' = counted st"
  by (simp add: counted_def tx_frame_def)

section \<open>One operation\<close>

text \<open>
  The outcome of a call of \<open>handle_operation\<close> on the operation at the head of the queue: it returns,
  keeps the queue well formed and the accounting, and consumes weight when it answers true.
\<close>

definition good_outcome :: "'l stack \<Rightarrow> (bool \<times> u8 \<times> 'l stack) res \<Rightarrow> bool" where
  "good_outcome st r \<longleftrightarrow> (case r of Fault f \<Rightarrow> True | Ok (go_on, d, st') \<Rightarrow>
     pr_inv (tx_queue st') \<and> (counted st \<longrightarrow> counted st') \<and> (go_on \<longrightarrow> weight (tx_queue st') < weight (tx_queue st))
       \<and> (\<forall>p. pending (tx_queue st') p \<le> pending (tx_queue st) p))"

lemma good_outcome_frame: "tx_frame st st1 \<Longrightarrow> good_outcome st r = good_outcome st1 r"
proof -
  assume f: "tx_frame st st1"
  have "tx_queue st1 = tx_queue st" using f by (simp add: tx_frame_def)
  then show ?thesis unfolding good_outcome_def counted_frame [OF f] by (rule ssubst) (rule refl)
qed

lemma good_outcome_head:
  assumes "pr_inv (tx_queue st)" "pr_top (tx_queue st) = Some r" "last_peek (tx_queue st) = Some r"
    and "op_code (iop_operation (hd (pr_all (tx_queue st)))) \<noteq> NOP"
  shows "good_outcome st (complete_operation st (r, rb_tail (pr_ring (tx_queue st) r)) res False d)"
proof -
  have ne: "pr_all (tx_queue st) \<noteq> []" using pr_top_all(1) [of "tx_queue st"] assms(2) by auto
  obtain st' where c: "complete_operation st (r, rb_tail (pr_ring (tx_queue st) r)) res False d = Ok (True, d + 1, st')"
    "pr_inv (tx_queue st')" "pr_all (tx_queue st') = tl (pr_all (tx_queue st))"
    "socket_regions st' = (let sp = iop_socket (hd (pr_all (tx_queue st)));
          s = (if result_code res \<noteq> PIFUS_ASYNC then enqueue_in_cqueue (socket_regions st sp) res else socket_regions st sp)
        in (socket_regions st)(sp := s\<lparr>dequeued_ops := dequeued_ops s + 1\<rparr>))"
    using complete_head [OF assms(1-3), of res d] by blast
  have "counted st \<Longrightarrow> counted st'"
    by (rule counted_complete [OF _ _ c(4) [unfolded Let_def] refl])
      (use pending_tl [OF ne c(3)] assms(4) in auto)
  with c(1,2) weight_tl [OF ne c(3)] pending_tl [OF ne c(3)] show ?thesis by (simp add: good_outcome_def)
qed

lemma good_outcome_scan:
  assumes "pr_inv (tx_queue st)" "k < length (pr_list (tx_queue st) r)" "unat i = rb_slot (pr_ring (tx_queue st) r) k"
    and "is_recv_op (pr_at (tx_queue st) (r, i))"
  shows "good_outcome st (complete_operation st (r, i) res True d)"
proof -
  let ?iop = "pr_at (tx_queue st) (r, i)"
  obtain K st' where c: "complete_operation st (r, i) res True d = Ok (True, d, st')" "pr_inv (tx_queue st')"
    "K < length (pr_all (tx_queue st))" "pr_all (tx_queue st) ! K = ?iop"
    "pr_all (tx_queue st') = (pr_all (tx_queue st))[K := ?iop\<lparr>iop_operation := (iop_operation ?iop)\<lparr>op_code := NOP\<rparr>\<rparr>]"
    "socket_regions st' = (let sp = iop_socket ?iop;
          s = (if result_code res \<noteq> PIFUS_ASYNC then enqueue_in_cqueue (socket_regions st sp) res else socket_regions st sp)
        in (socket_regions st)(sp := s\<lparr>dequeued_ops := dequeued_ops s + 1\<rparr>))"
    using complete_scan [OF assms(1-3) refl, of res d] by blast
  have nop: "op_code (iop_operation ?iop) \<noteq> NOP" using assms(4) by (simp add: is_recv_op_def)
  have "counted st \<Longrightarrow> counted st'"
    by (rule counted_complete [OF _ _ c(6) [unfolded Let_def] refl])
      (use pending_update [OF c(3,4) nop c(5)] in auto)
  with c(1,2) weight_update [OF c(3,4) assms(4) c(5)] pending_update [OF c(3,4) nop c(5)] show ?thesis by (simp add: good_outcome_def)
qed

text \<open>A receive operation taken by the scan is handled without a further scan.\<close>

lemma handle_scanned:
  assumes "pr_inv (tx_queue st)" "k < length (pr_list (tx_queue st) r)" "unat i = rb_slot (pr_ring (tx_queue st) r) k"
    and "is_recv_op (pr_at (tx_queue st) (r, i))"
  shows "\<exists>res. handle_operation api st (r, i) True d = Some res \<and> good_outcome st res"
proof (cases "process_tx_op api st (pr_at (tx_queue st) (r, i))")
  case (Fault f)
  then show ?thesis by (simp add: handle_operation.simps good_outcome_def)
next
  case (Ok x)
  obtain res st1 where x: "x = (res, st1)" by force
  note p = process_tx_op_spec [OF Ok [unfolded x]]
  have q: "tx_queue st1 = tx_queue st" using p(1) by (simp add: tx_frame_def)
  have "result_code res \<noteq> PIFUS_TRY_AGAIN" using p(3) assms(4) by (auto simp: is_recv_op_def)
  with Ok x have h: "handle_operation api st (r, i) True d = Some (complete_operation st1 (r, i) res True d)"
    by (simp add: handle_operation.simps)
  have "good_outcome st1 (complete_operation st1 (r, i) res True d)"
    by (rule good_outcome_scan) (use assms q in simp_all)
  then have "good_outcome st (complete_operation st1 (r, i) res True d)"
    by (simp add: good_outcome_frame [OF p(1)])
  with h show ?thesis by blast
qed

text \<open>The operation at the head of the queue, as the loop hands it over after a peek.\<close>

lemma good_outcome_sndbuf:
  "pr_inv (tx_queue st) \<Longrightarrow> good_outcome st (Ok (False, d, st\<lparr>full_sndbuf_iterations := n\<rparr>))"
  by (simp add: good_outcome_def counted_def)

lemma good_outcome_nop:
  assumes "pr_inv (tx_queue st)" "pr_top (tx_queue st) = Some r" "last_peek (tx_queue st) = Some r"
    and "op_code (iop_operation (hd (pr_all (tx_queue st)))) = NOP"
  shows "good_outcome st (res_bind (prio_ring_erase_first (tx_queue st)) (\<lambda>(ok, q). Ok (True, d, st\<lparr>tx_queue := q\<rparr>)))"
proof -
  let ?q = "tx_queue st"
  have ne: "pr_all ?q \<noteq> []" using pr_top_all(1) [of ?q] assms(2) by auto
  have "pr_list ?q r \<noteq> []" using pr_top_all(2) [OF assms(2)] by blast
  from prio_ring_erase_spec [OF assms(1,3) this] obtain q' where q': "prio_ring_erase_first ?q = Ok (True, q')"
    "pr_inv q'" "\<And>r'. pr_list q' r' = (if r' = r then tl (pr_list ?q r) else pr_list ?q r')" by blast
  note tl = pr_top_tl_all [OF assms(2) q'(3)]
  have "pending q' = pending ?q" using pending_tl [OF ne tl] assms(4) by auto
  with q'(1,2) weight_tl [OF ne tl] show ?thesis by (simp add: good_outcome_def counted_def)
qed

lemma handle_operation_head:
  assumes "pr_inv (tx_queue st)" "pr_top (tx_queue st) = Some r" "last_peek (tx_queue st) = Some r"
  shows "\<exists>res. handle_operation api st (r, rb_tail (pr_ring (tx_queue st) r)) False d = Some res \<and> good_outcome st res"
proof (cases "process_tx_op api st (pr_at (tx_queue st) (r, rb_tail (pr_ring (tx_queue st) r)))")
  case (Fault f)
  then show ?thesis by (simp add: handle_operation.simps good_outcome_def)
next
  case (Ok x)
  let ?p = "(r, rb_tail (pr_ring (tx_queue st) r))"
  obtain res st1 where x: "x = (res, st1)" by force
  note p = process_tx_op_spec [OF Ok [unfolded x]]
  have q: "tx_queue st1 = tx_queue st" using p(1) by (simp add: tx_frame_def)
  have code: "res_code res = op_code (iop_operation (hd (pr_all (tx_queue st))))"
    using p(2) pr_top_slot(3) [OF assms(1,2)] by simp
  note h = handle_operation.simps [of api st ?p False d, unfolded Ok x res.case prod.case]
  note pre = assms [folded q]
  consider "res_code res = NOP" | "res_code res \<noteq> NOP" "result_code res = PIFUS_TRY_AGAIN" "full_sndbuf_iterations st1 < 64"
    | "res_code res \<noteq> NOP" "result_code res = PIFUS_TRY_AGAIN" "\<not> full_sndbuf_iterations st1 < 64"
    | "res_code res \<noteq> NOP" "result_code res \<noteq> PIFUS_TRY_AGAIN" by blast
  then have "\<exists>o'. handle_operation api st ?p False d = Some o' \<and> good_outcome st1 o'"
  proof cases
    case 1
    with h good_outcome_nop [OF pre] code q show ?thesis by auto
  next
    case 2
    with h good_outcome_sndbuf [OF pre(1)] show ?thesis by (auto simp: MAX_FULL_SND_BUF_ITERATIONS_def not_le)
  next
    case 3
    then have h3: "handle_operation api st ?p False d = Option.bind (prio_ring_find (tx_queue st1) is_recv_op)
        (\<lambda>r. case r of Some recv_op \<Rightarrow> handle_operation api st1 recv_op True d | None \<Rightarrow> Some (Ok (False, d, st1)))"
      using h by (simp add: MAX_FULL_SND_BUF_ITERATIONS_def not_less)
    show ?thesis
    proof (rule prio_ring_find_spec [OF pre(1), of is_recv_op])
      assume "prio_ring_find (tx_queue st1) is_recv_op = Some None"
      with h3 good_outcome_sndbuf [OF pre(1), of d "full_sndbuf_iterations st1"] show ?thesis by simp
    next
      fix r' i k
      assume f: "prio_ring_find (tx_queue st1) is_recv_op = Some (Some (r', i))" "k < length (pr_list (tx_queue st1) r')"
        "unat i = rb_slot (pr_ring (tx_queue st1) r') k" "is_recv_op (pr_list (tx_queue st1) r' ! k)"
      from f(4) pr_at_slot [OF f(2,3)] have "is_recv_op (pr_at (tx_queue st1) (r', i))" by simp
      from handle_scanned [OF pre(1) f(2,3) this] h3 f(1) show ?thesis by simp
    qed
  next
    case 4
    with h good_outcome_head [OF pre, of res d] code q show ?thesis by auto
  qed
  then show ?thesis by (simp add: good_outcome_frame [OF p(1)])
qed

section \<open>The loop\<close>

lemma lwip_loop_returns:
  "pr_inv (tx_queue st) \<Longrightarrow> \<exists>res. lwip_loop api st d = Some res
     \<and> (\<forall>st'. res = Ok st' \<longrightarrow> pr_inv (tx_queue st') \<and> (counted st \<longrightarrow> counted st'))"
proof (induction "weight (tx_queue st)" arbitrary: st d rule: less_induct)
  case less
  show ?case
  proof (cases "d < MAX_DEQUEUES_PER_ITERATION \<and> pr_top (tx_queue st) \<noteq> None")
    case False
    then show ?thesis using less.prems prio_ring_peek_spec [OF less.prems]
      by (auto simp: lwip_loop.simps [of api st d] counted_def)
  next
    case True
    then obtain r where r: "pr_top (tx_queue st) = Some r" "d < MAX_DEQUEUES_PER_ITERATION" by auto
    define st1 where "st1 = st\<lparr>tx_queue := (tx_queue st)\<lparr>last_peek := Some r\<rparr>\<rparr>"
    have all: "pr_all (tx_queue st1) = pr_all (tx_queue st)" by (simp add: st1_def)
    have "pr_inv (tx_queue st1)" "pr_top (tx_queue st1) = Some r" "last_peek (tx_queue st1) = Some r"
      using less.prems r(1) by (simp_all add: st1_def)
    from handle_operation_head [OF this, of api d] obtain res where
      res: "handle_operation api st1 (r, rb_tail (pr_ring (tx_queue st1) r)) False d = Some res" "good_outcome st1 res"
      by blast
    have c1: "counted st \<Longrightarrow> counted st1" using all by (simp add: counted_def pending_def) (simp add: st1_def)
    have l: "lwip_loop api st d = (case res of Fault f \<Rightarrow> Some (Fault f)
       | Ok (go_on, dequeued1, st2) \<Rightarrow> if go_on then lwip_loop api st2 dequeued1 else Some (Ok st2))"
      using r res(1) prio_ring_peek_spec [OF less.prems]
      by (simp add: lwip_loop.simps [of api st d] st1_def)
    show ?thesis
    proof (cases res)
      case (Ok x)
      obtain go_on d2 st2 where x: "x = (go_on, d2, st2)" by (metis prod_cases3)
      have g: "pr_inv (tx_queue st2)" "counted st1 \<longrightarrow> counted st2"
        "go_on \<longrightarrow> weight (tx_queue st2) < weight (tx_queue st)"
        using res(2) all by (simp_all add: Ok x good_outcome_def weight_def)
      show ?thesis
      proof (cases go_on)
        case True
        from less.hyps [OF _ g(1), of d2] g(3) True show ?thesis using l g(2) c1 by (auto simp: Ok x)
      next
        case False
        then show ?thesis using l g(1,2) c1 by (simp add: Ok x)
      qed
    qed (simp add: l)
  qed
qed

section \<open>Properties\<close>

text \<open>
  C12. One iteration of the stack's main loop always returns, also when a full send buffer makes it scan
  the transmit queue: every operation it answers with true is removed or overwritten with NOP. The
  transmit queue stays well formed, and for every socket the difference of its two operation counters,
  which the priority threads use as rate limit, stays the number of its unserved operations in the queue.
\<close>

theorem lwip_loop_iteration_returns:
  assumes "pr_inv (tx_queue st)"
  shows "\<exists>res. lwip_loop_iteration api st = Some res \<and> (\<forall>st'. res = Ok st' \<longrightarrow> pr_inv (tx_queue st')
     \<and> ((\<forall>p. enqueued_ops (socket_regions st p) - dequeued_ops (socket_regions st p) = of_nat (pending (tx_queue st) p))
        \<longrightarrow> (\<forall>p. enqueued_ops (socket_regions st' p) - dequeued_ops (socket_regions st' p) = of_nat (pending (tx_queue st') p))))"
  using lwip_loop_returns [OF assms, of api 0] by (simp add: lwip_loop_iteration_def counted_def)

lemma pr_demo_views:
  "pr_inv pr_demo" "pr_top pr_demo = Some High" "rb_tail (pr_ring pr_demo High) = 0"
  "map iop_socket (pr_all pr_demo) = [1, 5, 6]"
  by (simp_all add: pr_inv_def pr_top_def pr_all_def pr_demo_def Let_def rb_inv_def pr_list_def rb_list_def
      rb_count_def ring_count_def ring_view_def upt_rec)

theorem lwip_loop_iteration_returns_witness:
  "\<exists>res. lwip_loop_iteration demo_api demo_stack = Some res \<and> (\<forall>st'. res = Ok st' \<longrightarrow> pr_inv (tx_queue st'))"
proof -
  have "pr_inv (tx_queue demo_stack)" by (simp add: demo_stack_def pr_demo_views)
  from lwip_loop_iteration_returns [OF this, of demo_api] show ?thesis by blast
qed

text \<open>
  Handling the operation at the head of the transmit queue: a NOP is dropped; an operation to be tried
  again stays where it is, no result is delivered and the counter of full send buffers grows; every
  other operation leaves the queue, its socket counts it, and its result is delivered unless the
  operation finishes asynchronously. The operations behind it keep their order.
\<close>

theorem handle_operation_cases:
  assumes "pr_inv (tx_queue st)" "prio_ring_peek (tx_queue st) = (Some tx_op, tx_queue st)"
    and "iop = hd (pr_all (tx_queue st))" "process_tx_op api st iop = Ok (r, st1)"
    and "full_sndbuf_iterations st1 < 64"
  shows "\<exists>go_on d' st'. handle_operation api st tx_op False d = Some (Ok (go_on, d', st')) \<and>
     (if op_code (iop_operation iop) = NOP
      then go_on \<and> d' = d \<and> pr_all (tx_queue st') = tl (pr_all (tx_queue st)) \<and> socket_regions st' = socket_regions st1
      else if result_code r = PIFUS_TRY_AGAIN
      then \<not> go_on \<and> d' = d \<and> tx_queue st' = tx_queue st \<and> socket_regions st' = socket_regions st1
         \<and> full_sndbuf_iterations st' = full_sndbuf_iterations st1 + 1
      else go_on \<and> d' = d + 1 \<and> pr_all (tx_queue st') = tl (pr_all (tx_queue st)) \<and> full_sndbuf_iterations st' = 0
         \<and> socket_regions st' = (socket_regions st1)(iop_socket iop :=
             (let s = (if result_code r = PIFUS_ASYNC then socket_regions st1 (iop_socket iop)
                       else enqueue_in_cqueue (socket_regions st1 (iop_socket iop)) r)
              in s\<lparr>dequeued_ops := dequeued_ops s + 1\<rparr>)))"
proof -
  obtain rn where rn: "pr_top (tx_queue st) = Some rn" "tx_op = (rn, rb_tail (pr_ring (tx_queue st) rn))"
    and qp: "(tx_queue st)\<lparr>last_peek := Some rn\<rparr> = tx_queue st"
    using assms(2) prio_ring_peek_spec [OF assms(1)] by (auto split: option.splits)
  have lp: "last_peek (tx_queue st) = Some rn"
    using arg_cong [where f = last_peek, OF qp] by simp
  have at: "pr_at (tx_queue st) tx_op = iop" using pr_top_slot(3) [OF assms(1) rn(1)] assms(3) rn(2) by simp
  note p = process_tx_op_spec [OF assms(4)]
  have q: "tx_queue st1 = tx_queue st" using p(1) by (simp add: tx_frame_def)
  note pre = assms(1) [folded q] rn(1) [folded q] lp [folded q]
  have "pr_list (tx_queue st) rn \<noteq> []" using pr_top_all(2) [OF rn(1)] by blast
  from prio_ring_erase_spec [OF assms(1) lp this] obtain q' where q': "prio_ring_erase_first (tx_queue st) = Ok (True, q')"
    "\<And>r'. pr_list q' r' = (if r' = rn then tl (pr_list (tx_queue st) rn) else pr_list (tx_queue st) r')" by blast
  note tl = pr_top_tl_all [OF rn(1) q'(2)]
  note h = handle_operation.simps [of api st tx_op False d, unfolded at assms(4) res.case prod.case]
  consider "res_code r = NOP" | "res_code r \<noteq> NOP" "result_code r = PIFUS_TRY_AGAIN"
    | "res_code r \<noteq> NOP" "result_code r \<noteq> PIFUS_TRY_AGAIN" by blast
  then show ?thesis
  proof cases
    case 1
    with h q q'(1) tl p(2) show ?thesis by auto
  next
    case 2
    with h q p(2) assms(5) show ?thesis by (auto simp: MAX_FULL_SND_BUF_ITERATIONS_def not_le)
  next
    case 3
    from complete_head [OF pre, of r d] obtain st' where
      c: "complete_operation st1 tx_op r False d = Ok (True, d + 1, st')"
        "pr_all (tx_queue st') = tl (pr_all (tx_queue st))" "full_sndbuf_iterations st' = 0"
        "socket_regions st' = (socket_regions st1)(iop_socket iop :=
             (let s = (if result_code r = PIFUS_ASYNC then socket_regions st1 (iop_socket iop)
                       else enqueue_in_cqueue (socket_regions st1 (iop_socket iop)) r)
              in s\<lparr>dequeued_ops := dequeued_ops s + 1\<rparr>))"
      unfolding q rn(2) assms(3) by (auto simp: Let_def)
    have "handle_operation api st tx_op False d = Some (Ok (True, d + 1, st'))" using h 3 c(1) by simp
    with c(2-4) 3 p(2) show ?thesis by auto
  qed
qed

text \<open>The small stack with a listen operation of socket 1 at the head of its queue.\<close>

definition demo_queue :: "pifus_operation \<Rightarrow> pifus_operation \<Rightarrow> prio_ring" where
  "demo_queue o1 o2 = pr_demo\<lparr>high_prio_queue_buffer := (let x = \<lparr>iop_operation = o1, iop_socket = 1\<rparr> in [x, x, x]),
     low_prio_queue_buffer := (let x = \<lparr>iop_operation = o2, iop_socket = 5\<rparr> in [x, x, x]), last_peek := Some High\<rparr>"

lemma demo_queue_views:
  "pr_inv (demo_queue o1 o2)" "pr_top (demo_queue o1 o2) = Some High" "rb_tail (high_prio_queue (demo_queue o1 o2)) = 0"
  "(demo_queue o1 o2)\<lparr>last_peek := Some High\<rparr> = demo_queue o1 o2"
  "pr_list (demo_queue o1 o2) High = [\<lparr>iop_operation = o1, iop_socket = 1\<rparr>]"
  "pr_list (demo_queue o1 o2) Low = [\<lparr>iop_operation = o2, iop_socket = 5\<rparr>, \<lparr>iop_operation = o2, iop_socket = 5\<rparr>]"
  "pr_all (demo_queue o1 o2) =
     [\<lparr>iop_operation = o1, iop_socket = 1\<rparr>, \<lparr>iop_operation = o2, iop_socket = 5\<rparr>, \<lparr>iop_operation = o2, iop_socket = 5\<rparr>]"
  by (simp_all add: pr_inv_def pr_top_def pr_all_def demo_queue_def pr_demo_def Let_def rb_inv_def pr_list_def rb_list_def
      rb_count_def ring_count_def ring_view_def upt_rec)

definition demo_listen :: "unit stack" where
  "demo_listen = demo_stack\<lparr>tx_queue := demo_queue \<lparr>op_code = TCP_LISTEN, op_data = Listen_Data 1\<rparr> zero_op\<rparr>"

theorem handle_operation_cases_witness:
  "\<exists>st'. handle_operation demo_api demo_listen (High, 0) False 0 = Some (Ok (True, 1, st'))
     \<and> length (pr_all (tx_queue st')) = 2"
proof -
  let ?iop = "hd (pr_all (tx_queue demo_listen))"
  have q: "pr_inv (tx_queue demo_listen)" "prio_ring_peek (tx_queue demo_listen) = (Some (High, 0), tx_queue demo_listen)"
    by (simp_all add: demo_listen_def prio_ring_peek_spec demo_queue_views)
  have iop: "?iop = \<lparr>iop_operation = \<lparr>op_code = TCP_LISTEN, op_data = Listen_Data 1\<rparr>, iop_socket = 1\<rparr>"
    by (simp add: demo_listen_def demo_queue_views)
  have pcb: "pcb demo_socket = None" by (simp add: demo_socket_def zero_socket_def)
  have "\<exists>r st1. process_tx_op demo_api demo_listen
      \<lparr>iop_operation = \<lparr>op_code = TCP_LISTEN, op_data = Listen_Data 1\<rparr>, iop_socket = 1\<rparr> = Ok (r, st1)
    \<and> result_code r = PIFUS_OK \<and> full_sndbuf_iterations st1 < 64"
    by (simp add: process_tx_op_def is_tcp_operation_iff ensure_pcb_def tx_tcp_listen_def demo_listen_def
        demo_stack_def demo_api_def pcb Let_def)
  then obtain r st1 where p: "process_tx_op demo_api demo_listen ?iop = Ok (r, st1)" "result_code r = PIFUS_OK"
    "full_sndbuf_iterations st1 < 64" unfolding iop by blast
  from handle_operation_cases [OF q refl p(1,3), of 0] p(2) iop show ?thesis
    by (auto simp: demo_listen_def demo_queue_views)
qed

text \<open>
  The scan against a full send buffer: once 64 iterations found lwIP's send buffer full, the first
  receive operation in service order is handled although a write is in front of it. It is overwritten
  in place with NOP, all other operations keep their place, and its socket counts it and gets its
  result. Without a receive operation in the queue nothing is completed.
\<close>

theorem handle_operation_scan:
  assumes "pr_inv (tx_queue st)" "prio_ring_peek (tx_queue st) = (Some tx_op, tx_queue st)"
    and "process_tx_op api st (hd (pr_all (tx_queue st))) = Ok (r, st1)" "result_code r = PIFUS_TRY_AGAIN"
    and "64 \<le> full_sndbuf_iterations st1"
  shows "case List.find is_recv_op (pr_all (tx_queue st)) of
      None \<Rightarrow> handle_operation api st tx_op False d = Some (Ok (False, d, st1))
    | Some recv_op \<Rightarrow>
        (case process_tx_op api st1 recv_op of
           Fault f \<Rightarrow> handle_operation api st tx_op False d = Some (Fault f)
         | Ok (r2, st2) \<Rightarrow> \<exists>K st'. handle_operation api st tx_op False d = Some (Ok (True, d, st'))
             \<and> K < length (pr_all (tx_queue st)) \<and> pr_all (tx_queue st) ! K = recv_op
             \<and> pr_all (tx_queue st') = (pr_all (tx_queue st))[K := recv_op\<lparr>iop_operation := (iop_operation recv_op)\<lparr>op_code := NOP\<rparr>\<rparr>]
             \<and> socket_regions st' = (socket_regions st2)(iop_socket recv_op :=
                 (let s = (if result_code r2 = PIFUS_ASYNC then socket_regions st2 (iop_socket recv_op)
                           else enqueue_in_cqueue (socket_regions st2 (iop_socket recv_op)) r2)
                  in s\<lparr>dequeued_ops := dequeued_ops s + 1\<rparr>)))"
proof -
  obtain rn where rn: "pr_top (tx_queue st) = Some rn" "tx_op = (rn, rb_tail (pr_ring (tx_queue st) rn))"
    using assms(2) prio_ring_peek_spec [OF assms(1)] by (auto split: option.splits)
  have at: "pr_at (tx_queue st) tx_op = hd (pr_all (tx_queue st))" using pr_top_slot(3) [OF assms(1) rn(1)] rn(2) by simp
  note p = process_tx_op_spec [OF assms(3)]
  have q: "tx_queue st1 = tx_queue st" using p(1) by (simp add: tx_frame_def)
  have "res_code r \<noteq> NOP" using p(2,3) assms(4) by simp
  then have h: "handle_operation api st tx_op False d = Option.bind (prio_ring_find (tx_queue st) is_recv_op)
      (\<lambda>r. case r of Some recv_op \<Rightarrow> handle_operation api st1 recv_op True d | None \<Rightarrow> Some (Ok (False, d, st1)))"
    using assms(3-5) by (simp add: handle_operation.simps [of api st tx_op] at MAX_FULL_SND_BUF_ITERATIONS_def q)
  show ?thesis
  proof (rule prio_ring_find_spec [OF assms(1), of is_recv_op])
    assume "prio_ring_find (tx_queue st) is_recv_op = Some None" "\<forall>x\<in>set (pr_all (tx_queue st)). \<not> is_recv_op x"
    with h show ?thesis by (simp add: find_None_iff [THEN iffD2])
  next
    fix r' i k
    let ?x = "pr_list (tx_queue st) r' ! k"
    assume f: "prio_ring_find (tx_queue st) is_recv_op = Some (Some (r', i))" "k < length (pr_list (tx_queue st) r')"
      "unat i = rb_slot (pr_ring (tx_queue st) r') k" "is_recv_op ?x" "List.find is_recv_op (pr_all (tx_queue st)) = Some ?x"
    have x: "pr_at (tx_queue st) (r', i) = ?x" by (rule pr_at_slot [OF f(2,3)])
    show ?thesis
    proof (cases "process_tx_op api st1 ?x")
      case (Fault e)
      then show ?thesis using h f(1,5) x q by (simp add: handle_operation.simps [of api st1])
    next
      case (Ok y)
      obtain r2 st2 where y: "y = (r2, st2)" by force
      note p2 = process_tx_op_spec [OF Ok [unfolded y]]
      have q2: "tx_queue st2 = tx_queue st" using p2(1) q by (simp add: tx_frame_def)
      have "result_code r2 \<noteq> PIFUS_TRY_AGAIN" using p2(3) f(4) by (auto simp: is_recv_op_def)
      with Ok y h f(1) x q have hc: "handle_operation api st tx_op False d = Some (complete_operation st2 (r', i) r2 True d)"
        by (simp add: handle_operation.simps [of api st1])
      from complete_scan [of st2 k r' i ?x r2 d] assms(1) f(2,3) x q2 hc Ok y f(5) show ?thesis
        by (auto simp: Let_def)
    qed
  qed
qed

text \<open>A write of socket 1 in front of two receive operations of socket 5, and no room at lwIP.\<close>

definition demo_write :: internal_operation where
  "demo_write = \<lparr>iop_operation = \<lparr>op_code = TCP_WRITE, op_data = Write_Data 32\<rparr>, iop_socket = 1\<rparr>"

definition demo_recv :: internal_operation where
  "demo_recv = \<lparr>iop_operation = \<lparr>op_code = TCP_RECV, op_data = Recv_Data 64 1\<rparr>, iop_socket = 5\<rparr>"

definition demo_full :: "unit stack" where
  "demo_full = demo_stack\<lparr>full_sndbuf_iterations := 64,
     tx_queue := demo_queue (iop_operation demo_write) (iop_operation demo_recv)\<rparr>"

lemma demo_full_queue:
  "pr_all (tx_queue demo_full) = [demo_write, demo_recv, demo_recv]" "pr_inv (tx_queue demo_full)"
  "prio_ring_peek (tx_queue demo_full) = (Some (High, 0), tx_queue demo_full)"
  by (simp_all add: demo_full_def demo_queue_views demo_write_def demo_recv_def prio_ring_peek_spec)

lemma demo_full_write:
  "\<exists>r st1. process_tx_op demo_api demo_full demo_write = Ok (r, st1) \<and> result_code r = PIFUS_TRY_AGAIN
     \<and> full_sndbuf_iterations st1 = 64 \<and> socket_regions st1 5 = demo_socket \<and> app_ptrs st1 = [Some 0]"
proof -
  have "pcb demo_socket = None" by (simp add: demo_socket_def zero_socket_def)
  then show ?thesis
    by (simp add: demo_write_def process_tx_op_def is_tcp_operation_iff ensure_pcb_def tx_tcp_write_def demo_full_def
        demo_stack_def demo_api_def demo_socket_app Let_def)
qed

lemma demo_full_recv:
  "socket_regions st 5 = demo_socket \<Longrightarrow> \<exists>r st1. process_tx_op demo_api st demo_recv = Ok (r, st1)"
proof -
  assume s: "socket_regions st 5 = demo_socket"
  have "pcb demo_socket = None" "byte_buffer_is_empty (recv_buffer demo_socket)" "app_index demo_socket = 0"
    by (simp_all add: demo_socket_def zero_socket_def byte_buffer_create_def byte_buffer_is_empty_def)
  with s show ?thesis
    by (simp add: demo_recv_def process_tx_op_def is_tcp_operation_iff ensure_pcb_def tx_tcp_recv_def
        demo_api_def Let_def split: prod.splits)
qed

theorem handle_operation_scan_witness:
  "\<exists>st' K. handle_operation demo_api demo_full (High, 0) False 0 = Some (Ok (True, 0, st'))
     \<and> pr_all (tx_queue st') = [demo_write, demo_recv, demo_recv][K := demo_recv\<lparr>iop_operation := (iop_operation demo_recv)\<lparr>op_code := NOP\<rparr>\<rparr>]"
proof -
  obtain r st1 where w: "process_tx_op demo_api demo_full demo_write = Ok (r, st1)" "result_code r = PIFUS_TRY_AGAIN"
    "full_sndbuf_iterations st1 = 64" "socket_regions st1 5 = demo_socket"
    using demo_full_write by blast
  obtain r2 st2 where v: "process_tx_op demo_api st1 demo_recv = Ok (r2, st2)" using demo_full_recv [OF w(4)] by blast
  have f: "List.find is_recv_op (pr_all (tx_queue demo_full)) = Some demo_recv"
    by (simp add: demo_full_queue is_recv_op_def demo_write_def demo_recv_def)
  from handle_operation_scan [OF demo_full_queue(2,3), of demo_api r st1 0] w v f show ?thesis
    by (auto simp: demo_full_queue(1))
qed

text \<open>
  C16. The two ways an operation of an application ends the stack process before its handler runs: a UDP
  operation exits, and an operation on a socket without control block dereferences NULL when lwIP has
  no block to give. Every other operation but a NOP runs its handler on a socket that has a control
  block; a NOP touches neither lwIP nor the socket. An abort has no handler: its result code is read
  without having been set.
\<close>

theorem process_tx_op_faults:
  fixes api :: "('l, 'i) lwip_api"
  defines "code \<equiv> \<lambda>iop. op_code (iop_operation iop)"
  shows "if code iop \<in> {NOP, CLIENT_NOP}
      then process_tx_op api st iop = Ok (\<lparr>res_code = code iop, result_code = PIFUS_OK, res_data = Res_Indeterminate\<rparr>, st)
      else if code iop \<notin> {TCP_BIND, TCP_LISTEN, TCP_ACCEPT, TCP_CONNECT, TCP_WRITE, TCP_RECV, TCP_CLOSE, TCP_ABORT}
      then process_tx_op api st iop = Fault Exit_Failure
      else if pcb (socket_regions st (iop_socket iop)) = None \<and> fst (lw_tcp_new api (st_lwip st)) = None
      then process_tx_op api st iop = Fault Null_Dereference
      else \<exists>st1. pcb (socket_regions st1 (iop_socket iop)) \<noteq> None \<and> tx_queue st1 = tx_queue st
         \<and> (\<forall>p. p \<noteq> iop_socket iop \<longrightarrow> socket_regions st1 p = socket_regions st p)
         \<and> process_tx_op api st iop = res_bind (dispatch_tcp api st1 iop (code iop))
             (\<lambda>((rc, d), st2). Ok (\<lparr>res_code = code iop, result_code = rc, res_data = d\<rparr>, st2))
         \<and> (code iop = TCP_ABORT \<longrightarrow> process_tx_op api st iop = Fault Indeterminate_Value)"
proof -
  let ?s = "socket_regions st (iop_socket iop)"
  consider "pcb ?s = None" "fst (lw_tcp_new api (st_lwip st)) = None" | "pcb ?s \<noteq> None"
    | lw p where "pcb ?s = None" "lw_tcp_new api (st_lwip st) = (Some p, lw)"
    by (metis not_None_eq prod.collapse)
  then show ?thesis
  proof cases
    case 1
    then have "ensure_pcb api st (iop_socket iop) = Fault Null_Dereference"
      by (cases "lw_tcp_new api (st_lwip st)") (simp add: ensure_pcb_def)
    with 1 show ?thesis by (simp add: process_tx_op_def is_tcp_operation_iff code_def)
  next
    case 2
    then have "ensure_pcb api st (iop_socket iop) = Ok st" by (auto simp: ensure_pcb_def)
    with 2 show ?thesis by (auto simp: process_tx_op_def is_tcp_operation_iff code_def)
  next
    case 3
    then obtain st1 where "ensure_pcb api st (iop_socket iop) = Ok st1" "pcb (socket_regions st1 (iop_socket iop)) \<noteq> None"
      "tx_queue st1 = tx_queue st" "\<forall>p. p \<noteq> iop_socket iop \<longrightarrow> socket_regions st1 p = socket_regions st p"
      by (simp add: ensure_pcb_def Let_def)
    with 3 show ?thesis by (auto simp: process_tx_op_def is_tcp_operation_iff code_def)
  qed
qed

definition udp_demo :: internal_operation where
  "udp_demo = \<lparr>iop_operation = \<lparr>op_code = UDP_SEND, op_data = Indeterminate\<rparr>, iop_socket = 1\<rparr>"

theorem process_tx_op_faults_witness:
  "process_tx_op demo_api demo_stack udp_demo = Fault Exit_Failure"
  using process_tx_op_faults [of udp_demo demo_api demo_stack] by (simp add: udp_demo_def)

end
