(* ===== verification/Cyclic_Path.thy ===== *)
theory Cyclic_Path
  imports Main
begin

text \<open>
  Doubly linked paths over a successor and a predecessor function: the shape of the circular list of
  the priority threads. Opening or closing a cycle at another node is a rotation of the list of nodes.
\<close>

fun dpath :: "('p \<Rightarrow> 'p) \<Rightarrow> ('p \<Rightarrow> 'p) \<Rightarrow> 'p \<Rightarrow> 'p list \<Rightarrow> 'p \<Rightarrow> bool" where
  "dpath s q a [] b \<longleftrightarrow> s a = b \<and> q b = a"
| "dpath s q a (x # xs) b \<longleftrightarrow> s a = x \<and> q x = a \<and> dpath s q x xs b"

definition cycle :: "('p \<Rightarrow> 'p) \<Rightarrow> ('p \<Rightarrow> 'p) \<Rightarrow> 'p list \<Rightarrow> bool" where
  "cycle s q ps \<longleftrightarrow> distinct ps \<and> (case ps of [] \<Rightarrow> True | p # qs \<Rightarrow> dpath s q p qs p)"

lemma dpath_append: "dpath s q a (xs @ y # ys) b \<longleftrightarrow> dpath s q a xs y \<and> dpath s q y ys b"
  by (induction xs arbitrary: a) auto

lemma dpath_cong:
  assumes "\<And>x. x \<in> set (a # xs) \<Longrightarrow> s x = s' x" "\<And>x. x \<in> set (xs @ [b]) \<Longrightarrow> q x = q' x"
  shows "dpath s q a xs b = dpath s' q' a xs b"
  using assms by (induction xs arbitrary: a) auto

lemma dpath_ends: "dpath s q a xs b \<Longrightarrow> s a = hd (xs @ [b]) \<and> q b = last (a # xs)"
  by (induction xs arbitrary: a) auto

lemma cycle_rotate: "cycle s q (xs @ ys) \<Longrightarrow> cycle s q (ys @ xs)"
  by (cases xs; cases ys) (auto simp: cycle_def dpath_append)

text \<open>The last edge of a path led elsewhere.\<close>

lemma dpath_retarget:
  "dpath s q a xs b \<Longrightarrow> distinct (a # xs) \<Longrightarrow> b \<notin> set xs \<Longrightarrow> c \<notin> set xs \<Longrightarrow>
   dpath (s(last (a # xs) := c)) (q(c := last (a # xs))) a xs c"
proof (induction xs arbitrary: a)
  case (Cons x xs)
  define l where "l = last (x # xs)"
  have "l \<in> set (x # xs)" unfolding l_def by (rule last_in_set) simp
  moreover have "dpath (s(l := c)) (q(c := l)) x xs c"
    unfolding l_def using Cons.prems by (intro Cons.IH) auto
  moreover have l: "last (a # x # xs) = l" by (simp add: l_def)
  moreover have "s a = x" "q x = a" "a \<noteq> l" "x \<noteq> c" using Cons.prems calculation by auto
  ultimately show ?case unfolding l by (simp del: fun_upd_apply add: fun_upd_other)
qed simp

lemma cycle_ends:
  assumes "cycle s q (a # xs)"
  shows "s a = hd (xs @ [a])" "q a = last (a # xs)"
  using assms dpath_ends [of s q a xs a] by (simp_all add: cycle_def)

text \<open>A new node before the first one, and the first node taken out.\<close>

lemma cycle_insert:
  assumes "cycle s q (a # xs)" "n \<notin> set (a # xs)" "t = last (a # xs)"
  shows "cycle (s(n := a, t := n)) (q(n := t, a := n)) (n # a # xs)"
proof -
  have c: "dpath s q a xs a" "distinct (a # xs)" using assms(1) by (auto simp: cycle_def)
  have t: "t \<in> set (a # xs)" unfolding assms(3) by (rule last_in_set) simp
  have "dpath (s(last (a # xs) := n)) (q(n := last (a # xs))) a xs n"
    using dpath_retarget [OF c(1,2), of n] c(2) assms(2) by auto
  moreover have "dpath (s(last (a # xs) := n)) (q(n := last (a # xs))) a xs n =
      dpath (s(n := a, t := n)) (q(n := t, a := n)) a xs n"
    by (rule dpath_cong) (use assms(2,3) t c(2) in auto)
  ultimately show ?thesis using assms(2) c(2) t by (auto simp: cycle_def)
qed

lemma cycle_remove:
  assumes "cycle s q (a # xs)"
  shows "cycle (s(q a := s a)) (q(s a := q a)) xs"
proof (cases xs)
  case (Cons y ys)
  note e = cycle_ends [OF assms]
  have "dpath s q y ys a" "distinct (a # y # ys)" using assms by (auto simp: cycle_def Cons)
  with dpath_retarget [of s q y ys a y] e show ?thesis by (auto simp: cycle_def Cons)
qed (simp add: cycle_def)

lemma cycle_index:
  assumes "cycle s q ps" "i < length ps"
  shows "s (ps ! i) = ps ! (Suc i mod length ps)" "q (ps ! (Suc i mod length ps)) = ps ! i"
proof -
  have ps: "ps = take i ps @ ps ! i # drop (Suc i) ps" using assms(2) by (rule id_take_nth_drop)
  then have c: "cycle s q ((ps ! i # drop (Suc i) ps) @ take i ps)"
    using assms(1) cycle_rotate by metis
  have nx: "hd ((drop (Suc i) ps @ take i ps) @ [ps ! i]) = ps ! (Suc i mod length ps)"
  proof (cases "Suc i < length ps")
    case True
    then show ?thesis by (simp add: hd_append hd_drop_conv_nth)
  next
    case False
    then have "Suc i = length ps" using assms(2) by simp
    then show ?thesis by (cases i; cases ps) (auto simp: hd_append)
  qed
  then show s: "s (ps ! i) = ps ! (Suc i mod length ps)"
    using cycle_ends(1) [of s q "ps ! i" "drop (Suc i) ps @ take i ps"] c by simp
  have "dpath s q (ps ! i) (drop (Suc i) ps @ take i ps) (ps ! i)" using c by (simp add: cycle_def)
  then have "q (s (ps ! i)) = ps ! i"
    by (cases "drop (Suc i) ps @ take i ps") auto
  with s show "q (ps ! (Suc i mod length ps)) = ps ! i" by simp
qed

end
