(* ===== verification/Iterated_List.thy ===== *)
theory Iterated_List
  imports Main
begin

text \<open>
  The contract of a container that is traversed through an iterator kept in the container itself, as
  \<open>ListFirst\<close> and \<open>ListNext\<close> of the stack's list are used: \<open>first\<close> starts a traversal of a container
  that is not empty, \<open>advance\<close> hands out one element after the other. \<open>None\<close> is an invalid memory access.
\<close>

section \<open>The loop of the client\<close>

text \<open>
  \<open>while (advance(l, &x)) body(x)\<close> with the state \<open>s\<close>; the outer option is \<open>None\<close> when the loop does
  not return.
\<close>

partial_function (option) while_next ::
    "('l \<Rightarrow> ('a option \<times> 'l) option) \<Rightarrow> ('a \<Rightarrow> 's \<Rightarrow> 's) \<Rightarrow> 'l \<Rightarrow> 's \<Rightarrow> ('l \<times> 's) option option" where
  "while_next advance body l s =
     (case advance l of
        None \<Rightarrow> Some None
      | Some (None, l') \<Rightarrow> Some (Some (l', s))
      | Some (Some x, l') \<Rightarrow> while_next advance body l' (body x s))"

section \<open>The contract\<close>

locale container =
  fixes is_list :: "'l \<Rightarrow> 'a list \<Rightarrow> bool"

locale iterable = container is_list
  for is_list :: "'l \<Rightarrow> 'a list \<Rightarrow> bool" +
  fixes is_it :: "'l \<Rightarrow> 'a list \<Rightarrow> 'a list \<Rightarrow> bool"
    and first :: "'l \<Rightarrow> 'l option"
    and advance :: "'l \<Rightarrow> ('a option \<times> 'l) option"
  assumes first_it: "is_list l es \<Longrightarrow> es \<noteq> [] \<Longrightarrow> \<exists>l'. first l = Some l' \<and> is_it l' es es"
    and advance_it: "is_it l es (x # xs) \<Longrightarrow> \<exists>l'. advance l = Some (Some x, l') \<and> is_it l' es xs"
    and advance_end: "is_it l es [] \<Longrightarrow> advance l = Some (None, l)"
    and quit: "is_it l es xs \<Longrightarrow> is_list l es"
begin

lemma while_next_fold:
  "is_it l es xs \<Longrightarrow> \<exists>l'. while_next advance body l s = Some (Some (l', fold body xs s)) \<and> is_it l' es []"
proof (induction xs arbitrary: l s)
  case Nil
  then show ?case using advance_end by (simp add: while_next.simps [of advance])
next
  case (Cons x xs)
  from advance_it [OF Cons.prems] obtain l' where l': "advance l = Some (Some x, l')" "is_it l' es xs" by blast
  from Cons.IH [OF l'(2), of "body x s"] l'(1) show ?case by (simp add: while_next.simps [of advance _ l])
qed

text \<open>A traversal of a container that is not empty visits every element once, in order.\<close>

lemma traversal:
  assumes "is_list l es" "es \<noteq> []"
  shows "\<exists>l1 l2. first l = Some l1 \<and> while_next advance body l1 s = Some (Some (l2, fold body es s)) \<and> is_list l2 es"
  using first_it [OF assms] while_next_fold quit by meson

end

text \<open>A container from which elements are removed by position and to which they are added in front.\<close>

locale dynamic_container = iterable is_list is_it first advance
  for is_list :: "'l \<Rightarrow> 'a list \<Rightarrow> bool" and is_it :: "'l \<Rightarrow> 'a list \<Rightarrow> 'a list \<Rightarrow> bool"
    and first :: "'l \<Rightarrow> 'l option" and advance :: "'l \<Rightarrow> ('a option \<times> 'l) option" +
  fixes fresh :: "'l \<Rightarrow> 'm \<Rightarrow> bool"
    and push :: "'m \<Rightarrow> 'l \<Rightarrow> 'a \<Rightarrow> (bool \<times> 'l) option"
    and remove :: "'l \<Rightarrow> 'i \<Rightarrow> (bool \<times> 'l) option"
    and pos :: "'i \<Rightarrow> nat"
    and bound :: nat
  assumes push_front: "is_list l es \<Longrightarrow> fresh l m \<Longrightarrow> length es + 1 < bound \<Longrightarrow>
      \<exists>l'. push m l e = Some (True, l') \<and> is_list l' (e # es)"
    and remove_at: "is_list l es \<Longrightarrow> pos i < length es \<Longrightarrow>
      \<exists>l'. remove l i = Some (True, l') \<and> is_list l' (take (pos i) es @ drop (Suc (pos i)) es)"
begin

text \<open>What was put in front is handed out first, and removing it restores the list.\<close>

lemma push_then_first:
  assumes "is_list l es" "fresh l m" "length es + 1 < bound"
  shows "\<exists>l1 l2 l3. push m l e = Some (True, l1) \<and> first l1 = Some l2 \<and> advance l2 = Some (Some e, l3)"
  using push_front [OF assms] first_it advance_it by (metis list.distinct(1))

end

end
