(* ===== verification/Linked_List.thy ===== *)
theory Linked_List
  imports Prelude "HOL-Library.Monad_Syntax" Cyclic_Path Iterated_List
begin

text \<open>
  The doubly linked circular list of \<open>lwip/custom/stack/src/list/linked_list.c\<close>, in which a priority
  thread keeps its sockets. Nodes live in a heap, a partial map from addresses; freeing removes a
  node. A computation is \<open>None\<close> when it follows NULL or a pointer to a freed node. \<open>malloc\<close> is an
  argument: \<open>None\<close> for NULL, or an address.
\<close>

section \<open>Model\<close>

record 'a list_node =
  node_element :: 'a
  node_pred :: nat
  node_succ :: nat

text \<open>The fields are those of the C structures without the trailing underscore. \<open>clean_calls\<close> records the calls of the clean function, a function pointer.\<close>

record 'a list_data =
  nodes :: "nat \<rightharpoonup> 'a list_node"
  list_size :: u32
  iter_round :: u32
  list_head :: "nat option"
  iter_node :: "nat option"
  func_clean :: "nat option"
  clean_calls :: "(nat \<times> 'a) list"

definition set_succ :: "'a list_data \<Rightarrow> nat \<Rightarrow> nat \<Rightarrow> 'a list_data option" where
  "set_succ l p q = do {n \<leftarrow> nodes l p; Some (l\<lparr>nodes := (nodes l)(p \<mapsto> n\<lparr>node_succ := q\<rparr>)\<rparr>)}"

definition set_pred :: "'a list_data \<Rightarrow> nat \<Rightarrow> nat \<Rightarrow> 'a list_data option" where
  "set_pred l p q = do {n \<leftarrow> nodes l p; Some (l\<lparr>nodes := (nodes l)(p \<mapsto> n\<lparr>node_pred := q\<rparr>)\<rparr>)}"

definition set_element :: "'a list_data \<Rightarrow> nat \<Rightarrow> 'a \<Rightarrow> 'a list_data option" where
  "set_element l p e = do {n \<leftarrow> nodes l p; Some (l\<lparr>nodes := (nodes l)(p \<mapsto> n\<lparr>node_element := e\<rparr>)\<rparr>)}"

definition free_node :: "'a list_data \<Rightarrow> nat \<Rightarrow> 'a list_data option" where
  "free_node l p = do {n \<leftarrow> nodes l p; Some (l\<lparr>nodes := (nodes l)(p := None)\<rparr>)}"

text \<open>\<open>if (func_clean) func_clean(node->node_element);\<close>\<close>

definition clean :: "'a list_data \<Rightarrow> nat \<Rightarrow> 'a list_data option" where
  "clean l p = (case func_clean l of None \<Rightarrow> Some l
     | Some f \<Rightarrow> do {n \<leftarrow> nodes l p; Some (l\<lparr>clean_calls := clean_calls l @ [(f, node_element n)]\<rparr>)})"

text \<open>
  \<open>ListInit\<close> leaves \<open>iter_round\<close> as \<open>malloc\<close> returned it, the argument. The function pointers of
  the structure always name the functions below; the two failing allocations return NULL.
\<close>

definition ListInit :: "bool \<Rightarrow> bool \<Rightarrow> u32 \<Rightarrow> 'a list_data option" where
  "ListInit obj_ok data_ok garbage =
     (if \<not> obj_ok then None
      else if \<not> data_ok then None
      else Some \<lparr>nodes = Map.empty, list_size = 0, iter_round = garbage, list_head = None, iter_node = None,
                 func_clean = None, clean_calls = []\<rparr>)"

text \<open>The outer option is \<open>None\<close> when the loop does not return, the inner one as everywhere.\<close>

partial_function (option) deinit_loop :: "'a list_data \<Rightarrow> nat \<Rightarrow> nat \<Rightarrow> 'a list_data option option" where
  "deinit_loop l head cur =
     (case do {n \<leftarrow> nodes l cur; l1 \<leftarrow> clean l cur; l2 \<leftarrow> free_node l1 cur; Some (l2, node_succ n)} of
        None \<Rightarrow> Some None
      | Some (l2, cur2) \<Rightarrow> if cur2 \<noteq> head then deinit_loop l2 head cur2 else Some (Some l2))"

definition ListDeinit :: "'a list_data \<Rightarrow> 'a list_data option option" where
  "ListDeinit l = (case list_head l of None \<Rightarrow> Some (Some l) | Some head \<Rightarrow> deinit_loop l head head)"

text \<open>The four statements that put a new node in front of another one.\<close>

definition link_before :: "'a list_data \<Rightarrow> nat \<Rightarrow> 'a \<Rightarrow> nat \<Rightarrow> 'a list_data option" where
  "link_before l new element track = do {
     t \<leftarrow> nodes l track;
     let l1 = l\<lparr>nodes := (nodes l)(new \<mapsto> \<lparr>node_element = element, node_pred = node_pred t, node_succ = track\<rparr>)\<rparr>;
     t1 \<leftarrow> nodes l1 track;
     l2 \<leftarrow> set_succ l1 (node_pred t1) new;
     set_pred l2 track new }"

definition ListPushFront :: "nat option \<Rightarrow> 'a list_data \<Rightarrow> 'a \<Rightarrow> (bool \<times> 'a list_data) option" where
  "ListPushFront m l element =
     (case m of None \<Rightarrow> Some (False, l)
      | Some new \<Rightarrow> do {
          l1 \<leftarrow> (case list_head l of
                    None \<Rightarrow> Some (l\<lparr>nodes := (nodes l)(new \<mapsto> \<lparr>node_element = element, node_pred = new, node_succ = new\<rparr>)\<rparr>)
                  | Some head \<Rightarrow> link_before l new element head);
          Some (True, l1\<lparr>list_head := Some new, list_size := list_size l1 + 1\<rparr>) })"

definition ListPushBack :: "nat option \<Rightarrow> 'a list_data \<Rightarrow> 'a \<Rightarrow> (bool \<times> 'a list_data) option" where
  "ListPushBack m l element =
     (case m of None \<Rightarrow> Some (False, l)
      | Some new \<Rightarrow> do {
          l1 \<leftarrow> (case list_head l of
                    None \<Rightarrow> Some (l\<lparr>nodes := (nodes l)(new \<mapsto> \<lparr>node_element = element, node_pred = new, node_succ = new\<rparr>),
                                    list_head := Some new\<rparr>)
                  | Some head \<Rightarrow> link_before l new element head);
          Some (True, l1\<lparr>list_size := list_size l1 + 1\<rparr>) })"

text \<open>\<open>while (idx > 0) {track = track->node_succ; --idx;}\<close>\<close>

fun track_loop :: "'a list_data \<Rightarrow> nat \<Rightarrow> nat \<Rightarrow> nat option" where
  "track_loop l 0 track = Some track"
| "track_loop l (Suc idx) track = do {n \<leftarrow> nodes l track; track_loop l idx (node_succ n)}"

definition ListInsert :: "nat option \<Rightarrow> 'a list_data \<Rightarrow> u32 \<Rightarrow> 'a \<Rightarrow> (bool \<times> 'a list_data) option" where
  "ListInsert m l idx element =
     (if idx > list_size l then Some (False, l)
      else case m of None \<Rightarrow> Some (False, l)
      | Some new \<Rightarrow> do {
          l1 \<leftarrow> (case list_head l of
                    None \<Rightarrow> Some (l\<lparr>nodes := (nodes l)(new \<mapsto> \<lparr>node_element = element, node_pred = new, node_succ = new\<rparr>),
                                    list_head := Some new\<rparr>)
                  | Some head \<Rightarrow> do {
                      let l0 = (if idx = 0 then l\<lparr>list_head := Some new\<rparr> else l);
                      track \<leftarrow> track_loop l0 (unat idx) head;
                      link_before l0 new element track });
          Some (True, l1\<lparr>list_size := list_size l1 + 1\<rparr>) })"

definition ListPopFront :: "'a list_data \<Rightarrow> (bool \<times> 'a list_data) option" where
  "ListPopFront l =
     (case list_head l of None \<Rightarrow> Some (False, l)
      | Some head \<Rightarrow> do {
          h \<leftarrow> nodes l head;
          l1 \<leftarrow> (if head = node_pred h
                  then do {l1 \<leftarrow> clean l head; l2 \<leftarrow> free_node l1 head; Some (l2\<lparr>list_head := None\<rparr>)}
                  else do {
                    l1 \<leftarrow> set_succ l (node_pred h) (node_succ h);
                    h1 \<leftarrow> nodes l1 head;
                    l2 \<leftarrow> set_pred l1 (node_succ h1) (node_pred h1);
                    h2 \<leftarrow> nodes l2 head;
                    l3 \<leftarrow> clean (l2\<lparr>list_head := Some (node_succ h2)\<rparr>) head;
                    free_node l3 head });
          Some (True, l1\<lparr>list_size := list_size l1 - 1\<rparr>) })"

definition ListPopBack :: "'a list_data \<Rightarrow> (bool \<times> 'a list_data) option" where
  "ListPopBack l =
     (case list_head l of None \<Rightarrow> Some (False, l)
      | Some head \<Rightarrow> do {
          h \<leftarrow> nodes l head;
          l1 \<leftarrow> (if head = node_succ h
                  then do {l1 \<leftarrow> clean l head; l2 \<leftarrow> free_node l1 head; Some (l2\<lparr>list_head := None\<rparr>)}
                  else do {
                    let tail = node_pred h;
                    t \<leftarrow> nodes l tail;
                    l1 \<leftarrow> set_succ l (node_pred t) head;
                    t1 \<leftarrow> nodes l1 tail;
                    l2 \<leftarrow> set_pred l1 head (node_pred t1);
                    l3 \<leftarrow> clean l2 tail;
                    free_node l3 tail });
          Some (True, l1\<lparr>list_size := list_size l1 - 1\<rparr>) })"

definition ListRemove :: "'a list_data \<Rightarrow> u32 \<Rightarrow> (bool \<times> 'a list_data) option" where
  "ListRemove l idx =
     (if idx \<ge> list_size l then Some (False, l)
      else do {
        head \<leftarrow> list_head l;
        track \<leftarrow> track_loop l (unat idx) head;
        t \<leftarrow> nodes l track;
        let size = list_size l;
        l1 \<leftarrow> set_succ l (node_pred t) (node_succ t);
        l2 \<leftarrow> set_pred l1 (node_succ t) (node_pred t);
        let l3 = (if size = 1 then l2\<lparr>list_head := None\<rparr>
                  else if track = head then l2\<lparr>list_head := Some (node_succ t)\<rparr> else l2);
        l4 \<leftarrow> clean l3 track;
        l5 \<leftarrow> free_node l4 track;
        Some (True, l5\<lparr>list_size := size - 1\<rparr>) })"

definition ListSetFront :: "'a list_data \<Rightarrow> 'a \<Rightarrow> (bool \<times> 'a list_data) option" where
  "ListSetFront l element =
     (case list_head l of None \<Rightarrow> Some (False, l)
      | Some head \<Rightarrow> do {l1 \<leftarrow> clean l head; l2 \<leftarrow> set_element l1 head element; Some (True, l2)})"

definition ListSetBack :: "'a list_data \<Rightarrow> 'a \<Rightarrow> (bool \<times> 'a list_data) option" where
  "ListSetBack l element =
     (case list_head l of None \<Rightarrow> Some (False, l)
      | Some head \<Rightarrow> do {h \<leftarrow> nodes l head; l1 \<leftarrow> clean l (node_pred h);
                          l2 \<leftarrow> set_element l1 (node_pred h) element; Some (True, l2)})"

definition ListSetAt :: "'a list_data \<Rightarrow> u32 \<Rightarrow> 'a \<Rightarrow> (bool \<times> 'a list_data) option" where
  "ListSetAt l idx element =
     (if idx \<ge> list_size l then Some (False, l)
      else do {head \<leftarrow> list_head l; track \<leftarrow> track_loop l (unat idx) head; l1 \<leftarrow> clean l track;
               l2 \<leftarrow> set_element l1 track element; Some (True, l2)})"

text \<open>The readers return the element, \<open>None\<close> for \<open>false\<close>.\<close>

definition ListGetFront :: "'a list_data \<Rightarrow> 'a option option" where
  "ListGetFront l = (case list_head l of None \<Rightarrow> Some None
     | Some head \<Rightarrow> do {h \<leftarrow> nodes l head; Some (Some (node_element h))})"

definition ListGetBack :: "'a list_data \<Rightarrow> 'a option option" where
  "ListGetBack l = (case list_head l of None \<Rightarrow> Some None
     | Some head \<Rightarrow> do {h \<leftarrow> nodes l head; t \<leftarrow> nodes l (node_pred h); Some (Some (node_element t))})"

definition ListGetAt :: "'a list_data \<Rightarrow> u32 \<Rightarrow> 'a option option" where
  "ListGetAt l idx =
     (if idx \<ge> list_size l then Some None
      else do {head \<leftarrow> list_head l; track \<leftarrow> track_loop l (unat idx) head; t \<leftarrow> nodes l track; Some (Some (node_element t))})"

definition ListSize :: "'a list_data \<Rightarrow> u32" where
  "ListSize l = list_size l"

fun reverse_loop :: "'a list_data \<Rightarrow> nat \<Rightarrow> nat \<Rightarrow> nat \<Rightarrow> 'a list_data option" where
  "reverse_loop l (Suc (Suc todo)) head tail = do {
     h \<leftarrow> nodes l head;
     t \<leftarrow> nodes l tail;
     l1 \<leftarrow> set_element l head (node_element t);
     l2 \<leftarrow> set_element l1 tail (node_element h);
     h2 \<leftarrow> nodes l2 head;
     t2 \<leftarrow> nodes l2 tail;
     reverse_loop l2 todo (node_succ h2) (node_pred t2) }"
| "reverse_loop l todo head tail = Some l"

definition ListReverse :: "'a list_data \<Rightarrow> 'a list_data option" where
  "ListReverse l = do {head \<leftarrow> list_head l; h \<leftarrow> nodes l head; reverse_loop l (unat (list_size l)) head (node_pred h)}"

definition ListFirst :: "'a list_data \<Rightarrow> bool \<Rightarrow> 'a list_data option" where
  "ListFirst l is_reverse =
     (case list_head l of None \<Rightarrow> Some l
      | Some head \<Rightarrow>
          (if \<not> is_reverse then Some (l\<lparr>iter_round := 0, iter_node := Some head\<rparr>)
           else do {h \<leftarrow> nodes l head; Some (l\<lparr>iter_round := 0, iter_node := Some (node_pred h)\<rparr>)}))"

definition ListNext :: "'a list_data \<Rightarrow> ('a option \<times> 'a list_data) option" where
  "ListNext l =
     (if iter_round l = list_size l then Some (None, l)
      else do {p \<leftarrow> iter_node l; n \<leftarrow> nodes l p;
               Some (Some (node_element n), l\<lparr>iter_node := Some (node_succ n), iter_round := iter_round l + 1\<rparr>)})"

definition ListReverseNext :: "'a list_data \<Rightarrow> ('a option \<times> 'a list_data) option" where
  "ListReverseNext l =
     (if iter_round l = list_size l then Some (None, l)
      else do {p \<leftarrow> iter_node l; n \<leftarrow> nodes l p;
               Some (Some (node_element n), l\<lparr>iter_node := Some (node_pred n), iter_round := iter_round l + 1\<rparr>)})"

definition ListSetClean :: "'a list_data \<Rightarrow> nat option \<Rightarrow> 'a list_data" where
  "ListSetClean l func = l\<lparr>func_clean := func\<rparr>"

section \<open>The shape of the heap\<close>

definition succ_of :: "(nat \<rightharpoonup> 'a list_node) \<Rightarrow> nat \<Rightarrow> nat" where "succ_of ns p = node_succ (the (ns p))"
definition pred_of :: "(nat \<rightharpoonup> 'a list_node) \<Rightarrow> nat \<Rightarrow> nat" where "pred_of ns p = node_pred (the (ns p))"
definition elem_of :: "(nat \<rightharpoonup> 'a list_node) \<Rightarrow> nat \<Rightarrow> 'a" where "elem_of ns p = node_element (the (ns p))"

lemmas node_simps = succ_of_def pred_of_def elem_of_def

text \<open>The heap holds exactly the cycle \<open>ps\<close>.\<close>

definition ring :: "(nat \<rightharpoonup> 'a list_node) \<Rightarrow> nat list \<Rightarrow> bool" where
  "ring ns ps \<longleftrightarrow> dom ns = set ps \<and> cycle (succ_of ns) (pred_of ns) ps"

definition list_inv :: "'a list_data \<Rightarrow> nat list \<Rightarrow> bool" where
  "list_inv l ps \<longleftrightarrow> ring (nodes l) ps \<and> length ps < 2 ^ 32 \<and> list_size l = of_nat (length ps)
     \<and> list_head l = (case ps of [] \<Rightarrow> None | p # qs \<Rightarrow> Some p)"

definition elems :: "'a list_data \<Rightarrow> nat list \<Rightarrow> 'a list" where
  "elems l ps = map (elem_of (nodes l)) ps"

lemma ring_rotate: "ring ns (xs @ ys) \<Longrightarrow> ring ns (ys @ xs)"
  using cycle_rotate by (auto simp: ring_def)

lemma ring_node: "ring ns ps \<Longrightarrow> p \<in> set ps \<Longrightarrow> \<exists>n. ns p = Some n"
  by (auto simp: ring_def dom_def)

lemma ring_Nil: "ring ns [] \<Longrightarrow> ns = Map.empty"
  by (simp add: ring_def)

lemma ring_distinct: "ring ns ps \<Longrightarrow> distinct ps"
  by (simp add: ring_def cycle_def)

lemma ring_ends:
  assumes "ring ns (a # xs)" "ns a = Some n"
  shows "node_succ n = hd (xs @ [a])" "node_pred n = last (a # xs)"
  using cycle_ends [of "succ_of ns" "pred_of ns" a xs] assms by (simp_all add: ring_def node_simps)

lemma list_inv_size: "list_inv l ps \<Longrightarrow> unat (list_size l) = length ps"
  by (simp add: list_inv_def unat_of_nat)

lemma list_inv_Nil: "list_inv l ps \<Longrightarrow> list_head l = None \<longleftrightarrow> ps = []"
  by (cases ps) (auto simp: list_inv_def)

lemma list_inv_head: "list_inv l ps \<Longrightarrow> list_head l = Some h \<longleftrightarrow> (\<exists>qs. ps = h # qs)"
  by (cases ps) (auto simp: list_inv_def)

lemma elems_cong: "(\<And>p. p \<in> set ps \<Longrightarrow> elem_of ns p = elem_of (nodes l) p) \<Longrightarrow> nodes l' = ns \<Longrightarrow> elems l' ps = elems l ps"
  by (simp add: elems_def)

text \<open>Insertion and removal on the heap.\<close>

lemma link_before_spec:
  assumes "ring (nodes l) (t # qs)" "new \<notin> set (t # qs)"
  obtains ns where "link_before l new e t = Some (l\<lparr>nodes := ns\<rparr>)" "ring ns (new # t # qs)"
    "elem_of ns = (elem_of (nodes l))(new := e)"
proof -
  let ?t = "last (t # qs)"
  have ls: "?t \<in> set (t # qs)" by (rule last_in_set) simp
  obtain n where n: "nodes l t = Some n" using ring_node [OF assms(1), of t] by auto
  obtain m where m: "nodes l ?t = Some m" using ring_node [OF assms(1) ls] by auto
  have pn: "node_pred n = ?t" using ring_ends [OF assms(1) n] by simp
  have neq: "new \<noteq> t" "new \<noteq> ?t" using assms(2) ls by auto
  define ns1 where "ns1 = (nodes l)(new \<mapsto> \<lparr>node_element = e, node_pred = ?t, node_succ = t\<rparr>, ?t \<mapsto> m\<lparr>node_succ := new\<rparr>)"
  define ns where "ns = ns1(t \<mapsto> (the (ns1 t))\<lparr>node_pred := new\<rparr>)"
  show thesis
  proof
    show "link_before l new e t = Some (l\<lparr>nodes := ns\<rparr>)"
      using n m pn neq by (simp add: link_before_def set_succ_def set_pred_def ns_def ns1_def Let_def fun_upd_twist)
    have s: "succ_of ns = (succ_of (nodes l))(new := t, ?t := new)"
      using n m neq by (auto simp: node_simps ns_def ns1_def)
    have p: "pred_of ns = (pred_of (nodes l))(new := ?t, t := new)"
      using n m neq by (auto simp: node_simps ns_def ns1_def)
    have c: "cycle (succ_of (nodes l)) (pred_of (nodes l)) (t # qs)" "dom (nodes l) = set (t # qs)"
      using assms(1) by (simp_all add: ring_def)
    have "dom ns = set (new # t # qs)"
      using c(2) ls by (auto simp: ns_def ns1_def split: if_splits)
    with cycle_insert [OF c(1) assms(2) refl] s p show "ring ns (new # t # qs)" by (simp add: ring_def)
    show "elem_of ns = (elem_of (nodes l))(new := e)"
      using n m neq by (auto simp: node_simps ns_def ns1_def)
  qed
qed

lemma unlink_spec:
  assumes "ring (nodes l) (t # qs)" "nodes l t = Some n"
  obtains l1 ns where "set_succ l (node_pred n) (node_succ n) = Some l1" "qs \<noteq> [] \<Longrightarrow> nodes l1 t = Some n"
    "set_pred l1 (node_succ n) (node_pred n) = Some (l\<lparr>nodes := ns\<rparr>)" "qs \<noteq> [] \<Longrightarrow> ns t = Some n"
    "\<exists>m. ns t = Some m" "ring (ns(t := None)) qs" "elem_of ns = elem_of (nodes l)"
proof -
  have ends: "node_succ n \<in> set (t # qs)" "node_pred n \<in> set (t # qs)"
    "qs \<noteq> [] \<Longrightarrow> node_succ n \<noteq> t \<and> node_pred n \<noteq> t"
    using ring_ends [OF assms] ring_distinct [OF assms(1)] by (auto simp: hd_append)
  obtain a where a: "nodes l (node_pred n) = Some a" using ring_node [OF assms(1) ends(2)] by blast
  define ns1 where "ns1 = (nodes l)(node_pred n \<mapsto> a\<lparr>node_succ := node_succ n\<rparr>)"
  have "dom ns1 = set (t # qs)" using assms(1) a ends(2) by (auto simp: ns1_def ring_def)
  then obtain b where b: "ns1 (node_succ n) = Some b" using ends(1) by blast
  define ns where "ns = ns1(node_succ n \<mapsto> b\<lparr>node_pred := node_pred n\<rparr>)"
  have d: "dom ns = set (t # qs)" using \<open>dom ns1 = set (t # qs)\<close> ends(1) by (auto simp: ns_def)
  have sp: "succ_of (nodes l) t = node_succ n" "pred_of (nodes l) t = node_pred n"
    using assms(2) by (simp_all add: node_simps)
  have s: "succ_of ns = (succ_of (nodes l))(node_pred n := node_succ n)"
    using a b by (auto simp: node_simps ns_def ns1_def split: if_splits)
  have p: "pred_of ns = (pred_of (nodes l))(node_succ n := node_pred n)"
    using a b by (auto simp: node_simps ns_def ns1_def split: if_splits)
  have c: "cycle (succ_of ns) (pred_of ns) qs"
    using cycle_remove [of "succ_of (nodes l)" "pred_of (nodes l)" t qs] assms(1) s p sp by (simp add: ring_def)
  have tq: "t \<notin> set qs" using ring_distinct [OF assms(1)] by simp
  have "cycle (succ_of (ns(t := None))) (pred_of (ns(t := None))) qs"
    using c tq by (auto simp: cycle_def node_simps split: list.splits elim!: dpath_cong [THEN iffD1, rotated 2])
  with d tq have r: "ring (ns(t := None)) qs" by (auto simp: ring_def)
  show thesis
  proof
    show "set_succ l (node_pred n) (node_succ n) = Some (l\<lparr>nodes := ns1\<rparr>)" using a by (simp add: set_succ_def ns1_def)
    show "nodes (l\<lparr>nodes := ns1\<rparr>) t = Some n" if "qs \<noteq> []" using ends(3) [OF that] assms(2) by (simp add: ns1_def)
    show "set_pred (l\<lparr>nodes := ns1\<rparr>) (node_succ n) (node_pred n) = Some (l\<lparr>nodes := ns\<rparr>)"
      using b by (simp add: set_pred_def ns_def)
    show "ns t = Some n" if "qs \<noteq> []" using ends(3) [OF that] assms(2) by (simp add: ns1_def ns_def)
    show "\<exists>m. ns t = Some m" using d by auto
    show "ring (ns(t := None)) qs" by (rule r)
    show "elem_of ns = elem_of (nodes l)" using a b by (auto simp: node_simps ns_def ns1_def split: if_splits)
  qed
qed

lemma track_loop_spec:
  assumes "ring (nodes l) ps"
  shows "i < length ps \<Longrightarrow> track_loop l k (ps ! i) = Some (ps ! ((i + k) mod length ps))"
proof (induction k arbitrary: i)
  case (Suc k)
  obtain n where n: "nodes l (ps ! i) = Some n" using ring_node [OF assms, of "ps ! i"] Suc.prems by auto
  have "node_succ n = ps ! (Suc i mod length ps)"
    using cycle_index(1) [of "succ_of (nodes l)" "pred_of (nodes l)" ps i] assms n Suc.prems
    by (simp add: ring_def node_simps)
  moreover have "Suc i mod length ps < length ps" using Suc.prems by (intro mod_less_divisor) linarith
  ultimately show ?case using Suc.IH [of "Suc i mod length ps"] n by (simp add: mod_simps)
qed simp

definition cleaned :: "nat option \<Rightarrow> 'a list \<Rightarrow> (nat \<times> 'a) list" where
  "cleaned f es = (case f of None \<Rightarrow> [] | Some g \<Rightarrow> map (Pair g) es)"

lemma clean_spec: "nodes l p = Some n \<Longrightarrow>
    clean l p = Some (l\<lparr>clean_calls := clean_calls l @ cleaned (func_clean l) [node_element n]\<rparr>)"
  by (simp add: clean_def cleaned_def split: option.splits)

lemma free_node_spec: "nodes l p = Some n \<Longrightarrow> free_node l p = Some (l\<lparr>nodes := (nodes l)(p := None)\<rparr>)"
  by (simp add: free_node_def)

section \<open>Every operation on the list it represents\<close>

text \<open>The clean function is left alone and has been called for \<open>es\<close>.\<close>

definition same_clean :: "'a list_data \<Rightarrow> 'a list_data \<Rightarrow> 'a list \<Rightarrow> bool" where
  "same_clean l l' es \<longleftrightarrow> func_clean l' = func_clean l \<and> clean_calls l' = clean_calls l @ cleaned (func_clean l) es"

lemma cleaned_Nil [simp]: "cleaned f [] = []"
  by (simp add: cleaned_def split: option.split)

lemma of_nat_size: "Suc n < 2 ^ 32 \<Longrightarrow> (of_nat n + 1 :: u32) = of_nat (Suc n)"
  by simp

lemma single_ring: "dom ns = {new} \<Longrightarrow> succ_of ns new = new \<Longrightarrow> pred_of ns new = new \<Longrightarrow> ring ns [new]"
  by (simp add: ring_def cycle_def)

lemma elems_single: "elem_of ns new = e \<Longrightarrow> nodes l = ns \<Longrightarrow> elems l [new] = [e]"
  by (simp add: elems_def)

lemma elems_insert:
  assumes "elem_of ns = (elem_of (nodes l))(new := e)" "new \<notin> set xs" "new \<notin> set ys" "nodes l' = ns"
  shows "elems l' (xs @ new # ys) = elems l xs @ e # elems l ys"
  using assms by (auto simp: elems_def)

lemma empty_nodes: "list_inv l [] \<Longrightarrow> nodes l = Map.empty"
  by (simp add: list_inv_def ring_def)

lemma ListInsert_spec:
  assumes "list_inv l ps" "new \<notin> set ps" "length ps + 1 < 2 ^ 32" "unat idx \<le> length ps"
  defines "ps' \<equiv> take (unat idx) ps @ new # drop (unat idx) ps"
  obtains l' where "ListInsert (Some new) l idx e = Some (True, l')" "list_inv l' ps'"
    "elems l' ps' = take (unat idx) (elems l ps) @ e # drop (unat idx) (elems l ps)" "same_clean l l' []"
proof (cases "ps = []")
  case True
  let ?l = "l\<lparr>nodes := [new \<mapsto> \<lparr>node_element = e, node_pred = new, node_succ = new\<rparr>], list_head := Some new, list_size := 1\<rparr>"
  have "unat (list_size l) = 0" using list_inv_size [OF assms(1)] True by simp
  then have z: "list_size l = 0" by (simp add: unat_eq_0)
  have i: "\<not> list_size l < idx" using assms(4) True z by (simp add: unat_eq_0)
  show thesis
  proof (rule that [of ?l])
    show "ListInsert (Some new) l idx e = Some (True, ?l)"
      using assms(1) True i z empty_nodes [of l] by (simp add: ListInsert_def list_inv_def)
    show "list_inv ?l ps'" using True by (simp add: list_inv_def ps'_def single_ring node_simps)
    show "elems ?l ps' = take (unat idx) (elems l ps) @ e # drop (unat idx) (elems l ps)"
      using True by (simp add: ps'_def elems_def node_simps)
  qed (simp add: same_clean_def)
next
  case False
  let ?k = "unat idx"
  define l0 where "l0 = (if idx = 0 then l\<lparr>list_head := Some new\<rparr> else l)"
  have l0: "nodes l0 = nodes l" by (simp add: l0_def)
  obtain h where h: "list_head l = Some h" "h = ps ! 0" using assms(1) False by (cases ps) (auto simp: list_inv_def)
  have r: "ring (nodes l0) ps" using assms(1) l0 by (simp add: list_inv_def)
  have "track_loop l0 ?k (ps ! 0) = Some (ps ! ((0 + ?k) mod length ps))"
    by (rule track_loop_spec [OF r]) (use False in simp)
  moreover have hd: "drop ?k ps @ take ?k ps = ps ! (?k mod length ps) # tl (drop ?k ps @ take ?k ps)"
  proof -
    have "hd (drop ?k ps @ take ?k ps) = ps ! (?k mod length ps)"
      using assms(4) False by (cases "?k = length ps") (auto simp: hd_append hd_drop_conv_nth hd_conv_nth)
    with False show ?thesis by (metis append_is_Nil_conv append_take_drop_id list.collapse)
  qed
  ultimately have t: "track_loop l0 ?k h = Some (hd (drop ?k ps @ take ?k ps))" using h(2) by (metis add_0 list.sel(1))
  have "ring (nodes l0) (hd (drop ?k ps @ take ?k ps) # tl (drop ?k ps @ take ?k ps))"
    using ring_rotate [of "nodes l0" "take ?k ps" "drop ?k ps"] r hd by (metis append_take_drop_id list.sel(1))
  moreover have "new \<notin> set (hd (drop ?k ps @ take ?k ps) # tl (drop ?k ps @ take ?k ps))"
    using assms(2) hd by (metis Un_iff append_take_drop_id list.sel(1) set_append)
  ultimately obtain ns where ns: "link_before l0 new e (hd (drop ?k ps @ take ?k ps)) = Some (l0\<lparr>nodes := ns\<rparr>)"
    "ring ns (new # hd (drop ?k ps @ take ?k ps) # tl (drop ?k ps @ take ?k ps))" "elem_of ns = (elem_of (nodes l))(new := e)"
    using link_before_spec [of l0 _ _ new e] l0 by metis
  have "ring ns ((new # drop ?k ps) @ take ?k ps)"
    using ns(2) False by (metis append_Cons append_is_Nil_conv append_take_drop_id hd_Cons_tl)
  then have ring: "ring ns ps'" using ring_rotate [of ns "new # drop ?k ps" "take ?k ps"] by (simp add: ps'_def)
  let ?l = "l0\<lparr>nodes := ns, list_size := list_size l0 + 1\<rparr>"
  show thesis
  proof (rule that [of ?l])
    have "\<not> list_size l < idx" using assms(4) list_inv_size [OF assms(1)] by (simp add: word_less_nat_alt)
    then show "ListInsert (Some new) l idx e = Some (True, ?l)"
      using h(1) t ns(1) by (simp add: ListInsert_def Let_def l0_def [symmetric])
    have "list_head ?l = (case ps' of [] \<Rightarrow> None | p # qs \<Rightarrow> Some p)"
      using h False by (cases "idx = 0"; cases ps) (auto simp: l0_def ps'_def unat_eq_0 take_Cons split: nat.split)
    moreover have "length ps' = Suc (length ps)" using assms(4) by (simp add: ps'_def)
    moreover have "list_size l0 = list_size l" by (simp add: l0_def)
    ultimately show "list_inv ?l ps'" using ring assms(1,3) by (simp add: list_inv_def)
    show "elems ?l ps' = take ?k (elems l ps) @ e # drop ?k (elems l ps)"
      unfolding ps'_def by (subst elems_insert [OF ns(3)]) (use assms(2) in \<open>auto simp: elems_def take_map drop_map dest: in_set_takeD in_set_dropD\<close>)
  qed (simp add: same_clean_def l0_def)
qed

lemma ListPushFront_eq:
  assumes "list_inv l ps"
  shows "ListPushFront (Some new) l e = ListInsert (Some new) l 0 e"
proof (cases "list_head l")
  case None
  then show ?thesis by (simp add: ListPushFront_def ListInsert_def)
next
  case (Some h)
  have "link_before (l\<lparr>list_head := Some new\<rparr>) new e h =
      map_option (\<lambda>l1. l1\<lparr>list_head := Some new\<rparr>) (link_before l new e h)"
    by (simp add: link_before_def set_succ_def set_pred_def Let_def split: bind_split)
  with Some show ?thesis by (cases "link_before l new e h") (simp_all add: ListPushFront_def ListInsert_def Let_def)
qed

lemma ListPushBack_eq:
  assumes "list_inv l ps"
  shows "ListPushBack (Some new) l e = ListInsert (Some new) l (list_size l) e"
proof (cases ps)
  case Nil
  then have "list_head l = None" using assms by (simp add: list_inv_def)
  then show ?thesis by (simp add: ListPushBack_def ListInsert_def)
next
  case (Cons h qs)
  have "track_loop l (length ps) h = Some h"
    using track_loop_spec [of l ps 0 "length ps"] assms Cons by (simp add: list_inv_def)
  moreover have "list_size l \<noteq> 0" using list_inv_size [OF assms] Cons by auto
  moreover have "list_head l = Some h" using assms Cons by (simp add: list_inv_def)
  ultimately show ?thesis using list_inv_size [OF assms] by (simp add: ListPushBack_def ListInsert_def)
qed

lemma ListRemove_spec:
  assumes "list_inv l ps" "unat idx < length ps"
  defines "ps' \<equiv> take (unat idx) ps @ drop (Suc (unat idx)) ps"
  obtains l' where "ListRemove l idx = Some (True, l')" "list_inv l' ps'"
    "elems l' ps' = take (unat idx) (elems l ps) @ drop (Suc (unat idx)) (elems l ps)" "same_clean l l' [elems l ps ! unat idx]"
proof -
  let ?k = "unat idx"
  let ?t = "ps ! ?k"
  let ?qs = "drop (Suc ?k) ps @ take ?k ps"
  have r: "ring (nodes l) ps" using assms(1) by (simp add: list_inv_def)
  have split: "take ?k ps @ ?t # drop (Suc ?k) ps = ps" using id_take_nth_drop [OF assms(2)] by simp
  have rt: "ring (nodes l) (?t # ?qs)"
    using ring_rotate [of "nodes l" "take ?k ps" "?t # drop (Suc ?k) ps"] r split by simp
  obtain n where n: "nodes l ?t = Some n" using ring_node [OF rt, of ?t] by auto
  obtain l1 ns where u: "set_succ l (node_pred n) (node_succ n) = Some l1"
    "set_pred l1 (node_succ n) (node_pred n) = Some (l\<lparr>nodes := ns\<rparr>)" "\<exists>m. ns ?t = Some m"
    "ring (ns(?t := None)) ?qs" "elem_of ns = elem_of (nodes l)"
    by (rule unlink_spec [OF rt n]) blast
  obtain m where m: "ns ?t = Some m" using u(3) by blast
  have em: "node_element m = elems l ps ! ?k"
    using fun_cong [OF u(5), of ?t] m assms(2) by (simp add: node_simps elems_def)
  have ps: "0 < length ps" using assms(2) by linarith
  obtain h where h: "list_head l = Some h" "h = ps ! 0" using assms(1) ps by (cases ps) (auto simp: list_inv_def)
  have tr: "track_loop l ?k h = Some ?t" using track_loop_spec [OF r ps, of ?k] h(2) assms(2) by simp
  define hd' where "hd' = (if list_size l = 1 then None else if ?t = h then Some (node_succ n) else list_head l)"
  let ?l = "l\<lparr>nodes := ns(?t := None), list_head := hd', clean_calls := clean_calls l @ cleaned (func_clean l) [node_element m],
    list_size := list_size l - 1\<rparr>"
  have size1: "list_size l = 1 \<longleftrightarrow> length ps = 1"
    using list_inv_size [OF assms(1)] by (metis unat_1 word_unat_eq_iff)
  show thesis
  proof (rule that [of ?l])
    have "\<not> list_size l \<le> idx" using assms(2) list_inv_size [OF assms(1)] by (simp add: word_le_nat_alt)
    then show "ListRemove l idx = Some (True, ?l)"
      using h(1) tr n u(1,2) m
      by (cases "?t = h") (auto simp: ListRemove_def hd'_def Let_def clean_spec [of _ _ m] free_node_spec [of _ _ m])
    have "ring (ns(?t := None)) ps'"
      using ring_rotate [OF u(4)] by (simp add: ps'_def)
    moreover have "hd' = (case ps' of [] \<Rightarrow> None | p # qs \<Rightarrow> Some p)"
    proof (cases "?k = 0")
      case True
      then show ?thesis using size1 h ring_ends(1) [OF rt n] ps
        by (cases ps) (auto simp: hd'_def ps'_def neq_Nil_conv split: list.split)
    next
      case False
      then have "?t \<noteq> h" using h(2) ring_distinct [OF r] assms(2) ps by (simp add: nth_eq_iff_index_eq)
      with False show ?thesis using size1 h assms(2)
        by (cases ps) (auto simp: hd'_def ps'_def take_Cons split: nat.split)
    qed
    moreover have "list_size l - 1 = of_nat (length ps')"
      using assms(1,2) by (simp add: list_inv_def ps'_def)
    moreover have "length ps' < 2 ^ 32" using assms(1,2) by (auto simp: list_inv_def ps'_def)
    ultimately show "list_inv ?l ps'" by (simp add: list_inv_def)
    have "?t \<notin> set ps'" using ring_distinct [OF rt] by (auto simp: ps'_def)
    then have "elems ?l ps' = map (elem_of (nodes l)) ps'" using u(5) by (auto simp: elems_def node_simps fun_eq_iff)
    then show "elems ?l ps' = take ?k (elems l ps) @ drop (Suc ?k) (elems l ps)"
      by (simp add: elems_def ps'_def take_map drop_map)
    show "same_clean l ?l [elems l ps ! ?k]" by (simp add: same_clean_def em)
  qed
qed

text \<open>The pops are the removal at either end.\<close>

lemma pop_shape:
  assumes "list_inv l ps" "list_head l = Some h" "nodes l h = Some n"
  shows "h = node_pred n \<longleftrightarrow> list_size l = 1" "h = node_succ n \<longleftrightarrow> list_size l = 1"
    "node_pred n = last ps" "\<exists>t. nodes l (node_pred n) = Some t"
proof -
  obtain qs where ps: "ps = h # qs" using assms(1,2) list_inv_head by blast
  have r: "ring (nodes l) (h # qs)" using assms(1) by (simp add: list_inv_def ps)
  have s1: "list_size l = 1 \<longleftrightarrow> qs = []"
    using list_inv_size [OF assms(1)] by (metis One_nat_def Suc_inject length_0_conv length_Cons ps unat_1 word_unat_eq_iff)
  note e = ring_ends [OF r assms(3)] ring_distinct [OF r]
  show "h = node_pred n \<longleftrightarrow> list_size l = 1" "h = node_succ n \<longleftrightarrow> list_size l = 1"
    using e s1 by (auto simp: hd_append dest: arg_cong [where f = "\<lambda>x. x \<in> set qs"])
  show "node_pred n = last ps" using e(2) ps by simp
  then show "\<exists>t. nodes l (node_pred n) = Some t"
    using ring_node [OF r, of "last ps"] last_in_set [of ps] ps by simp
qed

lemma ListPopFront_eq:
  assumes "list_inv l ps"
  shows "ListPopFront l = ListRemove l 0"
proof (cases "list_head l")
  case None
  then have "ps = []" using list_inv_Nil [OF assms] by simp
  then have "list_size l = 0" using list_inv_size [OF assms] by (simp add: unat_eq_0)
  with None show ?thesis by (simp add: ListPopFront_def ListRemove_def)
next
  case (Some h)
  obtain qs where ps: "ps = h # qs" using assms Some list_inv_head by blast
  have r: "ring (nodes l) (h # qs)" using assms by (simp add: list_inv_def ps)
  obtain n where n: "nodes l h = Some n" using ring_node [OF r, of h] by auto
  obtain l1 ns where u: "set_succ l (node_pred n) (node_succ n) = Some l1" "qs \<noteq> [] \<Longrightarrow> nodes l1 h = Some n"
    "set_pred l1 (node_succ n) (node_pred n) = Some (l\<lparr>nodes := ns\<rparr>)" "qs \<noteq> [] \<Longrightarrow> ns h = Some n"
    "\<exists>m. ns h = Some m" "elem_of ns = elem_of (nodes l)" "ring (ns(h := None)) qs"
    by (rule unlink_spec [OF r n]) blast
  obtain m where m: "ns h = Some m" using u(5) by blast
  have nm: "node_element m = node_element n" using fun_cong [OF u(6), of h] m n by (simp add: node_simps)
  note sh = pop_shape [OF assms Some n]
  have "list_size l \<noteq> 0" using list_inv_size [OF assms] ps by auto
  then have pos: "\<not> list_size l \<le> 0" by simp
  show ?thesis
  proof (cases "list_size l = 1")
    case True
    then have "qs = []" using list_inv_size [OF assms] ps by simp
    then have "(nodes l)(h := None) = Map.empty" "ns(h := None) = Map.empty"
      using r ring_Nil [of "ns(h := None)"] u(7) by (auto simp: ring_def dom_eq_singleton_conv)
    with True sh(1,2) Some n u(1,3) m nm pos show ?thesis
      by (simp add: ListPopFront_def ListRemove_def Let_def clean_spec [of _ _ n] clean_spec [of _ _ m] free_node_def)
  next
    case False
    then have "qs \<noteq> []" using list_inv_size [OF assms] ps by (auto simp: word_unat_eq_iff)
    with False sh(1,2) Some n u pos show ?thesis
      by (auto simp: ListPopFront_def ListRemove_def Let_def clean_spec [of _ h n] free_node_def)
  qed
qed

lemma ListPopBack_eq:
  assumes "list_inv l ps" "ps \<noteq> []"
  shows "ListPopBack l = ListRemove l (list_size l - 1)"
proof -
  obtain h qs where ps: "ps = h # qs" using assms(2) by (cases ps) auto
  have head: "list_head l = Some h" using assms(1) ps by (simp add: list_inv_def)
  have r: "ring (nodes l) ps" using assms(1) by (simp add: list_inv_def)
  let ?t = "last ps"
  obtain n where n: "nodes l h = Some n" using ring_node [OF r, of h] ps by auto
  note sh = pop_shape [OF assms(1) head n]
  have pos: "\<not> list_size l \<le> list_size l - 1"
    using list_inv_size [OF assms(1)] ps by (simp add: word_le_nat_alt unat_minus_nat)
  have idx: "unat (list_size l - 1) = length qs" using list_inv_size [OF assms(1)] ps by (simp add: unat_minus_nat)
  have tr: "track_loop l (unat (list_size l - 1)) h = Some ?t"
    using track_loop_spec [OF r, of 0 "length qs"] ps unfolding idx by (simp add: last_conv_nth)
  show ?thesis
  proof (cases "list_size l = 1")
    case True
    then have "qs = []" using list_inv_size [OF assms(1)] ps by simp
    then have "ListPopBack l = ListPopFront l"
      using sh(1,2) True head n by (simp add: ListPopBack_def ListPopFront_def)
    with True ListPopFront_eq [OF assms(1)] show ?thesis by simp
  next
    case False
    then have ne: "qs \<noteq> []" using list_inv_size [OF assms(1)] ps by (auto simp: word_unat_eq_iff)
    then have "ps = butlast ps @ [?t]" using ps by (metis append_butlast_last_id list.distinct(1))
    then have rt: "ring (nodes l) (?t # butlast ps)" using ring_rotate [of "nodes l" "butlast ps" "[?t]"] r by simp
    obtain t where t: "nodes l ?t = Some t" using ring_node [OF rt, of ?t] by auto
    have th: "?t \<noteq> h" using ring_distinct [OF r] ne ps by auto
    have ts: "node_succ t = h" using ring_ends(1) [OF rt t] ps ne by simp
    obtain l1 ns where u: "set_succ l (node_pred t) (node_succ t) = Some l1" "nodes l1 ?t = Some t"
      "set_pred l1 (node_succ t) (node_pred t) = Some (l\<lparr>nodes := ns\<rparr>)" "ns ?t = Some t"
      by (rule unlink_spec [OF rt t]) (use ps ne in auto)
    show ?thesis
      using head n sh(1,2,3) False t th ts u pos tr
      by (simp add: ListPopBack_def ListRemove_def Let_def clean_spec [of _ ?t t] free_node_def)
  qed
qed

text \<open>Replacing and reading an element.\<close>

lemma set_element_ring:
  assumes "list_inv l ps" "k < length ps" "nodes l (ps ! k) = Some n"
  shows "list_inv (l\<lparr>nodes := (nodes l)(ps ! k \<mapsto> n\<lparr>node_element := e\<rparr>)\<rparr>) ps"
    "elems (l\<lparr>nodes := (nodes l)(ps ! k \<mapsto> n\<lparr>node_element := e\<rparr>)\<rparr>) ps = (elems l ps)[k := e]"
proof -
  let ?ns = "(nodes l)(ps ! k \<mapsto> n\<lparr>node_element := e\<rparr>)"
  have "succ_of ?ns = succ_of (nodes l)" "pred_of ?ns = pred_of (nodes l)"
    using assms(3) by (auto simp: node_simps)
  then show "list_inv (l\<lparr>nodes := ?ns\<rparr>) ps"
    using assms by (auto simp: list_inv_def ring_def)
  have "distinct ps" using assms(1) by (simp add: list_inv_def ring_def cycle_def)
  then show "elems (l\<lparr>nodes := ?ns\<rparr>) ps = (elems l ps)[k := e]"
    using assms(2) by (intro nth_equalityI) (auto simp: elems_def node_simps nth_list_update nth_eq_iff_index_eq)
qed

lemma ListSetAt_spec:
  assumes "list_inv l ps" "unat idx < length ps"
  obtains l' where "ListSetAt l idx e = Some (True, l')" "list_inv l' ps"
    "elems l' ps = (elems l ps)[unat idx := e]" "same_clean l l' [elems l ps ! unat idx]"
proof -
  let ?k = "unat idx"
  have r: "ring (nodes l) ps" using assms(1) by (simp add: list_inv_def)
  have ps: "0 < length ps" using assms(2) by linarith
  obtain h where h: "list_head l = Some h" "h = ps ! 0" using assms(1) ps by (cases ps) (auto simp: list_inv_def)
  have tr: "track_loop l ?k h = Some (ps ! ?k)" using track_loop_spec [OF r ps, of ?k] h(2) assms(2) by simp
  obtain n where n: "nodes l (ps ! ?k) = Some n" using ring_node [OF r, of "ps ! ?k"] assms(2) by auto
  define l1 where "l1 = l\<lparr>clean_calls := clean_calls l @ cleaned (func_clean l) [node_element n]\<rparr>"
  have i1: "list_inv l1 ps" "nodes l1 (ps ! ?k) = Some n" using assms(1) n by (simp_all add: l1_def list_inv_def)
  show thesis
  proof
    have "\<not> list_size l \<le> idx" using assms(2) list_inv_size [OF assms(1)] by (simp add: word_le_nat_alt)
    then show "ListSetAt l idx e = Some (True, l1\<lparr>nodes := (nodes l1)(ps ! ?k \<mapsto> n\<lparr>node_element := e\<rparr>)\<rparr>)"
      using h(1) tr n i1(2) by (simp add: ListSetAt_def clean_spec [OF n] l1_def [symmetric] set_element_def)
    show "list_inv (l1\<lparr>nodes := (nodes l1)(ps ! ?k \<mapsto> n\<lparr>node_element := e\<rparr>)\<rparr>) ps"
      by (rule set_element_ring(1) [OF i1(1) assms(2) i1(2)])
    show "elems (l1\<lparr>nodes := (nodes l1)(ps ! ?k \<mapsto> n\<lparr>node_element := e\<rparr>)\<rparr>) ps = (elems l ps)[?k := e]"
      using set_element_ring(2) [OF i1(1) assms(2) i1(2), of e] by (simp add: elems_def l1_def)
    show "same_clean l (l1\<lparr>nodes := (nodes l1)(ps ! ?k \<mapsto> n\<lparr>node_element := e\<rparr>)\<rparr>) [elems l ps ! ?k]"
      using n assms(2) by (simp add: same_clean_def l1_def elems_def node_simps)
  qed
qed

lemma list_cases:
  assumes "list_inv l ps"
  obtains "ps = []" "list_head l = None" "list_size l = 0"
  | h qs n where "ps = h # qs" "list_head l = Some h" "nodes l h = Some n" "node_pred n = last ps"
      "unat (list_size l - 1) = length qs" "\<not> list_size l \<le> 0" "\<not> list_size l \<le> list_size l - 1"
proof (cases ps)
  case Nil
  then show thesis using that(1) assms list_inv_size [OF assms] by (simp add: list_inv_def)
next
  case (Cons h qs)
  have r: "ring (nodes l) (h # qs)" using assms by (simp add: list_inv_def Cons)
  obtain n where n: "nodes l h = Some n" using ring_node [OF r, of h] by auto
  have "list_size l \<noteq> 0" using list_inv_size [OF assms] Cons by auto
  with that(2) [OF Cons _ n] Cons assms ring_ends(2) [OF r n] list_inv_size [OF assms] show thesis
    by (simp add: list_inv_def word_le_nat_alt unat_minus_nat)
qed

lemma track_last: "list_inv l (h # qs) \<Longrightarrow> track_loop l (length qs) h = Some (last (h # qs))"
  using track_loop_spec [of l "h # qs" 0 "length qs"] by (simp add: list_inv_def last_conv_nth)

lemma ListSet_ends:
  assumes "list_inv l ps" "ps \<noteq> []"
  shows "ListSetFront l e = ListSetAt l 0 e" "ListSetBack l e = ListSetAt l (list_size l - 1) e"
  by (rule list_cases [OF assms(1)], use assms track_last [of l] in
      \<open>auto simp: ListSetFront_def ListSetBack_def ListSetAt_def\<close>)+

lemma ListGetAt_spec:
  assumes "list_inv l ps"
  shows "ListGetAt l idx = Some (if unat idx < length ps then Some (elems l ps ! unat idx) else None)"
proof (cases "unat idx < length ps")
  case True
  have r: "ring (nodes l) ps" using assms(1) by (simp add: list_inv_def)
  have ps: "0 < length ps" using True by linarith
  obtain h where h: "list_head l = Some h" "h = ps ! 0" using assms(1) ps by (cases ps) (auto simp: list_inv_def)
  obtain n where n: "nodes l (ps ! unat idx) = Some n" using ring_node [OF r, of "ps ! unat idx"] True by auto
  have "\<not> list_size l \<le> idx" using True list_inv_size [OF assms(1)] by (simp add: word_le_nat_alt)
  then show ?thesis using track_loop_spec [OF r ps, of "unat idx"] h n True
    by (simp add: ListGetAt_def elems_def node_simps)
next
  case False
  then have "list_size l \<le> idx" using list_inv_size [OF assms(1)] by (simp add: word_le_nat_alt)
  with False show ?thesis by (simp add: ListGetAt_def)
qed

lemma ListGet_ends:
  assumes "list_inv l ps"
  shows "ListGetFront l = Some (if ps = [] then None else Some (hd (elems l ps)))"
    "ListGetBack l = Some (if ps = [] then None else Some (last (elems l ps)))"
proof -
  have r: "ring (nodes l) ps" using assms(1) by (simp add: list_inv_def)
  show "ListGetFront l = Some (if ps = [] then None else Some (hd (elems l ps)))"
    by (rule list_cases [OF assms]) (auto simp: ListGetFront_def elems_def node_simps)
  show "ListGetBack l = Some (if ps = [] then None else Some (last (elems l ps)))"
  proof (rule list_cases [OF assms])
    fix h qs n assume c: "ps = h # qs" "list_head l = Some h" "nodes l h = Some n" "node_pred n = last ps"
    have "last ps \<in> set ps" using c(1) by (intro last_in_set) simp
    from ring_node [OF r this] obtain m where m: "nodes l (last ps) = Some m" by blast
    then have "last (elems l ps) = node_element m" using c(1) by (simp only: elems_def last_map list.discI node_simps option.sel not_False_eq_True)
    with c(1-4) m show ?thesis by (simp add: ListGetBack_def)
  qed (simp add: ListGetBack_def)
qed

text \<open>Reversal swaps elements from both ends.\<close>

lemma set_element_spec:
  assumes "ring (nodes l) ps" "p \<in> set ps"
  obtains ns where "set_element l p e = Some (l\<lparr>nodes := ns\<rparr>)" "ring ns ps"
    "succ_of ns = succ_of (nodes l)" "pred_of ns = pred_of (nodes l)" "elem_of ns = (elem_of (nodes l))(p := e)"
proof -
  obtain n where n: "nodes l p = Some n" using ring_node [OF assms] by blast
  let ?ns = "(nodes l)(p \<mapsto> n\<lparr>node_element := e\<rparr>)"
  have "succ_of ?ns = succ_of (nodes l)" "pred_of ?ns = pred_of (nodes l)" "elem_of ?ns = (elem_of (nodes l))(p := e)"
    using n by (auto simp: node_simps)
  moreover from this assms have "ring ?ns ps" by (auto simp: ring_def)
  ultimately show thesis using that [of ?ns] n by (simp add: set_element_def)
qed

lemma reverse_loop_spec:
  "ring (nodes l) (xs @ ms @ ys) \<Longrightarrow> (2 \<le> length ms \<Longrightarrow> head = hd ms \<and> tail = last ms) \<Longrightarrow>
   \<exists>ns. reverse_loop l (length ms) head tail = Some (l\<lparr>nodes := ns\<rparr>) \<and> ring ns (xs @ ms @ ys)
     \<and> map (elem_of ns) ms = rev (map (elem_of (nodes l)) ms) \<and> (\<forall>p. p \<notin> set ms \<longrightarrow> elem_of ns p = elem_of (nodes l) p)"
proof (induction "length ms" arbitrary: ms l xs ys head tail rule: less_induct)
  case less
  show ?case
  proof (cases "length ms < 2")
    case True
    then show ?thesis using less.prems(1) by (cases ms) (auto intro: exI [of _ "nodes l"])
  next
    case False
    then obtain a ms' b where ms: "ms = a # ms' @ [b]"
      by (metis Suc_1 append_butlast_last_id last_ConsR less_2_cases_iff length_0_conv length_Cons list.exhaust One_nat_def)
    have ht: "head = a" "tail = b" using less.prems(2) False ms by auto
    let ?ps = "xs @ ms @ ys"
    have d: "distinct ?ps" by (rule ring_distinct [OF less.prems(1)])
    have in_ps: "a \<in> set ?ps" "b \<in> set ?ps" by (auto simp: ms)
    obtain na nb where nab: "nodes l a = Some na" "nodes l b = Some nb"
      using ring_node [OF less.prems(1)] in_ps by blast
    obtain ns1 where s1: "set_element l a (node_element nb) = Some (l\<lparr>nodes := ns1\<rparr>)" "ring ns1 ?ps"
      "elem_of ns1 = (elem_of (nodes l))(a := node_element nb)"
      by (rule set_element_spec [OF less.prems(1) in_ps(1)]) blast
    have r1: "ring (nodes (l\<lparr>nodes := ns1\<rparr>)) ?ps" using s1(2) by simp
    obtain ns2 where s2: "set_element (l\<lparr>nodes := ns1\<rparr>) b (node_element na) = Some (l\<lparr>nodes := ns2\<rparr>)" "ring ns2 ?ps"
      "elem_of ns2 = (elem_of ns1)(b := node_element na)"
      by (rule set_element_spec [OF r1 in_ps(2), of "node_element na"]) simp
    obtain n2 m2 where n2: "ns2 a = Some n2" "ns2 b = Some m2" using ring_node [OF s2(2)] in_ps by blast
    have ra: "ring ns2 (a # ms' @ b # ys @ xs)" using ring_rotate [of ns2 xs "ms @ ys"] s2(2) ms by simp
    have rb: "ring ns2 (b # ys @ xs @ a # ms')" using ring_rotate [of ns2 "xs @ a # ms'" "b # ys"] s2(2) ms by simp
    have follow: "2 \<le> length ms' \<Longrightarrow> node_succ n2 = hd ms' \<and> node_pred m2 = last ms'"
      using ring_ends(1) [OF ra n2(1)] ring_ends(2) [OF rb n2(2)] by (auto simp: hd_append)
    have "ring (nodes (l\<lparr>nodes := ns2\<rparr>)) ((xs @ [a]) @ ms' @ (b # ys))" using s2(2) ms by simp
    from less.hyps [OF _ this follow] ms obtain ns where
      ns: "reverse_loop (l\<lparr>nodes := ns2\<rparr>) (length ms') (node_succ n2) (node_pred m2) = Some (l\<lparr>nodes := ns\<rparr>)"
        "ring ns ?ps" "map (elem_of ns) ms' = rev (map (elem_of ns2) ms')"
        "\<forall>p. p \<notin> set ms' \<longrightarrow> elem_of ns p = elem_of ns2 p"
      by auto
    have e2: "elem_of ns2 = (elem_of (nodes l))(a := elem_of (nodes l) b, b := elem_of (nodes l) a)"
      using s1(3) s2(3) nab by (simp add: node_simps)
    have dm: "a \<notin> set ms'" "b \<notin> set ms'" "a \<noteq> b" using d ms by auto
    then have "map (elem_of ns2) ms' = map (elem_of (nodes l)) ms'" by (simp add: e2)
    then have "map (elem_of ns) ms = rev (map (elem_of (nodes l)) ms)"
      using ns(3,4) dm by (simp add: ms e2)
    moreover have "\<forall>p. p \<notin> set ms \<longrightarrow> elem_of ns p = elem_of (nodes l) p" using ns(4) by (simp add: ms e2)
    moreover have "reverse_loop l (length ms) head tail = Some (l\<lparr>nodes := ns\<rparr>)"
      using nab s1(1) s2(1) n2 ns(1) by (simp add: ht ms)
    ultimately show ?thesis using ns(2) by blast
  qed
qed

lemma ListReverse_spec:
  assumes "list_inv l ps" "ps \<noteq> []"
  obtains l' where "ListReverse l = Some l'" "list_inv l' ps" "elems l' ps = rev (elems l ps)" "same_clean l l' []"
proof (rule list_cases [OF assms(1)])
  fix h qs n assume c: "ps = h # qs" "list_head l = Some h" "nodes l h = Some n" "node_pred n = last ps"
  have "ring (nodes l) ([] @ ps @ [])" using assms(1) by (simp add: list_inv_def)
  from reverse_loop_spec [OF this, of h "last ps"] c(1) obtain ns where
    ns: "reverse_loop l (length ps) h (last ps) = Some (l\<lparr>nodes := ns\<rparr>)" "ring ns ps"
      "map (elem_of ns) ps = rev (map (elem_of (nodes l)) ps)" by auto
  show thesis
  proof (rule that [of "l\<lparr>nodes := ns\<rparr>"])
    show "ListReverse l = Some (l\<lparr>nodes := ns\<rparr>)"
      using c ns(1) list_inv_size [OF assms(1)] by (simp add: ListReverse_def)
    show "list_inv (l\<lparr>nodes := ns\<rparr>) ps" using assms(1) ns(2) by (simp add: list_inv_def)
  qed (use ns(3) in \<open>simp_all add: elems_def same_clean_def\<close>)
qed (use assms(2) in simp)

lemma cleaned_append: "cleaned f (xs @ ys) = cleaned f xs @ cleaned f ys"
  by (simp add: cleaned_def split: option.split)

lemma same_clean_trans: "same_clean l l1 xs \<Longrightarrow> same_clean l1 l2 ys \<Longrightarrow> same_clean l l2 (xs @ ys)"
  by (simp add: same_clean_def cleaned_append)

text \<open>Destruction walks the cycle from the head and frees every node.\<close>

lemma deinit_loop_spec:
  "dpath (succ_of (nodes l)) q a xs h \<Longrightarrow> dom (nodes l) = set (a # xs) \<Longrightarrow> distinct (a # xs) \<Longrightarrow> h \<notin> set xs \<Longrightarrow>
   \<exists>l'. deinit_loop l h a = Some (Some l') \<and> nodes l' = Map.empty
     \<and> same_clean l l' (map (elem_of (nodes l)) (a # xs))"
proof (induction xs arbitrary: a l q)
  case Nil
  have "a \<in> dom (nodes l)" using Nil.prems(2) by simp
  with Nil.prems(1) obtain n where n: "nodes l a = Some n" "node_succ n = h" by (auto simp: node_simps)
  have "(nodes l)(a := None) = Map.empty" using Nil.prems(2) by (auto simp: dom_eq_singleton_conv)
  with n show ?case
    by (simp add: deinit_loop.simps [of l] clean_spec [of _ a n] free_node_spec [of _ a n] same_clean_def node_simps)
next
  case (Cons x xs)
  have "a \<in> dom (nodes l)" using Cons.prems(2) by simp
  with Cons.prems(1) obtain n where n: "nodes l a = Some n" "node_succ n = x" by (auto simp: node_simps)
  define l1 where "l1 = l\<lparr>clean_calls := clean_calls l @ cleaned (func_clean l) [node_element n], nodes := (nodes l)(a := None)\<rparr>"
  have x: "x \<noteq> h" "a \<notin> set (x # xs)" using Cons.prems(3,4) by auto
  have e: "map (elem_of (nodes l1)) (x # xs) = map (elem_of (nodes l)) (x # xs)"
    using x(2) by (auto simp: l1_def node_simps)
  have "dpath (succ_of (nodes l1)) q x xs h = dpath (succ_of (nodes l)) q x xs h"
    by (rule dpath_cong) (use x(2) in \<open>auto simp: l1_def node_simps\<close>)
  then have d: "dpath (succ_of (nodes l1)) q x xs h" using Cons.prems(1) by simp
  have "dom (nodes l1) = set (x # xs)" "distinct (x # xs)" "h \<notin> set xs" using Cons.prems(2-4) by (auto simp: l1_def)
  from Cons.IH [OF d this] obtain l' where l':
    "deinit_loop l1 h x = Some (Some l')" "nodes l' = Map.empty" "same_clean l1 l' (map (elem_of (nodes l1)) (x # xs))"
    by blast
  have "deinit_loop l h a = deinit_loop l1 h x"
    using n x by (simp add: deinit_loop.simps [of l] clean_spec [of _ a n] free_node_spec [of _ a n] l1_def)
  with l'(1) have dl: "deinit_loop l h a = Some (Some l')" by simp
  have "same_clean l l1 [node_element n]" by (simp add: same_clean_def l1_def)
  from same_clean_trans [OF this l'(3)] have "same_clean l l' (map (elem_of (nodes l)) (a # x # xs))"
    unfolding e using n(1) by (simp add: node_simps)
  with dl l'(2) show ?case by blast
qed

section \<open>The iterator\<close>

definition is_list :: "'a list_data \<Rightarrow> 'a list \<Rightarrow> bool" where
  "is_list l es \<longleftrightarrow> (\<exists>ps. list_inv l ps \<and> elems l ps = es)"

text \<open>The iterator of \<open>l\<close> has handed out all but the last elements \<open>xs\<close> of \<open>es\<close>.\<close>

definition is_it :: "'a list_data \<Rightarrow> 'a list \<Rightarrow> 'a list \<Rightarrow> bool" where
  "is_it l es xs \<longleftrightarrow> (\<exists>ps k. list_inv l ps \<and> elems l ps = es \<and> k \<le> length ps \<and> xs = drop k es
     \<and> iter_round l = of_nat k \<and> (k < length ps \<longrightarrow> iter_node l = Some (ps ! k)))"

definition fresh_node :: "'a list_data \<Rightarrow> nat option \<Rightarrow> bool" where
  "fresh_node l m \<longleftrightarrow> (\<exists>p. m = Some p \<and> nodes l p = None)"

lemma length_elems [simp]: "length (elems l ps) = length ps"
  by (simp add: elems_def)

lemma list_iter_upd [simp]:
  "list_inv (l\<lparr>iter_round := r\<rparr>) ps = list_inv l ps" "elems (l\<lparr>iter_round := r\<rparr>) ps = elems l ps"
  "list_inv (l\<lparr>iter_node := p\<rparr>) ps = list_inv l ps" "elems (l\<lparr>iter_node := p\<rparr>) ps = elems l ps"
  by (simp_all add: list_inv_def elems_def)

lemma ListFirst_it:
  assumes "is_list l es" "es \<noteq> []"
  shows "\<exists>l'. ListFirst l False = Some l' \<and> is_it l' es es"
proof -
  obtain ps where ps: "list_inv l ps" "elems l ps = es" using assms(1) by (auto simp: is_list_def)
  then obtain h qs where c: "ps = h # qs" using assms(2) by (cases ps) (auto simp: elems_def)
  then have "list_head l = Some h" using ps(1) by (simp add: list_inv_def)
  with ps c show ?thesis by (auto simp: ListFirst_def is_it_def intro!: exI [of _ ps] exI [of _ 0])
qed

lemma ListNext_it:
  assumes "is_it l es (x # xs)"
  shows "\<exists>l'. ListNext l = Some (Some x, l') \<and> is_it l' es xs"
proof -
  obtain ps k where i: "list_inv l ps" "elems l ps = es" "x # xs = drop k es" "iter_round l = of_nat k"
    "k < length ps" "iter_node l = Some (ps ! k)"
    using assms by (auto simp: is_it_def) (metis drop_eq_Nil le_neq_implies_less length_elems list.distinct(1))
  have len: "length ps < 2 ^ 32" using i(1) by (simp add: list_inv_def)
  have r: "ring (nodes l) ps" using i(1) by (simp add: list_inv_def)
  obtain n where n: "nodes l (ps ! k) = Some n" using ring_node [OF r, of "ps ! k"] i(5) by auto
  have succ: "Suc k < length ps \<Longrightarrow> node_succ n = ps ! Suc k"
    using cycle_index(1) [of "succ_of (nodes l)" "pred_of (nodes l)" ps k] r i(5) n by (simp add: ring_def node_simps)
  have kl: "k < length es" using i(2,5) by auto
  have x: "x = node_element n" "xs = drop (Suc k) es"
    using i(2,3,5) n by (simp_all add: Cons_nth_drop_Suc [symmetric, OF kl]) (auto simp: elems_def node_simps)
  have "unat (of_nat k :: u32) = k" using i(5) len by (simp add: unat_of_nat)
  then have "iter_round l \<noteq> list_size l" using i(4,5) list_inv_size [OF i(1)] by auto
  moreover have "is_it (l\<lparr>iter_node := Some (node_succ n), iter_round := iter_round l + 1\<rparr>) es xs"
    using i succ x(2) by (auto simp: is_it_def add.commute intro!: exI [of _ ps] exI [of _ "Suc k"])
  ultimately show ?thesis using i(6) n x(1) by (simp add: ListNext_def)
qed

lemma ListNext_end: "is_it l es [] \<Longrightarrow> ListNext l = Some (None, l)"
  by (auto simp: is_it_def ListNext_def list_inv_def)

lemma is_it_list: "is_it l es xs \<Longrightarrow> is_list l es"
  by (auto simp: is_it_def is_list_def)

lemma is_it_round: "is_it l es xs \<Longrightarrow> iter_round l = of_nat (length es - length xs)"
  by (auto simp: is_it_def)

lemma iter_round_heap:
  "set_succ l p q = Some l' \<Longrightarrow> iter_round l' = iter_round l"
  "set_pred l p q = Some l' \<Longrightarrow> iter_round l' = iter_round l"
  "clean l p = Some l' \<Longrightarrow> iter_round l' = iter_round l"
  "free_node l p = Some l' \<Longrightarrow> iter_round l' = iter_round l"
  by (auto simp: set_succ_def set_pred_def clean_def free_node_def split: bind_splits option.splits)

lemma ListRemove_round: "ListRemove l i = Some (b, l') \<Longrightarrow> iter_round l' = iter_round l"
  by (auto simp: ListRemove_def Let_def split: bind_splits if_splits dest!: iter_round_heap)

lemma ListPushFront_list:
  assumes "is_list l es" "fresh_node l m" "length es + 1 < 2 ^ 32"
  shows "\<exists>l'. ListPushFront m l e = Some (True, l') \<and> is_list l' (e # es)"
proof -
  obtain ps where ps: "list_inv l ps" "elems l ps = es" using assms(1) by (auto simp: is_list_def)
  obtain p where p: "m = Some p" "p \<notin> set ps"
    using assms(2) ps(1) by (auto simp: fresh_node_def list_inv_def ring_def)
  obtain l' where "ListInsert (Some p) l 0 e = Some (True, l')" "list_inv l' (p # ps)" "elems l' (p # ps) = e # es"
    by (rule ListInsert_spec [OF ps(1) p(2), of 0 e]) (use assms(3) ps(2) in auto)
  with p(1) ListPushFront_eq [OF ps(1)] show ?thesis by (auto simp: is_list_def)
qed

lemma ListRemove_list:
  assumes "is_list l es" "unat i < length es"
  shows "\<exists>l'. ListRemove l i = Some (True, l') \<and> is_list l' (take (unat i) es @ drop (Suc (unat i)) es)"
proof -
  obtain ps where ps: "list_inv l ps" "elems l ps = es" using assms(1) by (auto simp: is_list_def)
  have "unat i < length ps" using assms(2) ps(2) by auto
  from ListRemove_spec [OF ps(1) this] ps(2) show ?thesis by (metis is_list_def)
qed

interpretation sockets: dynamic_container is_list is_it "\<lambda>l. ListFirst l False" ListNext fresh_node
  ListPushFront ListRemove unat "2 ^ 32"
  by unfold_locales (rule ListFirst_it ListNext_it ListNext_end ListPushFront_list ListRemove_list; assumption | erule is_it_list)+

section \<open>Properties\<close>

text \<open>Results of the operations that change the list: the answer, the new content, and what was cleaned.\<close>

definition changes :: "'a list_data \<Rightarrow> (bool \<times> 'a list_data) option \<Rightarrow> bool \<Rightarrow> 'a list \<Rightarrow> 'a list \<Rightarrow> bool" where
  "changes l r ok es xs \<longleftrightarrow> (\<exists>l'. r = Some (ok, l') \<and> is_list l' es \<and> same_clean l l' xs)"

lemma changes_none: "is_list l es \<Longrightarrow> changes l (Some (False, l)) False es []"
  by (simp add: changes_def same_clean_def)

lemma is_list_size: "is_list l es \<Longrightarrow> unat (list_size l) = length es"
  by (auto simp: is_list_def list_inv_size)

lemma insert_changes:
  assumes "is_list l es" "fresh_node l m" "length es + 1 < 2 ^ 32"
  shows "changes l (ListInsert m l idx e) (unat idx \<le> length es)
    (if unat idx \<le> length es then take (unat idx) es @ e # drop (unat idx) es else es) []"
proof (cases "unat idx \<le> length es")
  case True
  obtain ps where ps: "list_inv l ps" "elems l ps = es" using assms(1) by (auto simp: is_list_def)
  obtain p where p: "m = Some p" "p \<notin> set ps"
    using assms(2) ps(1) by (auto simp: fresh_node_def list_inv_def ring_def)
  have len: "length ps = length es" using ps(2) by auto
  show ?thesis
    by (rule ListInsert_spec [OF ps(1) p(2), of idx e]) (use True assms(3) len p(1) ps(2) in \<open>auto simp: changes_def is_list_def\<close>)
next
  case False
  then have "idx > list_size l" using is_list_size [OF assms(1)] by (simp add: word_less_nat_alt)
  with False changes_none [OF assms(1)] show ?thesis by (simp add: ListInsert_def)
qed

lemma remove_changes:
  assumes "is_list l es"
  shows "changes l (ListRemove l idx) (unat idx < length es)
    (take (unat idx) es @ drop (Suc (unat idx)) es) (if unat idx < length es then [es ! unat idx] else [])"
proof (cases "unat idx < length es")
  case True
  obtain ps where ps: "list_inv l ps" "elems l ps = es" using assms(1) by (auto simp: is_list_def)
  then have "unat idx < length ps" using True by auto
  from ListRemove_spec [OF ps(1) this] obtain l' where
    "ListRemove l idx = Some (True, l')" "list_inv l' (take (unat idx) ps @ drop (Suc (unat idx)) ps)"
    "elems l' (take (unat idx) ps @ drop (Suc (unat idx)) ps) = take (unat idx) es @ drop (Suc (unat idx)) es"
    "same_clean l l' [es ! unat idx]" using ps(2) by metis
  with True show ?thesis by (auto simp: changes_def is_list_def)
next
  case False
  then have "idx \<ge> list_size l" using is_list_size [OF assms] by (simp add: word_le_nat_alt)
  with False changes_none [OF assms] show ?thesis by (simp add: ListRemove_def)
qed

lemma set_changes:
  assumes "is_list l es"
  shows "changes l (ListSetAt l idx e) (unat idx < length es) (es[unat idx := e])
    (if unat idx < length es then [es ! unat idx] else [])"
proof (cases "unat idx < length es")
  case True
  obtain ps where ps: "list_inv l ps" "elems l ps = es" using assms(1) by (auto simp: is_list_def)
  then have "unat idx < length ps" using True by auto
  from ListSetAt_spec [OF ps(1) this, of e] obtain l' where "ListSetAt l idx e = Some (True, l')" "list_inv l' ps"
    "elems l' ps = es[unat idx := e]" "same_clean l l' [es ! unat idx]" unfolding ps(2) by blast
  with True show ?thesis by (auto simp: changes_def is_list_def)
next
  case False
  then have "idx \<ge> list_size l" using is_list_size [OF assms] by (simp add: word_le_nat_alt)
  with False changes_none [OF assms] show ?thesis by (simp add: ListSetAt_def list_update_beyond)
qed

lemma list_updates:
  assumes "is_list l es" "fresh_node l m" "length es + 1 < 2 ^ 32"
  shows "changes l (ListPushFront m l e) True (e # es) []"
    "changes l (ListPushBack m l e) True (es @ [e]) []"
    "changes l (ListInsert m l idx e) (unat idx \<le> length es)
       (if unat idx \<le> length es then take (unat idx) es @ e # drop (unat idx) es else es) []"
    "changes l (ListRemove l idx) (unat idx < length es)
       (take (unat idx) es @ drop (Suc (unat idx)) es) (if unat idx < length es then [es ! unat idx] else [])"
    "changes l (ListPopFront l) (es \<noteq> []) (tl es) (take 1 es)"
    "changes l (ListPopBack l) (es \<noteq> []) (butlast es) (if es = [] then [] else [last es])"
proof -
  obtain ps where ps: "list_inv l ps" "elems l ps = es" using assms(1) by (auto simp: is_list_def)
  obtain p where p: "m = Some p" using assms(2) by (auto simp: fresh_node_def)
  have nil: "ps = [] \<longleftrightarrow> es = []" using ps(2) by (auto simp: elems_def)
  note size = is_list_size [OF assms(1)]
  show "changes l (ListPushFront m l e) True (e # es) []"
    using insert_changes [OF assms, of 0 e] ListPushFront_eq [OF ps(1)] p by simp
  show "changes l (ListPushBack m l e) True (es @ [e]) []"
    using insert_changes [OF assms, of "list_size l" e] ListPushBack_eq [OF ps(1)] p size by simp
  show "changes l (ListInsert m l idx e) (unat idx \<le> length es)
       (if unat idx \<le> length es then take (unat idx) es @ e # drop (unat idx) es else es) []"
    by (rule insert_changes [OF assms])
  show "changes l (ListRemove l idx) (unat idx < length es)
       (take (unat idx) es @ drop (Suc (unat idx)) es) (if unat idx < length es then [es ! unat idx] else [])"
    by (rule remove_changes [OF assms(1)])
  show "changes l (ListPopFront l) (es \<noteq> []) (tl es) (take 1 es)"
    using remove_changes [OF assms(1), of 0] ListPopFront_eq [OF ps(1)] by (cases es) auto
  show "changes l (ListPopBack l) (es \<noteq> []) (butlast es) (if es = [] then [] else [last es])"
  proof (cases "es = []")
    case True
    then have "list_head l = None" using list_inv_Nil [OF ps(1)] nil by simp
    then show ?thesis using changes_none [OF assms(1)] True by (simp add: ListPopBack_def)
  next
    case False
    then have "unat (list_size l - 1) = length es - 1" using size by (cases es) (auto simp: unat_minus_nat)
    with remove_changes [OF assms(1), of "list_size l - 1"] ListPopBack_eq [OF ps(1)] nil False show ?thesis
      by (simp add: butlast_conv_take last_conv_nth)
  qed
qed

text \<open>
  C13. The pointer operations of the list implement the operations on the sequence of its elements:
  insertion in front, at the end and at an index, removal at both ends and at an index; an index out of
  range is refused and changes nothing. The heap afterwards holds exactly the nodes of the new cycle (no
  node is leaked or freed too early), and the clean function is called exactly for the removed element.
\<close>

theorem list_updates_refine:
  assumes "is_list l es" "fresh_node l m" "length es + 1 < 2 ^ 32"
  shows "(changes l (ListPushFront m l e) True (e # es) [])
     \<and> (changes l (ListPushBack m l e) True (es @ [e]) [])
     \<and> (changes l (ListInsert m l idx e) (unat idx \<le> length es)
       (if unat idx \<le> length es then take (unat idx) es @ e # drop (unat idx) es else es) [])
     \<and> (changes l (ListRemove l idx) (unat idx < length es)
       (take (unat idx) es @ drop (Suc (unat idx)) es) (if unat idx < length es then [es ! unat idx] else []))
     \<and> (changes l (ListPopFront l) (es \<noteq> []) (tl es) (take 1 es))
     \<and> (changes l (ListPopBack l) (es \<noteq> []) (butlast es) (if es = [] then [] else [last es]))"
  by (intro conjI list_updates [OF assms])

text \<open>A list of two elements, and one that has just been emptied by removing the only element.\<close>

definition list_demo :: "nat list_data" where
  "list_demo = \<lparr>nodes = [1 \<mapsto> \<lparr>node_element = 10, node_pred = 2, node_succ = 2\<rparr>, 2 \<mapsto> \<lparr>node_element = 20, node_pred = 1, node_succ = 1\<rparr>],
     list_size = 2, iter_round = 0, list_head = Some 1, iter_node = None, func_clean = Some 5, clean_calls = []\<rparr>"

lemma list_demo_is_list: "is_list list_demo [10, 20]"
  unfolding is_list_def
  by (rule exI [of _ "[1, 2]"]) (auto simp: list_demo_def list_inv_def ring_def cycle_def elems_def node_simps split: if_splits)

theorem list_updates_refine_witness:
  "\<exists>l'. ListPopFront list_demo = Some (True, l') \<and> is_list l' [20] \<and> clean_calls l' = [(5, 10)]"
proof -
  have "fresh_node list_demo (Some 3)" by (simp add: fresh_node_def list_demo_def)
  from list_updates_refine [OF list_demo_is_list this] show ?thesis
    by (auto simp: changes_def same_clean_def cleaned_def list_demo_def)
qed

lemma list_reads:
  assumes "is_list l es"
  shows "ListSize l = of_nat (length es)"
    "ListGetAt l idx = Some (if unat idx < length es then Some (es ! unat idx) else None)"
    "ListGetFront l = Some (if es = [] then None else Some (hd es))"
    "ListGetBack l = Some (if es = [] then None else Some (last es))"
    "changes l (ListSetAt l idx e) (unat idx < length es) (es[unat idx := e]) (if unat idx < length es then [es ! unat idx] else [])"
    "changes l (ListSetFront l e) (es \<noteq> []) (es[0 := e]) (take 1 es)"
    "changes l (ListSetBack l e) (es \<noteq> []) (es[length es - 1 := e]) (if es = [] then [] else [last es])"
    "if es = [] then ListReverse l = None else \<exists>l'. ListReverse l = Some l' \<and> is_list l' (rev es) \<and> same_clean l l' []"
    "\<exists>l'. ListDeinit l = Some (Some l') \<and> nodes l' = Map.empty \<and> same_clean l l' es"
proof -
  obtain ps where ps: "list_inv l ps" "elems l ps = es" using assms(1) by (auto simp: is_list_def)
  have nil: "ps = [] \<longleftrightarrow> es = []" "length ps = length es" using ps(2) by (auto simp: elems_def)
  note size = is_list_size [OF assms(1)]
  show "ListSize l = of_nat (length es)" using ps(1) nil by (simp add: ListSize_def list_inv_def)
  show "ListGetAt l idx = Some (if unat idx < length es then Some (es ! unat idx) else None)"
    "ListGetFront l = Some (if es = [] then None else Some (hd es))"
    "ListGetBack l = Some (if es = [] then None else Some (last es))"
    using ListGetAt_spec [OF ps(1)] ListGet_ends [OF ps(1)] nil ps(2) by auto
  show "changes l (ListSetAt l idx e) (unat idx < length es) (es[unat idx := e]) (if unat idx < length es then [es ! unat idx] else [])"
    by (rule set_changes [OF assms(1)])
  have set_nil: "ListSetFront l e = Some (False, l)" "ListSetBack l e = Some (False, l)" if "es = []"
    using that list_inv_Nil [OF ps(1)] nil by (simp_all add: ListSetFront_def ListSetBack_def)
  have idx: "unat (list_size l - 1) = length es - 1" if "es \<noteq> []"
    using that size by (cases es) (auto simp: unat_minus_nat)
  show "changes l (ListSetFront l e) (es \<noteq> []) (es[0 := e]) (take 1 es)"
    using set_changes [OF assms(1), of 0 e] ListSet_ends(1) [OF ps(1)] nil set_nil changes_none [OF assms(1)]
    by (cases es) auto
  show "changes l (ListSetBack l e) (es \<noteq> []) (es[length es - 1 := e]) (if es = [] then [] else [last es])"
    using set_changes [OF assms(1), of "list_size l - 1" e] ListSet_ends(2) [OF ps(1)] nil set_nil changes_none [OF assms(1)] idx
    by (cases "es = []") (auto simp: last_conv_nth)
  show "if es = [] then ListReverse l = None else \<exists>l'. ListReverse l = Some l' \<and> is_list l' (rev es) \<and> same_clean l l' []"
  proof (cases "es = []")
    case True
    then show ?thesis using list_inv_Nil [OF ps(1)] nil by (simp add: ListReverse_def)
  next
    case False
    with nil ListReverse_spec [OF ps(1)] ps(2) show ?thesis by (metis is_list_def)
  qed
  show "\<exists>l'. ListDeinit l = Some (Some l') \<and> nodes l' = Map.empty \<and> same_clean l l' es"
  proof (rule list_cases [OF ps(1)])
    fix h qs assume c: "ps = h # qs" "list_head l = Some h"
    then have "dpath (succ_of (nodes l)) (pred_of (nodes l)) h qs h" "dom (nodes l) = set (h # qs)" "distinct (h # qs)" "h \<notin> set qs"
      using ps(1) by (auto simp: list_inv_def ring_def cycle_def)
    from deinit_loop_spec [OF this] c ps(2) show ?thesis by (simp add: ListDeinit_def elems_def)
  next
    assume "ps = []" "list_head l = None"
    with ps show ?thesis by (auto simp: ListDeinit_def same_clean_def elems_def list_inv_def ring_def)
  qed
qed

text \<open>
  Reading and overwriting: the readers return the element at the place asked for and nothing on an
  index out of range or an empty list; a setter replaces exactly that element and cleans the old one;
  reversal reverses the sequence of elements, and follows a null pointer on the empty list, which it
  does not test for; destruction returns and frees every node, cleaning all elements in order.
\<close>

theorem list_reads_and_reversal:
  assumes "is_list l es"
  shows "(ListSize l = of_nat (length es))
     \<and> (ListGetAt l idx = Some (if unat idx < length es then Some (es ! unat idx) else None))
     \<and> (ListGetFront l = Some (if es = [] then None else Some (hd es)))
     \<and> (ListGetBack l = Some (if es = [] then None else Some (last es)))
     \<and> (changes l (ListSetAt l idx e) (unat idx < length es) (es[unat idx := e]) (if unat idx < length es then [es ! unat idx] else []))
     \<and> (changes l (ListSetFront l e) (es \<noteq> []) (es[0 := e]) (take 1 es))
     \<and> (changes l (ListSetBack l e) (es \<noteq> []) (es[length es - 1 := e]) (if es = [] then [] else [last es]))
     \<and> (if es = [] then ListReverse l = None else \<exists>l'. ListReverse l = Some l' \<and> is_list l' (rev es) \<and> same_clean l l' [])
     \<and> (\<exists>l'. ListDeinit l = Some (Some l') \<and> nodes l' = Map.empty \<and> same_clean l l' es)"
  by (intro conjI list_reads [OF assms])

theorem list_reads_and_reversal_witness:
  "\<exists>l'. ListReverse list_demo = Some l' \<and> is_list l' [20, 10] \<and> ListGetAt list_demo 1 = Some (Some 20)"
  using list_reads_and_reversal [OF list_demo_is_list, of 1] by auto

lemma list_iteration:
  fixes l :: "'a list_data"
  assumes "is_list l es"
  shows "if es \<noteq> []
     then \<exists>l1 l2. ListFirst l False = Some l1 \<and> while_next ListNext body l1 s = Some (Some (l2, fold body es s)) \<and> is_list l2 es
     else ListFirst l False = Some l \<and> ListNext l = (if iter_round l = 0 then Some (None, l) else None)"
    "\<exists>l0 :: 'a list_data. ListInit True True g = Some l0 \<and> is_list l0 [] \<and> iter_round l0 = g"
proof -
  show "if es \<noteq> []
     then \<exists>l1 l2. ListFirst l False = Some l1 \<and> while_next ListNext body l1 s = Some (Some (l2, fold body es s)) \<and> is_list l2 es
     else ListFirst l False = Some l \<and> ListNext l = (if iter_round l = 0 then Some (None, l) else None)"
  proof (cases "es = []")
    case True
    then have "list_inv l []" using assms by (auto simp: is_list_def elems_def)
    then have "list_head l = None" "nodes l = Map.empty" "list_size l = 0" by (auto simp: list_inv_def ring_def)
    then have "ListFirst l False = Some l" "ListNext l = (if iter_round l = 0 then Some (None, l) else None)"
      by (simp_all add: ListFirst_def ListNext_def split: bind_split)
    with True show ?thesis by simp
  next
    case False
    with sockets.traversal [OF assms] show ?thesis by auto
  qed
  show "\<exists>l0 :: 'a list_data. ListInit True True g = Some l0 \<and> is_list l0 [] \<and> iter_round l0 = g"
    by (auto simp: ListInit_def is_list_def list_inv_def ring_def cycle_def elems_def intro!: exI [of _ "[]"])
qed

text \<open>
  C14. A traversal by \<open>ListFirst\<close> and \<open>ListNext\<close> visits every element of a list that is not empty once,
  in order. On an empty list \<open>ListFirst\<close> does not reset the iterator, so that \<open>ListNext\<close> follows NULL or
  a freed node whenever the round counter is not zero: after initialisation it is what \<open>malloc\<close> left there,
  and after removing the only element of the list during a traversal it is one.
\<close>

theorem list_traversal:
  fixes l :: "'a list_data"
  assumes "is_list l es"
  shows "(if es \<noteq> []
     then \<exists>l1 l2. ListFirst l False = Some l1 \<and> while_next ListNext body l1 s = Some (Some (l2, fold body es s)) \<and> is_list l2 es
     else ListFirst l False = Some l \<and> ListNext l = (if iter_round l = 0 then Some (None, l) else None))
     \<and> (\<exists>l0 :: 'a list_data. ListInit True True g = Some l0 \<and> is_list l0 [] \<and> iter_round l0 = g)"
  by (intro conjI list_iteration [OF assms])

theorem list_traversal_witness:
  "\<exists>l1 l2. ListFirst list_demo False = Some l1 \<and> while_next ListNext (#) l1 [] = Some (Some (l2, [20, 10]))"
  using list_traversal [OF list_demo_is_list, of "(#)" "[]" 0] by auto

end
