(* ===== verification/Futex.thy ===== *)
theory Futex
  imports Prelude
begin

text \<open>
  The futex wait entries of \<open>api/include/utils/futex.h\<close>. An address is the name of the 32 bit variable
  it points to: the submission or completion futex of a socket, the futex of a queue of new sockets, or the socket
  counter of an application region. The system calls themselves (\<open>utils/futex.c\<close>) change no memory of the
  program; what \<open>futex_waitv\<close> returns is an argument of the loops that call it.
\<close>

datatype futex_addr = Null_Futex | Squeue_Futex nat | Cqueue_Futex nat | New_Socket_Queue_Futex | App_Futex nat

record futex_waitv =
  wv_val :: u64
  wv_uaddr :: futex_addr
  wv_flags :: u32
  wv_reserved :: u32

definition FUTEX_32 :: u32 where "FUTEX_32 = 2"

definition waitv_entry :: "futex_addr \<Rightarrow> u32 \<Rightarrow> futex_waitv" where
  "waitv_entry a v = \<lparr>wv_val = ucast v, wv_uaddr = a, wv_flags = FUTEX_32, wv_reserved = 0\<rparr>"

definition zero_waitv :: futex_waitv where
  "zero_waitv = \<lparr>wv_val = 0, wv_uaddr = Null_Futex, wv_flags = 0, wv_reserved = 0\<rparr>"

end
