(* ===== verification/Prio_Thread.thy ===== *)
theory Prio_Thread
  imports Stack Linked_List Futex
begin

text \<open>
  A priority thread of the stack (\<open>lwip/custom/stack/src/prio_thread.c\<close>): it moves the operations that
  applications submit from the submission queues of its sockets to its ring of the transmit queue, at
  most ten unserved ones per socket, and waits on the submission futexes. \<open>socket_futexes\<close> holds the part
  of each submission futex it has seen. Its ring is named by \<open>r\<close>; waking the stack changes no memory.
\<close>

section \<open>Model\<close>

definition TX_MAX_PARALLEL_OPS_PER_SOCKET :: u64 where "TX_MAX_PARALLEL_OPS_PER_SOCKET = 10"
definition TX_MAX_FUTEXES_PER_THREAD :: nat where "TX_MAX_FUTEXES_PER_THREAD = 128"

definition has_socket_max_parallel_ops :: "pifus_socket \<Rightarrow> bool" where
  "has_socket_max_parallel_ops socket \<longleftrightarrow> enqueued_ops socket - dequeued_ops socket \<ge> TX_MAX_PARALLEL_OPS_PER_SOCKET"

definition futex_shadow :: "'l stack \<Rightarrow> u32 \<Rightarrow> u32 \<Rightarrow> u32" where
  "futex_shadow st a i = socket_futexes st ! unat a ! unat i"

definition set_futex_shadow :: "'l stack \<Rightarrow> u32 \<Rightarrow> u32 \<Rightarrow> u32 \<Rightarrow> 'l stack" where
  "set_futex_shadow st a i v =
     st\<lparr>socket_futexes := (socket_futexes st)[unat a := (socket_futexes st ! unat a)[unat i := v]]\<rparr>"

text \<open>The body of the loop; \<open>None\<close> where it returns.\<close>

definition move_operation :: "ring_name \<Rightarrow> 'l stack \<Rightarrow> nat \<Rightarrow> 'l stack option" where
  "move_operation r st sp =
     (let socket = socket_regions st sp;
          a = app_index socket;
          i = socket_index socket
      in case ring_buffer_peek (squeue socket) of
           None \<Rightarrow> None
         | Some k \<Rightarrow>
             (let internal_op = \<lparr>iop_operation = squeue_buffer socket ! unat k, iop_socket = sp\<rparr>
              in case pr_put (tx_queue st) r internal_op of
                   (ok, q) \<Rightarrow>
                     if ok
                     then (let s1 = socket\<lparr>squeue := snd (ring_buffer_erase_first (squeue socket))\<rparr>;
                               st1 = set_futex_shadow (st\<lparr>tx_queue := q\<rparr>) a i (futex_shadow st a i + 1)
                           in Some (set_socket st1 sp (s1\<lparr>enqueued_ops := enqueued_ops s1 + 1\<rparr>)))
                     else None))"

text \<open>\<open>shadow_actual_difference\<close> counts down to zero.\<close>

fun move_loop :: "ring_name \<Rightarrow> nat \<Rightarrow> 'l stack \<Rightarrow> nat \<Rightarrow> 'l stack" where
  "move_loop r 0 st sp = st"
| "move_loop r (Suc difference) st sp =
     (if has_socket_max_parallel_ops (socket_regions st sp) then st
      else case move_operation r st sp of None \<Rightarrow> st | Some st1 \<Rightarrow> move_loop r difference st1 sp)"

definition handle_squeue_change :: "ring_name \<Rightarrow> 'l stack \<Rightarrow> nat \<Rightarrow> 'l stack" where
  "handle_squeue_change r st sp =
     (let socket = socket_regions st sp;
          difference = squeue_futex socket - futex_shadow st (app_index socket) (socket_index socket)
      in move_loop r (unat difference) st sp)"

text \<open>
  The first traversal of \<open>fill_prio_waitv\<close> for one element of the list, a pointer into \<open>socket_ptrs\<close>,
  given as the pair of its indices.
\<close>

record 'l fill_state =
  fs_stack :: "'l stack"
  fs_waitvs :: "futex_waitv list"
  fs_from :: "nat option list"
  fs_amount :: u8
  fs_removable :: bool

definition socket_ptr :: "'l stack \<Rightarrow> u32 \<times> u32 \<Rightarrow> nat option" where
  "socket_ptr st p = socket_ptrs st ! unat (fst p) ! unat (snd p)"

definition fill_socket :: "ring_name \<Rightarrow> u32 \<times> u32 \<Rightarrow> 'l fill_state \<Rightarrow> 'l fill_state" where
  "fill_socket r p fs =
     (case socket_ptr (fs_stack fs) p of
        None \<Rightarrow> fs\<lparr>fs_removable := True\<rparr>
      | Some sp \<Rightarrow>
          (let st = fs_stack fs;
               a = app_index (socket_regions st sp);
               i = socket_index (socket_regions st sp);
               st1 = (if squeue_futex (socket_regions st sp) \<noteq> futex_shadow st a i
                      then handle_squeue_change r st sp else st)
           in fs\<lparr>fs_stack := st1,
                 fs_waitvs := (fs_waitvs fs)[unat (fs_amount fs) := waitv_entry (Squeue_Futex sp) (futex_shadow st1 a i)],
                 fs_from := (fs_from fs)[unat (fs_amount fs) := Some sp],
                 fs_amount := fs_amount fs + 1\<rparr>))"

text \<open>The search for a closed socket; it removes the first one.\<close>

partial_function (option) remove_closed ::
    "'l stack \<Rightarrow> (u32 \<times> u32) list_data \<Rightarrow> u16 \<Rightarrow> (u32 \<times> u32) list_data option option" where
  "remove_closed st l current_index =
     (case ListNext l of
        None \<Rightarrow> Some None
      | Some (None, l1) \<Rightarrow> Some (Some l1)
      | Some (Some p, l1) \<Rightarrow>
          if socket_ptr st p = None then Some (map_option snd (ListRemove l1 (ucast current_index)))
          else remove_closed st l1 (current_index + 1))"

text \<open>
  \<open>removable_socket_inside_list\<close> is cleared at the end of the first round of the outer loop, which thus
  runs once. The result: \<open>None\<close> when a loop does not return, \<open>Some None\<close> for an invalid memory access.
\<close>

definition fill_prio_waitv ::
    "ring_name \<Rightarrow> 'l fill_state \<Rightarrow> (u32 \<times> u32) list_data \<Rightarrow> ('l fill_state \<times> (u32 \<times> u32) list_data) option option" where
  "fill_prio_waitv r fs l =
     (case ListFirst l False of
        None \<Rightarrow> Some None
      | Some l1 \<Rightarrow>
          Option.bind (while_next ListNext (fill_socket r) l1 (fs\<lparr>fs_amount := 0, fs_removable := False\<rparr>))
            (\<lambda>x. case x of
               None \<Rightarrow> Some None
             | Some (l2, fs1) \<Rightarrow>
                 if fs_removable fs1
                 then (case ListFirst l2 False of
                         None \<Rightarrow> Some None
                       | Some l3 \<Rightarrow> map_option (map_option (Pair fs1)) (remove_closed (fs_stack fs1) l3 0))
                 else Some (Some (fs1, l2))))"

text \<open>The queue of new sockets the discovery thread fills.\<close>

record new_socket_queue =
  socket_queue :: ring_buffer
  socket_queue_buffer :: "(u32 \<times> u32) list"
  socket_queue_futex :: u32

partial_function (option) add_new_sockets ::
    "((u32 \<times> u32) list_data \<Rightarrow> nat option) \<Rightarrow> new_socket_queue \<Rightarrow> (u32 \<times> u32) list_data \<Rightarrow> u32
       \<Rightarrow> (new_socket_queue \<times> (u32 \<times> u32) list_data \<times> u32) option option" where
  "add_new_sockets malloc q l shadow =
     (case ring_buffer_get (socket_queue q) (socket_queue_buffer q) of
        (None, rb) \<Rightarrow> Some (Some (q\<lparr>socket_queue := rb\<rparr>, l, shadow))
      | (Some new_socket, rb) \<Rightarrow>
          (case ListPushFront (malloc l) l new_socket of
             None \<Rightarrow> Some None
           | Some (ok, l1) \<Rightarrow> add_new_sockets malloc (q\<lparr>socket_queue := rb\<rparr>) l1 (shadow + 1)))"

text \<open>
  One round of \<open>prio_thread_loop\<close>. \<open>wait\<close> is the system call, which answers with the index of the futex
  that woke the thread, or a negative number.
\<close>

record prio_thread =
  pt_list :: "(u32 \<times> u32) list_data"
  pt_waitvs :: "futex_waitv list"
  pt_from :: "nat option list"
  pt_shadow :: u32

definition prio_thread_round ::
    "((u32 \<times> u32) list_data \<Rightarrow> nat option) \<Rightarrow> (futex_waitv list \<Rightarrow> u8 \<Rightarrow> int) \<Rightarrow> ring_name
       \<Rightarrow> 'l stack \<Rightarrow> new_socket_queue \<Rightarrow> prio_thread \<Rightarrow> ('l stack \<times> new_socket_queue \<times> prio_thread) option option" where
  "prio_thread_round malloc wait r st q pt =
     Option.bind (add_new_sockets malloc q (pt_list pt) (pt_shadow pt)) (\<lambda>x. case x of
        None \<Rightarrow> Some None
      | Some (q1, l1, shadow1) \<Rightarrow>
          Option.bind (fill_prio_waitv r
             \<lparr>fs_stack = st, fs_waitvs = pt_waitvs pt, fs_from = pt_from pt, fs_amount = 0, fs_removable = False\<rparr> l1)
            (\<lambda>y. case y of
               None \<Rightarrow> Some None
             | Some (fs, l2) \<Rightarrow>
                 (let waitvs = (fs_waitvs fs)[unat (fs_amount fs) := waitv_entry New_Socket_Queue_Futex shadow1];
                      ret_code = wait waitvs (fs_amount fs + 1);
                      pt1 = pt\<lparr>pt_list := l2, pt_waitvs := waitvs, pt_from := fs_from fs, pt_shadow := shadow1\<rparr>
                  in if ret_code \<ge> 0
                     then (let st1 = (case fs_from fs ! nat ret_code of
                                        None \<Rightarrow> fs_stack fs
                                      | Some sp \<Rightarrow> handle_squeue_change r (fs_stack fs) sp)
                           in Some (Some (st1, q1, pt1\<lparr>pt_from := replicate TX_MAX_FUTEXES_PER_THREAD None\<rparr>)))
                     else Some (Some (fs_stack fs, q1, pt1)))))"

text \<open>The state a thread starts with; the array on its stack is not initialised.\<close>

definition prio_thread_start :: "u32 \<Rightarrow> nat option list \<Rightarrow> prio_thread option" where
  "prio_thread_start garbage from =
     map_option (\<lambda>l. \<lparr>pt_list = l, pt_waitvs = replicate TX_MAX_FUTEXES_PER_THREAD zero_waitv,
        pt_from = from, pt_shadow = 0\<rparr>) (ListInit True True garbage)"

section \<open>Moving operations\<close>

definition futex_ok :: "'l stack \<Rightarrow> nat \<Rightarrow> bool" where
  "futex_ok st sp \<longleftrightarrow> unat (app_index (socket_regions st sp)) < length (socket_futexes st)
     \<and> unat (socket_index (socket_regions st sp)) < length (socket_futexes st ! unat (app_index (socket_regions st sp)))"

definition shadow_of :: "'l stack \<Rightarrow> nat \<Rightarrow> u32" where
  "shadow_of st sp = futex_shadow st (app_index (socket_regions st sp)) (socket_index (socket_regions st sp))"

definition move_pre :: "'l stack \<Rightarrow> nat \<Rightarrow> bool" where
  "move_pre st sp \<longleftrightarrow> pr_inv (tx_queue st) \<and> futex_ok st sp
     \<and> rb_inv (squeue (socket_regions st sp)) (squeue_buffer (socket_regions st sp))"

definition pr_room :: "prio_ring \<Rightarrow> ring_name \<Rightarrow> nat" where
  "pr_room q r = unat (rb_end (pr_ring q r)) - 1 - length (pr_list q r)"

definition in_flight :: "pifus_socket \<Rightarrow> nat" where
  "in_flight s = unat (enqueued_ops s - dequeued_ops s)"

text \<open>
  The first \<open>n\<close> submitted operations of the socket have moved to the ring: the new transmit queue,
  submission queue and futex shadows, and what they hold.
\<close>

definition move_upd :: "'l stack \<Rightarrow> nat \<Rightarrow> nat \<Rightarrow> prio_ring \<Rightarrow> ring_buffer \<Rightarrow> u32 list list \<Rightarrow> 'l stack" where
  "move_upd st sp n q rb fut = st\<lparr>tx_queue := q, socket_futexes := fut,
     socket_regions := (socket_regions st)(sp := (socket_regions st sp)
       \<lparr>squeue := rb, enqueued_ops := enqueued_ops (socket_regions st sp) + of_nat n\<rparr>)\<rparr>"

definition moved_to :: "ring_name \<Rightarrow> nat \<Rightarrow> 'l stack \<Rightarrow> nat \<Rightarrow> prio_ring \<Rightarrow> ring_buffer \<Rightarrow> u32 list list \<Rightarrow> bool" where
  "moved_to r n st sp q rb fut \<longleftrightarrow>
     (let s = socket_regions st sp; a = unat (app_index s); i = unat (socket_index s)
      in pr_inv q \<and> rb_inv rb (squeue_buffer s) \<and> rb_list rb (squeue_buffer s) = drop n (sq_list s) \<and> n \<le> length (sq_list s)
         \<and> (\<forall>r'. pr_list q r' = pr_list (tx_queue st) r' @
              (if r' = r then map (\<lambda>op. \<lparr>iop_operation = op, iop_socket = sp\<rparr>) (take n (sq_list s)) else []))
         \<and> (\<forall>r'. rb_end (pr_ring q r') = rb_end (pr_ring (tx_queue st) r'))
         \<and> map length fut = map length (socket_futexes st) \<and> fut ! a ! i = socket_futexes st ! a ! i + of_nat n
         \<and> (\<forall>x y. (x, y) \<noteq> (a, i) \<longrightarrow> fut ! x ! y = socket_futexes st ! x ! y))"

definition moved :: "ring_name \<Rightarrow> nat \<Rightarrow> 'l stack \<Rightarrow> nat \<Rightarrow> 'l stack \<Rightarrow> bool" where
  "moved r n st sp st' \<longleftrightarrow> (\<exists>q rb fut. st' = move_upd st sp n q rb fut \<and> moved_to r n st sp q rb fut)"

lemma sq_list_upd: "sq_list (s\<lparr>squeue := rb, enqueued_ops := e\<rparr>) = rb_list rb (squeue_buffer s)"
  by (simp add: sq_list_def)

lemma moved_0: "move_pre st sp \<Longrightarrow> moved r 0 st sp st"
  unfolding moved_def
  by (rule exI [of _ "tx_queue st"], rule exI [of _ "squeue (socket_regions st sp)"], rule exI [of _ "socket_futexes st"])
    (simp add: moved_to_def move_upd_def move_pre_def Let_def sq_list_def)

lemma moved_trans:
  assumes "moved r n st sp st1" "moved r m st1 sp st2"
  shows "moved r (n + m) st sp st2"
proof -
  obtain q rb fut q2 rb2 fut2 where st: "st1 = move_upd st sp n q rb fut" "moved_to r n st sp q rb fut"
    "st2 = move_upd st1 sp m q2 rb2 fut2" "moved_to r m st1 sp q2 rb2 fut2"
    using assms by (auto simp: moved_def)
  have "st2 = move_upd st sp (n + m) q2 rb2 fut2" by (simp add: st(1,3) move_upd_def add.assoc)
  moreover have "moved_to r (n + m) st sp q2 rb2 fut2"
    using st(2,4) unfolding st(1)
    by (auto simp: moved_to_def move_upd_def Let_def sq_list_upd take_add add.commute [of m] simp del: length_rb_list)
  ultimately show ?thesis by (auto simp: moved_def)
qed

lemma moved_views:
  assumes "moved r n st sp st'" "move_pre st sp"
  shows "move_pre st' sp" "sq_list (socket_regions st' sp) = drop n (sq_list (socket_regions st sp))"
    "length (pr_list (tx_queue st') r) = length (pr_list (tx_queue st) r) + n"
    "rb_end (pr_ring (tx_queue st') r') = rb_end (pr_ring (tx_queue st) r')"
    "enqueued_ops (socket_regions st' sp) = enqueued_ops (socket_regions st sp) + of_nat n"
    "dequeued_ops (socket_regions st' sp) = dequeued_ops (socket_regions st sp)"
    "shadow_of st' sp = shadow_of st sp + of_nat n" "n \<le> length (sq_list (socket_regions st sp))"
proof -
  obtain q rb fut where u: "st' = move_upd st sp n q rb fut" and m: "moved_to r n st sp q rb fut"
    using assms(1) by (auto simp: moved_def)
  have len: "length fut = length (socket_futexes st)" "i < length fut \<Longrightarrow> length (fut ! i) = length (socket_futexes st ! i)" for i
  proof -
    have ml: "map length fut = map length (socket_futexes st)" using m by (simp add: moved_to_def Let_def)
    from arg_cong [OF this, of length] show l: "length fut = length (socket_futexes st)" by simp
    show "length (fut ! i) = length (socket_futexes st ! i)" if "i < length fut"
      using arg_cong [OF ml, of "\<lambda>xs. xs ! i"] that l by simp
  qed
  show "move_pre st' sp" using m assms(2) len
    by (simp add: u move_upd_def moved_to_def move_pre_def Let_def futex_ok_def)
  show "sq_list (socket_regions st' sp) = drop n (sq_list (socket_regions st sp))"
    "rb_end (pr_ring (tx_queue st') r') = rb_end (pr_ring (tx_queue st) r')"
    "enqueued_ops (socket_regions st' sp) = enqueued_ops (socket_regions st sp) + of_nat n"
    "dequeued_ops (socket_regions st' sp) = dequeued_ops (socket_regions st sp)"
    "shadow_of st' sp = shadow_of st sp + of_nat n" "n \<le> length (sq_list (socket_regions st sp))"
    using m by (simp_all add: u move_upd_def moved_to_def Let_def sq_list_upd shadow_of_def futex_shadow_def)
  then show "length (pr_list (tx_queue st') r) = length (pr_list (tx_queue st) r) + n"
    using m by (simp add: u move_upd_def moved_to_def Let_def)
qed

lemma map_update_same: "a < length xs \<Longrightarrow> (map f xs)[a := f (xs ! a)] = map f xs"
  by (simp add: list_eq_iff_nth_eq nth_list_update)

lemma move_operation_spec:
  assumes "move_pre st sp"
  shows "if sq_list (socket_regions st sp) = [] \<or> pr_room (tx_queue st) r = 0 then move_operation r st sp = None
     else \<exists>st'. move_operation r st sp = Some st' \<and> moved r 1 st sp st'"
proof (cases "sq_list (socket_regions st sp)")
  case Nil
  with assms peek_spec(1) [of "squeue (socket_regions st sp)" "squeue_buffer (socket_regions st sp)"] show ?thesis
    by (simp add: move_operation_def move_pre_def sq_list_def Let_def)
next
  case (Cons op ops)
  let ?s = "socket_regions st sp"
  let ?iop = "\<lparr>iop_operation = op, iop_socket = sp\<rparr>"
  have inv: "rb_inv (squeue ?s) (squeue_buffer ?s)" "pr_inv (tx_queue st)" using assms by (simp_all add: move_pre_def)
  note h = rb_head_slot [OF inv(1), of op ops] Cons [unfolded sq_list_def]
  obtain ok q where put: "pr_put (tx_queue st) r ?iop = (ok, q)" by force
  note p = pr_put_spec [OF inv(2) put]
  have ok: "ok \<longleftrightarrow> pr_room (tx_queue st) r \<noteq> 0" using p(2) by (auto simp: pr_room_def)
  show ?thesis
  proof (cases ok)
    case False
    with h put ok Cons show ?thesis by (simp add: move_operation_def Let_def)
  next
    case True
    let ?rb = "snd (ring_buffer_erase_first (squeue ?s))"
    let ?fut = "socket_futexes (set_futex_shadow st (app_index ?s) (socket_index ?s) (shadow_of st sp + 1))"
    have "move_operation r st sp = Some (move_upd st sp 1 q ?rb ?fut)"
      using h put True by (simp add: move_operation_def Let_def move_upd_def set_futex_shadow_def set_socket_def
        shadow_of_def futex_shadow_def)
    moreover have "moved_to r 1 st sp q ?rb ?fut"
      using h p True assms Cons
      by (auto simp: moved_to_def Let_def move_pre_def futex_ok_def set_futex_shadow_def shadow_of_def futex_shadow_def
          map_update map_update_same nth_list_update simp del: length_rb_list)
    ultimately show ?thesis using ok True Cons by (auto simp: moved_def)
  qed
qed

text \<open>How far the loop gets.\<close>

definition move_count :: "ring_name \<Rightarrow> nat \<Rightarrow> 'l stack \<Rightarrow> nat \<Rightarrow> nat" where
  "move_count r difference st sp =
     min (min difference (10 - in_flight (socket_regions st sp)))
         (min (length (sq_list (socket_regions st sp))) (pr_room (tx_queue st) r))"

lemma in_flight_add:
  assumes "enqueued_ops s' = enqueued_ops s + of_nat n" "dequeued_ops s' = dequeued_ops s" "in_flight s + n \<le> 10"
  shows "in_flight s' = in_flight s + n"
proof -
  have "enqueued_ops s' - dequeued_ops s' = (enqueued_ops s - dequeued_ops s) + of_nat n" using assms by simp
  moreover have "unat (of_nat n :: u64) = n" using assms(3) by (simp add: unat_of_nat)
  ultimately show ?thesis using assms(3) unfolding in_flight_def by (simp add: unat_word_ariths)
qed

lemma max_parallel_iff: "has_socket_max_parallel_ops s \<longleftrightarrow> 10 \<le> in_flight s"
  by (simp add: has_socket_max_parallel_ops_def TX_MAX_PARALLEL_OPS_PER_SOCKET_def in_flight_def word_le_nat_alt)

lemma move_loop_spec:
  "move_pre st sp \<Longrightarrow> moved r (move_count r d st sp) st sp (move_loop r d st sp)"
proof (induction d arbitrary: st)
  case 0
  then show ?case by (simp add: move_count_def moved_0)
next
  case (Suc d)
  let ?s = "socket_regions st sp"
  show ?case
  proof (cases "has_socket_max_parallel_ops ?s \<or> sq_list ?s = [] \<or> pr_room (tx_queue st) r = 0")
    case True
    then have "move_count r (Suc d) st sp = 0" by (auto simp: move_count_def max_parallel_iff)
    moreover have "move_loop r (Suc d) st sp = st"
      using True move_operation_spec [OF Suc.prems, of r] by (auto split: if_splits)
    ultimately show ?thesis using moved_0 [OF Suc.prems] by simp
  next
    case False
    with move_operation_spec [OF Suc.prems, of r] obtain st1 where
      st1: "move_operation r st sp = Some st1" "moved r 1 st sp st1" by auto
    note v = moved_views [OF st1(2) Suc.prems]
    have fl: "in_flight ?s < 10" using False by (simp add: max_parallel_iff)
    then have "in_flight (socket_regions st1 sp) = in_flight ?s + 1"
      by (intro in_flight_add) (use v(5,6) in auto)
    moreover have "pr_room (tx_queue st1) r = pr_room (tx_queue st) r - 1" using v(3,4) by (simp add: pr_room_def)
    moreover have "length (sq_list (socket_regions st1 sp)) = length (sq_list ?s) - 1" using v(2) by (simp del: length_rb_list)
    ultimately have "move_count r (Suc d) st sp = 1 + move_count r d st1 sp"
      using False fl by (cases "sq_list ?s") (auto simp: move_count_def min_def simp del: length_rb_list)
    with moved_trans [OF st1(2) Suc.IH [OF v(1)]] False st1(1) show ?thesis by simp
  qed
qed

text \<open>The state after a futex change of one socket.\<close>

definition squeue_count :: "ring_name \<Rightarrow> 'l stack \<Rightarrow> nat \<Rightarrow> nat" where
  "squeue_count r st sp = move_count r (unat (squeue_futex (socket_regions st sp) - shadow_of st sp)) st sp"

lemma handle_squeue_change_moved:
  "move_pre st sp \<Longrightarrow> moved r (squeue_count r st sp) st sp (handle_squeue_change r st sp)"
  using move_loop_spec by (simp add: handle_squeue_change_def squeue_count_def shadow_of_def Let_def)

section \<open>The wait list\<close>

lemma move_operation_keeps:
  "move_operation r st sp = Some st' \<Longrightarrow> socket_ptrs st' = socket_ptrs st"
  by (auto simp: move_operation_def Let_def set_futex_shadow_def split: option.splits prod.splits if_splits)

lemma move_loop_keeps: "socket_ptrs (move_loop r d st sp) = socket_ptrs st"
proof (induction d arbitrary: st)
  case (Suc d)
  then show ?case using move_operation_keeps by (auto split: option.split)
qed simp

lemma fill_socket_ptr: "socket_ptr (fs_stack (fill_socket r p fs)) = socket_ptr (fs_stack fs)"
  by (auto simp: fill_socket_def Let_def handle_squeue_change_def move_loop_keeps socket_ptr_def fun_eq_iff split: option.splits)

text \<open>What serving one socket does to the stack.\<close>

definition serve_socket :: "ring_name \<Rightarrow> u32 \<times> u32 \<Rightarrow> 'l stack \<Rightarrow> 'l stack" where
  "serve_socket r p st = (case socket_ptr st p of None \<Rightarrow> st
     | Some sp \<Rightarrow> if squeue_futex (socket_regions st sp) \<noteq> shadow_of st sp then handle_squeue_change r st sp else st)"

definition is_open :: "'l stack \<Rightarrow> u32 \<times> u32 \<Rightarrow> bool" where
  "is_open st p \<longleftrightarrow> socket_ptr st p \<noteq> None"

lemma is_open_fill [simp]: "is_open (fs_stack (fill_socket r p fs)) = is_open (fs_stack fs)"
  by (simp add: is_open_def fill_socket_ptr fun_eq_iff)

lemma serve_ptr [simp]: "socket_ptr (serve_socket r p st) = socket_ptr st"
  by (auto simp: serve_socket_def handle_squeue_change_def Let_def move_loop_keeps socket_ptr_def fun_eq_iff split: option.split)

lemma fold_serve_ptr [simp]: "socket_ptr (fold (serve_socket r) ids st) = socket_ptr st"
  by (induction ids arbitrary: st) simp_all

text \<open>The traversal after the elements \<open>ids\<close>.\<close>

definition filled :: "ring_name \<Rightarrow> 'l fill_state \<Rightarrow> (u32 \<times> u32) list \<Rightarrow> 'l fill_state \<Rightarrow> bool" where
  "filled r fs ids fs' \<longleftrightarrow>
     (let st = fs_stack fs; opens = filter (is_open st) ids; n = length opens
      in fs_stack fs' = fold (serve_socket r) ids st \<and> unat (fs_amount fs') = n
         \<and> length (fs_from fs') = length (fs_from fs) \<and> length (fs_waitvs fs') = length (fs_waitvs fs)
         \<and> take n (fs_from fs') = map (socket_ptr st) opens
         \<and> take n (map wv_uaddr (fs_waitvs fs')) = map (\<lambda>p. Squeue_Futex (the (socket_ptr st p))) opens
         \<and> (fs_removable fs' \<longleftrightarrow> (\<exists>p\<in>set ids. \<not> is_open st p))
         \<and> socket_ptr (fs_stack fs') = socket_ptr st)"

lemma filled_step:
  assumes "filled r fs ids fs1" "length ids < 127" "128 \<le> length (fs_from fs)" "128 \<le> length (fs_waitvs fs)"
  shows "filled r fs (ids @ [p]) (fill_socket r p fs1)"
proof -
  let ?n = "length (filter (is_open (fs_stack fs)) ids)"
  have n: "?n < 127" using assms(2) length_filter_le [of "is_open (fs_stack fs)" ids] by linarith
  have f: "fs_stack fs1 = fold (serve_socket r) ids (fs_stack fs)" "unat (fs_amount fs1) = ?n"
    "socket_ptr (fs_stack fs1) = socket_ptr (fs_stack fs)"
    "take ?n (fs_from fs1) = map (socket_ptr (fs_stack fs)) (filter (is_open (fs_stack fs)) ids)"
    "length (fs_from fs1) = length (fs_from fs)" "length (fs_waitvs fs1) = length (fs_waitvs fs)"
    "take ?n (map wv_uaddr (fs_waitvs fs1)) = map (\<lambda>p. Squeue_Futex (the (socket_ptr (fs_stack fs) p))) (filter (is_open (fs_stack fs)) ids)"
    "fs_removable fs1 \<longleftrightarrow> (\<exists>p\<in>set ids. \<not> is_open (fs_stack fs) p)"
    using assms(1) by (auto simp: filled_def Let_def)
  show ?thesis
  proof (cases "socket_ptr (fs_stack fs) p")
    case None
    with f show ?thesis
      by (auto simp: filled_def Let_def fill_socket_def serve_socket_def is_open_def)
  next
    case (Some sp)
    have am: "unat (fs_amount fs1 + 1) = Suc ?n" using f(2) n by (simp add: unat_word_ariths)
    have k: "?n < length (fs_from fs1)" "?n < length (map wv_uaddr (fs_waitvs fs1))" using n f(5,6) assms(3,4) by auto
    have "fs_stack (fill_socket r p fs1) = serve_socket r p (fs_stack fs1)"
      using Some f(3) by (simp add: fill_socket_def serve_socket_def Let_def shadow_of_def)
    moreover have "fs_amount (fill_socket r p fs1) = fs_amount fs1 + 1" "fs_from (fill_socket r p fs1) = (fs_from fs1)[?n := Some sp]"
      "map wv_uaddr (fs_waitvs (fill_socket r p fs1)) = (map wv_uaddr (fs_waitvs fs1))[?n := Squeue_Futex sp]"
      "length (fs_waitvs (fill_socket r p fs1)) = length (fs_waitvs fs1)"
      "fs_removable (fill_socket r p fs1) = fs_removable fs1"
      using Some f(2,3) by (simp_all add: fill_socket_def Let_def map_update waitv_entry_def)
    moreover have "is_open (fs_stack fs) p" using Some by (simp add: is_open_def)
    ultimately show ?thesis
      using f am Some take_update [OF k(1)] take_update [OF k(2)] fill_socket_ptr [of r p fs1]
      by (simp add: filled_def Let_def)
  qed
qed

lemma fill_fold:
  assumes "128 \<le> length (fs_from fs)" "128 \<le> length (fs_waitvs fs)" "fs_amount fs = 0" "\<not> fs_removable fs"
  shows "length ids < 128 \<Longrightarrow> filled r fs ids (fold (fill_socket r) ids fs)"
proof (induction ids rule: rev_induct)
  case (snoc p ids)
  then show ?case using filled_step [OF _ _ assms(1,2), of r ids _ p] by simp
qed (use assms in \<open>simp add: filled_def\<close>)

lemma remove_closed_spec:
  assumes "is_it l (qs @ xs) xs" "unat i = length qs" "length (qs @ xs) < 2 ^ 16"
  shows "\<exists>l'. remove_closed st l i = Some (Some l')
     \<and> is_list l' (qs @ takeWhile (is_open st) xs @ tl (dropWhile (is_open st) xs))
     \<and> ((\<exists>p\<in>set xs. \<not> is_open st p) \<longrightarrow> iter_round l' = of_nat (length qs + length (takeWhile (is_open st) xs) + 1))"
  using assms
proof (induction xs arbitrary: l qs i)
  case Nil
  then show ?case using ListNext_end [OF Nil(1)] is_it_list [OF Nil(1)] by (simp add: remove_closed.simps [of st l])
next
  case (Cons x xs)
  obtain l1 where l1: "ListNext l = Some (Some x, l1)" "is_it l1 (qs @ x # xs) xs" using ListNext_it [OF Cons.prems(1)] by blast
  show ?case
  proof (cases "is_open st x")
    case True
    have "unat (i + 1) = length (qs @ [x])" using Cons.prems(2,3) by (simp add: unat_word_ariths)
    with Cons.IH [of l1 "qs @ [x]" "i + 1"] Cons.prems(3) l1(2) obtain l' where
      "remove_closed st l1 (i + 1) = Some (Some l')"
      "is_list l' (qs @ x # takeWhile (is_open st) xs @ tl (dropWhile (is_open st) xs))"
      "(\<exists>p\<in>set xs. \<not> is_open st p) \<longrightarrow> iter_round l' = of_nat (Suc (length qs) + length (takeWhile (is_open st) xs) + 1)"
      by auto
    moreover have "remove_closed st l i = remove_closed st l1 (i + 1)"
      using True l1(1) by (auto simp: remove_closed.simps [of st l] is_open_def)
    ultimately show ?thesis using True by auto
  next
    case False
    have pos: "unat (ucast i :: u32) = length qs" using Cons.prems(2) by (simp add: unat_ucast_u16_u32)
    from ListRemove_list [OF is_it_list [OF l1(2)], of "ucast i"] pos obtain l' where
      l': "ListRemove l1 (ucast i) = Some (True, l')" "is_list l' (qs @ xs)" by auto
    have "iter_round l' = of_nat (length qs + 1)"
      using ListRemove_round [OF l'(1)] is_it_round [OF l1(2)] by simp
    with l' False l1(1) show ?thesis by (simp add: remove_closed.simps [of st l] is_open_def)
  qed
qed

text \<open>An empty list whose iterator was used before ends the thread.\<close>

lemma fill_empty:
  assumes "is_list l []" "iter_round l \<noteq> 0"
  shows "fill_prio_waitv r fs l = Some None"
  using list_iteration(1) [OF assms(1)] assms(2) by (simp add: fill_prio_waitv_def while_next.simps [of ListNext])

lemma fill_prio_waitv_spec:
  assumes "is_list l ids" "ids \<noteq> []" "length ids < 128" "128 \<le> length (fs_from fs)" "128 \<le> length (fs_waitvs fs)"
  shows "\<exists>fs' l'. fill_prio_waitv r fs l = Some (Some (fs', l'))
     \<and> filled r (fs\<lparr>fs_amount := 0, fs_removable := False\<rparr>) ids fs'
     \<and> is_list l' (takeWhile (is_open (fs_stack fs)) ids @ tl (dropWhile (is_open (fs_stack fs)) ids))
     \<and> ((\<exists>p\<in>set ids. \<not> is_open (fs_stack fs) p) \<longrightarrow> iter_round l' = of_nat (length (takeWhile (is_open (fs_stack fs)) ids) + 1))"
proof -
  define fs0 where "fs0 = fs\<lparr>fs_amount := 0, fs_removable := False\<rparr>"
  define fs' where "fs' = fold (fill_socket r) ids fs0"
  have f: "filled r fs0 ids fs'" unfolding fs'_def by (rule fill_fold) (use assms in \<open>simp_all add: fs0_def\<close>)
  have fs0: "fs_stack fs0 = fs_stack fs" by (simp add: fs0_def)
  have ptr: "socket_ptr (fs_stack fs') = socket_ptr (fs_stack fs)" using f unfolding filled_def Let_def fs0 by blast
  have rem: "fs_removable fs' \<longleftrightarrow> (\<exists>p\<in>set ids. \<not> is_open (fs_stack fs) p)" using f unfolding filled_def Let_def fs0 by blast
  have st: "is_open (fs_stack fs') = is_open (fs_stack fs)" by (rule ext) (simp add: is_open_def ptr)
  obtain l1 l2 where
    l: "ListFirst l False = Some l1" "while_next ListNext (fill_socket r) l1 fs0 = Some (Some (l2, fs'))" "is_list l2 ids"
    using sockets.traversal [OF assms(1,2), of "fill_socket r" fs0] unfolding fs'_def by auto
  show ?thesis
  proof (cases "fs_removable fs'")
    case False
    then have "\<forall>p\<in>set ids. is_open (fs_stack fs) p" using rem by auto
    then have "takeWhile (is_open (fs_stack fs)) ids = ids" "dropWhile (is_open (fs_stack fs)) ids = []" by simp_all
    then have "takeWhile (is_open (fs_stack fs)) ids @ tl (dropWhile (is_open (fs_stack fs)) ids) = ids"
      by (simp only: list.sel append_Nil2)
    with False l f rem show ?thesis by (auto simp: fill_prio_waitv_def fs0_def)
  next
    case True
    obtain l3 where l3: "ListFirst l2 False = Some l3" "is_it l3 ids ids" using ListFirst_it [OF l(3) assms(2)] by blast
    have "is_it l3 ([] @ ids) ids" "unat (0 :: u16) = length ([] :: (u32 \<times> u32) list)" "length ([] @ ids) < 2 ^ 16"
      using l3(2) assms(3) by simp_all
    from remove_closed_spec [OF this, of "fs_stack fs'"] obtain l4 where
      l4: "remove_closed (fs_stack fs') l3 0 = Some (Some l4)"
        "is_list l4 (takeWhile (is_open (fs_stack fs)) ids @ tl (dropWhile (is_open (fs_stack fs)) ids))"
        "(\<exists>p\<in>set ids. \<not> is_open (fs_stack fs) p) \<longrightarrow> iter_round l4 = of_nat (length (takeWhile (is_open (fs_stack fs)) ids) + 1)"
      unfolding st by auto
    with l l3(1) True f show ?thesis by (auto simp: fill_prio_waitv_def fs0_def)
  qed
qed

section \<open>Properties\<close>

text \<open>
  C20. When the submission futex of a socket has changed, its priority thread moves operations from the
  head of the submission queue to the end of its ring of the transmit queue, in order: as many as the
  futex announces, while the socket has less than ten unserved operations, the submission queue holds
  one and the ring has room. Exactly these are counted as enqueued and as seen; the limit of ten is never
  exceeded; the other rings, sockets and shadows stay as they are.
\<close>

theorem handle_squeue_change_moves:
  assumes "move_pre st sp"
  shows "let s = socket_regions st sp; st' = handle_squeue_change r st sp; s' = socket_regions st' sp;
       n = min (min (unat (squeue_futex s - shadow_of st sp)) (10 - in_flight s)) (min (length (sq_list s)) (pr_room (tx_queue st) r))
     in sq_list s' = drop n (sq_list s) \<and> sock_inv s' = sock_inv s
        \<and> (\<forall>r'. pr_list (tx_queue st') r' = pr_list (tx_queue st) r' @
             (if r' = r then map (\<lambda>op. \<lparr>iop_operation = op, iop_socket = sp\<rparr>) (take n (sq_list s)) else []))
        \<and> pr_inv (tx_queue st') \<and> shadow_of st' sp = shadow_of st sp + of_nat n
        \<and> enqueued_ops s' = enqueued_ops s + of_nat n \<and> in_flight s' = in_flight s + n \<and> (in_flight s \<le> 10 \<longrightarrow> in_flight s' \<le> 10)
        \<and> (\<forall>p. p \<noteq> sp \<longrightarrow> socket_regions st' p = socket_regions st p)"
proof -
  let ?s = "socket_regions st sp" and ?st' = "handle_squeue_change r st sp" and ?n = "squeue_count r st sp"
  have m: "moved r ?n st sp ?st'" by (rule handle_squeue_change_moved [OF assms])
  then obtain q rb fut where u: "?st' = move_upd st sp ?n q rb fut" and mt: "moved_to r ?n st sp q rb fut"
    by (auto simp: moved_def)
  note v = moved_views [OF m assms]
  have n: "?n = min (min (unat (squeue_futex ?s - shadow_of st sp)) (10 - in_flight ?s)) (min (length (sq_list ?s)) (pr_room (tx_queue st) r))"
    by (simp add: squeue_count_def move_count_def)
  then have "?n \<le> 10 - in_flight ?s" by simp
  then have fl: "in_flight (socket_regions ?st' sp) = in_flight ?s + ?n"
    by (cases "in_flight ?s \<le> 10") (intro in_flight_add v(5,6), simp, simp add: in_flight_def v(5,6))
  have "\<forall>r'. pr_list (tx_queue ?st') r' = pr_list (tx_queue st) r' @
      (if r' = r then map (\<lambda>op. \<lparr>iop_operation = op, iop_socket = sp\<rparr>) (take ?n (sq_list ?s)) else [])"
    using mt by (simp add: u move_upd_def moved_to_def Let_def)
  moreover have "sock_inv (socket_regions ?st' sp) = sock_inv ?s"
    using mt assms by (simp add: u move_upd_def moved_to_def Let_def sock_inv_def move_pre_def)
  moreover have "\<forall>p. p \<noteq> sp \<longrightarrow> socket_regions ?st' p = socket_regions st p" by (simp add: u move_upd_def)
  moreover have "in_flight ?s \<le> 10 \<longrightarrow> in_flight (socket_regions ?st' sp) \<le> 10" using fl \<open>?n \<le> 10 - in_flight ?s\<close> by linarith
  ultimately show ?thesis
    using v(1,2,5,7) fl unfolding Let_def n [symmetric] by (simp add: move_pre_def)
qed

definition submit_demo :: "unit stack" where
  "submit_demo = demo_stack\<lparr>socket_regions := (\<lambda>_. demo_socket\<lparr>
     squeue := \<lparr>rb_end = 4, rb_head = 2, rb_tail = 0\<rparr>, squeue_futex := 2\<rparr>)\<rparr>"

lemma submit_demo_pre: "move_pre submit_demo 7" "length (sq_list (socket_regions submit_demo 7)) = 2"
  "unat (squeue_futex (socket_regions submit_demo 7) - shadow_of submit_demo 7) = 2"
  "in_flight (socket_regions submit_demo 7) = 0" "pr_room (tx_queue submit_demo) Medium = 2"
  "pr_list (tx_queue submit_demo) Medium = []"
  by (simp_all add: submit_demo_def demo_stack_def move_pre_def futex_ok_def shadow_of_def futex_shadow_def demo_socket_def
    zero_socket_def rb_inv_def sq_list_def rb_list_def rb_count_def ring_count_def pr_room_def pr_demo_views in_flight_def
    pr_demo_def Let_def pr_list_def pr_inv_def)

theorem handle_squeue_change_moves_witness:
  "length (pr_list (tx_queue (handle_squeue_change Medium submit_demo 7)) Medium) = 2
   \<and> in_flight (socket_regions (handle_squeue_change Medium submit_demo 7) 7) = 2"
  using handle_squeue_change_moves [OF submit_demo_pre(1), of Medium] submit_demo_pre(2-6)
  by (simp add: Let_def del: length_rb_list)

text \<open>
  Building the wait list visits the sockets of the thread once each, in list order: a changed
  submission futex is served, every open socket gets the next wait entry on its submission futex, and
  the first closed socket (only the first) leaves the list. The call returns for every list that is not
  empty and fits the wait list.
\<close>

theorem fill_prio_waitv_serves:
  assumes "is_list l ids" "ids \<noteq> []" "length ids < 128" "128 \<le> length (fs_from fs)" "128 \<le> length (fs_waitvs fs)"
    and "opens = filter (is_open (fs_stack fs)) ids"
  shows "\<exists>fs' l'. fill_prio_waitv r fs l = Some (Some (fs', l'))
     \<and> fs_stack fs' = fold (serve_socket r) ids (fs_stack fs) \<and> unat (fs_amount fs') = length opens
     \<and> take (length opens) (fs_from fs') = map (socket_ptr (fs_stack fs)) opens
     \<and> take (length opens) (map wv_uaddr (fs_waitvs fs')) = map (\<lambda>p. Squeue_Futex (the (socket_ptr (fs_stack fs) p))) opens
     \<and> is_list l' (takeWhile (is_open (fs_stack fs)) ids @ tl (dropWhile (is_open (fs_stack fs)) ids))"
  using fill_prio_waitv_spec [OF assms(1-5), of r] assms(6) by (auto simp: filled_def Let_def)

definition thread_demo :: "(u32 \<times> u32) list_data" where
  "thread_demo = \<lparr>nodes = [1 \<mapsto> \<lparr>node_element = (0, 0), node_pred = 2, node_succ = 2\<rparr>, 2 \<mapsto> \<lparr>node_element = (0, 1), node_pred = 1, node_succ = 1\<rparr>],
     list_size = 2, iter_round = 0, list_head = Some 1, iter_node = None, func_clean = None, clean_calls = []\<rparr>"

definition fill_demo :: "unit fill_state" where
  "fill_demo = \<lparr>fs_stack = demo_stack, fs_waitvs = replicate TX_MAX_FUTEXES_PER_THREAD zero_waitv,
     fs_from = replicate TX_MAX_FUTEXES_PER_THREAD None, fs_amount = 0, fs_removable = False\<rparr>"

lemma fill_demo_arrays: "128 \<le> length (fs_from fill_demo)" "128 \<le> length (fs_waitvs fill_demo)"
  "is_open (fs_stack fill_demo) (0, 1)" "\<not> is_open (fs_stack fill_demo) (0, 0)"
  by (simp_all add: fill_demo_def TX_MAX_FUTEXES_PER_THREAD_def is_open_def socket_ptr_def demo_stack_def)

lemma thread_demo_is_list: "is_list thread_demo [(0, 0), (0, 1)]"
  unfolding is_list_def
  by (rule exI [of _ "[1, 2]"]) (auto simp: thread_demo_def list_inv_def ring_def cycle_def elems_def node_simps split: if_splits)

theorem fill_prio_waitv_serves_witness:
  "\<exists>fs' l'. fill_prio_waitv Medium fill_demo thread_demo = Some (Some (fs', l')) \<and> unat (fs_amount fs') = 1
     \<and> take 1 (fs_from fs') = [Some 7] \<and> is_list l' [(0, 1)]"
proof -
  have "[(0, 1)] = filter (is_open (fs_stack fill_demo)) [(0, 0), (0, 1)]" using fill_demo_arrays(3,4) by simp
  from fill_prio_waitv_serves [OF thread_demo_is_list _ _ fill_demo_arrays(1,2) this, of Medium] fill_demo_arrays(3,4)
  show ?thesis by (fastforce simp: fill_demo_def socket_ptr_def demo_stack_def)
qed

text \<open>
  C21. When the only socket of a priority thread is closed, the next wait list is built without it, and the
  one after that, with no new socket in between, follows a freed list node: the thread's list is empty,
  its iterator is not reset.
\<close>

theorem close_last_socket_faults:
  assumes "is_list l [p]" "\<not> is_open (fs_stack fs) p" "128 \<le> length (fs_from fs)" "128 \<le> length (fs_waitvs fs)"
  shows "\<exists>fs' l'. fill_prio_waitv r fs l = Some (Some (fs', l')) \<and> is_list l' [] \<and> fs_amount fs' = 0
     \<and> fill_prio_waitv r fs' l' = Some None"
proof -
  from fill_prio_waitv_spec [OF assms(1) _ _ assms(3,4), of r] assms(2) obtain fs' l' where
    f: "fill_prio_waitv r fs l = Some (Some (fs', l'))" "filled r (fs\<lparr>fs_amount := 0, fs_removable := False\<rparr>) [p] fs'"
      "is_list l' []" "iter_round l' = 1" by auto
  have "fs_amount fs' = 0" using f(2) assms(2) by (simp add: filled_def Let_def unat_eq_0)
  moreover have "fill_prio_waitv r fs' l' = Some None" by (rule fill_empty [OF f(3)]) (simp add: f(4))
  ultimately show ?thesis using f(1,3) by blast
qed

definition last_demo :: "(u32 \<times> u32) list_data" where
  "last_demo = thread_demo\<lparr>nodes := [1 \<mapsto> \<lparr>node_element = (0, 0), node_pred = 1, node_succ = 1\<rparr>], list_size := 1\<rparr>"

theorem close_last_socket_faults_witness:
  "\<exists>fs' l'. fill_prio_waitv Medium fill_demo last_demo = Some (Some (fs', l')) \<and> fill_prio_waitv Medium fs' l' = Some None"
proof -
  have "is_list last_demo [(0, 0)]" unfolding is_list_def
    by (rule exI [of _ "[1]"])
      (auto simp: last_demo_def thread_demo_def list_inv_def ring_def cycle_def elems_def node_simps split: if_splits)
  from close_last_socket_faults [OF this fill_demo_arrays(4,1,2), of Medium] show ?thesis by blast
qed

end
