(* ===== verification/Shm_Region.thy ===== *)
theory Shm_Region
  imports Shmem Decimal
begin

text \<open>
  Shared memory regions as both processes see them: the names of \<open>pifus_constants.h\<close> with their decimal
  numbers, the POSIX name space (\<open>shm_open\<close>, \<open>shm_unlink\<close>) in \<open>os\<close>, and the functions of
  \<open>api/src/pifus_shmem.c\<close> that open, map and unlink a region, with the diagnostic \<open>print_memory\<close>. A region
  is an object number; file descriptors and mapped addresses are both identified with it, because the
  code only passes them on. What the kernel refuses for reasons outside the name space (descriptor limits,
  memory, permissions) is the sequence \<open>os_refuses\<close>: the answer to the n-th fallible system call.
\<close>

section \<open>Names\<close>

definition SHM_APP_NAME_PREFIX :: string where "SHM_APP_NAME_PREFIX = ''/app''"
definition SHM_SOCKET_NAME_PREFIX :: string where "SHM_SOCKET_NAME_PREFIX = ''-socket''"

definition app_name :: "u32 \<Rightarrow> string" where
  "app_name app_index = SHM_APP_NAME_PREFIX @ dec (unat app_index)"

definition socket_name :: "string \<Rightarrow> u32 \<Rightarrow> string" where
  "socket_name app socket_index = app @ SHM_SOCKET_NAME_PREFIX @ dec (unat socket_index)"

lemma dec_no_dash: "CHR ''-'' \<notin> set (dec n)"
proof
  assume "CHR ''-'' \<in> set (dec n)"
  then obtain d where "d < 10" "CHR ''-'' = digit d" using dec_digits by blast
  then have "(of_char (CHR ''-'') :: nat) = 48 + d" using digit_value [of d] by (simp only:)
  then show False by simp
qed

lemma app_name_inject [simp]: "app_name a = app_name b \<longleftrightarrow> a = b"
  by (simp add: app_name_def word_eq_iff_unat)

lemma app_name_no_dash: "CHR ''-'' \<notin> set (app_name a)"
  using dec_no_dash by (simp add: app_name_def SHM_APP_NAME_PREFIX_def)

lemma socket_name_split: "takeWhile (\<lambda>c. c \<noteq> CHR ''-'') (socket_name (app_name a) s) = app_name a"
  using app_name_no_dash [of a] by (auto simp: socket_name_def SHM_SOCKET_NAME_PREFIX_def takeWhile_tail)

lemma names_distinct [simp]:
  "socket_name (app_name a) s = socket_name (app_name b) t \<longleftrightarrow> a = b \<and> s = t" "socket_name (app_name a) s \<noteq> app_name b"
  "app_name b \<noteq> socket_name (app_name a) s"
proof -
  show "socket_name (app_name a) s = socket_name (app_name b) t \<longleftrightarrow> a = b \<and> s = t"
  proof
    assume e: "socket_name (app_name a) s = socket_name (app_name b) t"
    then have "app_name a = app_name b" using socket_name_split by metis
    then have "a = b" by simp
    then show "a = b \<and> s = t" using e by (simp add: socket_name_def) (simp add: word_eq_iff_unat)
  qed simp
  have "CHR ''-'' \<in> set (socket_name (app_name a) s)" by (simp add: socket_name_def SHM_SOCKET_NAME_PREFIX_def)
  then show "socket_name (app_name a) s \<noteq> app_name b" "app_name b \<noteq> socket_name (app_name a) s"
    using app_name_no_dash by metis+
qed

section \<open>The name space\<close>

datatype errno = EEXIST | ENOENT | Other_Errno nat

record os =
  shm_names :: "string \<Rightarrow> nat option"
  next_object :: nat
  os_refuses :: "nat \<Rightarrow> nat option"
  os_calls :: nat

definition shm_open_region :: "os \<Rightarrow> string \<Rightarrow> bool \<Rightarrow> (errno + nat) \<times> os" where
  "shm_open_region os shm_name create =
     (let os1 = os\<lparr>os_calls := Suc (os_calls os)\<rparr>
      in case os_refuses os (os_calls os) of
           Some e \<Rightarrow> (Inl (Other_Errno e), os1)
         | None \<Rightarrow>
             (case shm_names os shm_name of
                Some fd \<Rightarrow> (if create then Inl EEXIST else Inr fd, os1)
              | None \<Rightarrow>
                  if create
                  then (Inr (next_object os),
                        os1\<lparr>shm_names := (shm_names os)(shm_name \<mapsto> next_object os), next_object := Suc (next_object os)\<rparr>)
                  else (Inl ENOENT, os1)))"

text \<open>
  \<open>zeros\<close> is the region filled with zero bytes. Without \<open>create\<close> the region keeps its contents.
\<close>

definition shm_map_region :: "os \<Rightarrow> 'r \<Rightarrow> 'r \<Rightarrow> bool \<Rightarrow> ('r \<times> os) res" where
  "shm_map_region os zeros contents create =
     (if os_refuses os (os_calls os) \<noteq> None then Fault Exit_Failure
      else if os_refuses os (os_calls os + 1) \<noteq> None then Fault Exit_Failure
      else Ok (if create then zeros else contents, os\<lparr>os_calls := os_calls os + 2\<rparr>))"

definition shm_unlink_region :: "os \<Rightarrow> string \<Rightarrow> os" where
  "shm_unlink_region os shm_name = os\<lparr>shm_names := (shm_names os)(shm_name := None)\<rparr>"

text \<open>No object has two names, and numbers in use are below the next one.\<close>

definition os_inv :: "os \<Rightarrow> bool" where
  "os_inv os \<longleftrightarrow> inj_on (shm_names os) (dom (shm_names os)) \<and> (\<forall>n \<in> ran (shm_names os). n < next_object os)"

definition willing :: "os \<Rightarrow> bool" where
  "willing os \<longleftrightarrow> (\<forall>n. os_refuses os n = None)"

lemma os_inv_create:
  assumes "os_inv os" "shm_open_region os name True = (Inr fd, os')"
  shows "os_inv os'" "fd = next_object os" "shm_names os name = None" "shm_names os' = (shm_names os)(name \<mapsto> fd)"
    "fd \<notin> ran (shm_names os)" "os_refuses os' = os_refuses os"
proof -
  have d: "fd = next_object os" "shm_names os name = None" "shm_names os' = (shm_names os)(name \<mapsto> fd)"
    "next_object os' = Suc fd" "os_refuses os' = os_refuses os"
    using assms(2) by (auto simp: shm_open_region_def Let_def split: option.splits)
  then show "fd = next_object os" "shm_names os name = None" "shm_names os' = (shm_names os)(name \<mapsto> fd)"
    "os_refuses os' = os_refuses os" by simp_all
  show f: "fd \<notin> ran (shm_names os)" using assms(1) d(1) by (auto simp: os_inv_def)
  have "inj_on (shm_names os') (dom (shm_names os'))"
  proof (rule inj_onI)
    fix x y assume "x \<in> dom (shm_names os')" "y \<in> dom (shm_names os')" "shm_names os' x = shm_names os' y"
    then show "x = y" using assms(1) f unfolding os_inv_def d(3)
      by (auto split: if_splits simp: ran_def dest: inj_onD [of _ _ x y])
  qed
  moreover have "\<forall>n \<in> ran (shm_names os'). n < next_object os'"
    using assms(1) d(1,4) by (fastforce simp: os_inv_def d(3) ran_def split: if_splits)
  ultimately show "os_inv os'" by (simp add: os_inv_def)
qed

lemma open_willing:
  assumes "willing os"
  shows "shm_open_region os name False =
    (case shm_names os name of Some fd \<Rightarrow> Inr fd | None \<Rightarrow> Inl ENOENT, os\<lparr>os_calls := Suc (os_calls os)\<rparr>)"
  using assms by (simp add: shm_open_region_def willing_def Let_def split: option.split)

lemma map_willing: "willing os \<Longrightarrow> shm_map_region os z c create = Ok (if create then z else c, os\<lparr>os_calls := os_calls os + 2\<rparr>)"
  by (simp add: shm_map_region_def willing_def)

lemma willing_calls [simp]: "willing (os\<lparr>os_calls := n\<rparr>) = willing os"
  by (simp add: willing_def)

section \<open>The application region header\<close>

text \<open>\<open>highest_socket_number\<close> is the first word of the region; the block heap starts behind it.\<close>

definition highest_socket_number :: "mem \<Rightarrow> u32" where
  "highest_socket_number m = of_nat (le_nat (mload m 0 4))"

definition set_highest_socket_number :: "mem \<Rightarrow> u32 \<Rightarrow> mem" where
  "set_highest_socket_number m v = mstore m 0 (le_bytes 4 (unat v))"

lemma highest_set [simp]: "highest_socket_number (set_highest_socket_number m v) = v"
  using unsigned_less [of v, where ?'a = nat]
  by (simp add: highest_socket_number_def set_highest_socket_number_def mem_simps)

lemma set_highest_out: "4 \<le> x \<Longrightarrow> set_highest_socket_number m v x = m x"
  by (simp add: set_highest_socket_number_def mem_simps)

lemma highest_zero [simp]: "highest_socket_number (\<lambda>_. 0) = 0"
  by (simp add: highest_socket_number_def mload_def map_replicate_const)

lemma heap_inv_set_highest: "heap_inv m bs \<Longrightarrow> heap_inv (set_highest_socket_number m v) bs"
  using chain_cong_above [of 4 "set_highest_socket_number m v" m] chain_end_ge [of 4 bs]
  by (simp add: heap_inv_def set_highest_out)

section \<open>The diagnostic listing\<close>

text \<open>One entry per line of output: the free flag, the offset and the size of a block.\<close>

partial_function (option) print_blocks :: "mem \<Rightarrow> nat option \<Rightarrow> (bool \<times> int \<times> nat) list option" where
  "print_blocks m next_block =
     (case next_block of
        None \<Rightarrow> Some []
      | Some b \<Rightarrow>
          if blk_size m b > 0
          then Option.bind (print_blocks m (shm_data_get_next_block_ptr m b))
                 (\<lambda>rest. Some ((blk_free m b, shm_data_get_offset b, blk_size m b) # rest))
          else Some [])"

definition print_memory :: "mem \<Rightarrow> (bool \<times> int \<times> nat) list option" where
  "print_memory m = print_blocks m (Some (shm_data_get_block_ptr 0))"

text \<open>The listing of a block list that starts at an address.\<close>

fun listing :: "nat \<Rightarrow> block list \<Rightarrow> (bool \<times> int \<times> nat) list" where
  "listing a [] = []"
| "listing a ((f, s) # bs) = (f, shm_data_get_offset a, s) # listing (a + 24 + s) bs"

lemma print_blocks_chain:
  "chain m a p bs \<Longrightarrow> \<forall>x \<ge> chain_end a bs. m x = 0 \<Longrightarrow> print_blocks m (Some a) = Some (listing a bs)"
proof (induction m a p bs rule: chain.induct)
  case (1 m a p)
  then show ?case using blk_zero [of a m] by (simp add: print_blocks.simps)
next
  case (2 m a p f s bs)
  then show ?case using next_block_in_chain [OF "2.prems"(1)] by (simp add: print_blocks.simps [of m "Some a"])
qed

section \<open>Properties\<close>

text \<open>
  The names of regions are unambiguous: a socket name determines the application and the socket, and
  is never the name of an application; the number in a name is read back from its digits.
\<close>

theorem region_names_unambiguous:
  "(socket_name (app_name a) s = socket_name (app_name b) t \<longleftrightarrow> a = b \<and> s = t)
   \<and> socket_name (app_name a) s \<noteq> app_name b \<and> undec (drop 4 (app_name a)) = unat a"
  by (intro conjI names_distinct) (simp add: app_name_def SHM_APP_NAME_PREFIX_def)

text \<open>
  On a well-formed region the diagnostic listing ends and shows exactly the blocks, in address order,
  each with its flag, offset and size.
\<close>

theorem print_memory_lists_blocks:
  assumes "heap_inv m bs"
  shows "print_memory m = Some (listing 4 bs)"
proof -
  have "shm_data_get_block_ptr 0 = 4" by (simp add: shm_data_get_block_ptr_def sizeof_app_def)
  with assms print_blocks_chain [of m 4 "-1" bs] show ?thesis by (simp add: print_memory_def heap_inv_def)
qed

theorem print_memory_lists_blocks_witness:
  "\<exists>m. print_memory m = Some [(False, 0, 8), (False, 32, 8), (False, 64, 8)]"
  using three_blocks print_memory_lists_blocks [of _ "[(False, 8), (False, 8), (False, 8)]"] by auto

end
