(* ===== verification/Client_Socket.thy ===== *)
theory Client_Socket
  imports Socket Shm_Region
begin

text \<open>
  The application's side of a socket (\<open>api/src/pifus_socket.c\<close>): creating the region of a socket,
  submitting operations to its submission queue, and taking results from its completion queue. The state
  is what the application process reaches: its own region (\<open>app_state\<close>, with the block heap of the
  payloads), the table \<open>sockets\<close>, and the socket regions. A socket pointer is the object number of the
  region. The mutex around the allocator and \<open>futex_wake\<close> change no memory; \<open>asprintf\<close> is taken to succeed.
  Waiting for a result is the subject of \<open>Client_Wait\<close>.
\<close>

section \<open>Submitting operations\<close>

definition p_alloc :: "mem \<Rightarrow> nat \<Rightarrow> (mem \<times> (int \<times> nat) option) res" where
  "p_alloc app n = shm_data_allocate app n"

definition p_free :: "mem \<Rightarrow> nat \<Rightarrow> mem" where
  "p_free app block = shm_data_free app block"

definition is_queue_full :: "pifus_socket \<Rightarrow> bool" where
  "is_queue_full socket = ring_buffer_is_full (squeue socket)"

definition enqueue_operation :: "pifus_socket \<Rightarrow> pifus_operation \<Rightarrow> bool \<times> pifus_socket" where
  "enqueue_operation socket op =
     (case ring_buffer_put (squeue socket) (squeue_buffer socket) op of
        (ok, rb, buf) \<Rightarrow>
          (let s1 = socket\<lparr>squeue := rb, squeue_buffer := buf\<rparr>
           in if ok then (True, s1\<lparr>squeue_futex := squeue_futex s1 + 1\<rparr>) else (False, s1)))"

definition pifus_socket_bind :: "pifus_socket \<Rightarrow> u32 \<Rightarrow> u16 \<Rightarrow> bool \<times> pifus_socket" where
  "pifus_socket_bind socket ip_type port =
     (if is_queue_full socket then (False, socket)
      else enqueue_operation socket
        \<lparr>op_code = (if protocol socket = PROTOCOL_TCP then TCP_BIND else UDP_BIND), op_data = Bind_Data ip_type port\<rparr>)"

definition pifus_socket_connect :: "pifus_socket \<Rightarrow> char list \<Rightarrow> u16 \<Rightarrow> bool \<times> pifus_socket" where
  "pifus_socket_connect socket ip_addr port =
     (if is_queue_full socket then (False, socket)
      else enqueue_operation socket
        \<lparr>op_code = (if protocol socket = PROTOCOL_TCP then TCP_CONNECT else UDP_CONNECT), op_data = Connect_Data ip_addr port\<rparr>)"

definition pifus_socket_write :: "mem \<Rightarrow> pifus_socket \<Rightarrow> byte list \<Rightarrow> (bool \<times> mem \<times> pifus_socket) res" where
  "pifus_socket_write app socket data =
     (if is_queue_full socket then Ok (False, app, socket)
      else res_bind (p_alloc app (length data)) (\<lambda>(app1, r). case r of
             None \<Rightarrow> Ok (False, app1, socket)
           | Some (block_offset, block) \<Rightarrow>
               (let app2 = mstore app1 (shm_data_get_data_ptr block) data
                in case enqueue_operation socket
                     \<lparr>op_code = (if protocol socket = PROTOCOL_TCP then TCP_WRITE else UDP_SEND),
                      op_data = Write_Data (of_int block_offset)\<rparr> of
                     (ok, s1) \<Rightarrow> Ok (ok, app2, s1))))"

definition pifus_socket_recv :: "mem \<Rightarrow> pifus_socket \<Rightarrow> u64 \<Rightarrow> (bool \<times> mem \<times> pifus_socket) res" where
  "pifus_socket_recv app socket sz =
     (if is_queue_full socket then Ok (False, app, socket)
      else res_bind (p_alloc app (unat sz)) (\<lambda>(app1, r). case r of
             None \<Rightarrow> Ok (False, app1, socket)
           | Some (block_offset, block) \<Rightarrow>
               (case enqueue_operation socket
                     \<lparr>op_code = (if protocol socket = PROTOCOL_TCP then TCP_RECV else UDP_RECV),
                      op_data = Recv_Data (of_int block_offset) sz\<rparr> of
                  (ok, s1) \<Rightarrow> Ok (ok, app1, s1))))"

definition pifus_socket_listen :: "pifus_socket \<Rightarrow> u8 \<Rightarrow> bool \<times> pifus_socket" where
  "pifus_socket_listen socket backlog_size =
     (if is_queue_full socket then (False, socket)
      else if protocol socket = PROTOCOL_TCP
      then enqueue_operation socket \<lparr>op_code = TCP_LISTEN, op_data = Listen_Data backlog_size\<rparr>
      else (False, socket))"

definition pifus_socket_accept :: "pifus_socket \<Rightarrow> pifus_priority \<Rightarrow> bool \<times> pifus_socket" where
  "pifus_socket_accept socket prio =
     (if is_queue_full socket then (False, socket)
      else if protocol socket = PROTOCOL_TCP
      then enqueue_operation (socket\<lparr>accepted_sockets_priority := prio\<rparr>) \<lparr>op_code = TCP_ACCEPT, op_data = Indeterminate\<rparr>
      else (False, socket))"

definition pifus_socket_close :: "pifus_socket \<Rightarrow> bool \<times> pifus_socket" where
  "pifus_socket_close socket =
     (if is_queue_full socket then (False, socket)
      else enqueue_operation socket
        \<lparr>op_code = (if protocol socket = PROTOCOL_TCP then TCP_CLOSE else UDP_DISCONNECT), op_data = Indeterminate\<rparr>)"

definition pifus_socket_nop :: "pifus_socket \<Rightarrow> bool \<times> pifus_socket" where
  "pifus_socket_nop socket =
     (if is_queue_full socket then (False, socket)
      else enqueue_operation socket \<lparr>op_code = CLIENT_NOP, op_data = Indeterminate\<rparr>)"

section \<open>Creating sockets\<close>

record client =
  cl_os :: os
  app_shm_name :: string
  app_state :: mem
  client_sockets :: "nat option list"
  client_regions :: "nat \<Rightarrow> pifus_socket"

definition set_region :: "client \<Rightarrow> nat \<Rightarrow> pifus_socket \<Rightarrow> client" where
  "set_region c p s = c\<lparr>client_regions := (client_regions c)(p := s)\<rparr>"

definition map_socket_region :: "client \<Rightarrow> (nat \<times> client) res" where
  "map_socket_region c =
     (let next_number = highest_socket_number (app_state c) + 1
      in case shm_open_region (cl_os c) (socket_name (app_shm_name c) next_number) True of
           (Inl errno, os1) \<Rightarrow> Fault Exit_Failure
         | (Inr fd, os1) \<Rightarrow>
             res_bind (shm_map_region os1 zero_socket (client_regions c fd) True) (\<lambda>(contents, os2).
               Ok (fd, (set_region c fd contents)
                 \<lparr>cl_os := os2, client_sockets := (client_sockets c)[unat next_number := Some fd],
                  app_state := set_highest_socket_number (app_state c) next_number\<rparr>)))"

text \<open>Lines 117-125: what follows once the region is mapped.\<close>

definition init_client_socket :: "u32 \<Rightarrow> pifus_priority \<Rightarrow> nat option \<Rightarrow> pifus_socket \<Rightarrow> pifus_socket" where
  "init_client_socket proto prio tcp_pcb socket =
     (let s1 = socket\<lparr>protocol := proto, priority := prio\<rparr>;
          s2 = (if tcp_pcb \<noteq> None then s1\<lparr>pcb := tcp_pcb\<rparr> else s1)
      in s2\<lparr>squeue := ring_buffer_create (squeue s2) SQUEUE_SIZE\<rparr>)"

definition pifus_socket_with_tcp_pcb :: "client \<Rightarrow> u32 \<Rightarrow> pifus_priority \<Rightarrow> nat option \<Rightarrow> (nat \<times> client) res" where
  "pifus_socket_with_tcp_pcb c proto prio tcp_pcb =
     res_bind (map_socket_region c) (\<lambda>(p, c1). Ok (p, set_region c1 p (init_client_socket proto prio tcp_pcb (client_regions c1 p))))"

definition pifus_socket_create :: "client \<Rightarrow> u32 \<Rightarrow> pifus_priority \<Rightarrow> (nat \<times> client) res" where
  "pifus_socket_create c proto prio = pifus_socket_with_tcp_pcb c proto prio None"

section \<open>Taking results\<close>

text \<open>The offset of the result is unsigned, that of the heap signed.\<close>

definition free_write_buffers :: "mem \<Rightarrow> u64 \<Rightarrow> mem" where
  "free_write_buffers app block_offset = p_free app (shm_data_get_block_ptr (sint block_offset))"

definition unlink_socket :: "client \<Rightarrow> pifus_socket \<Rightarrow> client" where
  "unlink_socket c socket =
     c\<lparr>cl_os := shm_unlink_region (cl_os c) (socket_name (app_shm_name c) (socket_index socket))\<rparr>"

text \<open>Lines 313-316, 318-323, 325-333 and 335-339.\<close>

definition release_written :: "operation_result \<Rightarrow> client \<Rightarrow> client res" where
  "release_written r c =
     (if res_code r = TCP_WRITE
      then (case res_data r of
              Res_Write block_offset \<Rightarrow> Ok (c\<lparr>app_state := free_write_buffers (app_state c) block_offset\<rparr>)
            | _ \<Rightarrow> Fault Indeterminate_Value)
      else Ok c)"

definition open_accepted :: "nat \<Rightarrow> operation_result \<Rightarrow> client \<Rightarrow> (operation_result \<times> client) res" where
  "open_accepted p r c =
     (if res_code r = TCP_ACCEPT \<and> result_code r = PIFUS_OK
      then (case res_data r of
              Res_Accept old tcp_pcb \<Rightarrow>
                res_bind (pifus_socket_with_tcp_pcb c PROTOCOL_TCP (accepted_sockets_priority (client_regions c p)) tcp_pcb)
                  (\<lambda>(new, c1). Ok (r\<lparr>res_data := Res_Accept (Some new) tcp_pcb\<rparr>, c1))
            | _ \<Rightarrow> Fault Indeterminate_Value)
      else Ok (r, c))"

definition locate_received :: "mem \<Rightarrow> operation_result \<Rightarrow> operation_result res" where
  "locate_received app r =
     (if res_code r = TCP_RECV \<or> res_code r = UDP_RECV
      then (case res_data r of
              Res_Recv block_offset sz mb db \<Rightarrow>
                (let block = shm_data_get_block_ptr (sint block_offset)
                 in Ok (r\<lparr>res_data := Res_Recv block_offset (of_nat (blk_size app block)) (Some block)
                            (Some (shm_data_get_data_ptr block))\<rparr>))
            | _ \<Rightarrow> Fault Indeterminate_Value)
      else Ok r)"

definition forget_closed :: "nat \<Rightarrow> operation_result \<Rightarrow> client \<Rightarrow> client" where
  "forget_closed p r c =
     (if res_code r = TCP_CLOSE \<or> res_code r = UDP_DISCONNECT
      then (let s = client_regions c p
            in (unlink_socket c s)\<lparr>client_sockets := (client_sockets c)[unat (socket_index s) := None]\<rparr>)
      else c)"

definition dequeue_operation :: "client \<Rightarrow> nat \<Rightarrow> (operation_result option \<times> client) res" where
  "dequeue_operation c p =
     (let s = client_regions c p
      in case ring_buffer_get (cqueue s) (cqueue_buffer s) of
           (None, rb) \<Rightarrow> Ok (None, set_region c p (s\<lparr>cqueue := rb\<rparr>))
         | (Some r, rb) \<Rightarrow>
             res_bind (release_written r (set_region c p (s\<lparr>cqueue := rb\<rparr>))) (\<lambda>c1.
             res_bind (open_accepted p r c1) (\<lambda>(r1, c2).
             res_bind (locate_received (app_state c2) r1) (\<lambda>r2.
               Ok (Some r2, forget_closed p r2 c2)))))"

definition pifus_socket_pop_result :: "client \<Rightarrow> nat \<Rightarrow> (operation_result option \<times> client) res" where
  "pifus_socket_pop_result c p = dequeue_operation c p"

definition pifus_socket_peek_result_code :: "pifus_socket \<Rightarrow> operation_code option" where
  "pifus_socket_peek_result_code socket =
     map_option (\<lambda>k. res_code (cqueue_buffer socket ! unat k)) (ring_buffer_peek (cqueue socket))"

definition pifus_free :: "client \<Rightarrow> operation_result \<Rightarrow> client res" where
  "pifus_free c r =
     (case res_data r of
        Res_Recv off sz (Some block) db \<Rightarrow> Ok (c\<lparr>app_state := p_free (app_state c) block\<rparr>)
      | Res_Recv off sz None db \<Rightarrow> Fault Null_Dereference
      | _ \<Rightarrow> Fault Indeterminate_Value)"

section \<open>Leaving\<close>

partial_function (option) unlink_loop :: "client \<Rightarrow> u32 \<Rightarrow> client option" where
  "unlink_loop c i =
     (if i \<le> highest_socket_number (app_state c)
      then unlink_loop (c\<lparr>cl_os := shm_unlink_region (cl_os c) (socket_name (app_shm_name c) i)\<rparr>) (i + 1)
      else Some c)"

definition pifus_socket_exit_all :: "client \<Rightarrow> client option" where
  "pifus_socket_exit_all c =
     (if highest_socket_number (app_state c) > 0 then unlink_loop c 0 else Some c)"

section \<open>What a submission does\<close>

definition sq_cap :: "pifus_socket \<Rightarrow> nat" where
  "sq_cap s = unat (rb_end (squeue s)) - 1"

text \<open>
  An operation is accepted exactly when the submission queue has room; then it is the last one of the
  queue and the futex counts it. Nothing else of the socket changes.
\<close>

definition submits :: "pifus_socket \<Rightarrow> pifus_operation \<Rightarrow> bool \<times> pifus_socket \<Rightarrow> bool" where
  "submits s op r \<longleftrightarrow>
     (let room = length (sq_list s) < sq_cap s; s' = snd r
      in fst r = room \<and> sq_list s' = sq_list s @ (if room then [op] else [])
         \<and> squeue_futex s' = squeue_futex s + (if room then 1 else 0) \<and> sock_inv s' \<and> sq_cap s' = sq_cap s
         \<and> s'\<lparr>squeue := squeue s, squeue_buffer := squeue_buffer s, squeue_futex := squeue_futex s\<rparr> = s)"

lemma is_queue_full_iff: "sock_inv s \<Longrightarrow> is_queue_full s \<longleftrightarrow> \<not> length (sq_list s) < sq_cap s"
  using is_full_iff [of "squeue s" "squeue_buffer s"] rbq.bounded [of "(squeue s, squeue_buffer s)"]
  by (auto simp: is_queue_full_def sock_inv_def sq_list_def sq_cap_def rbq_cap_def)

lemma enqueue_operation_submits:
  assumes "sock_inv s"
  shows "submits s op (enqueue_operation s op)"
proof -
  obtain ok rb buf where put: "ring_buffer_put (squeue s) (squeue_buffer s) op = (ok, rb, buf)" by (metis prod_cases3)
  have i: "case (squeue s, squeue_buffer s) of (rb, buf) \<Rightarrow> rb_inv rb buf" using assms by (simp add: sock_inv_def)
  have c: "rbq_put (squeue s, squeue_buffer s) op = (ok, (rb, buf))" using put by simp
  note p = rbq.put_cases [OF i c]
  have ok: "ok = (length (sq_list s) < sq_cap s)" using p(4) by (simp add: rbq_cap_def sq_list_def sq_cap_def)
  have e: "enqueue_operation s op = (ok, s\<lparr>squeue := rb, squeue_buffer := buf,
      squeue_futex := squeue_futex s + (if ok then 1 else 0)\<rparr>)"
    using put by (simp add: enqueue_operation_def Let_def)
  show ?thesis unfolding submits_def Let_def e ok [symmetric] fst_conv snd_conv
    using p(1-3) assms by (simp add: sock_inv_def sq_list_def sq_cap_def rbq_cap_def)
qed

lemma submits_full: "sock_inv s \<Longrightarrow> is_queue_full s \<Longrightarrow> submits s op (False, s)"
  by (simp add: submits_def Let_def is_queue_full_iff)

lemma submit_unless_full:
  "sock_inv s \<Longrightarrow> submits s op (if is_queue_full s then (False, s) else enqueue_operation s op)"
  using submits_full enqueue_operation_submits by simp

lemma alloc_block_size:
  "alloc_blocks a n bs = Some (b, bs') \<Longrightarrow> chain m a p bs' \<Longrightarrow> blk_size m b = n"
proof (induction a n bs arbitrary: p bs' rule: alloc_blocks.induct)
  case (2 a n f s bs)
  then show ?case by (auto split: if_splits)
qed (auto split: if_splits)

text \<open>What a submission with a payload block of \<open>n\<close> bytes does to the region of the application.\<close>

definition payload_block :: "mem \<Rightarrow> block list \<Rightarrow> nat \<Rightarrow> mem \<Rightarrow> nat \<Rightarrow> bool" where
  "payload_block m bs n m' b \<longleftrightarrow>
     (\<exists>bs'. alloc_blocks 4 n bs = Some (b, bs') \<and> heap_inv m' bs' \<and> blk_size m' b = n
        \<and> {shm_data_get_data_ptr b..<shm_data_get_data_ptr b + n} \<subseteq> live 4 bs')
     \<and> (\<forall>x \<in> live 4 bs. m' x = m x) \<and> (\<forall>x < 4. m' x = m x)
     \<and> shm_data_get_block_ptr (sint (of_int (shm_data_get_offset b) :: u64)) = b"

lemma sint_of_int_u64: "- (2 ^ 63) \<le> i \<Longrightarrow> i < 2 ^ 63 \<Longrightarrow> sint (of_int i :: u64) = i"
  by (simp add: signed_of_int signed_take_bit_int_eq_self)

lemma offset_u64:
  assumes "b \<le> SHM_APP_SIZE"
  shows "sint (of_int (shm_data_get_offset b) :: u64) = shm_data_get_offset b"
  using assms by (intro sint_of_int_u64) (simp_all add: SHM_APP_SIZE_def)

lemma p_alloc_block:
  assumes "heap_inv m bs" "0 < n"
  shows "alloc_blocks 4 n bs = None \<Longrightarrow> p_alloc m n = Ok (m, None)"
    "alloc_blocks 4 n bs = Some (b, bs') \<Longrightarrow>
       \<exists>m'. p_alloc m n = Ok (m', Some (shm_data_get_offset b, b)) \<and> payload_block m bs n m' b"
proof -
  show "p_alloc m n = Ok (m, None)" if "alloc_blocks 4 n bs = None"
    using shm_data_allocate_spec [OF assms] that by (simp add: p_alloc_def)
  assume al: "alloc_blocks 4 n bs = Some (b, bs')"
  then obtain m' where m': "shm_data_allocate m n = Ok (m', Some (shm_data_get_offset b, b))" "heap_inv m' bs'"
    "\<forall>x \<in> live 4 bs. m' x = m x" "\<forall>x < 4. m' x = m x"
    using shm_data_allocate_spec [OF assms] by auto
  note l = alloc_blocks_live [OF al]
  have "b + 24 + n \<le> SHM_APP_SIZE"
    using l(4) chain_end_le [of m' 4 "-1" bs'] m'(2) by (simp add: heap_inv_def SHM_APP_SIZE_def)
  then have "shm_data_get_block_ptr (sint (of_int (shm_data_get_offset b) :: u64)) = b"
    by (subst offset_u64) (auto simp del: of_int_diff)
  moreover have "blk_size m' b = n" using alloc_block_size [OF al] m'(2) by (auto simp: heap_inv_def)
  ultimately show "\<exists>m'. p_alloc m n = Ok (m', Some (shm_data_get_offset b, b)) \<and> payload_block m bs n m' b"
    using m' al l(1) by (auto simp: p_alloc_def payload_block_def shm_data_get_data_ptr_def sizeof_block_def)
qed

lemma payload_block_store:
  assumes "payload_block m bs (length data) m' b"
  shows "payload_block m bs (length data) (mstore m' (shm_data_get_data_ptr b) data) b"
    "mload (mstore m' (shm_data_get_data_ptr b) data) (shm_data_get_data_ptr b) (length data) = data"
proof -
  let ?a = "shm_data_get_data_ptr b" and ?m = "mstore m' (shm_data_get_data_ptr b) data"
  obtain bs' where al: "alloc_blocks 4 (length data) bs = Some (b, bs')" and inv: "heap_inv m' bs'" "blk_size m' b = length data"
    "{?a..<?a + length data} \<subseteq> live 4 bs'" using assms by (auto simp: payload_block_def)
  note l = alloc_blocks_live [OF al]
  have a: "?a = b + 24" by (simp add: shm_data_get_data_ptr_def sizeof_block_def)
  have inv': "heap_inv ?m bs'" by (rule shm.store_payload [OF inv(1,3)])
  have "\<forall>x \<in> live 4 bs. ?m x = m' x" using l(2) by (auto simp: mstore_def a)
  moreover have "\<forall>x < 4. ?m x = m' x" using l(3) by (auto simp: mstore_def a)
  moreover have "blk_size ?m b = length data" using inv' alloc_block_size [OF al] by (auto simp: heap_inv_def)
  ultimately show "payload_block m bs (length data) ?m b" using assms al inv' inv(3) by (auto simp: payload_block_def)
qed (simp add: mem_simps)

lemma demo_socket_queue:
  "sq_list demo_socket = []" "sq_cap demo_socket = 3" "protocol demo_socket = PROTOCOL_TCP" "\<not> is_queue_full demo_socket"
proof -
  show sq: "sq_list demo_socket = []" "sq_cap demo_socket = 3" "protocol demo_socket = PROTOCOL_TCP"
    by (simp_all add: demo_socket_def sq_cap_def sq_list_def ring_buffer_create_def rb_list_def rb_count_def ring_count_def
      zero_socket_def PROTOCOL_TCP_def)
  then show "\<not> is_queue_full demo_socket" using is_queue_full_iff [OF demo_socket_inv] by simp
qed

lemma payload_block_empty: "payload_block m [] n m' b \<Longrightarrow> b = 4"
  by (auto simp: payload_block_def split: if_splits)

lemma write_spec:
  assumes "sock_inv s" "heap_inv m bs" "data \<noteq> []"
  shows "if is_queue_full s \<or> alloc_blocks 4 (length data) bs = None
     then pifus_socket_write m s data = Ok (False, m, s)
     else \<exists>m' s' b. pifus_socket_write m s data = Ok (True, m', s') \<and> payload_block m bs (length data) m' b
        \<and> mload m' (shm_data_get_data_ptr b) (length data) = data
        \<and> submits s \<lparr>op_code = (if protocol s = PROTOCOL_TCP then TCP_WRITE else UDP_SEND),
             op_data = Write_Data (of_int (shm_data_get_offset b))\<rparr> (True, s')"
proof -
  have n: "0 < length data" using assms(3) by simp
  note al = p_alloc_block [OF assms(2) n]
  show ?thesis
  proof (cases "is_queue_full s \<or> alloc_blocks 4 (length data) bs = None")
    case True
    then show ?thesis using al(1) by (auto simp: pifus_socket_write_def)
  next
    case False
    then obtain b bs' where "alloc_blocks 4 (length data) bs = Some (b, bs')" by auto
    from al(2) [OF this] obtain m' where m': "p_alloc m (length data) = Ok (m', Some (shm_data_get_offset b, b))"
      "payload_block m bs (length data) m' b" by blast
    let ?op = "\<lparr>op_code = (if protocol s = PROTOCOL_TCP then TCP_WRITE else UDP_SEND),
      op_data = Write_Data (of_int (shm_data_get_offset b))\<rparr>"
    obtain ok s' where e: "enqueue_operation s ?op = (ok, s')" by force
    have sub: "submits s ?op (ok, s')" using enqueue_operation_submits [OF assms(1), of ?op] by (simp only: e)
    have "ok" using sub False is_queue_full_iff [OF assms(1)] by (simp add: submits_def Let_def)
    with False m'(1) e sub payload_block_store [OF m'(2)] show ?thesis
      by (simp only: pifus_socket_write_def if_False HOL.simp_thms res_bind.simps prod.case option.case Let_def) auto
  qed
qed

lemma demo_write:
  "\<exists>m' s'. pifus_socket_write (\<lambda>_. 0) demo_socket [1, 2, 3] = Ok (True, m', s') \<and> mload m' 28 3 = [1, 2, 3]
     \<and> sq_list s' = [\<lparr>op_code = TCP_WRITE, op_data = Write_Data 0\<rparr>]"
proof -
  have al: "alloc_blocks 4 3 [] = Some (4, [(False, 3)])" by (simp add: SHM_APP_SIZE_def)
  from write_spec [OF demo_socket_inv heap_inv_empty, of "[1, 2, 3]"] al demo_socket_queue(4)
  obtain m' s' b where w: "pifus_socket_write (\<lambda>_. 0) demo_socket [1, 2, 3] = Ok (True, m', s')" "payload_block (\<lambda>_. 0) [] 3 m' b"
    "mload m' (shm_data_get_data_ptr b) 3 = [1, 2, 3]"
    "submits demo_socket \<lparr>op_code = (if protocol demo_socket = PROTOCOL_TCP then TCP_WRITE else UDP_SEND),
       op_data = Write_Data (of_int (shm_data_get_offset b))\<rparr> (True, s')"
    by (auto simp: SHM_APP_SIZE_def numeral_3_eq_3)
  with payload_block_empty [OF w(2)] demo_socket_queue(1-3) show ?thesis
    by (auto simp: submits_def Let_def shm_data_get_data_ptr_def sizeof_block_def)
qed

lemma set_region_simps [simp]:
  "client_regions (set_region c p s) = (client_regions c)(p := s)" "cl_os (set_region c p s) = cl_os c"
  "app_state (set_region c p s) = app_state c" "client_sockets (set_region c p s) = client_sockets c"
  "app_shm_name (set_region c p s) = app_shm_name c"
  by (simp_all add: set_region_def)

lemma creates_spec:
  assumes "os_inv (cl_os c)" "willing (cl_os c)" "n = highest_socket_number (app_state c) + 1"
    and "name = socket_name (app_shm_name c) n" "unat n < length (client_sockets c)" "heap_inv (app_state c) bs"
  shows "if shm_names (cl_os c) name \<noteq> None then pifus_socket_with_tcp_pcb c proto prio tcp_pcb = Fault Exit_Failure
     else \<exists>p c' s. pifus_socket_with_tcp_pcb c proto prio tcp_pcb = Ok (p, c') \<and> p \<notin> ran (shm_names (cl_os c))
        \<and> shm_names (cl_os c') = (shm_names (cl_os c))(name \<mapsto> p) \<and> os_inv (cl_os c')
        \<and> highest_socket_number (app_state c') = n \<and> heap_inv (app_state c') bs \<and> (\<forall>x \<ge> 4. app_state c' x = app_state c x)
        \<and> client_sockets c' = (client_sockets c)[unat n := Some p] \<and> client_regions c' = (client_regions c)(p := s)
        \<and> s = zero_socket\<lparr>protocol := proto, priority := prio, pcb := tcp_pcb, squeue := \<lparr>rb_end = 10, rb_head = 0, rb_tail = 0\<rparr>\<rparr>
        \<and> sq_list s = []"
proof (cases "shm_names (cl_os c) name")
  case None
  let ?p = "next_object (cl_os c)"
  obtain os1 where o: "shm_open_region (cl_os c) name True = (Inr ?p, os1)"
    using assms(2) None by (simp add: shm_open_region_def willing_def Let_def)
  note inv = os_inv_create [OF assms(1) o]
  have w: "willing os1" using assms(2) inv(6) by (simp add: willing_def)
  let ?s = "zero_socket\<lparr>protocol := proto, priority := prio, pcb := tcp_pcb, squeue := \<lparr>rb_end = 10, rb_head = 0, rb_tail = 0\<rparr>\<rparr>"
  have s: "init_client_socket proto prio tcp_pcb zero_socket = ?s"
    by (cases tcp_pcb) (simp_all add: init_client_socket_def Let_def zero_socket_def ring_buffer_create_def SQUEUE_SIZE_def zero_rb_def)
  have "pifus_socket_with_tcp_pcb c proto prio tcp_pcb = Ok (?p, (set_region c ?p ?s)
      \<lparr>cl_os := os1\<lparr>os_calls := os_calls os1 + 2\<rparr>, client_sockets := (client_sockets c)[unat n := Some ?p],
       app_state := set_highest_socket_number (app_state c) n\<rparr>)"
    using o assms(3,4) s
    by (simp add: map_willing [OF w] pifus_socket_with_tcp_pcb_def map_socket_region_def Let_def set_region_def)
  moreover have "sq_list ?s = []" by (simp add: sq_list_def rb_list_def rb_count_def ring_count_def)
  moreover have "os_inv (os1\<lparr>os_calls := k\<rparr>)" for k using inv(1) by (simp add: os_inv_def)
  ultimately show ?thesis
    using None inv(4,5) heap_inv_set_highest [OF assms(6)] by (simp add: set_highest_out)
next
  case (Some fd)
  with assms(2-4) show ?thesis
    by (simp add: pifus_socket_with_tcp_pcb_def map_socket_region_def shm_open_region_def willing_def Let_def)
qed

section \<open>Properties\<close>

text \<open>
  Every operation without a payload is submitted in the same way: refused without any effect when the
  submission queue is full, else appended as the last operation and announced by the futex, with the code
  that fits the protocol of the socket; listen and accept are refused on a UDP socket.
\<close>

theorem client_submissions:
  assumes "sock_inv s"
  shows "submits s \<lparr>op_code = (if protocol s = PROTOCOL_TCP then TCP_BIND else UDP_BIND), op_data = Bind_Data t n\<rparr>
           (pifus_socket_bind s t n)
     \<and> submits s \<lparr>op_code = (if protocol s = PROTOCOL_TCP then TCP_CONNECT else UDP_CONNECT), op_data = Connect_Data ip n\<rparr>
           (pifus_socket_connect s ip n)
     \<and> submits s \<lparr>op_code = (if protocol s = PROTOCOL_TCP then TCP_CLOSE else UDP_DISCONNECT), op_data = Indeterminate\<rparr>
           (pifus_socket_close s)
     \<and> submits s \<lparr>op_code = CLIENT_NOP, op_data = Indeterminate\<rparr> (pifus_socket_nop s)
     \<and> (if protocol s = PROTOCOL_TCP
        then submits s \<lparr>op_code = TCP_LISTEN, op_data = Listen_Data k\<rparr> (pifus_socket_listen s k)
          \<and> submits (if is_queue_full s then s else s\<lparr>accepted_sockets_priority := prio\<rparr>) \<lparr>op_code = TCP_ACCEPT, op_data = Indeterminate\<rparr>
              (pifus_socket_accept s prio)
        else pifus_socket_listen s k = (False, s) \<and> pifus_socket_accept s prio = (False, s))"
proof -
  have acc: "sock_inv (s\<lparr>accepted_sockets_priority := prio\<rparr>)" using assms by (simp add: sock_inv_def)
  show ?thesis
    using submit_unless_full [OF assms] submits_full [OF assms] enqueue_operation_submits [OF acc]
      enqueue_operation_submits [OF assms]
    by (simp add: pifus_socket_bind_def pifus_socket_connect_def pifus_socket_close_def pifus_socket_nop_def
        pifus_socket_listen_def pifus_socket_accept_def)
qed

theorem client_submissions_witness:
  "fst (pifus_socket_nop demo_socket) \<and> length (sq_list (snd (pifus_socket_nop demo_socket))) = 1"
proof -
  show ?thesis using client_submissions [OF demo_socket_inv] demo_socket_queue by (auto simp: submits_def Let_def)
qed

text \<open>
  A write is refused without any effect when the submission queue is full or the heap of the
  application has no block for the data. Otherwise the data is copied into a block of exactly its size,
  no byte in use changes, and the submitted operation carries an offset that leads back to the block.
\<close>

theorem pifus_socket_write_submits:
  assumes "sock_inv s" "heap_inv m bs" "data \<noteq> []"
  shows "if is_queue_full s \<or> alloc_blocks 4 (length data) bs = None
     then pifus_socket_write m s data = Ok (False, m, s)
     else \<exists>m' s' b. pifus_socket_write m s data = Ok (True, m', s') \<and> payload_block m bs (length data) m' b
        \<and> mload m' (shm_data_get_data_ptr b) (length data) = data
        \<and> submits s \<lparr>op_code = (if protocol s = PROTOCOL_TCP then TCP_WRITE else UDP_SEND),
             op_data = Write_Data (of_int (shm_data_get_offset b))\<rparr> (True, s')"
  by (rule write_spec [OF assms])

theorem pifus_socket_write_submits_witness:
  "\<exists>m' s'. pifus_socket_write (\<lambda>_. 0) demo_socket [1, 2, 3] = Ok (True, m', s')"
  using pifus_socket_write_submits [OF demo_socket_inv heap_inv_empty, of "[1, 2, 3]"] demo_socket_queue(4)
  by (auto simp: SHM_APP_SIZE_def)

text \<open>
  A receive request is refused without any effect when the submission queue is full or there is no
  block for the data; otherwise the submitted operation carries the size asked for and the offset of a
  block of exactly that size.
\<close>

theorem pifus_socket_recv_submits:
  assumes "sock_inv s" "heap_inv m bs" "0 < sz"
  shows "if is_queue_full s \<or> alloc_blocks 4 (unat sz) bs = None
     then pifus_socket_recv m s sz = Ok (False, m, s)
     else \<exists>m' s' b. pifus_socket_recv m s sz = Ok (True, m', s') \<and> payload_block m bs (unat sz) m' b
        \<and> submits s \<lparr>op_code = (if protocol s = PROTOCOL_TCP then TCP_RECV else UDP_RECV),
             op_data = Recv_Data (of_int (shm_data_get_offset b)) sz\<rparr> (True, s')"
proof -
  have n: "0 < unat sz" using assms(3) by (simp add: unat_pos_iff)
  note al = p_alloc_block [OF assms(2) n]
  show ?thesis
  proof (cases "is_queue_full s \<or> alloc_blocks 4 (unat sz) bs = None")
    case True
    then show ?thesis using al(1) by (auto simp: pifus_socket_recv_def)
  next
    case False
    then obtain b bs' where "alloc_blocks 4 (unat sz) bs = Some (b, bs')" by auto
    from al(2) [OF this] obtain m' where m': "p_alloc m (unat sz) = Ok (m', Some (shm_data_get_offset b, b))"
      "payload_block m bs (unat sz) m' b" by blast
    let ?op = "\<lparr>op_code = (if protocol s = PROTOCOL_TCP then TCP_RECV else UDP_RECV),
      op_data = Recv_Data (of_int (shm_data_get_offset b)) sz\<rparr>"
    obtain ok s' where e: "enqueue_operation s ?op = (ok, s')" by force
    have sub: "submits s ?op (ok, s')" using enqueue_operation_submits [OF assms(1), of ?op] by (simp only: e)
    have "ok" using sub False is_queue_full_iff [OF assms(1)] by (simp add: submits_def Let_def)
    with False m' e sub show ?thesis
      by (simp only: pifus_socket_recv_def if_False HOL.simp_thms res_bind.simps prod.case option.case Let_def) auto
  qed
qed

theorem pifus_socket_recv_submits_witness:
  "\<exists>m' s'. pifus_socket_recv (\<lambda>_. 0) demo_socket 70000 = Ok (True, m', s')
     \<and> sq_list s' = [\<lparr>op_code = TCP_RECV, op_data = Recv_Data 0 70000\<rparr>]"
proof -
  have al: "alloc_blocks 4 70000 [] = Some (4, [(False, 70000)])" by (simp add: SHM_APP_SIZE_def)
  from pifus_socket_recv_submits [OF demo_socket_inv heap_inv_empty, of 70000] al demo_socket_queue(4)
  obtain m' s' b where w: "pifus_socket_recv (\<lambda>_. 0) demo_socket 70000 = Ok (True, m', s')" "payload_block (\<lambda>_. 0) [] 70000 m' b"
    "submits demo_socket \<lparr>op_code = (if protocol demo_socket = PROTOCOL_TCP then TCP_RECV else UDP_RECV),
       op_data = Recv_Data (of_int (shm_data_get_offset b)) 70000\<rparr> (True, s')"
    by (auto simp: SHM_APP_SIZE_def)
  with payload_block_empty [OF w(2)] demo_socket_queue(1-3) show ?thesis by (auto simp: submits_def Let_def)
qed


text \<open>The data a result carries, by its code: what the handlers of the stack store.\<close>

definition result_shape :: "operation_result \<Rightarrow> bool" where
  "result_shape r \<longleftrightarrow>
     (res_code r = TCP_WRITE \<longrightarrow> (\<exists>off. res_data r = Res_Write off))
     \<and> (res_code r = TCP_ACCEPT \<and> result_code r = PIFUS_OK \<longrightarrow> (\<exists>x pcb. res_data r = Res_Accept x pcb))
     \<and> (res_code r = TCP_RECV \<or> res_code r = UDP_RECV \<longrightarrow> (\<exists>off sz mb db. res_data r = Res_Recv off sz mb db))"

definition popped :: "pifus_socket \<Rightarrow> pifus_socket" where
  "popped s = s\<lparr>cqueue := snd (ring_buffer_get (cqueue s) (cqueue_buffer s))\<rparr>"

lemma pop_views:
  assumes "sock_inv s" "cq_list s = r # rs"
  shows "ring_buffer_get (cqueue s) (cqueue_buffer s) = (Some r, cqueue (popped s))"
    "sock_inv (popped s)" "cq_list (popped s) = rs" "pifus_socket_peek_result_code s = Some (res_code r)"
proof -
  have inv: "rb_inv (cqueue s) (cqueue_buffer s)" and l: "rb_list (cqueue s) (cqueue_buffer s) = r # rs"
    using assms by (simp_all add: sock_inv_def cq_list_def)
  have ne: "rb_list (cqueue s) (cqueue_buffer s) \<noteq> []" by (simp only: l) simp
  obtain x rb where g: "ring_buffer_get (cqueue s) (cqueue_buffer s) = (x, rb)" by force
  note n = get_nonempty [OF inv ne g, unfolded l list.sel]
  show "ring_buffer_get (cqueue s) (cqueue_buffer s) = (Some r, cqueue (popped s))" using g n(1) by (simp add: popped_def)
  show "sock_inv (popped s)" "cq_list (popped s) = rs"
    using g n(2,3) assms(1) by (simp_all add: popped_def sock_inv_def cq_list_def)
  show "pifus_socket_peek_result_code s = Some (res_code r)"
    using rb_head_slot(1,2) [OF inv l] by (simp add: pifus_socket_peek_result_code_def)
qed

lemma pop_empty:
  assumes "sock_inv s" "cq_list s = []"
  shows "ring_buffer_get (cqueue s) (cqueue_buffer s) = (None, cqueue s)" "pifus_socket_peek_result_code s = None"
proof -
  have inv: "rb_inv (cqueue s) (cqueue_buffer s)" and l: "rb_list (cqueue s) (cqueue_buffer s) = []"
    using assms by (simp_all add: sock_inv_def cq_list_def)
  show "ring_buffer_get (cqueue s) (cqueue_buffer s) = (None, cqueue s)" by (rule get_empty [OF inv l])
  show "pifus_socket_peek_result_code s = None"
    using peek_spec(1) [OF inv] l by (simp add: pifus_socket_peek_result_code_def)
qed

lemma dequeue_empty:
  assumes "sock_inv (client_regions c p)" "cq_list (client_regions c p) = []"
  shows "dequeue_operation c p = Ok (None, c)"
proof -
  have "set_region c p ((client_regions c p)\<lparr>cqueue := cqueue (client_regions c p)\<rparr>) = c" by (simp add: set_region_def)
  with pop_empty(1) [OF assms] show ?thesis by (simp add: dequeue_operation_def Let_def)
qed

lemma dequeue_some:
  assumes "sock_inv (client_regions c p)" "cq_list (client_regions c p) = r # rs"
  shows "dequeue_operation c p = res_bind (release_written r (set_region c p (popped (client_regions c p)))) (\<lambda>c1.
     res_bind (open_accepted p r c1) (\<lambda>(r1, c2). res_bind (locate_received (app_state c2) r1) (\<lambda>r2. Ok (Some r2, forget_closed p r2 c2))))"
proof -
  let ?s = "client_regions c p"
  have "?s\<lparr>cqueue := cqueue (popped ?s)\<rparr> = popped ?s" by (simp add: popped_def)
  with pop_views(1) [OF assms] show ?thesis by (simp add: dequeue_operation_def Let_def)
qed

lemma popped_simps [simp]:
  "socket_index (popped s) = socket_index s" "accepted_sockets_priority (popped s) = accepted_sockets_priority s"
  "cqueue_futex (popped s) = cqueue_futex s"
  by (simp_all add: popped_def)

text \<open>
  C23. Taking a result. An empty completion queue gives nothing and changes nothing. Otherwise the oldest
  result is taken, with its codes; only the completion queue of the socket is shortened. A write result
  frees the block it names, a receive result gets the address and the size of its block, a close result
  removes the name of the region and the table entry, whatever its result code is; every other result
  leaves the rest of the client as it is. (An accepted connection is treated separately.)
\<close>

theorem pop_result_takes_oldest:
  assumes "sock_inv s" "s = client_regions c p"
  shows "(cq_list s = [] \<longrightarrow> pifus_socket_pop_result c p = Ok (None, c) \<and> pifus_socket_peek_result_code s = None)
   \<and> (\<forall>r rs. cq_list s = r # rs \<and> result_shape r \<and> \<not> (res_code r = TCP_ACCEPT \<and> result_code r = PIFUS_OK) \<longrightarrow>
       (\<exists>r' c'. pifus_socket_pop_result c p = Ok (Some r', c')
       \<and> res_code r' = res_code r \<and> result_code r' = result_code r \<and> pifus_socket_peek_result_code s = Some (res_code r)
       \<and> client_regions c' = (client_regions c)(p := popped s) \<and> cq_list (popped s) = rs \<and> sock_inv (popped s)
       \<and> (if res_code r = TCP_WRITE
          then (\<exists>off. res_data r = Res_Write off \<and> app_state c' = shm_data_free (app_state c) (shm_data_get_block_ptr (sint off)))
          else app_state c' = app_state c)
       \<and> (if res_code r = TCP_RECV \<or> res_code r = UDP_RECV
          then (\<exists>off sz mb db b. res_data r = Res_Recv off sz mb db \<and> b = shm_data_get_block_ptr (sint off)
                  \<and> res_data r' = Res_Recv off (of_nat (blk_size (app_state c) b)) (Some b) (Some (shm_data_get_data_ptr b)))
          else res_data r' = res_data r)
       \<and> (if res_code r = TCP_CLOSE \<or> res_code r = UDP_DISCONNECT
          then shm_names (cl_os c') = (shm_names (cl_os c))(socket_name (app_shm_name c) (socket_index s) := None)
               \<and> client_sockets c' = (client_sockets c)[unat (socket_index s) := None]
          else cl_os c' = cl_os c \<and> client_sockets c' = client_sockets c)))"
proof (intro conjI allI impI, goal_cases)
  case 1
  with dequeue_empty [of c p] assms show ?case by (simp add: pifus_socket_pop_result_def)
next
  case 2
  then show ?case by (rule pop_empty(2) [OF assms(1)])
next
  case (3 r rs)
  then have l: "cq_list s = r # rs" and sh: "result_shape r" "\<not> (res_code r = TCP_ACCEPT \<and> result_code r = PIFUS_OK)" by auto
  note d = dequeue_some [of c p r rs] and v = pop_views [OF assms(1) l]
  have acc: "open_accepted p r c1 = Ok (r, c1)" for c1 using sh(2) unfolding open_accepted_def by (simp only: if_False)
  show ?case unfolding pifus_socket_pop_result_def
    using d v assms l sh acc
    by (cases "res_code r") (auto simp: release_written_def locate_received_def forget_closed_def result_shape_def
      free_write_buffers_def p_free_def Let_def unlink_socket_def shm_unlink_region_def)
qed

definition demo_result :: operation_result where
  "demo_result = \<lparr>res_code = TCP_WRITE, result_code = PIFUS_OK, res_data = Res_Write 0\<rparr>"

definition demo_completed :: pifus_socket where
  "demo_completed = demo_socket\<lparr>cqueue := \<lparr>rb_end = 4, rb_head = 1, rb_tail = 0\<rparr>,
     cqueue_buffer := replicate 4 demo_result\<rparr>"

lemma demo_completed_views: "sock_inv demo_completed" "cq_list demo_completed = [demo_result]"
proof -
  show "sock_inv demo_completed"
    using demo_socket_inv by (simp add: demo_completed_def sock_inv_def) (simp add: rb_inv_def)
  show "cq_list demo_completed = [demo_result]"
    by (simp add: demo_completed_def cq_list_def rb_list_def rb_count_def ring_count_def ring_view_def)
qed

definition demo_client :: client where
  "demo_client = \<lparr>cl_os = \<lparr>shm_names = [app_name 3 \<mapsto> 0], next_object = 1, os_refuses = (\<lambda>_. None), os_calls = 0\<rparr>,
     app_shm_name = app_name 3, app_state = (\<lambda>_. 0), client_sockets = replicate 127 None,
     client_regions = (\<lambda>_. demo_completed)\<rparr>"

theorem pop_result_takes_oldest_witness:
  "\<exists>r' c'. pifus_socket_pop_result demo_client 7 = Ok (Some r', c') \<and> res_code r' = TCP_WRITE
     \<and> cq_list (client_regions c' 7) = [] \<and> app_state c' = shm_data_free (\<lambda>_. 0) 4"
proof -
  have "client_regions demo_client 7 = demo_completed" "app_state demo_client = (\<lambda>_. 0)" by (simp_all add: demo_client_def)
  moreover have "result_shape demo_result" "res_code demo_result = TCP_WRITE" "res_data demo_result = Res_Write 0"
    by (simp_all add: result_shape_def demo_result_def)
  moreover have "shm_data_get_block_ptr (sint (0 :: u64)) = 4" by (simp add: shm_data_get_block_ptr_def sizeof_app_def)
  ultimately show ?thesis
    using pop_result_takes_oldest [of demo_completed demo_client 7] demo_completed_views by fastforce
qed

text \<open>
  Where an allocation puts its block: into a free block of that size, at the start of a larger free block, or behind
  the last one.
\<close>

definition allocated_at :: "block list \<Rightarrow> nat \<Rightarrow> block list \<Rightarrow> block list \<Rightarrow> bool" where
  "allocated_at bs n us vs \<longleftrightarrow>
     bs = us @ (True, n) # vs \<or> (\<exists>s vs'. vs = (True, s - n - 24) # vs' \<and> bs = us @ (True, s) # vs' \<and> n + 24 < s)
     \<or> bs = us \<and> vs = []"

lemma alloc_blocks_split:
  "alloc_blocks a n bs = Some (b, bs') \<Longrightarrow> \<exists>us vs. bs' = us @ (False, n) # vs \<and> b = chain_end a us \<and> allocated_at bs n us vs"
proof (induction a n bs arbitrary: bs' rule: alloc_blocks.induct)
  case (1 a n)
  then have "b = chain_end a []" "bs' = [] @ (False, n) # []" "allocated_at [] n [] []"
    by (auto simp: allocated_at_def split: if_splits)
  then show ?case by blast
next
  case (2 a n f s bs)
  consider "f \<and> s = n" | "\<not> (f \<and> s = n)" "f \<and> n + 24 < s" | "\<not> (f \<and> s = n)" "\<not> (f \<and> n + 24 < s)" by blast
  then show ?case
  proof cases
    case 3
    have "alloc_blocks a n ((f, s) # bs) = map_option (\<lambda>(b, bs'). (b, (f, s) # bs')) (alloc_blocks (a + 24 + s) n bs)"
      by (simp only: alloc_blocks.simps if_not_P [OF 3(1)] if_not_P [OF 3(2)])
    then have "map_option (\<lambda>(b, bs'). (b, (f, s) # bs')) (alloc_blocks (a + 24 + s) n bs) = Some (b, bs')"
      using "2.prems" by (simp only:)
    then obtain ds where d: "alloc_blocks (a + 24 + s) n bs = Some (b, ds)" "bs' = (f, s) # ds"
      unfolding map_option_eq_Some by (metis (no_types, lifting) case_prod_conv old.prod.exhaust prod.inject)
    from "2.IH" [OF 3 d(1)] obtain us vs where "ds = us @ (False, n) # vs" "b = chain_end (a + 24 + s) us" "allocated_at bs n us vs"
      by blast
    with d(2) have "bs' = ((f, s) # us) @ (False, n) # vs" "b = chain_end a ((f, s) # us)" "allocated_at ((f, s) # bs) n ((f, s) # us) vs"
      by (simp_all add: allocated_at_def)
    then show ?thesis by blast
  next
    case 1
    with "2.prems" have "b = chain_end a []" "bs' = [] @ (False, n) # bs" "allocated_at ((f, s) # bs) n [] bs"
      by (auto simp: allocated_at_def)
    then show ?thesis by blast
  next
    case 2
    with "2.prems" have "b = chain_end a []" "bs' = [] @ (False, n) # (True, s - n - 24) # bs"
      "allocated_at ((f, s) # bs) n [] ((True, s - n - 24) # bs)"
      by (auto simp: allocated_at_def)
    then show ?thesis by blast
  qed
qed

text \<open>
  Releasing the block of an allocation restores the block list, when no two free blocks were neighbours: but for a
  block behind the last one, which is released like any other, and a region that was one free block of that size.
\<close>

definition coalesced :: "block list \<Rightarrow> bool" where
  "coalesced bs \<longleftrightarrow> successively (\<lambda>x y. \<not> (fst x \<and> fst y)) bs"

lemma free_restores:
  assumes "allocated_at bs n us vs" "coalesced bs"
  shows "free_blocks us n vs = (if us = bs \<and> vs = [] then free_blocks bs n [] else if bs = [(True, n)] then [] else bs)"
proof (cases "us = bs \<and> vs = []")
  case False
  then consider "bs = us @ (True, n) # vs"
    | s vs' where "vs = (True, s - n - 24) # vs'" "bs = us @ (True, s) # vs'" "n + 24 < s"
    using assms(1) by (auto simp: allocated_at_def)
  then show ?thesis
  proof cases
    case 1
    then have "\<not> merge_left us" "\<not> merge_right vs"
      using assms(2) by (auto simp: coalesced_def merge_left_def merge_right_def successively_append_iff successively_Cons)
    then show ?thesis using 1 False by (auto simp: free_blocks_def append_eq_Cons_conv)
  next
    case 2
    then have "\<not> merge_left us" "merge_right vs"
      using assms(2) by (auto simp: coalesced_def merge_left_def merge_right_def successively_append_iff)
    then show ?thesis using 2 by (auto simp: free_blocks_def append_eq_Cons_conv)
  qed
qed simp

lemma free_payload_block:
  assumes "payload_block m bs n m' b" "0 < n" "\<forall>x \<in> live 4 bs. m'' x = m' x" "heap_inv m'' bs''" "alloc_blocks 4 n bs = Some (b, bs'')"
  shows "\<forall>x \<in> live 4 bs. shm_data_free m'' b x = m x"
proof -
  obtain us vs where uv: "bs'' = us @ (False, n) # vs" "b = chain_end 4 us" using alloc_blocks_split [OF assms(5)] by blast
  note l = alloc_blocks_live [OF assms(5)]
  have a: "\<forall>x \<in> live 4 bs. m'' x = m x" using assms(1,3) by (simp add: payload_block_def)
  have lv: "live 4 bs'' = live 4 us \<union> ({b + 24..<b + 24 + n} \<union> live (b + 24 + n) vs)"
    unfolding uv(1) live_append uv(2) [symmetric] by simp
  have out: "live 4 bs \<subseteq> live 4 us \<union> live (b + 24 + n) vs"
  proof
    fix x assume x: "x \<in> live 4 bs"
    have "x \<in> live 4 bs''" unfolding l(1) using x by (rule UnI1)
    moreover have "x \<notin> {b + 24..<b + 24 + n}" using x l(2) by blast
    ultimately show "x \<in> live 4 us \<union> live (b + 24 + n) vs" unfolding lv by blast
  qed
  show ?thesis
  proof (cases "us \<noteq> [] \<or> vs \<noteq> []")
    case True
    show ?thesis
    proof
      fix x assume x: "x \<in> live 4 bs"
      have "shm_data_free m'' b x = m'' x"
        by (rule free_frame(1) [OF assms(4) [unfolded uv(1)] uv(2) True subsetD [OF out x]])
      then show "shm_data_free m'' b x = m x" using a x by simp
    qed
  next
    case False
    then have "live 4 bs = {}" using out by simp
    then show ?thesis by simp
  qed
qed

text \<open>The memory a release leaves, with a region of one block included.\<close>

lemma free_block_list:
  assumes "heap_inv m (us @ (False, n) # vs)" "b = chain_end 4 us"
  shows "shape (shm_data_free m b) 4 (free_blocks us n vs)"
    "heap_inv (shm_data_free m b) (free_blocks us n vs) \<longleftrightarrow> \<not> (merge_right vs \<and> tl vs \<noteq> [])"
proof -
  have "shape (shm_data_free m b) 4 (free_blocks us n vs) \<and>
      (heap_inv (shm_data_free m b) (free_blocks us n vs) \<longleftrightarrow> \<not> (merge_right vs \<and> tl vs \<noteq> []))"
  proof (cases "us \<noteq> [] \<or> vs \<noteq> []")
    case True
    then show ?thesis using shm_data_free_spec(1,3) [OF assms] by blast
  next
    case False
    then show ?thesis using shm_data_free_last [of m n] assms by (simp add: free_blocks_def merge_right_def)
  qed
  then show "shape (shm_data_free m b) 4 (free_blocks us n vs)"
    "heap_inv (shm_data_free m b) (free_blocks us n vs) \<longleftrightarrow> \<not> (merge_right vs \<and> tl vs \<noteq> [])" by blast+
qed

text \<open>
  C24. Life of a payload: a write stores the data in a block, and taking the result of that write releases this
  block. In between and afterwards the bytes of all other blocks in use are what they were, whatever
  the completion queue held and whatever the stack reads meanwhile; the data itself is intact until then.
  Afterwards the region holds the blocks of \<open>free_blocks\<close>. If no two free blocks were neighbours before the write,
  these are the blocks from before it, unless the write had to append its block, which then is free or merged with
  a free last block, or had reused the only block, which then is gone. The region is well formed again exactly if
  the block is not merged with a free successor that has a further block behind it.
\<close>

theorem write_then_pop_releases:
  assumes "sock_inv s" "heap_inv (app_state c) bs" "data \<noteq> []" "\<not> is_queue_full s" "alloc_blocks 4 (length data) bs = Some (b, bs')"
    and "pifus_socket_write (app_state c) s data = Ok (ok, m', s')"
    and "sock_inv (client_regions c1 p)" "app_state c1 = m'"
    and "cq_list (client_regions c1 p) = \<lparr>res_code = TCP_WRITE, result_code = rc, res_data = Res_Write off\<rparr> # rs"
    and "sq_list s' = sq_list s @ [\<lparr>op_code = TCP_WRITE, op_data = Write_Data off\<rparr>]"
  shows "ok \<and> mload m' (shm_data_get_data_ptr b) (length data) = data \<and> (\<forall>x \<in> live 4 bs. m' x = app_state c x)
     \<and> (\<exists>r' c2 us vs. pifus_socket_pop_result c1 p = Ok (Some r', c2) \<and> (\<forall>x \<in> live 4 bs. app_state c2 x = app_state c x)
         \<and> bs' = us @ (False, length data) # vs \<and> b = chain_end 4 us
         \<and> shape (app_state c2) 4 (free_blocks us (length data) vs)
         \<and> (heap_inv (app_state c2) (free_blocks us (length data) vs) \<longleftrightarrow> \<not> (merge_right vs \<and> tl vs \<noteq> []))
         \<and> (coalesced bs \<longrightarrow> free_blocks us (length data) vs =
              (if us = bs \<and> vs = [] then free_blocks bs (length data) [] else if bs = [(True, length data)] then [] else bs)))"
proof -
  have n: "0 < length data" using assms(3) by simp
  from p_alloc_block(2) [OF assms(2) n assms(5)] obtain m1 where
    m1: "p_alloc (app_state c) (length data) = Ok (m1, Some (shm_data_get_offset b, b))" "payload_block (app_state c) bs (length data) m1 b"
    by blast
  let ?op = "\<lparr>op_code = (if protocol s = PROTOCOL_TCP then TCP_WRITE else UDP_SEND), op_data = Write_Data (of_int (shm_data_get_offset b))\<rparr>"
  have e: "enqueue_operation s ?op = (ok, s')" and m': "m' = mstore m1 (shm_data_get_data_ptr b) data"
    using assms(4,6) m1(1)
    by (cases "protocol s = PROTOCOL_TCP"; simp add: pifus_socket_write_def Let_def split: prod.splits)+
  have sub: "submits s ?op (ok, s')" using enqueue_operation_submits [OF assms(1), of ?op] by (simp only: e)
  have ok: "ok" using sub is_queue_full_iff [OF assms(1)] assms(4) by (simp add: submits_def Let_def)
  then have off: "off = of_int (shm_data_get_offset b)" using sub assms(10) by (auto simp: submits_def Let_def split: if_splits)
  note st = payload_block_store [OF m1(2)]
  have ptr: "shm_data_get_block_ptr (sint off) = b" using m1(2) by (simp add: payload_block_def off)
  let ?r = "\<lparr>res_code = TCP_WRITE, result_code = rc, res_data = Res_Write off\<rparr>"
  have pop: "\<exists>r' c2. pifus_socket_pop_result c1 p = Ok (Some r', c2) \<and> app_state c2 = shm_data_free m' b"
    using dequeue_some [OF assms(7,9)] assms(8) ptr
    by (simp add: pifus_socket_pop_result_def release_written_def open_accepted_def locate_received_def forget_closed_def
        free_write_buffers_def p_free_def)
  have inv': "heap_inv m' bs'" using st(1) assms(5) by (auto simp: payload_block_def m')
  obtain us vs where uv: "bs' = us @ (False, length data) # vs" "b = chain_end 4 us" "allocated_at bs (length data) us vs"
    using alloc_blocks_split [OF assms(5)] by blast
  note free = free_block_list [OF inv' [unfolded uv(1)] uv(2)] and restored = free_restores [OF uv(3)]
  from free_payload_block [OF st(1) n _ inv' [unfolded m'] assms(5)] have live: "\<forall>x \<in> live 4 bs. shm_data_free m' b x = app_state c x" by (simp add: m')
  obtain r' c2 where "pifus_socket_pop_result c1 p = Ok (Some r', c2)" "app_state c2 = shm_data_free m' b" using pop by blast
  moreover have "ok \<and> mload m' (shm_data_get_data_ptr b) (length data) = data \<and> (\<forall>x \<in> live 4 bs. m' x = app_state c x)"
    using ok st unfolding m' payload_block_def by blast
  ultimately show ?thesis using live free restored uv(1,2) by (intro conjI exI impI) auto
qed

theorem write_then_pop_releases_witness:
  "\<exists>m' s' r' c2. pifus_socket_write (app_state demo_client) demo_socket [1, 2, 3] = Ok (True, m', s')
     \<and> mload m' 28 3 = [1, 2, 3] \<and> pifus_socket_pop_result (demo_client\<lparr>app_state := m'\<rparr>) 7 = Ok (Some r', c2)
     \<and> heap_inv (app_state c2) []"
proof -
  obtain m' s' where w: "pifus_socket_write (\<lambda>_. 0) demo_socket [1, 2, 3] = Ok (True, m', s')"
    "sq_list s' = [\<lparr>op_code = TCP_WRITE, op_data = Write_Data 0\<rparr>]" using demo_write by blast
  have "app_state demo_client = (\<lambda>_. 0)" "client_regions (demo_client\<lparr>app_state := m'\<rparr>) 7 = demo_completed"
    by (simp_all add: demo_client_def)
  then show ?thesis
    using write_then_pop_releases [of demo_socket demo_client "[]" "[1, 2, 3]" 4 "[(False, 3)]" True m' s' "demo_client\<lparr>app_state := m'\<rparr>" 7 PIFUS_OK 0 "[]"]
      w demo_socket_inv heap_inv_empty demo_socket_queue demo_completed_views
    by (auto simp: demo_result_def SHM_APP_SIZE_def shm_data_get_data_ptr_def sizeof_block_def numeral_3_eq_3 Cons_eq_append_conv
        free_blocks_def merge_right_def)
qed

text \<open>
  A new socket gets the number after the highest one of the application. The call ends the process
  when a region of that name exists; otherwise the region is a new object of that name, all of its contents
  zero but protocol, priority, control block and an empty submission queue, the counter of the application
  (the futex the stack waits on) names it, and neither the heap nor any other region changes.
\<close>

theorem pifus_socket_creates:
  assumes "os_inv (cl_os c)" "willing (cl_os c)" "n = highest_socket_number (app_state c) + 1"
    and "name = socket_name (app_shm_name c) n" "unat n < length (client_sockets c)" "heap_inv (app_state c) bs"
  shows "if shm_names (cl_os c) name \<noteq> None then pifus_socket_with_tcp_pcb c proto prio tcp_pcb = Fault Exit_Failure
     else \<exists>p c' s. pifus_socket_with_tcp_pcb c proto prio tcp_pcb = Ok (p, c') \<and> p \<notin> ran (shm_names (cl_os c))
        \<and> shm_names (cl_os c') = (shm_names (cl_os c))(name \<mapsto> p) \<and> os_inv (cl_os c')
        \<and> highest_socket_number (app_state c') = n \<and> heap_inv (app_state c') bs \<and> (\<forall>x \<ge> 4. app_state c' x = app_state c x)
        \<and> client_sockets c' = (client_sockets c)[unat n := Some p] \<and> client_regions c' = (client_regions c)(p := s)
        \<and> s = zero_socket\<lparr>protocol := proto, priority := prio, pcb := tcp_pcb, squeue := \<lparr>rb_end = 10, rb_head = 0, rb_tail = 0\<rparr>\<rparr>
        \<and> sq_list s = []"
  by (rule creates_spec [OF assms])

theorem pifus_socket_creates_witness:
  "\<exists>p c'. pifus_socket_with_tcp_pcb demo_client PROTOCOL_TCP PRIORITY_HIGH None = Ok (p, c')
     \<and> client_sockets c' ! 1 = Some p \<and> sq_list (client_regions c' p) = []"
proof -
  have d: "os_inv (cl_os demo_client)" "willing (cl_os demo_client)" "highest_socket_number (app_state demo_client) = 0"
    "app_shm_name demo_client = app_name 3" "length (client_sockets demo_client) = 127" "heap_inv (app_state demo_client) []"
    "shm_names (cl_os demo_client) (socket_name (app_name 3) 1) = None"
    using heap_inv_empty
    by (auto simp: demo_client_def os_inv_def willing_def inj_on_def)
  from pifus_socket_creates [of demo_client 1 "socket_name (app_name 3) 1" "[]" PROTOCOL_TCP PRIORITY_HIGH None] d
  obtain p c' s where "pifus_socket_with_tcp_pcb demo_client PROTOCOL_TCP PRIORITY_HIGH None = Ok (p, c')"
    "client_sockets c' = (client_sockets demo_client)[1 := Some p]" "client_regions c' = (client_regions demo_client)(p := s)" "sq_list s = []"
    by auto
  with d(5) show ?thesis by (auto simp del: length_rb_list)
qed


text \<open>
  Taking the result of an accepted connection creates the socket of that connection: a TCP socket with
  the next number, the priority that was asked for with the accept, and the control block the stack has
  put into the result; the result names it. If the region cannot be created the process ends.
\<close>

theorem pop_accept_creates_socket:
  assumes "sock_inv (client_regions c p)" "cq_list (client_regions c p) = r # rs"
    and "res_code r = TCP_ACCEPT" "result_code r = PIFUS_OK" "res_data r = Res_Accept x tcp_pcb"
    and "os_inv (cl_os c)" "willing (cl_os c)" "n = highest_socket_number (app_state c) + 1"
    and "name = socket_name (app_shm_name c) n" "unat n < length (client_sockets c)" "heap_inv (app_state c) bs"
    and "p \<in> ran (shm_names (cl_os c))"
  shows "if shm_names (cl_os c) name \<noteq> None then pifus_socket_pop_result c p = Fault Exit_Failure
     else \<exists>new c'. pifus_socket_pop_result c p = Ok (Some (r\<lparr>res_data := Res_Accept (Some new) tcp_pcb\<rparr>), c')
        \<and> new \<notin> ran (shm_names (cl_os c)) \<and> shm_names (cl_os c') name = Some new
        \<and> protocol (client_regions c' new) = PROTOCOL_TCP \<and> pcb (client_regions c' new) = tcp_pcb
        \<and> priority (client_regions c' new) = accepted_sockets_priority (client_regions c p)
        \<and> highest_socket_number (app_state c') = n \<and> cq_list (client_regions c' p) = rs"
proof -
  let ?s = "client_regions c p" and ?c = "set_region c p (popped (client_regions c p))"
  note v = pop_views [OF assms(1,2)]
  have d: "pifus_socket_pop_result c p =
     res_bind (pifus_socket_with_tcp_pcb ?c PROTOCOL_TCP (accepted_sockets_priority ?s) tcp_pcb)
       (\<lambda>(new, c1). Ok (Some (r\<lparr>res_data := Res_Accept (Some new) tcp_pcb\<rparr>), c1))"
    unfolding pifus_socket_pop_result_def dequeue_some [OF assms(1,2)]
    using assms(3-5) by (cases "pifus_socket_with_tcp_pcb ?c PROTOCOL_TCP (accepted_sockets_priority ?s) tcp_pcb")
      (auto simp: release_written_def open_accepted_def locate_received_def forget_closed_def)
  note cr = creates_spec [of ?c n name bs PROTOCOL_TCP "accepted_sockets_priority ?s" tcp_pcb, unfolded set_region_simps, OF assms(6-11)]
  show ?thesis
  proof (cases "shm_names (cl_os c) name")
    case None
    with cr obtain new c' s where n: "pifus_socket_with_tcp_pcb ?c PROTOCOL_TCP (accepted_sockets_priority ?s) tcp_pcb = Ok (new, c')"
      "new \<notin> ran (shm_names (cl_os c))" "shm_names (cl_os c') = (shm_names (cl_os c))(name \<mapsto> new)"
      "highest_socket_number (app_state c') = n" "client_regions c' = (client_regions c)(p := popped ?s, new := s)"
      "s = zero_socket\<lparr>protocol := PROTOCOL_TCP, priority := accepted_sockets_priority ?s, pcb := tcp_pcb,
         squeue := \<lparr>rb_end = 10, rb_head = 0, rb_tail = 0\<rparr>\<rparr>"
      by auto
    have "new \<noteq> p" using n(2) assms(12) by auto
    with None d n v(3) show ?thesis by auto
  next
    case (Some y)
    with cr d show ?thesis by simp
  qed
qed

definition demo_accepting :: client where
  "demo_accepting = demo_client\<lparr>client_regions := (\<lambda>_. demo_completed
     \<lparr>cqueue_buffer := replicate 4 \<lparr>res_code = TCP_ACCEPT, result_code = PIFUS_OK, res_data = Res_Accept None (Some 99)\<rparr>,
      accepted_sockets_priority := PRIORITY_HIGH\<rparr>)\<rparr>"

theorem pop_accept_creates_socket_witness:
  "\<exists>r new c'. pifus_socket_pop_result demo_accepting 0 = Ok (Some r, c') \<and> res_data r = Res_Accept (Some new) (Some 99)
     \<and> pcb (client_regions c' new) = Some 99 \<and> priority (client_regions c' new) = PRIORITY_HIGH"
proof -
  let ?r = "\<lparr>res_code = TCP_ACCEPT, result_code = PIFUS_OK, res_data = Res_Accept None (Some 99)\<rparr> :: operation_result"
  have "sock_inv (client_regions demo_accepting 0)" "cq_list (client_regions demo_accepting 0) = [?r]"
    "accepted_sockets_priority (client_regions demo_accepting 0) = PRIORITY_HIGH"
    using demo_completed_views(1)
    by (simp_all add: demo_accepting_def demo_completed_def sock_inv_def cq_list_def rb_inv_def rb_list_def rb_count_def
        ring_count_def ring_view_def)
  moreover have "os_inv (cl_os demo_accepting)" "willing (cl_os demo_accepting)" "highest_socket_number (app_state demo_accepting) = 0"
    "app_shm_name demo_accepting = app_name 3" "length (client_sockets demo_accepting) = 127" "heap_inv (app_state demo_accepting) []"
    "shm_names (cl_os demo_accepting) (socket_name (app_name 3) 1) = None" "0 \<in> ran (shm_names (cl_os demo_accepting))"
    using heap_inv_empty
    by (auto simp: demo_accepting_def demo_client_def os_inv_def willing_def inj_on_def ran_def)
  ultimately show ?thesis
    using pop_accept_creates_socket [of demo_accepting 0 ?r "[]" None "Some 99" 1 "socket_name (app_name 3) 1" "[]"] by auto
qed

definition unlink_number :: "u32 \<Rightarrow> client \<Rightarrow> client" where
  "unlink_number i c = c\<lparr>cl_os := shm_unlink_region (cl_os c) (socket_name (app_shm_name c) i)\<rparr>"

lemma unlink_number_simps [simp]:
  "app_state (unlink_number i c) = app_state c" "app_shm_name (unlink_number i c) = app_shm_name c"
  "client_sockets (unlink_number i c) = client_sockets c" "client_regions (unlink_number i c) = client_regions c"
  "shm_names (cl_os (unlink_number i c)) = (shm_names (cl_os c))(socket_name (app_shm_name c) i := None)"
  by (simp_all add: unlink_number_def shm_unlink_region_def)

lemma unlink_loop_fold:
  assumes "unat (highest_socket_number (app_state c)) + 1 = i + k" "i + k < 2 ^ 32"
  shows "unlink_loop c (of_nat i) = Some (fold unlink_number (map of_nat [i..<i + k]) c)"
  using assms
proof (induction k arbitrary: i c)
  case 0
  then have "\<not> (of_nat i :: u32) \<le> highest_socket_number (app_state c)"
    by (simp add: word_le_nat_alt unat_of_nat)
  then show ?case by (simp add: unlink_loop.simps [of c])
next
  case (Suc k)
  have le: "(of_nat i :: u32) \<le> highest_socket_number (app_state c)"
    using Suc.prems by (simp add: word_le_nat_alt unat_of_nat)
  have "unlink_loop c (of_nat i) = unlink_loop (unlink_number (of_nat i) c) (of_nat (Suc i))"
    using le by (simp add: unlink_loop.simps [of c] unlink_number_def add.commute)
  also have "\<dots> = Some (fold unlink_number (map of_nat [Suc i..<Suc i + k]) (unlink_number (of_nat i) c))"
    by (rule Suc.IH) (use Suc.prems in simp_all)
  finally show ?case by (simp add: upt_conv_Cons del: upt_Suc of_nat_Suc)
qed

lemma unlink_fold_views:
  "app_state (fold unlink_number js c) = app_state c" "client_sockets (fold unlink_number js c) = client_sockets c"
  "client_regions (fold unlink_number js c) = client_regions c" "app_shm_name (fold unlink_number js c) = app_shm_name c"
  "shm_names (cl_os (fold unlink_number js c)) name =
     (if name \<in> socket_name (app_shm_name c) ` set js then None else shm_names (cl_os c) name)"
  by (induction js arbitrary: c) auto

lemma exit_all_spec:
  assumes "h = highest_socket_number (app_state c)" "unat h < 2 ^ 32 - 1"
  shows "\<exists>c'. pifus_socket_exit_all c = Some c' \<and> app_state c' = app_state c \<and> client_sockets c' = client_sockets c
     \<and> client_regions c' = client_regions c \<and> app_shm_name c' = app_shm_name c
     \<and> (\<forall>name. shm_names (cl_os c') name =
          (if h \<noteq> 0 \<and> (\<exists>i \<le> h. name = socket_name (app_shm_name c) i) then None else shm_names (cl_os c) name))"
proof (cases "h = 0")
  case True
  with assms(1) show ?thesis by (simp add: pifus_socket_exit_all_def)
next
  case False
  then have pos: "h > 0" by (simp add: word_neq_0_conv)
  define js :: "u32 list" where "js = map of_nat [0..<0 + Suc (unat h)]"
  have js: "set js = {i. i \<le> h}"
  proof -
    have "(of_nat j :: u32) \<le> h" if "j < Suc (unat h)" for j
      using that assms(2) by (simp add: word_le_nat_alt unat_of_nat)
    moreover have "i \<in> of_nat ` {0..<Suc (unat h)}" if "i \<le> h" for i :: u32
      using that by (intro image_eqI [of _ _ "unat i"]) (simp_all add: word_le_nat_alt)
    ultimately show ?thesis by (auto simp: js_def simp del: upt_Suc)
  qed
  have "unlink_loop c 0 = Some (fold unlink_number js c)"
    using unlink_loop_fold [of c 0 "Suc (unat h)"] assms by (simp add: js_def)
  then have "pifus_socket_exit_all c = Some (fold unlink_number js c)"
    using pos assms(1) by (simp add: pifus_socket_exit_all_def)
  moreover have "shm_names (cl_os (fold unlink_number js c)) name =
      (if h \<noteq> 0 \<and> (\<exists>i \<le> h. name = socket_name (app_shm_name c) i) then None else shm_names (cl_os c) name)" for name
    using False by (simp add: unlink_fold_views js image_iff)
  ultimately show ?thesis using unlink_fold_views by blast
qed

text \<open>
  Leaving: with at least one socket created, the names of all socket numbers up to the highest are
  removed, and no other name; without a socket nothing is removed. Memory and table stay. The call returns
  unless the counter has its largest value.
\<close>

theorem exit_all_unlinks:
  assumes "h = highest_socket_number (app_state c)" "unat h < 2 ^ 32 - 1"
  shows "\<exists>c'. pifus_socket_exit_all c = Some c' \<and> app_state c' = app_state c \<and> client_sockets c' = client_sockets c
     \<and> client_regions c' = client_regions c
     \<and> (\<forall>name. shm_names (cl_os c') name =
          (if h \<noteq> 0 \<and> (\<exists>i \<le> h. name = socket_name (app_shm_name c) i) then None else shm_names (cl_os c) name))"
  using exit_all_spec [OF assms] by blast

theorem exit_all_unlinks_witness:
  "\<exists>c'. pifus_socket_exit_all (demo_client\<lparr>app_state := set_highest_socket_number (\<lambda>_. 0) 2\<rparr>) = Some c'
     \<and> shm_names (cl_os c') (socket_name (app_name 3) 1) = None \<and> shm_names (cl_os c') (app_name 3) = Some 0"
proof -
  have "app_name 3 \<noteq> socket_name (app_name 3) i" for i by simp
  moreover obtain c' where c': "pifus_socket_exit_all (demo_client\<lparr>app_state := set_highest_socket_number (\<lambda>_. 0) 2\<rparr>) = Some c'"
    "\<forall>name. shm_names (cl_os c') name = (if (2 :: u32) \<noteq> 0 \<and> (\<exists>i \<le> 2. name = socket_name (app_name 3) i) then None
       else shm_names (cl_os demo_client) name)"
    using exit_all_unlinks [of 2 "demo_client\<lparr>app_state := set_highest_socket_number (\<lambda>_. 0) 2\<rparr>"]
    by (auto simp: demo_client_def)
  have "\<exists>i \<le> (2 :: u32). socket_name (app_name 3) 1 = socket_name (app_name 3) i" by (rule exI [of _ 1]) simp
  then have "shm_names (cl_os c') (socket_name (app_name 3) 1) = None" using c'(2) by simp
  ultimately show ?thesis using c' by (auto simp: demo_client_def)
qed

end
