(* ===== verification/Stack_Steps.thy ===== *)
theory Stack_Steps
  imports Prio_Thread Client_Socket
begin

text \<open>
  The stack, its priority threads and the applications running side by side. A step is one round of one of
  their loops: an application submits an operation or takes a result, a priority thread moves one operation
  (one round of the loop of \<open>handle_squeue_change\<close>), the main loop serves one operation (one round of
  \<open>lwip_loop_iteration\<close>), lwIP calls one of the callbacks or changes its own state. The steps interleave
  freely, and an application may change its memory at any time. \<open>S\<close> are the sockets the threads serve.
\<close>

section \<open>Steps\<close>

datatype event = Submitted nat pifus_operation | Moved nat pifus_operation | Internal

inductive system_step :: "('l, 'i) lwip_api \<Rightarrow> nat set \<Rightarrow> 'l stack \<Rightarrow> event \<Rightarrow> 'l stack \<Rightarrow> bool" for api S where
  submit: "sp \<in> S \<Longrightarrow> op_code op \<noteq> NOP \<Longrightarrow> enqueue_operation (socket_regions st sp) op = (True, s) \<Longrightarrow>
     system_step api S st (Submitted sp op) (set_socket st sp s)"
| refuse: "enqueue_operation (socket_regions st sp) op = (False, s) \<Longrightarrow> sp \<in> S \<Longrightarrow>
     system_step api S st Internal (set_socket st sp s)"
| collect: "ring_buffer_get (cqueue (socket_regions st sp)) (cqueue_buffer (socket_regions st sp)) = (x, rb) \<Longrightarrow>
     system_step api S st Internal (set_socket st sp ((socket_regions st sp)\<lparr>cqueue := rb\<rparr>))"
| memory: "system_step api S st Internal (st\<lparr>app_regions := m\<rparr>)"
| move: "sp \<in> S \<Longrightarrow> squeue_futex (socket_regions st sp) \<noteq> shadow_of st sp \<Longrightarrow>
     \<not> has_socket_max_parallel_ops (socket_regions st sp) \<Longrightarrow> move_operation r st sp = Some st' \<Longrightarrow>
     system_step api S st (Moved sp (hd (sq_list (socket_regions st sp)))) st'"
| serve: "prio_ring_peek (tx_queue st) = (Some tx_op, q) \<Longrightarrow>
     handle_operation api (st\<lparr>tx_queue := q\<rparr>) tx_op False d = Some (Ok (go_on, d', st')) \<Longrightarrow>
     system_step api S st Internal st'"
| received: "tcp_recv_callback api st arg tpcb p err = Some (Ok (rc, st')) \<Longrightarrow> system_step api S st Internal st'"
| sent: "tcp_sent_callback (socket_regions st sp) len = Some (Ok (rc, s)) \<Longrightarrow>
     system_step api S st Internal (set_socket st sp s)"
| connected: "tcp_connected_callback st sp = (rc, st') \<Longrightarrow> system_step api S st Internal st'"
| accepted: "tcp_accepted_callback api st sp newpcb = (rc, st') \<Longrightarrow> system_step api S st Internal st'"
| failed: "system_step api S st Internal (set_socket st sp (tcp_err_callback (socket_regions st sp)))"
| network: "system_step api S st Internal (st\<lparr>st_lwip := lw\<rparr>)"

inductive system_run :: "('l, 'i) lwip_api \<Rightarrow> nat set \<Rightarrow> 'l stack \<Rightarrow> event list \<Rightarrow> 'l stack \<Rightarrow> bool" for api S st0 where
  start: "system_run api S st0 [] st0"
| step: "system_run api S st0 es st \<Longrightarrow> system_step api S st e st' \<Longrightarrow> system_run api S st0 (es @ [e]) st'"

inductive_cases system_stepE: "system_step api S st e st'"

fun submitted_by :: "nat \<Rightarrow> event list \<Rightarrow> pifus_operation list" where
  "submitted_by p [] = []"
| "submitted_by p (Submitted sp op # es) = (if sp = p then op # submitted_by p es else submitted_by p es)"
| "submitted_by p (e # es) = submitted_by p es"

fun moved_of :: "nat \<Rightarrow> event list \<Rightarrow> pifus_operation list" where
  "moved_of p [] = []"
| "moved_of p (Moved sp op # es) = (if sp = p then op # moved_of p es else moved_of p es)"
| "moved_of p (e # es) = moved_of p es"

lemma submitted_by_append [simp]: "submitted_by p (xs @ ys) = submitted_by p xs @ submitted_by p ys"
  by (induction xs rule: submitted_by.induct) auto

lemma moved_of_append [simp]: "moved_of p (xs @ ys) = moved_of p xs @ moved_of p ys"
  by (induction xs rule: moved_of.induct) auto

section \<open>What the internal steps leave alone\<close>

text \<open>The submission side of every socket: the submission queue, its futex and the count of moved operations.\<close>

definition submitter :: "pifus_socket \<Rightarrow> ring_buffer \<times> pifus_operation list \<times> u32 \<times> u32 \<times> u32 \<times> u64" where
  "submitter s = (squeue s, squeue_buffer s, squeue_futex s, app_index s, socket_index s, enqueued_ops s)"

definition keeps :: "'l stack \<Rightarrow> 'l stack \<Rightarrow> bool" where
  "keeps st st' \<longleftrightarrow> socket_futexes st' = socket_futexes st
     \<and> (\<forall>p. submitter (socket_regions st' p) = submitter (socket_regions st p))"

definition idle :: "'l stack \<Rightarrow> 'l stack \<Rightarrow> bool" where
  "idle st st' \<longleftrightarrow> keeps st st' \<and> tx_queue st' = tx_queue st
     \<and> (\<forall>p. dequeued_ops (socket_regions st' p) = dequeued_ops (socket_regions st p))"

lemmas keep_defs = keeps_def idle_def submitter_def

lemma keeps_refl [simp]: "keeps st st" by (simp add: keeps_def)

lemma keeps_trans: "keeps st st1 \<Longrightarrow> keeps st1 st2 \<Longrightarrow> keeps st st2" by (simp add: keeps_def)

lemma connection_keeps:
  "tx_tcp_bind api st iop = Ok (r, st') \<Longrightarrow> keeps st st'"
  "tx_tcp_connect api st iop = Ok (r, st') \<Longrightarrow> keeps st st'"
  "tx_tcp_listen api st iop = Ok (r, st') \<Longrightarrow> keeps st st'"
  "tx_tcp_accept api st iop = Ok (r, st') \<Longrightarrow> keeps st st'"
  "tx_tcp_close api st iop = Ok (r, st') \<Longrightarrow> keeps st st'"
  by (auto simp: keep_defs tx_tcp_bind_def tx_tcp_connect_def tx_tcp_listen_def set_socket_ptr_def
      tx_tcp_accept_def tx_tcp_close_def Let_def split: prod.splits option.splits if_splits)

lemma tx_tcp_write_keeps: "tx_tcp_write api st iop = Ok (r, st') \<Longrightarrow> keeps st st'"
  by (auto simp: keep_defs tx_tcp_write_def Let_def split: prod.splits option.splits if_splits)

lemma tx_tcp_recv_keeps: "tx_tcp_recv api st iop = Ok (r, st') \<Longrightarrow> keeps st st'"
  by (auto simp: keep_defs tx_tcp_recv_def Let_def split: prod.splits option.splits if_splits
      dest!: pop_from_buffer_frame)

lemma ensure_pcb_keeps: "ensure_pcb api st sp = Ok st' \<Longrightarrow> keeps st st'"
  by (auto simp: ensure_pcb_def keep_defs Let_def split: if_splits prod.splits option.splits)

lemma dispatch_keeps: "dispatch_tcp api st iop c = Ok (r, st') \<Longrightarrow> keeps st st'"
  by (cases c) (auto dest: connection_keeps tx_tcp_write_keeps tx_tcp_recv_keeps)

lemma process_tx_op_keeps: "process_tx_op api st iop = Ok (r, st') \<Longrightarrow> keeps st st'"
  by (auto simp: process_tx_op_def Let_def elim!: res_bind_Ok split: if_splits
      intro: keeps_trans [OF ensure_pcb_keeps dispatch_keeps])

lemma complete_operation_keeps: "complete_operation st tx_op r b d = Ok (go_on, d', st') \<Longrightarrow> keeps st st'"
  by (auto simp: complete_operation_def Let_def keep_defs elim!: res_bind_Ok split: if_splits)

text \<open>The value of a call that came to an end without a fault keeps what the value \<open>k\<close> of it says.\<close>

definition settles :: "('a \<Rightarrow> bool) \<Rightarrow> 'a res \<Rightarrow> bool" where
  "settles k r \<longleftrightarrow> (case r of Fault f \<Rightarrow> True | Ok x \<Rightarrow> k x)"

lemma settles_simps [simp]: "settles k (Fault f)" "settles k (Ok x) = k x"
  by (simp_all add: settles_def)

lemma handle_operation_settles:
  assumes "handle_operation api st tx_op scan d = Some res"
  shows "settles (\<lambda>(go_on, d', st'). keeps st st') res"
proof (rule handle_operation.raw_induct [OF _ assms, where P = "\<lambda>api st tx_op scan d. settles (\<lambda>(go_on, d', st'). keeps st st')"])
  fix handle and api :: "('l, 'i) lwip_api" and st tx_op scan d res
  let ?body = "case process_tx_op api st (pr_at (tx_queue st) tx_op) of
        Fault f \<Rightarrow> Some (Fault f)
      | Ok (result, st1) \<Rightarrow>
          if res_code result = NOP \<and> \<not> scan
          then Some (res_bind (prio_ring_erase_first (tx_queue st1))
                 (\<lambda>(ok, q). Ok (True, d, st1\<lparr>tx_queue := q\<rparr>)))
          else if result_code result = PIFUS_TRY_AGAIN
          then if MAX_FULL_SND_BUF_ITERATIONS \<le> full_sndbuf_iterations st1
               then Option.bind (prio_ring_find (tx_queue st1) is_recv_op)
                      (\<lambda>r. case r of None \<Rightarrow> Some (Ok (False, d, st1)) | Some recv_op \<Rightarrow> handle api st1 recv_op True d)
               else Some (Ok (False, d, st1\<lparr>full_sndbuf_iterations := full_sndbuf_iterations st1 + 1\<rparr>))
          else Some (complete_operation st1 tx_op result scan d)"
  assume ih: "\<And>api st tx_op scan d res. handle api st tx_op scan d = Some res \<Longrightarrow> settles (\<lambda>(go_on, d', st'). keeps st st') res"
    and body: "?body = Some res"
  show "settles (\<lambda>(go_on, d', st'). keeps st st') res"
  proof (cases "process_tx_op api st (pr_at (tx_queue st) tx_op)")
    case (Ok x)
    obtain r st1 where x: "x = (r, st1)" by force
    note k = process_tx_op_keeps [OF Ok [unfolded x]]
    have "settles (\<lambda>(go_on, d', st'). keeps st1 st') res"
    proof (cases "\<exists>recv_op. handle api st1 recv_op True d = Some res")
      case False
      then have "res = complete_operation st1 tx_op r scan d \<or> (\<exists>d' n. res = Ok (False, d', st1\<lparr>full_sndbuf_iterations := n\<rparr>))
          \<or> res = Ok (False, d, st1) \<or> res = res_bind (prio_ring_erase_first (tx_queue st1)) (\<lambda>(ok, q). Ok (True, d, st1\<lparr>tx_queue := q\<rparr>))"
        using body by (auto simp: Ok x bind_eq_Some_conv split: if_splits option.splits)
      moreover have "settles (\<lambda>(go_on, d', st'). keeps st1 st') (complete_operation st1 tx_op r scan d)"
        by (cases "complete_operation st1 tx_op r scan d") (auto dest: complete_operation_keeps)
      moreover have "settles (\<lambda>(go_on, d', st'). keeps st1 st')
          (res_bind (prio_ring_erase_first (tx_queue st1)) (\<lambda>(ok, q). Ok (True, d, st1\<lparr>tx_queue := q\<rparr>)))"
        by (cases "prio_ring_erase_first (tx_queue st1)") (auto simp: keep_defs)
      ultimately show ?thesis by (auto simp: keep_defs)
    qed (use ih in blast)
    then show ?thesis using keeps_trans [OF k] by (cases res) auto
  qed (use body in auto)
qed

lemma handle_operation_keeps: "handle_operation api st tx_op scan d = Some (Ok (go_on, d', st')) \<Longrightarrow> keeps st st'"
  using handle_operation_settles by fastforce

text \<open>The callbacks of lwIP.\<close>

definition same_submitter :: "pifus_socket \<Rightarrow> pifus_socket \<Rightarrow> bool" where
  "same_submitter s s' \<longleftrightarrow> submitter s' = submitter s \<and> dequeued_ops s' = dequeued_ops s"

lemma same_submitter_refl [simp]: "same_submitter s s" by (simp add: same_submitter_def)

lemma same_submitter_trans: "same_submitter s s1 \<Longrightarrow> same_submitter s1 s2 \<Longrightarrow> same_submitter s s2"
  by (simp add: same_submitter_def)

lemma same_submitter_cqueue [simp]: "same_submitter s (enqueue_in_cqueue s1 r) = same_submitter s s1"
  by (simp add: same_submitter_def submitter_def)

lemma idle_set_socket: "same_submitter (socket_regions st sp) s \<Longrightarrow> idle st (set_socket st sp s)"
  by (simp add: same_submitter_def idle_def keeps_def)

lemma tcp_sent_callback_settles:
  assumes "tcp_sent_callback s len = Some res"
  shows "settles (\<lambda>(rc, s'). same_submitter s s') res"
proof (rule tcp_sent_callback.raw_induct [OF _ assms, where P = "\<lambda>s len. settles (\<lambda>(rc, s'). same_submitter s s')"], goal_cases)
  case (1 tcp_sent s len res)
  show ?case
  proof (cases "ring_buffer_peek (write_queue s)")
    case None
    with 1(2) show ?thesis by auto
  next
    case (Some i)
    let ?s1 = "enqueue_in_cqueue (s\<lparr>write_queue := snd (ring_buffer_erase_first (write_queue s))\<rparr>)
      \<lparr>res_code = TCP_WRITE, result_code = PIFUS_OK, res_data = Res_Write (wqe_block_offset (write_queue_buffer s ! unat i))\<rparr>"
    have s1: "same_submitter s ?s1" by (simp add: same_submitter_def submitter_def)
    have "settles (\<lambda>(rc, s'). same_submitter ?s1 s') r" if "tcp_sent ?s1 n = Some r" for n r using 1(1) [OF that] .
    then have "settles (\<lambda>(rc, s'). same_submitter s s') r" if "tcp_sent ?s1 n = Some r" for n r
      using that same_submitter_trans [OF s1] by (cases r) fastforce+
    with 1(2) Some s1 show ?thesis by (auto simp: Let_def same_submitter_def submitter_def split: if_splits)
  qed
qed

lemma recv_from_buffer_submitter:
  "recv_from_buffer st blk e = (n, s', m1, e', b) \<Longrightarrow> same_submitter (rs_socket st) s'"
  by (auto simp: recv_from_buffer_def same_submitter_def submitter_def Let_def split: if_splits prod.splits dest!: pop_from_buffer_frame)

lemma recv_round_submitter: "same_submitter (rs_socket st) (rs_socket (recv_round st i))"
  by (auto simp: recv_round_def Let_def split: prod.splits dest!: recv_from_buffer_submitter)
    (simp_all add: same_submitter_def submitter_def)

lemma recv_loop_submitter: "recv_loop st = Some st' \<Longrightarrow> same_submitter (rs_socket st) (rs_socket st')"
proof (rule recv_loop.raw_induct [where P = "\<lambda>st st'. same_submitter (rs_socket st) (rs_socket st')"], goal_cases)
  case (1 loop st st')
  then show ?case
    by (auto split: option.splits if_splits intro: same_submitter_trans [OF recv_round_submitter])
qed

lemma buffer_loop_submitter: "buffer_loop s qs off av acked = (s', av', acked') \<Longrightarrow> same_submitter s s'"
proof (induction s qs off av acked rule: buffer_loop.induct)
  case (2 s q qs off av acked)
  show ?case
  proof (cases "av > 0")
    case True
    obtain n bb arr where a: "byte_buffer_add (recv_buffer s) (recv_buffer_array s) (drop (unat off) (pb_payload q)) (pb_len q - off) = (n, bb, arr)"
      by (metis prod_cases3)
    have s1: "same_submitter s (s\<lparr>recv_buffer := bb, recv_buffer_array := arr\<rparr>)" by (simp add: same_submitter_def submitter_def)
    show ?thesis using "2.prems" "2.IH" [OF True refl a [symmetric] refl] True a s1 same_submitter_trans [OF s1]
      by (auto simp: Let_def split: if_splits)
  qed (use "2.prems" in simp)
qed simp

lemma buffer_rest_submitter: "buffer_rest st = (s', av', acked') \<Longrightarrow> same_submitter (rs_socket st) s'"
  by (auto simp: buffer_rest_def split: if_splits dest: buffer_loop_submitter)

lemma tcp_recv_callback_idle:
  assumes "tcp_recv_callback api st arg tpcb p err = Some (Ok (rc, st'))"
  shows "idle st st'"
proof (cases "st' = st")
  case False
  obtain sp app av nxt off where a: "arg = Some sp" "app_ptrs st ! unat (app_index (socket_regions st sp)) = Some app"
    "recv_begin p (unread_data_offset (socket_regions st sp)) = (av, nxt, off)"
    using assms False by (auto simp: tcp_recv_callback_def Let_def split: option.splits if_splits prod.splits)
  let ?rs = "\<lparr>rs_socket = socket_regions st sp, rs_mem = app_regions st app, rs_next_pbuf = nxt,
    rs_offset = off, rs_available = av, rs_ackable = 0, rs_buffer_empty = byte_buffer_is_empty (recv_buffer (socket_regions st sp))\<rparr>"
  obtain rs where l: "recv_loop ?rs = Some rs"
    using assms False a by (auto simp: tcp_recv_callback_def Let_def bind_eq_Some_conv split: if_splits)
  obtain s2 av2 acked2 where b: "buffer_rest rs = (s2, av2, acked2)" by (metis prod_cases3)
  have "same_submitter (socket_regions st sp) s2"
    using same_submitter_trans [OF recv_loop_submitter [OF l] buffer_rest_submitter [OF b]] by simp
  then show ?thesis
    using assms False a l b by (auto simp: tcp_recv_callback_def Let_def idle_def keeps_def same_submitter_def submitter_def split: if_splits)
qed (simp add: idle_def)

lemma idle_steps:
  "idle st (st\<lparr>app_regions := m\<rparr>)" "idle st (st\<lparr>st_lwip := lw\<rparr>)"
  "idle st (set_socket st sp ((socket_regions st sp)\<lparr>cqueue := rb\<rparr>))"
  "tcp_connected_callback st sp = (rc, st') \<Longrightarrow> idle st st'"
  "tcp_accepted_callback api st sp newpcb = (rc, st') \<Longrightarrow> idle st st'"
  "idle st (set_socket st sp (tcp_err_callback (socket_regions st sp)))"
  by (auto simp: keep_defs tcp_connected_callback_def tcp_accepted_callback_def tcp_err_callback_def Let_def)

section \<open>The invariant\<close>

text \<open>
  The transmit queue is well formed and the counters of every socket are accurate; no socket has more than
  ten unserved operations in the queue. A socket in \<open>S\<close> has its own entry in the table of futex shadows;
  its futex is ahead of the shadow by exactly the number of submissions that wait, so that the wait of its
  thread does not block while one waits.
\<close>

definition waiting_ok :: "'l stack \<Rightarrow> nat \<Rightarrow> bool" where
  "waiting_ok st p \<longleftrightarrow>
     (let s = socket_regions st p
      in rb_inv (squeue s) (squeue_buffer s) \<and> futex_ok st p \<and> (\<forall>op \<in> set (sq_list s). op_code op \<noteq> NOP)
         \<and> unat (squeue_futex s - shadow_of st p) = length (sq_list s))"

definition place :: "'l stack \<Rightarrow> nat \<Rightarrow> u32 \<times> u32" where
  "place st p = (app_index (socket_regions st p), socket_index (socket_regions st p))"

definition system_inv :: "nat set \<Rightarrow> 'l stack \<Rightarrow> bool" where
  "system_inv S st \<longleftrightarrow> pr_inv (tx_queue st) \<and> counted st \<and> (\<forall>p. pending (tx_queue st) p \<le> 10)
     \<and> (\<forall>p \<in> S. waiting_ok st p) \<and> inj_on (place st) S"

lemma waiting_ok_keeps: "keeps st st' \<Longrightarrow> waiting_ok st' p = waiting_ok st p"
  by (simp add: keeps_def submitter_def waiting_ok_def futex_ok_def shadow_of_def futex_shadow_def sq_list_def Let_def)

lemma place_keeps: "keeps st st' \<Longrightarrow> place st' = place st"
  by (auto simp: keeps_def submitter_def place_def)

lemma system_inv_idle: "idle st st' \<Longrightarrow> system_inv S st \<Longrightarrow> system_inv S st'"
  using waiting_ok_keeps [of st st'] place_keeps [of st st']
  by (simp add: system_inv_def idle_def counted_def) (simp add: keeps_def submitter_def)

text \<open>An application submits.\<close>

lemma enqueue_operation_parts:
  assumes "rb_inv (squeue s) (squeue_buffer s)" "enqueue_operation s op = (ok, s')"
  obtains rb buf where "s' = s\<lparr>squeue := rb, squeue_buffer := buf, squeue_futex := squeue_futex s + (if ok then 1 else 0)\<rparr>"
    "rb_inv rb buf" "rb_list rb buf = sq_list s @ (if ok then [op] else [])" "ok = (length (sq_list s) < unat (rb_end (squeue s)) - 1)"
proof -
  obtain rb buf where put: "ring_buffer_put (squeue s) (squeue_buffer s) op = (ok, rb, buf)"
    using assms(2) by (auto simp: enqueue_operation_def Let_def split: prod.splits if_splits)
  have i: "case (squeue s, squeue_buffer s) of (rb, buf) \<Rightarrow> rb_inv rb buf" using assms(1) by simp
  have c: "rbq_put (squeue s, squeue_buffer s) op = (ok, (rb, buf))" using put by simp
  note p = rbq.put_cases [OF i c]
  have "s' = s\<lparr>squeue := rb, squeue_buffer := buf, squeue_futex := squeue_futex s + (if ok then 1 else 0)\<rparr>"
    using assms(2) put by (auto simp: enqueue_operation_def Let_def split: if_splits)
  then show ?thesis using that p by (simp add: sq_list_def rbq_cap_def)
qed

lemma submit_keeps_inv:
  assumes "system_inv S st" "sp \<in> S" "enqueue_operation (socket_regions st sp) op = (ok, s)" "ok \<Longrightarrow> op_code op \<noteq> NOP"
  shows "system_inv S (set_socket st sp s)"
    "sq_list s = sq_list (socket_regions st sp) @ (if ok then [op] else [])"
    "enqueued_ops s = enqueued_ops (socket_regions st sp)"
proof -
  let ?s = "socket_regions st sp" and ?st' = "set_socket st sp s"
  have w: "waiting_ok st sp" using assms(1,2) by (simp add: system_inv_def)
  then have i: "rb_inv (squeue ?s) (squeue_buffer ?s)" by (simp add: waiting_ok_def Let_def)
  obtain rb buf where s: "s = ?s\<lparr>squeue := rb, squeue_buffer := buf, squeue_futex := squeue_futex ?s + (if ok then 1 else 0)\<rparr>"
    and q: "rb_inv rb buf" "rb_list rb buf = sq_list ?s @ (if ok then [op] else [])"
    by (rule enqueue_operation_parts [OF i assms(3)]) blast
  show l: "sq_list s = sq_list ?s @ (if ok then [op] else [])" using q(2) by (simp add: s sq_list_def)
  show e: "enqueued_ops s = enqueued_ops ?s" by (simp add: s)
  have small: "length (sq_list ?s) < 2 ^ 16"
    using rb_count_bound [OF i] unat_less_u16 [of "rb_end (squeue ?s)"] by (simp add: sq_list_def)
  have sh: "shadow_of ?st' p = shadow_of st p" "place ?st' p = place st p" "futex_ok ?st' p = futex_ok st p" for p
    by (simp_all add: shadow_of_def futex_shadow_def place_def futex_ok_def s)
  have f: "unat (squeue_futex s - shadow_of st sp) = length (sq_list s)"
  proof -
    define x where "x = squeue_futex ?s - shadow_of st sp"
    have "squeue_futex s - shadow_of st sp = x + (if ok then 1 else 0)" by (simp add: s x_def)
    moreover have "unat x = length (sq_list ?s)" using w by (simp add: waiting_ok_def Let_def x_def)
    ultimately show ?thesis using small by (simp add: l unat_word_ariths)
  qed
  have "waiting_ok ?st' sp \<longleftrightarrow> rb_inv (squeue s) (squeue_buffer s) \<and> futex_ok st sp
      \<and> (\<forall>op \<in> set (sq_list s). op_code op \<noteq> NOP) \<and> unat (squeue_futex s - shadow_of st sp) = length (sq_list s)"
    by (simp add: waiting_ok_def Let_def sh(1,3))
  moreover have "rb_inv (squeue s) (squeue_buffer s)" using q(1) by (simp add: s)
  moreover have "\<forall>op \<in> set (sq_list s). op_code op \<noteq> NOP" using w assms(4) unfolding l by (auto simp: waiting_ok_def Let_def)
  ultimately have "waiting_ok ?st' sp" using w f by (auto simp: waiting_ok_def Let_def)
  moreover have "waiting_ok ?st' p = waiting_ok st p" if "p \<noteq> sp" for p
    using that sh [of p] by (simp add: waiting_ok_def)
  ultimately have "\<forall>p \<in> S. waiting_ok ?st' p" using assms(1) unfolding system_inv_def by metis
  moreover have "place ?st' = place st" using sh(2) by blast
  moreover have "counted ?st'" using assms(1) by (simp add: system_inv_def counted_def s)
  ultimately show "system_inv S ?st'" using assms(1) by (simp add: system_inv_def)
qed

text \<open>A priority thread moves one operation.\<close>

lemma pending_moved:
  assumes "\<And>r'. pr_list q' r' = pr_list q r' @ (if r' = r then [iop] else [])" "op_code (iop_operation iop) \<noteq> NOP"
  shows "pending q' p = pending q p + (if iop_socket iop = p then 1 else 0)"
  using assms(2) by (cases r) (simp_all add: pending_def pr_all_def assms(1))

lemma in_flight_pending:
  assumes "counted st" "pending (tx_queue st) p \<le> 10"
  shows "in_flight (socket_regions st p) = pending (tx_queue st) p"
  using assms by (simp add: in_flight_def counted_def unat_of_nat)

lemma move_keeps_inv:
  assumes inv: "system_inv S st" and sp: "sp \<in> S" and room: "\<not> has_socket_max_parallel_ops (socket_regions st sp)"
    and mv: "move_operation r st sp = Some st'"
  shows "system_inv S st'" "sq_list (socket_regions st sp) = hd (sq_list (socket_regions st sp)) # sq_list (socket_regions st' sp)"
    "enqueued_ops (socket_regions st' p) = enqueued_ops (socket_regions st p) + (if p = sp then 1 else 0)"
    "p \<noteq> sp \<Longrightarrow> sq_list (socket_regions st' p) = sq_list (socket_regions st p)"
proof -
  let ?s = "socket_regions st sp"
  have w: "\<And>p. p \<in> S \<Longrightarrow> waiting_ok st p" and i: "pr_inv (tx_queue st)" "counted st" "\<And>p. pending (tx_queue st) p \<le> 10" "inj_on (place st) S"
    using inv by (auto simp: system_inv_def)
  have pre: "move_pre st sp" using w [OF sp] i(1) by (simp add: move_pre_def waiting_ok_def Let_def)
  have ne: "sq_list ?s \<noteq> []" and m: "moved r 1 st sp st'"
    using move_operation_spec [OF pre, of r] mv by (auto split: if_splits)
  obtain q rb fut where st': "st' = move_upd st sp 1 q rb fut" and t: "moved_to r 1 st sp q rb fut"
    using m by (auto simp: moved_def)
  note v = moved_views [OF m pre]
  show "sq_list ?s = hd (sq_list ?s) # sq_list (socket_regions st' sp)" using v(2) ne by (cases "sq_list ?s") simp_all
  show "enqueued_ops (socket_regions st' p) = enqueued_ops (socket_regions st p) + (if p = sp then 1 else 0)" for p
    by (simp add: st' move_upd_def)
  show "p \<noteq> sp \<Longrightarrow> sq_list (socket_regions st' p) = sq_list (socket_regions st p)" for p
    by (simp add: st' move_upd_def)
  have nop: "op_code (hd (sq_list ?s)) \<noteq> NOP" using w [OF sp] ne by (auto simp: waiting_ok_def Let_def)
  have pend: "pending q p = pending (tx_queue st) p + (if p = sp then 1 else 0)" for p
  proof -
    have "take 1 (sq_list ?s) = [hd (sq_list ?s)]" using ne by (cases "sq_list ?s") simp_all
    then have "pr_list q r' = pr_list (tx_queue st) r' @
        (if r' = r then [\<lparr>iop_operation = hd (sq_list ?s), iop_socket = sp\<rparr>] else [])" for r'
      using t by (simp add: moved_to_def Let_def)
    from pending_moved [OF this, of p] nop show ?thesis by auto
  qed
  have c: "counted st'"
    using i(2) by (auto simp: counted_def pend st' move_upd_def algebra_simps)
  have lt: "pending (tx_queue st) sp < 10"
    using room in_flight_pending [OF i(2,3)] by (simp add: max_parallel_iff)
  have p10: "\<forall>p. pending (tx_queue st') p \<le> 10" using i(3) lt by (auto simp: pend st' move_upd_def)
  have pl: "place st' p = place st p" for p by (simp add: place_def st' move_upd_def)
  have "waiting_ok st' sp"
  proof -
    have e: "squeue_futex (socket_regions st' sp) - shadow_of st' sp = (squeue_futex ?s - shadow_of st sp) - 1"
      using v(7) by (simp add: st' move_upd_def)
    have "unat (squeue_futex ?s - shadow_of st sp) = length (sq_list ?s)" "length (sq_list ?s) > 0"
      using w [OF sp] ne by (simp_all add: waiting_ok_def Let_def)
    then have "unat (squeue_futex (socket_regions st' sp) - shadow_of st' sp) = length (sq_list ?s) - 1"
      unfolding e by (subst unat_minus_one) (auto simp: unat_gt_0)
    then have "unat (squeue_futex (socket_regions st' sp) - shadow_of st' sp) = length (sq_list (socket_regions st' sp))"
      using v(2) by (simp del: length_rb_list)
    moreover have "set (sq_list (socket_regions st' sp)) \<subseteq> set (sq_list ?s)" using v(2) set_drop_subset by metis
    ultimately show ?thesis using v(1) w [OF sp] by (auto simp: waiting_ok_def move_pre_def Let_def)
  qed
  moreover have "waiting_ok st' p" if "p \<in> S" "p \<noteq> sp" for p
  proof -
    have "place st p \<noteq> place st sp" using i(4) that sp by (auto simp: inj_on_def)
    then have d: "(unat (app_index (socket_regions st p)), unat (socket_index (socket_regions st p)))
        \<noteq> (unat (app_index ?s), unat (socket_index ?s))" by (simp add: place_def word_eq_iff_unat)
    have "map length fut = map length (socket_futexes st)" using t by (simp add: moved_to_def Let_def)
    then have "length fut = length (socket_futexes st)" "\<And>x. x < length fut \<Longrightarrow> length (fut ! x) = length (socket_futexes st ! x)"
      by (metis length_map, metis length_map nth_map)
    moreover have "shadow_of st' p = shadow_of st p"
      using t d that(2) by (simp add: shadow_of_def futex_shadow_def st' move_upd_def moved_to_def Let_def)
    ultimately show ?thesis using w [OF that(1)] that(2)
      by (auto simp: waiting_ok_def futex_ok_def Let_def st' move_upd_def)
  qed
  moreover have "inj_on (place st') S" using i(4) by (simp add: inj_on_def pl)
  ultimately show "system_inv S st'" using v(1) c p10 by (auto simp: system_inv_def move_pre_def)
qed

text \<open>The main loop serves one operation.\<close>

lemma serve_keeps_inv:
  assumes inv: "system_inv S st" and pk: "prio_ring_peek (tx_queue st) = (Some tx_op, q)"
    and h: "handle_operation api (st\<lparr>tx_queue := q\<rparr>) tx_op False d = Some (Ok (go_on, d', st'))"
  shows "system_inv S st'" "keeps st st'"
proof -
  have i: "pr_inv (tx_queue st)" "counted st" using inv by (auto simp: system_inv_def)
  obtain r where r: "pr_top (tx_queue st) = Some r" "tx_op = (r, rb_tail (pr_ring (tx_queue st) r))" "q = (tx_queue st)\<lparr>last_peek := Some r\<rparr>"
    using pk prio_ring_peek_spec [OF i(1)] by (auto split: option.splits)
  let ?st1 = "st\<lparr>tx_queue := q\<rparr>"
  have pre: "pr_inv (tx_queue ?st1)" "pr_top (tx_queue ?st1) = Some r" "last_peek (tx_queue ?st1) = Some r"
    using i(1) r by simp_all
  have all: "pr_all q = pr_all (tx_queue st)" by (simp add: r(3))
  have c1: "counted ?st1" "\<And>p. pending (tx_queue ?st1) p = pending (tx_queue st) p"
    using i(2) by (simp_all add: counted_def pending_def all)
  have k1: "keeps st ?st1" by (simp add: keeps_def)
  show k: "keeps st st'" by (rule keeps_trans [OF k1 handle_operation_keeps [OF h]])
  have "good_outcome ?st1 (Ok (go_on, d', st'))"
    using handle_operation_head [OF pre, of api d] h by (simp add: r(2,3))
  then have "pr_inv (tx_queue st')" "counted st'" "\<And>p. pending (tx_queue st') p \<le> pending (tx_queue st) p"
    using c1 by (auto simp: good_outcome_def)
  then show "system_inv S st'" using inv waiting_ok_keeps [OF k] place_keeps [OF k]
    by (auto simp: system_inv_def intro: order_trans)
qed

section \<open>Runs\<close>

lemma system_step_inv:
  assumes "system_step api S st e st'" "system_inv S st"
  shows "system_inv S st'"
    "p \<in> S \<Longrightarrow> sq_list (socket_regions st p) @ submitted_by p [e] = moved_of p [e] @ sq_list (socket_regions st' p)"
    "enqueued_ops (socket_regions st' p) = enqueued_ops (socket_regions st p) + of_nat (length (moved_of p [e]))"
proof -
  have idle: "system_inv S st' \<and> (p \<in> S \<longrightarrow> sq_list (socket_regions st p) @ submitted_by p [e] = moved_of p [e] @ sq_list (socket_regions st' p))
      \<and> enqueued_ops (socket_regions st' p) = enqueued_ops (socket_regions st p) + of_nat (length (moved_of p [e]))"
    if "idle st st'" "e = Internal"
    using system_inv_idle [OF that(1) assms(2)] that
    by (simp add: idle_def keeps_def submitter_def sq_list_def)
  have "system_inv S st' \<and> (p \<in> S \<longrightarrow> sq_list (socket_regions st p) @ submitted_by p [e] = moved_of p [e] @ sq_list (socket_regions st' p))
      \<and> enqueued_ops (socket_regions st' p) = enqueued_ops (socket_regions st p) + of_nat (length (moved_of p [e]))"
    using assms(1)
  proof (cases rule: system_step.cases)
    case (submit sp op s)
    note k = submit_keeps_inv [OF assms(2) submit(3) submit(5) submit(4)]
    show ?thesis using k by (simp add: submit(1,2))
  next
    case (refuse sp op s)
    note k = submit_keeps_inv [OF assms(2) refuse(4) refuse(3)]
    show ?thesis using k by (simp add: refuse(1,2))
  next
    case (collect sp x rb)
    show ?thesis by (rule idle) (simp_all only: collect(1,2) idle_steps)
  next
    case (memory m)
    show ?thesis by (rule idle) (simp_all only: memory idle_steps)
  next
    case (move sp r)
    note k = move_keeps_inv [OF assms(2) move(2,4,5)]
    show ?thesis using k(1) k(2) k(3) [of p] k(4) [of p] by (simp add: move(1))
  next
    case (serve tx_op q d go_on d')
    note k = serve_keeps_inv [OF assms(2) serve(2,3)]
    show ?thesis using k by (simp add: serve(1) keeps_def submitter_def sq_list_def)
  next
    case (received arg tpcb pb err rc)
    show ?thesis by (rule idle [OF tcp_recv_callback_idle [OF received(2)] received(1)])
  next
    case (sent sp len rc s)
    have "same_submitter (socket_regions st sp) s" using tcp_sent_callback_settles [OF sent(3)] by simp
    then show ?thesis by (intro idle) (simp_all only: sent(1,2) idle_set_socket)
  next
    case (connected sp rc)
    show ?thesis by (rule idle [OF idle_steps(4) [OF connected(2)] connected(1)])
  next
    case (accepted sp newpcb rc)
    show ?thesis by (rule idle [OF idle_steps(5) [OF accepted(2)] accepted(1)])
  next
    case (failed sp)
    show ?thesis by (rule idle) (simp_all only: failed idle_steps)
  next
    case (network lw)
    show ?thesis by (rule idle) (simp_all only: network idle_steps)
  qed
  then show "system_inv S st'"
    "p \<in> S \<Longrightarrow> sq_list (socket_regions st p) @ submitted_by p [e] = moved_of p [e] @ sq_list (socket_regions st' p)"
    "enqueued_ops (socket_regions st' p) = enqueued_ops (socket_regions st p) + of_nat (length (moved_of p [e]))" by blast+
qed

lemma system_run_inv:
  assumes "system_run api S st0 es st" "system_inv S st0"
  shows "system_inv S st \<and> (p \<in> S \<longrightarrow> sq_list (socket_regions st0 p) @ submitted_by p es = moved_of p es @ sq_list (socket_regions st p))
     \<and> enqueued_ops (socket_regions st p) = enqueued_ops (socket_regions st0 p) + of_nat (length (moved_of p es))"
  using assms
proof (induction rule: system_run.induct)
  case (step es st e st')
  note ih = step.IH [OF step.prems]
  note s = system_step_inv [OF step.hyps(2) conjunct1 [OF ih]]
  have "sq_list (socket_regions st0 p) @ submitted_by p (es @ [e]) = moved_of p (es @ [e]) @ sq_list (socket_regions st' p)" if "p \<in> S"
  proof -
    have "sq_list (socket_regions st0 p) @ submitted_by p (es @ [e]) = moved_of p es @ sq_list (socket_regions st p) @ submitted_by p [e]"
      using ih that by simp
    also have "\<dots> = moved_of p es @ moved_of p [e] @ sq_list (socket_regions st' p)" using s(2) [OF that] by simp
    finally show ?thesis by simp
  qed
  then show ?case using ih s(1,3) by simp
qed simp

text \<open>The stack when its threads start: nothing is submitted, queued or counted.\<close>

definition system_start :: "nat set \<Rightarrow> 'l stack \<Rightarrow> bool" where
  "system_start S st \<longleftrightarrow> pr_inv (tx_queue st) \<and> pr_all (tx_queue st) = [] \<and> inj_on (place st) S
     \<and> (\<forall>p. enqueued_ops (socket_regions st p) = 0 \<and> dequeued_ops (socket_regions st p) = 0)
     \<and> (\<forall>p \<in> S. rb_inv (squeue (socket_regions st p)) (squeue_buffer (socket_regions st p)) \<and> futex_ok st p
          \<and> sq_list (socket_regions st p) = [] \<and> squeue_futex (socket_regions st p) = shadow_of st p)"

lemma system_start_inv: "system_start S st \<Longrightarrow> system_inv S st"
  by (simp add: system_start_def system_inv_def counted_def pending_def waiting_ok_def Let_def del: length_rb_list)

text \<open>
  C3. However the applications, the priority threads, the main loop and lwIP interleave: no submitted operation
  is lost, duplicated or overtaken on its way to the transmit queue, the counters of a socket count exactly
  its operations that moved and those still unserved, of which there are at most ten, and the futex its
  thread waits on differs from the thread's shadow exactly as long as submissions wait.
\<close>

theorem operations_never_lost:
  assumes "system_start S st0" "system_run api S st0 es st" "p \<in> S"
  shows "let s = socket_regions st p in
       submitted_by p es = moved_of p es @ sq_list s
     \<and> enqueued_ops s = of_nat (length (moved_of p es)) \<and> in_flight s = pending (tx_queue st) p \<and> in_flight s \<le> 10
     \<and> unat (squeue_futex s - shadow_of st p) = length (sq_list s)
     \<and> (squeue_futex s = shadow_of st p \<longleftrightarrow> sq_list s = [])"
proof -
  note r = system_run_inv [OF assms(2) system_start_inv [OF assms(1)], of p]
  have inv: "counted st" "pending (tx_queue st) p \<le> 10" "waiting_ok st p"
    using r assms(3) by (auto simp: system_inv_def)
  have f: "unat (squeue_futex (socket_regions st p) - shadow_of st p) = length (sq_list (socket_regions st p))"
    using inv(3) by (simp add: waiting_ok_def Let_def)
  have "squeue_futex (socket_regions st p) = shadow_of st p \<longleftrightarrow> sq_list (socket_regions st p) = []"
    using f by (auto simp del: length_rb_list simp: unat_eq_0)
  then show ?thesis using r assms(1,3) f in_flight_pending [OF inv(1,2)] inv(2)
    by (simp add: Let_def system_start_def del: length_rb_list)
qed

text \<open>Submitting to an open queue and moving what was submitted are possible.\<close>

lemma submit_possible:
  assumes "system_inv S st" "sp \<in> S" "op_code op \<noteq> NOP" "length (sq_list (socket_regions st sp)) < unat (rb_end (squeue (socket_regions st sp))) - 1"
  obtains s where "enqueue_operation (socket_regions st sp) op = (True, s)" "system_step api S st (Submitted sp op) (set_socket st sp s)"
proof -
  have i: "rb_inv (squeue (socket_regions st sp)) (squeue_buffer (socket_regions st sp))"
    using assms(1,2) by (simp add: system_inv_def waiting_ok_def Let_def)
  obtain ok s where e: "enqueue_operation (socket_regions st sp) op = (ok, s)" by force
  have "ok" by (rule enqueue_operation_parts [OF i e]) (use assms(4) in blast)
  with e that system_step.submit [where api = api, OF assms(2,3)] show ?thesis by simp
qed

lemma move_possible:
  assumes "system_inv S st" "sp \<in> S" "sq_list (socket_regions st sp) \<noteq> []" "pr_room (tx_queue st) r \<noteq> 0"
    and "in_flight (socket_regions st sp) < 10"
  obtains st' where "system_step api S st (Moved sp (hd (sq_list (socket_regions st sp)))) st'"
proof -
  have w: "waiting_ok st sp" "pr_inv (tx_queue st)" using assms(1,2) by (auto simp: system_inv_def)
  then have pre: "move_pre st sp" by (simp add: move_pre_def waiting_ok_def Let_def)
  obtain st' where st': "move_operation r st sp = Some st'" using move_operation_spec [OF pre, of r] assms(3,4) by auto
  have "squeue_futex (socket_regions st sp) \<noteq> shadow_of st sp"
    using w(1) assms(3) by (auto simp: waiting_ok_def Let_def simp del: length_rb_list)
  with that system_step.move [where api = api, OF assms(2) _ _ st'] assms(5) show ?thesis by (simp add: max_parallel_iff)
qed

definition idle_stack :: "unit stack" where
  "idle_stack = demo_stack\<lparr>tx_queue := pr_demo\<lparr>high_prio_queue := \<lparr>rb_end = 3, rb_head = 0, rb_tail = 0\<rparr>,
     low_prio_queue := \<lparr>rb_end = 3, rb_head = 0, rb_tail = 0\<rparr>\<rparr>\<rparr>"

lemma idle_stack_start: "system_start {7} idle_stack" "sq_list (socket_regions idle_stack 7) = []"
  "unat (rb_end (squeue (socket_regions idle_stack 7))) = 4" "pr_room (tx_queue idle_stack) Medium = 2"
  by (simp_all add: system_start_def idle_stack_def demo_stack_def pr_inv_def pr_all_def pr_list_def pr_demo_def Let_def
      rb_inv_def demo_socket_def zero_socket_def futex_ok_def shadow_of_def futex_shadow_def ring_buffer_create_def pr_room_def
      sq_list_def rb_list_def rb_count_def ring_count_def)

theorem operations_never_lost_witness:
  "\<exists>st. system_run demo_api {7} idle_stack [Submitted 7 \<lparr>op_code = TCP_LISTEN, op_data = Listen_Data 1\<rparr>,
       Moved 7 \<lparr>op_code = TCP_LISTEN, op_data = Listen_Data 1\<rparr>] st
     \<and> enqueued_ops (socket_regions st 7) = 1 \<and> in_flight (socket_regions st 7) = pending (tx_queue st) 7
     \<and> squeue_futex (socket_regions st 7) = shadow_of st 7"
proof -
  let ?op = "\<lparr>op_code = TCP_LISTEN, op_data = Listen_Data 1\<rparr>"
  note inv = system_start_inv [OF idle_stack_start(1)]
  obtain s where s: "enqueue_operation (socket_regions idle_stack 7) ?op = (True, s)"
    "system_step demo_api {7} idle_stack (Submitted 7 ?op) (set_socket idle_stack 7 s)"
    by (rule submit_possible [OF inv, of 7 ?op demo_api]) (use idle_stack_start(2,3) in auto)
  let ?st = "set_socket idle_stack 7 s"
  have run: "system_run demo_api {7} idle_stack [Submitted 7 ?op] ?st" using system_run.step [OF system_run.start s(2)] by simp
  note k = submit_keeps_inv [OF inv _ s(1)]
  have st: "system_inv {7} ?st" "sq_list (socket_regions ?st 7) = [?op]" using k idle_stack_start(2) by simp_all
  have "in_flight (socket_regions ?st 7) < 10"
    using operations_never_lost [OF idle_stack_start(1) run, of 7] st(2) in_flight_pending [of ?st 7] st(1) idle_stack_start(1)
    by (simp add: Let_def system_inv_def system_start_def pending_def)
  then obtain st' where m: "system_step demo_api {7} ?st (Moved 7 ?op) st'"
    using move_possible [OF st(1), of 7 Medium demo_api] st(2) idle_stack_start(4) by auto
  have run': "system_run demo_api {7} idle_stack [Submitted 7 ?op, Moved 7 ?op] st'"
    using system_run.step [OF run m] by simp
  show ?thesis using operations_never_lost [OF idle_stack_start(1) run', of 7] run' by (auto simp: Let_def)
qed

section \<open>Progress of the main loop\<close>

text \<open>lwIP always has room for a write, so that no operation asks to be tried again.\<close>

definition accepts_writes :: "('l, 'i) lwip_api \<Rightarrow> bool" where
  "accepts_writes api \<longleftrightarrow> (\<forall>lw p d n f. fst (lw_tcp_write api lw p d n f) \<noteq> ERR_MEM)"

lemma write_not_again:
  assumes "accepts_writes api" "tx_tcp_write api st iop = Ok ((rc, d), st')"
  shows "rc \<noteq> PIFUS_TRY_AGAIN"
proof -
  have "fst (lw_tcp_write api lw p dt n f) \<noteq> ERR_MEM" for lw p dt n f
    using assms(1) unfolding accepts_writes_def by blast
  then have "lw_tcp_write api lw p dt n f = (e, lw') \<Longrightarrow> e \<noteq> ERR_MEM" for lw p dt n f e lw' by (metis fst_conv)
  then show ?thesis using assms(2)
    by (auto simp: tx_tcp_write_def Let_def split: if_splits option.splits prod.splits)
qed

lemma process_not_again:
  assumes "accepts_writes api" "process_tx_op api st iop = Ok (r, st')"
  shows "result_code r \<noteq> PIFUS_TRY_AGAIN"
proof
  assume t: "result_code r = PIFUS_TRY_AGAIN"
  note c = process_tx_op_spec(3) [OF assms(2) t]
  from assms(2) t c obtain st1 where "dispatch_tcp api st1 iop TCP_WRITE = Ok ((PIFUS_TRY_AGAIN, res_data r), st')"
    by (auto simp: process_tx_op_def Let_def elim!: res_bind_Ok split: if_splits)
  with write_not_again [OF assms(1)] show False by fastforce
qed

lemma handle_removes_head:
  assumes "pr_inv (tx_queue st)" "pr_top (tx_queue st) = Some r" "last_peek (tx_queue st) = Some r" "accepts_writes api"
    and "handle_operation api st (r, rb_tail (pr_ring (tx_queue st) r)) False d = Some (Ok (go_on, d', st'))"
  shows "go_on \<and> pr_inv (tx_queue st') \<and> pr_all (tx_queue st') = tl (pr_all (tx_queue st)) \<and> (d' = d \<or> d' = d + 1)"
proof -
  let ?p = "(r, rb_tail (pr_ring (tx_queue st) r))"
  obtain res st1 where p: "process_tx_op api st (pr_at (tx_queue st) ?p) = Ok (res, st1)"
    using assms(5) by (cases "process_tx_op api st (pr_at (tx_queue st) ?p)") (auto simp: handle_operation.simps [of api st])
  note h = handle_operation.simps [of api st ?p False d, unfolded p res.case prod.case]
  have q: "tx_queue st1 = tx_queue st" using process_tx_op_spec(1) [OF p] by (simp add: tx_frame_def)
  note pre = assms(1-3) [folded q]
  have "result_code res \<noteq> PIFUS_TRY_AGAIN" by (rule process_not_again [OF assms(4) p])
  then consider "res_code res = NOP" "handle_operation api st ?p False d = Some (res_bind (prio_ring_erase_first (tx_queue st1))
      (\<lambda>(ok, q). Ok (True, d, st1\<lparr>tx_queue := q\<rparr>)))"
    | "handle_operation api st ?p False d = Some (complete_operation st1 ?p res False d)"
    using h by (cases "res_code res = NOP") auto
  then show ?thesis
  proof cases
    case 1
    have "pr_list (tx_queue st) r \<noteq> []" using pr_top_all(2) [OF assms(2)] by blast
    from prio_ring_erase_spec [OF assms(1,3) this] obtain q' where q': "prio_ring_erase_first (tx_queue st) = Ok (True, q')"
      "pr_inv q'" "\<And>r'. pr_list q' r' = (if r' = r then tl (pr_list (tx_queue st) r) else pr_list (tx_queue st) r')" by blast
    with 1 assms(5) q pr_top_tl_all [OF assms(2) q'(3)] show ?thesis by auto
  next
    case 2
    with complete_head [OF pre, of res d] assms(5) q show ?thesis by auto
  qed
qed

text \<open>NOPs never fault.\<close>

lemma nops_handled:
  assumes "pr_inv (tx_queue st)" "\<forall>iop \<in> set (pr_all (tx_queue st)). op_code (iop_operation iop) = NOP"
  shows "\<exists>st'. lwip_loop api st d = Some (Ok st')"
  using assms
proof (induction "length (pr_all (tx_queue st))" arbitrary: st rule: less_induct)
  case less
  note pk = prio_ring_peek_spec [OF less.prems(1)]
  show ?case
  proof (cases "d < 50 \<and> pr_top (tx_queue st) \<noteq> None")
    case False
    then show ?thesis using pk by (auto simp: lwip_loop.simps [of api st d] MAX_DEQUEUES_PER_ITERATION_def)
  next
    case True
    then obtain r where r: "pr_top (tx_queue st) = Some r" "d < 50" by auto
    define st1 where "st1 = st\<lparr>tx_queue := (tx_queue st)\<lparr>last_peek := Some r\<rparr>\<rparr>"
    have pre: "pr_inv (tx_queue st1)" "pr_top (tx_queue st1) = Some r" "last_peek (tx_queue st1) = Some r"
      "pr_all (tx_queue st1) = pr_all (tx_queue st)"
      using less.prems(1) r(1) by (simp_all add: st1_def)
    have ne: "pr_all (tx_queue st) \<noteq> []" using r(1) pr_top_all(1) [of "tx_queue st"] by auto
    then have "hd (pr_all (tx_queue st1)) \<in> set (pr_all (tx_queue st))" by (simp add: pre(4))
    then have c: "op_code (iop_operation (pr_at (tx_queue st1) (r, rb_tail (pr_ring (tx_queue st1) r)))) = NOP"
      using less.prems(2) pr_top_slot(3) [OF pre(1,2)] by simp
    have "pr_list (tx_queue st1) r \<noteq> []" using pr_top_all(2) [OF pre(2)] by blast
    from prio_ring_erase_spec [OF pre(1,3) this] obtain q' where q': "prio_ring_erase_first (tx_queue st1) = Ok (True, q')"
      "pr_inv q'" "\<And>r'. pr_list q' r' = (if r' = r then tl (pr_list (tx_queue st1) r) else pr_list (tx_queue st1) r')" by blast
    have h: "handle_operation api st1 (r, rb_tail (pr_ring (tx_queue st1) r)) False d = Some (Ok (True, d, st1\<lparr>tx_queue := q'\<rparr>))"
      by (simp add: handle_operation.simps [of api st1] process_tx_op_def c q'(1))
    have all: "pr_all q' = tl (pr_all (tx_queue st))" using pr_top_tl_all [OF pre(2) q'(3)] pre(4) by simp
    have "\<exists>st'. lwip_loop api (st1\<lparr>tx_queue := q'\<rparr>) d = Some (Ok st')"
      by (rule less.hyps) (use ne q'(2) less.prems(2) in \<open>auto simp: all dest: list.set_sel(2) [rotated]\<close>)
    with h r pk show ?thesis by (simp add: lwip_loop.simps [of api st d] MAX_DEQUEUES_PER_ITERATION_def st1_def)
  qed
qed

lemma lwip_loop_drains:
  assumes "accepts_writes api" "pr_inv (tx_queue st)" "lwip_loop api st d = Some (Ok st')"
  shows "\<exists>k. pr_inv (tx_queue st') \<and> pr_all (tx_queue st') = drop k (pr_all (tx_queue st))
     \<and> (pr_all (tx_queue st') = [] \<or> 50 \<le> unat d + k)"
  using assms(2,3)
proof (induction "length (pr_all (tx_queue st))" arbitrary: st d rule: less_induct)
  case less
  note pk = prio_ring_peek_spec [OF less.prems(1)]
  show ?case
  proof (cases "d < 50 \<and> pr_top (tx_queue st) \<noteq> None")
    case False
    then have "tx_queue st' = tx_queue st" "pr_all (tx_queue st) = [] \<or> 50 \<le> unat d"
      using less.prems(2) pk pr_top_all(1) [of "tx_queue st"]
      by (auto simp: lwip_loop.simps [of api st d] MAX_DEQUEUES_PER_ITERATION_def word_less_nat_alt split: if_splits)
    then show ?thesis using less.prems(1) by (intro exI [of _ 0]) auto
  next
    case True
    then obtain r where r: "pr_top (tx_queue st) = Some r" "d < 50" by auto
    define st1 where "st1 = st\<lparr>tx_queue := (tx_queue st)\<lparr>last_peek := Some r\<rparr>\<rparr>"
    have all: "pr_all (tx_queue st1) = pr_all (tx_queue st)" by (simp add: st1_def)
    have pre: "pr_inv (tx_queue st1)" "pr_top (tx_queue st1) = Some r" "last_peek (tx_queue st1) = Some r"
      using less.prems(1) r(1) by (simp_all add: st1_def)
    have tx_op: "(r, rb_tail (pr_ring (tx_queue st) r)) = (r, rb_tail (pr_ring (tx_queue st1) r))" by (simp add: st1_def)
    obtain y where y: "handle_operation api st1 (r, rb_tail (pr_ring (tx_queue st1) r)) False d = Some y"
      "(case y of Fault f \<Rightarrow> Some (Fault f) | Ok (go_on, d2, st2) \<Rightarrow> if go_on then lwip_loop api st2 d2 else Some (Ok st2)) = Some (Ok st')"
      using less.prems(2) r pk
      by (auto simp: lwip_loop.simps [of api st d] MAX_DEQUEUES_PER_ITERATION_def st1_def bind_eq_Some_conv)
    then obtain go_on d2 st2 where h: "handle_operation api st1 (r, rb_tail (pr_ring (tx_queue st1) r)) False d = Some (Ok (go_on, d2, st2))"
      and l: "(if go_on then lwip_loop api st2 d2 else Some (Ok st2)) = Some (Ok st')"
      by (cases y) auto
    from handle_removes_head [OF pre assms(1) h] all
    have s: "go_on" "pr_inv (tx_queue st2)" "pr_all (tx_queue st2) = tl (pr_all (tx_queue st))" "d2 = d \<or> d2 = d + 1" by auto
    have ne: "pr_all (tx_queue st) \<noteq> []" using r(1) pr_top_all(1) [of "tx_queue st"] by auto
    then have "length (pr_all (tx_queue st2)) < length (pr_all (tx_queue st))" by (simp add: s(3))
    have "lwip_loop api st2 d2 = Some (Ok st')" using l s(1) by simp
    from less.hyps [OF \<open>length (pr_all (tx_queue st2)) < length (pr_all (tx_queue st))\<close> s(2) this] obtain k where k: "pr_inv (tx_queue st')" "pr_all (tx_queue st') = drop k (pr_all (tx_queue st2))"
      "pr_all (tx_queue st') = [] \<or> 50 \<le> unat d2 + k" by blast
    have "unat d2 \<le> unat d + 1" using s(4) r(2) by (auto simp: unat_word_ariths word_less_nat_alt)
    with k s(3) show ?thesis by (intro exI [of _ "Suc k"]) (auto simp: drop_Suc)
  qed
qed

text \<open>
  C4. As long as lwIP takes the writes, every iteration of the main loop serves the transmit queue from its
  front: at least fifty entries, or all there are. A queue that no thread fills meanwhile is empty after
  one iteration for every fifty operations in it.
\<close>

theorem main_loop_drains:
  assumes "accepts_writes api" "pr_inv (tx_queue (sts 0))"
    and "\<And>i. i < n \<Longrightarrow> lwip_loop_iteration api (sts i) = Some (Ok (sts (Suc i)))"
  shows "(\<exists>k. pr_all (tx_queue (sts n)) = drop k (pr_all (tx_queue (sts 0))) \<and> (pr_all (tx_queue (sts n)) = [] \<or> 50 * n \<le> k))
     \<and> (length (pr_all (tx_queue (sts 0))) \<le> 50 * n \<longrightarrow> pr_all (tx_queue (sts n)) = [])"
proof -
  have "\<exists>k. pr_inv (tx_queue (sts n)) \<and> pr_all (tx_queue (sts n)) = drop k (pr_all (tx_queue (sts 0)))
      \<and> (pr_all (tx_queue (sts n)) = [] \<or> 50 * n \<le> k)"
    using assms(3)
  proof (induction n)
    case 0
    then show ?case using assms(2) by (intro exI [of _ 0]) simp
  next
    case (Suc n)
    then obtain k where k: "pr_inv (tx_queue (sts n))" "pr_all (tx_queue (sts n)) = drop k (pr_all (tx_queue (sts 0)))"
      "pr_all (tx_queue (sts n)) = [] \<or> 50 * n \<le> k" by (metis less_Suc_eq)
    have "lwip_loop api (sts n) 0 = Some (Ok (sts (Suc n)))" using Suc.prems [of n] by (simp add: lwip_loop_iteration_def)
    from lwip_loop_drains [OF assms(1) k(1) this] obtain j where
      "pr_inv (tx_queue (sts (Suc n)))" "pr_all (tx_queue (sts (Suc n))) = drop j (pr_all (tx_queue (sts n)))"
      "pr_all (tx_queue (sts (Suc n))) = [] \<or> 50 \<le> j" by auto
    then show ?case using k(2,3) by (intro exI [of _ "j + k"]) auto
  qed
  then show ?thesis by auto
qed

text \<open>The small stack with writes accepted and three entries in its queue.\<close>

definition open_api :: "(unit, unit) lwip_api" where
  "open_api = demo_api\<lparr>lw_tcp_write := (\<lambda>l p d n f. (ERR_OK, l))\<rparr>"

theorem main_loop_drains_witness:
  "\<exists>st'. lwip_loop_iteration open_api demo_stack = Some (Ok st') \<and> length (pr_all (tx_queue demo_stack)) = 3 \<and> pr_all (tx_queue st') = []"
proof -
  have len: "length (pr_all (tx_queue demo_stack)) = 3"
    using arg_cong [OF pr_demo_views(4), of length] by (simp add: demo_stack_def)
  have nop: "\<forall>iop \<in> set (pr_all (tx_queue demo_stack)). op_code (iop_operation iop) = NOP"
    by (simp add: demo_stack_def pr_all_def pr_demo_def Let_def pr_list_def rb_list_def rb_count_def ring_count_def ring_view_def upt_rec)
  have inv: "pr_inv (tx_queue demo_stack)" by (simp add: demo_stack_def pr_demo_views)
  obtain st' where st': "lwip_loop_iteration open_api demo_stack = Some (Ok st')"
    using nops_handled [OF inv nop, of open_api 0] by (auto simp: lwip_loop_iteration_def)
  define sts where "sts = (\<lambda>i :: nat. if i = 0 then demo_stack else st')"
  have "accepts_writes open_api" by (simp add: accepts_writes_def open_api_def)
  from main_loop_drains [OF this, of sts 1] inv st' len show ?thesis by (auto simp: sts_def)
qed

end
