(* ===== verification/Result_Types.thy ===== *)
theory Result_Types
  imports Stack_Steps
begin

text \<open>
  The union in \<open>struct pifus_operation_result\<close> (\<open>api/include/pifus_operation.h\<close>) is read by the member that the
  operation code stands for. Every result the stack delivers has that member written, in every interleaving, so
  no application reads a member that was not.
\<close>

section \<open>Results and their members\<close>

fun tag_fits :: "operation_code \<Rightarrow> result_code \<Rightarrow> res_data \<Rightarrow> bool" where
  "tag_fits TCP_WRITE rc d = (case d of Res_Write off \<Rightarrow> True | _ \<Rightarrow> False)"
| "tag_fits TCP_RECV rc d = (case d of Res_Recv off sz mb db \<Rightarrow> True | _ \<Rightarrow> False)"
| "tag_fits UDP_RECV rc d = (case d of Res_Recv off sz mb db \<Rightarrow> True | _ \<Rightarrow> False)"
| "tag_fits TCP_ACCEPT rc d = (rc = PIFUS_OK \<longrightarrow> (case d of Res_Accept s tcp_pcb \<Rightarrow> True | _ \<Rightarrow> False))"
| "tag_fits c rc d = True"

definition well_tagged :: "operation_result \<Rightarrow> bool" where
  "well_tagged r \<longleftrightarrow> tag_fits (res_code r) (result_code r) (res_data r)"

definition tagged :: "pifus_socket \<Rightarrow> bool" where
  "tagged s \<longleftrightarrow> rb_inv (cqueue s) (cqueue_buffer s) \<and> (\<forall>r \<in> set (cq_list s). well_tagged r)"

definition all_tagged :: "'l stack \<Rightarrow> bool" where
  "all_tagged st \<longleftrightarrow> (\<forall>p. tagged (socket_regions st p))"

text \<open>A socket with the same completion queue.\<close>

definition same_results :: "pifus_socket \<Rightarrow> pifus_socket \<Rightarrow> bool" where
  "same_results s s' \<longleftrightarrow> cqueue s' = cqueue s \<and> cqueue_buffer s' = cqueue_buffer s"

definition st_same_results :: "'l stack \<Rightarrow> 'l stack \<Rightarrow> bool" where
  "st_same_results st st' \<longleftrightarrow> (\<forall>p. same_results (socket_regions st p) (socket_regions st' p))"

lemma same_results_refl [simp]: "same_results s s" "st_same_results st st"
  by (simp_all add: same_results_def st_same_results_def)

lemma tagged_same: "same_results s s' \<Longrightarrow> tagged s' = tagged s"
  by (simp add: same_results_def tagged_def cq_list_def)

lemma all_tagged_same: "st_same_results st st' \<Longrightarrow> all_tagged st \<Longrightarrow> all_tagged st'"
  unfolding st_same_results_def all_tagged_def by (metis tagged_same)

lemma all_tagged_set: "all_tagged st \<Longrightarrow> tagged s \<Longrightarrow> all_tagged (set_socket st sp s)"
  by (simp add: all_tagged_def)

lemma tagged_enqueue:
  assumes "tagged s" "well_tagged r"
  shows "tagged (enqueue_in_cqueue s r)"
proof -
  obtain ok rb buf where put: "ring_buffer_put (cqueue s) (cqueue_buffer s) r = (ok, rb, buf)" by (metis prod_cases3)
  have i: "case (cqueue s, cqueue_buffer s) of (rb, buf) \<Rightarrow> rb_inv rb buf" using assms(1) by (simp add: tagged_def)
  have c: "rbq_put (cqueue s, cqueue_buffer s) r = (ok, (rb, buf))" using put by simp
  note p = rbq.put_cases [OF i c]
  have "cq_list (enqueue_in_cqueue s r) = rb_list rb buf" "cqueue (enqueue_in_cqueue s r) = rb"
    "cqueue_buffer (enqueue_in_cqueue s r) = buf"
    using put by (simp_all add: enqueue_in_cqueue_def cq_list_def Let_def)
  then show ?thesis using p assms by (auto simp: tagged_def cq_list_def split: if_splits)
qed

section \<open>The stack\<close>

lemma connection_results:
  "tx_tcp_bind api st iop = Ok ((rc, d), st') \<Longrightarrow> st_same_results st st'"
  "tx_tcp_connect api st iop = Ok ((rc, d), st') \<Longrightarrow> st_same_results st st'"
  "tx_tcp_listen api st iop = Ok ((rc, d), st') \<Longrightarrow> st_same_results st st'"
  "tx_tcp_accept api st iop = Ok ((rc, d), st') \<Longrightarrow> st_same_results st st' \<and> rc = PIFUS_ASYNC"
  "tx_tcp_close api st iop = Ok ((rc, d), st') \<Longrightarrow> st_same_results st st'"
  by (auto simp: st_same_results_def same_results_def tx_tcp_bind_def tx_tcp_connect_def tx_tcp_listen_def
      set_socket_ptr_def tx_tcp_accept_def tx_tcp_close_def Let_def split: prod.splits option.splits if_splits)

lemma tx_tcp_write_results:
  "tx_tcp_write api st iop = Ok ((rc, d), st') \<Longrightarrow> st_same_results st st' \<and> tag_fits TCP_WRITE rc d"
  by (auto simp: st_same_results_def same_results_def tx_tcp_write_def Let_def split: prod.splits option.splits if_splits)

lemma tx_tcp_recv_results:
  "tx_tcp_recv api st iop = Ok ((rc, d), st') \<Longrightarrow> st_same_results st st' \<and> tag_fits TCP_RECV rc d"
  by (auto simp: st_same_results_def same_results_def tx_tcp_recv_def Let_def split: prod.splits option.splits if_splits
      dest!: pop_from_buffer_frame)

lemma dispatch_results:
  "dispatch_tcp api st iop c = Ok ((rc, d), st') \<Longrightarrow>
     st_same_results st st' \<and> (is_tcp_operation op \<and> op_code op = c \<longrightarrow> rc = PIFUS_ASYNC \<or> tag_fits c rc d)"
  by (cases c) (auto dest: connection_results tx_tcp_write_results tx_tcp_recv_results simp: is_tcp_operation_iff)

lemma process_tx_op_results:
  assumes "process_tx_op api st iop = Ok (r, st')"
  shows "st_same_results st st'" "result_code r \<noteq> PIFUS_ASYNC \<Longrightarrow> well_tagged r"
proof -
  let ?c = "op_code (iop_operation iop)"
  have "st_same_results st st' \<and> (result_code r \<noteq> PIFUS_ASYNC \<longrightarrow> well_tagged r)"
  proof (cases "?c = NOP \<or> ?c = CLIENT_NOP")
    case True
    then show ?thesis using assms by (auto simp: process_tx_op_def Let_def well_tagged_def)
  next
    case False
    then obtain st1 rc d where t: "is_tcp_operation (iop_operation iop)" "ensure_pcb api st (iop_socket iop) = Ok st1"
      "dispatch_tcp api st1 iop ?c = Ok ((rc, d), st')" "r = \<lparr>res_code = ?c, result_code = rc, res_data = d\<rparr>"
      using assms by (auto simp: process_tx_op_def Let_def elim!: res_bind_Ok split: if_splits)
    have "st_same_results st st1"
      using t(2) by (auto simp: ensure_pcb_def st_same_results_def same_results_def Let_def split: if_splits prod.splits option.splits)
    then show ?thesis using dispatch_results [OF t(3), of "iop_operation iop"] t(1,4)
      by (auto simp: st_same_results_def same_results_def well_tagged_def)
  qed
  then show "st_same_results st st'" "result_code r \<noteq> PIFUS_ASYNC \<Longrightarrow> well_tagged r" by simp_all
qed

lemma complete_operation_tagged:
  assumes "complete_operation st tx_op r b d = Ok (go_on, d', st')" "all_tagged st" "result_code r \<noteq> PIFUS_ASYNC \<Longrightarrow> well_tagged r"
  shows "all_tagged st'"
proof -
  define sp where "sp = iop_socket (pr_at (tx_queue st) tx_op)"
  define s1 where "s1 = (if result_code r \<noteq> PIFUS_ASYNC then enqueue_in_cqueue (socket_regions st sp) r else socket_regions st sp)"
  have "tagged s1" using assms(2,3) tagged_enqueue by (simp add: s1_def all_tagged_def)
  then have s: "tagged (s1\<lparr>dequeued_ops := dequeued_ops s1 + 1\<rparr>)" by (simp add: tagged_def cq_list_def)
  have "socket_regions st' = (socket_regions st)(sp := s1\<lparr>dequeued_ops := dequeued_ops s1 + 1\<rparr>)"
    using assms(1) by (auto simp: complete_operation_def Let_def s1_def sp_def elim!: res_bind_Ok split: if_splits)
  then show ?thesis using s assms(2) by (simp add: all_tagged_def)
qed

lemma handle_operation_tagged:
  assumes "handle_operation api st tx_op scan d = Some res" "all_tagged st"
  shows "settles (\<lambda>(go_on, d', st'). all_tagged st') res"
proof -
  have "all_tagged st \<longrightarrow> settles (\<lambda>(go_on, d', st'). all_tagged st') res"
  proof (rule handle_operation.raw_induct [OF _ assms(1),
        where P = "\<lambda>api st tx_op scan d res. all_tagged st \<longrightarrow> settles (\<lambda>(go_on, d', st'). all_tagged st') res"], rule impI, goal_cases)
    case (1 handle api st tx_op scan d res)
    note ih = 1(1) and body = 1(2) and tg = 1(3)
    show ?case
    proof (cases "process_tx_op api st (pr_at (tx_queue st) tx_op)")
      case (Ok x)
      obtain r st1 where x: "x = (r, st1)" by force
      note k = process_tx_op_results [OF Ok [unfolded x]]
      have t1: "all_tagged st1" by (rule all_tagged_same [OF k(1) tg])
      show ?thesis
      proof (cases "\<exists>recv_op. handle api st1 recv_op True d = Some res")
        case False
        then have "res = complete_operation st1 tx_op r scan d \<or> (\<exists>d' n. res = Ok (False, d', st1\<lparr>full_sndbuf_iterations := n\<rparr>))
            \<or> res = Ok (False, d, st1) \<or> res = res_bind (prio_ring_erase_first (tx_queue st1)) (\<lambda>(ok, q). Ok (True, d, st1\<lparr>tx_queue := q\<rparr>))"
          using body by (auto simp: Ok x bind_eq_Some_conv split: if_splits option.splits)
        moreover have "settles (\<lambda>(go_on, d', st'). all_tagged st') (complete_operation st1 tx_op r scan d)"
        proof (cases "complete_operation st1 tx_op r scan d")
          case (Ok y)
          obtain g e st2 where "y = (g, e, st2)" by (metis prod_cases3)
          then show ?thesis using complete_operation_tagged [OF Ok [unfolded \<open>y = (g, e, st2)\<close>] t1 k(2)] Ok by simp
        qed simp
        moreover have "settles (\<lambda>(go_on, d', st'). all_tagged st')
            (res_bind (prio_ring_erase_first (tx_queue st1)) (\<lambda>(ok, q). Ok (True, d, st1\<lparr>tx_queue := q\<rparr>)))"
          using t1 by (cases "prio_ring_erase_first (tx_queue st1)") (auto simp: all_tagged_def)
        moreover have "all_tagged (st1\<lparr>full_sndbuf_iterations := n\<rparr>)" for n using t1 by (simp add: all_tagged_def)
        ultimately show ?thesis using t1 by auto
      qed (use ih t1 in blast)
    qed (use body in auto)
  qed
  then show ?thesis using assms(2) by blast
qed

text \<open>The callbacks of lwIP.\<close>

lemma tagged_simps [simp]:
  "tagged (s\<lparr>write_queue := q\<rparr>) = tagged s" "tagged (s\<lparr>write_queue_buffer := wb\<rparr>) = tagged s"
  "tagged (s\<lparr>recv_queue := q\<rparr>) = tagged s" "tagged (s\<lparr>recv_queue_buffer := rb\<rparr>) = tagged s"
  "tagged (s\<lparr>unread_data_offset := n\<rparr>) = tagged s" "tagged (s\<lparr>pcb := t\<rparr>) = tagged s"
  "tagged (s\<lparr>recv_buffer := bb\<rparr>) = tagged s" "tagged (s\<lparr>recv_buffer_array := arr\<rparr>) = tagged s"
  by (simp_all add: tagged_def cq_list_def)

lemma tcp_sent_callback_tagged:
  assumes "tcp_sent_callback s len = Some res" "tagged s"
  shows "settles (\<lambda>(rc, s'). tagged s') res"
proof -
  have "tagged s \<longrightarrow> settles (\<lambda>(rc, s'). tagged s') res"
  proof (rule tcp_sent_callback.raw_induct [OF _ assms(1), where P = "\<lambda>s len res. tagged s \<longrightarrow> settles (\<lambda>(rc, s'). tagged s') res"],
      rule impI, goal_cases)
    case (1 tcp_sent s len res)
    show ?case
    proof (cases "ring_buffer_peek (write_queue s)")
      case None
      with 1(2) show ?thesis by auto
    next
      case (Some i)
      let ?r = "\<lparr>res_code = TCP_WRITE, result_code = PIFUS_OK, res_data = Res_Write (wqe_block_offset (write_queue_buffer s ! unat i))\<rparr>"
      let ?s1 = "enqueue_in_cqueue (s\<lparr>write_queue := snd (ring_buffer_erase_first (write_queue s))\<rparr>) ?r"
      have s1: "tagged ?s1" using 1(3) by (intro tagged_enqueue) (simp_all add: well_tagged_def)
      have "settles (\<lambda>(rc, s'). tagged s') r" if "tcp_sent ?s1 n = Some r" for n r using 1(1) [OF that] s1 by blast
      then show ?thesis using 1(2,3) Some s1 by (auto simp: Let_def split: if_splits)
    qed
  qed
  then show ?thesis using assms(2) by blast
qed

lemma recv_from_buffer_tagged:
  "recv_from_buffer st blk e = (n, s', m1, e', b) \<Longrightarrow> tagged s' = tagged (rs_socket st)"
  by (auto simp: recv_from_buffer_def Let_def split: if_splits prod.splits dest!: pop_from_buffer_frame)

lemma recv_round_tagged: "tagged (rs_socket st) \<Longrightarrow> tagged (rs_socket (recv_round st i))"
  by (auto simp: recv_round_def Let_def split: prod.splits dest!: recv_from_buffer_tagged intro!: tagged_enqueue)
    (simp_all add: well_tagged_def)

lemma recv_loop_tagged: "recv_loop st = Some st' \<Longrightarrow> tagged (rs_socket st) \<longrightarrow> tagged (rs_socket st')"
proof (rule recv_loop.raw_induct [where P = "\<lambda>st st'. tagged (rs_socket st) \<longrightarrow> tagged (rs_socket st')"], goal_cases)
  case (1 loop st st')
  then show ?case by (auto split: option.splits if_splits dest: recv_round_tagged)
qed

lemma buffer_loop_tagged: "buffer_loop s qs off av acked = (s', av', acked') \<Longrightarrow> tagged s' = tagged s"
proof (induction s qs off av acked rule: buffer_loop.induct)
  case (2 s q qs off av acked)
  show ?case
  proof (cases "av > 0")
    case True
    obtain n bb arr where a: "byte_buffer_add (recv_buffer s) (recv_buffer_array s) (drop (unat off) (pb_payload q)) (pb_len q - off) = (n, bb, arr)"
      by (metis prod_cases3)
    show ?thesis using "2.prems" "2.IH" [OF True refl a [symmetric] refl] True a by (auto simp: Let_def split: if_splits)
  qed (use "2.prems" in simp)
qed simp

lemma tcp_recv_callback_tagged:
  assumes "tcp_recv_callback api st arg tpcb p err = Some (Ok (rc, st'))" "all_tagged st"
  shows "all_tagged st'"
proof (cases "st' = st")
  case False
  obtain sp app av nxt off where a: "arg = Some sp" "app_ptrs st ! unat (app_index (socket_regions st sp)) = Some app"
    "recv_begin p (unread_data_offset (socket_regions st sp)) = (av, nxt, off)"
    using assms False by (auto simp: tcp_recv_callback_def Let_def split: option.splits if_splits prod.splits)
  let ?rs = "\<lparr>rs_socket = socket_regions st sp, rs_mem = app_regions st app, rs_next_pbuf = nxt,
    rs_offset = off, rs_available = av, rs_ackable = 0, rs_buffer_empty = byte_buffer_is_empty (recv_buffer (socket_regions st sp))\<rparr>"
  obtain rs where l: "recv_loop ?rs = Some rs"
    using assms False a by (auto simp: tcp_recv_callback_def Let_def bind_eq_Some_conv split: if_splits)
  obtain s2 av2 acked2 where b: "buffer_rest rs = (s2, av2, acked2)" by (metis prod_cases3)
  have "tagged (rs_socket rs)" using recv_loop_tagged [OF l] assms(2) by (simp add: all_tagged_def)
  then have "tagged s2" using b by (auto simp: buffer_rest_def split: if_splits dest: buffer_loop_tagged)
  then show ?thesis
    using assms False a l b by (auto simp: tcp_recv_callback_def Let_def all_tagged_def split: if_splits)
qed (use assms in simp)

section \<open>Steps and runs\<close>

lemma tagged_get:
  assumes "tagged s" "ring_buffer_get (cqueue s) (cqueue_buffer s) = (x, rb)"
  shows "tagged (s\<lparr>cqueue := rb\<rparr>)" "x = Some r \<Longrightarrow> well_tagged r"
proof -
  have i: "case (cqueue s, cqueue_buffer s) of (rb, buf) \<Rightarrow> rb_inv rb buf" using assms(1) by (simp add: tagged_def)
  have c: "rbq_get (cqueue s, cqueue_buffer s) = (x, (rb, cqueue_buffer s))" using assms(2) by simp
  have "tagged (s\<lparr>cqueue := rb\<rparr>) \<and> (\<forall>r. x = Some r \<longrightarrow> well_tagged r)"
  proof (cases "cq_list s")
    case Nil
    then show ?thesis using rbq.get_none [OF i] c assms(1) by (auto simp: tagged_def cq_list_def)
  next
    case (Cons y ys)
    then show ?thesis using rbq.get_some [OF i _ c] assms(1) by (auto simp: tagged_def cq_list_def)
  qed
  then show "tagged (s\<lparr>cqueue := rb\<rparr>)" "x = Some r \<Longrightarrow> well_tagged r" by simp_all
qed

lemma system_step_tagged:
  assumes "system_step api S st e st'" "all_tagged st"
  shows "all_tagged st'"
  using assms(1)
proof cases
  case (submit sp op s)
  have "same_results (socket_regions st sp) s"
    using submit by (auto simp: enqueue_operation_def Let_def same_results_def split: prod.splits if_splits)
  then show ?thesis using submit assms(2) tagged_same by (auto simp: all_tagged_def)
next
  case (refuse sp op s)
  have "same_results (socket_regions st sp) s"
    using refuse by (auto simp: enqueue_operation_def Let_def same_results_def split: prod.splits if_splits)
  then show ?thesis using refuse assms(2) tagged_same by (auto simp: all_tagged_def)
next
  case (collect sp x rb)
  then show ?thesis using tagged_get(1) assms(2) by (auto simp: all_tagged_def)
next
  case (move sp r)
  have "st_same_results st st'"
    using move by (auto simp: move_operation_def set_futex_shadow_def Let_def st_same_results_def same_results_def split: prod.splits option.splits if_splits)
  then show ?thesis using assms(2) all_tagged_same by blast
next
  case (serve tx_op q d go_on d')
  have "all_tagged (st\<lparr>tx_queue := q\<rparr>)" using assms(2) by (simp add: all_tagged_def)
  then show ?thesis using handle_operation_tagged serve by fastforce
next
  case (received arg tpcb p err rc)
  then show ?thesis using tcp_recv_callback_tagged assms(2) by blast
next
  case (sent sp len rc s)
  have "tagged s" using tcp_sent_callback_tagged sent assms(2) by (fastforce simp: all_tagged_def)
  then show ?thesis using sent assms(2) by (simp add: all_tagged_set)
next
  case (connected sp rc)
  have "tagged (enqueue_in_cqueue (socket_regions st sp) \<lparr>res_code = TCP_CONNECT, result_code = PIFUS_OK, res_data = Res_Indeterminate\<rparr>)"
    using assms(2) by (intro tagged_enqueue) (simp_all add: all_tagged_def well_tagged_def)
  then show ?thesis using connected assms(2) by (auto simp: tcp_connected_callback_def all_tagged_def)
next
  case (accepted sp newpcb rc)
  have "tagged (enqueue_in_cqueue (socket_regions st sp) \<lparr>res_code = TCP_ACCEPT, result_code = PIFUS_OK, res_data = Res_Accept None newpcb\<rparr>)"
    using assms(2) by (intro tagged_enqueue) (simp_all add: all_tagged_def well_tagged_def)
  then show ?thesis using accepted assms(2) by (auto simp: tcp_accepted_callback_def Let_def all_tagged_def)
next
  case (failed sp)
  have "tagged (tcp_err_callback (socket_regions st sp))"
    unfolding tcp_err_callback_def using assms(2) by (intro tagged_enqueue) (simp_all add: all_tagged_def well_tagged_def)
  then show ?thesis using failed assms(2) by (simp add: all_tagged_def)
qed (use assms(2) in \<open>auto simp: all_tagged_def\<close>)

lemma system_run_tagged: "system_run api S st es st' \<Longrightarrow> all_tagged st \<Longrightarrow> all_tagged st'"
  by (induction rule: system_run.induct) (auto dest: system_step_tagged)

section \<open>The application\<close>

lemma bind_Fault: "res_bind r f = Fault e \<longleftrightarrow> r = Fault e \<or> (\<exists>x. r = Ok x \<and> f x = Fault e)"
  by (cases r) auto

lemma release_written_typed: "well_tagged r \<Longrightarrow> release_written r c \<noteq> Fault Indeterminate_Value"
  by (auto simp: release_written_def well_tagged_def split: res_data.splits)

lemma open_accepted_typed:
  assumes "well_tagged r"
  shows "open_accepted p r c \<noteq> Fault Indeterminate_Value" "open_accepted p r c = Ok (r', c') \<Longrightarrow> well_tagged r'"
proof -
  have m: "map_socket_region c \<noteq> Fault Indeterminate_Value"
    by (auto simp: map_socket_region_def shm_map_region_def Let_def split: sum.splits option.splits prod.splits if_splits)
  have w: "pifus_socket_with_tcp_pcb c proto prio t \<noteq> Fault Indeterminate_Value" for proto prio t
    using m by (auto simp: pifus_socket_with_tcp_pcb_def bind_Fault)
  have "res_code r = TCP_ACCEPT \<and> result_code r = PIFUS_OK \<Longrightarrow> \<exists>old t. res_data r = Res_Accept old t"
    using assms by (auto simp: well_tagged_def split: res_data.splits)
  then show "open_accepted p r c \<noteq> Fault Indeterminate_Value"
    using w by (auto simp: open_accepted_def bind_Fault split: if_splits)
  show "open_accepted p r c = Ok (r', c') \<Longrightarrow> well_tagged r'"
    using assms by (auto simp: open_accepted_def well_tagged_def elim!: res_bind_Ok split: if_splits res_data.splits)
qed

lemma locate_received_typed:
  assumes "well_tagged r"
  shows "locate_received app r \<noteq> Fault Indeterminate_Value"
    "locate_received app r = Ok r' \<Longrightarrow> well_tagged r' \<and>
       (res_code r' = TCP_RECV \<longrightarrow> (\<exists>off sz block db. res_data r' = Res_Recv off sz (Some block) db))"
  using assms by (auto simp: locate_received_def well_tagged_def Let_def split: if_splits res_data.splits)

text \<open>
  C5. In every interleaving of the applications, the threads and lwIP, each result in a completion queue has the
  union member written that its operation code stands for. So taking a result never reads a member that was not
  written, and the block of a received result can be freed.
\<close>
theorem results_are_well_typed:
  assumes "system_run api S st0 es st" "all_tagged st0" "client_regions c p = socket_regions st p"
  shows "(\<forall>q. \<forall>r \<in> set (cq_list (socket_regions st q)). well_tagged r) \<and>
    pifus_socket_pop_result c p \<noteq> Fault Indeterminate_Value \<and>
    (\<forall>r c'. pifus_socket_pop_result c p = Ok (Some r, c') \<and> res_code r = TCP_RECV \<longrightarrow> (\<exists>c2. pifus_free c' r = Ok c2))"
proof -
  let ?s = "client_regions c p"
  have all: "all_tagged st" by (rule system_run_tagged [OF assms(1,2)])
  then have t: "tagged ?s" using assms(3) by (simp add: all_tagged_def)
  obtain x rb where g: "ring_buffer_get (cqueue ?s) (cqueue_buffer ?s) = (x, rb)" by force
  have x: "\<And>r. x = Some r \<Longrightarrow> well_tagged r" using tagged_get(2) [OF t g] .
  have f: "res_bind (release_written r c1) (\<lambda>c1. res_bind (open_accepted p r c1) (\<lambda>(r1, c2).
      res_bind (locate_received (app_state c2) r1) (\<lambda>r2. Ok (Some r2, forget_closed p r2 c2)))) \<noteq> Fault Indeterminate_Value"
    if w: "well_tagged r" for r c1
    using release_written_typed [OF w] open_accepted_typed [OF w] locate_received_typed(1) by (fastforce simp: bind_Fault)
  have "pifus_socket_pop_result c p \<noteq> Fault Indeterminate_Value"
    using g x f by (auto simp: pifus_socket_pop_result_def dequeue_operation_def Let_def split: option.splits)
  moreover have "\<exists>c2. pifus_free c' r = Ok c2" if r: "pifus_socket_pop_result c p = Ok (Some r, c')" "res_code r = TCP_RECV" for r c'
  proof -
    obtain r0 r1 c1 c2 where s: "x = Some r0" "open_accepted p r0 c1 = Ok (r1, c2)" "locate_received (app_state c2) r1 = Ok r"
      using r(1) g by (auto simp: pifus_socket_pop_result_def dequeue_operation_def Let_def split: option.splits elim!: res_bind_Ok)
    have "well_tagged r1" using open_accepted_typed(2) [OF x [OF s(1)] s(2)] .
    then show ?thesis using locate_received_typed(2) [OF _ s(3)] r(2) by (auto simp: pifus_free_def)
  qed
  ultimately show ?thesis using all by (auto simp: all_tagged_def tagged_def)
qed

text \<open>A connection that lwIP accepts: the result that the application takes has the control block written.\<close>

lemma idle_all_tagged: "all_tagged idle_stack"
proof -
  have "cq_list demo_socket = []" "sock_inv demo_socket" by (simp_all add: demo_socket_views demo_socket_inv)
  then show ?thesis by (simp add: all_tagged_def tagged_def idle_stack_def demo_stack_def sock_inv_def)
qed

lemma accepted_result:
  assumes "tcp_accepted_callback api st sp newpcb = (rc, st')" "sock_inv (socket_regions st sp)"
    "cq_list (socket_regions st sp) = []" "0 < cq_cap (socket_regions st sp)"
  shows "cq_list (socket_regions st' sp) = [\<lparr>res_code = TCP_ACCEPT, result_code = PIFUS_OK, res_data = Res_Accept None newpcb\<rparr>]"
proof -
  let ?r = "\<lparr>res_code = TCP_ACCEPT, result_code = PIFUS_OK, res_data = Res_Accept None newpcb\<rparr> :: operation_result"
  have "socket_regions st' sp = enqueue_in_cqueue (socket_regions st sp) ?r"
    using assms(1) by (auto simp: tcp_accepted_callback_def Let_def)
  then show ?thesis using enqueue_in_cqueue_spec(2) [OF assms(2), of ?r] assms(3,4) by simp
qed

theorem results_are_well_typed_witness:
  "\<exists>st r. system_run demo_api {7} idle_stack [Internal] st \<and> cq_list (socket_regions st 7) = [r] \<and> well_tagged r
     \<and> res_code r = TCP_ACCEPT
     \<and> pifus_socket_pop_result (demo_client\<lparr>client_regions := socket_regions st\<rparr>) 7 \<noteq> Fault Indeterminate_Value"
proof -
  obtain rc st where st: "tcp_accepted_callback demo_api idle_stack 7 (Some 3) = (rc, st)" by (rule prod.exhaust)
  have "socket_regions idle_stack 7 = demo_socket" by (simp add: idle_stack_def demo_stack_def)
  then obtain r where r: "cq_list (socket_regions st 7) = [r]" "res_code r = TCP_ACCEPT"
    using accepted_result [OF st] demo_socket_inv demo_socket_views(2,6) by fastforce
  have run: "system_run demo_api {7} idle_stack [Internal] st"
    using system_run.step [OF system_run.start system_step.accepted [OF st]] by simp
  have "client_regions (demo_client\<lparr>client_regions := socket_regions st\<rparr>) 7 = socket_regions st 7" by simp
  note typed = results_are_well_typed [OF run idle_all_tagged this]
  have "r \<in> set (cq_list (socket_regions st 7))" using r(1) by simp
  then have "well_tagged r" using typed by blast
  then show ?thesis using run r typed by blast
qed

end
