(* ===== verification/Discovery.thy ===== *)
theory Discovery
  imports Prio_Thread Shm_Region "HOL-Library.Sublist"
begin

text \<open>
  The discovery thread of the stack (\<open>lwip/custom/stack/src/discovery.c\<close>): it maps the regions of new
  applications and of their new sockets, hands every new socket to the priority thread of its priority
  through a queue of ten slots, and waits on the socket counters of the applications. The globals of the
  file are the record \<open>discovery\<close>; the three queues of new sockets are a function of the ring they serve.
  A pointer to a mapped region is its object number; the contents are in \<open>app_regions\<close> and
  \<open>socket_regions\<close> of the stack, where the application's own accesses reach them too. \<open>asprintf\<close> is taken
  to succeed.
\<close>

section \<open>Model\<close>

definition DISCOVERY_MAX_NEW_SOCKETS :: u16 where "DISCOVERY_MAX_NEW_SOCKETS = 10"

record 'l discovery =
  d_stack :: "'l stack"
  d_os :: os
  d_waitvs :: "futex_waitv list"
  app_futexes :: "u32 list"
  app_local_highest_socket_number :: "u32 list"
  app_from_futex_nr :: "u32 list"
  new_socket_queues :: "ring_name \<Rightarrow> new_socket_queue"

text \<open>Lines 69-75: the fields the stack initialises in a region it has mapped.\<close>

definition init_socket :: "u32 \<Rightarrow> u32 \<Rightarrow> pifus_socket \<Rightarrow> pifus_socket" where
  "init_socket a i socket = socket
     \<lparr>app_index := a, socket_index := i,
      cqueue := ring_buffer_create (cqueue socket) CQUEUE_SIZE,
      write_queue := ring_buffer_create (write_queue socket) WRITE_QUEUE_SIZE,
      recv_queue := ring_buffer_create (recv_queue socket) RECV_QUEUE_SIZE,
      recv_buffer := byte_buffer_create (recv_buffer socket) RECV_BUFFER_SIZE\<rparr>"

text \<open>Lines 96-103.\<close>

definition prio_queue_of :: "pifus_priority \<Rightarrow> ring_name" where
  "prio_queue_of prio = (if prio = PRIORITY_HIGH then High else if prio = PRIORITY_MEDIUM then Medium else Low)"

text \<open>Lines 105-109: a full queue drops the identifier, the futex counts it all the same.\<close>

definition announce_socket :: "u32 \<times> u32 \<Rightarrow> new_socket_queue \<Rightarrow> new_socket_queue" where
  "announce_socket identifier q =
     (case ring_buffer_put (socket_queue q) (socket_queue_buffer q) identifier of
        (ok, rb, buf) \<Rightarrow>
          q\<lparr>socket_queue := rb, socket_queue_buffer := buf, socket_queue_futex := socket_queue_futex q + 1\<rparr>)"

definition map_new_socket ::
    "('l, 'i) lwip_api \<Rightarrow> u32 \<Rightarrow> u32 \<Rightarrow> 'l discovery \<Rightarrow> 'l discovery res" where
  "map_new_socket api a i d =
     (case shm_open_region (d_os d) (socket_name (app_name a) i) False of
        (Inl errno, os1) \<Rightarrow> Ok (d\<lparr>d_os := os1\<rparr>)
      | (Inr fd, os1) \<Rightarrow>
          res_bind (shm_map_region os1 zero_socket (socket_regions (d_stack d) fd) False)
            (\<lambda>(contents, os2).
               let socket = init_socket a i contents;
                   st1 = set_socket (set_socket_ptr (d_stack d) a i (Some fd)) fd socket;
                   st2 = (if protocol socket = PROTOCOL_TCP \<and> pcb socket \<noteq> None
                          then st1\<lparr>st_lwip := lw_tcp_arg api (st_lwip st1) (pcb socket) (Some fd)\<rparr>
                          else st1);
                   r = prio_queue_of (priority socket)
               in Ok (d\<lparr>d_stack := st2, d_os := os2,
                    app_local_highest_socket_number := (app_local_highest_socket_number d)[unat a := i],
                    new_socket_queues := (new_socket_queues d)
                      (r := announce_socket (app_index socket, socket_index socket) (new_socket_queues d r))\<rparr>)))"

text \<open>The loop of \<open>map_new_sockets\<close>; it does not end for a counter of \<open>2 ^ 32 - 1\<close>.\<close>

partial_function (option) map_sockets_loop ::
    "('l, 'i) lwip_api \<Rightarrow> u32 \<Rightarrow> u32 \<Rightarrow> u32 \<Rightarrow> 'l discovery \<Rightarrow> 'l discovery res option" where
  "map_sockets_loop api a i app_highest_index d =
     (if i \<le> app_highest_index
      then (case map_new_socket api a i d of
              Fault f \<Rightarrow> Some (Fault f)
            | Ok d1 \<Rightarrow> map_sockets_loop api a (i + 1) app_highest_index d1)
      else Some (Ok d))"

definition app_counter :: "'l stack \<Rightarrow> u32 \<Rightarrow> u32 option" where
  "app_counter st a = map_option (\<lambda>r. highest_socket_number (app_regions st r)) (app_ptrs st ! unat a)"

definition map_new_sockets ::
    "('l, 'i) lwip_api \<Rightarrow> u32 \<Rightarrow> 'l discovery \<Rightarrow> 'l discovery res option" where
  "map_new_sockets api a d =
     (let current_highest_index = app_local_highest_socket_number d ! unat a
      in case app_counter (d_stack d) a of
           None \<Rightarrow> Some (Fault Null_Dereference)
         | Some app_highest_index \<Rightarrow>
             if current_highest_index < app_highest_index
             then map_sockets_loop api a (current_highest_index + 1) app_highest_index d
             else Some (Ok d))"

text \<open>
  \<open>zero_app\<close> is the zero-filled region of \<open>SHM_APP_SIZE\<close> bytes; it is not used because \<open>create\<close> is false.
  The loop variable and \<open>next_app_number\<close> advance together: the argument counts the rounds left.
\<close>

definition zero_app :: mem where "zero_app = (\<lambda>_. 0)"

fun scan_loop :: "nat \<Rightarrow> 'l discovery \<Rightarrow> 'l discovery res" where
  "scan_loop 0 d = Ok d"
| "scan_loop (Suc rounds) d =
     (let st = d_stack d
      in case shm_open_region (d_os d) (app_name (next_app_number st)) False of
           (Inl errno, os1) \<Rightarrow> Ok (d\<lparr>d_os := os1\<rparr>)
         | (Inr fd, os1) \<Rightarrow>
             res_bind (shm_map_region os1 zero_app (app_regions st fd) False)
               (\<lambda>(contents, os2).
                  scan_loop rounds (d\<lparr>d_os := os2,
                    d_stack := st\<lparr>app_ptrs := (app_ptrs st)[unat (next_app_number st) := Some fd],
                                  app_regions := (app_regions st)(fd := contents),
                                  next_app_number := next_app_number st + 1\<rparr>\<rparr>)))"

definition scan_for_app_regions :: "'l discovery \<Rightarrow> 'l discovery res" where
  "scan_for_app_regions d = scan_loop (MAX_APP_AMOUNT - unat (next_app_number (d_stack d))) d"

definition handle_new_sockets ::
    "('l, 'i) lwip_api \<Rightarrow> u32 \<Rightarrow> 'l discovery \<Rightarrow> 'l discovery res option" where
  "handle_new_sockets api a d =
     (case app_counter (d_stack d) a of
        None \<Rightarrow> Some (Fault Null_Dereference)
      | Some counter \<Rightarrow> map_new_sockets api a (d\<lparr>app_futexes := (app_futexes d)[unat a := counter]\<rparr>))"

text \<open>Lines 168-184 for one application: \<open>current_amount_futexes\<close> and the globals.\<close>

definition fill_app ::
    "('l, 'i) lwip_api \<Rightarrow> u32 \<Rightarrow> u8 \<times> 'l discovery \<Rightarrow> (u8 \<times> 'l discovery) res option" where
  "fill_app api a = (\<lambda>(amount, d).
     case app_ptrs (d_stack d) ! unat a of
       None \<Rightarrow> Some (Ok (amount, d))
     | Some r \<Rightarrow>
         Option.bind (if highest_socket_number (app_regions (d_stack d) r) \<noteq> app_futexes d ! unat a
                      then handle_new_sockets api a d else Some (Ok d))
           (\<lambda>x. Some (res_bind x (\<lambda>d1.
              Ok (amount + 1,
                  d1\<lparr>d_waitvs := (d_waitvs d1)[unat amount := waitv_entry (App_Futex r) (app_futexes d1 ! unat a)],
                     app_from_futex_nr := (app_from_futex_nr d1)[unat amount := a]\<rparr>)))))"

partial_function (option) fill_waitv_loop ::
    "('l, 'i) lwip_api \<Rightarrow> u32 \<Rightarrow> u8 \<times> 'l discovery \<Rightarrow> (u8 \<times> 'l discovery) res option" where
  "fill_waitv_loop api a x =
     (if a < next_app_number (d_stack (snd x))
      then Option.bind (fill_app api a x)
             (\<lambda>r. case r of Fault f \<Rightarrow> Some (Fault f) | Ok x1 \<Rightarrow> fill_waitv_loop api (a + 1) x1)
      else Some (Ok x))"

definition fill_waitv :: "('l, 'i) lwip_api \<Rightarrow> 'l discovery \<Rightarrow> (u8 \<times> 'l discovery) res option" where
  "fill_waitv api d = fill_waitv_loop api 0 (0, d)"

text \<open>
  One round of \<open>discovery_thread_loop\<close>; \<open>wait\<close> is the answer of \<open>futex_waitv\<close>, which ends after a second
  with a negative number when nothing happens.
\<close>

definition discovery_round ::
    "('l, 'i) lwip_api \<Rightarrow> (futex_waitv list \<Rightarrow> u8 \<Rightarrow> int) \<Rightarrow> 'l discovery \<Rightarrow> 'l discovery res option" where
  "discovery_round api wait d =
     (case scan_for_app_regions d of
        Fault f \<Rightarrow> Some (Fault f)
      | Ok d1 \<Rightarrow>
          Option.bind (fill_waitv api d1) (\<lambda>r. case r of
              Fault f \<Rightarrow> Some (Fault f)
            | Ok (amount_futexes, d2) \<Rightarrow>
                if amount_futexes > 0
                then (let ret_code = wait (d_waitvs d2) amount_futexes
                      in if ret_code \<ge> 0
                         then Option.bind (handle_new_sockets api (app_from_futex_nr d2 ! nat ret_code) d2)
                                (\<lambda>x. Some (res_bind x
                                   (\<lambda>d3. Ok (d3\<lparr>app_from_futex_nr := replicate MAX_APP_AMOUNT 0\<rparr>))))
                         else Some (Ok d2))
                else Some (Ok d2)))"

definition start_discovery_thread :: "'l discovery \<Rightarrow> 'l discovery" where
  "start_discovery_thread d = d\<lparr>new_socket_queues := (\<lambda>r. (new_socket_queues d r)
     \<lparr>socket_queue := ring_buffer_create (socket_queue (new_socket_queues d r)) DISCOVERY_MAX_NEW_SOCKETS\<rparr>)\<rparr>"

section \<open>Applications\<close>

text \<open>How many consecutive applications exist, starting with a given one.\<close>

definition apps_from :: "os \<Rightarrow> nat \<Rightarrow> nat \<Rightarrow> nat" where
  "apps_from os n rounds = length (takeWhile (\<lambda>i. shm_names os (app_name (of_nat i)) \<noteq> None) [n..<n + rounds])"

lemma apps_from_0 [simp]: "apps_from os n 0 = 0"
  by (simp add: apps_from_def)

lemma apps_from_Suc: "apps_from os n (Suc k) =
    (if shm_names os (app_name (of_nat n)) = None then 0 else Suc (apps_from os (Suc n) k))"
  by (simp add: apps_from_def upt_conv_Cons del: upt_Suc)

lemma apps_from_le: "apps_from os n k \<le> k"
  using length_takeWhile_le [of _ "[n..<n + k]"] by (simp add: apps_from_def)

definition put_apps :: "os \<Rightarrow> nat \<Rightarrow> nat \<Rightarrow> nat option list \<Rightarrow> nat option list" where
  "put_apps os n k ptrs = take n ptrs @ map (\<lambda>i. shm_names os (app_name (of_nat i))) [n..<n + k] @ drop (n + k) ptrs"

lemma put_apps_0 [simp]: "put_apps os n 0 ptrs = ptrs"
  by (simp add: put_apps_def)

lemma put_apps_Suc:
  assumes "n < length ptrs"
  shows "put_apps os (Suc n) k (ptrs[n := shm_names os (app_name (of_nat n))]) = put_apps os n (Suc k) ptrs"
  using assms by (simp add: put_apps_def take_Suc_conv_app_nth upt_conv_Cons del: upt_Suc)

lemma scan_loop_spec:
  assumes "willing (d_os d)" "unat (next_app_number (d_stack d)) = n" "n + rounds \<le> length (app_ptrs (d_stack d))"
    and "n + rounds < 2 ^ 32" "k = apps_from (d_os d) n rounds"
  shows "\<exists>calls. scan_loop rounds d = Ok (d\<lparr>d_os := (d_os d)\<lparr>os_calls := calls\<rparr>,
     d_stack := (d_stack d)\<lparr>app_ptrs := put_apps (d_os d) n k (app_ptrs (d_stack d)), next_app_number := of_nat (n + k)\<rparr>\<rparr>)"
  using assms
proof (induction rounds arbitrary: d n k)
  case 0
  then have "of_nat n = next_app_number (d_stack d)" by auto
  with 0 show ?case by (intro exI [of _ "os_calls (d_os d)"]) simp
next
  case (Suc rounds)
  have n: "next_app_number (d_stack d) = of_nat n" using Suc.prems(2) by auto
  let ?name = "shm_names (d_os d) (app_name (of_nat n))"
  show ?case
  proof (cases ?name)
    case None
    then have "k = 0" using Suc.prems(5) by (simp add: apps_from_Suc)
    moreover have "d\<lparr>d_os := x, d_stack := (d_stack d)\<lparr>next_app_number := of_nat n\<rparr>\<rparr> = d\<lparr>d_os := x\<rparr>" for x
      unfolding n [symmetric] by simp
    ultimately show ?thesis using None Suc.prems(1) n
      by (intro exI [of _ "Suc (os_calls (d_os d))"]) (simp add: Let_def open_willing)
  next
    case (Some fd)
    let ?d = "d\<lparr>d_os := (d_os d)\<lparr>os_calls := Suc (Suc (Suc (os_calls (d_os d))))\<rparr>,
      d_stack := (d_stack d)\<lparr>app_ptrs := (app_ptrs (d_stack d))[n := Some fd], next_app_number := of_nat (Suc n)\<rparr>\<rparr>"
    have step: "scan_loop (Suc rounds) d = scan_loop rounds ?d"
      using Some Suc.prems(1,2) n by (simp add: Let_def open_willing map_willing add.commute)
    have ap: "apps_from (d_os ?d) (Suc n) rounds = apps_from (d_os d) (Suc n) rounds" by (simp add: apps_from_def)
    have k: "k = Suc (apps_from (d_os d) (Suc n) rounds)" using Some Suc.prems(5) by (simp add: apps_from_Suc)
    have "unat (of_nat (Suc n) :: u32) = Suc n" using Suc.prems(4) by (simp add: unat_of_nat del: of_nat_Suc)
    from Suc.IH [of ?d "Suc n", OF _ _ _ _ refl] this Suc.prems(1,3,4) obtain calls where
      "scan_loop rounds ?d = Ok (?d\<lparr>d_os := (d_os ?d)\<lparr>os_calls := calls\<rparr>,
         d_stack := (d_stack ?d)\<lparr>app_ptrs := put_apps (d_os ?d) (Suc n) (apps_from (d_os ?d) (Suc n) rounds) (app_ptrs (d_stack ?d)),
           next_app_number := of_nat (Suc n + apps_from (d_os ?d) (Suc n) rounds)\<rparr>\<rparr>)"
      by auto
    moreover have "put_apps (d_os ?d) (Suc n) (apps_from (d_os ?d) (Suc n) rounds) (app_ptrs (d_stack ?d))
        = put_apps (d_os d) n k (app_ptrs (d_stack d))"
      using put_apps_Suc [of n "app_ptrs (d_stack d)" "d_os d"] Some Suc.prems(3) k ap by (simp add: put_apps_def)
    ultimately show ?thesis unfolding step ap k by auto
  qed
qed

text \<open>
  A scan registers the applications that exist consecutively from the first unregistered number on,
  and nothing else: their region pointers enter the table in order, up to the first number without a region
  or the end of the table. An application whose number lies behind a gap is not found.
\<close>

theorem scan_for_app_regions_registers:
  assumes "willing (d_os d)" "length (app_ptrs (d_stack d)) = MAX_APP_AMOUNT" "unat (next_app_number (d_stack d)) \<le> MAX_APP_AMOUNT"
    and "n = unat (next_app_number (d_stack d))" "k = apps_from (d_os d) n (MAX_APP_AMOUNT - n)"
  shows "\<exists>d'. scan_for_app_regions d = Ok d' \<and> unat (next_app_number (d_stack d')) = n + k
     \<and> (\<forall>i < MAX_APP_AMOUNT. app_ptrs (d_stack d') ! i =
          (if n \<le> i \<and> i < n + k then shm_names (d_os d) (app_name (of_nat i)) else app_ptrs (d_stack d) ! i))
     \<and> (\<forall>i. n \<le> i \<and> i < n + k \<longrightarrow> shm_names (d_os d) (app_name (of_nat i)) \<noteq> None)
     \<and> (n + k < MAX_APP_AMOUNT \<longrightarrow> shm_names (d_os d) (app_name (of_nat (n + k))) = None)
     \<and> app_regions (d_stack d') = app_regions (d_stack d) \<and> shm_names (d_os d') = shm_names (d_os d)"
proof -
  let ?P = "\<lambda>i. shm_names (d_os d) (app_name (of_nat i)) \<noteq> None" and ?xs = "[n..<MAX_APP_AMOUNT]"
  have le: "n \<le> MAX_APP_AMOUNT" "n + k \<le> MAX_APP_AMOUNT" using assms(3-5) apps_from_le [of "d_os d" n "MAX_APP_AMOUNT - n"] by auto
  have k: "k = length (takeWhile ?P ?xs)" using assms(5) le(1) by (simp add: apps_from_def)
  have nth: "\<And>j. j < length ?xs \<Longrightarrow> ?xs ! j = n + j" by simp
  obtain calls where e: "scan_for_app_regions d = Ok (d\<lparr>d_os := (d_os d)\<lparr>os_calls := calls\<rparr>,
     d_stack := (d_stack d)\<lparr>app_ptrs := put_apps (d_os d) n k (app_ptrs (d_stack d)), next_app_number := of_nat (n + k)\<rparr>\<rparr>)"
    using scan_loop_spec [OF assms(1), of n "MAX_APP_AMOUNT - n" k] assms(2-5) by (auto simp: scan_for_app_regions_def MAX_APP_AMOUNT_def)
  have "unat (of_nat (n + k) :: u32) = n + k" using le(2) by (simp add: unat_of_nat MAX_APP_AMOUNT_def del: of_nat_add)
  moreover have "put_apps (d_os d) n k (app_ptrs (d_stack d)) ! i =
      (if n \<le> i \<and> i < n + k then shm_names (d_os d) (app_name (of_nat i)) else app_ptrs (d_stack d) ! i)"
    if "i < MAX_APP_AMOUNT" for i
    using that le assms(2) by (auto simp: put_apps_def nth_append)
  moreover have "?P i" if "n \<le> i \<and> i < n + k" for i
  proof -
    have "i < MAX_APP_AMOUNT" using that le(2) by linarith
    then have l: "i - n < length (takeWhile ?P ?xs)" "i - n < length ?xs" using that k by (linarith, simp add: diff_less_mono)
    then have "takeWhile ?P ?xs ! (i - n) = i" using takeWhile_nth [OF l(1)] nth [OF l(2)] that by linarith
    with nth_mem [OF l(1)] show ?thesis using set_takeWhileD by metis
  qed
  moreover have "\<not> ?P (n + k)" if "n + k < MAX_APP_AMOUNT"
  proof -
    have l: "k < length ?xs" using that by simp
    then have "\<not> ?P (?xs ! k)" using nth_length_takeWhile [of ?P ?xs] unfolding k [symmetric] by blast
    then show ?thesis using nth [OF l] by simp
  qed
  ultimately show ?thesis unfolding e by auto
qed

section \<open>Sockets\<close>

definition socket_object :: "os \<Rightarrow> u32 \<Rightarrow> u32 \<Rightarrow> nat option" where
  "socket_object os a i = shm_names os (socket_name (app_name a) i)"

lemma socket_object_inject:
  assumes "os_inv os" "socket_object os a i = Some p" "socket_object os a j = Some p"
  shows "i = j"
proof -
  have "socket_name (app_name a) i = socket_name (app_name a) j"
    using assms by (intro inj_onD [of "shm_names os" "dom (shm_names os)"]) (auto simp: os_inv_def socket_object_def)
  then show ?thesis using names_distinct(1) by blast
qed

text \<open>What mapping the sockets \<open>ids\<close> of an application does to each part of the state.\<close>

definition existing :: "os \<Rightarrow> u32 \<Rightarrow> u32 list \<Rightarrow> u32 list" where
  "existing os a = filter (\<lambda>i. socket_object os a i \<noteq> None)"

definition ids_of_prio :: "'l discovery \<Rightarrow> u32 \<Rightarrow> ring_name \<Rightarrow> u32 list \<Rightarrow> (u32 \<times> u32) list" where
  "ids_of_prio d a r ids = map (Pair a)
     (filter (\<lambda>i. prio_queue_of (priority (socket_regions (d_stack d) (the (socket_object (d_os d) a i)))) = r) ids)"

definition put_ptr :: "os \<Rightarrow> u32 \<Rightarrow> u32 \<Rightarrow> nat option list list \<Rightarrow> nat option list list" where
  "put_ptr os a i P = P[unat a := (P ! unat a)[unat i := socket_object os a i]]"

definition mapped :: "u32 \<Rightarrow> u32 list \<Rightarrow> 'l discovery \<Rightarrow> 'l discovery \<Rightarrow> bool" where
  "mapped a ids d d' \<longleftrightarrow>
     (let os = d_os d; st = d_stack d; st' = d_stack d'; opens = existing os a ids
      in willing (d_os d') \<and> shm_names (d_os d') = shm_names os \<and> next_object (d_os d') = next_object os
         \<and> app_ptrs st' = app_ptrs st \<and> app_regions st' = app_regions st \<and> next_app_number st' = next_app_number st
         \<and> tx_queue st' = tx_queue st \<and> socket_futexes st' = socket_futexes st
         \<and> socket_ptrs st' = fold (put_ptr os a) opens (socket_ptrs st)
         \<and> (\<forall>i p. i \<in> set opens \<and> socket_object os a i = Some p \<longrightarrow>
              socket_regions st' p = init_socket a i (socket_regions st p))
         \<and> (\<forall>p. p \<notin> (\<lambda>i. the (socket_object os a i)) ` set opens \<longrightarrow> socket_regions st' p = socket_regions st p)
         \<and> (\<forall>r. new_socket_queues d' r = fold announce_socket (ids_of_prio d a r opens) (new_socket_queues d r))
         \<and> app_local_highest_socket_number d' =
             fold (\<lambda>i L. L[unat a := i]) opens (app_local_highest_socket_number d)
         \<and> app_futexes d' = app_futexes d \<and> d_waitvs d' = d_waitvs d \<and> app_from_futex_nr d' = app_from_futex_nr d)"

lemma init_socket_keeps [simp]:
  "priority (init_socket a i s) = priority s" "protocol (init_socket a i s) = protocol s"
  "pcb (init_socket a i s) = pcb s" "squeue (init_socket a i s) = squeue s"
  "app_index (init_socket a i s) = a" "socket_index (init_socket a i s) = i"
  by (simp_all add: init_socket_def)

lemma mapped_Nil: "willing (d_os d) \<Longrightarrow> mapped a [] d d"
  by (simp add: mapped_def Let_def existing_def ids_of_prio_def)

lemma map_new_socket_spec:
  assumes "willing (d_os d)"
  shows "\<exists>d1. map_new_socket api a i d = Ok d1 \<and> mapped a [i] d d1"
proof (cases "socket_object (d_os d) a i")
  case None
  then have "map_new_socket api a i d = Ok (d\<lparr>d_os := (d_os d)\<lparr>os_calls := Suc (os_calls (d_os d))\<rparr>\<rparr>)"
    using assms by (simp add: map_new_socket_def open_willing socket_object_def)
  with None assms show ?thesis by (simp add: mapped_def Let_def existing_def ids_of_prio_def)
next
  case (Some fd)
  let ?s = "init_socket a i (socket_regions (d_stack d) fd)"
  let ?st1 = "set_socket (set_socket_ptr (d_stack d) a i (Some fd)) fd ?s"
  define lw where "lw = (if protocol ?s = PROTOCOL_TCP \<and> pcb ?s \<noteq> None
    then lw_tcp_arg api (st_lwip ?st1) (pcb ?s) (Some fd) else st_lwip ?st1)"
  have "map_new_socket api a i d = Ok (d\<lparr>d_os := (d_os d)\<lparr>os_calls := Suc (Suc (Suc (os_calls (d_os d))))\<rparr>,
      d_stack := ?st1\<lparr>st_lwip := lw\<rparr>,
      app_local_highest_socket_number := (app_local_highest_socket_number d)[unat a := i],
      new_socket_queues := (let r = prio_queue_of (priority ?s)
        in (new_socket_queues d)(r := announce_socket (a, i) (new_socket_queues d r)))\<rparr>)"
    using Some assms unfolding socket_object_def
    by (auto simp: map_new_socket_def open_willing map_willing Let_def lw_def)
  with Some assms show ?thesis
    by (auto simp: mapped_def Let_def existing_def ids_of_prio_def put_ptr_def set_socket_ptr_def)
qed

lemma socket_object_cong: "shm_names os' = shm_names os \<Longrightarrow> socket_object os' = socket_object os"
  by (simp add: socket_object_def fun_eq_iff)

lemma existing_disjoint:
  assumes "os_inv os" "set xs \<inter> set ys = {}" "i \<in> set (existing os a xs)" "socket_object os a i = Some p"
  shows "p \<notin> (\<lambda>i. the (socket_object os a i)) ` set (existing os a ys)"
proof
  assume "p \<in> (\<lambda>i. the (socket_object os a i)) ` set (existing os a ys)"
  then obtain j where j: "j \<in> set ys" "socket_object os a j = Some p" by (auto simp: existing_def)
  then have "i = j" using socket_object_inject [OF assms(1,4)] by blast
  moreover have "i \<in> set xs" using assms(3) by (simp add: existing_def)
  ultimately show False using j(1) assms(2) by blast
qed

lemma mapped_append:
  assumes m1: "mapped a xs d d1" and m2: "mapped a ys d1 d2" and inv: "os_inv (d_os d)" and disj: "set xs \<inter> set ys = {}"
  shows "mapped a (xs @ ys) d d2"
proof -
  let ?os = "d_os d" and ?st = "d_stack d" and ?st1 = "d_stack d1" and ?st2 = "d_stack d2"
  have names: "shm_names (d_os d1) = shm_names ?os" using m1 by (simp add: mapped_def Let_def)
  note obj = socket_object_cong [OF names]
  have ex: "existing (d_os d1) a = existing ?os a" by (simp add: existing_def obj)
  have put: "put_ptr (d_os d1) a = put_ptr ?os a" by (simp add: put_ptr_def obj fun_eq_iff)
  have out1: "\<And>p. p \<notin> (\<lambda>i. the (socket_object ?os a i)) ` set (existing ?os a xs) \<Longrightarrow> socket_regions ?st1 p = socket_regions ?st p"
    and in1: "\<And>i p. i \<in> set (existing ?os a xs) \<Longrightarrow> socket_object ?os a i = Some p \<Longrightarrow>
       socket_regions ?st1 p = init_socket a i (socket_regions ?st p)"
    using m1 by (simp_all add: mapped_def Let_def)
  have out2: "\<And>p. p \<notin> (\<lambda>i. the (socket_object ?os a i)) ` set (existing ?os a ys) \<Longrightarrow> socket_regions ?st2 p = socket_regions ?st1 p"
    and in2: "\<And>i p. i \<in> set (existing ?os a ys) \<Longrightarrow> socket_object ?os a i = Some p \<Longrightarrow>
       socket_regions ?st2 p = init_socket a i (socket_regions ?st1 p)"
    using m2 by (simp_all add: mapped_def Let_def obj ex)
  note sep = existing_disjoint [OF inv disj, where a = a] and sep' = existing_disjoint [OF inv, of ys xs, where a = a]
  have sy: "set ys \<inter> set xs = {}" using disj by blast
  have regions: "\<forall>i p. i \<in> set (existing ?os a (xs @ ys)) \<and> socket_object ?os a i = Some p \<longrightarrow>
      socket_regions ?st2 p = init_socket a i (socket_regions ?st p)"
  proof (intro allI impI, elim conjE)
    fix i p assume i: "i \<in> set (existing ?os a (xs @ ys))" "socket_object ?os a i = Some p"
    from i(1) consider "i \<in> set (existing ?os a xs)" | "i \<in> set (existing ?os a ys)" by (auto simp: existing_def)
    then show "socket_regions ?st2 p = init_socket a i (socket_regions ?st p)"
    proof cases
      case 1
      with in1 [OF 1 i(2)] out2 [OF sep [OF 1 i(2)]] show ?thesis by simp
    next
      case 2
      with in2 [OF 2 i(2)] out1 [OF sep' [OF sy 2 i(2)]] show ?thesis by simp
    qed
  qed
  have rest: "\<forall>p. p \<notin> (\<lambda>i. the (socket_object ?os a i)) ` set (existing ?os a (xs @ ys)) \<longrightarrow> socket_regions ?st2 p = socket_regions ?st p"
    using out1 out2 by (simp add: existing_def image_Un)
  have prios: "ids_of_prio d1 a r (existing ?os a ys) = ids_of_prio d a r (existing ?os a ys)" for r
  proof -
    have "priority (socket_regions ?st1 (the (socket_object ?os a i))) = priority (socket_regions ?st (the (socket_object ?os a i)))"
      if i: "i \<in> set (existing ?os a ys)" for i
    proof -
      obtain p where p: "socket_object ?os a i = Some p" using i by (auto simp: existing_def)
      show ?thesis using out1 [OF sep' [OF sy i p]] p by simp
    qed
    then show ?thesis by (simp add: ids_of_prio_def obj cong: filter_cong)
  qed
  have "ids_of_prio d a r (existing ?os a (xs @ ys)) = ids_of_prio d a r (existing ?os a xs) @ ids_of_prio d a r (existing ?os a ys)" for r
    by (simp add: ids_of_prio_def existing_def)
  then have queues: "\<forall>r. new_socket_queues d2 r = fold announce_socket (ids_of_prio d a r (existing ?os a (xs @ ys))) (new_socket_queues d r)"
    using m1 m2 prios by (simp add: mapped_def Let_def ex)
  show ?thesis
    unfolding mapped_def Let_def
    using m1 m2 regions rest queues unfolding mapped_def Let_def ex put names
    by (simp add: existing_def)
qed

text \<open>The numbers of the sockets after \<open>k\<close>, up to \<open>k + n\<close>.\<close>

definition nums :: "nat \<Rightarrow> nat \<Rightarrow> u32 list" where
  "nums k n = map of_nat [Suc k..<Suc (k + n)]"

lemma nums_0 [simp]: "nums k 0 = []"
  by (simp add: nums_def)

lemma length_nums [simp]: "length (nums k n) = n"
  by (simp add: nums_def del: upt_Suc)

lemma nums_Suc: "nums k (Suc n) = of_nat (Suc k) # nums (Suc k) n"
  by (simp add: nums_def upt_conv_Cons del: upt_Suc of_nat_Suc)

lemma map_sockets_loop_step:
  "i \<le> h \<Longrightarrow> map_new_socket api a i d = Ok d1 \<Longrightarrow> map_sockets_loop api a i h d = map_sockets_loop api a (i + 1) h d1"
  by (simp add: map_sockets_loop.simps [of api a i])

lemma map_sockets_loop_spec:
  assumes "willing (d_os d)" "os_inv (d_os d)" "k + n < 2 ^ 32 - 1"
  shows "\<exists>d'. map_sockets_loop api a (of_nat (Suc k)) (of_nat (k + n)) d = Some (Ok d') \<and> mapped a (nums k n) d d'"
  using assms
proof (induction n arbitrary: k d)
  case 0
  have "\<not> (of_nat (Suc k) :: u32) \<le> of_nat k"
    using "0.prems"(3) by (simp add: word_le_nat_alt unat_of_nat del: of_nat_Suc)
  with 0 show ?case by (simp add: map_sockets_loop.simps mapped_Nil del: of_nat_Suc)
next
  case (Suc n)
  have le: "(of_nat (Suc k) :: u32) \<le> of_nat (k + Suc n)"
    using Suc.prems(3) by (simp add: word_le_nat_alt unat_of_nat del: of_nat_Suc of_nat_add)
  obtain d1 where d1: "map_new_socket api a (of_nat (Suc k)) d = Ok d1" "mapped a [of_nat (Suc k)] d d1"
    using map_new_socket_spec [OF Suc.prems(1)] by blast
  have "willing (d_os d1)" "os_inv (d_os d1)" using d1(2) Suc.prems(2) by (simp_all add: mapped_def Let_def os_inv_def)
  with Suc.IH [of d1 "Suc k"] Suc.prems(3) obtain d2 where
    d2: "map_sockets_loop api a (of_nat (Suc (Suc k))) (of_nat (Suc k + n)) d1 = Some (Ok d2)" "mapped a (nums (Suc k) n) d1 d2" by auto
  have "of_nat (Suc k) \<notin> set (nums (Suc k) n)"
    using Suc.prems(3) by (auto simp: nums_def word_eq_iff_unat unat_of_nat simp del: of_nat_Suc upt_Suc)
  then have "mapped a (nums k (Suc n)) d d2"
    using mapped_append [OF d1(2) d2(2) Suc.prems(2)] by (simp add: nums_Suc del: of_nat_Suc)
  moreover have "map_sockets_loop api a (of_nat (Suc k)) (of_nat (k + Suc n)) d = Some (Ok d2)"
    using map_sockets_loop_step [OF le d1(1)] d2(1) by (simp add: add.commute)
  ultimately show ?case by blast
qed

section \<open>The queues of new sockets\<close>

definition ns_inv :: "new_socket_queue \<Rightarrow> bool" where
  "ns_inv q \<longleftrightarrow> rb_inv (socket_queue q) (socket_queue_buffer q)"

definition ns_list :: "new_socket_queue \<Rightarrow> (u32 \<times> u32) list" where
  "ns_list q = rb_list (socket_queue q) (socket_queue_buffer q)"

definition ns_cap :: "new_socket_queue \<Rightarrow> nat" where
  "ns_cap q = unat (rb_end (socket_queue q)) - 1"

lemma ns_list_bound: "ns_inv q \<Longrightarrow> length (ns_list q) \<le> ns_cap q"
  using rbq.bounded [of "(socket_queue q, socket_queue_buffer q)"] by (simp add: ns_inv_def ns_list_def ns_cap_def rbq_cap_def)

lemma announce_socket_spec:
  assumes "ns_inv q"
  shows "ns_inv (announce_socket x q)" "ns_list (announce_socket x q) = take (ns_cap q) (ns_list q @ [x])"
    "ns_cap (announce_socket x q) = ns_cap q" "socket_queue_futex (announce_socket x q) = socket_queue_futex q + 1"
proof -
  obtain ok rb buf where put: "ring_buffer_put (socket_queue q) (socket_queue_buffer q) x = (ok, rb, buf)" by (metis prod_cases3)
  have c: "rbq_put (socket_queue q, socket_queue_buffer q) x = (ok, (rb, buf))" using put by simp
  have i: "case (socket_queue q, socket_queue_buffer q) of (rb, buf) \<Rightarrow> rb_inv rb buf" using assms by (simp add: ns_inv_def)
  note p = rbq.put_cases [OF i c]
  have e: "announce_socket x q = q\<lparr>socket_queue := rb, socket_queue_buffer := buf, socket_queue_futex := socket_queue_futex q + 1\<rparr>"
    using put by (simp add: announce_socket_def)
  show "ns_inv (announce_socket x q)" "ns_cap (announce_socket x q) = ns_cap q"
    "socket_queue_futex (announce_socket x q) = socket_queue_futex q + 1"
    using p(1,2) by (simp_all add: e ns_inv_def ns_cap_def rbq_cap_def)
  show "ns_list (announce_socket x q) = take (ns_cap q) (ns_list q @ [x])"
  proof -
    have "ns_list (announce_socket x q) = (if length (ns_list q) < ns_cap q then ns_list q @ [x] else ns_list q)"
      using p(3,4) by (simp add: e ns_list_def ns_cap_def rbq_cap_def)
    then show ?thesis by (simp only: take_snoc_push [OF ns_list_bound [OF assms]])
  qed
qed

lemma take_push: "take c (take c xs @ ys) = take c (xs @ ys)"
  by (cases "length xs \<le> c") auto

lemma announce_sockets_spec:
  assumes "ns_inv q"
  shows "ns_inv (fold announce_socket ids q) \<and> ns_list (fold announce_socket ids q) = take (ns_cap q) (ns_list q @ ids)
    \<and> ns_cap (fold announce_socket ids q) = ns_cap q
    \<and> socket_queue_futex (fold announce_socket ids q) = socket_queue_futex q + of_nat (length ids)"
  using assms
proof (induction ids arbitrary: q)
  case Nil
  then show ?case using ns_list_bound by simp
next
  case (Cons x ids)
  note a = announce_socket_spec [OF Cons.prems, of x]
  from Cons.IH [OF a(1)] show ?case using take_push [of "ns_cap q" "ns_list q @ [x]" ids] by (simp add: a add.assoc)
qed

lemma new_socket_get:
  assumes "ns_inv q"
  shows "ns_list q = [] \<Longrightarrow> ring_buffer_get (socket_queue q) (socket_queue_buffer q) = (None, socket_queue q)"
    "ns_list q = x # xs \<Longrightarrow> \<exists>rb. ring_buffer_get (socket_queue q) (socket_queue_buffer q) = (Some x, rb)
       \<and> ns_inv (q\<lparr>socket_queue := rb\<rparr>) \<and> ns_list (q\<lparr>socket_queue := rb\<rparr>) = xs \<and> ns_cap (q\<lparr>socket_queue := rb\<rparr>) = ns_cap q"
proof -
  let ?q = "(socket_queue q, socket_queue_buffer q)"
  have i: "case ?q of (rb, buf) \<Rightarrow> rb_inv rb buf" using assms by (simp add: ns_inv_def)
  show "ring_buffer_get (socket_queue q) (socket_queue_buffer q) = (None, socket_queue q)" if "ns_list q = []"
    using rbq.get_none [OF i] that by (auto simp: ns_list_def split: prod.splits)
  assume l: "ns_list q = x # xs"
  obtain a rb where g: "ring_buffer_get (socket_queue q) (socket_queue_buffer q) = (a, rb)" by force
  then have c: "rbq_get ?q = (a, (rb, socket_queue_buffer q))" by simp
  have ne: "(case ?q of (rb, buf) \<Rightarrow> rb_list rb buf) \<noteq> []" using l by (simp add: ns_list_def)
  from rbq.get_some [OF i ne c] l g show "\<exists>rb. ring_buffer_get (socket_queue q) (socket_queue_buffer q) = (Some x, rb)
       \<and> ns_inv (q\<lparr>socket_queue := rb\<rparr>) \<and> ns_list (q\<lparr>socket_queue := rb\<rparr>) = xs \<and> ns_cap (q\<lparr>socket_queue := rb\<rparr>) = ns_cap q"
    by (auto simp: ns_inv_def ns_list_def ns_cap_def rbq_cap_def)
qed

lemma add_new_sockets_spec:
  assumes "ns_inv q" "is_list l es" "\<And>l es. is_list l es \<Longrightarrow> fresh_node l (malloc l)" "ns_list q = xs" "length es + length xs < 2 ^ 32"
  shows "\<exists>q' l'. add_new_sockets malloc q l shadow = Some (Some (q', l', shadow + of_nat (length xs)))
    \<and> is_list l' (rev xs @ es) \<and> ns_inv q' \<and> ns_list q' = [] \<and> ns_cap q' = ns_cap q
    \<and> socket_queue_futex q' = socket_queue_futex q"
  using assms(1,2,4,5)
proof (induction xs arbitrary: q l es shadow)
  case Nil
  from new_socket_get(1) [OF Nil(1,3)] Nil show ?case by (simp add: add_new_sockets.simps [of malloc q])
next
  case (Cons x xs)
  obtain rb where g: "ring_buffer_get (socket_queue q) (socket_queue_buffer q) = (Some x, rb)"
    "ns_inv (q\<lparr>socket_queue := rb\<rparr>)" "ns_list (q\<lparr>socket_queue := rb\<rparr>) = xs" "ns_cap (q\<lparr>socket_queue := rb\<rparr>) = ns_cap q"
    using new_socket_get(2) [OF Cons.prems(1,3)] by blast
  have "length es + 1 < 2 ^ 32" using Cons.prems(4) by simp
  from list_updates(1) [OF Cons.prems(2) assms(3) [OF Cons.prems(2)] this, of x] obtain l1 where
    l1: "ListPushFront (malloc l) l x = Some (True, l1)" "is_list l1 (x # es)" by (auto simp: changes_def)
  have "length (x # es) + length xs < 2 ^ 32" using Cons.prems(4) by simp
  from Cons.IH [OF g(2) l1(2) g(3) this, of "shadow + 1"] g(1,4) l1(1)
  show ?case by (simp add: add_new_sockets.simps [of malloc q] add.assoc)
qed

text \<open>
  What happens to a queue of new sockets and to the thread it belongs to: discovery announces a socket, the thread
  empties the queue at the start of a round, and the rest of its round leaves it any list. \<open>zs\<close> are the sockets
  announced since the start, \<open>ws\<close> those the thread has taken, both in order.
\<close>

inductive thread_history ::
    "((u32 \<times> u32) list_data \<Rightarrow> nat option) \<Rightarrow> new_socket_queue \<Rightarrow> (u32 \<times> u32) list_data \<Rightarrow> u32
     \<Rightarrow> new_socket_queue \<Rightarrow> (u32 \<times> u32) list_data \<Rightarrow> u32 \<Rightarrow> (u32 \<times> u32) list \<Rightarrow> (u32 \<times> u32) list \<Rightarrow> bool"
  for malloc q l shadow where
  start: "thread_history malloc q l shadow q l shadow [] []"
| announced: "thread_history malloc q l shadow q1 l1 shadow1 zs ws \<Longrightarrow>
    thread_history malloc q l shadow (announce_socket x q1) l1 shadow1 (zs @ [x]) ws"
| taken: "thread_history malloc q l shadow q1 l1 shadow1 zs ws \<Longrightarrow>
    add_new_sockets malloc q1 l1 shadow1 = Some (Some (q2, l2, shadow2)) \<Longrightarrow>
    thread_history malloc q l shadow q2 l2 shadow2 zs (ws @ ns_list q1)"
| served: "thread_history malloc q l shadow q1 l1 shadow1 zs ws \<Longrightarrow>
    thread_history malloc q l shadow q1 l2 shadow1 zs ws"

lemma add_new_sockets_takes_all:
  assumes "ns_inv q" "add_new_sockets malloc q l shadow = Some (Some (q', l', shadow'))"
  shows "ns_inv q' \<and> ns_list q' = [] \<and> shadow' = shadow + of_nat (length (ns_list q))
    \<and> socket_queue_futex q' = socket_queue_futex q"
  using assms
proof (induction "ns_list q" arbitrary: q l shadow)
  case Nil
  from new_socket_get(1) [OF Nil(2)] Nil show ?case by (auto simp: add_new_sockets.simps [of malloc q])
next
  case (Cons x xs)
  obtain rb where g: "ring_buffer_get (socket_queue q) (socket_queue_buffer q) = (Some x, rb)"
    "ns_inv (q\<lparr>socket_queue := rb\<rparr>)" "ns_list (q\<lparr>socket_queue := rb\<rparr>) = xs"
    using new_socket_get(2) [OF Cons.prems(1) Cons.hyps(2) [symmetric]] by blast
  then obtain ok l1 where "add_new_sockets malloc (q\<lparr>socket_queue := rb\<rparr>) l1 (shadow + 1) = Some (Some (q', l', shadow'))"
    using Cons.prems(2) by (auto simp: add_new_sockets.simps [of malloc q] split: option.splits)
  from Cons.hyps(1) [OF g(3) [symmetric] g(2) this] g(3) Cons.hyps(2) [symmetric] show ?case by (simp add: add.assoc)
qed

lemma thread_history_counts:
  assumes "thread_history malloc q l shadow q2 l2 shadow2 zs ws" "ns_inv q" "ns_list q = []"
  shows "ns_inv q2 \<and> subseq (ws @ ns_list q2) zs \<and> shadow2 = shadow + of_nat (length ws)
    \<and> socket_queue_futex q2 = socket_queue_futex q + of_nat (length zs)"
  using assms
proof (induction rule: thread_history.induct)
  case (announced q1 l1 shadow1 zs ws x)
  have "subseq (ws @ take (ns_cap q1) (ns_list q1 @ [x])) (ws @ ns_list q1 @ [x])"
    by (intro list_emb_append_mono prefix_imp_subseq take_is_prefix) simp
  also have "subseq (ws @ ns_list q1 @ [x]) (zs @ [x])" using announced list_emb_append_mono [of "(=)" "ws @ ns_list q1" zs "[x]" "[x]"] by simp
  finally show ?case using announced by (simp add: announce_socket_spec add.assoc)
next
  case (taken q1 l1 shadow1 zs ws q2 l2 shadow2)
  with add_new_sockets_takes_all [OF _ taken.hyps(2)] show ?case by (simp add: add.assoc)
qed auto

section \<open>Properties\<close>


text \<open>Pointers and counters after mapping.\<close>

lemma put_ptr_simps [simp]:
  "length (put_ptr os a j P) = length P"
  "unat a < length P \<Longrightarrow> put_ptr os a j P ! unat a = (P ! unat a)[unat j := socket_object os a j]"
  by (simp_all add: put_ptr_def)

lemma put_ptr_fold:
  assumes "unat a < length P"
  shows "length (fold (put_ptr os a) ids P) = length P \<and> length (fold (put_ptr os a) ids P ! unat a) = length (P ! unat a)
    \<and> (\<forall>i. unat i < length (P ! unat a) \<longrightarrow>
        fold (put_ptr os a) ids P ! unat a ! unat i = (if i \<in> set ids then socket_object os a i else P ! unat a ! unat i))"
  using assms
proof (induction ids rule: rev_induct)
  case (snoc j ids)
  let ?P = "fold (put_ptr os a) ids P"
  have e: "fold (put_ptr os a) (ids @ [j]) P ! unat a = (?P ! unat a)[unat j := socket_object os a j]"
    "length (fold (put_ptr os a) (ids @ [j]) P) = length P"
    using snoc by simp_all
  have "fold (put_ptr os a) (ids @ [j]) P ! unat a ! unat i =
      (if i \<in> set (ids @ [j]) then socket_object os a i else P ! unat a ! unat i)" if "unat i < length (P ! unat a)" for i
    using snoc that word_eq_iff_unat [of i j] by (cases "i = j") (auto simp: e(1) nth_list_update)
  with e snoc show ?case by simp
qed simp

lemma local_fold:
  "k < length L \<Longrightarrow> fold (\<lambda>i L. L[k := i]) ids L ! k = last (L ! k # ids) \<and> length (fold (\<lambda>i L. L[k := i]) ids L) = length L"
  by (induction ids arbitrary: L) auto

lemma map_new_sockets_spec:
  assumes "willing (d_os d)" "os_inv (d_os d)" "app_counter (d_stack d) a = Some h" "unat h < 2 ^ 32 - 1"
    and "c = app_local_highest_socket_number d ! unat a"
  shows "\<exists>d'. map_new_sockets api a d = Some (Ok d') \<and> mapped a (nums (unat c) (unat h - unat c)) d d'"
proof (cases "c < h")
  case True
  then have "unat c + (unat h - unat c) = unat h" by (simp add: word_less_nat_alt)
  with map_sockets_loop_spec [OF assms(1,2), of "unat c" "unat h - unat c" api a] assms(3-5) True
  show ?thesis by (simp add: map_new_sockets_def add.commute)
next
  case False
  then have "unat h - unat c = 0" by (simp add: word_less_nat_alt)
  with False assms mapped_Nil [OF assms(1)] show ?thesis by (simp add: map_new_sockets_def)
qed

text \<open>
  When the socket counter of an application has grown, \<open>map_new_sockets\<close> maps exactly the sockets with
  the new numbers whose region exists: their pointers enter the table, the stack's queues and buffers in
  the region are set up, the region of every other socket is untouched, and each identifier goes, in
  order, to the queue of its priority, which keeps as many as fit; its futex counts all of them.
\<close>

theorem map_new_sockets_maps:
  assumes "willing (d_os d)" "os_inv (d_os d)" "app_counter (d_stack d) a = Some h" "unat h < MAX_SOCKETS_PER_APP"
    and "unat a < length (socket_ptrs (d_stack d))" "length (socket_ptrs (d_stack d) ! unat a) = MAX_SOCKETS_PER_APP"
    and "unat a < length (app_local_highest_socket_number d)" "\<And>r. ns_inv (new_socket_queues d r)"
    and "c = app_local_highest_socket_number d ! unat a" "ids = existing (d_os d) a (nums (unat c) (unat h - unat c))"
  shows "\<exists>d'. map_new_sockets api a d = Some (Ok d')
     \<and> (\<forall>i. unat i < MAX_SOCKETS_PER_APP \<longrightarrow> socket_ptrs (d_stack d') ! unat a ! unat i =
          (if i \<in> set ids then socket_object (d_os d) a i else socket_ptrs (d_stack d) ! unat a ! unat i))
     \<and> (\<forall>i\<in>set ids. socket_regions (d_stack d') (the (socket_object (d_os d) a i)) =
          init_socket a i (socket_regions (d_stack d) (the (socket_object (d_os d) a i))))
     \<and> (\<forall>p. p \<notin> (\<lambda>i. the (socket_object (d_os d) a i)) ` set ids \<longrightarrow>
          socket_regions (d_stack d') p = socket_regions (d_stack d) p)
     \<and> (\<forall>r. ns_list (new_socket_queues d' r) =
              take (ns_cap (new_socket_queues d r)) (ns_list (new_socket_queues d r) @ ids_of_prio d a r ids)
          \<and> socket_queue_futex (new_socket_queues d' r) =
              socket_queue_futex (new_socket_queues d r) + of_nat (length (ids_of_prio d a r ids)))
     \<and> app_local_highest_socket_number d' ! unat a = last (c # ids)"
proof -
  have "unat h < 2 ^ 32 - 1" using assms(4) by (simp add: MAX_SOCKETS_PER_APP_def)
  then obtain d' where d': "map_new_sockets api a d = Some (Ok d')" "mapped a (nums (unat c) (unat h - unat c)) d d'"
    using map_new_sockets_spec [OF assms(1-3) _ assms(9)] by blast
  note m = d'(2) [unfolded mapped_def Let_def assms(10) [symmetric]]
  have "\<forall>i\<in>set ids. \<exists>p. socket_object (d_os d) a i = Some p" unfolding assms(10) existing_def by auto
  then have reg: "\<forall>i\<in>set ids. socket_regions (d_stack d') (the (socket_object (d_os d) a i)) =
      init_socket a i (socket_regions (d_stack d) (the (socket_object (d_os d) a i)))" using m by fastforce
  have q: "ns_list (new_socket_queues d' r) =
        take (ns_cap (new_socket_queues d r)) (ns_list (new_socket_queues d r) @ ids_of_prio d a r ids)
      \<and> socket_queue_futex (new_socket_queues d' r) =
        socket_queue_futex (new_socket_queues d r) + of_nat (length (ids_of_prio d a r ids))" for r
    using m announce_sockets_spec [OF assms(8) [of r], of "ids_of_prio d a r ids"] by simp
  show ?thesis
    using d'(1) m reg q put_ptr_fold [OF assms(5), of "d_os d" ids] local_fold [OF assms(7), of ids] assms(6,9) by auto
qed

text \<open>
  C22. From discovery to service: when the queue of a priority was empty and its futex agreed with the
  shadow of the priority thread, then after mapping new sockets the thread adds to its list the first nine
  of that priority and no other. Its shadow agrees with the futex again exactly when there were at most
  nine. Every further socket is lost: whatever discovery announces and the thread takes later, the thread
  gets only sockets announced later, and unless 2^32 sockets have been announced, which wraps the futex,
  its shadow, the value it waits with, never agrees with the futex again.
\<close>

theorem new_sockets_reach_their_thread:
  assumes "willing (d_os d)" "os_inv (d_os d)" "app_counter (d_stack d) a = Some h" "unat h < MAX_SOCKETS_PER_APP"
    and "ns_inv (new_socket_queues d r)" "ns_list (new_socket_queues d r) = []" "ns_cap (new_socket_queues d r) = 9"
    and "shadow = socket_queue_futex (new_socket_queues d r)" "is_list l es" "\<And>l es. is_list l es \<Longrightarrow> fresh_node l (malloc l)" "length es + 9 < 2 ^ 32"
    and "c = app_local_highest_socket_number d ! unat a"
    and "ids = ids_of_prio d a r (existing (d_os d) a (nums (unat c) (unat h - unat c)))"
  shows "\<exists>d' q l' shadow'. map_new_sockets api a d = Some (Ok d')
     \<and> add_new_sockets malloc (new_socket_queues d' r) l shadow = Some (Some (q, l', shadow'))
     \<and> is_list l' (rev (take 9 ids) @ es) \<and> ns_list q = []
     \<and> (shadow' = socket_queue_futex q \<longleftrightarrow> length ids \<le> 9)
     \<and> (\<forall>q2 l2 shadow2 zs ws. thread_history malloc q l' shadow' q2 l2 shadow2 zs ws \<longrightarrow> subseq ws zs
          \<and> (9 < length ids \<and> length ids + length zs < 2 ^ 32 \<longrightarrow> shadow2 \<noteq> socket_queue_futex q2))"
proof -
  have h: "unat h < 2 ^ 32 - 1" using assms(4) by (simp add: MAX_SOCKETS_PER_APP_def)
  then obtain d' where d': "map_new_sockets api a d = Some (Ok d')" "mapped a (nums (unat c) (unat h - unat c)) d d'"
    using map_new_sockets_spec [OF assms(1-3) _ assms(12)] by blast
  have q: "new_socket_queues d' r = fold announce_socket ids (new_socket_queues d r)"
    using d'(2) by (simp add: mapped_def Let_def assms(13))
  note a = announce_sockets_spec [OF assms(5), of ids, folded q, unfolded assms(6,7) append_Nil]
  have "length es + length (take 9 ids) < 2 ^ 32" using assms(11) by simp
  have "\<exists>q' l'. add_new_sockets malloc (new_socket_queues d' r) l shadow = Some (Some (q', l', shadow + of_nat (length (take 9 ids))))
      \<and> is_list l' (rev (take 9 ids) @ es) \<and> ns_inv q' \<and> ns_list q' = [] \<and> ns_cap q' = ns_cap (new_socket_queues d' r)
      \<and> socket_queue_futex q' = socket_queue_futex (new_socket_queues d' r)"
    by (rule add_new_sockets_spec [OF _ assms(9,10) _ \<open>length es + length (take 9 ids) < 2 ^ 32\<close>]) (use a in auto)
  then obtain q' l' where
    q': "add_new_sockets malloc (new_socket_queues d' r) l shadow = Some (Some (q', l', shadow + of_nat (length (take 9 ids))))"
      "is_list l' (rev (take 9 ids) @ es)" "ns_list q' = []" "socket_queue_futex q' = shadow + of_nat (length ids)" "ns_inv q'"
    using a assms(8) by (auto simp del: length_take)
  have "length ids \<le> unat h - unat c"
  proof -
    have "length ids \<le> length (existing (d_os d) a (nums (unat c) (unat h - unat c)))" by (simp add: assms(13) ids_of_prio_def)
    also have "\<dots> \<le> length (nums (unat c) (unat h - unat c))" unfolding existing_def by (rule length_filter_le)
    finally show ?thesis by simp
  qed
  then have "length ids < 2 ^ 32" using h by simp
  then have "(of_nat (length (take 9 ids)) :: u32) = of_nat (length ids) \<longleftrightarrow> length ids \<le> 9"
    by (simp add: word_eq_iff_unat unat_of_nat min_def)
  then have agree: "shadow + of_nat (length (take 9 ids)) = socket_queue_futex q' \<longleftrightarrow> length ids \<le> 9" using q'(4) by simp
  have later: "subseq ws zs \<and> (9 < length ids \<and> length ids + length zs < 2 ^ 32 \<longrightarrow> shadow2 \<noteq> socket_queue_futex q2)"
    if "thread_history malloc q' l' (shadow + of_nat (length (take 9 ids))) q2 l2 shadow2 zs ws" for q2 l2 shadow2 zs ws
  proof -
    note t = thread_history_counts [OF that q'(5,3)]
    then have s: "subseq ws zs" using subseq_order.trans [of ws "ws @ ns_list q2" zs] by (simp add: prefix_imp_subseq)
    moreover have "shadow2 \<noteq> socket_queue_futex q2" if n: "9 < length ids" "length ids + length zs < 2 ^ 32"
    proof -
      have "length ws \<le> length zs" using s by (rule list_emb_length)
      then have "9 + length ws < length ids + length zs" using n(1) by linarith
      then have "unat (of_nat (9 + length ws) :: u32) \<noteq> unat (of_nat (length ids + length zs) :: u32)"
        using n(2) by (simp add: unat_of_nat take_bit_nat_eq_self del: of_nat_add)
      then have "(of_nat (9 + length ws) :: u32) \<noteq> of_nat (length ids + length zs)" by metis
      then show ?thesis using t q'(4) n(1) by (simp add: add.assoc)
    qed
    ultimately show ?thesis by blast
  qed
  show ?thesis
    by (intro exI conjI allI impI, rule d'(1), rule q'(1), rule q'(2), rule q'(3), rule agree) (use later in blast)+
qed


text \<open>The state of \<open>fill_waitv\<close> after the applications below \<open>n\<close>.\<close>

definition present :: "'l stack \<Rightarrow> nat \<Rightarrow> u32 list" where
  "present st n = filter (\<lambda>a. app_ptrs st ! unat a \<noteq> None) (map of_nat [0..<n])"

definition app_entry :: "'l stack \<Rightarrow> u32 \<Rightarrow> futex_waitv" where
  "app_entry st a = waitv_entry (App_Futex (the (app_ptrs st ! unat a))) (the (app_counter st a))"

definition waiting :: "'l discovery \<Rightarrow> nat \<Rightarrow> u8 \<times> 'l discovery \<Rightarrow> bool" where
  "waiting d n = (\<lambda>(amount, d').
     let st = d_stack d; m = length (present st n)
     in willing (d_os d') \<and> shm_names (d_os d') = shm_names (d_os d) \<and> next_object (d_os d') = next_object (d_os d)
        \<and> app_ptrs (d_stack d') = app_ptrs st \<and> app_regions (d_stack d') = app_regions st
        \<and> next_app_number (d_stack d') = next_app_number st \<and> unat amount = m
        \<and> length (d_waitvs d') = length (d_waitvs d) \<and> length (app_from_futex_nr d') = length (app_from_futex_nr d)
        \<and> length (app_futexes d') = length (app_futexes d)
        \<and> take m (d_waitvs d') = map (app_entry st) (present st n) \<and> take m (app_from_futex_nr d') = present st n
        \<and> (\<forall>a \<in> set (present st n). app_futexes d' ! unat a = the (app_counter st a)))"

lemma present_Suc: "present st (Suc n) = present st n @ (if app_ptrs st ! unat (of_nat n :: u32) = None then [] else [of_nat n])"
  by (simp add: present_def)

lemma length_present: "length (present st n) \<le> n"
  unfolding present_def by (rule order_trans [OF length_filter_le]) simp

lemma fill_app_spec:
  assumes "waiting d n (amount, d1)" "os_inv (d_os d)" "n < length (app_futexes d)" "n < 100"
    and "100 \<le> length (d_waitvs d)" "100 \<le> length (app_from_futex_nr d)"
    and "\<And>h. app_counter (d_stack d) (of_nat n) = Some h \<Longrightarrow> unat h < 2 ^ 32 - 1"
  shows "\<exists>x. fill_app api (of_nat n) (amount, d1) = Some (Ok x) \<and> waiting d (Suc n) x"
proof -
  let ?a = "of_nat n :: u32" and ?st = "d_stack d" and ?m = "length (present (d_stack d) n)"
  have ua: "unat ?a = n" using assms(4) by (simp add: unat_of_nat)
  have w: "willing (d_os d1)" "app_ptrs (d_stack d1) = app_ptrs ?st" "app_regions (d_stack d1) = app_regions ?st"
    "shm_names (d_os d1) = shm_names (d_os d)" "next_object (d_os d1) = next_object (d_os d)" "unat amount = ?m"
    "length (d_waitvs d1) = length (d_waitvs d)" "length (app_from_futex_nr d1) = length (app_from_futex_nr d)"
    "length (app_futexes d1) = length (app_futexes d)" "take ?m (d_waitvs d1) = map (app_entry ?st) (present ?st n)"
    "take ?m (app_from_futex_nr d1) = present ?st n" "next_app_number (d_stack d1) = next_app_number ?st"
    "\<forall>a \<in> set (present ?st n). app_futexes d1 ! unat a = the (app_counter ?st a)"
    using assms(1) by (simp_all add: waiting_def Let_def)
  have inv: "os_inv (d_os d1)" using assms(2) w(4,5) by (simp add: os_inv_def)
  have cnt: "app_counter (d_stack d1) = app_counter ?st" by (simp add: app_counter_def fun_eq_iff w(2,3))
  have m: "?m < 100" using length_present [of ?st n] assms(4) by linarith
  show ?thesis
  proof (cases "app_ptrs ?st ! n")
    case None
    with assms(1) w(2) ua show ?thesis by (simp add: fill_app_def waiting_def Let_def present_Suc)
  next
    case (Some r)
    let ?h = "highest_socket_number (app_regions ?st r)"
    have h: "app_counter ?st ?a = Some ?h" using Some ua by (simp add: app_counter_def)
    let ?d1 = "d1\<lparr>app_futexes := (app_futexes d1)[n := ?h]\<rparr>"
    have "\<exists>d2. (if ?h \<noteq> app_futexes d1 ! n then handle_new_sockets api ?a d1 else Some (Ok d1)) = Some (Ok d2)
      \<and> willing (d_os d2) \<and> shm_names (d_os d2) = shm_names (d_os d) \<and> next_object (d_os d2) = next_object (d_os d)
      \<and> app_ptrs (d_stack d2) = app_ptrs ?st \<and> app_regions (d_stack d2) = app_regions ?st
      \<and> next_app_number (d_stack d2) = next_app_number ?st \<and> d_waitvs d2 = d_waitvs d1 \<and> app_from_futex_nr d2 = app_from_futex_nr d1
      \<and> app_futexes d2 = (app_futexes d1)[n := ?h]"
    proof (cases "?h = app_futexes d1 ! n")
      case True
      then have "app_futexes d1 = (app_futexes d1)[n := ?h]" by simp
      with True w show ?thesis by auto
    next
      case False
      have "handle_new_sockets api ?a d1 = map_new_sockets api ?a ?d1"
        using h ua by (simp add: handle_new_sockets_def cnt)
      moreover obtain d2 where "map_new_sockets api ?a ?d1 = Some (Ok d2)"
        "mapped ?a (nums (unat (app_local_highest_socket_number d1 ! n)) (unat ?h - unat (app_local_highest_socket_number d1 ! n))) ?d1 d2"
        using map_new_sockets_spec [of ?d1 ?a ?h _ api] w(1) inv cnt h assms(7) [OF h] ua by auto
      ultimately show ?thesis using False w by (auto simp: mapped_def Let_def)
    qed
    then obtain d2 where d2: "(if ?h \<noteq> app_futexes d1 ! n then handle_new_sockets api ?a d1 else Some (Ok d1)) = Some (Ok d2)"
      "willing (d_os d2)" "shm_names (d_os d2) = shm_names (d_os d)" "next_object (d_os d2) = next_object (d_os d)"
      "app_ptrs (d_stack d2) = app_ptrs ?st" "app_regions (d_stack d2) = app_regions ?st"
      "next_app_number (d_stack d2) = next_app_number ?st" "d_waitvs d2 = d_waitvs d1" "app_from_futex_nr d2 = app_from_futex_nr d1"
      "app_futexes d2 = (app_futexes d1)[n := ?h]" by blast
    let ?x = "(amount + 1, d2\<lparr>d_waitvs := (d_waitvs d1)[?m := waitv_entry (App_Futex r) ?h],
                     app_from_futex_nr := (app_from_futex_nr d1)[?m := ?a]\<rparr>)"
    have fut: "app_futexes d2 ! n = ?h" using d2(10) w(9) assms(3) by simp
    have "fill_app api ?a (amount, d1) = Some (Ok ?x)"
      using Some ua d2(1) fut w(2,3,6) d2(8,9) by (simp add: fill_app_def split: if_splits)
    moreover have "waiting d (Suc n) ?x"
    proof -
      have p: "present ?st (Suc n) = present ?st n @ [?a]" using Some ua by (simp add: present_Suc)
      have am: "unat (amount + 1) = Suc ?m" using w(6) m by (simp add: unat_word_ariths)
      have k: "?m < length (d_waitvs d1)" "?m < length (app_from_futex_nr d1)" using m w(7,8) assms(5,6) by auto
      have e: "app_entry ?st ?a = waitv_entry (App_Futex r) ?h" using Some h ua by (simp add: app_entry_def)
      have f: "\<forall>a \<in> set (present ?st (Suc n)). app_futexes d2 ! unat a = the (app_counter ?st a)"
      proof
        fix a assume "a \<in> set (present ?st (Suc n))"
        then consider "a = ?a" | "a \<in> set (present ?st n)" using p by auto
        then show "app_futexes d2 ! unat a = the (app_counter ?st a)"
        proof cases
          case 1
          then show ?thesis using fut h ua by simp
        next
          case 2
          then have "unat a \<noteq> n" using assms(4) by (auto simp: present_def unat_of_nat)
          with 2 show ?thesis using w(13) d2(10) by simp
        qed
      qed
      show ?thesis unfolding waiting_def Let_def p
        using d2 w am k e f take_update [OF k(1)] take_update [OF k(2)] p by (simp add: list_update_append)
    qed
    ultimately show ?thesis by blast
  qed
qed

lemma fill_waitv_loop_spec:
  assumes "waiting d n x" "os_inv (d_os d)" "unat (next_app_number (d_stack d)) = n + k" "n + k \<le> 100"
    and "100 \<le> length (app_futexes d)" "100 \<le> length (d_waitvs d)" "100 \<le> length (app_from_futex_nr d)"
    and "\<And>a h. app_counter (d_stack d) a = Some h \<Longrightarrow> unat h < 2 ^ 32 - 1"
  shows "\<exists>y. fill_waitv_loop api (of_nat n) x = Some (Ok y) \<and> waiting d (n + k) y"
  using assms(1,3,4)
proof (induction k arbitrary: n x)
  case 0
  then have "unat (of_nat n :: u32) = n" by (simp add: unat_of_nat)
  then have "\<not> of_nat n < next_app_number (d_stack (snd x))"
    using 0 by (auto simp: waiting_def Let_def word_less_nat_alt)
  with 0 show ?case by (simp add: fill_waitv_loop.simps [of api _ x])
next
  case (Suc k)
  have "unat (of_nat n :: u32) = n" using Suc.prems(3) by (simp add: unat_of_nat)
  then have lt: "of_nat n < next_app_number (d_stack (snd x))"
    using Suc.prems by (auto simp: waiting_def Let_def word_less_nat_alt)
  have w: "waiting d n (fst x, snd x)" using Suc.prems(1) by simp
  have "n < length (app_futexes d)" "n < 100" using Suc.prems(3) assms(5) by linarith+
  from fill_app_spec [OF w assms(2) this assms(6,7) assms(8) [of "of_nat n"], where api = api] obtain x1 where
    x1: "fill_app api (of_nat n) x = Some (Ok x1)" "waiting d (Suc n) x1" by auto
  from Suc.IH [OF x1(2)] Suc.prems(2,3) obtain y where
    "fill_waitv_loop api (of_nat (Suc n)) x1 = Some (Ok y)" "waiting d (n + Suc k) y" by auto
  with lt x1(1) show ?case by (simp add: fill_waitv_loop.simps [of api "of_nat n" x] add.commute)
qed

text \<open>
  The wait list of the discovery thread: building it always returns, maps the new sockets of every
  registered application on the way, and leaves one entry per application, in order, on its socket counter
  with the value the counter has; the table from entry to application agrees, and the shadows are up to date.
\<close>

theorem fill_waitv_covers_apps:
  assumes "willing (d_os d)" "os_inv (d_os d)" "n = unat (next_app_number (d_stack d))" "n \<le> MAX_APP_AMOUNT"
    and "length (app_futexes d) = MAX_APP_AMOUNT" "length (d_waitvs d) = MAX_APP_AMOUNT" "length (app_from_futex_nr d) = MAX_APP_AMOUNT"
    and "\<And>a h. app_counter (d_stack d) a = Some h \<Longrightarrow> unat h < 2 ^ 32 - 1" "apps = present (d_stack d) n"
  shows "\<exists>amount d'. fill_waitv api d = Some (Ok (amount, d')) \<and> unat amount = length apps
     \<and> take (unat amount) (d_waitvs d') = map (app_entry (d_stack d)) apps \<and> take (unat amount) (app_from_futex_nr d') = apps
     \<and> (\<forall>a \<in> set apps. app_futexes d' ! unat a = the (app_counter (d_stack d') a))
     \<and> app_ptrs (d_stack d') = app_ptrs (d_stack d) \<and> app_regions (d_stack d') = app_regions (d_stack d)"
proof -
  have "waiting d 0 (0, d)" using assms(1) by (simp add: waiting_def Let_def present_def)
  from fill_waitv_loop_spec [OF this assms(2), of n api] assms(3-8) obtain amount d' where
    y: "fill_waitv api d = Some (Ok (amount, d'))" "waiting d n (amount, d')"
    by (auto simp: MAX_APP_AMOUNT_def fill_waitv_def)
  then have "app_counter (d_stack d') = app_counter (d_stack d)"
    by (intro ext) (simp add: waiting_def Let_def app_counter_def)
  with y assms(9) show ?thesis by (simp add: waiting_def Let_def)
qed

section \<open>A small system\<close>

text \<open>Application 0 with region 0 has announced two sockets of high priority, in the regions 1 and 2.\<close>

definition demo_os :: os where
  "demo_os = \<lparr>shm_names = [app_name 0 \<mapsto> 0, socket_name (app_name 0) 1 \<mapsto> 1, socket_name (app_name 0) 2 \<mapsto> 2],
     next_object = 3, os_refuses = (\<lambda>_. None), os_calls = 0\<rparr>"

definition demo_ns_queue :: new_socket_queue where
  "demo_ns_queue = \<lparr>socket_queue = \<lparr>rb_end = 10, rb_head = 0, rb_tail = 0\<rparr>,
     socket_queue_buffer = replicate 10 (0, 0), socket_queue_futex = 0\<rparr>"

definition demo_discovery :: "unit discovery" where
  "demo_discovery = \<lparr>d_stack = demo_stack\<lparr>app_ptrs := replicate 100 None, next_app_number := 0,
       app_regions := (\<lambda>_. set_highest_socket_number (\<lambda>_. 0) 2), socket_ptrs := replicate 100 (replicate 127 None),
       socket_regions := (\<lambda>_. zero_socket\<lparr>priority := PRIORITY_HIGH\<rparr>)\<rparr>,
     d_os = demo_os, d_waitvs = replicate 100 zero_waitv, app_futexes = replicate 100 0,
     app_local_highest_socket_number = replicate 100 0, app_from_futex_nr = replicate 100 0,
     new_socket_queues = (\<lambda>_. demo_ns_queue)\<rparr>"

lemma demo_os_facts: "willing demo_os" "os_inv demo_os" "shm_names demo_os (app_name 0) = Some 0" "shm_names demo_os (app_name 1) = None"
  "socket_object demo_os 0 1 = Some 1" "socket_object demo_os 0 2 = Some 2"
  by (auto simp: willing_def demo_os_def os_inv_def socket_object_def inj_on_def ran_def)

lemma demo_discovery_parts:
  "d_os demo_discovery = demo_os" "next_app_number (d_stack demo_discovery) = 0" "length (app_ptrs (d_stack demo_discovery)) = 100"
  "ns_inv (new_socket_queues demo_discovery r)" "ns_list (new_socket_queues demo_discovery r) = []"
  "ns_cap (new_socket_queues demo_discovery r) = 9" "socket_queue_futex (new_socket_queues demo_discovery r) = 0"
  by (simp_all add: demo_discovery_def ns_inv_def ns_list_def ns_cap_def demo_ns_queue_def rb_inv_def rb_list_def rb_count_def
    ring_count_def)

theorem scan_for_app_regions_registers_witness:
  "\<exists>d'. scan_for_app_regions demo_discovery = Ok d' \<and> next_app_number (d_stack d') = 1 \<and> app_ptrs (d_stack d') ! 0 = Some 0"
proof -
  have k: "apps_from demo_os 0 100 = 1"
    using apps_from_Suc [of demo_os 0 99] apps_from_Suc [of demo_os 1 98] demo_os_facts(3,4) by simp
  from scan_for_app_regions_registers [of demo_discovery 0 1] demo_os_facts demo_discovery_parts(1-3) k obtain d' where
    "scan_for_app_regions demo_discovery = Ok d'" "unat (next_app_number (d_stack d')) = 1" "app_ptrs (d_stack d') ! 0 = Some 0"
    by (auto simp: MAX_APP_AMOUNT_def)
  then show ?thesis by (auto simp: word_eq_iff_unat)
qed

text \<open>The same system after the scan.\<close>

definition demo_registered :: "unit discovery" where
  "demo_registered = demo_discovery\<lparr>d_stack := (d_stack demo_discovery)
     \<lparr>app_ptrs := (replicate 100 None)[0 := Some 0], next_app_number := 1\<rparr>\<rparr>"

lemma demo_registered_parts:
  "d_os demo_registered = demo_os" "app_counter (d_stack demo_registered) 0 = Some 2"
  "length (socket_ptrs (d_stack demo_registered)) = 100" "length (socket_ptrs (d_stack demo_registered) ! 0) = 127"
  "length (app_local_highest_socket_number demo_registered) = 100" "app_local_highest_socket_number demo_registered ! 0 = 0"
  "new_socket_queues demo_registered = new_socket_queues demo_discovery"
  "existing demo_os 0 (nums 0 2) = [1, 2]" "ids_of_prio demo_registered 0 High [1, 2] = [(0, 1), (0, 2)]"
proof -
  show "existing demo_os 0 (nums 0 2) = [1, 2]"
    using nums_Suc [of 0 1] nums_Suc [of 1 0] demo_os_facts(5,6) by (simp add: existing_def numeral_2_eq_2)
  show "ids_of_prio demo_registered 0 High [1, 2] = [(0, 1), (0, 2)]"
    by (simp add: ids_of_prio_def demo_registered_def demo_discovery_def prio_queue_of_def)
qed (simp_all add: demo_registered_def demo_discovery_def app_counter_def)

theorem map_new_sockets_maps_witness:
  "\<exists>d'. map_new_sockets demo_api 0 demo_registered = Some (Ok d') \<and> socket_ptrs (d_stack d') ! 0 ! 2 = Some 2
     \<and> ns_list (new_socket_queues d' High) = [(0, 1), (0, 2)] \<and> app_local_highest_socket_number d' ! 0 = 2"
proof -
  note p = demo_registered_parts
  have "map_new_sockets demo_api 0 demo_registered = map_new_sockets demo_api 0 demo_registered" ..
  from map_new_sockets_maps [of demo_registered 0 2 0 "[1, 2]" demo_api] demo_os_facts(1,2,6) p demo_discovery_parts
  obtain d' where d': "map_new_sockets demo_api 0 demo_registered = Some (Ok d')"
    "\<forall>i. unat i < MAX_SOCKETS_PER_APP \<longrightarrow> socket_ptrs (d_stack d') ! 0 ! unat i =
       (if i \<in> set [1, 2] then socket_object demo_os 0 i else socket_ptrs (d_stack demo_registered) ! 0 ! unat i)"
    "\<forall>r. ns_list (new_socket_queues d' r) = take 9 (ids_of_prio demo_registered 0 r [1, 2])"
    "app_local_highest_socket_number d' ! 0 = last [0, 1, 2]"
    by (auto simp: MAX_SOCKETS_PER_APP_def)
  from d'(2) [rule_format, of 2] d'(3) [rule_format, of High] show ?thesis
    using d'(1,4) p(9) demo_os_facts(6) by (simp add: MAX_SOCKETS_PER_APP_def)
qed

text \<open>An allocator of list nodes that always finds one: the list has fewer nodes than the numbers it tries.\<close>

definition demo_malloc :: "'a list_data \<Rightarrow> nat option" where
  "demo_malloc l = List.find (\<lambda>p. nodes l p = None) [0..<Suc (unat (list_size l))]"

lemma demo_malloc_fresh:
  assumes "is_list l es"
  shows "fresh_node l (demo_malloc l)"
proof -
  obtain ps where ps: "list_inv l ps" using assms by (auto simp: is_list_def)
  have "dom (nodes l) = set ps" "unat (list_size l) = length ps" using ps list_inv_size [OF ps] by (simp_all add: list_inv_def ring_def)
  then have "card (dom (nodes l)) < card {0..<Suc (unat (list_size l))}" using card_length [of ps] by simp
  then have "\<not> {0..<Suc (unat (list_size l))} \<subseteq> dom (nodes l)"
    using card_mono [of "dom (nodes l)"] \<open>dom (nodes l) = set ps\<close> by (metis finite_set leD)
  then obtain p where "p < Suc (unat (list_size l))" "nodes l p = None" by (auto simp: subset_iff)
  then have "demo_malloc l \<noteq> None" unfolding demo_malloc_def by (auto simp: find_None_iff simp del: upt_Suc)
  then show ?thesis by (auto simp: demo_malloc_def fresh_node_def find_Some_iff simp del: upt_Suc)
qed

definition empty_list :: "(u32 \<times> u32) list_data" where
  "empty_list = \<lparr>nodes = Map.empty, list_size = 0, iter_round = 0, list_head = None, iter_node = None,
     func_clean = None, clean_calls = []\<rparr>"

theorem new_sockets_reach_their_thread_witness:
  "\<exists>d' q l' shadow'. map_new_sockets demo_api 0 demo_registered = Some (Ok d')
     \<and> add_new_sockets demo_malloc (new_socket_queues d' High) empty_list 0 = Some (Some (q, l', shadow'))
     \<and> is_list l' [(0, 2), (0, 1)] \<and> shadow' = socket_queue_futex q"
proof -
  have "is_list empty_list []" unfolding is_list_def
    by (rule exI [of _ "[]"]) (simp add: empty_list_def list_inv_def elems_def ring_def cycle_def)
  with new_sockets_reach_their_thread [of demo_registered 0 2 High 0 empty_list "[]" demo_malloc 0 "[(0, 1), (0, 2)]" demo_api,
      OF _ _ _ _ _ _ _ _ _ demo_malloc_fresh]
    demo_os_facts(1,2) demo_registered_parts demo_discovery_parts
  show ?thesis by (fastforce simp: MAX_SOCKETS_PER_APP_def)
qed

theorem fill_waitv_covers_apps_witness:
  "\<exists>amount d'. fill_waitv demo_api demo_registered = Some (Ok (amount, d')) \<and> unat amount = 1
     \<and> take 1 (d_waitvs d') = [waitv_entry (App_Futex 0) 2] \<and> app_futexes d' ! 0 = 2"
proof -
  have pr: "present (d_stack demo_registered) 1 = [0]"
    by (simp add: present_def demo_registered_def demo_discovery_def)
  have cnt: "unat h < 2 ^ 32 - 1" if "app_counter (d_stack demo_registered) a = Some h" for a h
    using that by (auto simp: app_counter_def demo_registered_def demo_discovery_def nth_list_update split: if_splits)
  have "willing (d_os demo_registered)" "os_inv (d_os demo_registered)" "1 = unat (next_app_number (d_stack demo_registered))"
    "length (app_futexes demo_registered) = MAX_APP_AMOUNT" "length (d_waitvs demo_registered) = MAX_APP_AMOUNT"
    "length (app_from_futex_nr demo_registered) = MAX_APP_AMOUNT"
    using demo_os_facts(1,2) demo_registered_parts(1)
    by (simp_all add: demo_registered_def demo_discovery_def MAX_APP_AMOUNT_def)
  from fill_waitv_covers_apps [OF this(1-3) _ this(4-6) cnt pr [symmetric], where api = demo_api] demo_registered_parts(2)
  show ?thesis by (fastforce simp: MAX_APP_AMOUNT_def app_entry_def demo_registered_def demo_discovery_def app_counter_def)
qed

end
