(* ===== verification/Client_Callback.thy ===== *)
theory Client_Callback
  imports Client_Socket Futex
begin

text \<open>
  The library in the application process (\<open>api/src/pifus.c\<close>): choosing a free application number and
  creating its region, and the callback thread, which calls a function of the application for every result
  that arrives on a socket. That function is the argument \<open>callback\<close>; it acts on the client and on
  whatever state \<open>'u\<close> the application keeps. The futex wait entries name the completion futexes.
\<close>

section \<open>Starting and leaving\<close>

text \<open>
  \<open>create_app_shm_region\<close>: a name in use makes it try the next number; any other error makes it try the
  same number again, for ever when the error persists.
\<close>

partial_function (option) create_app_shm_region :: "os \<Rightarrow> u32 \<Rightarrow> ((nat \<times> string) \<times> os) option" where
  "create_app_shm_region os app_number =
     (case shm_open_region os (app_name app_number) True of
        (Inr fd, os1) \<Rightarrow> Some ((fd, app_name app_number), os1)
      | (Inl errno, os1) \<Rightarrow> create_app_shm_region os1 (if errno = EEXIST then app_number + 1 else app_number))"

definition map_app_region :: "os \<Rightarrow> mem \<Rightarrow> (mem \<times> os) res" where
  "map_app_region os contents = shm_map_region os (\<lambda>_. 0) contents True"

text \<open>
  \<open>pifus_initialize\<close> in a process whose globals are zero; starting the callback thread is the caller's
  choice of whether \<open>callback_round\<close> below takes place.
\<close>

definition pifus_initialize :: "os \<Rightarrow> mem \<Rightarrow> (nat \<Rightarrow> pifus_socket) \<Rightarrow> (nat \<times> client) res option" where
  "pifus_initialize os contents regions =
     Option.bind (create_app_shm_region os 0) (\<lambda>((fd, name), os1).
       Some (res_bind (map_app_region os1 contents) (\<lambda>(app, os2).
         Ok (fd, \<lparr>cl_os = os2, app_shm_name = name, app_state = app, client_sockets = replicate 127 None, client_regions = regions\<rparr>))))"

definition pifus_exit :: "client \<Rightarrow> client option" where
  "pifus_exit c = map_option (\<lambda>c1. c1\<lparr>cl_os := shm_unlink_region (cl_os c1) (app_shm_name c1)\<rparr>) (pifus_socket_exit_all c)"

section \<open>The callback thread\<close>

record 'u callback_state =
  cb_client :: client
  cb_user :: 'u
  cb_futexes :: "u32 list"
  cb_waitvs :: "futex_waitv list"
  cb_from_futex_nr :: "u32 list"

type_synonym 'u callback = "nat \<Rightarrow> operation_code \<Rightarrow> client \<times> 'u \<Rightarrow> client \<times> 'u"

fun callback_loop :: "'u callback \<Rightarrow> nat \<Rightarrow> nat \<Rightarrow> client \<times> 'u \<Rightarrow> client \<times> 'u" where
  "callback_loop callback p 0 x = x"
| "callback_loop callback p (Suc n) x =
     callback_loop callback p n
       (case pifus_socket_peek_result_code (client_regions (fst x) p) of
          Some next_op_code \<Rightarrow> callback p next_op_code x
        | None \<Rightarrow> x)"

definition handle_new_cqueue_entry :: "'u callback \<Rightarrow> nat option \<Rightarrow> 'u callback_state \<Rightarrow> 'u callback_state" where
  "handle_new_cqueue_entry callback socket st =
     (case socket of
        None \<Rightarrow> st
      | Some p \<Rightarrow>
          (let s = client_regions (cb_client st) p;
               i = unat (socket_index s);
               shadow_actual_difference = unat (cqueue_futex s - cb_futexes st ! i)
           in case callback_loop callback p shadow_actual_difference (cb_client st, cb_user st) of
                (c, u) \<Rightarrow> st\<lparr>cb_client := c, cb_user := u, cb_futexes := (cb_futexes st)[i := cqueue_futex s]\<rparr>))"

text \<open>Lines 129-145 for one socket number.\<close>

definition fill_client_socket :: "'u callback \<Rightarrow> u32 \<Rightarrow> u8 \<times> 'u callback_state \<Rightarrow> u8 \<times> 'u callback_state" where
  "fill_client_socket callback i = (\<lambda>(amount, st).
     case client_sockets (cb_client st) ! unat i of
       None \<Rightarrow> (amount, st)
     | Some p \<Rightarrow>
         (let st1 = (if cqueue_futex (client_regions (cb_client st) p) \<noteq> cb_futexes st ! unat i
                     then handle_new_cqueue_entry callback (Some p) st else st)
          in (amount + 1,
              st1\<lparr>cb_waitvs := (cb_waitvs st1)[unat amount := waitv_entry (Cqueue_Futex p) (cb_futexes st1 ! unat i)],
                 cb_from_futex_nr := (cb_from_futex_nr st1)[unat amount := i]\<rparr>)))"

text \<open>The counter is read again for every socket number: a callback may create sockets.\<close>

partial_function (option) fill_sockets_loop ::
    "'u callback \<Rightarrow> u32 \<Rightarrow> u8 \<times> 'u callback_state \<Rightarrow> (u8 \<times> 'u callback_state) option" where
  "fill_sockets_loop callback i x =
     (if i \<le> highest_socket_number (app_state (cb_client (snd x)))
      then fill_sockets_loop callback (i + 1) (fill_client_socket callback i x)
      else Some x)"

definition fill_sockets_waitv :: "'u callback \<Rightarrow> 'u callback_state \<Rightarrow> (u8 \<times> 'u callback_state) option" where
  "fill_sockets_waitv callback st = fill_sockets_loop callback 1 (0, st)"

text \<open>One round of \<open>callback_thread_loop\<close>; \<open>wait\<close> is the answer of \<open>futex_waitv\<close>.\<close>

definition callback_round ::
    "'u callback \<Rightarrow> (futex_waitv list \<Rightarrow> u8 \<Rightarrow> int) \<Rightarrow> 'u callback_state \<Rightarrow> 'u callback_state option" where
  "callback_round callback wait st =
     map_option (\<lambda>(amount_futexes, st1).
       if amount_futexes > 0
       then (let ret_code = wait (cb_waitvs st1) amount_futexes
             in if ret_code \<ge> 0
                then (let i = cb_from_futex_nr st1 ! nat ret_code;
                          socket = client_sockets (cb_client st1) ! unat i
                      in (handle_new_cqueue_entry callback socket st1)\<lparr>cb_from_futex_nr := replicate 127 0\<rparr>)
                else st1)
       else st1) (fill_sockets_waitv callback st)"

section \<open>Calling back\<close>

text \<open>
  A callback that takes one result of its socket: the queue loses its oldest result, the futex and the
  number of the socket stay, and the application's state records the code it was given.
\<close>

definition pops_one :: "operation_code list callback \<Rightarrow> nat \<Rightarrow> bool" where
  "pops_one callback p \<longleftrightarrow> (\<forall>code c u. cq_list (client_regions c p) \<noteq> [] \<and> sock_inv (client_regions c p) \<longrightarrow>
     (case callback p code (c, u) of (c', u') \<Rightarrow>
        u' = u @ [code] \<and> sock_inv (client_regions c' p)
        \<and> cq_list (client_regions c' p) = tl (cq_list (client_regions c p))
        \<and> cqueue_futex (client_regions c' p) = cqueue_futex (client_regions c p)
        \<and> socket_index (client_regions c' p) = socket_index (client_regions c p)))"

lemma callback_loop_pops:
  assumes "pops_one callback p" "sock_inv (client_regions c p)" "cq_list (client_regions c p) = rs"
  shows "case callback_loop callback p n (c, u) of (c', u') \<Rightarrow>
     u' = u @ map res_code (take n rs) \<and> cq_list (client_regions c' p) = drop n rs \<and> sock_inv (client_regions c' p)
     \<and> cqueue_futex (client_regions c' p) = cqueue_futex (client_regions c p)
     \<and> socket_index (client_regions c' p) = socket_index (client_regions c p)"
  using assms(2,3)
proof (induction n arbitrary: c u rs)
  case (Suc n)
  show ?case
  proof (cases rs)
    case Nil
    with Suc.prems have "pifus_socket_peek_result_code (client_regions c p) = None" using pop_empty(2) by simp
    with Suc.IH [OF Suc.prems, of u] Nil show ?thesis by simp
  next
    case (Cons r rest)
    with Suc.prems have peek: "pifus_socket_peek_result_code (client_regions c p) = Some (res_code r)" using pop_views(4) by simp
    obtain c1 u1 where cb: "callback p (res_code r) (c, u) = (c1, u1)" by force
    have "cq_list (client_regions c p) \<noteq> []" using Suc.prems(2) Cons by simp
    with assms(1) [unfolded pops_one_def, rule_format, where c = c and code = "res_code r" and u = u] Suc.prems(1) cb have c1: "u1 = u @ [res_code r]" "sock_inv (client_regions c1 p)"
      "cq_list (client_regions c1 p) = tl (cq_list (client_regions c p))"
      "cqueue_futex (client_regions c1 p) = cqueue_futex (client_regions c p)"
      "socket_index (client_regions c1 p) = socket_index (client_regions c p)"
      by simp_all
    have "cq_list (client_regions c1 p) = rest" using c1(3) Suc.prems(2) Cons by simp
    from Suc.IH [OF c1(2) this, of u1] show ?thesis using peek cb c1 Cons by (simp split: prod.splits)
  qed
qed (simp add: split_def)

text \<open>
  Notification of results: when a callback takes one result per call, handling the change of a
  completion futex calls it once for every result counted since the last time that is still in the
  queue, oldest first, each time with the code of that result, and leaves exactly the later results. The
  shadow agrees with the futex afterwards, so that no call is repeated.
\<close>

theorem callback_per_result:
  assumes "pops_one callback p" "s = client_regions (cb_client st) p" "sock_inv s" "i = unat (socket_index s)" "i < length (cb_futexes st)"
    and "n = unat (cqueue_futex s - cb_futexes st ! i)" "st' = handle_new_cqueue_entry callback (Some p) st"
  shows "cb_user st' = cb_user st @ map res_code (take n (cq_list s))
     \<and> cq_list (client_regions (cb_client st') p) = drop n (cq_list s)
     \<and> cb_futexes st' ! i = cqueue_futex (client_regions (cb_client st') p)
     \<and> cb_user (handle_new_cqueue_entry callback (Some p) st') = cb_user st'"
proof -
  obtain c u where l: "callback_loop callback p n (cb_client st, cb_user st) = (c, u)" by force
  note k = callback_loop_pops [OF assms(1), where c = "cb_client st" and rs = "cq_list s", folded assms(2), OF assms(3) refl,
    where n = n and u = "cb_user st", unfolded l prod.case]
  have st': "st' = st\<lparr>cb_client := c, cb_user := u, cb_futexes := (cb_futexes st)[i := cqueue_futex s]\<rparr>"
    using l assms(2,4,6,7) by (simp add: handle_new_cqueue_entry_def Let_def)
  have "cb_user (handle_new_cqueue_entry callback (Some p) st') = cb_user st'"
    using k assms(4,5) by (simp add: handle_new_cqueue_entry_def Let_def st' split: prod.split)
  with k assms(5) show ?thesis by (simp add: st')
qed


definition demo_callback :: "operation_code list callback" where
  "demo_callback p code = (\<lambda>(c, u). (set_region c p (popped (client_regions c p)), u @ [code]))"

lemma demo_callback_pops: "pops_one demo_callback p"
  unfolding pops_one_def demo_callback_def using pop_views(2,3) by (auto simp: neq_Nil_conv)

definition demo_callback_state :: "operation_code list callback_state" where
  "demo_callback_state = \<lparr>cb_client = demo_client\<lparr>client_regions := (\<lambda>_. demo_completed\<lparr>cqueue_futex := 1\<rparr>)\<rparr>, cb_user = [],
     cb_futexes = replicate 127 0, cb_waitvs = replicate 127 zero_waitv, cb_from_futex_nr = replicate 127 0\<rparr>"

theorem callback_per_result_witness:
  "cb_user (handle_new_cqueue_entry demo_callback (Some 7) demo_callback_state) = [TCP_WRITE]"
proof -
  let ?s = "demo_completed\<lparr>cqueue_futex := 1\<rparr>"
  have v: "sock_inv ?s" "cq_list ?s = [demo_result]" "socket_index ?s = 0"
    using demo_completed_views by (simp_all add: sock_inv_def cq_list_def demo_completed_def demo_socket_def zero_socket_def)
  have st: "client_regions (cb_client demo_callback_state) 7 = ?s" "cb_user demo_callback_state = []"
    "cb_futexes demo_callback_state = replicate 127 0" by (simp_all add: demo_callback_state_def)
  have "res_code demo_result = TCP_WRITE" by (simp add: demo_result_def)
  then show ?thesis
    using callback_per_result [OF demo_callback_pops, of ?s demo_callback_state 7 0 1] v st by auto
qed

section \<open>The number of an application\<close>

lemma create_app_shm_region_spec:
  assumes "willing os" "\<And>i. i < k \<Longrightarrow> shm_names os (app_name (of_nat (n + i))) \<noteq> None"
    and "shm_names os (app_name (of_nat (n + k))) = None"
  shows "\<exists>calls. create_app_shm_region os (of_nat n) = Some ((next_object os, app_name (of_nat (n + k))),
     os\<lparr>shm_names := (shm_names os)(app_name (of_nat (n + k)) \<mapsto> next_object os), next_object := Suc (next_object os), os_calls := calls\<rparr>)"
  using assms
proof (induction k arbitrary: n os)
  case 0
  then show ?case by (intro exI [of _ "Suc (os_calls os)"]) (simp add: create_app_shm_region.simps [of os] shm_open_region_def willing_def Let_def fun_upd_def)
next
  case (Suc k)
  let ?os = "os\<lparr>os_calls := Suc (os_calls os)\<rparr>"
  have "shm_names os (app_name (of_nat n)) \<noteq> None" using Suc.prems(2) [of 0] by simp
  then have "create_app_shm_region os (of_nat n) = create_app_shm_region ?os (of_nat (Suc n))"
    using Suc.prems(1) by (auto simp: create_app_shm_region.simps [of os] shm_open_region_def willing_def Let_def add.commute)
  also have "\<exists>calls. \<dots> = Some ((next_object ?os, app_name (of_nat (Suc n + k))),
     ?os\<lparr>shm_names := (shm_names ?os)(app_name (of_nat (Suc n + k)) \<mapsto> next_object ?os), next_object := Suc (next_object ?os), os_calls := calls\<rparr>)"
  proof (rule Suc.IH)
    show "willing ?os" using Suc.prems(1) by simp
    show "shm_names ?os (app_name (of_nat (Suc n + i))) \<noteq> None" if "i < k" for i
      using Suc.prems(2) [of "Suc i"] that by (simp add: add.left_commute)
    show "shm_names ?os (app_name (of_nat (Suc n + k))) = None" using Suc.prems(3) by (simp add: add.left_commute)
  qed
  finally show ?case by (simp add: add.left_commute)
qed

lemma create_app_shm_region_blocks:
  assumes "create_app_shm_region os n = Some y"
  shows "\<exists>k. os_refuses os k = None"
proof (rule create_app_shm_region.raw_induct [OF _ assms], goal_cases)
  case step: (1 f os n y)
  show ?case
  proof (cases "os_refuses os (os_calls os)")
    case (Some e)
    with step(2) have "f (os\<lparr>os_calls := Suc (os_calls os)\<rparr>) n = Some y" by (simp add: shm_open_region_def Let_def)
    from step(1) [OF this] show ?thesis by simp
  qed blast
qed

text \<open>
  Initialisation takes the smallest application number whose name is free: with the numbers below \<open>k\<close> in
  use and \<open>k\<close> free it returns a client of that name whose region is a new object, all zero: no socket, an empty
  heap. When the kernel refuses every call, it does not return.
\<close>

theorem pifus_initialize_smallest:
  assumes "os_inv os"
  shows "(\<forall>k. willing os \<and> (\<forall>i<k. shm_names os (app_name (of_nat i)) \<noteq> None) \<and> shm_names os (app_name (of_nat k)) = None \<longrightarrow>
       (\<exists>p c. pifus_initialize os contents regions = Some (Ok (p, c)) \<and> app_shm_name c = app_name (of_nat k)
          \<and> shm_names (cl_os c) = (shm_names os)(app_name (of_nat k) \<mapsto> p) \<and> p \<notin> ran (shm_names os) \<and> os_inv (cl_os c)
          \<and> highest_socket_number (app_state c) = 0 \<and> heap_inv (app_state c) [] \<and> (\<forall>i<127. client_sockets c ! i = None)))
     \<and> ((\<forall>n. os_refuses os n \<noteq> None) \<longrightarrow> pifus_initialize os contents regions = None)"
proof (intro conjI allI impI, elim conjE)
  fix k assume k: "willing os" "\<forall>i<k. shm_names os (app_name (of_nat i)) \<noteq> None" "shm_names os (app_name (of_nat k)) = None"
  obtain os1 calls where os1: "create_app_shm_region os 0 = Some ((next_object os, app_name (of_nat k)), os1)"
    "os1 = os\<lparr>shm_names := (shm_names os)(app_name (of_nat k) \<mapsto> next_object os), next_object := Suc (next_object os), os_calls := calls\<rparr>"
    using create_app_shm_region_spec [of os k 0] k by auto
  have "shm_open_region os (app_name (of_nat k)) True = (Inr (next_object os), os1\<lparr>os_calls := Suc (os_calls os)\<rparr>)"
    using k(1,3) by (simp add: shm_open_region_def willing_def Let_def os1(2))
  note inv = os_inv_create [OF assms this]
  have "willing os1" using k(1) by (simp add: os1(2) willing_def)
  then have "pifus_initialize os contents regions = Some (Ok (next_object os,
      \<lparr>cl_os = os1\<lparr>os_calls := os_calls os1 + 2\<rparr>, app_shm_name = app_name (of_nat k), app_state = (\<lambda>_. 0),
       client_sockets = replicate 127 None, client_regions = regions\<rparr>))"
    using os1(1) by (simp add: pifus_initialize_def map_app_region_def map_willing)
  moreover have "os_inv (os1\<lparr>os_calls := j\<rparr>)" for j using inv(1) by (simp add: os_inv_def)
  ultimately show "\<exists>p c. pifus_initialize os contents regions = Some (Ok (p, c)) \<and> app_shm_name c = app_name (of_nat k)
      \<and> shm_names (cl_os c) = (shm_names os)(app_name (of_nat k) \<mapsto> p) \<and> p \<notin> ran (shm_names os) \<and> os_inv (cl_os c)
      \<and> highest_socket_number (app_state c) = 0 \<and> heap_inv (app_state c) [] \<and> (\<forall>i<127. client_sockets c ! i = None)"
    using inv(5) heap_inv_empty by (simp add: os1(2))
next
  assume "\<forall>n. os_refuses os n \<noteq> None"
  then have "create_app_shm_region os 0 = None" using create_app_shm_region_blocks by (metis not_Some_eq)
  then show "pifus_initialize os contents regions = None" by (simp add: pifus_initialize_def)
qed

theorem pifus_initialize_smallest_witness:
  "\<exists>p c. pifus_initialize (cl_os demo_client) (\<lambda>_. 7) (\<lambda>_. zero_socket) = Some (Ok (p, c)) \<and> app_shm_name c = app_name 0"
proof -
  have os: "os_inv (cl_os demo_client)" "willing (cl_os demo_client)"
    by (auto simp: demo_client_def os_inv_def willing_def inj_on_def)
  have "shm_names (cl_os demo_client) (app_name (of_nat 0)) = None" by (simp add: demo_client_def)
  with os(2) conjunct1 [OF pifus_initialize_smallest [OF os(1)], rule_format, of 0 "\<lambda>_. 7" "\<lambda>_. zero_socket"]
  show ?thesis by auto
qed

text \<open>
  An application that leaves removes its own name and the names of all its sockets, so that its number
  is free again, and no name of any other application.
\<close>

theorem pifus_exit_frees_names:
  assumes "app_shm_name c = app_name a" "unat (highest_socket_number (app_state c)) < 2 ^ 32 - 1"
  shows "\<exists>c'. pifus_exit c = Some c' \<and> shm_names (cl_os c') (app_name a) = None
     \<and> (\<forall>i. 0 < highest_socket_number (app_state c) \<and> i \<le> highest_socket_number (app_state c) \<longrightarrow>
          shm_names (cl_os c') (socket_name (app_name a) i) = None)
     \<and> (\<forall>b i. b \<noteq> a \<longrightarrow> shm_names (cl_os c') (app_name b) = shm_names (cl_os c) (app_name b)
          \<and> shm_names (cl_os c') (socket_name (app_name b) i) = shm_names (cl_os c) (socket_name (app_name b) i))"
proof -
  let ?h = "highest_socket_number (app_state c)"
  from exit_all_spec [OF refl assms(2)] obtain c1 where c1: "pifus_socket_exit_all c = Some c1" "app_shm_name c1 = app_shm_name c"
    "\<forall>name. shm_names (cl_os c1) name =
          (if ?h \<noteq> 0 \<and> (\<exists>i \<le> ?h. name = socket_name (app_shm_name c) i) then None else shm_names (cl_os c) name)"
    by (elim exE conjE) (rule that; assumption)
  have "pifus_exit c = Some (c1\<lparr>cl_os := shm_unlink_region (cl_os c1) (app_name a)\<rparr>)"
    using c1(1,2) assms(1) by (simp add: pifus_exit_def)
  moreover have "shm_names (shm_unlink_region (cl_os c1) (app_name a)) = (shm_names (cl_os c1))(app_name a := None)"
    by (simp add: shm_unlink_region_def)
  ultimately show ?thesis using c1(3) assms(1) by (auto simp: word_neq_0_conv)
qed

theorem pifus_exit_frees_names_witness:
  "\<exists>c'. pifus_exit demo_client = Some c' \<and> shm_names (cl_os c') (app_name 3) = None"
  using pifus_exit_frees_names [of demo_client 3] by (auto simp: demo_client_def)

end
