(* ===== verification/System.thy ===== *)
theory System
  imports Discovery Client_Callback
begin

text \<open>
  What spans the two processes: a write of an application as lwIP sees it, and the order of the steps in
  which a new socket becomes known to the stack.
\<close>

section \<open>A write on its way to lwIP\<close>

text \<open>The stack after an application has changed its region and one of its sockets.\<close>

definition with_client_memory :: "'l stack \<Rightarrow> nat \<Rightarrow> mem \<Rightarrow> nat \<Rightarrow> pifus_socket \<Rightarrow> 'l stack" where
  "with_client_memory st app m sp s =
     st\<lparr>app_regions := (app_regions st)(app := m), socket_regions := (socket_regions st)(sp := s)\<rparr>"

lemma with_client_memory_simps [simp]:
  "app_regions (with_client_memory st app m sp s) = (app_regions st)(app := m)"
  "socket_regions (with_client_memory st app m sp s) = (socket_regions st)(sp := s)"
  "app_ptrs (with_client_memory st app m sp s) = app_ptrs st" "st_lwip (with_client_memory st app m sp s) = st_lwip st"
  by (simp_all add: with_client_memory_def)

lemma submits_keeps:
  assumes "submits s op (ok, s')"
  shows "write_queue s' = write_queue s" "write_queue_buffer s' = write_queue_buffer s" "pcb s' = pcb s"
    "app_index s' = app_index s" "socket_index s' = socket_index s" "cqueue s' = cqueue s" "cqueue_buffer s' = cqueue_buffer s"
proof -
  have e: "s = s'\<lparr>squeue := squeue s, squeue_buffer := squeue_buffer s, squeue_futex := squeue_futex s\<rparr>"
    using assms by (simp add: submits_def Let_def)
  show "write_queue s' = write_queue s" "write_queue_buffer s' = write_queue_buffer s" "pcb s' = pcb s"
    "app_index s' = app_index s" "socket_index s' = socket_index s" "cqueue s' = cqueue s" "cqueue_buffer s' = cqueue_buffer s"
    by (subst e, simp)+
qed

text \<open>
  C18. A write from end to end: the operation an application submits makes the stack offer lwIP exactly the
  bytes of the application, in place, and an accepted write is accounted with its full length until it is
  acknowledged. The length lwIP is told is that length modulo 65536, so beyond 65535 bytes lwIP sends less
  than the account waits for.
\<close>

theorem client_write_reaches_lwip:
  fixes api :: "('l, 'i) lwip_api"
  assumes "s = socket_regions st sp" "sock_inv s" "protocol s = PROTOCOL_TCP" "app_ptrs st ! unat (app_index s) = Some app"
    and "heap_inv (app_regions st app) bs" "data \<noteq> []" "pifus_socket_write (app_regions st app) s data = Ok (True, m', s')"
    and "\<not> ring_buffer_is_full (write_queue s)" "op = last (sq_list s')" "off = write_block_offset (op_data op)"
    and "a = shm_data_get_data_ptr (shm_data_get_block_ptr (sint off))" "len = (of_nat (length data) :: u16)"
    and "lw_tcp_write api (st_lwip st) (pcb s) (app, a) len 0 = (err, lw)"
  shows "op_code op = TCP_WRITE \<and> mload m' a (length data) = data \<and> unat len = length data mod 65536
     \<and> (\<exists>rc st'. tx_tcp_write api (with_client_memory st app m' sp s') \<lparr>iop_operation = op, iop_socket = sp\<rparr> = Ok ((rc, Res_Write off), st')
          \<and> rc = (if err = ERR_OK then PIFUS_ASYNC else if err = ERR_MEM then PIFUS_TRY_AGAIN else PIFUS_ERR)
          \<and> wq_list (socket_regions st' sp) =
              wq_list s @ (if err = ERR_OK then [\<lparr>wqe_size = of_nat (length data), wqe_block_offset = off\<rparr>] else []))"
proof -
  obtain b where w: "payload_block (app_regions st app) bs (length data) m' b" "mload m' (shm_data_get_data_ptr b) (length data) = data"
    "submits s \<lparr>op_code = TCP_WRITE, op_data = Write_Data (of_int (shm_data_get_offset b))\<rparr> (True, s')"
    using write_spec [OF assms(2,5,6)] assms(3,7) by (auto split: if_splits)
  have op: "op = \<lparr>op_code = TCP_WRITE, op_data = Write_Data (of_int (shm_data_get_offset b))\<rparr>"
    using w(3) assms(9) by (auto simp: submits_def Let_def split: if_splits)
  then have off: "off = of_int (shm_data_get_offset b)" using assms(10) by simp
  have blk: "shm_data_get_block_ptr (sint off) = b" using w(1) by (simp add: off payload_block_def)
  have size: "blk_size m' b = length data" using w(1) by (auto simp: payload_block_def)
  let ?st = "with_client_memory st app m' sp s'" and ?iop = "\<lparr>iop_operation = op, iop_socket = sp\<rparr> :: internal_operation"
  note k = submits_keeps [OF w(3)]
  have inv: "sock_inv (socket_regions ?st (iop_socket ?iop))" using w(3) by (simp add: submits_def Let_def)
  have lw: "lw_tcp_write api (st_lwip ?st) (pcb s') (app, shm_data_get_data_ptr (shm_data_get_block_ptr (sint off)))
      (of_nat (blk_size (app_regions ?st app) (shm_data_get_block_ptr (sint off)))) 0 = (err, lw)"
    using assms(11-13) k(3) blk size by simp
  have "\<exists>rc st'. tx_tcp_write api ?st ?iop = Ok ((rc, Res_Write off), st')
      \<and> rc = (if err = ERR_OK then PIFUS_ASYNC else if err = ERR_MEM then PIFUS_TRY_AGAIN else PIFUS_ERR)
      \<and> wq_list (socket_regions st' sp) =
          wq_list s' @ (if err = ERR_OK then [\<lparr>wqe_size = of_nat (length data), wqe_block_offset = off\<rparr>] else [])"
  proof (rule tx_tcp_write_eval [OF inv refl, of s' app off "length data" api err lw])
  qed (use assms(4,8,10) k lw blk size in \<open>auto simp: wq_list_def\<close>)
  moreover have "wq_list s' = wq_list s" by (simp add: wq_list_def k)
  ultimately show ?thesis using op w(2) assms(11,12) blk by (simp add: unat_of_nat)
qed

theorem client_write_reaches_lwip_witness:
  "\<exists>m' s' st'. pifus_socket_write (\<lambda>_. 0) demo_socket [1, 2, 3] = Ok (True, m', s') \<and> mload m' 28 3 = [1, 2, 3]
     \<and> tx_tcp_write demo_api (with_client_memory demo_stack 0 m' 7 s')
          \<lparr>iop_operation = \<lparr>op_code = TCP_WRITE, op_data = Write_Data 0\<rparr>, iop_socket = 7\<rparr> = Ok ((PIFUS_TRY_AGAIN, Res_Write 0), st')"
proof -
  obtain m' s' where w: "pifus_socket_write (\<lambda>_. 0) demo_socket [1, 2, 3] = Ok (True, m', s')" "mload m' 28 3 = [1, 2, 3]"
    "sq_list s' = [\<lparr>op_code = TCP_WRITE, op_data = Write_Data 0\<rparr>]" using demo_write by blast
  have d: "socket_regions demo_stack 7 = demo_socket" "app_regions demo_stack 0 = (\<lambda>_. 0)" "app_ptrs demo_stack ! 0 = Some 0"
    by (simp_all add: demo_stack_def)
  from client_write_reaches_lwip [of demo_socket demo_stack 7 0 "[]" "[1, 2, 3]" m' s'
      "\<lparr>op_code = TCP_WRITE, op_data = Write_Data 0\<rparr>" 0 _ 3 demo_api ERR_MEM "()"] w d demo_socket_inv heap_inv_empty
    demo_socket_queue(3) demo_socket_app
  show ?thesis by (auto simp: demo_api_def)
qed

section \<open>A new socket on its way to its thread\<close>

text \<open>
  The stack looks at the memory it shares with an application: its region, the regions of its sockets and
  the names of shared memory objects.
\<close>

definition sees :: "client \<Rightarrow> nat \<Rightarrow> 'l discovery \<Rightarrow> 'l discovery" where
  "sees c app d = d\<lparr>d_os := cl_os c, d_stack := (d_stack d)
     \<lparr>app_regions := (app_regions (d_stack d))(app := app_state c), socket_regions := client_regions c\<rparr>\<rparr>"

lemma map_new_sockets_sees:
  assumes "willing (cl_os c)" "os_inv (cl_os c)" "shm_names (cl_os c) (socket_name (app_name a) n) = Some p"
    and "highest_socket_number (app_state c) = n" "n = k + 1" "unat n < 2 ^ 32 - 1" "0 < n"
    and "app_ptrs (d_stack d) ! unat a = Some app" "app_local_highest_socket_number d ! unat a = k"
    and "\<And>r. ns_inv (new_socket_queues d r)"
  shows "\<exists>d'. map_new_sockets api a (sees c app d) = Some (Ok d')
     \<and> (\<forall>r. ns_list (new_socket_queues d' r) = take (ns_cap (new_socket_queues d r)) (ns_list (new_socket_queues d r)
          @ (if r = prio_queue_of (priority (client_regions c p)) then [(a, n)] else [])))"
proof -
  have n: "unat n = Suc (unat k)" using assms(5,7) unatSuc [of k] by (simp add: add.commute)
  have "[Suc (unat k)..<Suc (unat k + (unat n - unat k))] = [unat n]" using n by simp
  then have nm: "nums (unat k) (unat n - unat k) = [n]" unfolding nums_def by (simp only: list.map) simp
  have ids: "existing (cl_os c) a (nums (unat k) (unat n - unat k)) = [n]" "socket_object (cl_os c) a n = Some p"
    using assms(3) nm by (simp_all add: existing_def socket_object_def)
  have "app_counter (d_stack (sees c app d)) a = Some n" using assms(4,8) by (simp add: app_counter_def sees_def)
  then obtain d' where d': "map_new_sockets api a (sees c app d) = Some (Ok d')"
    "mapped a (nums (unat k) (unat n - unat k)) (sees c app d) d'"
    using map_new_sockets_spec [of "sees c app d" a n k api] assms(1,2,6,9) by (auto simp: sees_def)
  have "ns_list (new_socket_queues d' r) = take (ns_cap (new_socket_queues d r)) (ns_list (new_socket_queues d r)
      @ (if r = prio_queue_of (priority (client_regions c p)) then [(a, n)] else []))" for r
    using d'(2) ids announce_sockets_spec [OF assms(10) [of r], of "ids_of_prio (sees c app d) a r [n]"]
    by (simp add: mapped_def Let_def sees_def ids_of_prio_def)
  with d'(1) show ?thesis by blast
qed

text \<open>
  C19. \<open>map_socket_region\<close> raises the counter the stack waits on before \<open>pifus_socket\<close> has stored the priority.
  A stack that looks in between announces the socket to the low priority thread, whatever its priority is;
  a stack that looks when \<open>pifus_socket\<close> has returned announces it to the thread of its priority.
\<close>

theorem early_look_loses_priority:
  assumes "os_inv (cl_os c)" "willing (cl_os c)" "app_shm_name c = app_name a" "k = highest_socket_number (app_state c)"
    and "n = k + 1" "unat n < 127" "0 < n" "length (client_sockets c) = 127" "heap_inv (app_state c) bs"
    and "shm_names (cl_os c) (socket_name (app_name a) n) = None"
    and "app_ptrs (d_stack d) ! unat a = Some app" "app_local_highest_socket_number d ! unat a = k"
    and "\<And>r. ns_inv (new_socket_queues d r)" "\<And>r. ns_list (new_socket_queues d r) = []" "\<And>r. 0 < ns_cap (new_socket_queues d r)"
  shows "\<exists>p c1 d1 c2 d2. map_socket_region c = Ok (p, c1) \<and> map_new_sockets api a (sees c1 app d) = Some (Ok d1)
     \<and> ns_list (new_socket_queues d1 Low) = [(a, n)] \<and> ns_list (new_socket_queues d1 High) = []
     \<and> pifus_socket_create c PROTOCOL_TCP PRIORITY_HIGH = Ok (p, c2) \<and> map_new_sockets api a (sees c2 app d) = Some (Ok d2)
     \<and> ns_list (new_socket_queues d2 High) = [(a, n)] \<and> ns_list (new_socket_queues d2 Low) = []"
proof -
  let ?p = "next_object (cl_os c)"
  obtain os1 where o: "shm_open_region (cl_os c) (socket_name (app_name a) n) True = (Inr ?p, os1)"
    using assms(2,10) by (simp add: shm_open_region_def willing_def Let_def)
  note inv = os_inv_create [OF assms(1) o]
  have w: "willing os1" using assms(2) inv(6) by (simp add: willing_def)
  define c1 where "c1 = (set_region c ?p zero_socket)\<lparr>cl_os := os1\<lparr>os_calls := os_calls os1 + 2\<rparr>,
    client_sockets := (client_sockets c)[unat n := Some ?p], app_state := set_highest_socket_number (app_state c) n\<rparr>"
  have m: "map_socket_region c = Ok (?p, c1)"
    using o assms(3-5) by (simp add: map_willing [OF w] map_socket_region_def Let_def set_region_def c1_def)
  define c2 where "c2 = set_region c1 ?p (init_client_socket PROTOCOL_TCP PRIORITY_HIGH None (client_regions c1 ?p))"
  have m2: "pifus_socket_create c PROTOCOL_TCP PRIORITY_HIGH = Ok (?p, c2)"
    using m by (simp add: pifus_socket_create_def pifus_socket_with_tcp_pcb_def c2_def)
  have v: "willing (cl_os c1)" "os_inv (cl_os c1)" "shm_names (cl_os c1) (socket_name (app_name a) n) = Some ?p"
    "highest_socket_number (app_state c1) = n" "cl_os c2 = cl_os c1" "app_state c2 = app_state c1"
    using w inv heap_inv_set_highest [OF assms(9)] by (simp_all add: c1_def c2_def os_inv_def set_region_def)
  have p1: "prio_queue_of (priority (client_regions c1 ?p)) = Low" "prio_queue_of (priority (client_regions c2 ?p)) = High"
    by (simp_all add: c1_def c2_def set_region_def zero_socket_def prio_queue_of_def init_client_socket_def Let_def
        PRIORITY_HIGH_def PRIORITY_MEDIUM_def)
  have n: "unat n < 2 ^ 32 - 1" using assms(6) by simp
  note s = map_new_sockets_sees [OF _ _ _ _ assms(5) n assms(7,11,12,13), of _ _ api]
  obtain d1 where d1: "map_new_sockets api a (sees c1 app d) = Some (Ok d1)"
    "\<forall>r. ns_list (new_socket_queues d1 r) = take (ns_cap (new_socket_queues d r)) (if r = Low then [(a, n)] else [])"
    using s [of c1 ?p] v(1-4) p1 assms(14) by auto
  obtain d2 where d2: "map_new_sockets api a (sees c2 app d) = Some (Ok d2)"
    "\<forall>r. ns_list (new_socket_queues d2 r) = take (ns_cap (new_socket_queues d r)) (if r = High then [(a, n)] else [])"
    using s [of c2 ?p] v p1 assms(14) by auto
  show ?thesis using m m2 d1 d2 assms(15) [of Low] assms(15) [of High]
    by (intro exI [of _ ?p] exI [of _ c1] exI [of _ d1] exI [of _ c2] exI [of _ d2]) auto
qed

theorem early_look_loses_priority_witness:
  "\<exists>p c1 d1 c2 d2. map_socket_region demo_client = Ok (p, c1)
     \<and> map_new_sockets demo_api 3 (sees c1 0 (demo_discovery\<lparr>d_stack := demo_stack\<lparr>app_ptrs := replicate 100 (Some 0)\<rparr>\<rparr>)) = Some (Ok d1)
     \<and> ns_list (new_socket_queues d1 Low) = [(3, 1)]
     \<and> pifus_socket_create demo_client PROTOCOL_TCP PRIORITY_HIGH = Ok (p, c2)
     \<and> map_new_sockets demo_api 3 (sees c2 0 (demo_discovery\<lparr>d_stack := demo_stack\<lparr>app_ptrs := replicate 100 (Some 0)\<rparr>\<rparr>)) = Some (Ok d2)
     \<and> ns_list (new_socket_queues d2 High) = [(3, 1)]"
proof -
  let ?d = "demo_discovery\<lparr>d_stack := demo_stack\<lparr>app_ptrs := replicate 100 (Some 0)\<rparr>\<rparr>"
  have c: "os_inv (cl_os demo_client)" "willing (cl_os demo_client)" "app_shm_name demo_client = app_name 3"
    "highest_socket_number (app_state demo_client) = 0" "length (client_sockets demo_client) = 127"
    "heap_inv (app_state demo_client) []" "shm_names (cl_os demo_client) (socket_name (app_name 3) 1) = None"
    using heap_inv_empty by (auto simp: demo_client_def os_inv_def willing_def inj_on_def)
  have d: "app_ptrs (d_stack ?d) ! unat (3 :: u32) = Some 0" "app_local_highest_socket_number ?d ! unat (3 :: u32) = 0"
    "new_socket_queues ?d = new_socket_queues demo_discovery"
    by (simp_all add: demo_discovery_def)
  show ?thesis
    using early_look_loses_priority [of demo_client 3 0 1 "[]" ?d 0 demo_api] c d demo_discovery_parts(4-6) by auto
qed

end
