(* ===== verification/Client_Wait.thy ===== *)
theory Client_Wait
  imports Client_Socket "HOL-Library.Sublist"
begin

text \<open>
  Waiting for a result: \<open>pifus_socket_wait\<close> of \<open>api/src/pifus_socket.c\<close> in steps, interleaved with the stack, which
  delivers a result by \<open>enqueue_in_cqueue\<close> in three steps: it puts the result into the completion queue, counts it
  in the futex, and wakes who sleeps on the futex. Putting and taking are single steps here; their accesses are
  those of \<open>Ring_Buffer_SPSC\<close>.
\<close>

section \<open>Model\<close>

text \<open>Where the caller is in the function; the word is its \<open>shadow_cqueue\<close>, which is read only once.\<close>

datatype wait_pc =
  Wait_Read
| Wait_First u32
| Wait_Futex u32
| Wait_Asleep u32
| Wait_Dequeue u32
| Wait_Returned operation_result
| Wait_Faulted fault

text \<open>
  \<open>futex_wait\<close>: the kernel compares the futex with the value expected and puts the caller to sleep when they
  agree; otherwise the call returns at once with an error, which is only logged.
\<close>

definition futex_wait :: "u32 \<Rightarrow> u32 \<Rightarrow> bool" where
  "futex_wait current val \<longleftrightarrow> current = val"

definition wait_dequeue :: "nat \<Rightarrow> u32 \<Rightarrow> client \<Rightarrow> wait_pc \<times> client" where
  "wait_dequeue p shadow_cqueue c =
     (case dequeue_operation c p of
        Fault f \<Rightarrow> (Wait_Faulted f, c)
      | Ok (Some r, c1) \<Rightarrow> (Wait_Returned r, c1)
      | Ok (None, c1) \<Rightarrow> (Wait_Futex shadow_cqueue, c1))"

text \<open>A step of the function; \<open>callback\<close> tells whether the application has registered a callback.\<close>

fun pifus_socket_wait :: "bool \<Rightarrow> nat \<Rightarrow> wait_pc \<Rightarrow> client \<Rightarrow> wait_pc \<times> client" where
  "pifus_socket_wait callback p Wait_Read c = (Wait_First (cqueue_futex (client_regions c p)), c)"
| "pifus_socket_wait callback p (Wait_First shadow_cqueue) c = wait_dequeue p shadow_cqueue c"
| "pifus_socket_wait callback p (Wait_Futex shadow_cqueue) c =
     (if \<not> callback \<and> futex_wait (cqueue_futex (client_regions c p)) shadow_cqueue then (Wait_Asleep shadow_cqueue, c)
      else (Wait_Dequeue shadow_cqueue, c))"
| "pifus_socket_wait callback p (Wait_Asleep shadow_cqueue) c = (Wait_Asleep shadow_cqueue, c)"
| "pifus_socket_wait callback p (Wait_Dequeue shadow_cqueue) c = wait_dequeue p shadow_cqueue c"
| "pifus_socket_wait callback p (Wait_Returned r) c = (Wait_Returned r, c)"
| "pifus_socket_wait callback p (Wait_Faulted f) c = (Wait_Faulted f, c)"

text \<open>Where the stack is in \<open>enqueue_in_cqueue\<close>.\<close>

datatype deliver_pc = Deliver_Idle | Deliver_Count | Deliver_Wake

record wait_system =
  wt_pc :: wait_pc
  wt_client :: client
  wt_deliver :: deliver_pc

definition deliver_put :: "nat \<Rightarrow> operation_result \<Rightarrow> wait_system \<Rightarrow> wait_system" where
  "deliver_put p operation_result y =
     (let socket = client_regions (wt_client y) p
      in case ring_buffer_put (cqueue socket) (cqueue_buffer socket) operation_result of
           (ok, rb, buf) \<Rightarrow>
             y\<lparr>wt_client := set_region (wt_client y) p (socket\<lparr>cqueue := rb, cqueue_buffer := buf\<rparr>),
               wt_deliver := (if ok then Deliver_Count else Deliver_Idle)\<rparr>)"

definition deliver_count :: "nat \<Rightarrow> wait_system \<Rightarrow> wait_system" where
  "deliver_count p y =
     (let socket = client_regions (wt_client y) p
      in y\<lparr>wt_client := set_region (wt_client y) p (socket\<lparr>cqueue_futex := cqueue_futex socket + 1\<rparr>),
           wt_deliver := Deliver_Wake\<rparr>)"

definition wake_up :: "wait_pc \<Rightarrow> wait_pc" where
  "wake_up pc = (case pc of Wait_Asleep shadow_cqueue \<Rightarrow> Wait_Dequeue shadow_cqueue | _ \<Rightarrow> pc)"

definition deliver_wake :: "wait_system \<Rightarrow> wait_system" where
  "deliver_wake y = y\<lparr>wt_pc := wake_up (wt_pc y), wt_deliver := Deliver_Idle\<rparr>"

text \<open>
  An event of a schedule: a step of the caller, the next step of a delivery or the start of one, a signal that ends
  the sleep early, or whatever else happens to the memory.
\<close>

datatype wait_event = Caller | is_Deliver: Deliver operation_result | Interrupt | Others "client \<Rightarrow> client"

fun wait_step :: "bool \<Rightarrow> nat \<Rightarrow> wait_event \<Rightarrow> wait_system \<Rightarrow> wait_system" where
  "wait_step callback p Caller y =
     (case pifus_socket_wait callback p (wt_pc y) (wt_client y) of (pc, c) \<Rightarrow> y\<lparr>wt_pc := pc, wt_client := c\<rparr>)"
| "wait_step callback p (Deliver r) y =
     (case wt_deliver y of
        Deliver_Idle \<Rightarrow> deliver_put p r y
      | Deliver_Count \<Rightarrow> deliver_count p y
      | Deliver_Wake \<Rightarrow> deliver_wake y)"
| "wait_step callback p Interrupt y = y\<lparr>wt_pc := wake_up (wt_pc y)\<rparr>"
| "wait_step callback p (Others f) y = y\<lparr>wt_client := f (wt_client y)\<rparr>"

abbreviation wait_run :: "bool \<Rightarrow> nat \<Rightarrow> wait_event list \<Rightarrow> wait_system \<Rightarrow> wait_system" where
  "wait_run callback p \<equiv> fold (wait_step callback p)"

text \<open>The three steps of a delivery together are \<open>enqueue_in_cqueue\<close>; on a full queue the first one ends it.\<close>

lemma delivery_is_enqueue:
  assumes "wt_deliver y = Deliver_Idle" "s = client_regions (wt_client y) p"
    "ring_buffer_put (cqueue s) (cqueue_buffer s) r = (ok, rb, buf)"
    "y' = wait_run callback p (replicate (if ok then 3 else 1) (Deliver r)) y"
  shows "wt_client y' = set_region (wt_client y) p (enqueue_in_cqueue s r)" "wt_deliver y' = Deliver_Idle"
  using assms by (auto simp: numeral_3_eq_3 deliver_wake_def deliver_count_def deliver_put_def enqueue_in_cqueue_def
    set_region_def Let_def split: if_splits)

section \<open>Invariant\<close>

text \<open>What other events may do: nothing to the completion queue of the socket or its futex.\<close>

definition leaves_completions :: "nat \<Rightarrow> (client \<Rightarrow> client) \<Rightarrow> bool" where
  "leaves_completions p f \<longleftrightarrow> (\<forall>c. let s = client_regions c p; s' = client_regions (f c) p
     in cqueue s' = cqueue s \<and> cqueue_buffer s' = cqueue_buffer s \<and> cqueue_futex s' = cqueue_futex s \<and>
        (sock_inv s \<longrightarrow> sock_inv s'))"

fun harmless :: "nat \<Rightarrow> wait_event \<Rightarrow> bool" where
  "harmless p (Others f) = leaves_completions p f"
| "harmless p e = True"

definition finished :: "wait_pc \<Rightarrow> bool" where
  "finished pc \<longleftrightarrow> (\<exists>r. pc = Wait_Returned r) \<or> (\<exists>f. pc = Wait_Faulted f)"

definition results :: "nat \<Rightarrow> wait_system \<Rightarrow> operation_result list" where
  "results p y = cq_list (client_regions (wt_client y) p)"

lemma finished_simps [simp]:
  "finished (Wait_Returned r)" "finished (Wait_Faulted f)" "\<not> finished Wait_Read" "\<not> finished (Wait_First sh)"
  "\<not> finished (Wait_Futex sh)" "\<not> finished (Wait_Asleep sh)" "\<not> finished (Wait_Dequeue sh)"
  by (simp_all add: finished_def)

lemma wake_up_simps [simp]:
  "wake_up Wait_Read = Wait_Read" "wake_up (Wait_First sh) = Wait_First sh" "wake_up (Wait_Futex sh) = Wait_Futex sh"
  "wake_up (Wait_Asleep sh) = Wait_Dequeue sh" "wake_up (Wait_Dequeue sh) = Wait_Dequeue sh"
  "wake_up (Wait_Returned r) = Wait_Returned r" "wake_up (Wait_Faulted f) = Wait_Faulted f"
  by (simp_all add: wake_up_def)

lemma wait_dequeue_cases:
  assumes "sock_inv (client_regions c p)"
  shows "cq_list (client_regions c p) = [] \<Longrightarrow> wait_dequeue p sh c = (Wait_Futex sh, c)"
    "cq_list (client_regions c p) \<noteq> [] \<Longrightarrow> finished (fst (wait_dequeue p sh c))"
proof -
  show "wait_dequeue p sh c = (Wait_Futex sh, c)" if "cq_list (client_regions c p) = []"
    using dequeue_empty [OF assms that] by (simp add: wait_dequeue_def)
  assume "cq_list (client_regions c p) \<noteq> []"
  then obtain r rs where Cons: "cq_list (client_regions c p) = r # rs" by (cases "cq_list (client_regions c p)") auto
  have "dequeue_operation c p \<noteq> Ok (None, c1)" for c1
  proof
    assume "dequeue_operation c p = Ok (None, c1)"
    then show False unfolding dequeue_some [OF assms Cons] by (auto elim!: res_bind_Ok split: prod.splits)
  qed
  then show "finished (fst (wait_dequeue p sh c))"
    by (auto simp: wait_dequeue_def split: res.splits option.splits prod.splits)
qed

lemma finished_stays: "finished (wt_pc y) \<Longrightarrow> wt_pc (wait_step callback p e y) = wt_pc y"
  by (cases e) (auto simp: finished_def deliver_put_def deliver_count_def deliver_wake_def Let_def
    split: deliver_pc.splits prod.splits)

text \<open>What each event but the caller's does to the queue and the futex.\<close>

definition futex_of :: "nat \<Rightarrow> wait_system \<Rightarrow> u32" where
  "futex_of p y = cqueue_futex (client_regions (wt_client y) p)"

definition sound :: "nat \<Rightarrow> wait_system \<Rightarrow> bool" where
  "sound p y \<longleftrightarrow> sock_inv (client_regions (wt_client y) p)"

lemma deliver_put_spec:
  assumes "sound p y" "wt_deliver y = Deliver_Idle"
  obtains ok where "results p (deliver_put p r y) = results p y @ (if ok then [r] else [])"
    "wt_deliver (deliver_put p r y) = (if ok then Deliver_Count else Deliver_Idle)"
    "sound p (deliver_put p r y)" "futex_of p (deliver_put p r y) = futex_of p y" "wt_pc (deliver_put p r y) = wt_pc y"
proof -
  let ?s = "client_regions (wt_client y) p"
  obtain ok rb buf where put: "ring_buffer_put (cqueue ?s) (cqueue_buffer ?s) r = (ok, rb, buf)" by (metis prod_cases3)
  have inv: "case (cqueue ?s, cqueue_buffer ?s) of (rb, buf) \<Rightarrow> rb_inv rb buf" using assms(1) by (simp add: sound_def sock_inv_def)
  have "rbq_put (cqueue ?s, cqueue_buffer ?s) r = (ok, (rb, buf))" using put by simp
  note q = rbq.put_cases [OF inv this]
  show thesis
    by (rule that [of ok])
      (use put q assms in \<open>auto simp: deliver_put_def set_region_def results_def sound_def futex_of_def sock_inv_def cq_list_def\<close>)
qed

lemma wait_step_others:
  assumes "sound p y" "harmless p e" "e \<noteq> Caller" and y'_def: "y' = wait_step callback p e y"
  shows "sound p y'" "prefix (results p y) (results p y')"
    "futex_of p y' = futex_of p y + of_bool (is_Deliver e \<and> wt_deliver y = Deliver_Count)"
    "wt_pc y' = (if e = Interrupt \<or> is_Deliver e \<and> wt_deliver y = Deliver_Wake then wake_up (wt_pc y) else wt_pc y)"
    "wt_deliver y' = (if is_Deliver e \<and> wt_deliver y = Deliver_Idle then (if results p y' = results p y then Deliver_Idle else Deliver_Count)
       else if is_Deliver e \<and> wt_deliver y = Deliver_Count then Deliver_Wake
       else if is_Deliver e then Deliver_Idle else wt_deliver y)"
    "\<not> (is_Deliver e \<and> wt_deliver y = Deliver_Idle) \<Longrightarrow> results p y' = results p y"
proof -
  have "sound p y' \<and> prefix (results p y) (results p y') \<and>
    futex_of p y' = futex_of p y + of_bool (is_Deliver e \<and> wt_deliver y = Deliver_Count) \<and>
    wt_pc y' = (if e = Interrupt \<or> is_Deliver e \<and> wt_deliver y = Deliver_Wake then wake_up (wt_pc y) else wt_pc y) \<and>
    wt_deliver y' = (if is_Deliver e \<and> wt_deliver y = Deliver_Idle then (if results p y' = results p y then Deliver_Idle else Deliver_Count)
       else if is_Deliver e \<and> wt_deliver y = Deliver_Count then Deliver_Wake
       else if is_Deliver e then Deliver_Idle else wt_deliver y) \<and>
    (\<not> (is_Deliver e \<and> wt_deliver y = Deliver_Idle) \<longrightarrow> results p y' = results p y)"
  proof (cases e)
    case (Deliver r)
    show ?thesis
    proof (cases "wt_deliver y")
      case Deliver_Idle
      obtain ok where d: "results p (deliver_put p r y) = results p y @ (if ok then [r] else [])"
        "wt_deliver (deliver_put p r y) = (if ok then Deliver_Count else Deliver_Idle)"
        "sound p (deliver_put p r y)" "futex_of p (deliver_put p r y) = futex_of p y" "wt_pc (deliver_put p r y) = wt_pc y"
        by (rule deliver_put_spec [OF assms(1) Deliver_Idle])
      have "y' = deliver_put p r y" using Deliver Deliver_Idle by (simp add: y'_def)
      with d Deliver Deliver_Idle show ?thesis by (cases ok) simp_all
    qed (use Deliver assms(1) in \<open>auto simp: y'_def deliver_count_def deliver_wake_def Let_def set_region_def sound_def
        results_def futex_of_def sock_inv_def cq_list_def\<close>)
  qed (use assms in \<open>auto simp: y'_def sound_def results_def futex_of_def leaves_completions_def cq_list_def Let_def\<close>)
  then show "sound p y'" "prefix (results p y) (results p y')"
    "futex_of p y' = futex_of p y + of_bool (is_Deliver e \<and> wt_deliver y = Deliver_Count)"
    "wt_pc y' = (if e = Interrupt \<or> is_Deliver e \<and> wt_deliver y = Deliver_Wake then wake_up (wt_pc y) else wt_pc y)"
    "wt_deliver y' = (if is_Deliver e \<and> wt_deliver y = Deliver_Idle then (if results p y' = results p y then Deliver_Idle else Deliver_Count)
       else if is_Deliver e \<and> wt_deliver y = Deliver_Count then Deliver_Wake
       else if is_Deliver e then Deliver_Idle else wt_deliver y)"
    "\<not> (is_Deliver e \<and> wt_deliver y = Deliver_Idle) \<Longrightarrow> results p y' = results p y" by blast+
qed

lemma caller_step:
  assumes "sound p y" "\<not> finished (wt_pc y)" "y' = wait_step callback p Caller y"
  shows "finished (wt_pc y') \<or> wt_client y' = wt_client y" "wt_deliver y' = wt_deliver y"
    "results p y \<noteq> [] \<Longrightarrow> wt_pc y = Wait_First sh \<or> wt_pc y = Wait_Dequeue sh \<Longrightarrow> finished (wt_pc y')"
    "results p y = [] \<Longrightarrow> wt_pc y = Wait_First sh \<or> wt_pc y = Wait_Dequeue sh \<Longrightarrow> wt_pc y' = Wait_Futex sh"
proof -
  note w = wait_dequeue_cases [OF assms(1) [unfolded sound_def], folded results_def]
  have "(finished (wt_pc y') \<or> wt_client y' = wt_client y) \<and> wt_deliver y' = wt_deliver y \<and>
    (results p y \<noteq> [] \<and> (\<exists>sh. wt_pc y = Wait_First sh \<or> wt_pc y = Wait_Dequeue sh) \<longrightarrow> finished (wt_pc y')) \<and>
    (\<forall>sh. results p y = [] \<and> (wt_pc y = Wait_First sh \<or> wt_pc y = Wait_Dequeue sh) \<longrightarrow> wt_pc y' = Wait_Futex sh)"
  proof (cases "wt_pc y")
    case (Wait_First sh)
    then show ?thesis using w(1) [of sh] w(2) [of sh] assms(3) by (cases "results p y = []") (auto split: prod.splits)
  next
    case (Wait_Dequeue sh)
    then show ?thesis using w(1) [of sh] w(2) [of sh] assms(3) by (cases "results p y = []") (auto split: prod.splits)
  qed (use assms in auto)
  then show "finished (wt_pc y') \<or> wt_client y' = wt_client y" "wt_deliver y' = wt_deliver y"
    "results p y \<noteq> [] \<Longrightarrow> wt_pc y = Wait_First sh \<or> wt_pc y = Wait_Dequeue sh \<Longrightarrow> finished (wt_pc y')"
    "results p y = [] \<Longrightarrow> wt_pc y = Wait_First sh \<or> wt_pc y = Wait_Dequeue sh \<Longrightarrow> wt_pc y' = Wait_Futex sh" by blast+
qed

text \<open>
  \<open>n\<close> bounds how often the futex has been counted up since the shadow was read. A caller on its way to sleep has
  seen an empty queue: what is in it now was counted, or is about to be. A caller that sleeps either saw no
  count at all, or is about to be woken.
\<close>

definition counted :: "nat \<Rightarrow> nat \<Rightarrow> wait_system \<Rightarrow> u32 \<Rightarrow> nat \<Rightarrow> bool" where
  "counted n p y sh k \<longleftrightarrow> k \<le> n \<and> futex_of p y = sh + of_nat k"

definition wait_inv :: "nat \<Rightarrow> nat \<Rightarrow> wait_system \<Rightarrow> bool" where
  "wait_inv n p y \<longleftrightarrow> finished (wt_pc y) \<or> sound p y \<and>
     (case wt_pc y of
        Wait_First sh \<Rightarrow> \<exists>k. counted n p y sh k
      | Wait_Dequeue sh \<Rightarrow> \<exists>k. counted n p y sh k
      | Wait_Futex sh \<Rightarrow> \<exists>k. counted n p y sh k \<and> (results p y \<noteq> [] \<longrightarrow> 0 < k \<or> wt_deliver y = Deliver_Count)
      | Wait_Asleep sh \<Rightarrow> \<exists>k. counted n p y sh k \<and> (wt_deliver y = Deliver_Wake \<or>
          k = 0 \<and> (results p y \<noteq> [] \<longrightarrow> wt_deliver y = Deliver_Count))
      | _ \<Rightarrow> True)"

lemma counted_step:
  assumes "counted n p y sh k" "futex_of p y' = futex_of p y + of_bool b" "b \<longrightarrow> d"
  shows "counted (n + of_bool d) p y' sh (k + of_bool b)"
  using assms by (auto simp: counted_def add.assoc)

lemma counted_zero:
  assumes "counted n p y sh k" "n < 2 ^ 32" "futex_of p y = sh"
  shows "k = 0"
proof -
  have "(of_nat k :: u32) = 0" "k < 2 ^ 32" using assms by (simp_all add: counted_def)
  then show ?thesis using unat_of_nat [where 'a = 32, of k] by (simp add: take_bit_nat_eq_self)
qed

lemma wait_inv_caller:
  assumes "wait_inv n p y" "n < 2 ^ 32"
  shows "wait_inv n p (wait_step callback p Caller y)"
proof (cases "finished (wt_pc y)")
  case True
  then show ?thesis using finished_stays [OF True] unfolding wait_inv_def by metis
next
  case False
  define y' where "y' = wait_step callback p Caller y"
  have sd: "sound p y" using assms(1) False by (simp add: wait_inv_def)
  note c = caller_step [OF sd False y'_def]
  show ?thesis
  proof (cases "finished (wt_pc y')")
    case True
    then show ?thesis by (simp add: y'_def wait_inv_def)
  next
    case nf: False
    then have same: "wt_client y' = wt_client y" "wt_deliver y' = wt_deliver y" using c by simp_all
    then have k: "counted n p y' = counted n p y" "sound p y' = sound p y" "results p y' = results p y" "futex_of p y' = futex_of p y"
      by (simp_all add: counted_def fun_eq_iff sound_def results_def futex_of_def)
    have "wait_inv n p y'"
    proof (cases "wt_pc y")
      case Wait_Read
      then have "wt_pc y' = Wait_First (futex_of p y)" by (simp add: y'_def futex_of_def)
      then show ?thesis using sd k by (auto simp: wait_inv_def counted_def intro: exI [of _ 0])
    next
      case (Wait_Futex sh)
      then obtain j where j: "counted n p y sh j" "results p y \<noteq> [] \<longrightarrow> 0 < j \<or> wt_deliver y = Deliver_Count"
        using assms(1) by (auto simp: wait_inv_def)
      show ?thesis
      proof (cases "wt_pc y' = Wait_Asleep sh")
        case True
        then have "futex_of p y = sh"
          using Wait_Futex by (auto simp: y'_def futex_wait_def futex_of_def split: if_splits)
        then have "j = 0" by (rule counted_zero [OF j(1) assms(2)])
        then show ?thesis using True j k same sd by (auto simp: wait_inv_def)
      next
        case False
        then have "wt_pc y' = Wait_Dequeue sh" using Wait_Futex by (auto simp: y'_def split: if_splits)
        then show ?thesis using j(1) k sd by (auto simp: wait_inv_def)
      qed
    next
      case (Wait_First sh)
      then have "results p y = []" using c(3) nf by blast
      then show ?thesis using c(4) assms k Wait_First same by (auto simp: wait_inv_def)
    next
      case (Wait_Dequeue sh)
      then have "results p y = []" using c(3) nf by blast
      then show ?thesis using c(4) assms k Wait_Dequeue same by (auto simp: wait_inv_def)
    qed (use False assms k same in \<open>auto simp: wait_inv_def y'_def\<close>)
    then show ?thesis by (simp add: y'_def)
  qed
qed

lemma wait_inv_others:
  assumes "wait_inv n p y" "harmless p e" "e \<noteq> Caller"
  shows "wait_inv (n + of_bool (is_Deliver e)) p (wait_step callback p e y)"
proof (cases "finished (wt_pc y)")
  case True
  then show ?thesis using finished_stays [OF True] unfolding wait_inv_def by metis
next
  case False
  define y' where "y' = wait_step callback p e y"
  have sd: "sound p y" using assms(1) False by (simp add: wait_inv_def)
  note o = wait_step_others [OF sd assms(2,3) y'_def]
  have k: "counted (n + of_bool (is_Deliver e)) p y' sh (k + of_bool (is_Deliver e \<and> wt_deliver y = Deliver_Count))"
    if "counted n p y sh k" for sh k
    by (rule counted_step [OF that o(3)]) simp
  have "wait_inv (n + of_bool (is_Deliver e)) p y'"
  proof (cases "wt_pc y")
    case (Wait_First sh)
    then obtain j where "counted n p y sh j" using assms(1) by (auto simp: wait_inv_def)
    from k [OF this] show ?thesis using Wait_First o(1,4) by (auto simp: wait_inv_def)
  next
    case (Wait_Dequeue sh)
    then obtain j where "counted n p y sh j" using assms(1) by (auto simp: wait_inv_def)
    from k [OF this] show ?thesis using Wait_Dequeue o(1,4) by (auto simp: wait_inv_def)
  next
    case (Wait_Futex sh)
    then obtain j where "counted n p y sh j" "results p y \<noteq> [] \<longrightarrow> 0 < j \<or> wt_deliver y = Deliver_Count"
      using assms(1) by (auto simp: wait_inv_def)
    then show ?thesis using k [of sh j] o Wait_Futex by (cases "wt_deliver y") (auto simp: wait_inv_def)
  next
    case (Wait_Asleep sh)
    then obtain j where j: "counted n p y sh j" "wt_deliver y = Deliver_Wake \<or>
        j = 0 \<and> (results p y \<noteq> [] \<longrightarrow> wt_deliver y = Deliver_Count)"
      using assms(1) by (auto simp: wait_inv_def)
    show ?thesis
    proof (cases "e = Interrupt \<or> is_Deliver e \<and> wt_deliver y = Deliver_Wake")
      case True
      then show ?thesis using k [OF j(1)] o(1,4) Wait_Asleep by (auto simp: wait_inv_def)
    next
      case False
      then show ?thesis using k [OF j(1)] j(2) o Wait_Asleep by (cases "wt_deliver y") (auto simp: wait_inv_def)
    qed
  qed (use False o(1,4) in \<open>auto simp: wait_inv_def\<close>)
  then show ?thesis by (simp add: y'_def)
qed

abbreviation deliveries :: "wait_event list \<Rightarrow> nat" where
  "deliveries es \<equiv> length (filter is_Deliver es)"

lemma wait_inv_step:
  assumes "wait_inv n p y" "harmless p e" "n + of_bool (is_Deliver e) < 2 ^ 32"
  shows "wait_inv (n + of_bool (is_Deliver e)) p (wait_step callback p e y)"
proof (cases "e = Caller")
  case True
  then show ?thesis using assms wait_inv_caller [of n p y callback] by simp
next
  case False
  then show ?thesis by (rule wait_inv_others [OF assms(1,2)])
qed

lemma wait_inv_run:
  assumes "wait_inv n p y" "list_all (harmless p) es" "n + deliveries es < 2 ^ 32"
  shows "wait_inv (n + deliveries es) p (wait_run callback p es y)"
  using assms
proof (induction es arbitrary: n y)
  case (Cons e es)
  have "wait_inv (n + of_bool (is_Deliver e)) p (wait_step callback p e y)"
    using Cons.prems by (intro wait_inv_step) (simp_all split: if_splits)
  from Cons.IH [OF this] Cons.prems show ?case by (simp split: if_splits)
qed simp

text \<open>A caller that finds or has been told of a result needs two steps at most, and nothing puts it to sleep.\<close>

definition awake :: "nat \<Rightarrow> nat \<Rightarrow> wait_system \<Rightarrow> bool" where
  "awake n p y \<longleftrightarrow> finished (wt_pc y) \<or> wait_inv n p y \<and> results p y \<noteq> [] \<and>
     (case wt_pc y of Wait_Asleep sh \<Rightarrow> False | Wait_Futex sh \<Rightarrow> \<exists>k. 0 < k \<and> counted n p y sh k | _ \<Rightarrow> True)"

fun steps_left :: "wait_pc \<Rightarrow> nat" where
  "steps_left Wait_Read = 2"
| "steps_left (Wait_First sh) = 1"
| "steps_left (Wait_Futex sh) = 2"
| "steps_left (Wait_Asleep sh) = 3"
| "steps_left (Wait_Dequeue sh) = 1"
| "steps_left pc = 0"

lemma finished_steps_left: "finished pc \<longleftrightarrow> steps_left pc = 0"
  by (cases pc) simp_all

lemma awake_step:
  assumes "awake n p y" "harmless p e" "n + of_bool (is_Deliver e) < 2 ^ 32"
    and y'_def: "y' = wait_step callback p e y" and m_def: "m = n + of_bool (is_Deliver e)"
  shows "awake m p y' \<and> steps_left (wt_pc y') \<le> steps_left (wt_pc y) - of_bool (e = Caller)"
proof (cases "finished (wt_pc y)")
  case True
  then show ?thesis using finished_stays [OF True, of callback p e] by (simp add: awake_def y'_def finished_steps_left)
next
  case False
  have inv: "wait_inv n p y" "results p y \<noteq> []" "sound p y" using assms(1) False by (auto simp: awake_def wait_inv_def)
  have inv': "wait_inv m p y'" unfolding y'_def m_def by (rule wait_inv_step [OF inv(1) assms(2,3)])
  show ?thesis
  proof (cases "e = Caller")
    case True
    note c = caller_step [OF inv(3) False y'_def [unfolded True]]
    show ?thesis
    proof (cases "wt_pc y")
      case Wait_Read
      then show ?thesis using True inv inv' c by (auto simp: awake_def y'_def results_def)
    next
      case (Wait_Futex sh)
      then obtain k where k: "0 < k" "counted n p y sh k" using assms(1) by (auto simp: awake_def)
      have "futex_of p y \<noteq> sh" using counted_zero [OF k(2)] k(1) assms(3) by auto
      then have "y' = y\<lparr>wt_pc := Wait_Dequeue sh\<rparr>"
        using Wait_Futex True by (simp add: y'_def futex_wait_def futex_of_def)
      then show ?thesis using Wait_Futex inv inv' by (simp add: awake_def results_def)
    next
      case (Wait_First sh)
      then have "finished (wt_pc y')" using c(3) inv(2) by blast
      then show ?thesis by (simp add: awake_def finished_steps_left)
    next
      case (Wait_Dequeue sh)
      then have "finished (wt_pc y')" using c(3) inv(2) by blast
      then show ?thesis by (simp add: awake_def finished_steps_left)
    qed (use False assms(1) in \<open>auto simp: awake_def\<close>)
  next
    case other: False
    note o = wait_step_others [OF inv(3) assms(2) other, of y' callback, OF y'_def]
    have pc: "wt_pc y' = wt_pc y" using o(4) assms(1) False by (cases "wt_pc y") (auto simp: awake_def)
    have ne: "results p y' \<noteq> []" using o(2) inv(2) by (auto simp: prefix_def)
    have "\<exists>k. 0 < k \<and> counted m p y' sh k" if "wt_pc y = Wait_Futex sh" for sh
    proof -
      obtain k where k: "0 < k" "counted n p y sh k" using assms(1) \<open>wt_pc y = Wait_Futex sh\<close> by (auto simp: awake_def)
      from counted_step [OF k(2) o(3), of "is_Deliver e"] k(1) show ?thesis unfolding m_def by auto
    qed
    then have "awake m p y'" using pc ne inv' assms(1) False by (cases "wt_pc y") (auto simp: awake_def)
    then show ?thesis using pc other by simp
  qed
qed

lemma awake_run:
  assumes "awake n p y" "list_all (harmless p) es" "n + deliveries es < 2 ^ 32"
    "steps_left (wt_pc y) \<le> length (filter ((=) Caller) es)"
  shows "finished (wt_pc (wait_run callback p es y))"
  using assms
proof (induction es arbitrary: n y)
  case (Cons e es)
  have "awake (n + of_bool (is_Deliver e)) p (wait_step callback p e y) \<and>
      steps_left (wt_pc (wait_step callback p e y)) \<le> steps_left (wt_pc y) - of_bool (e = Caller)"
    using Cons.prems by (intro awake_step) (simp_all split: if_splits)
  then show ?case using Cons.prems by (auto intro!: Cons.IH split: if_splits)
qed (simp add: finished_steps_left)

lemma results_grow:
  assumes "wait_inv n p y" "list_all (harmless p) es" "n + deliveries es < 2 ^ 32"
    "\<not> finished (wt_pc (wait_run callback p es y))"
  shows "prefix (results p y) (results p (wait_run callback p es y))"
  using assms
proof (induction es rule: rev_induct)
  case (snoc e es)
  let ?y = "wait_run callback p es y"
  have nf: "\<not> finished (wt_pc ?y)" using finished_stays [of ?y callback p e] snoc.prems(4) by auto
  have "prefix (results p y) (results p ?y)" using snoc nf by simp
  moreover have sd: "sound p ?y"
    using wait_inv_run [OF snoc.prems(1), of es callback] snoc.prems(2,3) nf by (simp add: wait_inv_def)
  have "prefix (results p ?y) (results p (wait_step callback p e ?y))"
  proof (cases "e = Caller")
    case True
    have "wt_client (wait_step callback p Caller ?y) = wt_client ?y"
      using caller_step(1) [OF sd nf refl, of callback] snoc.prems(4) True by (simp del: wait_step.simps)
    then show ?thesis using True by (simp add: results_def del: wait_step.simps)
  next
    case False
    then show ?thesis using wait_step_others(2) [OF sd _ False refl] snoc.prems(2) by simp
  qed
  ultimately show ?case by (auto intro: prefix_order.trans)
qed simp

lemma returned_took:
  assumes "wt_pc (wait_run callback p es y) = Wait_Returned r" "wt_pc y = Wait_Read"
  shows "\<exists>es1 es2 c'. es = es1 @ Caller # es2 \<and> \<not> finished (wt_pc (wait_run callback p es1 y)) \<and>
    dequeue_operation (wt_client (wait_run callback p es1 y)) p = Ok (Some r, c')"
  using assms
proof (induction es rule: rev_induct)
  case (snoc e es)
  let ?y = "wait_run callback p es y"
  show ?case
  proof (cases "finished (wt_pc ?y)")
    case True
    then have "wt_pc ?y = Wait_Returned r" using finished_stays [OF True, of callback p e] snoc.prems(1) by simp
    from snoc.IH [OF this snoc.prems(2)] show ?thesis by fastforce
  next
    case False
    have "e = Caller"
      using snoc.prems(1) False by (cases e; cases "wt_pc ?y")
        (auto simp: deliver_put_def deliver_count_def deliver_wake_def Let_def split: deliver_pc.splits prod.splits)
    moreover have "\<exists>c'. dequeue_operation (wt_client ?y) p = Ok (Some r, c')"
      using snoc.prems(1) False \<open>e = Caller\<close>
      by (cases "wt_pc ?y") (auto simp: wait_dequeue_def split: if_splits res.splits option.splits prod.splits)
    ultimately show ?thesis using False by blast
  qed
qed simp

section \<open>Properties\<close>

text \<open>
  C25. No wake-up of a waiting caller is lost, in every interleaving of \<open>pifus_socket_wait\<close> with the steps of the
  deliveries, signals and anything else that leaves the completion queue alone, with and without a callback: the
  caller sleeps only while the queue is empty or a delivery that will wake it is under way, and from any point on at
  which a delivered result is in the queue it returns after two more steps of its own. What it returns is the
  result taken by \<open>pifus_socket_pop_result\<close> at that step, from a queue that has only grown since the call began.
  Fewer than 2^32 deliveries are taken to fall into the call, as the futex wraps.
\<close>

theorem pifus_socket_wait_returns:
  assumes "sock_inv (client_regions (wt_client y0) p)" "wt_pc y0 = Wait_Read"
    and "list_all (harmless p) (es @ es')" "deliveries (es @ es') < 2 ^ 32"
    and "y = wait_run callback p es y0"
  shows "(\<forall>sh. wt_pc y = Wait_Asleep sh \<longrightarrow> results p y = [] \<or> wt_deliver y \<noteq> Deliver_Idle)
    \<and> (results p y \<noteq> [] \<and> wt_deliver y = Deliver_Idle \<and> 2 \<le> length (filter ((=) Caller) es')
       \<longrightarrow> finished (wt_pc (wait_run callback p es' y)))
    \<and> (\<forall>r. wt_pc y = Wait_Returned r \<longrightarrow> (\<exists>es1 es2 c'. es = es1 @ Caller # es2
         \<and> prefix (results p y0) (results p (wait_run callback p es1 y0))
         \<and> pifus_socket_pop_result (wt_client (wait_run callback p es1 y0)) p = Ok (Some r, c')))"
proof (intro conjI allI impI)
  have i0: "wait_inv 0 p y0" using assms(1,2) by (simp add: wait_inv_def sound_def)
  have i: "wait_inv (deliveries es) p y" using wait_inv_run [OF i0, of es callback] assms(3-5) by simp
  show sleeps: "results p y = [] \<or> wt_deliver y \<noteq> Deliver_Idle" if "wt_pc y = Wait_Asleep sh" for sh
    using i that by (auto simp: wait_inv_def)
  show "finished (wt_pc (wait_run callback p es' y))"
    if "results p y \<noteq> [] \<and> wt_deliver y = Deliver_Idle \<and> 2 \<le> length (filter ((=) Caller) es')"
  proof (rule awake_run)
    show "awake (deliveries es) p y" using i that sleeps by (auto simp: awake_def wait_inv_def split: wait_pc.splits)
    show "steps_left (wt_pc y) \<le> length (filter ((=) Caller) es')" using that sleeps by (cases "wt_pc y") auto
  qed (use assms(3,4) in simp_all)
  show "\<exists>es1 es2 c'. es = es1 @ Caller # es2 \<and> prefix (results p y0) (results p (wait_run callback p es1 y0))
      \<and> pifus_socket_pop_result (wt_client (wait_run callback p es1 y0)) p = Ok (Some r, c')"
    if ret: "wt_pc y = Wait_Returned r" for r
  proof -
    obtain es1 es2 c' where t: "es = es1 @ Caller # es2" "\<not> finished (wt_pc (wait_run callback p es1 y0))"
      "dequeue_operation (wt_client (wait_run callback p es1 y0)) p = Ok (Some r, c')"
      using returned_took [OF ret [unfolded assms(5)] assms(2)] by blast
    then show ?thesis using results_grow [OF i0, of es1 callback] assms(3,4) by (auto simp: pifus_socket_pop_result_def)
  qed
qed

text \<open>
  The caller finds the queue empty and goes to sleep; the stack delivers a result and wakes it; two steps later it
  has returned.
\<close>

definition demo_idle :: pifus_socket where
  "demo_idle = demo_completed\<lparr>cqueue := \<lparr>rb_end = 4, rb_head = 0, rb_tail = 0\<rparr>\<rparr>"

definition demo_wait :: wait_system where
  "demo_wait = \<lparr>wt_pc = Wait_Read, wt_client = set_region demo_client 7 demo_idle, wt_deliver = Deliver_Idle\<rparr>"

lemma demo_idle_facts: "sock_inv demo_idle" "cq_list demo_idle = []" "cq_cap demo_idle = 3"
  using demo_completed_views(1)
  by (simp add: demo_idle_def sock_inv_def, simp add: rb_inv_def demo_completed_def)
    (simp_all add: demo_idle_def cq_list_def rb_list_def rb_count_def ring_count_def cq_cap_def)

lemma demo_wait_asleep:
  "wait_run False 7 [Caller, Caller, Caller] demo_wait = demo_wait\<lparr>wt_pc := Wait_Asleep (cqueue_futex demo_idle)\<rparr>"
  using dequeue_empty [of "wt_client demo_wait" 7] demo_idle_facts(1,2)
  by (simp add: demo_wait_def wait_dequeue_def futex_wait_def)

theorem pifus_socket_wait_returns_witness:
  "\<exists>sh. wt_pc (wait_run False 7 [Caller, Caller, Caller] demo_wait) = Wait_Asleep sh
    \<and> finished (wt_pc (wait_run False 7 [Caller, Caller]
        (wait_run False 7 ([Caller, Caller, Caller] @ replicate 3 (Deliver demo_result)) demo_wait)))"
proof -
  let ?sleep = "demo_wait\<lparr>wt_pc := Wait_Asleep (cqueue_futex demo_idle)\<rparr>"
  let ?y = "wait_run False 7 (replicate 3 (Deliver demo_result)) ?sleep"
  have s: "client_regions (wt_client ?sleep) 7 = demo_idle" by (simp add: demo_wait_def)
  obtain ok rb buf where put: "ring_buffer_put (cqueue demo_idle) (cqueue_buffer demo_idle) demo_result = (ok, rb, buf)"
    by (metis prod_cases3)
  have ok using put by (simp add: ring_buffer_put_def demo_idle_def demo_completed_def Let_def split: if_splits)
  then have d: "wt_client ?y = set_region (wt_client ?sleep) 7 (enqueue_in_cqueue demo_idle demo_result)" "wt_deliver ?y = Deliver_Idle"
    using delivery_is_enqueue [OF _ s [symmetric] put, of ?y False] by (simp_all add: demo_wait_def del: fold_replicate)
  have res: "results 7 ?y \<noteq> []"
    using d(1) enqueue_in_cqueue_spec(2) [OF demo_idle_facts(1), of demo_result] demo_idle_facts(2,3)
    by (simp add: results_def del: fold_replicate)
  have y: "?y = wait_run False 7 ([Caller, Caller, Caller] @ replicate 3 (Deliver demo_result)) demo_wait"
    unfolding fold_append comp_def demo_wait_asleep ..
  have sched: "list_all (harmless 7) (([Caller, Caller, Caller] @ replicate 3 (Deliver demo_result)) @ [Caller, Caller])"
    "deliveries (([Caller, Caller, Caller] @ replicate 3 (Deliver demo_result)) @ [Caller, Caller]) < 2 ^ 32"
    by (simp_all add: numeral_3_eq_3)
  have start: "sock_inv (client_regions (wt_client demo_wait) 7)" "wt_pc demo_wait = Wait_Read"
    using demo_idle_facts(1) by (simp_all add: demo_wait_def)
  have own: "2 \<le> length (filter ((=) Caller) [Caller, Caller])" by simp
  have "finished (wt_pc (wait_run False 7 [Caller, Caller] ?y))"
    using pifus_socket_wait_returns [OF start sched y] res d(2) own by blast
  then show ?thesis unfolding y [symmetric] demo_wait_asleep by simp
qed

end
