(* ===== verification/C_String.thy ===== *)
theory C_String
  imports Decimal "HOL-Library.Char_ord"
begin

text \<open>
  C strings and the character classes of \<open>ctype.h\<close> in the C locale, as lwIP's text functions use them. A
  string argument is the characters before its terminator; \<open>cur\<close> is what the pointer points at. A buffer
  argument is the characters of the array.
\<close>

abbreviation NUL :: char where "NUL \<equiv> CHR 0x00"

definition cur :: "string \<Rightarrow> char" where
  "cur cp = (case cp of [] \<Rightarrow> NUL | c # _ \<Rightarrow> c)"

definition code :: "char \<Rightarrow> nat" where "code c = of_char c"

definition isdigit :: "char \<Rightarrow> bool" where "isdigit c \<longleftrightarrow> 48 \<le> code c \<and> code c \<le> 57"

definition islower :: "char \<Rightarrow> bool" where "islower c \<longleftrightarrow> 97 \<le> code c \<and> code c \<le> 122"

definition isxdigit :: "char \<Rightarrow> bool" where
  "isxdigit c \<longleftrightarrow> isdigit c \<or> 97 \<le> code c \<and> code c \<le> 102 \<or> 65 \<le> code c \<and> code c \<le> 70"

definition isspace :: "char \<Rightarrow> bool" where "isspace c \<longleftrightarrow> code c = 32 \<or> 9 \<le> code c \<and> code c \<le> 13"

lemma cur_simps [simp]: "cur (c # cs) = c" "cur [] = NUL"
  by (simp_all add: cur_def)

lemma not_digit [simp]: "\<not> isdigit CHR ''.''" "\<not> isdigit NUL"
  by (simp_all add: isdigit_def code_def)

lemma code_digit [simp]: "d < 10 \<Longrightarrow> code (digit d) = 48 + d"
  by (simp add: code_def digit_value)

lemma isdigit_digit [simp]: "d < 10 \<Longrightarrow> isdigit (digit d)"
  by (simp add: isdigit_def)

end
