(* ===== verification/Byte_Order.thy ===== *)
theory Byte_Order
  imports Prelude
begin

unbundle bit_operations_syntax

text \<open>
  Byte order of lwIP's numbers on a little-endian host (\<open>lwip/src/core/def.c\<close>, \<open>include/lwip/def.h\<close>): a word
  in network order is the host word with its bytes reversed. \<open>octets\<close> are the bytes of a host word in the
  order of their addresses.
\<close>

definition lwip_htons :: "u16 \<Rightarrow> u16" where
  "lwip_htons n = push_bit 8 (n AND 0x00ff) OR drop_bit 8 (n AND 0xff00)"

definition lwip_htonl :: "u32 \<Rightarrow> u32" where
  "lwip_htonl n = push_bit 24 (n AND 0x000000ff) OR push_bit 8 (n AND 0x0000ff00)
     OR drop_bit 8 (n AND 0x00ff0000) OR drop_bit 24 (n AND 0xff000000)"

definition octet :: "nat \<Rightarrow> u32 \<Rightarrow> u8" where
  "octet k w = ucast (drop_bit (8 * k) w)"

definition octets :: "u32 \<Rightarrow> u8 list" where
  "octets w = [octet 0 w, octet 1 w, octet 2 w, octet 3 w]"

definition join_octets :: "u8 \<Rightarrow> u8 \<Rightarrow> u8 \<Rightarrow> u8 \<Rightarrow> u32" where
  "join_octets a b c d = ucast a OR push_bit 8 (ucast b) OR push_bit 16 (ucast c) OR push_bit 24 (ucast d)"

lemma byte_masks:
  "(0x00ff :: u16) = mask 8" "(0xff00 :: u16) = push_bit 8 (mask 8)"
  "(0x000000ff :: u32) = mask 8" "(0x0000ff00 :: u32) = push_bit 8 (mask 8)"
  "(0x00ff0000 :: u32) = push_bit 16 (mask 8)" "(0xff000000 :: u32) = push_bit 24 (mask 8)"
  by (simp_all add: mask_eq_exp_minus_1 push_bit_eq_mult)

lemma bit_htonl:
  "bit (lwip_htonl w) n \<longleftrightarrow>
     (if n < 8 then bit w (n + 24) else if n < 16 then bit w (n + 8) else if n < 24 then bit w (n - 8)
      else if n < 32 then bit w (n - 24) else False)"
  unfolding lwip_htonl_def byte_masks
  by (auto simp: bit_simps add.commute)

lemma htonl_htonl [simp]: "lwip_htonl (lwip_htonl w) = w"
  by (rule bit_word_eqI) (auto simp: bit_htonl intro: arg_cong2 [of _ _ _ _ bit])

lemma htons_htons [simp]: "lwip_htons (lwip_htons n) = n"
  by (rule bit_word_eqI) (auto simp: lwip_htons_def byte_masks bit_simps intro: arg_cong2 [of _ _ _ _ bit])

lemma bit_join_octets:
  "bit (join_octets a b c d) n \<longleftrightarrow>
     (if n < 8 then bit a n else if n < 16 then bit b (n - 8) else if n < 24 then bit c (n - 16)
      else if n < 32 then bit d (n - 24) else False)"
proof -
  consider "n < 8" | "8 \<le> n" "n < 16" | "16 \<le> n" "n < 24" | "24 \<le> n" "n < 32" | "32 \<le> n" by linarith
  then show ?thesis by cases (auto simp: join_octets_def bit_simps bit_imp_le_length dest: bit_imp_le_length)
qed

lemma bit_octet: "bit (octet k w) n \<longleftrightarrow> n < 8 \<and> bit w (8 * k + n)"
  by (simp add: octet_def bit_simps)

lemma join_octets_octets [simp]: "join_octets (octet 0 w) (octet 1 w) (octet 2 w) (octet 3 w) = w"
  by (rule bit_word_eqI) (auto simp: bit_join_octets bit_octet)

lemma htonl_join: "lwip_htonl (join_octets a b c d) = join_octets d c b a"
proof (rule bit_word_eqI)
  fix n assume "n < LENGTH(32)"
  then consider "n < 8" | "8 \<le> n" "n < 16" | "16 \<le> n" "n < 24" | "24 \<le> n" "n < 32" by fastforce
  then show "bit (lwip_htonl (join_octets a b c d)) n = bit (join_octets d c b a) n"
    by cases (auto simp: bit_htonl bit_join_octets)
qed

end
