(* ===== verification/Ip4_Addr.thy ===== *)
theory Ip4_Addr
  imports C_String Byte_Order
begin

text \<open>
  The text of IPv4 addresses (\<open>lwip/src/core/ipv4/ip4_addr.c\<close>): reading (\<open>ip4addr_aton\<close>, used by the stack for
  the address of a connect), writing (\<open>ip4addr_ntoa_r\<close>) and the test of a netmask. An address is a \<open>u32\<close> in
  network order on a little-endian host.
\<close>

section \<open>Reading an address\<close>

text \<open>Lines 164-175: the base of a number from its prefix.\<close>

definition number_base :: "string \<Rightarrow> u8 \<times> string" where
  "number_base cp =
     (if cur cp = CHR ''0''
      then (let cp1 = tl cp
            in if cur cp1 = CHR ''x'' \<or> cur cp1 = CHR ''X'' then (16, tl cp1) else (8, cp1))
      else (10, cp))"

text \<open>Lines 176-188: the digits of one number; the value wraps at 32 bits.\<close>

fun number_loop :: "string \<Rightarrow> u8 \<Rightarrow> u32 \<Rightarrow> u32 \<times> string" where
  "number_loop [] base val = (val, [])"
| "number_loop (c # cp) base val =
     (if isdigit c
      then if base = 8 \<and> of_nat (code c - 48) \<ge> (8 :: u32) then (val, c # cp)
           else number_loop cp base (val * ucast base + of_nat (code c - 48))
      else if base = 16 \<and> isxdigit c
      then number_loop cp base (push_bit 4 val OR of_nat (code c + 10 - (if islower c then 97 else 65)))
      else (val, c # cp))"

lemma number_loop_length: "length (snd (number_loop cp base val)) \<le> length cp"
  by (induction cp base val rule: number_loop.induct) (auto intro: le_SucI)

lemma number_base_length: "length (snd (number_base cp)) \<le> length cp"
  by (simp add: number_base_def Let_def)

text \<open>Lines 155-203: the loop over the parts, with the number after the last dot and the rest of the text.\<close>

function parts_loop :: "string \<Rightarrow> u32 list \<Rightarrow> (u32 \<times> u32 list \<times> string) option" where
  "parts_loop cp parts =
     (if \<not> isdigit (cur cp) then None
      else (case number_base cp of (base, cp1) \<Rightarrow> case number_loop cp1 base 0 of (val, cp2) \<Rightarrow>
        if cur cp2 = CHR ''.''
        then if length parts \<ge> 3 then None else parts_loop (tl cp2) (parts @ [val])
        else Some (val, parts, cp2)))"
  by auto
termination
proof (relation "measure (\<lambda>(cp, parts). length cp)", goal_cases)
  case (2 cp parts base cp1 val cp2)
  then have "length cp2 \<le> length cp" "cp2 \<noteq> []"
    using number_loop_length [of cp1 base 0] number_base_length [of cp] by (auto simp: cur_def) (metis fst_conv snd_conv le_trans)
  then show ?case by (cases cp2) auto
qed simp

declare parts_loop.simps [simp del]

text \<open>Lines 214-253: the address from its parts.\<close>

definition concoct :: "u32 \<Rightarrow> u32 list \<Rightarrow> u32 option" where
  "concoct val parts =
     (case parts of
        [] \<Rightarrow> Some val
      | [p0] \<Rightarrow> if val > 0xffffff then None else if p0 > 0xff then None else Some (val OR push_bit 24 p0)
      | [p0, p1] \<Rightarrow> if val > 0xffff then None else if p0 > 0xff \<or> p1 > 0xff then None
          else Some (val OR (push_bit 24 p0 OR push_bit 16 p1))
      | [p0, p1, p2] \<Rightarrow> if val > 0xff then None else if p0 > 0xff \<or> p1 > 0xff \<or> p2 > 0xff then None
          else Some (val OR (push_bit 24 p0 OR push_bit 16 p1 OR push_bit 8 p2))
      | _ \<Rightarrow> None)"

definition ip4addr_aton :: "string \<Rightarrow> u32 option" where
  "ip4addr_aton cp =
     (case parts_loop cp [] of
        None \<Rightarrow> None
      | Some (val, parts, cp2) \<Rightarrow>
          if cur cp2 \<noteq> NUL \<and> \<not> isspace (cur cp2) then None
          else map_option lwip_htonl (concoct val parts))"

definition IPADDR_NONE :: u32 where "IPADDR_NONE = 0xffffffff"

definition ipaddr_addr :: "string \<Rightarrow> u32" where
  "ipaddr_addr cp = (case ip4addr_aton cp of Some val \<Rightarrow> val | None \<Rightarrow> IPADDR_NONE)"

section \<open>Writing an address\<close>

text \<open>Lines 302-306: the digits of one byte, last digit first, as they enter \<open>inv\<close>.\<close>

function inv_digits :: "u8 \<Rightarrow> char list" where
  "inv_digits ap =
     (let rem = ap mod 10; ap1 = ap div 10
      in char_of (48 + unat rem) # (if ap1 \<noteq> 0 then inv_digits ap1 else []))"
  by auto
termination
proof (relation "measure unat", goal_cases)
  case (2 ap x ap1)
  then have "unat ap div 10 \<noteq> 0" by (simp add: word_eq_iff_unat unat_div)
  then show ?case using 2 by (simp add: unat_div)
qed simp

declare inv_digits.simps [simp del]

text \<open>One character behind the \<open>len\<close> written so far, unless the buffer is full.\<close>

definition put_char :: "int \<Rightarrow> char \<Rightarrow> nat \<times> char list \<Rightarrow> (nat \<times> char list) option" where
  "put_char buflen c = (\<lambda>(len, buf). if int len \<ge> buflen then None else Some (Suc len, buf[len := c]))"

fun put_chars :: "int \<Rightarrow> char list \<Rightarrow> nat \<times> char list \<Rightarrow> (nat \<times> char list) option" where
  "put_chars buflen [] st = Some st"
| "put_chars buflen (c # cs) st = Option.bind (put_char buflen c st) (put_chars buflen cs)"

text \<open>Lines 300-318 for the bytes that are left; \<open>ap++\<close> moves to the next byte of the word.\<close>

fun ntoa_loop :: "int \<Rightarrow> u8 list \<Rightarrow> nat \<times> char list \<Rightarrow> (nat \<times> char list) option" where
  "ntoa_loop buflen [] st = Some st"
| "ntoa_loop buflen (ap # aps) st =
     Option.bind (put_chars buflen (rev (inv_digits ap)) st) (\<lambda>st1.
     Option.bind (put_char buflen (CHR ''.'') st1) (ntoa_loop buflen aps))"

definition ip4addr_ntoa_r :: "u32 \<Rightarrow> char list \<Rightarrow> int \<Rightarrow> char list option" where
  "ip4addr_ntoa_r addr buf buflen =
     map_option (\<lambda>(len, buf). buf[len - 1 := NUL]) (ntoa_loop buflen (octets addr) (0, buf))"

definition IP4ADDR_STRLEN_MAX :: int where "IP4ADDR_STRLEN_MAX = 16"

definition ip4addr_ntoa :: "u32 \<Rightarrow> char list \<Rightarrow> char list option" where
  "ip4addr_ntoa addr str = ip4addr_ntoa_r addr str IP4ADDR_STRLEN_MAX"

section \<open>Masks and broadcast addresses\<close>

text \<open>The two loops over the bits of a netmask.\<close>

function first_zero :: "u32 \<Rightarrow> u32 \<Rightarrow> u32" where
  "first_zero nm m = (if m \<noteq> 0 \<and> nm AND m \<noteq> 0 then first_zero nm (drop_bit 1 m) else m)"
  by auto
termination
  by (relation "measure (\<lambda>(nm, m). unat m)") (auto simp: unat_drop_bit_1_less [unfolded One_nat_def] simp del: drop_bit_Suc)

function no_one :: "u32 \<Rightarrow> u32 \<Rightarrow> bool" where
  "no_one nm m = (if m = 0 then True else if nm AND m \<noteq> 0 then False else no_one nm (drop_bit 1 m))"
  by auto
termination
  by (relation "measure (\<lambda>(nm, m). unat m)") (auto simp: unat_drop_bit_1_less [unfolded One_nat_def] simp del: drop_bit_Suc)

declare first_zero.simps [simp del] no_one.simps [simp del]

definition ip4_addr_netmask_valid :: "u32 \<Rightarrow> bool" where
  "ip4_addr_netmask_valid netmask =
     (let nm_hostorder = lwip_htonl netmask
      in no_one nm_hostorder (first_zero nm_hostorder (push_bit 31 1)))"

record netif_ip4 =
  nif_broadcast :: bool
  nif_ip :: u32
  nif_netmask :: u32

definition ip4_addr_isbroadcast_u32 :: "u32 \<Rightarrow> netif_ip4 \<Rightarrow> bool" where
  "ip4_addr_isbroadcast_u32 addr netif =
     (if NOT addr = 0 \<or> addr = 0 then True
      else if \<not> nif_broadcast netif then False
      else if addr = nif_ip netif then False
      else addr AND nif_netmask netif = nif_ip netif AND nif_netmask netif
        \<and> addr AND NOT (nif_netmask netif) = 0xffffffff AND NOT (nif_netmask netif))"

section \<open>What is written\<close>

lemma inv_digits_dec: "rev (inv_digits ap) = dec (unat ap)"
proof (induction ap rule: inv_digits.induct)
  case (1 ap)
  have q: "unat (ap div 10) = unat ap div 10" "unat (ap mod 10) = unat ap mod 10" by (simp_all add: unat_div unat_mod)
  show ?case
  proof (cases "ap div 10 = 0")
    case True
    then have "unat ap < 10" using q(1) by (simp add: word_eq_iff_unat)
    with True show ?thesis by (simp add: inv_digits.simps [of ap] dec.simps [of "unat ap"] q digit_def)
  next
    case False
    then have "\<not> unat ap < 10" using q(1) by (simp add: word_eq_iff_unat)
    with False 1 show ?thesis
      by (simp add: inv_digits.simps [of ap] dec.simps [of "unat ap"] q digit_def)
  qed
qed

text \<open>The dotted text with a dot behind every number, as the loop writes it, and the address text.\<close>

definition dotted_tail :: "u8 list \<Rightarrow> string" where
  "dotted_tail bs = concat (map (\<lambda>b. dec (unat b) @ ''.'') bs)"

definition dotted :: "u32 \<Rightarrow> string" where
  "dotted addr = butlast (dotted_tail (octets addr))"

lemma put_chars_spec:
  assumes "len \<le> length buf" "int (length buf) = buflen"
  shows "put_chars buflen cs (len, buf) =
    (if len + length cs \<le> length buf then Some (len + length cs, take len buf @ cs @ drop (len + length cs) buf) else None)"
  using assms
proof (induction cs arbitrary: len buf)
  case (Cons c cs)
  show ?case
  proof (cases "len < length buf")
    case True
    then have "put_char buflen c (len, buf) = Some (Suc len, buf[len := c])" using Cons.prems by (simp add: put_char_def)
    then show ?thesis using Cons.IH [of "Suc len" "buf[len := c]"] Cons.prems True
      by (simp add: take_update)
  qed (use Cons.prems in \<open>simp add: put_char_def\<close>)
qed simp

lemma put_chars_append: "put_chars buflen (xs @ ys) st = Option.bind (put_chars buflen xs st) (put_chars buflen ys)"
proof (induction xs arbitrary: st)
  case (Cons c cs)
  then have "put_chars buflen (cs @ ys) = (\<lambda>st. Option.bind (put_chars buflen cs st) (put_chars buflen ys))" by blast
  then show ?case by (simp add: Option.bind_assoc)
qed simp

lemma ntoa_loop_chars: "ntoa_loop buflen bs st = put_chars buflen (dotted_tail bs) st"
proof (induction bs arbitrary: st)
  case (Cons b bs)
  then have "ntoa_loop buflen bs = put_chars buflen (dotted_tail bs)" by blast
  moreover have "put_chars buflen (CHR ''.'' # cs) = (\<lambda>st. Option.bind (put_char buflen (CHR ''.'') st) (put_chars buflen cs))" for cs
    by (simp add: fun_eq_iff)
  ultimately show ?case by (simp add: dotted_tail_def put_chars_append inv_digits_dec)
qed (simp add: dotted_tail_def)

lemma dotted_snoc: "dotted_tail (octets addr) = dotted addr @ ''.''"
  by (simp add: dotted_def dotted_tail_def octets_def butlast_append)

lemma ntoa_spec:
  assumes "int (length buf) = buflen"
  shows "ip4addr_ntoa_r addr buf buflen =
    (if length (dotted addr) < length buf then Some (dotted addr @ NUL # drop (Suc (length (dotted addr))) buf) else None)"
  using put_chars_spec [of 0 buf buflen "dotted addr @ ''.''"] assms
  by (simp add: ip4addr_ntoa_r_def ntoa_loop_chars dotted_snoc list_update_append)

lemma length_dotted: "length (dotted addr) \<le> 15"
proof -
  have "length (dec (unat b)) \<le> 3" for b :: u8
    using length_dec [of "unat b" 2] unsigned_less [of b, where ?'a = nat] by simp
  from add_mono [OF add_mono [OF this [of "octet 0 addr"] this [of "octet 1 addr"]]
      add_mono [OF this [of "octet 2 addr"] this [of "octet 3 addr"]]]
  have "length (dotted_tail (octets addr)) \<le> 16" by (simp add: dotted_tail_def octets_def)
  then show ?thesis by (simp add: dotted_snoc)
qed

section \<open>What is read\<close>

lemma number_loop_digit: "d < 10 \<Longrightarrow> number_loop (digit d # rest) 10 v = number_loop rest 10 (v * 10 + of_nat d)"
  by simp

lemma number_loop_dec: "number_loop (dec n @ rest) 10 v = number_loop rest 10 (v * 10 ^ length (dec n) + of_nat n)"
proof (induction n arbitrary: rest v rule: dec.induct)
  case (1 n)
  show ?case
  proof (cases "n < 10")
    case False
    then have d: "dec n = dec (n div 10) @ [digit (n mod 10)]" by (simp add: dec.simps [of n])
    have n: "of_nat (n div 10) * 10 + of_nat (n mod 10) = (of_nat n :: u32)"
      by (metis div_mult_mod_eq of_nat_add of_nat_mult of_nat_numeral)
    have "number_loop (dec n @ rest) 10 v = number_loop (digit (n mod 10) # rest) 10 (v * 10 ^ length (dec (n div 10)) + of_nat (n div 10))"
      using "1.IH" [OF False, of "digit (n mod 10) # rest" v] by (simp only: d append_assoc append_Cons append_Nil)
    also have "\<dots> = number_loop rest 10 ((v * 10 ^ length (dec (n div 10)) + of_nat (n div 10)) * 10 + of_nat (n mod 10))"
      by (rule number_loop_digit) simp
    also have "(v * 10 ^ length (dec (n div 10)) + of_nat (n div 10)) * 10 + of_nat (n mod 10) = v * 10 ^ length (dec n) + of_nat n"
      by (simp only: d length_append list.size power_add distrib_right n [symmetric]) simp
    finally show ?thesis .
  qed (simp add: dec.simps [of n])
qed

lemma number_loop_stop: "\<not> isdigit (cur rest) \<Longrightarrow> base \<noteq> 16 \<Longrightarrow> number_loop rest base v = (v, rest)"
  by (cases rest) (auto simp: cur_def)

lemma dec_first: "0 < n \<Longrightarrow> \<exists>d ds. dec n = digit d # ds \<and> 0 < d \<and> d < 10"
proof (induction n rule: dec.induct)
  case (1 n)
  show ?case
  proof (cases "n < 10")
    case False
    then obtain d ds where "dec (n div 10) = digit d # ds" "0 < d" "d < 10" using 1 by fastforce
    with False show ?thesis by (auto simp: dec.simps [of n])
  qed (use 1 in \<open>auto simp: dec.simps [of n]\<close>)
qed

lemma cur_dec: "\<exists>d<10. cur (dec n @ rest) = digit d"
proof (cases "n = 0")
  case True
  then show ?thesis by (intro exI [of _ 0]) (simp add: cur_def dec.simps [of 0])
next
  case False
  then show ?thesis using dec_first [of n] by (auto simp: cur_def)
qed

lemma number_dec:
  assumes "\<not> isdigit (cur rest)" "cur rest \<noteq> CHR ''x''" "cur rest \<noteq> CHR ''X''"
  shows "(case number_base (dec n @ rest) of (base, cp1) \<Rightarrow> number_loop cp1 base 0) = (of_nat n, rest)"
proof (cases "n = 0")
  case True
  then have "number_base (dec n @ rest) = (8, rest)" using assms
    by (simp add: number_base_def dec.simps [of 0] digit_zero Let_def)
  with True assms(1) show ?thesis by (simp add: number_loop_stop)
next
  case False
  then have "number_base (dec n @ rest) = (10, dec n @ rest)"
    using dec_first [of n] digit_zero(2) by (auto simp: number_base_def cur_def)
  then show ?thesis using number_loop_dec [of n rest 0] number_loop_stop [OF assms(1), of 10] by simp
qed

lemma parts_loop_dec:
  "parts_loop (dec n @ CHR ''.'' # rest) parts = (if length parts \<ge> 3 then None else parts_loop rest (parts @ [of_nat n]))"
  "parts_loop (dec n) parts = Some (of_nat n, parts, [])"
proof -
  have d: "isdigit (cur (dec n @ s))" for s
  proof -
    obtain d where "d < 10" "cur (dec n @ s) = digit d" using cur_dec by blast
    then show ?thesis by simp
  qed
  obtain base cp1 where "number_base (dec n @ CHR ''.'' # rest) = (base, cp1)" "number_loop cp1 base 0 = (of_nat n, CHR ''.'' # rest)"
    using number_dec [of "CHR ''.'' # rest" n] by (cases "number_base (dec n @ CHR ''.'' # rest)") auto
  then show "parts_loop (dec n @ CHR ''.'' # rest) parts = (if length parts \<ge> 3 then None else parts_loop rest (parts @ [of_nat n]))"
    using d by (simp add: parts_loop.simps [of "dec n @ CHR ''.'' # rest"])
  obtain base cp1 where "number_base (dec n) = (base, cp1)" "number_loop cp1 base 0 = (of_nat n, [])"
    using number_dec [of "[]" n] by (cases "number_base (dec n)") auto
  then show "parts_loop (dec n) parts = Some (of_nat n, parts, [])"
    using d [of "[]"] by (simp add: parts_loop.simps [of "dec n"])
qed

text \<open>Four decimal numbers with dots between them.\<close>

definition quad :: "nat \<Rightarrow> nat \<Rightarrow> nat \<Rightarrow> nat \<Rightarrow> string" where
  "quad a b c d = dec a @ CHR ''.'' # dec b @ CHR ''.'' # dec c @ CHR ''.'' # dec d"

lemma dotted_quad: "dotted addr = quad (unat (octet 0 addr)) (unat (octet 1 addr)) (unat (octet 2 addr)) (unat (octet 3 addr))"
  by (simp add: dotted_def dotted_tail_def octets_def quad_def butlast_append)

lemma parts_loop_quad: "parts_loop (quad a b c d) [] = Some (of_nat d, [of_nat a, of_nat b, of_nat c], [])"
  by (simp add: quad_def parts_loop_dec)

lemma byte_of_word: "w \<le> 0xff \<Longrightarrow> ucast (ucast w :: u8) = w" for w :: u32
proof -
  assume "w \<le> 0xff"
  then have "unat w < 2 ^ 8" by (simp add: word_le_nat_alt)
  then show ?thesis by (simp add: word_eq_iff_unat unsigned_ucast_eq unsigned_take_bit_eq take_bit_nat_eq_self)
qed

lemma concoct_quad:
  "concoct w [x, y, z] = (if w \<le> 0xff \<and> x \<le> 0xff \<and> y \<le> 0xff \<and> z \<le> 0xff then Some (join_octets (ucast w) (ucast z) (ucast y) (ucast x)) else None)"
  by (auto simp: concoct_def join_octets_def byte_of_word ac_simps)

lemma of_nat_le_255: "(of_nat n :: u32) \<le> 0xff \<longleftrightarrow> n mod 2 ^ 32 < 256"
  by (simp add: word_le_nat_alt unat_of_nat) (simp add: less_Suc_eq_le [symmetric])

lemma aton_quad: "ip4addr_aton (quad a b c d) =
    (if a mod 2 ^ 32 < 256 \<and> b mod 2 ^ 32 < 256 \<and> c mod 2 ^ 32 < 256 \<and> d mod 2 ^ 32 < 256
     then Some (join_octets (of_nat a) (of_nat b) (of_nat c) (of_nat d)) else None)"
proof -
  have u: "(ucast (of_nat n :: u32) :: u8) = of_nat n" for n
    by (simp add: unsigned_of_nat word_of_nat_eq_iff)
  show ?thesis
    by (simp only: ip4addr_aton_def parts_loop_quad option.case prod.case concoct_quad of_nat_le_255 u htonl_join cur_simps if_False HOL.simp_thms
        option.map if_distrib [of "map_option lwip_htonl"]) auto
qed

lemma dotted_no_nul: "NUL \<notin> set (dotted addr)"
proof -
  have "NUL \<notin> set (dec n)" for n
  proof
    assume "NUL \<in> set (dec n)"
    then obtain d where "d < 10" "NUL = digit d" using dec_digits by blast
    then show False using isdigit_digit [of d] not_digit(2) by metis
  qed
  then show ?thesis by (simp add: dotted_quad quad_def)
qed

section \<open>The bits of a netmask\<close>

lemma exp_mask:
  assumes "k < 32"
  shows "(2 :: u32) ^ k \<noteq> 0" "drop_bit 1 (2 ^ k :: u32) = (if k = 0 then 0 else 2 ^ (k - 1))"
proof -
  show "(2 :: u32) ^ k \<noteq> 0" using assms by (simp add: exp_eq_zero_iff)
  show "drop_bit 1 (2 ^ k :: u32) = (if k = 0 then 0 else 2 ^ (k - 1))"
    using assms by (intro bit_word_eqI) (auto simp: bit_simps)
qed

lemma no_one_iff: "k < 32 \<Longrightarrow> no_one nm (2 ^ k) \<longleftrightarrow> (\<forall>j\<le>k. \<not> bit nm j)"
proof (induction k)
  case 0
  show ?case using exp_mask [of 0] by (subst no_one.simps) (simp add: no_one.simps [of nm 0] and_exp_eq_0_iff_not_bit [of nm 0, simplified])
next
  case (Suc k)
  then show ?case using exp_mask [of "Suc k"] by (subst no_one.simps) (auto simp: le_Suc_eq and_exp_eq_0_iff_not_bit simp del: power_Suc)
qed

lemma first_zero_cases:
  assumes "k < 32"
  shows "(\<forall>j\<le>k. bit nm j) \<and> first_zero nm (2 ^ k) = 0
    \<or> (\<exists>z\<le>k. \<not> bit nm z \<and> (\<forall>j. z < j \<and> j \<le> k \<longrightarrow> bit nm j) \<and> first_zero nm (2 ^ k) = 2 ^ z)"
  using assms
proof (induction k)
  case 0
  show ?case using exp_mask [of 0] by (subst (1 2) first_zero.simps) (auto simp: first_zero.simps [of nm 0] and_exp_eq_0_iff_not_bit [of nm 0, simplified])
next
  case (Suc k)
  note e = exp_mask [OF Suc.prems] and_exp_eq_0_iff_not_bit [of nm "Suc k"]
  show ?case
  proof (cases "bit nm (Suc k)")
    case True
    then have "first_zero nm (2 ^ Suc k) = first_zero nm (2 ^ k)" using e by (subst first_zero.simps) (simp del: power_Suc)
    with True Suc show ?thesis by (auto simp: le_Suc_eq)
  next
    case False
    then have "first_zero nm (2 ^ Suc k) = 2 ^ Suc k" using e by (subst first_zero.simps) (simp del: power_Suc)
    with False show ?thesis by auto
  qed
qed

section \<open>Properties\<close>

text \<open>
  C29. Writing an address and reading it back: a buffer of 16 characters is always enough, and what
  \<open>ip4addr_ntoa_r\<close> leaves in it up to the terminator is read by \<open>ip4addr_aton\<close> as the same address.
\<close>

theorem ip4addr_ntoa_aton:
  assumes "int (length buf) = buflen" "16 \<le> buflen"
  shows "\<exists>buf'. ip4addr_ntoa_r addr buf buflen = Some buf' \<and> length buf' = length buf
     \<and> ip4addr_aton (takeWhile (\<lambda>c. c \<noteq> NUL) buf') = Some addr"
proof -
  let ?t = "dotted addr"
  have l: "length ?t < length buf" using length_dotted [of addr] assms by linarith
  have "takeWhile (\<lambda>c. c \<noteq> NUL) (?t @ NUL # drop (Suc (length ?t)) buf) = ?t"
    using dotted_no_nul [of addr] by (subst takeWhile_append2) auto
  moreover have "ip4addr_aton ?t = Some addr"
  proof -
    have "unat (octet k addr) mod 2 ^ 32 < 256" for k
      using unsigned_less [of "octet k addr", where ?'a = nat] by (intro le_less_trans [OF mod_less_eq_dividend]) simp
    then show ?thesis by (simp add: dotted_quad aton_quad join_octets_octets [unfolded One_nat_def])
  qed
  ultimately show ?thesis using l by (simp add: ntoa_spec [OF assms(1)])
qed

theorem ip4addr_ntoa_aton_witness:
  "\<exists>buf'. ip4addr_ntoa_r 0x0100007f (replicate 16 NUL) 16 = Some buf' \<and> ip4addr_aton (takeWhile (\<lambda>c. c \<noteq> NUL) buf') = Some 0x0100007f"
  using ip4addr_ntoa_aton [of "replicate 16 NUL" 16 "0x0100007f"] by auto

text \<open>
  C30. Reading four decimal numbers with dots between them: every number is taken modulo \<open>2 ^ 32\<close>, and the
  address is accepted when what is left of each is a byte. So \<open>1.2.3.4294967300\<close> is read as \<open>1.2.3.4\<close>.
\<close>

theorem ip4addr_aton_quad:
  "ip4addr_aton (quad a b c d) =
    (if a mod 2 ^ 32 < 256 \<and> b mod 2 ^ 32 < 256 \<and> c mod 2 ^ 32 < 256 \<and> d mod 2 ^ 32 < 256
     then Some (join_octets (of_nat a) (of_nat b) (of_nat c) (of_nat d)) else None)"
  by (rule aton_quad)

text \<open>
  A netmask is valid exactly when its bits in host order are ones down to some place and zeros below it.
\<close>

theorem netmask_valid_iff:
  "ip4_addr_netmask_valid netmask \<longleftrightarrow> (\<exists>k\<le>32. \<forall>j<32. bit (lwip_htonl netmask) j = (k \<le> j))"
proof -
  let ?nm = "lwip_htonl netmask"
  have v: "ip4_addr_netmask_valid netmask \<longleftrightarrow> no_one ?nm (first_zero ?nm (2 ^ 31))"
    by (simp add: ip4_addr_netmask_valid_def Let_def)
  consider (ones) "\<forall>j\<le>31. bit ?nm j" "first_zero ?nm (2 ^ 31) = 0"
    | (zero) z where "z \<le> 31" "\<not> bit ?nm z" "\<forall>j. z < j \<and> j \<le> 31 \<longrightarrow> bit ?nm j" "first_zero ?nm (2 ^ 31) = 2 ^ z"
    using first_zero_cases [of 31 ?nm] by auto
  then show ?thesis
  proof cases
    case ones
    then show ?thesis by (auto simp: v no_one.simps [of ?nm 0] intro!: exI [of _ 0])
  next
    case zero
    then have "ip4_addr_netmask_valid netmask \<longleftrightarrow> (\<forall>j\<le>z. \<not> bit ?nm j)" by (simp add: v no_one_iff)
    also have "\<dots> \<longleftrightarrow> (\<exists>k\<le>32. \<forall>j<32. bit ?nm j = (k \<le> j))"
    proof
      assume "\<forall>j\<le>z. \<not> bit ?nm j"
      moreover have "bit ?nm j" if "z < j" "j < 32" for j using zero(3) that by simp
      ultimately have "\<forall>j<32. bit ?nm j = (Suc z \<le> j)" by (metis Suc_le_eq linorder_not_less)
      with zero(1) show "\<exists>k\<le>32. \<forall>j<32. bit ?nm j = (k \<le> j)" by (intro exI [of _ "Suc z"]) simp
    next
      assume "\<exists>k\<le>32. \<forall>j<32. bit ?nm j = (k \<le> j)"
      then obtain k where k: "\<forall>j<32. bit ?nm j = (k \<le> j)" by blast
      then have "z < k" using zero(1,2) by fastforce
      then show "\<forall>j\<le>z. \<not> bit ?nm j" using k zero(1) by fastforce
    qed
    finally show ?thesis .
  qed
qed

end
