(* ===== verification/Lwip_Text.thy ===== *)
theory Lwip_Text
  imports C_String
begin

unbundle bit_operations_syntax

text \<open>
  The string functions of \<open>lwip/src/core/def.c\<close>: comparison without regard to case, search, and the decimal
  formatting of a number. \<open>strlen\<close>, \<open>strncmp\<close> and \<open>memmove\<close> are the C library's.
\<close>

section \<open>Model\<close>

text \<open>The test of one pair of characters in \<open>lwip_stricmp\<close> and \<open>lwip_strnicmp\<close>.\<close>

definition upc :: "char \<Rightarrow> u8" where "upc c = of_char c OR 0x20"

definition differs :: "char \<Rightarrow> char \<Rightarrow> bool" where
  "differs c1 c2 =
     (if c1 \<noteq> c2
      then (let c1_upc = upc c1
            in if c1_upc \<ge> 97 \<and> c1_upc \<le> 122 then (let c2_upc = upc c2 in c1_upc \<noteq> c2_upc) else True)
      else False)"

fun lwip_stricmp :: "string \<Rightarrow> string \<Rightarrow> int" where
  "lwip_stricmp [] str2 = (if differs NUL (cur str2) then 1 else 0)"
| "lwip_stricmp (c1 # str1) str2 =
     (if differs c1 (cur str2) then 1 else if c1 \<noteq> NUL then lwip_stricmp str1 (tl str2) else 0)"

fun lwip_strnicmp :: "string \<Rightarrow> string \<Rightarrow> u64 \<Rightarrow> int" where
  "lwip_strnicmp [] str2 len = (if differs NUL (cur str2) then 1 else 0)"
| "lwip_strnicmp (c1 # str1) str2 len =
     (if differs c1 (cur str2) then 1
      else if len - 1 \<noteq> 0 \<and> c1 \<noteq> NUL then lwip_strnicmp str1 (tl str2) (len - 1) else 0)"

text \<open>The loops over the start of the match, for a token that is not empty.\<close>

fun strnstr_loop :: "string \<Rightarrow> string \<Rightarrow> nat \<Rightarrow> nat \<Rightarrow> nat option" where
  "strnstr_loop [] token i n = None"
| "strnstr_loop (c # cs) token i n =
     (if i + length token \<le> n
      then if c = cur token \<and> take (length token) (c # cs) = token then Some i else strnstr_loop cs token (Suc i) n
      else None)"

definition lwip_strnstr :: "string \<Rightarrow> string \<Rightarrow> nat \<Rightarrow> nat option" where
  "lwip_strnstr buffer token n = (if length token = 0 then Some 0 else strnstr_loop buffer token 0 n)"

fun strnistr_loop :: "string \<Rightarrow> string \<Rightarrow> nat \<Rightarrow> nat \<Rightarrow> nat option" where
  "strnistr_loop [] token i n = None"
| "strnistr_loop (c # cs) token i n =
     (if i + length token \<le> n
      then if lwip_strnicmp (c # cs) token (of_nat (length token)) = 0 then Some i else strnistr_loop cs token (Suc i) n
      else None)"

definition lwip_strnistr :: "string \<Rightarrow> string \<Rightarrow> nat \<Rightarrow> nat option" where
  "lwip_strnistr buffer token n = (if length token = 0 then Some 0 else strnistr_loop buffer token 0 n)"

text \<open>The digits of a number from the end of the buffer.\<close>

function itoa_loop :: "char list \<Rightarrow> nat \<Rightarrow> nat \<Rightarrow> nat \<Rightarrow> char list \<times> nat \<times> nat" where
  "itoa_loop result res tmp n =
     (if n \<noteq> 0 \<and> tmp > res
      then itoa_loop (result[tmp - 1 := char_of (48 + n mod 10)]) res (tmp - 1) (n div 10)
      else (result, tmp, n))"
  by auto
termination by (relation "measure (\<lambda>(result, res, tmp, n). n)") auto

declare itoa_loop.simps [simp del]

definition lwip_itoa :: "char list \<Rightarrow> nat \<Rightarrow> int \<Rightarrow> char list" where
  "lwip_itoa result bufsize number =
     (let n = nat (if number \<ge> 0 then number else - number)
      in if bufsize < 2 then if bufsize = 1 then result[0 := NUL] else result
      else (let (result1, res) = (if number < 0 then (result[0 := CHR ''-''], 1) else (result, 0));
                tmp = bufsize - 1;
                (result2, tmp2, n2) = itoa_loop (result1[tmp := NUL]) res tmp n
            in if n2 \<noteq> 0 then result2[0 := NUL]
               else if result2 ! tmp2 = NUL then result2[res := CHR ''0'', Suc res := NUL]
               else take res result2 @ drop tmp2 result2 @ drop (res + (bufsize - tmp2)) result2))"

section \<open>Case\<close>

definition tolower :: "char \<Rightarrow> char" where
  "tolower c = (if 65 \<le> code c \<and> code c \<le> 90 then char_of (code c + 32) else c)"

lemma code_less: "code c < 256"
  by (simp add: code_def)

lemma code_inject: "code c = code d \<longleftrightarrow> c = d"
  by (simp add: code_def)

lemma code_tolower: "code (tolower c) = (if 65 \<le> code c \<and> code c \<le> 90 then code c + 32 else code c)"
  using code_less [of c] by (simp add: tolower_def code_def of_char_of take_bit_nat_eq_self)

lemma unat_upc: "unat (upc c) = (if odd (code c div 32) then code c else code c + 32)"
proof -
  have u: "unat (of_char c :: u8) = code c"
  proof -
    have "(of_char c :: u8) = of_nat (code c)" by (simp add: code_def of_nat_of_char)
    then show ?thesis using code_less [of c] by (simp add: unat_of_nat)
  qed
  have b: "bit (of_char c :: u8) 5 \<longleftrightarrow> odd (code c div 32)"
  proof -
    have "bit (of_char c :: u8) 5 \<longleftrightarrow> bit (unat (of_char c :: u8)) 5" by (simp add: bit_unsigned_iff)
    then show ?thesis by (simp add: u bit_iff_odd)
  qed
  have t: "bit (0x20 :: u8) n \<longleftrightarrow> n = 5" for n
    using bit_exp_iff [of 5 n, where ?'a = u8] by auto
  show ?thesis
  proof (cases "bit (of_char c :: u8) 5")
    case True
    have "of_char c OR 0x20 = (of_char c :: u8)"
    proof (rule bit_word_eqI)
      fix n show "bit (of_char c OR 0x20 :: u8) n = bit (of_char c :: u8) n"
        using True t [of n] by (cases "n = 5") (simp_all only: bit_or_iff HOL.simp_thms)
    qed
    with True b u show ?thesis by (simp add: upc_def)
  next
    case False
    have "of_char c + 0x20 = (of_char c OR 0x20 :: u8)"
    proof (rule disjunctive_add)
      fix n show "\<not> bit (of_char c :: u8) n \<or> \<not> bit (0x20 :: u8) n" using False t [of n] by (cases "n = 5") simp_all
    qed
    moreover have "unat (of_char c + 0x20 :: u8) = code c + 32"
    proof -
      have "code c div 32 \<noteq> 7" using False b by auto
      then have "code c < 224" using code_less [of c] by simp
      then show ?thesis using u by (simp add: unat_word_ariths)
    qed
    ultimately show ?thesis using False b by (simp add: upc_def)
  qed
qed

lemma case_ranges:
  fixes k :: nat
  defines "u \<equiv> (if odd (k div 32) then k else k + 32)" and "t \<equiv> (if 65 \<le> k \<and> k \<le> 90 then k + 32 else k)"
  shows "97 \<le> u \<and> u \<le> 122 \<longleftrightarrow> 97 \<le> t \<and> t \<le> 122" "97 \<le> t \<and> t \<le> 122 \<Longrightarrow> u = t"
proof -
  have d: "65 \<le> k \<and> k \<le> 90 \<Longrightarrow> k div 32 = 2" "97 \<le> k \<and> k \<le> 122 \<Longrightarrow> k div 32 = 3"
    by (auto intro!: div_nat_eqI)
  consider "65 \<le> k \<and> k \<le> 90" | "97 \<le> k \<and> k \<le> 122" | "\<not> (65 \<le> k \<and> k \<le> 90)" "\<not> (97 \<le> k \<and> k \<le> 122)" by blast
  then show "97 \<le> u \<and> u \<le> 122 \<longleftrightarrow> 97 \<le> t \<and> t \<le> 122" by cases (use d in \<open>auto simp: u_def t_def\<close>)
  assume "97 \<le> t \<and> t \<le> 122"
  then have "65 \<le> k \<and> k \<le> 90 \<or> 97 \<le> k \<and> k \<le> 122" by (auto simp: t_def split: if_splits)
  then show "u = t" using d by (auto simp: u_def t_def)
qed

lemma differs_iff: "differs c1 c2 \<longleftrightarrow> tolower c1 \<noteq> tolower c2"
proof -
  define letter where "letter c \<longleftrightarrow> 97 \<le> code (tolower c) \<and> code (tolower c) \<le> 122" for c
  have r: "upc c \<ge> 97 \<and> upc c \<le> 122 \<longleftrightarrow> letter c" for c
    using case_ranges(1) [of "code c"] by (simp add: word_le_nat_alt unat_upc code_tolower letter_def)
  have e: "letter c \<Longrightarrow> unat (upc c) = code (tolower c)" for c
    using case_ranges(2) [of "code c"] by (simp add: unat_upc code_tolower letter_def)
  have n: "\<not> letter c \<Longrightarrow> tolower c = c" for c
  proof -
    assume "\<not> letter c"
    then have "\<not> (65 \<le> code c \<and> code c \<le> 90)" unfolding letter_def code_tolower by (auto split: if_splits)
    then show "tolower c = c" by (auto simp: tolower_def)
  qed
  show ?thesis
  proof (cases "letter c1")
    case True
    then have d: "differs c1 c2 \<longleftrightarrow> c1 \<noteq> c2 \<and> unat (upc c1) \<noteq> unat (upc c2)"
      using r [of c1] by (simp add: differs_def Let_def word_eq_iff_unat)
    show ?thesis
    proof (cases "letter c2")
      case True
      then show ?thesis using \<open>letter c1\<close> d e by (auto simp: code_inject)
    next
      case False
      then have "tolower c1 \<noteq> tolower c2" "upc c1 \<noteq> upc c2"
        using \<open>letter c1\<close> r [of c1] r [of c2] letter_def [of c1] letter_def [of c2] by auto
      then show ?thesis using d by (auto simp: word_eq_iff_unat)
    qed
  next
    case False
    then have d: "differs c1 c2 \<longleftrightarrow> c1 \<noteq> c2" using r [of c1] by (auto simp: differs_def Let_def)
    show ?thesis
    proof (cases "letter c2")
      case True
      then have "tolower c1 \<noteq> tolower c2" using False letter_def [of c1] letter_def [of c2] by auto
      then show ?thesis using d by auto
    next
      case c2: False
      then show ?thesis using d n [OF False] n [OF c2] by simp
    qed
  qed
qed

lemma tolower_NUL: "tolower c = NUL \<longleftrightarrow> c = NUL" "NUL = tolower c \<longleftrightarrow> c = NUL" "tolower NUL = NUL"
proof -
  show n: "tolower NUL = NUL" by (simp add: tolower_def code_def)
  have "code (tolower c) = 0 \<longleftrightarrow> code c = 0" by (simp add: code_tolower)
  moreover have "code NUL = 0" by (simp add: code_def)
  ultimately show "tolower c = NUL \<longleftrightarrow> c = NUL" by (metis code_inject)
  then show "NUL = tolower c \<longleftrightarrow> c = NUL" by metis
qed

lemma stricmp_iff:
  assumes "NUL \<notin> set s1" "NUL \<notin> set s2"
  shows "lwip_stricmp s1 s2 = 0 \<longleftrightarrow> map tolower s1 = map tolower s2"
  using assms
proof (induction s1 s2 rule: lwip_stricmp.induct)
  case (1 s2)
  then show ?case by (cases s2) (auto simp: differs_iff tolower_NUL)
next
  case (2 c s1 s2)
  then show ?case by (cases s2) (auto simp: differs_iff tolower_NUL)
qed

lemma strnicmp_iff:
  assumes "NUL \<notin> set s1" "NUL \<notin> set s2" "0 < len"
  shows "lwip_strnicmp s1 s2 len = 0 \<longleftrightarrow> map tolower (take (unat len) s1) = map tolower (take (unat len) s2)"
  using assms
proof (induction s1 s2 len rule: lwip_strnicmp.induct)
  case (1 s2 len)
  then have "0 < unat len" by (simp add: unat_pos_iff)
  with 1 show ?case by (cases s2) (auto simp: differs_iff tolower_NUL take_Cons')
next
  case (2 c s1 s2 len)
  have l: "unat len = Suc (unat (len - 1))" 
  proof -
    have "0 < unat len" "len \<noteq> 0" using "2.prems"(3) by (auto simp: unat_pos_iff)
    then show ?thesis using unat_minus_one [of len] by linarith
  qed
  show ?case
  proof (cases "len - 1 = 0")
    case True
    then have "unat len = 1" using l by simp
    with True "2.prems" show ?thesis by (cases s2) (auto simp: differs_iff tolower_NUL)
  next
    case False
    then have "0 < len - 1" using word_gt_0 [of "len - 1"] by metis
    with False 2 l show ?thesis by (cases s2) (auto simp: differs_iff tolower_NUL)
  qed
qed

section \<open>Search\<close>

text \<open>\<open>r\<close> is the first place below the bound where the text matches the token.\<close>

definition first_match :: "(string \<Rightarrow> bool) \<Rightarrow> string \<Rightarrow> nat \<Rightarrow> nat \<Rightarrow> nat option \<Rightarrow> bool" where
  "first_match P buffer k n r \<longleftrightarrow>
     (case r of
        None \<Rightarrow> \<forall>i<length buffer. i + k \<le> n \<longrightarrow> \<not> P (drop i buffer)
      | Some i \<Rightarrow> i < length buffer \<and> i + k \<le> n \<and> P (drop i buffer) \<and> (\<forall>j<i. \<not> P (drop j buffer)))"

lemma first_match_Cons:
  assumes "first_match P cs k (n - 1) r" "\<not> P (c # cs)" "k \<le> n" "0 < k"
  shows "first_match P (c # cs) k n (map_option Suc r)"
proof (cases r)
  case None
  have "\<not> P (drop i (c # cs))" if "i < length (c # cs)" "i + k \<le> n" for i
    using assms that None by (cases i) (auto simp: first_match_def)
  with None show ?thesis by (simp add: first_match_def)
next
  case (Some i)
  have "\<not> P (drop j (c # cs))" if "j < Suc i" for j
    using assms that Some by (cases j) (auto simp: first_match_def)
  with assms Some show ?thesis by (auto simp: first_match_def)
qed

lemma first_match_beyond: "n < k \<Longrightarrow> first_match P buffer k n None"
  by (simp add: first_match_def)

lemma strnstr_loop_shift: "strnstr_loop buffer token (Suc i) n = map_option Suc (strnstr_loop buffer token i (n - 1)) \<or> n = 0"
  by (induction buffer arbitrary: i) auto

lemma strnistr_loop_shift: "strnistr_loop buffer token (Suc i) n = map_option Suc (strnistr_loop buffer token i (n - 1)) \<or> n = 0"
  by (induction buffer arbitrary: i) auto

definition starts_with :: "string \<Rightarrow> string \<Rightarrow> bool" where
  "starts_with token s \<longleftrightarrow> take (length token) s = token"

lemma strnstr_loop_first:
  assumes "token \<noteq> []"
  shows "first_match (starts_with token) buffer (length token) n (strnstr_loop buffer token 0 n)"
proof (induction buffer arbitrary: n)
  case Nil
  show ?case by (simp add: first_match_def)
next
  case (Cons c cs)
  have cur: "take (length token) (c # cs) = token \<Longrightarrow> c = cur token" using assms by (cases token) auto
  show ?case
  proof (cases "length token \<le> n")
    case fits: True
    show ?thesis
    proof (cases "starts_with token (c # cs)")
      case True
      then show ?thesis using fits cur by (simp add: starts_with_def first_match_def)
    next
      case False
      have "n \<noteq> 0" using fits assms by (cases token) auto
      then have "strnstr_loop cs token (Suc 0) n = map_option Suc (strnstr_loop cs token 0 (n - 1))"
        using strnstr_loop_shift [of cs token 0 n] by simp
      then show ?thesis using False fits first_match_Cons [OF Cons.IH [of "n - 1"] False fits] assms
        by (simp add: starts_with_def)
    qed
  qed (simp add: first_match_beyond)
qed

lemma strnistr_loop_first:
  assumes "token \<noteq> []" "NUL \<notin> set buffer" "NUL \<notin> set token" "length token < 2 ^ 64"
  shows "first_match (\<lambda>s. map tolower (take (length token) s) = map tolower token) buffer (length token) n (strnistr_loop buffer token 0 n)"
  using assms(2)
proof (induction buffer arbitrary: n)
  case Nil
  show ?case by (simp add: first_match_def)
next
  case (Cons c cs)
  have len: "unat (of_nat (length token) :: u64) = length token" using assms(4) by (simp add: unat_of_nat)
  then have pos: "0 < (of_nat (length token) :: u64)" using assms(1) by (simp add: unat_pos_iff)
  have m: "lwip_strnicmp (c # cs) token (of_nat (length token)) = 0 \<longleftrightarrow> map tolower (take (length token) (c # cs)) = map tolower token"
    using strnicmp_iff [OF Cons.prems assms(3) pos] len by simp
  let ?P = "\<lambda>s. map tolower (take (length token) s) = map tolower token"
  show ?case
  proof (cases "length token \<le> n")
    case fits: True
    show ?thesis
    proof (cases "?P (c # cs)")
      case True
      then show ?thesis using fits m by (simp add: first_match_def)
    next
      case False
      have "n \<noteq> 0" using fits assms(1) by (cases token) auto
      then have "strnistr_loop cs token (Suc 0) n = map_option Suc (strnistr_loop cs token 0 (n - 1))"
        using strnistr_loop_shift [of cs token 0 n] by simp
      moreover have "first_match ?P (c # cs) (length token) n (map_option Suc (strnistr_loop cs token 0 (n - 1)))"
        using first_match_Cons [of ?P cs, OF _ False fits] Cons.IH [of "n - 1"] Cons.prems assms(1) by simp
      ultimately show ?thesis using False fits m by simp
    qed
  qed (simp add: first_match_beyond)
qed

section \<open>Numbers\<close>

lemma digit_code: "char_of (48 + n mod 10) = digit (n mod 10)" for n :: nat
  by (simp add: digit_def)

lemma dec_split: "0 < n \<Longrightarrow> dec n = (if n div 10 = 0 then [] else dec (n div 10)) @ [digit (n mod 10)]"
  by (cases "n < 10") (auto simp: dec.simps [of n])

lemma length_dec_pos: "0 < length (dec n)"
  by (cases "n < 10") (simp_all add: dec.simps [of n])

lemma itoa_loop_spec:
  assumes "res \<le> tmp" "tmp < length result" "0 < n"
  shows "if length (dec n) \<le> tmp - res
     then itoa_loop result res tmp n = (blit result (tmp - length (dec n)) (dec n), tmp - length (dec n), 0)
     else \<exists>result' tmp' n'. itoa_loop result res tmp n = (result', tmp', n') \<and> n' \<noteq> 0 \<and> length result' = length result"
  using assms
proof (induction result res tmp n rule: itoa_loop.induct)
  case (1 result res tmp n)
  show ?case
  proof (cases "res < tmp")
    case False
    then have "itoa_loop result res tmp n = (result, tmp, n)" by (simp add: itoa_loop.simps [of result res tmp n])
    then show ?thesis using False "1.prems" length_dec_pos [of n] by auto
  next
    case True
    let ?r = "result[tmp - 1 := digit (n mod 10)]"
    have step: "itoa_loop result res tmp n = itoa_loop ?r res (tmp - 1) (n div 10)"
      using True "1.prems"(3) by (simp add: itoa_loop.simps [of result res tmp n] digit_code)
    have upd: "?r = blit result (tmp - 1) [digit (n mod 10)]"
      using True "1.prems"(2) by (simp add: blit_def upd_conv_take_nth_drop)
    show ?thesis
    proof (cases "n div 10 = 0")
      case last: True
      then have "dec n = [digit (n mod 10)]" using dec_split [OF "1.prems"(3)] by simp
      moreover have "itoa_loop ?r res (tmp - 1) (n div 10) = (?r, tmp - 1, 0)" by (subst itoa_loop.simps) (simp add: last)
      ultimately show ?thesis using step upd True by simp
    next
      case False
      then have d: "dec n = dec (n div 10) @ [digit (n mod 10)]" using dec_split [OF "1.prems"(3)] by simp
      have "n \<noteq> 0 \<and> tmp > res" using True "1.prems"(3) by simp
      note ih = "1.IH" [OF this, unfolded digit_code]
      have pre: "res \<le> tmp - 1" "tmp - 1 < length ?r" "0 < n div 10" using True "1.prems"(2) False by simp_all
      show ?thesis
      proof (cases "length (dec (n div 10)) \<le> tmp - 1 - res")
        case fits: True
        then have "itoa_loop ?r res (tmp - 1) (n div 10) =
            (blit ?r (tmp - 1 - length (dec (n div 10))) (dec (n div 10)), tmp - 1 - length (dec (n div 10)), 0)"
          using ih [OF pre] by simp
        moreover have "blit ?r (tmp - 1 - length (dec (n div 10))) (dec (n div 10)) = blit result (tmp - length (dec n)) (dec n)"
          using fits True "1.prems"(2) unfolding upd d by (simp add: blit_def)
        ultimately show ?thesis using step fits d True by simp
      next
        case nofit: False
        then have "\<not> length (dec n) \<le> tmp - res" using d True by simp
        then show ?thesis using ih [OF pre] nofit step by (simp only: if_False length_list_update)
      qed
    qed
  qed
qed

definition number_text :: "int \<Rightarrow> string" where
  "number_text z = (if z < 0 then CHR ''-'' # dec (nat (- z)) else dec (nat z))"

lemma NUL_not_dec: "NUL \<notin> set (dec n)"
proof
  assume "NUL \<in> set (dec n)"
  then obtain d where "d < 10" "NUL = digit d" using dec_digits by blast
  then show False using isdigit_digit [of d] not_digit(2) by metis
qed

lemma takeWhile_text: "NUL \<notin> set t \<Longrightarrow> takeWhile (\<lambda>c. c \<noteq> NUL) (t @ NUL # rest) = t"
  by (subst takeWhile_append2) auto

lemma itoa_spec:
  assumes "length result = bufsize" "2 \<le> bufsize"
  shows "length (lwip_itoa result bufsize z) = bufsize
    \<and> takeWhile (\<lambda>c. c \<noteq> NUL) (lwip_itoa result bufsize z) = (if length (number_text z) < bufsize then number_text z else [])"
proof -
  define n where "n = nat (if z \<ge> 0 then z else - z)"
  define res where "res = (if z < 0 then 1 else 0 :: nat)"
  define sign where "sign = (if z < 0 then ''-'' else '''')"
  define r1 where "r1 = (if z < 0 then result[0 := CHR ''-''] else result)"
  define r2 where "r2 = r1[bufsize - 1 := NUL]"
  have t: "number_text z = sign @ dec n" by (auto simp: number_text_def sign_def n_def)
  have len: "length r1 = bufsize" "length r2 = bufsize" "length sign = res" using assms by (simp_all add: r1_def r2_def sign_def res_def)
  have tk: "take res r2 = sign"
    using assms by (cases result) (auto simp: res_def r2_def r1_def sign_def nth_Cons' split: nat.splits)
  have last: "r2 ! (bufsize - 1) = NUL" "drop (bufsize - 1) r2 = [NUL]"
    using assms len by (simp_all add: r2_def drop_update_swap Cons_nth_drop_Suc [symmetric])
  have nosign: "NUL \<notin> set sign" by (simp add: sign_def)
  have e: "lwip_itoa result bufsize z =
      (let (result2, tmp2, n2) = itoa_loop r2 res (bufsize - 1) n
       in if n2 \<noteq> 0 then result2[0 := NUL]
          else if result2 ! tmp2 = NUL then result2[res := CHR ''0'', Suc res := NUL]
          else take res result2 @ drop tmp2 result2 @ drop (res + (bufsize - tmp2)) result2)"
  proof (cases "z < 0")
    case True
    then have "n = nat (- z)" "res = 1" by (simp_all add: n_def res_def)
    then show ?thesis using True assms(2) by (simp add: lwip_itoa_def r2_def r1_def Let_def split: prod.split)
  next
    case False
    then have "n = nat z" "res = 0" by (simp_all add: n_def res_def)
    then show ?thesis using False assms(2) by (simp add: lwip_itoa_def r2_def r1_def Let_def split: prod.split)
  qed
  show ?thesis
  proof (cases "n = 0")
    case True
    then have z: "res = 0" "sign = ''''" by (auto simp: n_def res_def sign_def split: if_splits)
    have "itoa_loop r2 res (bufsize - 1) n = (r2, bufsize - 1, n)" using True by (simp add: itoa_loop.simps)
    then have "lwip_itoa result bufsize z = r2[0 := CHR ''0'', Suc 0 := NUL]" using e last True z by simp
    moreover obtain a b rest where "r2 = a # b # rest" using len(2) assms(2) by (cases r2; cases "tl r2") auto
    ultimately show ?thesis using t True z len(2) assms(2) by (simp add: dec.simps [of 0] digit_zero(1))
  next
    case False
    have res: "res \<le> bufsize - 1" "bufsize - 1 < length r2" using assms(2) len by (auto simp: res_def)
    note l = itoa_loop_spec [OF res, of n]
    show ?thesis
    proof (cases "length (dec n) \<le> bufsize - 1 - res")
      case fits: True
      let ?k = "bufsize - 1 - length (dec n)"
      have loop: "itoa_loop r2 res (bufsize - 1) n = (blit r2 ?k (dec n), ?k, 0)" using l False fits by simp
      have pos: "0 < length (dec n)" by (rule length_dec_pos)
      have b: "blit r2 ?k (dec n) = take ?k r2 @ dec n @ [NUL]"
        using fits last(2) res assms(2) by (simp add: blit_def)
      have at: "blit r2 ?k (dec n) ! ?k \<noteq> NUL"
        using b NUL_not_dec [of n] pos len(2) by (cases "dec n") (auto simp: nth_append)
      have "lwip_itoa result bufsize z = take res (take ?k r2 @ dec n @ [NUL]) @ dec n @ [NUL] @ drop (res + (bufsize - ?k)) (take ?k r2 @ dec n @ [NUL])"
        using e loop at b len(2) fits by simp
      moreover have "take res (take ?k r2 @ dec n @ [NUL]) = sign"
      proof -
        have "res \<le> ?k" using fits res by linarith
        then show ?thesis using tk len(2) by simp
      qed
      ultimately have i: "lwip_itoa result bufsize z = sign @ dec n @ NUL # drop (res + (bufsize - ?k)) (take ?k r2 @ dec n @ [NUL])"
        by simp
      have "takeWhile (\<lambda>c. c \<noteq> NUL) (lwip_itoa result bufsize z) = sign @ dec n"
        using takeWhile_text [of "sign @ dec n"] nosign NUL_not_dec by (simp add: i)
      moreover have "length (lwip_itoa result bufsize z) = bufsize" using i len fits res assms(2) by simp
      moreover have "length (sign @ dec n) < bufsize" using fits len(3) res assms(2) by simp
      ultimately show ?thesis using t by simp
    next
      case nofit: False
      then obtain r3 tmp3 n3 where "itoa_loop r2 res (bufsize - 1) n = (r3, tmp3, n3)" "n3 \<noteq> 0" "length r3 = bufsize"
        using l False len by auto
      then have "lwip_itoa result bufsize z = r3[0 := NUL]" "r3 \<noteq> []" using e assms(2) by auto
      then show ?thesis using t nofit len(3) \<open>length r3 = bufsize\<close> by (cases r3) auto
    qed
  qed
qed

section \<open>Properties\<close>

text \<open>
  The comparisons agree exactly when the texts agree up to the case of letters, in full or in their first
  \<open>len\<close> characters for a length that is not zero; the searches find the first match that lies in the first
  \<open>n\<close> characters. For a length of zero \<open>lwip_strnicmp\<close> compares on to the end.
\<close>

theorem lwip_text_functions:
  assumes "NUL \<notin> set s1" "NUL \<notin> set s2" "s2 \<noteq> []" "length s2 < 2 ^ 64"
  shows "(lwip_stricmp s1 s2 = 0 \<longleftrightarrow> map tolower s1 = map tolower s2)
     \<and> (0 < len \<longrightarrow> (lwip_strnicmp s1 s2 len = 0 \<longleftrightarrow> map tolower (take (unat len) s1) = map tolower (take (unat len) s2)))
     \<and> first_match (starts_with s2) s1 (length s2) n (lwip_strnstr s1 s2 n)
     \<and> first_match (\<lambda>s. map tolower (take (length s2) s) = map tolower s2) s1 (length s2) n (lwip_strnistr s1 s2 n)"
  using stricmp_iff [OF assms(1,2)] strnicmp_iff [OF assms(1,2)] strnstr_loop_first [OF assms(3)]
    strnistr_loop_first [OF assms(3,1,2,4)] assms(3)
  by (simp add: lwip_strnstr_def lwip_strnistr_def)

theorem lwip_text_functions_witness:
  "lwip_stricmp ''Host'' ''hOST'' = 0 \<and> first_match (starts_with ''hOST'') ''Host'' 4 4 (lwip_strnstr ''Host'' ''hOST'' 4)"
proof -
  have n: "NUL \<notin> set ''Host''" "NUL \<notin> set ''hOST''" "''hOST'' \<noteq> []" "length ''hOST'' < 2 ^ 64" by simp_all
  have "map tolower ''Host'' = map tolower ''hOST''" by (simp add: tolower_def code_def) code_simp
  then show ?thesis using lwip_text_functions [OF n, of 1 4] by (simp add: numeral_eq_Suc)
qed

text \<open>
  \<open>lwip_itoa\<close> writes the number and its terminator when they fit, and the empty string when they do not;
  it never writes outside the buffer.
\<close>

theorem lwip_itoa_writes_number:
  assumes "length result = bufsize" "2 \<le> bufsize"
  shows "length (lwip_itoa result bufsize z) = bufsize
    \<and> takeWhile (\<lambda>c. c \<noteq> NUL) (lwip_itoa result bufsize z) = (if length (number_text z) < bufsize then number_text z else [])"
  by (rule itoa_spec [OF assms])

theorem lwip_itoa_writes_number_witness:
  "takeWhile (\<lambda>c. c \<noteq> NUL) (lwip_itoa (replicate 8 NUL) 8 (-127)) = number_text (-127)"
  using lwip_itoa_writes_number [of "replicate 8 NUL" 8 "-127"] length_dec [of 127 2] by (simp add: number_text_def)

end
