(* ===== verification/Pbuf_Access.thy ===== *)
theory Pbuf_Access
  imports Pbuf Stack_State
begin

text \<open>
  Reading and writing packet buffers by offset (\<open>lwip/src/core/pbuf.c\<close>): the bytes of a chain are addressed
  across its nodes. A byte array passed by pointer is the list of its bytes; a null pointer for the chain is
  the empty list.
\<close>

section \<open>Model\<close>

definition ERR_VAL :: err_t where "ERR_VAL = -6"
definition ERR_ARG :: err_t where "ERR_ARG = -16"

lemma err_arg_distinct [simp]: "ERR_OK \<noteq> ERR_ARG" "ERR_OK \<noteq> ERR_VAL" "ERR_MEM \<noteq> ERR_ARG"
  by (simp_all add: ERR_OK_def ERR_MEM_def ERR_ARG_def ERR_VAL_def)

text \<open>The loop of \<open>pbuf_copy_partial\<close>.\<close>

fun copy_partial_loop :: "pbuf list \<Rightarrow> byte list \<Rightarrow> u16 \<Rightarrow> u16 \<Rightarrow> u16 \<Rightarrow> u16 \<Rightarrow> u16 \<times> byte list" where
  "copy_partial_loop [] dataptr left len offset copied_total = (copied_total, dataptr)"
| "copy_partial_loop (p # ps) dataptr left len offset copied_total =
     (if len = 0 then (copied_total, dataptr)
      else if offset \<noteq> 0 \<and> offset \<ge> pb_len p
      then copy_partial_loop ps dataptr left len (offset - pb_len p) copied_total
      else (let n0 = pb_len p - offset; buf_copy_len = (if n0 > len then len else n0)
            in copy_partial_loop ps
                 (blit dataptr (unat left) (take (unat buf_copy_len) (drop (unat offset) (pb_payload p))))
                 (left + buf_copy_len) (len - buf_copy_len) 0 (copied_total + buf_copy_len)))"

definition pbuf_copy_partial :: "pbuf list \<Rightarrow> byte list option \<Rightarrow> u16 \<Rightarrow> u16 \<Rightarrow> u16 \<times> byte list option" where
  "pbuf_copy_partial buf dataptr len offset =
     (case dataptr of
        None \<Rightarrow> (0, None)
      | Some d \<Rightarrow> if buf = [] then (0, Some d)
          else (case copy_partial_loop buf d 0 len offset 0 of (copied_total, d') \<Rightarrow> (copied_total, Some d')))"

text \<open>\<open>pbuf_get_contiguous\<close>: the bytes in place in a node, or the copy in the buffer.\<close>

datatype contiguous = In_Pbuf "pbuf list" u16 | In_Buffer

definition pbuf_get_contiguous :: "pbuf list \<Rightarrow> byte list option \<Rightarrow> nat \<Rightarrow> u16 \<Rightarrow> u16 \<Rightarrow> contiguous option \<times> byte list option" where
  "pbuf_get_contiguous p buffer bufsize len offset =
     (if p = [] then (None, buffer) else if buffer = None then (None, buffer) else if \<not> bufsize \<ge> unat len then (None, buffer)
      else (case pbuf_skip p offset of
              ([], out_offset) \<Rightarrow> (None, buffer)
            | (q # qs, out_offset) \<Rightarrow>
                if unat (pb_len q) \<ge> unat out_offset + unat len then (Some (In_Pbuf (q # qs) out_offset), buffer)
                else (case pbuf_copy_partial (q # qs) buffer len out_offset of
                        (n, buffer') \<Rightarrow> (if n \<noteq> len then None else Some In_Buffer, buffer'))))"

text \<open>The loop of \<open>pbuf_take\<close>.\<close>

fun take_loop :: "pbuf list \<Rightarrow> byte list \<Rightarrow> nat \<Rightarrow> nat \<Rightarrow> pbuf list" where
  "take_loop [] dataptr total_copy_len copied_total = []"
| "take_loop (p # ps) dataptr total_copy_len copied_total =
     (if total_copy_len = 0 then p # ps
      else (let buf_copy_len = (if total_copy_len > unat (pb_len p) then unat (pb_len p) else total_copy_len)
            in p\<lparr>pb_payload := blit (pb_payload p) 0 (take buf_copy_len (drop copied_total dataptr))\<rparr>
                 # take_loop ps dataptr (total_copy_len - buf_copy_len) (copied_total + buf_copy_len)))"

definition pbuf_take :: "pbuf list \<Rightarrow> byte list option \<Rightarrow> u16 \<Rightarrow> err_t \<times> pbuf list" where
  "pbuf_take buf dataptr len =
     (case buf of
        [] \<Rightarrow> (ERR_ARG, buf)
      | p # ps \<Rightarrow> (case dataptr of
            None \<Rightarrow> (ERR_ARG, buf)
          | Some data \<Rightarrow>
              if \<not> pb_tot_len p \<ge> len then (ERR_MEM, buf) else (ERR_OK, take_loop buf data (unat len) 0)))"

text \<open>The nodes of a chain before the one \<open>pbuf_skip\<close> finds.\<close>

definition before :: "pbuf list \<Rightarrow> pbuf list \<Rightarrow> pbuf list" where
  "before ps qs = take (length ps - length qs) ps"

definition pbuf_take_at :: "pbuf list \<Rightarrow> byte list \<Rightarrow> u16 \<Rightarrow> u16 \<Rightarrow> err_t \<times> pbuf list" where
  "pbuf_take_at buf dataptr len offset =
     (case pbuf_skip buf offset of
        ([], target_offset) \<Rightarrow> (ERR_MEM, buf)
      | (q # qs, target_offset) \<Rightarrow>
          if unat (pb_tot_len q) \<ge> unat target_offset + unat len
          then (let n0 = pb_len q - target_offset;
                    first_copy_len = (if n0 < len then n0 else len);
                    q' = q\<lparr>pb_payload := blit (pb_payload q) (unat target_offset) (take (unat first_copy_len) dataptr)\<rparr>;
                    remaining_len = len - first_copy_len
                in if remaining_len > 0
                   then (case pbuf_take qs (Some (drop (unat first_copy_len) dataptr)) remaining_len of
                           (err, qs') \<Rightarrow> (err, before buf (q # qs) @ q' # qs'))
                   else (ERR_OK, before buf (q # qs) @ q' # qs))
          else (ERR_MEM, buf))"

definition pbuf_try_get_at :: "pbuf list \<Rightarrow> u16 \<Rightarrow> int" where
  "pbuf_try_get_at p offset =
     (case pbuf_skip p offset of
        ([], q_idx) \<Rightarrow> -1
      | (q # qs, q_idx) \<Rightarrow> if pb_len q > q_idx then uint (pb_payload q ! unat q_idx) else -1)"

definition pbuf_get_at :: "pbuf list \<Rightarrow> u16 \<Rightarrow> u8" where
  "pbuf_get_at p offset = (let ret = pbuf_try_get_at p offset in if ret \<ge> 0 then of_int ret else 0)"

definition pbuf_put_at :: "pbuf list \<Rightarrow> u16 \<Rightarrow> u8 \<Rightarrow> pbuf list" where
  "pbuf_put_at p offset data =
     (case pbuf_skip p offset of
        ([], q_idx) \<Rightarrow> p
      | (q # qs, q_idx) \<Rightarrow>
          if pb_len q > q_idx then before p (q # qs) @ q\<lparr>pb_payload := (pb_payload q)[unat q_idx := data]\<rparr> # qs else p)"

text \<open>Comparison with a memory area, and the search for one.\<close>

function memcmp_loop :: "pbuf list \<Rightarrow> u16 \<Rightarrow> byte list \<Rightarrow> u16 \<Rightarrow> u16 \<Rightarrow> u16" where
  "memcmp_loop q start s2 n i =
     (if i < n
      then (if pbuf_get_at q (start + i) \<noteq> s2 ! unat i
            then of_nat (min (unat i + 1) 0xFFFF)
            else memcmp_loop q start s2 n (i + 1))
      else 0)"
  by auto
termination
  by (relation "measure (\<lambda>(q, start, s2, n, i). unat n - unat i)") (auto simp: unat_simps word_less_nat_alt)

declare memcmp_loop.simps [simp del]

definition pbuf_memcmp :: "pbuf list \<Rightarrow> u16 \<Rightarrow> byte list \<Rightarrow> u16 \<Rightarrow> u16" where
  "pbuf_memcmp p offset s2 n =
     (if unat (pb_tot_len (hd p)) < unat offset + unat n then 0xffff
      else (case pbuf_skip p offset of (q, start) \<Rightarrow> memcmp_loop q start s2 n 0))"

partial_function (option) memfind_loop :: "pbuf list \<Rightarrow> byte list \<Rightarrow> u16 \<Rightarrow> u16 \<Rightarrow> u16 \<Rightarrow> u16 option" where
  "memfind_loop p m mem_len max_cmp_start i =
     (if i \<le> max_cmp_start
      then (if pbuf_memcmp p i m mem_len = 0 then Some i else memfind_loop p m mem_len max_cmp_start (i + 1))
      else Some 0xFFFF)"

definition pbuf_memfind :: "pbuf list \<Rightarrow> byte list \<Rightarrow> u16 \<Rightarrow> u16 \<Rightarrow> u16 option" where
  "pbuf_memfind p m mem_len start_offset =
     (let max_cmp_start = pb_tot_len (hd p) - mem_len
      in if unat (pb_tot_len (hd p)) \<ge> unat mem_len + unat start_offset
         then memfind_loop p m mem_len max_cmp_start start_offset
         else Some 0xFFFF)"

definition pbuf_strstr :: "pbuf list \<Rightarrow> byte list option \<Rightarrow> u16 option" where
  "pbuf_strstr p substr =
     (case substr of
        None \<Rightarrow> Some 0xFFFF
      | Some s \<Rightarrow>
          if s = [] \<or> pb_tot_len (hd p) = 0xFFFF then Some 0xFFFF
          else if length s \<ge> 0xFFFF then Some 0xFFFF
          else pbuf_memfind p s (of_nat (length s)) 0)"

section \<open>Positions in a chain\<close>

lemma blit_blit: "i + length xs \<le> length buf \<Longrightarrow> blit (blit buf i xs) (i + length xs) ys = blit buf i (xs @ ys)"
  by (simp add: blit_def drop_append add.commute add.left_commute)

lemma blit_append_left: "i + length xs \<le> length us \<Longrightarrow> blit (us @ vs) i xs = blit us i xs @ vs"
  by (simp add: blit_def)

lemma blit_append_right: "length us \<le> i \<Longrightarrow> blit (us @ vs) i xs = us @ blit vs (i - length us) xs"
  by (simp add: blit_def)

lemma pchain_suffix: "pchain_inv (pre @ qs) \<Longrightarrow> pchain_inv qs"
  by (induction pre) auto

lemma chain_bytes_append [simp]: "chain_bytes (ps @ qs) = chain_bytes ps @ chain_bytes qs"
  by (simp add: chain_bytes_def)

lemma pbuf_skip_split:
  assumes "pchain_inv ps" "pbuf_skip ps off = (qs, off')"
  shows "\<exists>pre. ps = pre @ qs \<and> (if qs = [] then length (chain_bytes ps) \<le> unat off
     else unat off' < unat (pb_len (hd qs)) \<and> unat off = length (chain_bytes pre) + unat off')"
  using assms
proof (induction ps off rule: pbuf_skip.induct)
  case (2 q ps off)
  show ?case
  proof (cases "pb_len q \<le> off")
    case True
    then have m: "unat (off - pb_len q) = unat off - unat (pb_len q)" "unat (pb_len q) \<le> unat off"
      by (simp_all add: unat_minus_le word_le_nat_alt)
    from 2 True obtain pre where "ps = pre @ qs" "if qs = [] then length (chain_bytes ps) \<le> unat (off - pb_len q)
      else unat off' < unat (pb_len (hd qs)) \<and> unat (off - pb_len q) = length (chain_bytes pre) + unat off'" by auto
    with m "2.prems"(1) show ?thesis by (intro exI [of _ "q # pre"]) (auto split: if_splits)
  next
    case False
    with "2.prems" show ?thesis by (intro exI [of _ "[]"]) (auto simp: word_less_nat_alt not_le)
  qed
qed simp

text \<open>A byte of the chain, found by \<open>pbuf_skip\<close>.\<close>

lemma pbuf_skip_byte:
  assumes "pchain_inv ps" "pbuf_skip ps off = (qs, i)"
  obtains (inside) pre q rest where "qs = q # rest" "ps = pre @ q # rest" "before ps qs = pre" "unat i < unat (pb_len q)"
      "unat (pb_len q) = length (pb_payload q)" "unat off = length (chain_bytes pre) + unat i" "unat off < length (chain_bytes ps)"
    | (outside) "qs = []" "length (chain_bytes ps) \<le> unat off"
proof -
  obtain pre where pre: "ps = pre @ qs" "if qs = [] then length (chain_bytes ps) \<le> unat off
     else unat i < unat (pb_len (hd qs)) \<and> unat off = length (chain_bytes pre) + unat i"
    using pbuf_skip_split [OF assms] by blast
  show thesis
  proof (cases qs)
    case Nil
    with pre show ?thesis by (intro outside) auto
  next
    case (Cons q rest)
    have "unat (pb_len q) = length (pb_payload q)" using pchain_suffix [of pre qs] assms(1) pre(1) Cons by simp
    with Cons pre show ?thesis by (intro inside [of q rest pre]) (auto simp: before_def)
  qed
qed

lemma try_get_at_spec:
  assumes "pchain_inv ps"
  shows "pbuf_try_get_at ps off = (if unat off < length (chain_bytes ps) then uint (chain_bytes ps ! unat off) else -1)"
proof -
  obtain qs i where e: "pbuf_skip ps off = (qs, i)" by fastforce
  have "pbuf_try_get_at ps off = (case (qs, i) of ([], q_idx) \<Rightarrow> -1
      | (q # qs, q_idx) \<Rightarrow> if pb_len q > q_idx then uint (pb_payload q ! unat q_idx) else -1)"
    by (simp only: pbuf_try_get_at_def e)
  then show ?thesis
    by (cases rule: pbuf_skip_byte [OF assms e]) (auto simp: nth_append word_less_nat_alt)
qed

lemma get_at_spec:
  "pchain_inv ps \<Longrightarrow> pbuf_get_at ps off = (if unat off < length (chain_bytes ps) then chain_bytes ps ! unat off else 0)"
  by (simp add: pbuf_get_at_def try_get_at_spec)

text \<open>Writing bytes inside a node keeps the pb_shape of the chain.\<close>

lemma pchain_update:
  assumes "pchain_inv (pre @ q # rest)" "length bs = length (pb_payload q)"
  shows "pchain_inv (pre @ q\<lparr>pb_payload := bs\<rparr> # rest)"
  using assms
proof (induction pre)
  case (Cons p pre)
  then show ?case by (cases pre) auto
qed simp

lemma put_at_spec:
  assumes "pchain_inv ps"
  shows "pchain_inv (pbuf_put_at ps off b) \<and> chain_bytes (pbuf_put_at ps off b) = (chain_bytes ps)[unat off := b]"
proof -
  obtain qs i where e: "pbuf_skip ps off = (qs, i)" by fastforce
  show ?thesis
  proof (rule pbuf_skip_byte [OF assms e])
    fix pre q rest
    assume "qs = q # rest" "ps = pre @ q # rest" "before ps qs = pre" "unat i < unat (pb_len q)"
      "unat (pb_len q) = length (pb_payload q)" "unat off = length (chain_bytes pre) + unat i"
    moreover from this have "pbuf_put_at ps off b = pre @ q\<lparr>pb_payload := (pb_payload q)[unat i := b]\<rparr> # rest"
      by (simp add: pbuf_put_at_def e [unfolded \<open>ps = pre @ q # rest\<close>] word_less_nat_alt)
    ultimately show ?thesis using pchain_update [of pre q rest "(pb_payload q)[unat i := b]"] assms
      by (simp add: list_update_append)
  qed (use assms in \<open>simp add: pbuf_put_at_def e list_update_beyond\<close>)
qed

section \<open>Copies\<close>

lemma min_rest: "o' \<le> b \<Longrightarrow> min a (b + c - o') - min a (b - o') = min (a - min a (b - o')) c" for a b c o' :: nat
  by (simp add: min_def) linarith

lemma copy_partial_loop_spec:
  assumes "pchain_inv ps" "n = min (unat len) (length (chain_bytes ps) - unat off)" "unat left + n \<le> length d" "length d < 2 ^ 16"
  shows "copy_partial_loop ps d left len off copied =
    (copied + of_nat n, blit d (unat left) (take n (drop (unat off) (chain_bytes ps))))"
  using assms
proof (induction ps d left len off copied arbitrary: n rule: copy_partial_loop.induct)
  case (2 p ps d left len off copied)
  have p: "unat (pb_len p) = length (pb_payload p)" "pchain_inv ps" using "2.prems"(1) by auto
  consider (zero) "len = 0" | (skip) "len \<noteq> 0" "off \<noteq> 0" "off \<ge> pb_len p" | (copy) "len \<noteq> 0" "off = 0 \<or> off < pb_len p"
    by fastforce
  then show ?case
  proof cases
    case zero
    with 2 show ?thesis by simp
  next
    case skip
    then have "unat (off - pb_len p) = unat off - length (pb_payload p)" by (simp add: unat_minus_le p(1) [symmetric])
    with skip 2 p show ?thesis by (simp add: word_le_nat_alt add.commute)
  next
    case copy
    define k where "k = min (unat len) (length (pb_payload p) - unat off)"
    have o: "unat off \<le> unat (pb_len p)" using copy(2) by (auto simp: word_less_nat_alt)
    then have n0: "unat (pb_len p - off) = length (pb_payload p) - unat off" by (simp add: unat_minus_nat p(1))
    define w where "w = (if pb_len p - off > len then len else pb_len p - off)"
    have w: "unat w = k" using n0 by (auto simp: w_def k_def word_less_nat_alt)
    have wle: "w \<le> len" by (auto simp: w_def word_le_nat_alt word_less_nat_alt)
    define xs where "xs = take k (drop (unat off) (pb_payload p))"
    have xs: "length xs = k" using o p(1) by (simp add: xs_def k_def)
    have kn: "k \<le> n" using "2.prems"(2) by (auto simp: k_def)
    have left: "unat (left + w) = unat left + k"
      using "2.prems"(3,4) kn w by (simp add: unat_word_ariths)
    have lw: "unat (len - w) = unat len - k" using wle w by (simp add: unat_minus_le)
    have rest: "n - k = min (unat (len - w)) (length (chain_bytes ps) - unat (0 :: u16))"
      using "2.prems"(2) lw o p(1) min_rest [of "unat off" "length (pb_payload p)" "unat len" "length (chain_bytes ps)"] by (simp add: k_def)
    have neg: "\<not> (off \<noteq> 0 \<and> off \<ge> pb_len p)" using copy(2) by auto
    have lb: "length (blit d (unat left) xs) = length d" using xs kn "2.prems"(3) by simp
    have ih: "copy_partial_loop ps (blit d (unat left) xs) (left + w) (len - w) 0 (copied + w) =
        (copied + w + of_nat (n - k), blit (blit d (unat left) xs) (unat (left + w)) (take (n - k) (drop (unat (0 :: u16)) (chain_bytes ps))))"
      unfolding xs_def w [symmetric]
    proof (rule "2.IH"(2) [OF copy(1) neg refl w_def p(2)])
      show "n - unat w = min (unat (len - w)) (length (chain_bytes ps) - unat (0 :: u16))" using rest w by simp
      show "unat (left + w) + (n - unat w) \<le> length (blit d (unat left) (take (unat w) (drop (unat off) (pb_payload p))))"
        using left w kn "2.prems"(3) lb by (simp add: xs_def)
      show "length (blit d (unat left) (take (unat w) (drop (unat off) (pb_payload p)))) < 2 ^ 16"
        using w lb "2.prems"(4) by (simp add: xs_def)
    qed
    have "take n (drop (unat off) (chain_bytes (p # ps))) = xs @ take (n - k) (chain_bytes ps)"
    proof (cases "unat len \<le> length (pb_payload p) - unat off")
      case True
      then have "n = k" using "2.prems"(2) by (auto simp: k_def)
      with True show ?thesis by (simp add: xs_def k_def)
    next
      case False
      then show ?thesis using o p(1) "2.prems"(2) by (auto simp: xs_def k_def)
    qed
    moreover have "copied + w + of_nat (n - k) = copied + of_nat n"
    proof -
      have "w = of_nat k" using w by (simp add: word_eq_iff_unat unat_of_nat flip: w)
      then show ?thesis using kn by (simp add: of_nat_diff)
    qed
    moreover have "copy_partial_loop (p # ps) d left len off copied = copy_partial_loop ps (blit d (unat left) xs) (left + w) (len - w) 0 (copied + w)"
      by (simp only: copy_partial_loop.simps copy(1) neg if_False Let_def w_def [symmetric] xs_def w)
    ultimately show ?thesis using ih blit_blit [of "unat left" xs d] left xs "2.prems"(3) kn by simp
  qed
qed simp

lemma copy_partial_spec:
  assumes "pchain_inv ps" "ps \<noteq> []" "n = min (unat len) (length (chain_bytes ps) - unat off)" "n \<le> length d" "length d < 2 ^ 16"
  shows "pbuf_copy_partial ps (Some d) len off = (of_nat n, Some (blit d 0 (take n (drop (unat off) (chain_bytes ps)))))"
  using copy_partial_loop_spec [OF assms(1,3), of 0 d 0] assms(2,4,5) by (simp add: pbuf_copy_partial_def)

text \<open>What the lengths of a chain's nodes are; the invariant of a chain depends on nothing else.\<close>

definition pb_shape :: "pbuf list \<Rightarrow> (u16 \<times> u16 \<times> nat) list" where
  "pb_shape ps = map (\<lambda>p. (pb_len p, pb_tot_len p, length (pb_payload p))) ps"

lemma pb_shape_simps [simp]: "pb_shape [] = []" "pb_shape (p # ps) = (pb_len p, pb_tot_len p, length (pb_payload p)) # pb_shape ps"
  "pb_shape (ps @ qs) = pb_shape ps @ pb_shape qs"
  by (simp_all add: pb_shape_def)

lemma shape_Cons: "pb_shape ps = (a, b, c) # xs \<longleftrightarrow> (\<exists>q qs. ps = q # qs \<and> pb_len q = a \<and> pb_tot_len q = b \<and> length (pb_payload q) = c \<and> pb_shape qs = xs)"
  by (cases ps) auto

lemma pchain_shape: "pb_shape ps' = pb_shape ps \<Longrightarrow> pchain_inv ps' = pchain_inv ps"
proof (induction ps arbitrary: ps')
  case (Cons p ps)
  then obtain q qs where "ps' = q # qs" "pb_len q = pb_len p" "pb_tot_len q = pb_tot_len p"
    "length (pb_payload q) = length (pb_payload p)" "pb_shape qs = pb_shape ps" by (auto simp: shape_Cons)
  with Cons.IH [of qs] show ?case by (cases ps; cases qs) auto
qed (simp add: pb_shape_def)

lemma take_loop_spec:
  assumes "pchain_inv ps" "amount \<le> length (chain_bytes ps)" "copied + amount \<le> length data"
  shows "pb_shape (take_loop ps data amount copied) = pb_shape ps
    \<and> chain_bytes (take_loop ps data amount copied) = blit (chain_bytes ps) 0 (take amount (drop copied data))"
  using assms
proof (induction ps data amount copied rule: take_loop.induct)
  case (2 p ps data amount copied)
  show ?case
  proof (cases "amount = 0")
    case False
    define k where "k = min amount (length (pb_payload p))"
    have p: "unat (pb_len p) = length (pb_payload p)" "pchain_inv ps" using "2.prems"(1) by auto
    then have k: "(if amount > unat (pb_len p) then unat (pb_len p) else amount) = k" by (simp add: k_def)
    have ih: "pb_shape (take_loop ps data (amount - k) (copied + k)) = pb_shape ps
      \<and> chain_bytes (take_loop ps data (amount - k) (copied + k)) = blit (chain_bytes ps) 0 (take (amount - k) (drop (copied + k) data))"
      using "2.IH" [OF False k [symmetric]] p(2) "2.prems"(2,3) by (simp add: k_def)
    have xs: "length (take k (drop copied data)) = k" using "2.prems"(3) by (simp add: k_def)
    have "take amount (drop copied data) = take k (drop copied data) @ take (amount - k) (drop (copied + k) data)"
      using take_add [of k "amount - k" "drop copied data"] by (simp add: k_def add.commute)
    moreover have "k = length (pb_payload p) \<or> amount - k = 0" by (auto simp: k_def)
    ultimately have "blit (chain_bytes (p # ps)) 0 (take amount (drop copied data)) =
        blit (pb_payload p) 0 (take k (drop copied data)) @ blit (chain_bytes ps) 0 (take (amount - k) (drop (copied + k) data))"
      using xs "2.prems"(3) by (auto simp: blit_def k_def)
    moreover have "take_loop (p # ps) data amount copied =
        p\<lparr>pb_payload := blit (pb_payload p) 0 (take k (drop copied data))\<rparr> # take_loop ps data (amount - k) (copied + k)"
      using False by (simp add: k [unfolded not_le] Let_def)
    ultimately show ?thesis using ih xs by (simp add: k_def)
  qed simp
qed (simp add: blit_def)

lemma take_spec:
  assumes "pchain_inv ps" "length data = unat len"
  shows "pbuf_take ps (Some data) len = (if ps = [] then (ERR_ARG, ps) else if unat len \<le> length (chain_bytes ps)
     then (ERR_OK, take_loop ps data (unat len) 0) else (ERR_MEM, ps))"
proof (cases ps)
  case (Cons p qs)
  then have "unat (pb_tot_len p) = length (chain_bytes ps)" using pchain_tot_len [of p qs] assms(1) by simp
  with Cons show ?thesis by (simp add: pbuf_take_def word_le_nat_alt)
qed (simp add: pbuf_take_def)

lemma take_at_spec:
  assumes "pchain_inv ps" "length data = unat len"
  shows "\<exists>ps'. pbuf_take_at ps data len off = (if unat off < length (chain_bytes ps) \<and> unat off + unat len \<le> length (chain_bytes ps)
       then (ERR_OK, ps') else (ERR_MEM, ps))
     \<and> (unat off < length (chain_bytes ps) \<and> unat off + unat len \<le> length (chain_bytes ps) \<longrightarrow>
          pb_shape ps' = pb_shape ps \<and> chain_bytes ps' = blit (chain_bytes ps) (unat off) data)"
proof -
  obtain qs i where e: "pbuf_skip ps off = (qs, i)" by fastforce
  from assms(1) e show ?thesis
  proof (cases rule: pbuf_skip_byte)
    case (inside pre q rest)
    have inv: "pchain_inv (q # rest)" using assms(1) inside(2) pchain_suffix by blast
    then have tot: "unat (pb_tot_len q) = length (pb_payload q) + length (chain_bytes rest)" using pchain_tot_len [of q rest] by simp
    have lens: "length (chain_bytes ps) = length (chain_bytes pre) + length (pb_payload q) + length (chain_bytes rest)"
      using inside(2) by simp
    show ?thesis
    proof (cases "unat off + unat len \<le> length (chain_bytes ps)")
      case True
      define k where "k = min (unat len) (length (pb_payload q) - unat i)"
      define w where "w = (if pb_len q - i < len then pb_len q - i else len)"
      have w: "unat w = k" using inside(4,5) by (auto simp: w_def k_def word_less_nat_alt unat_minus_nat)
      have lw: "unat (len - w) = unat len - k" using w by (subst unat_minus_nat) (simp_all add: k_def)
      define q' where "q' = q\<lparr>pb_payload := blit (pb_payload q) (unat i) (take k data)\<rparr>"
      have q': "pb_shape [q'] = pb_shape [q]" using inside(4,5) assms(2) by (simp add: q'_def k_def)
      define rest' where "rest' = (if len - w > 0 then take_loop rest (drop k data) (unat (len - w)) 0 else rest)"
      have fits: "unat (len - w) \<le> length (chain_bytes rest)" using True lens inside(4-6) lw by (auto simp: k_def)
      have rest': "pb_shape rest' = pb_shape rest \<and> chain_bytes rest' = blit (chain_bytes rest) 0 (drop k data)"
        using take_loop_spec [of rest "unat (len - w)" 0 "drop k data"] inv fits lw assms(2)
        by (auto simp: rest'_def unat_pos_iff blit_def)
      have r: "pbuf_take_at ps data len off = (ERR_OK, pre @ q' # rest')"
      proof -
        have "rest \<noteq> []" if "len - w > 0" using fits that by (auto simp: unat_pos_iff)
        then have "pbuf_take rest (Some (drop k data)) (len - w) = (ERR_OK, rest')" if "len - w > 0"
          using take_spec [of rest "drop k data" "len - w"] inv lw assms(2) fits that by (simp add: rest'_def)
        moreover have "unat (pb_tot_len q) \<ge> unat i + unat len" using True lens inside(6) tot by simp
        ultimately show ?thesis using inside(1,3)
          by (simp add: pbuf_take_at_def e Let_def w_def [symmetric] w q'_def) (auto simp: rest'_def)
      qed
      have "chain_bytes (pre @ q' # rest') = blit (chain_bytes ps) (unat off) data"
      proof -
        have d: "data = take k data @ drop k data" by simp
        have "blit (pb_payload q @ chain_bytes rest) (unat i) data =
            blit (pb_payload q) (unat i) (take k data) @ blit (chain_bytes rest) 0 (drop k data)"
        proof (cases "unat len \<le> length (pb_payload q) - unat i")
          case True
          then have "k = unat len" by (simp add: k_def)
          then show ?thesis using True inside(4,5) assms(2) by (simp add: blit_def)
        next
          case False
          then have "k = length (pb_payload q) - unat i" by (simp add: k_def)
          moreover have "data @ zs = take k data @ drop k data @ zs" for zs by (metis append_assoc append_take_drop_id)
          ultimately show ?thesis using False inside(4,5) assms(2) by (simp add: blit_def add.commute)
        qed
        then show ?thesis using inside(2,6) rest' by (simp add: q'_def blit_append_right)
      qed
      then show ?thesis using r q' rest' True inside(2,7) by (intro exI [of _ "pre @ q' # rest'"]) auto
    next
      case False
      then have "\<not> unat (pb_tot_len q) \<ge> unat i + unat len" using lens inside(6) tot by simp
      with False inside(1) show ?thesis by (simp add: pbuf_take_at_def e)
    qed
  qed (auto simp: pbuf_take_at_def e)
qed

section \<open>Comparison and search\<close>

text \<open>The bytes at an offset are those of \<open>xs\<close>.\<close>

definition occurs_at :: "byte list \<Rightarrow> byte list \<Rightarrow> nat \<Rightarrow> bool" where
  "occurs_at bs xs i \<longleftrightarrow> i + length xs \<le> length bs \<and> take (length xs) (drop i bs) = xs"

lemma occurs_at_nth: "i + length xs \<le> length bs \<Longrightarrow> occurs_at bs xs i \<longleftrightarrow> (\<forall>j<length xs. bs ! (i + j) = xs ! j)"
  by (auto simp: occurs_at_def list_eq_iff_nth_eq)

lemma all_from_Suc: "a < n \<Longrightarrow> (\<forall>j. a \<le> j \<and> j < n \<longrightarrow> P j) \<longleftrightarrow> P a \<and> (\<forall>j. Suc a \<le> j \<and> j < n \<longrightarrow> P j)" for n :: nat
proof safe
  fix j assume "P a" "\<forall>j. Suc a \<le> j \<and> j < n \<longrightarrow> P j" "a \<le> j" "j < n"
  then show "P j" by (cases "j = a") auto
qed auto

lemma memcmp_loop_spec:
  assumes "\<And>j. unat i \<le> j \<Longrightarrow> j < unat n \<Longrightarrow> pbuf_get_at q (start + of_nat j) = bs ! j"
  shows "memcmp_loop q start s2 n i = 0 \<longleftrightarrow> (\<forall>j. unat i \<le> j \<and> j < unat n \<longrightarrow> bs ! j = s2 ! j)"
  using assms
proof (induction q start s2 n i rule: memcmp_loop.induct)
  case (1 q start s2 n i)
  show ?case
  proof (cases "i < n")
    case True
    then have i: "unat i < unat n" "unat (i + 1) = Suc (unat i)" by (simp_all add: word_less_nat_alt unat_simps)
    have g: "pbuf_get_at q (start + i) = bs ! unat i" using "1.prems" [of "unat i"] i by simp
    show ?thesis
    proof (cases "bs ! unat i = s2 ! unat i")
      case False
      have "min (unat i + 1) 0xFFFF = unat (i + 1)" using i unat_less_u16 [of n] by simp
      then have "(of_nat (min (unat i + 1) 0xFFFF) :: u16) = i + 1" by (simp only: word_unat_eq_iff) simp
      moreover have "i + 1 \<noteq> 0" using i(2) by (metis nat.distinct(1) unsigned_0)
      ultimately have "(of_nat (min (unat i + 1) 0xFFFF) :: u16) \<noteq> 0" by metis
      then have "memcmp_loop q start s2 n i \<noteq> 0" using True False g by (subst memcmp_loop.simps) simp
      with False i show ?thesis by auto
    next
      case same: True
      have "memcmp_loop q start s2 n i = memcmp_loop q start s2 n (i + 1)"
        using True same g by (subst memcmp_loop.simps) simp
      moreover have "memcmp_loop q start s2 n (i + 1) = 0 \<longleftrightarrow> (\<forall>j. unat (i + 1) \<le> j \<and> j < unat n \<longrightarrow> bs ! j = s2 ! j)"
        using "1.IH" [OF True] g same "1.prems" i by simp
      ultimately show ?thesis using same i all_from_Suc [of "unat i" "unat n" "\<lambda>j. bs ! j = s2 ! j"] by simp
    qed
  qed (auto simp: memcmp_loop.simps [of q start s2 n i] word_less_nat_alt)
qed

lemma memcmp_spec:
  assumes "pchain_inv p" "p \<noteq> []" "length s2 = unat n"
  shows "pbuf_memcmp p off s2 n = 0 \<longleftrightarrow> occurs_at (chain_bytes p) s2 (unat off)"
proof -
  have tot: "unat (pb_tot_len (hd p)) = length (chain_bytes p)" using pchain_tot_len assms(1,2) by (cases p) auto
  show ?thesis
  proof (cases "unat off + unat n \<le> length (chain_bytes p)")
    case True
    obtain q start where e: "pbuf_skip p off = (q, start)" by fastforce
    have c: "pbuf_memcmp p off s2 n = memcmp_loop q start s2 n 0" using True tot e by (simp add: pbuf_memcmp_def)
    obtain pre where pre: "p = pre @ q" "if q = [] then length (chain_bytes p) \<le> unat off
       else unat start < unat (pb_len (hd q)) \<and> unat off = length (chain_bytes pre) + unat start"
      using pbuf_skip_split [OF assms(1) e] by blast
    have g: "pbuf_get_at q (start + of_nat j) = drop (unat off) (chain_bytes p) ! j" if "j < unat n" for j
    proof -
      have ne: "q \<noteq> []" using pre(2) True that by auto
      have "unat (start + of_nat j :: u16) = unat start + j"
        using True that ne pre(2) pchain_length [OF assms(1)] by (simp add: unat_word_ariths unat_of_nat)
      then show ?thesis using pchain_suffix [of pre q] assms(1) pre True that ne by (simp add: get_at_spec nth_append add.commute)
    qed
    have "memcmp_loop q start s2 n 0 = 0 \<longleftrightarrow> (\<forall>j. unat (0 :: u16) \<le> j \<and> j < unat n \<longrightarrow> drop (unat off) (chain_bytes p) ! j = s2 ! j)"
      by (rule memcmp_loop_spec) (use g in simp)
    then show ?thesis using c True assms(3) occurs_at_nth [of "unat off" s2 "chain_bytes p"] by (simp add: add.commute)
  next
    case False
    with tot assms(3) show ?thesis by (simp add: pbuf_memcmp_def occurs_at_def)
  qed
qed

text \<open>The first offset from \<open>i\<close> on where \<open>xs\<close> occurs.\<close>

definition first_at :: "byte list \<Rightarrow> byte list \<Rightarrow> nat \<Rightarrow> u16 \<Rightarrow> bool" where
  "first_at bs xs i r \<longleftrightarrow>
     (if \<exists>j\<ge>i. occurs_at bs xs j
      then i \<le> unat r \<and> occurs_at bs xs (unat r) \<and> (\<forall>j. i \<le> j \<and> j < unat r \<longrightarrow> \<not> occurs_at bs xs j)
      else r = 0xFFFF)"

lemma first_at_none: "(\<And>j. i \<le> j \<Longrightarrow> \<not> occurs_at bs xs j) \<Longrightarrow> first_at bs xs i 0xFFFF"
  unfolding first_at_def by (subst if_not_P) blast+

lemma first_at_Suc:
  assumes "\<not> occurs_at bs xs i" "first_at bs xs (Suc i) r"
  shows "first_at bs xs i r"
proof -
  have e: "(\<exists>j\<ge>i. occurs_at bs xs j) \<longleftrightarrow> (\<exists>j\<ge>Suc i. occurs_at bs xs j)"
  proof
    assume "\<exists>j\<ge>i. occurs_at bs xs j"
    then obtain j where "i \<le> j" "occurs_at bs xs j" by blast
    moreover from this have "j \<noteq> i" using assms(1) by blast
    ultimately show "\<exists>j\<ge>Suc i. occurs_at bs xs j" by (intro exI [of _ j]) simp
  qed (use Suc_leD in blast)
  show ?thesis
  proof (cases "\<exists>j\<ge>Suc i. occurs_at bs xs j")
    case True
    then have "Suc i \<le> unat r" "occurs_at bs xs (unat r)" "\<forall>j. Suc i \<le> j \<and> j < unat r \<longrightarrow> \<not> occurs_at bs xs j"
      using assms(2) unfolding first_at_def if_P [OF True] by blast+
    then show ?thesis using True e assms(1) all_from_Suc [of i "unat r" "\<lambda>j. \<not> occurs_at bs xs j"] by (simp only: first_at_def if_True) simp
  next
    case False
    then show ?thesis using e assms(2) by (simp only: first_at_def if_False)
  qed
qed

lemma memfind_loop_spec:
  assumes "pchain_inv p" "p \<noteq> []" "length m = unat mem_len" "unat mx + unat mem_len = length (chain_bytes p)"
    and "unat mx - unat i < k" "unat mx < 65535 \<or> m = []"
  shows "\<exists>r. memfind_loop p m mem_len mx i = Some r \<and> first_at (chain_bytes p) m (unat i) r"
  using assms(5)
proof (induction k arbitrary: i)
  case (Suc k)
  note c = memcmp_spec [OF assms(1-3), of i]
  show ?case
  proof (cases "i \<le> mx")
    case False
    then have "\<not> occurs_at (chain_bytes p) m j" if "unat i \<le> j" for j
      using assms(3,4) that by (auto simp: occurs_at_def word_le_nat_alt)
    then have "first_at (chain_bytes p) m (unat i) 0xFFFF" by (rule first_at_none)
    then show ?thesis using False by (simp add: memfind_loop.simps [of p m mem_len mx i])
  next
    case True
    show ?thesis
    proof (cases "occurs_at (chain_bytes p) m (unat i)")
      case here: True
      then show ?thesis using True c by (auto simp: memfind_loop.simps [of p m mem_len mx i] first_at_def)
    next
      case False
      have "occurs_at (chain_bytes p) [] (unat i)" using True assms(4) by (simp add: occurs_at_def word_le_nat_alt)
      then have "m \<noteq> []" using False by metis
      then have i: "unat (i + 1) = Suc (unat i)" using assms(6) True by (simp add: word_le_nat_alt unat_word_ariths)
      have "unat i \<noteq> unat mx \<or> unat mx - unat (i + 1) < k \<or> k = 0" using Suc.prems i by linarith
      have step: "memfind_loop p m mem_len mx i = memfind_loop p m mem_len mx (i + 1)"
        using True False c by (simp add: memfind_loop.simps [of p m mem_len mx i])
      show ?thesis
      proof (cases "unat i < unat mx")
        case True
        then obtain r where "memfind_loop p m mem_len mx (i + 1) = Some r" "first_at (chain_bytes p) m (unat (i + 1)) r"
          using Suc.IH [of "i + 1"] Suc.prems i by fastforce
        with step first_at_Suc [OF False] i show ?thesis by auto
      next
        case at_end: False
        then have "\<not> i + 1 \<le> mx" using True i by (simp add: word_le_nat_alt)
        then have "memfind_loop p m mem_len mx (i + 1) = Some 0xFFFF" by (simp add: memfind_loop.simps [of p m mem_len mx "i + 1"])
        moreover have "\<not> occurs_at (chain_bytes p) m j" if "Suc (unat i) \<le> j" for j
          using assms(3,4) at_end that by (auto simp: occurs_at_def)
        then have "first_at (chain_bytes p) m (Suc (unat i)) 0xFFFF" by (rule first_at_none)
        ultimately show ?thesis using step first_at_Suc [OF False] by auto
      qed
    qed
  qed
qed simp

lemma memfind_spec:
  assumes "pchain_inv p" "p \<noteq> []" "length m = unat mem_len"
  shows "\<exists>r. pbuf_memfind p m mem_len start = Some r \<and> (m \<noteq> [] \<or> start \<le> pb_tot_len (hd p) \<longrightarrow> first_at (chain_bytes p) m (unat start) r)"
proof -
  have tot: "unat (pb_tot_len (hd p)) = length (chain_bytes p)" using pchain_tot_len assms(1,2) by (cases p) auto
  show ?thesis
  proof (cases "unat (pb_tot_len (hd p)) \<ge> unat mem_len + unat start")
    case True
    then have mx: "unat (pb_tot_len (hd p) - mem_len) = length (chain_bytes p) - unat mem_len" using tot by (subst unat_minus_nat) auto
    have "unat (pb_tot_len (hd p) - mem_len) < 65535 \<or> m = []"
      using mx tot True assms(3) pchain_length [OF assms(1)] by (cases m) auto
    moreover have "unat (pb_tot_len (hd p) - mem_len) + unat mem_len = length (chain_bytes p)" using mx tot True by simp
    moreover have "unat (pb_tot_len (hd p) - mem_len) - unat start < Suc (length (chain_bytes p))" using mx by simp
    ultimately obtain r where "memfind_loop p m mem_len (pb_tot_len (hd p) - mem_len) start = Some r" "first_at (chain_bytes p) m (unat start) r"
      using memfind_loop_spec [OF assms] by blast
    with True show ?thesis by (simp add: pbuf_memfind_def Let_def)
  next
    case False
    then have "\<not> occurs_at (chain_bytes p) m j" if "unat start \<le> j" for j
      using that tot assms(3) by (auto simp: occurs_at_def)
    then have "first_at (chain_bytes p) m (unat start) 0xFFFF" by (rule first_at_none)
    with False show ?thesis by (simp add: pbuf_memfind_def Let_def)
  qed
qed

lemma contiguous_spec:
  assumes "pchain_inv p" "p \<noteq> []" "unat len \<le> bufsize" "length buf = bufsize" "bufsize < 2 ^ 16"
    and "unat off < length (chain_bytes p)"
  shows "case pbuf_get_contiguous p (Some buf) bufsize len off of
      (Some (In_Pbuf q i), buf') \<Rightarrow> buf' = Some buf \<and> unat off + unat len \<le> length (chain_bytes p)
        \<and> take (unat len) (drop (unat i) (pb_payload (hd q))) = take (unat len) (drop (unat off) (chain_bytes p))
    | (Some In_Buffer, buf') \<Rightarrow> unat off + unat len \<le> length (chain_bytes p)
        \<and> buf' = Some (blit buf 0 (take (unat len) (drop (unat off) (chain_bytes p))))
    | (None, buf') \<Rightarrow> length (chain_bytes p) < unat off + unat len"
proof -
  obtain qs i where e: "pbuf_skip p off = (qs, i)" by fastforce
  from assms(1) e show ?thesis
  proof (cases rule: pbuf_skip_byte)
    case (inside pre q rest)
    have inv: "pchain_inv (q # rest)" using assms(1) inside(2) pchain_suffix by blast
    have b: "drop (unat off) (chain_bytes p) = drop (unat i) (chain_bytes (q # rest))" using inside(2,6) by simp
    have l: "length (chain_bytes p) - unat off = length (chain_bytes (q # rest)) - unat i" using inside(2,6) by simp
    show ?thesis
    proof (cases "unat (pb_len q) \<ge> unat i + unat len")
      case True
      then have "pbuf_get_contiguous p (Some buf) bufsize len off = (Some (In_Pbuf (q # rest) i), Some buf)"
        using assms(2,3) inside(1) by (simp add: pbuf_get_contiguous_def e)
      then show ?thesis using True inside(2,5,6) by simp
    next
      case False
      define n where "n = min (unat len) (length (chain_bytes (q # rest)) - unat i)"
      have c: "pbuf_copy_partial (q # rest) (Some buf) len i = (of_nat n, Some (blit buf 0 (take n (drop (unat i) (chain_bytes (q # rest))))))"
        using copy_partial_spec [OF inv _ n_def, of buf] assms(3-5) by (simp add: n_def)
      have "(of_nat n :: u16) = len \<longleftrightarrow> n = unat len"
        using unat_less_u16 [of len] by (auto simp: n_def word_eq_iff_unat unat_of_nat)
      moreover have "n = unat len \<longleftrightarrow> unat off + unat len \<le> length (chain_bytes p)" using l assms(6) by (auto simp: n_def)
      moreover have "pbuf_get_contiguous p (Some buf) bufsize len off =
          (if (of_nat n :: u16) \<noteq> len then None else Some In_Buffer, Some (blit buf 0 (take n (drop (unat off) (chain_bytes p)))))"
        using False assms(2,3) inside(1) c b by (simp add: pbuf_get_contiguous_def e)
      ultimately show ?thesis by auto
    qed
  qed (use assms(6) in simp)
qed

section \<open>Properties\<close>

text \<open>
  C26. Access to a packet by offset is access to its bytes, wherever the nodes of the chain divide them: one byte
  is read or written, a run is copied out or stored, and a run is found at the first offset where it occurs.
  The search ends for every pattern of at least one byte.
\<close>

theorem pbuf_access_is_byte_access:
  assumes "pchain_inv p" "p \<noteq> []"
  shows "pbuf_try_get_at p off = (if unat off < length (chain_bytes p) then uint (chain_bytes p ! unat off) else -1)
     \<and> chain_bytes (pbuf_put_at p off b) = (chain_bytes p)[unat off := b] \<and> pchain_inv (pbuf_put_at p off b)
     \<and> (\<forall>len d. unat len \<le> length d \<and> length d < 2 ^ 16 \<longrightarrow>
          (let xs = take (unat len) (drop (unat off) (chain_bytes p))
           in pbuf_copy_partial p (Some d) len off = (of_nat (length xs), Some (blit d 0 xs))))
     \<and> (\<forall>data len. length data = unat len \<longrightarrow>
          (let fits = (unat off < length (chain_bytes p) \<and> unat off + unat len \<le> length (chain_bytes p)); (err, p') = pbuf_take_at p data len off
           in err = (if fits then ERR_OK else ERR_MEM)
              \<and> chain_bytes p' = (if fits then blit (chain_bytes p) (unat off) data else chain_bytes p) \<and> pchain_inv p'))
     \<and> (\<forall>m len. length m = unat len \<and> m \<noteq> [] \<longrightarrow>
          (\<exists>r. pbuf_memfind p m len off = Some r \<and> first_at (chain_bytes p) m (unat off) r))"
proof (intro conjI allI impI)
  fix len :: u16 and d :: "byte list" assume d: "unat len \<le> length d \<and> length d < 2 ^ 16"
  show "let xs = take (unat len) (drop (unat off) (chain_bytes p))
     in pbuf_copy_partial p (Some d) len off = (of_nat (length xs), Some (blit d 0 xs))"
  proof -
    define xs where "xs = take (unat len) (drop (unat off) (chain_bytes p))"
    have l: "length xs = min (unat len) (length (chain_bytes p) - unat off)" by (simp add: xs_def min.commute)
    have "take (length xs) (drop (unat off) (chain_bytes p)) = xs" by (auto simp: xs_def min_def)
    moreover have "length xs \<le> length d" "length d < 2 ^ 16" using l d by linarith+
    ultimately show ?thesis using copy_partial_spec [OF assms l] by (simp only: Let_def xs_def [symmetric])
  qed
next
  fix data :: "byte list" and len :: u16 assume "length data = unat len"
  from take_at_spec [OF assms(1) this, of off] obtain p' where
    t: "pbuf_take_at p data len off = (if unat off < length (chain_bytes p) \<and> unat off + unat len \<le> length (chain_bytes p)
        then (ERR_OK, p') else (ERR_MEM, p))"
      "unat off < length (chain_bytes p) \<and> unat off + unat len \<le> length (chain_bytes p) \<longrightarrow>
          pb_shape p' = pb_shape p \<and> chain_bytes p' = blit (chain_bytes p) (unat off) data" by (elim exE conjE)
  show "let fits = (unat off < length (chain_bytes p) \<and> unat off + unat len \<le> length (chain_bytes p)); (err, p') = pbuf_take_at p data len off
     in err = (if fits then ERR_OK else ERR_MEM)
        \<and> chain_bytes p' = (if fits then blit (chain_bytes p) (unat off) data else chain_bytes p) \<and> pchain_inv p'"
    using t assms(1) pchain_shape [of p' p]
    by (cases "unat off < length (chain_bytes p) \<and> unat off + unat len \<le> length (chain_bytes p)") (simp_all only: Let_def prod.case if_True if_False HOL.simp_thms)
next
  fix m :: "byte list" and len :: u16 assume "length m = unat len \<and> m \<noteq> []"
  then show "\<exists>r. pbuf_memfind p m len off = Some r \<and> first_at (chain_bytes p) m (unat off) r"
    using memfind_spec [OF assms, of m len off] by auto
qed (use assms(1) try_get_at_spec put_at_spec in auto)

text \<open>Three nodes with the bytes 1 to 5.\<close>

definition pbuf_demo :: "pbuf list" where
  "pbuf_demo = [\<lparr>pb_payload = [1, 2], pb_tot_len = 5, pb_len = 2\<rparr>, \<lparr>pb_payload = [], pb_tot_len = 3, pb_len = 0\<rparr>,
     \<lparr>pb_payload = [3, 4, 5], pb_tot_len = 3, pb_len = 3\<rparr>]"

lemma pbuf_demo: "pchain_inv pbuf_demo" "pbuf_demo \<noteq> []" "chain_bytes pbuf_demo = [1, 2, 3, 4, 5]"
  by (simp_all add: pbuf_demo_def)

theorem pbuf_access_is_byte_access_witness:
  "pbuf_try_get_at pbuf_demo 2 = 3 \<and> chain_bytes (pbuf_put_at pbuf_demo 2 9) = [1, 2, 9, 4, 5]
     \<and> fst (pbuf_take_at pbuf_demo [7, 8, 9] 3 1) = ERR_OK \<and> (\<exists>r. pbuf_memfind pbuf_demo [2, 3] 2 0 = Some r)"
proof -
  note a = pbuf_access_is_byte_access [OF pbuf_demo(1,2)]
  from a [of 2 9] have 1: "pbuf_try_get_at pbuf_demo 2 = 3" "chain_bytes (pbuf_put_at pbuf_demo 2 9) = [1, 2, 9, 4, 5]"
    by (simp_all add: pbuf_demo(3))
  from a [of 1 9, THEN conjunct2, THEN conjunct2, THEN conjunct2, THEN conjunct2, THEN conjunct1, rule_format, of "[7, 8, 9]" 3]
  have 2: "fst (pbuf_take_at pbuf_demo [7, 8, 9] 3 1) = ERR_OK" by (simp add: pbuf_demo(3) Let_def split: prod.splits)
  have "\<exists>r. pbuf_memfind pbuf_demo [2, 3] 2 0 = Some r" 
    using a [of 0 9, THEN conjunct2, THEN conjunct2, THEN conjunct2, THEN conjunct2, THEN conjunct2, rule_format, of "[2, 3]" 2] by auto
  with 1 2 show ?thesis by blast
qed

text \<open>
  \<open>pbuf_get_contiguous\<close> for a run that starts inside the packet: the bytes in place when one node holds all
  of them, a copy in the caller's buffer when the packet is long enough, and no result otherwise.
\<close>

theorem pbuf_get_contiguous_bytes:
  assumes "pchain_inv p" "p \<noteq> []" "unat len \<le> bufsize" "length buf = bufsize" "bufsize < 2 ^ 16"
    and "unat off < length (chain_bytes p)"
  shows "case pbuf_get_contiguous p (Some buf) bufsize len off of
      (Some (In_Pbuf q i), buf') \<Rightarrow> buf' = Some buf \<and> unat off + unat len \<le> length (chain_bytes p)
        \<and> take (unat len) (drop (unat i) (pb_payload (hd q))) = take (unat len) (drop (unat off) (chain_bytes p))
    | (Some In_Buffer, buf') \<Rightarrow> unat off + unat len \<le> length (chain_bytes p)
        \<and> buf' = Some (blit buf 0 (take (unat len) (drop (unat off) (chain_bytes p))))
    | (None, buf') \<Rightarrow> length (chain_bytes p) < unat off + unat len"
  by (rule contiguous_spec [OF assms])

end
