(* ===== verification/Pbuf_Chain.thy ===== *)
theory Pbuf_Chain
  imports Pbuf_Access
begin

text \<open>
  Changing the chain itself (\<open>lwip/src/core/pbuf.c\<close>): cutting a packet to a length, dropping bytes at its front,
  joining two chains. A node that is freed leaves the list; reference counts are the subject of
  \<open>Pbuf_Refs\<close>. Assertions of the code about the lengths of a chain, which the invariant of chains implies, are left out.
\<close>

section \<open>Model\<close>

text \<open>
  \<open>pbuf_realloc\<close>: the nodes that stay give up \<open>shrink\<close> bytes of their total, the node where the packet ends
  is cut, the rest is freed. A node of the heap that gets shorter is trimmed there: \<open>on_heap i\<close> tells that node
  \<open>i\<close> of the chain comes from the heap and is not a custom one, \<open>trim i l\<close> that \<open>mem_trim\<close> returns this node
  when asked to keep \<open>l\<close> bytes of its payload. A failed assertion, in \<open>mem_trim\<close> too, is \<open>None\<close>.
\<close>

fun realloc_loop :: "(nat \<Rightarrow> bool) \<Rightarrow> (nat \<Rightarrow> u16 \<Rightarrow> bool) \<Rightarrow> nat \<Rightarrow> pbuf list \<Rightarrow> u16 \<Rightarrow> u16 \<Rightarrow> pbuf list option" where
  "realloc_loop on_heap trim i [] rem_len shrink = None"
| "realloc_loop on_heap trim i (q # qs) rem_len shrink =
     (if rem_len > pb_len q
      then (case realloc_loop on_heap trim (Suc i) qs (rem_len - pb_len q) shrink of
              None \<Rightarrow> None
            | Some qs' \<Rightarrow> Some (q\<lparr>pb_tot_len := pb_tot_len q - shrink\<rparr> # qs'))
      else if on_heap i \<and> rem_len \<noteq> pb_len q \<and> \<not> trim i rem_len then None
      else Some [q\<lparr>pb_payload := take (unat rem_len) (pb_payload q), pb_len := rem_len, pb_tot_len := rem_len\<rparr>])"

definition pbuf_realloc :: "(nat \<Rightarrow> bool) \<Rightarrow> (nat \<Rightarrow> u16 \<Rightarrow> bool) \<Rightarrow> pbuf list \<Rightarrow> u16 \<Rightarrow> pbuf list option" where
  "pbuf_realloc on_heap trim p new_len =
     (if p = [] then None
      else if new_len \<ge> pb_tot_len (hd p) then Some p
      else realloc_loop on_heap trim 0 p new_len (pb_tot_len (hd p) - new_len))"

definition pbuf_remove_header :: "pbuf list \<Rightarrow> nat \<Rightarrow> u8 \<times> pbuf list" where
  "pbuf_remove_header p header_size_decrement =
     (case p of
        [] \<Rightarrow> (1, p)
      | q # qs \<Rightarrow>
          if header_size_decrement > 0xFFFF then (1, p)
          else if header_size_decrement = 0 then (0, p)
          else (let increment_magnitude = of_nat header_size_decrement
                in if \<not> increment_magnitude \<le> pb_len q then (1, p)
                   else (0, q\<lparr>pb_payload := drop header_size_decrement (pb_payload q), pb_len := pb_len q - increment_magnitude,
                              pb_tot_len := pb_tot_len q - increment_magnitude\<rparr> # qs)))"

fun pbuf_free_header :: "pbuf list \<Rightarrow> u16 \<Rightarrow> pbuf list" where
  "pbuf_free_header [] free_left = []"
| "pbuf_free_header (p # ps) free_left =
     (if free_left = 0 then p # ps
      else if free_left \<ge> pb_len p then pbuf_free_header ps (free_left - pb_len p)
      else snd (pbuf_remove_header (p # ps) (unat free_left)))"

definition pbuf_clen :: "pbuf list \<Rightarrow> u16" where
  "pbuf_clen p = foldl (\<lambda>n q. n + 1) 0 p"

text \<open>\<open>pbuf_cat\<close> for a head and a tail that are not null.\<close>

fun cat_loop :: "u16 \<Rightarrow> pbuf list \<Rightarrow> pbuf list \<Rightarrow> pbuf list" where
  "cat_loop tail_len [] t = t"
| "cat_loop tail_len (p # ps) t = p\<lparr>pb_tot_len := pb_tot_len p + tail_len\<rparr> # cat_loop tail_len ps t"

definition pbuf_cat :: "pbuf list \<Rightarrow> pbuf list \<Rightarrow> pbuf list" where
  "pbuf_cat h t = (if h = [] \<or> t = [] then h else cat_loop (pb_tot_len (hd t)) h t)"

section \<open>Lemmas\<close>

lemma pchain_hd_tot: "pchain_inv p \<Longrightarrow> p \<noteq> [] \<Longrightarrow> unat (pb_tot_len (hd p)) = length (chain_bytes p)"
  using pchain_tot_len by (cases p) auto

text \<open>A node whose total is what its bytes and the chain behind it have.\<close>

lemma pchain_ConsI:
  assumes "pchain_inv qs" "unat (pb_len q) = length (pb_payload q)" "unat (pb_tot_len q) = length (pb_payload q) + length (chain_bytes qs)"
  shows "pchain_inv (q # qs)"
  using assms pchain_hd_tot [of qs] by (cases qs) auto

text \<open>The last node \<open>p'\<close> keeps has to be trimmed, and \<open>mem_trim\<close> does not do it.\<close>

definition trim_fails :: "(nat \<Rightarrow> bool) \<Rightarrow> (nat \<Rightarrow> u16 \<Rightarrow> bool) \<Rightarrow> nat \<Rightarrow> pbuf list \<Rightarrow> pbuf list \<Rightarrow> bool" where
  "trim_fails on_heap trim i p p' =
     (let k = length p' - 1; l = pb_len (p' ! k)
      in on_heap (i + k) \<and> l \<noteq> pb_len (p ! k) \<and> \<not> trim (i + k) l)"

lemma trim_fails_simps [simp]:
  "trim_fails on_heap trim i (q # qs) [r] = (on_heap i \<and> pb_len r \<noteq> pb_len q \<and> \<not> trim i (pb_len r))"
  "rs \<noteq> [] \<Longrightarrow> trim_fails on_heap trim i (q # qs) (r # rs) = trim_fails on_heap trim (Suc i) qs rs"
proof -
  assume "rs \<noteq> []"
  then obtain k where "length rs = Suc k" by (cases rs) auto
  then show "trim_fails on_heap trim i (q # qs) (r # rs) = trim_fails on_heap trim (Suc i) qs rs" by (simp add: trim_fails_def Let_def)
qed (simp add: trim_fails_def Let_def)

lemma realloc_loop_spec:
  assumes "pchain_inv ps" "ps \<noteq> []" "unat rem + unat shrink = length (chain_bytes ps)"
  shows "\<exists>ps'. realloc_loop on_heap trim i ps rem shrink = (if trim_fails on_heap trim i ps ps' then None else Some ps')
     \<and> ps' \<noteq> [] \<and> pchain_inv ps' \<and> chain_bytes ps' = take (unat rem) (chain_bytes ps)"
  using assms
proof (induction on_heap trim i ps rem shrink rule: realloc_loop.induct)
  case (2 on_heap trim i q qs rem shrink)
  have q: "unat (pb_len q) = length (pb_payload q)" "pchain_inv qs" using "2.prems"(1) by auto
  have tot: "unat (pb_tot_len q) = length (pb_payload q) + length (chain_bytes qs)" using pchain_tot_len [OF "2.prems"(1)] by simp
  show ?case
  proof (cases "rem > pb_len q")
    case True
    then have r: "unat (rem - pb_len q) = unat rem - length (pb_payload q)" "length (pb_payload q) < unat rem"
      using q(1) by (simp_all add: unat_minus_le word_less_nat_alt less_imp_le)
    then have "qs \<noteq> []" using "2.prems"(3) by auto
    then obtain qs' where run: "realloc_loop on_heap trim (Suc i) qs (rem - pb_len q) shrink =
        (if trim_fails on_heap trim (Suc i) qs qs' then None else Some qs')" and ne: "qs' \<noteq> []"
      and ih: "pchain_inv qs'" "chain_bytes qs' = take (unat (rem - pb_len q)) (chain_bytes qs)"
      using "2.IH" [OF True q(2)] "2.prems"(3) r by auto
    have s: "unat (pb_tot_len q - shrink) = unat (pb_tot_len q) - unat shrink"
      using tot "2.prems"(3) r by (intro unat_minus_nat) simp
    have "pchain_inv (q\<lparr>pb_tot_len := pb_tot_len q - shrink\<rparr> # qs')"
      using ih q(1) r s tot "2.prems"(3) by (intro pchain_ConsI) auto
    with ih True r run ne show ?thesis by (intro exI [of _ "q\<lparr>pb_tot_len := pb_tot_len q - shrink\<rparr> # qs'"]) simp
  next
    case False
    then have "unat rem \<le> length (pb_payload q)" by (simp add: q(1) [symmetric] word_less_nat_alt)
    with False show ?thesis
      by (intro exI [of _ "[q\<lparr>pb_payload := take (unat rem) (pb_payload q), pb_len := rem, pb_tot_len := rem\<rparr>]"]) simp
  qed
qed simp

lemma realloc_spec:
  assumes "pchain_inv p" "p \<noteq> []"
  shows "\<exists>p'. pbuf_realloc on_heap trim p n =
       (if unat n < length (chain_bytes p) \<and> trim_fails on_heap trim 0 p p' then None else Some p')
     \<and> pchain_inv p' \<and> chain_bytes p' = take (unat n) (chain_bytes p)"
proof (cases "n \<ge> pb_tot_len (hd p)")
  case True
  then show ?thesis using assms pchain_hd_tot [OF assms] by (simp add: pbuf_realloc_def word_le_nat_alt)
next
  case False
  then have "unat (pb_tot_len (hd p) - n) = length (chain_bytes p) - unat n" "unat n < length (chain_bytes p)"
    using pchain_hd_tot [OF assms] by (simp_all add: unat_minus_nat word_le_nat_alt)
  with False assms(2) realloc_loop_spec [OF assms, of n "pb_tot_len (hd p) - n" on_heap trim 0] show ?thesis
    by (auto simp: pbuf_realloc_def)
qed

lemma remove_header_spec:
  assumes "pchain_inv p" "p \<noteq> []"
  shows "if k \<le> unat (pb_len (hd p))
    then \<exists>p'. pbuf_remove_header p k = (0, p') \<and> pchain_inv p' \<and> chain_bytes p' = drop k (chain_bytes p)
    else pbuf_remove_header p k = (1, p)"
proof -
  obtain q qs where p: "p = q # qs" using assms(2) by (cases p) auto
  have q: "unat (pb_len q) = length (pb_payload q)" "pchain_inv qs" using assms(1) p by auto
  have tot: "unat (pb_tot_len q) = length (pb_payload q) + length (chain_bytes qs)" using pchain_tot_len [of q qs] assms(1) p by simp
  consider (big) "k > 0xFFFF" | (zero) "k = 0" | (long) "unat (pb_len q) < k" "k \<le> 0xFFFF" | (ok) "0 < k" "k \<le> unat (pb_len q)"
    by linarith
  then show ?thesis
  proof cases
    case big
    then have "unat (pb_len q) < k" using unat_less_u16 [of "pb_len q"] by simp
    with big show ?thesis by (simp add: pbuf_remove_header_def p)
  next
    case zero
    with assms p show ?thesis by (simp add: pbuf_remove_header_def)
  next
    case long
    then have "\<not> (of_nat k :: u16) \<le> pb_len q" by (simp add: word_le_nat_alt unat_of_nat)
    with long show ?thesis by (simp add: pbuf_remove_header_def p)
  next
    case ok
    have k: "unat (of_nat k :: u16) = k" using ok(2) unat_less_u16 [of "pb_len q"] by (simp add: unat_of_nat)
    then have d: "unat (pb_len q - of_nat k) = unat (pb_len q) - k" "unat (pb_tot_len q - of_nat k) = unat (pb_tot_len q) - k"
      using ok(2) q(1) tot by (simp_all add: unat_minus_nat)
    define q' where "q' = q\<lparr>pb_payload := drop k (pb_payload q), pb_len := pb_len q - of_nat k, pb_tot_len := pb_tot_len q - of_nat k\<rparr>"
    have "pbuf_remove_header p k = (0, q' # qs)"
      using ok k unat_less_u16 [of "pb_len q"] by (simp add: pbuf_remove_header_def p q'_def word_le_nat_alt Let_def)
    moreover have "pchain_inv (q' # qs)" using d q tot ok(2) by (intro pchain_ConsI) (auto simp: q'_def)
    moreover have "chain_bytes (q' # qs) = drop k (chain_bytes p)" using ok(2) q(1) by (simp add: q'_def p)
    ultimately show ?thesis using ok(2) by (simp add: p)
  qed
qed

lemma free_header_spec:
  assumes "pchain_inv p"
  shows "pchain_inv (pbuf_free_header p n) \<and> chain_bytes (pbuf_free_header p n) = drop (unat n) (chain_bytes p)"
  using assms
proof (induction p n rule: pbuf_free_header.induct)
  case (2 q qs n)
  have q: "unat (pb_len q) = length (pb_payload q)" "pchain_inv qs" using "2.prems"(1) by auto
  consider (zero) "n = 0" | (all) "n \<noteq> 0" "n \<ge> pb_len q" | (part) "n \<noteq> 0" "\<not> n \<ge> pb_len q" by blast
  then show ?case
  proof cases
    case all
    then have "unat (n - pb_len q) = unat n - length (pb_payload q)" using q(1) by (simp add: unat_minus_le)
    with all 2 q show ?thesis by (simp add: word_le_nat_alt)
  next
    case part
    then have "unat n \<le> unat (pb_len q)" by (simp add: word_le_nat_alt)
    with part remove_header_spec [OF "2.prems", of "unat n"] show ?thesis by auto
  qed (use 2 in simp)
qed simp

lemma cat_spec:
  assumes "pchain_inv h" "pchain_inv t" "h \<noteq> []" "t \<noteq> []" "length (chain_bytes h) + length (chain_bytes t) < 2 ^ 16"
  shows "pchain_inv (pbuf_cat h t) \<and> chain_bytes (pbuf_cat h t) = chain_bytes h @ chain_bytes t"
proof -
  have tl: "unat (pb_tot_len (hd t)) = length (chain_bytes t)" by (rule pchain_hd_tot [OF assms(2,4)])
  have "pchain_inv (cat_loop (pb_tot_len (hd t)) h t) \<and> chain_bytes (cat_loop (pb_tot_len (hd t)) h t) = chain_bytes h @ chain_bytes t"
    using assms(1,5)
  proof (induction h)
    case (Cons p ps)
    have p: "unat (pb_len p) = length (pb_payload p)" "pchain_inv ps" using Cons.prems(1) by auto
    have "unat (pb_tot_len p) = length (pb_payload p) + length (chain_bytes ps)" using pchain_tot_len [of p ps] Cons.prems(1) by simp
    then have "unat (pb_tot_len p + pb_tot_len (hd t)) = length (pb_payload p) + length (chain_bytes ps) + length (chain_bytes t)"
      using Cons.prems(2) tl by (simp add: unat_word_ariths)
    with Cons.IH Cons.prems(2) p show ?case by (auto intro!: pchain_ConsI simp del: pchain_inv.simps)
  qed (use assms(2) in simp)
  with assms(3,4) show ?thesis by (simp add: pbuf_cat_def)
qed

section \<open>Properties\<close>

text \<open>
  C27. Cutting, dropping and joining work on the bytes of the packet and keep the length fields of every node
  right: \<open>pbuf_realloc\<close> keeps the first bytes, unless the node where they end has to be trimmed on the heap and
  \<open>mem_trim\<close> does not do it, which ends the program; \<open>pbuf_remove_header\<close> and \<open>pbuf_free_header\<close> drop bytes at the
  front (the former only inside the first node), \<open>pbuf_cat\<close> appends, as long as the sum fits the 16 bit total.
\<close>

theorem pbuf_chain_operations:
  assumes "pchain_inv p" "p \<noteq> []"
  shows "(\<exists>p'. pbuf_realloc on_heap trim p n =
           (if unat n < length (chain_bytes p) \<and> trim_fails on_heap trim 0 p p' then None else Some p')
         \<and> pchain_inv p' \<and> chain_bytes p' = take (unat n) (chain_bytes p))
     \<and> pchain_inv (pbuf_free_header p n) \<and> chain_bytes (pbuf_free_header p n) = drop (unat n) (chain_bytes p)
     \<and> (if k \<le> unat (pb_len (hd p))
        then \<exists>p'. pbuf_remove_header p k = (0, p') \<and> pchain_inv p' \<and> chain_bytes p' = drop k (chain_bytes p)
        else pbuf_remove_header p k = (1, p))
     \<and> (\<forall>t. pchain_inv t \<and> t \<noteq> [] \<and> length (chain_bytes p) + length (chain_bytes t) < 2 ^ 16 \<longrightarrow>
          pchain_inv (pbuf_cat p t) \<and> chain_bytes (pbuf_cat p t) = chain_bytes p @ chain_bytes t)"
  using realloc_spec [OF assms] free_header_spec [OF assms(1)] remove_header_spec [OF assms] cat_spec [OF assms(1) _ assms(2)] by blast

theorem pbuf_chain_operations_witness:
  "map_option chain_bytes (pbuf_realloc (\<lambda>i. True) (\<lambda>i l. True) pbuf_demo 4) = Some [1, 2, 3, 4]
     \<and> pbuf_realloc (\<lambda>i. True) (\<lambda>i l. False) pbuf_demo 4 = None
     \<and> chain_bytes (pbuf_free_header pbuf_demo 3) = [4, 5]
     \<and> chain_bytes (pbuf_cat pbuf_demo pbuf_demo) = [1, 2, 3, 4, 5, 1, 2, 3, 4, 5]"
proof -
  note a = pbuf_chain_operations [OF pbuf_demo(1,2), unfolded pbuf_demo(3)]
  have "map_option chain_bytes (pbuf_realloc (\<lambda>i. True) (\<lambda>i l. True) pbuf_demo 4) = Some [1, 2, 3, 4]"
    using a [of "\<lambda>i. True" "\<lambda>i l. True" 4 0] by (auto simp: trim_fails_def)
  moreover have "pbuf_realloc (\<lambda>i. True) (\<lambda>i l. False) pbuf_demo 4 = None" by code_simp
  ultimately show ?thesis using a [of _ _ 3 0] pbuf_demo by auto
qed

end
