(* ===== verification/Pbuf_Refs.thy ===== *)
theory Pbuf_Refs
  imports Prelude
begin

text \<open>
  Ownership of packet buffers (\<open>lwip/src/core/pbuf.c\<close>): the heap of nodes with their \<open>next\<close> pointers and
  8 bit reference counts. A freed node is not in the heap; every allocation source returns its memory alike,
  and custom nodes, whose free function the application supplies, are not considered. The result \<open>None\<close> of an
  operation is a pointer to a freed node that was followed, a failed assertion, which ends the program, or a loop that
  does not end.
\<close>

section \<open>Model\<close>

record pnode =
  pn_next :: "nat option"
  pn_tot_len :: u16
  pn_len :: u16
  pn_ref :: u8

type_synonym pheap = "nat \<Rightarrow> pnode option"

text \<open>The loop of \<open>pbuf_free\<close>: the count of freed nodes has 8 bits.\<close>

partial_function (option) free_loop :: "pheap \<Rightarrow> nat option \<Rightarrow> u8 \<Rightarrow> (u8 \<times> pheap) option" where
  "free_loop h p count =
     (case p of
        None \<Rightarrow> Some (count, h)
      | Some a \<Rightarrow>
          Option.bind (h a) (\<lambda>n.
            let ref = pn_ref n - 1
            in if \<not> pn_ref n > 0 then None
               else if ref = 0 then free_loop (h(a := None)) (pn_next n) (count + 1)
               else Some (count, h(a \<mapsto> n\<lparr>pn_ref := ref\<rparr>))))"

definition pbuf_free :: "pheap \<Rightarrow> nat option \<Rightarrow> (u8 \<times> pheap) option" where
  "pbuf_free h p = (if p = None then None else free_loop h p 0)"

definition pbuf_ref :: "pheap \<Rightarrow> nat option \<Rightarrow> pheap option" where
  "pbuf_ref h p =
     (case p of
        None \<Rightarrow> Some h
      | Some a \<Rightarrow> Option.bind (h a) (\<lambda>n.
          if \<not> pn_ref n + 1 > 0 then None else Some (h(a \<mapsto> n\<lparr>pn_ref := pn_ref n + 1\<rparr>))))"

definition pbuf_dechain :: "pheap \<Rightarrow> nat \<Rightarrow> (nat option \<times> pheap) option" where
  "pbuf_dechain h p =
     Option.bind (h p) (\<lambda>n.
       case pn_next n of
         None \<Rightarrow> if pn_tot_len n = pn_len n then Some (None, h) else None
       | Some q \<Rightarrow>
           Option.bind (h q) (\<lambda>m.
             if uint (pn_tot_len m) \<noteq> uint (pn_tot_len n) - uint (pn_len n) then None
             else
               (let h1 = h(q \<mapsto> m\<lparr>pn_tot_len := pn_tot_len n - pn_len n\<rparr>);
                    h2 = h1(p \<mapsto> n\<lparr>pn_next := None, pn_tot_len := pn_len n\<rparr>)
                in Option.bind (pbuf_free h2 (Some q)) (\<lambda>(tail_gone, h3).
                     Option.bind (h3 p) (\<lambda>n'.
                       if pn_tot_len n' = pn_len n' then Some (if tail_gone > 0 then None else Some q, h3) else None)))))"

text \<open>Joining two chains: \<open>pbuf_cat\<close> takes over the reference to the tail, \<open>pbuf_chain\<close> adds one.\<close>

partial_function (option) cat_walk :: "pheap \<Rightarrow> nat \<Rightarrow> nat \<Rightarrow> pheap option" where
  "cat_walk h p t =
     Option.bind (h p) (\<lambda>n. Option.bind (h t) (\<lambda>m.
       let n1 = n\<lparr>pn_tot_len := pn_tot_len n + pn_tot_len m\<rparr>
       in case pn_next n of
            None \<Rightarrow> if pn_tot_len n = pn_len n then Some (h(p \<mapsto> n1\<lparr>pn_next := Some t\<rparr>)) else None
          | Some q \<Rightarrow> cat_walk (h(p \<mapsto> n1)) q t))"

definition cat_heads :: "pheap \<Rightarrow> nat option \<Rightarrow> nat option \<Rightarrow> pheap option" where
  "cat_heads h p t = (case (p, t) of (Some a, Some b) \<Rightarrow> cat_walk h a b | _ \<Rightarrow> Some h)"

definition pbuf_chain :: "pheap \<Rightarrow> nat option \<Rightarrow> nat option \<Rightarrow> pheap option" where
  "pbuf_chain h p t = Option.bind (cat_heads h p t) (\<lambda>h1. pbuf_ref h1 t)"

section \<open>The count of references\<close>

definition preds :: "pheap \<Rightarrow> nat \<Rightarrow> nat set" where
  "preds h a = {b. \<exists>n. h b = Some n \<and> pn_next n = Some a}"

text \<open>
  The invariant stated in \<open>lwip/pbuf.h\<close>: the count of a node is the number of pointers to it, which are those of
  other nodes and those \<open>ext\<close> counts: the application's and the stack's. \<open>extra\<close> names a node
  with one reference that has just been given up.
\<close>

definition refs_inv :: "pheap \<Rightarrow> (nat \<Rightarrow> nat) \<Rightarrow> nat option \<Rightarrow> bool" where
  "refs_inv h ext extra \<longleftrightarrow>
     finite (dom h)
     \<and> (\<forall>a n. h a = Some n \<longrightarrow> unat (pn_ref n) = ext a + card (preds h a) + (if extra = Some a then 1 else 0))
     \<and> (\<forall>a n b. h a = Some n \<and> pn_next n = Some b \<longrightarrow> b \<in> dom h)
     \<and> (\<forall>a. 0 < ext a \<longrightarrow> a \<in> dom h) \<and> (\<forall>a. extra = Some a \<longrightarrow> a \<in> dom h)"

lemma preds_finite: "finite (dom h) \<Longrightarrow> finite (preds h a)"
  by (rule finite_subset [of _ "dom h"]) (auto simp: preds_def)

lemma preds_remove: "preds (h(a := None)) b = preds h b - {a}"
  by (auto simp: preds_def)

lemma preds_keep: "h a = Some n \<Longrightarrow> pn_next n' = pn_next n \<Longrightarrow> preds (h(a \<mapsto> n')) b = preds h b"
  by (auto simp: preds_def)

lemma preds_cut:
  assumes "h a = Some n" "pn_next n = Some q" "pn_next n' = None"
  shows "preds (h(a \<mapsto> n')) b = (if b = q then preds h b - {a} else preds h b)"
  using assms by (auto simp: preds_def)

lemma refs_inv_release:
  assumes "refs_inv h ext None" "0 < ext a"
  shows "refs_inv h (ext(a := ext a - 1)) (Some a)"
  using assms by (auto simp: refs_inv_def)

lemma refs_inv_positive: "refs_inv h ext (Some a) \<Longrightarrow> h a = Some n \<Longrightarrow> 0 < pn_ref n"
  by (auto simp: refs_inv_def unat_pos_iff)

lemma refs_inv_decrement:
  assumes "refs_inv h ext (Some a)" "h a = Some n" "pn_ref n - 1 \<noteq> 0"
  shows "refs_inv (h(a \<mapsto> n\<lparr>pn_ref := pn_ref n - 1\<rparr>)) ext None"
proof -
  have "unat (pn_ref n) = ext a + card (preds h a) + 1" using assms(1,2) by (simp add: refs_inv_def)
  then have "unat (pn_ref n - 1) = ext a + card (preds h a)" by (subst unat_minus_nat) simp_all
  moreover have "preds (h(a \<mapsto> n\<lparr>pn_ref := pn_ref n - 1\<rparr>)) b = preds h b" for b
    using preds_keep [of h a n] assms(2) by simp
  ultimately show ?thesis using assms(1,2) unfolding refs_inv_def by auto
qed

lemma refs_inv_remove:
  assumes "refs_inv h ext (Some a)" "h a = Some n" "pn_ref n - 1 = 0"
  shows "refs_inv (h(a := None)) ext (pn_next n)"
proof -
  have r: "unat (pn_ref n) = ext a + card (preds h a) + 1" using assms(1,2) by (simp add: refs_inv_def)
  moreover have "pn_ref n = 1" using assms(3) by simp
  ultimately have "ext a = 0" "card (preds h a) = 0" by simp_all
  then have z: "ext a = 0" "preds h a = {}" using assms(1) preds_finite by (auto simp: refs_inv_def)
  have dom: "dom (h(a := None)) = dom h - {a}" by auto
  have c: "card (preds h b) = card (preds h b - {a}) + (if pn_next n = Some b then 1 else 0)" if "finite (dom h)" for b
  proof -
    have "a \<in> preds h b \<longleftrightarrow> pn_next n = Some b" using assms(2) by (auto simp: preds_def)
    then show ?thesis using card_Suc_Diff1 [OF preds_finite [OF that], of a b] by (cases "a \<in> preds h b") auto
  qed
  have no: "b \<noteq> a" if "h d = Some m" "pn_next m = Some b" for d m b using z(2) that by (auto simp: preds_def)
  show ?thesis using assms(1,2) z(1) c no unfolding refs_inv_def preds_remove dom by (auto simp: fun_upd_def)
qed

lemma free_loop_spec:
  assumes "refs_inv h ext p"
  shows "\<exists>count' h'. free_loop h p count = Some (count', h') \<and> refs_inv h' ext None \<and> dom h' \<subseteq> dom h
    \<and> count' = count + of_nat (card (dom h - dom h'))"
  using assms
proof (induction "card (dom h)" arbitrary: h p count rule: less_induct)
  case less
  show ?case
  proof (cases p)
    case None
    with less.prems show ?thesis by (simp add: free_loop.simps)
  next
    case (Some a)
    then obtain n where n: "h a = Some n" using less.prems by (auto simp: refs_inv_def)
    have pos: "0 < pn_ref n" using refs_inv_positive [OF less.prems [unfolded Some] n] .
    show ?thesis
    proof (cases "pn_ref n - 1 = 0")
      case True
      have fin: "finite (dom h)" using less.prems by (simp add: refs_inv_def)
      have d: "dom (h(a := None)) = dom h - {a}" "a \<in> dom h" using n by auto
      then have "card (dom (h(a := None))) < card (dom h)" using card_Diff1_less [OF fin d(2)] by simp
      from less.hyps [OF this refs_inv_remove [OF less.prems [unfolded Some] n True], of "count + 1"] obtain count' h' where
        r: "free_loop (h(a := None)) (pn_next n) (count + 1) = Some (count', h')" "refs_inv h' ext None" "dom h' \<subseteq> dom h - {a}"
          "count' = count + 1 + of_nat (card (dom h - {a} - dom h'))" unfolding d(1) by auto
      have "dom h - dom h' = insert a (dom h - {a} - dom h')" using r(3) d(2) by auto
      then have "card (dom h - dom h') = Suc (card (dom h - {a} - dom h'))" using fin by (simp add: card_insert_disjoint)
      moreover have "free_loop h p count = free_loop (h(a := None)) (pn_next n) (count + 1)"
        using True n Some pos by (simp add: free_loop.simps [of h "Some a"])
      ultimately show ?thesis using r by auto
    next
      case False
      have "free_loop h p count = Some (count, h(a \<mapsto> n\<lparr>pn_ref := pn_ref n - 1\<rparr>))"
        using False n Some pos by (simp add: free_loop.simps [of h "Some a"] Let_def)
      moreover have "dom (h(a \<mapsto> n\<lparr>pn_ref := pn_ref n - 1\<rparr>)) = dom h" using n by auto
      ultimately show ?thesis using refs_inv_decrement [OF less.prems [unfolded Some] n False] by auto
    qed
  qed
qed

lemma pbuf_free_spec:
  assumes "refs_inv h ext None" "0 < ext a"
  shows "\<exists>h'. pbuf_free h (Some a) = Some (of_nat (card (dom h - dom h')), h') \<and> refs_inv h' (ext(a := ext a - 1)) None \<and> dom h' \<subseteq> dom h"
  using free_loop_spec [OF refs_inv_release [OF assms], of 0] by (auto simp: pbuf_free_def)

lemma free_loop_first:
  assumes "free_loop h (Some a) count = Some (c, h')" "refs_inv h ext (Some a)"
  shows "a \<in> dom h' \<longleftrightarrow> dom h' = dom h"
proof -
  obtain n where n: "h a = Some n" using assms(2) by (auto simp: refs_inv_def)
  have pos: "0 < pn_ref n" using refs_inv_positive [OF assms(2) n] .
  show ?thesis
  proof (cases "pn_ref n - 1 = 0")
    case True
    then have "free_loop (h(a := None)) (pn_next n) (count + 1) = Some (c, h')"
      using assms(1) n pos by (simp add: free_loop.simps [of h])
    then have "dom h' \<subseteq> dom h - {a}"
      using free_loop_spec [OF refs_inv_remove [OF assms(2) n True], of "count + 1"] by auto
    then show ?thesis using n by auto
  next
    case False
    then have "h' = h(a \<mapsto> n\<lparr>pn_ref := pn_ref n - 1\<rparr>)" using assms(1) n pos by (simp add: free_loop.simps [of h] Let_def)
    then show ?thesis using n by (simp add: insert_absorb domI)
  qed
qed

text \<open>Freeing changes nothing of a node that stays but its count.\<close>

lemma free_loop_fields:
  assumes "free_loop h p count = Some (c, h')" "h' b = Some n'"
  shows "\<exists>n. h b = Some n \<and> pn_next n' = pn_next n \<and> pn_tot_len n' = pn_tot_len n \<and> pn_len n' = pn_len n"
proof -
  let ?kept = "\<lambda>h h'. \<forall>b n'. h' b = Some n' \<longrightarrow>
    (\<exists>n. h b = Some n \<and> pn_next n' = pn_next n \<and> pn_tot_len n' = pn_tot_len n \<and> pn_len n' = pn_len n)"
  have "?kept h (snd (c, h'))"
  proof (rule free_loop.raw_induct [OF _ assms(1), where P = "\<lambda>h p count res. ?kept h (snd res)"], goal_cases)
    case (1 free h p count res)
    show ?case
    proof (cases p)
      case None
      then show ?thesis using 1(2) by auto
    next
      case (Some a)
      then obtain n where n: "h a = Some n" using 1(2) by (auto simp: bind_eq_Some_conv)
      show ?thesis
      proof (cases "pn_ref n - 1 = 0")
        case True
        then have "free (h(a := None)) (pn_next n) (count + 1) = Some res"
          using 1(2) Some n by (auto split: if_splits)
        from 1(1) [OF this] show ?thesis by (metis fun_upd_apply option.discI)
      next
        case False
        then have "res = (count, h(a \<mapsto> n\<lparr>pn_ref := pn_ref n - 1\<rparr>))" using 1(2) Some n by (auto simp: Let_def split: if_splits)
        then show ?thesis using n by auto
      qed
    qed
  qed
  with assms(2) show ?thesis by simp
qed

lemma pbuf_ref_spec:
  assumes "refs_inv h ext None" "h a = Some n" "unat (pn_ref n) < 255"
  shows "\<exists>h'. pbuf_ref h (Some a) = Some h' \<and> refs_inv h' (ext(a := ext a + 1)) None \<and> dom h' = dom h"
proof -
  let ?h = "h(a \<mapsto> n\<lparr>pn_ref := pn_ref n + 1\<rparr>)"
  have "unat (pn_ref n + 1) = unat (pn_ref n) + 1" using assms(3) by (simp add: unat_word_ariths)
  moreover have "preds ?h b = preds h b" for b using preds_keep [of h a n] assms(2) by simp
  moreover have "dom ?h = dom h" using assms(2) by auto
  ultimately have "refs_inv ?h (ext(a := ext a + 1)) None" using assms(1,2) unfolding refs_inv_def by auto
  moreover have "0 < pn_ref n + 1" using \<open>unat (pn_ref n + 1) = unat (pn_ref n) + 1\<close> by (simp add: unat_pos_iff)
  ultimately show ?thesis using assms(2) \<open>dom ?h = dom h\<close> by (simp add: pbuf_ref_def)
qed

lemma pbuf_dechain_spec:
  assumes "refs_inv h ext None" "0 < ext p" "h p = Some n" "pn_next n = Some q" "h q = Some m"
    "unat (pn_tot_len n) = unat (pn_len n) + unat (pn_tot_len m)"
  shows "\<exists>r h'. pbuf_dechain h p = Some (r, h') \<and> refs_inv h' ext None \<and> dom h' \<subseteq> dom h
    \<and> (q \<in> dom h' \<longleftrightarrow> dom h' = dom h) \<and> r = (if card (dom h - dom h') mod 256 = 0 then Some q else None)"
proof -
  note m = assms(5)
  let ?h1 = "h(q \<mapsto> m\<lparr>pn_tot_len := pn_tot_len n - pn_len n\<rparr>)"
  let ?n = "n\<lparr>pn_next := None, pn_tot_len := pn_len n\<rparr>"
  let ?h2 = "?h1(p \<mapsto> ?n)"
  have d: "dom ?h2 = dom h" using assms(3) m by auto
  have p1: "preds ?h1 b = preds h b" for b using preds_keep [of h q m] m by simp
  have p2: "preds ?h2 b = (if b = q then preds h b - {p} else preds h b)" for b
  proof (cases "p = q")
    case True
    then have "?h2 = h(p \<mapsto> ?n)" by simp
    then show ?thesis using preds_cut [of h p n q ?n b] assms(3,4) by simp
  next
    case False
    then show ?thesis using preds_cut [of ?h1 p n q ?n b] assms(3,4) p1 by simp
  qed
  have fin: "finite (dom h)" using assms(1) by (simp add: refs_inv_def)
  have "p \<in> preds h q" using assms(3,4) by (auto simp: preds_def)
  then have c: "card (preds h q) = card (preds h q - {p}) + 1" using card_Suc_Diff1 [OF preds_finite [OF fin]] by simp
  have inv2: "refs_inv ?h2 ext (Some q)"
    unfolding refs_inv_def d p2 using assms(1,3) m c by (auto simp: refs_inv_def split: if_splits)
  from free_loop_spec [OF this, of 0] obtain h' where
    r: "free_loop ?h2 (Some q) 0 = Some (of_nat (card (dom h - dom h')), h')" "refs_inv h' ext None" "dom h' \<subseteq> dom h"
    unfolding d by auto
  have "p \<in> dom h'" using r(2) assms(2) by (simp add: refs_inv_def)
  then obtain n' where n': "h' p = Some n'" by blast
  have same: "pn_tot_len n' = pn_len n'" using free_loop_fields [OF r(1) n'] by auto
  have fits: "uint (pn_tot_len m) = uint (pn_tot_len n) - uint (pn_len n)" unfolding uint_nat using assms(6) by linarith
  have z: "(0 :: u8) < of_nat k \<longleftrightarrow> k mod 256 \<noteq> 0" for k by (simp add: word_less_nat_alt unat_of_nat)
  have tail: "pbuf_free ?h2 (Some q) = Some (of_nat (card (dom h - dom h')), h')" using r(1) by (simp add: pbuf_free_def)
  have "pbuf_dechain h p = Some (if (0 :: u8) < of_nat (card (dom h - dom h')) then None else Some q, h')"
    using assms(3,4) m fits same n' by (simp add: pbuf_dechain_def tail Let_def del: fun_upd_apply)
  then have "pbuf_dechain h p = Some (if card (dom h - dom h') mod 256 = 0 then Some q else None, h')"
    by (simp add: z)
  then show ?thesis using r free_loop_first [OF r(1) inv2] unfolding d by blast
qed

text \<open>The nodes from a node to the end of its chain.\<close>

fun chain_from :: "pheap \<Rightarrow> nat \<Rightarrow> nat list \<Rightarrow> bool" where
  "chain_from h p [] = False"
| "chain_from h p [x] = (x = p \<and> (\<exists>n. h p = Some n \<and> pn_next n = None \<and> pn_tot_len n = pn_len n))"
| "chain_from h p (x # y # xs) = (x = p \<and> (\<exists>n. h p = Some n \<and> pn_next n = Some y) \<and> chain_from h y (y # xs))"

lemma chain_from_upd: "chain_from h q xs \<Longrightarrow> p \<notin> set xs \<Longrightarrow> chain_from (h(p \<mapsto> n)) q xs"
  by (induction h q xs rule: chain_from.induct) auto

lemma refs_inv_lengths:
  assumes "refs_inv h ext extra" "h p = Some n" "pn_next n' = pn_next n" "pn_ref n' = pn_ref n"
  shows "refs_inv (h(p \<mapsto> n')) ext extra"
proof -
  have "dom (h(p \<mapsto> n')) = dom h" using assms(2) by auto
  moreover have "preds (h(p \<mapsto> n')) b = preds h b" for b using preds_keep [of h p n n' b] assms(2,3) by simp
  ultimately show ?thesis using assms unfolding refs_inv_def by auto
qed

lemma refs_inv_link:
  assumes "refs_inv h ext None" "h p = Some n" "pn_next n = None" "pn_next n' = Some t" "pn_ref n' = pn_ref n" "0 < ext t" "t \<noteq> p"
  shows "refs_inv (h(p \<mapsto> n')) (ext(t := ext t - 1)) None"
proof -
  have d: "dom (h(p \<mapsto> n')) = dom h" using assms(2) by auto
  have "finite (dom h)" "t \<in> dom h" using assms(1,6) by (auto simp: refs_inv_def)
  have preds: "preds (h(p \<mapsto> n')) b = (if b = t then insert p (preds h b) else preds h b)" for b
    using assms(2-4) by (auto simp: preds_def)
  have "p \<notin> preds h t" using assms(2,3) by (auto simp: preds_def)
  then have c: "card (insert p (preds h t)) = Suc (card (preds h t))"
    using preds_finite [OF \<open>finite (dom h)\<close>] by simp
  show ?thesis
    unfolding refs_inv_def d preds using assms c \<open>t \<in> dom h\<close> by (auto simp: refs_inv_def split: if_splits)
qed

lemma cat_walk_spec:
  assumes "chain_from h p ps" "refs_inv h ext None" "0 < ext t" "t \<notin> set ps" "distinct ps"
  shows "\<exists>h'. cat_walk h p t = Some h' \<and> refs_inv h' (ext(t := ext t - 1)) None \<and> dom h' = dom h
    \<and> (\<forall>m. h t = Some m \<longrightarrow> h' t = Some m)"
  using assms
proof (induction ps arbitrary: h p)
  case (Cons x ps)
  have "t \<in> dom h" using Cons.prems(2,3) by (simp add: refs_inv_def)
  then obtain m where m: "h t = Some m" by blast
  have x: "x = p" "t \<noteq> p" using Cons.prems(1,4) by (cases ps; auto)+
  show ?case
  proof (cases ps)
    case Nil
    then obtain n where n: "h p = Some n" "pn_next n = None" "pn_tot_len n = pn_len n" using Cons.prems(1) by auto
    let ?n = "n\<lparr>pn_tot_len := pn_tot_len n + pn_tot_len m, pn_next := Some t\<rparr>"
    have "cat_walk h p t = Some (h(p \<mapsto> ?n))" using n m by (subst cat_walk.simps) (simp add: Let_def)
    moreover have "refs_inv (h(p \<mapsto> ?n)) (ext(t := ext t - 1)) None"
      using refs_inv_link [OF Cons.prems(2) n(1,2) _ _ Cons.prems(3) x(2), of ?n] by simp
    moreover have "dom (h(p \<mapsto> ?n)) = dom h" using n(1) by auto
    moreover have "(h(p \<mapsto> ?n)) t = h t" using x(2) by simp
    ultimately show ?thesis by (metis (no_types, lifting))
  next
    case (Cons y ys)
    then obtain n where n: "h p = Some n" "pn_next n = Some y" "chain_from h y ps" using Cons.prems(1) by auto
    let ?h = "h(p \<mapsto> n\<lparr>pn_tot_len := pn_tot_len n + pn_tot_len m\<rparr>)"
    have run: "cat_walk h p t = cat_walk ?h y t" using n(1,2) m by (subst cat_walk.simps) (simp add: Let_def)
    have inv: "refs_inv ?h ext None" by (rule refs_inv_lengths [OF Cons.prems(2) n(1)]) simp_all
    have chain: "chain_from ?h y ps" by (rule chain_from_upd [OF n(3)]) (use Cons.prems(5) x in auto)
    have d: "dom ?h = dom h" "?h t = h t" using n(1) x(2) by auto
    have "t \<notin> set ps" "distinct ps" using Cons.prems(4,5) by simp_all
    from Cons.IH [OF chain inv Cons.prems(3) this] show ?thesis unfolding run d .
  qed
qed simp

text \<open>So both ways of joining keep the counts right.\<close>

lemma join_counts:
  assumes "chain_from h p ps" "refs_inv h ext None" "0 < ext t" "t \<notin> set ps" "distinct ps" "h t = Some m" "unat (pn_ref m) < 255"
  shows "\<exists>h'. cat_heads h (Some p) (Some t) = Some h' \<and> refs_inv h' (ext(t := ext t - 1)) None"
    "\<exists>h'. pbuf_chain h (Some p) (Some t) = Some h' \<and> refs_inv h' ext None"
proof -
  obtain h' where h': "cat_walk h p t = Some h'" "refs_inv h' (ext(t := ext t - 1)) None" "h' t = Some m"
    using cat_walk_spec [OF assms(1-5)] assms(6) by auto
  then show "\<exists>h'. cat_heads h (Some p) (Some t) = Some h' \<and> refs_inv h' (ext(t := ext t - 1)) None" by (simp add: cat_heads_def)
  have same: "(ext(t := ext t - 1))(t := (ext(t := ext t - 1)) t + 1) = ext" using assms(3) by auto
  obtain h2 where "pbuf_ref h' (Some t) = Some h2" "refs_inv h2 ((ext(t := ext t - 1))(t := (ext(t := ext t - 1)) t + 1)) None"
    using pbuf_ref_spec [OF h'(2,3) assms(7)] by blast
  then show "\<exists>h'. pbuf_chain h (Some p) (Some t) = Some h' \<and> refs_inv h' ext None"
    unfolding same using h'(1) by (simp add: pbuf_chain_def cat_heads_def)
qed

section \<open>Properties\<close>

lemma dechain_counts:
  assumes "refs_inv h ext None" "0 < ext p" "h p = Some n"
  shows "pn_next n = Some q \<and> h q = Some m \<and> unat (pn_tot_len n) = unat (pn_len n) + unat (pn_tot_len m) \<longrightarrow>
      (\<exists>r h'. pbuf_dechain h p = Some (r, h') \<and> refs_inv h' ext None \<and> dom h' \<subseteq> dom h
        \<and> (q \<in> dom h' \<longleftrightarrow> dom h' = dom h) \<and> r = (if card (dom h - dom h') mod 256 = 0 then Some q else None))"
    "pn_next n = None \<and> pn_tot_len n = pn_len n \<longrightarrow> pbuf_dechain h p = Some (None, h)"
  using pbuf_dechain_spec [OF assms(1-3), of q m] assms(3) by (blast, simp add: pbuf_dechain_def)

text \<open>
  C28. References are counted right: on a heap where the count of every node is the number of pointers to it,
  giving a reference back with \<open>pbuf_free\<close> always ends, never follows a pointer to a freed node, frees no node
  that is still referenced and leaves the counts right again; so does taking one with \<open>pbuf_ref\<close> below 255, and so
  do joining a chain to another, which takes over the reference to it, and chaining, which takes one of its own.
  So does \<open>pbuf_dechain\<close> on a node that is referenced, if its length is the sum its chain has; it
  returns the tail when it freed no node and NULL when it freed some, except that its test reads a count of 8
  bits: after freeing a multiple of 256 nodes it returns the pointer to a freed node.
\<close>

theorem pbuf_references_counted:
  assumes "refs_inv h ext None" "0 < ext a"
  shows "(\<exists>count h'. pbuf_free h (Some a) = Some (count, h') \<and> refs_inv h' (ext(a := ext a - 1)) None \<and> dom h' \<subseteq> dom h
         \<and> (\<forall>b. 0 < (ext(a := ext a - 1)) b \<longrightarrow> b \<in> dom h') \<and> count = of_nat (card (dom h - dom h')))
     \<and> (unat (pn_ref (the (h a))) < 255 \<longrightarrow>
         (\<exists>h'. pbuf_ref h (Some a) = Some h' \<and> refs_inv h' (ext(a := ext a + 1)) None))
     \<and> (\<forall>p ps. chain_from h p ps \<and> distinct ps \<and> a \<notin> set ps \<and> unat (pn_ref (the (h a))) < 255 \<longrightarrow>
         (\<exists>h'. cat_heads h (Some p) (Some a) = Some h' \<and> refs_inv h' (ext(a := ext a - 1)) None) \<and>
         (\<exists>h'. pbuf_chain h (Some p) (Some a) = Some h' \<and> refs_inv h' ext None))
     \<and> (\<forall>n q m. h a = Some n \<and> pn_next n = Some q \<and> h q = Some m \<and> unat (pn_tot_len n) = unat (pn_len n) + unat (pn_tot_len m) \<longrightarrow>
         (\<exists>r h'. pbuf_dechain h a = Some (r, h') \<and> refs_inv h' ext None \<and> dom h' \<subseteq> dom h \<and> (q \<in> dom h' \<longleftrightarrow> dom h' = dom h)
           \<and> r = (if card (dom h - dom h') mod 256 = 0 then Some q else None)))
     \<and> (\<forall>n. h a = Some n \<and> pn_next n = None \<and> pn_tot_len n = pn_len n \<longrightarrow> pbuf_dechain h a = Some (None, h))"
proof -
  have "a \<in> dom h" using assms unfolding refs_inv_def by blast
  then obtain n where n: "h a = Some n" by blast
  obtain h' where h': "pbuf_free h (Some a) = Some (of_nat (card (dom h - dom h')), h')" "refs_inv h' (ext(a := ext a - 1)) None"
    "dom h' \<subseteq> dom h" using pbuf_free_spec [OF assms] by blast
  have ext: "\<forall>b. 0 < (ext(a := ext a - 1)) b \<longrightarrow> b \<in> dom h'" using h'(2) by (simp only: refs_inv_def) blast
  have taken: "unat (pn_ref (the (h a))) < 255 \<longrightarrow> (\<exists>h'. pbuf_ref h (Some a) = Some h' \<and> refs_inv h' (ext(a := ext a + 1)) None)"
    using pbuf_ref_spec [OF assms(1) n] n by auto
  have joined: "\<forall>p ps. chain_from h p ps \<and> distinct ps \<and> a \<notin> set ps \<and> unat (pn_ref (the (h a))) < 255 \<longrightarrow>
      (\<exists>h'. cat_heads h (Some p) (Some a) = Some h' \<and> refs_inv h' (ext(a := ext a - 1)) None) \<and>
      (\<exists>h'. pbuf_chain h (Some p) (Some a) = Some h' \<and> refs_inv h' ext None)"
    using join_counts [OF _ assms _ _ n] n by (simp del: fun_upd_apply) blast
  note dechained = dechain_counts [OF assms]
  show ?thesis
    by (intro conjI allI impI; (elim conjE)?) (use h' ext taken joined dechained in blast)+
qed

text \<open>A chain of two nodes whose second node the application holds as well.\<close>

definition refs_demo :: pheap where
  "refs_demo = [0 \<mapsto> \<lparr>pn_next = Some 1, pn_tot_len = 5, pn_len = 2, pn_ref = 1\<rparr>,
     1 \<mapsto> \<lparr>pn_next = None, pn_tot_len = 3, pn_len = 3, pn_ref = 2\<rparr>]"

lemma refs_demo_inv: "refs_inv refs_demo (\<lambda>a. if a < 2 then 1 else 0) None"
proof -
  have "preds refs_demo a = (if a = 1 then {0} else {})" for a by (auto simp: preds_def refs_demo_def split: if_splits)
  then show ?thesis by (auto simp: refs_inv_def refs_demo_def split: if_splits)
qed

theorem pbuf_references_counted_witness:
  "(\<exists>count h'. pbuf_free refs_demo (Some 0) = Some (count, h') \<and> 1 \<in> dom h')
    \<and> (\<exists>r h'. pbuf_dechain refs_demo 0 = Some (r, h') \<and> refs_inv h' (\<lambda>a. if a < 2 then 1 else 0) None)"
proof -
  note c = pbuf_references_counted [OF refs_demo_inv, of 0, simplified]
  have "refs_demo 0 = Some \<lparr>pn_next = Some 1, pn_tot_len = 5, pn_len = 2, pn_ref = 1\<rparr>"
    "refs_demo 1 = Some \<lparr>pn_next = None, pn_tot_len = 3, pn_len = 3, pn_ref = 2\<rparr>" by (simp_all add: refs_demo_def)
  with c show ?thesis by fastforce
qed

end
