(* ===== verification/Lwip_Heap.thy ===== *)
theory Lwip_Heap
  imports Memory
begin

text \<open>
  The heap of lwIP (\<open>lwip/src/core/mem.c\<close>), from which packet buffers and segments are taken, on the bytes of its
  array. A \<open>struct mem\<close> lies in front of each block: \<open>next\<close> at 0, \<open>prev\<close> at 2, both 16 bit offsets, and \<open>used\<close> at
  4, aligned to 8 bytes. A pointer is its distance from \<open>ram\<close>, which is aligned to 4. A failed assertion ends the
  program and is \<open>None\<close>; so is an illegal free. The statistics counters are left out.
\<close>

section \<open>Model\<close>

definition MEM_SIZE_ALIGNED :: nat where "MEM_SIZE_ALIGNED = 10240"
definition SIZEOF_STRUCT_MEM :: nat where "SIZEOF_STRUCT_MEM = 8"
definition MIN_SIZE_ALIGNED :: nat where "MIN_SIZE_ALIGNED = 12"
definition MEM_ALIGNMENT :: nat where "MEM_ALIGNMENT = 4"

lemmas heap_consts = MEM_SIZE_ALIGNED_def SIZEOF_STRUCT_MEM_def MIN_SIZE_ALIGNED_def MEM_ALIGNMENT_def

definition mem_next :: "mem \<Rightarrow> nat \<Rightarrow> nat" where "mem_next m p = le_nat (mload m p 2)"
definition mem_prev :: "mem \<Rightarrow> nat \<Rightarrow> nat" where "mem_prev m p = le_nat (mload m (p + 2) 2)"
definition mem_used :: "mem \<Rightarrow> nat \<Rightarrow> byte" where "mem_used m p = m (p + 4)"

definition set_mem_next :: "mem \<Rightarrow> nat \<Rightarrow> nat \<Rightarrow> mem" where "set_mem_next m p n = mstore m p (le_bytes 2 n)"
definition set_mem_prev :: "mem \<Rightarrow> nat \<Rightarrow> nat \<Rightarrow> mem" where "set_mem_prev m p n = mstore m (p + 2) (le_bytes 2 n)"
definition set_mem_used :: "mem \<Rightarrow> nat \<Rightarrow> byte \<Rightarrow> mem" where "set_mem_used m p v = m(p + 4 := v)"

record heap =
  ram :: mem
  lfree :: nat

text \<open>The two halves of \<open>plug_holes\<close>: joining a free block with a free successor and with a free predecessor.\<close>

definition plug_forward :: "nat \<Rightarrow> heap \<Rightarrow> heap" where
  "plug_forward p h =
     (let m = ram h; nmem = mem_next m p
      in if p \<noteq> nmem \<and> mem_used m nmem = 0 \<and> nmem \<noteq> MEM_SIZE_ALIGNED
         then (let m1 = set_mem_next m p (mem_next m nmem)
               in \<lparr>ram = (if mem_next m1 nmem \<noteq> MEM_SIZE_ALIGNED then set_mem_prev m1 (mem_next m1 nmem) p else m1),
                   lfree = (if lfree h = nmem then p else lfree h)\<rparr>)
         else h)"

definition plug_backward :: "nat \<Rightarrow> heap \<Rightarrow> heap" where
  "plug_backward p h =
     (let m = ram h; pmem = mem_prev m p
      in if pmem \<noteq> p \<and> mem_used m pmem = 0
         then (let m1 = set_mem_next m pmem (mem_next m p)
               in \<lparr>ram = (if mem_next m1 p \<noteq> MEM_SIZE_ALIGNED then set_mem_prev m1 (mem_next m1 p) pmem else m1),
                   lfree = (if lfree h = p then pmem else lfree h)\<rparr>)
         else h)"

definition plug_holes :: "nat \<Rightarrow> heap \<Rightarrow> heap option" where
  "plug_holes p h =
     (if \<not> p < MEM_SIZE_ALIGNED \<or> mem_used (ram h) p \<noteq> 0 \<or> \<not> mem_next (ram h) p \<le> MEM_SIZE_ALIGNED then None
      else Some (plug_backward p (plug_forward p h)))"

definition mem_init :: "mem \<Rightarrow> heap" where
  "mem_init m =
     (let m1 = set_mem_used (set_mem_prev (set_mem_next m 0 MEM_SIZE_ALIGNED) 0 0) 0 0;
          ram_end = MEM_SIZE_ALIGNED;
          m2 = set_mem_prev (set_mem_next (set_mem_used m1 ram_end 1) ram_end MEM_SIZE_ALIGNED) ram_end MEM_SIZE_ALIGNED
      in \<lparr>ram = m2, lfree = 0\<rparr>)"

definition mem_link_valid :: "nat \<Rightarrow> heap \<Rightarrow> bool" where
  "mem_link_valid p h =
     (let m = ram h; nmem = mem_next m p; pmem = mem_prev m p
      in \<not> (nmem > MEM_SIZE_ALIGNED \<or> pmem > MEM_SIZE_ALIGNED \<or> (pmem \<noteq> p \<and> mem_next m pmem \<noteq> p) \<or>
           (nmem \<noteq> MEM_SIZE_ALIGNED \<and> mem_prev m nmem \<noteq> p)))"

text \<open>The check of the whole heap; its alignment assertions compare a pointer with itself.\<close>

partial_function (option) sanity_loop :: "heap \<Rightarrow> nat \<Rightarrow> byte \<Rightarrow> nat option" where
  "sanity_loop h p last_used =
     (if p > 0 \<and> p < MEM_SIZE_ALIGNED
      then if p mod MEM_ALIGNMENT = 0 \<and> mem_prev (ram h) p \<le> MEM_SIZE_ALIGNED \<and> mem_next (ram h) p \<le> MEM_SIZE_ALIGNED \<and>
              (if last_used = 0 then mem_used (ram h) p = 1 else mem_used (ram h) p = 0 \<or> mem_used (ram h) p = 1) \<and>
              mem_link_valid p h
           then sanity_loop h (mem_next (ram h) p) (mem_used (ram h) p)
           else None
      else Some p)"

definition mem_sanity :: "heap \<Rightarrow> bool" where
  "mem_sanity h =
     ((mem_used (ram h) 0 = 0 \<or> mem_used (ram h) 0 = 1) \<and> mem_prev (ram h) 0 = 0 \<and>
      mem_next (ram h) 0 \<le> MEM_SIZE_ALIGNED \<and>
      (case sanity_loop h (mem_next (ram h) 0) (mem_used (ram h) 0) of
         None \<Rightarrow> False
       | Some p \<Rightarrow> p = MEM_SIZE_ALIGNED \<and> mem_used (ram h) p = 1 \<and>
           mem_prev (ram h) p = MEM_SIZE_ALIGNED \<and> mem_next (ram h) p = MEM_SIZE_ALIGNED))"

definition mem_free :: "int option \<Rightarrow> heap \<Rightarrow> heap option" where
  "mem_free rmem h =
     (case rmem of
        None \<Rightarrow> Some h
      | Some r \<Rightarrow>
          if r mod int MEM_ALIGNMENT \<noteq> 0 then None
          else if r - int SIZEOF_STRUCT_MEM < 0 \<or> r + int MIN_SIZE_ALIGNED > int MEM_SIZE_ALIGNED then None
          else
            (let p = nat (r - int SIZEOF_STRUCT_MEM)
             in if mem_used (ram h) p = 0 then None
                else if \<not> mem_link_valid p h then None
                else plug_holes p \<lparr>ram = set_mem_used (ram h) p 0, lfree = (if p < lfree h then p else lfree h)\<rparr>))"

text \<open>Sizes are 16 bit; comparisons of block sizes are made in \<open>size_t\<close>.\<close>

definition align_size :: "nat \<Rightarrow> nat" where
  "align_size n = ((n + (MEM_ALIGNMENT - 1)) div MEM_ALIGNMENT * MEM_ALIGNMENT) mod 2 ^ 16"

definition sub16 :: "nat \<Rightarrow> nat \<Rightarrow> nat" where "sub16 a b = unat (of_nat a - of_nat b :: u16)"
definition sub64 :: "nat \<Rightarrow> nat \<Rightarrow> nat" where "sub64 a b = unat (of_nat a - of_nat b :: u64)"

definition mem_trim :: "nat \<Rightarrow> nat \<Rightarrow> heap \<Rightarrow> (nat option \<times> heap) option" where
  "mem_trim rmem new_size h =
     (let newsize = max (align_size new_size) MIN_SIZE_ALIGNED
      in if newsize > MEM_SIZE_ALIGNED \<or> newsize < new_size then Some (None, h)
         else if \<not> rmem < MEM_SIZE_ALIGNED then None
         else
           (let p = rmem - SIZEOF_STRUCT_MEM;
                m = ram h;
                size = sub16 (sub16 (mem_next m p) p) SIZEOF_STRUCT_MEM
            in if \<not> newsize \<le> size then None
               else if newsize = size then Some (Some rmem, h)
               else if mem_used m (mem_next m p) = 0
               then if mem_next m p = MEM_SIZE_ALIGNED then None
                    else
                      (let mem2 = mem_next m p;
                           nxt = mem_next m mem2;
                           ptr2 = p + SIZEOF_STRUCT_MEM + newsize;
                           m1 = set_mem_used m ptr2 0;
                           m2 = set_mem_next m1 ptr2 nxt;
                           m3 = set_mem_prev m2 ptr2 p;
                           m4 = set_mem_next m3 p ptr2;
                           m5 = (if mem_next m4 ptr2 \<noteq> MEM_SIZE_ALIGNED then set_mem_prev m4 (mem_next m4 ptr2) ptr2 else m4)
                       in Some (Some rmem, \<lparr>ram = m5, lfree = (if lfree h = mem2 then ptr2 else lfree h)\<rparr>))
               else if newsize + SIZEOF_STRUCT_MEM + MIN_SIZE_ALIGNED \<le> size
               then if mem_next m p = MEM_SIZE_ALIGNED then None
                    else
                      (let ptr2 = p + SIZEOF_STRUCT_MEM + newsize;
                           m1 = set_mem_used m ptr2 0;
                           m2 = set_mem_next m1 ptr2 (mem_next m1 p);
                           m3 = set_mem_prev m2 ptr2 p;
                           m4 = set_mem_next m3 p ptr2;
                           m5 = (if mem_next m4 ptr2 \<noteq> MEM_SIZE_ALIGNED then set_mem_prev m4 (mem_next m4 ptr2) ptr2 else m4)
                       in Some (Some rmem, \<lparr>ram = m5, lfree = (if ptr2 < lfree h then ptr2 else lfree h)\<rparr>))
               else Some (Some rmem, h)))"

partial_function (option) lfree_loop :: "mem \<Rightarrow> nat \<Rightarrow> nat option" where
  "lfree_loop m cur =
     (if mem_used m cur \<noteq> 0 \<and> cur \<noteq> MEM_SIZE_ALIGNED then lfree_loop m (mem_next m cur) else Some cur)"

text \<open>Taking the free block at \<open>p\<close>, which is large enough.\<close>

definition take_block :: "nat \<Rightarrow> nat \<Rightarrow> heap \<Rightarrow> (nat option \<times> heap) option" where
  "take_block sz p h =
     (let m = ram h in
      Option.bind
        (if sub64 (mem_next m p) (p + SIZEOF_STRUCT_MEM) \<ge> sz + SIZEOF_STRUCT_MEM + MIN_SIZE_ALIGNED
         then (let ptr2 = p + SIZEOF_STRUCT_MEM + sz
               in if ptr2 = MEM_SIZE_ALIGNED then None
                  else
                    (let m1 = set_mem_used m ptr2 0;
                         m2 = set_mem_next m1 ptr2 (mem_next m1 p);
                         m3 = set_mem_prev m2 ptr2 p;
                         m4 = set_mem_next m3 p ptr2;
                         m5 = set_mem_used m4 p 1
                     in Some (if mem_next m5 ptr2 \<noteq> MEM_SIZE_ALIGNED then set_mem_prev m5 (mem_next m5 ptr2) ptr2 else m5)))
         else Some (set_mem_used m p 1))
        (\<lambda>m'. Option.bind
           (if p = lfree h
            then Option.bind (lfree_loop m' p)
                   (\<lambda>cur. if cur = MEM_SIZE_ALIGNED \<or> mem_used m' cur = 0 then Some cur else None)
            else Some (lfree h))
           (\<lambda>l. if p + SIZEOF_STRUCT_MEM + sz \<le> MEM_SIZE_ALIGNED \<and> (p + SIZEOF_STRUCT_MEM) mod MEM_ALIGNMENT = 0 \<and>
                   p mod MEM_ALIGNMENT = 0
                then Some (Some (p + SIZEOF_STRUCT_MEM), \<lparr>ram = m', lfree = l\<rparr>) else None)))"

partial_function (option) malloc_loop :: "nat \<Rightarrow> nat \<Rightarrow> heap \<Rightarrow> (nat option \<times> heap) option" where
  "malloc_loop sz p h =
     (if p < MEM_SIZE_ALIGNED - sz
      then if mem_used (ram h) p = 0 \<and> sub64 (mem_next (ram h) p) (p + SIZEOF_STRUCT_MEM) \<ge> sz
           then take_block sz p h
           else malloc_loop sz (mem_next (ram h) p) h
      else Some (None, h))"

definition mem_malloc :: "nat \<Rightarrow> heap \<Rightarrow> (nat option \<times> heap) option" where
  "mem_malloc size_in h =
     (if size_in = 0 then Some (None, h)
      else
        (let size = max (align_size size_in) MIN_SIZE_ALIGNED
         in if size > MEM_SIZE_ALIGNED \<or> size < size_in then Some (None, h)
            else malloc_loop size (lfree h) h))"

definition mem_calloc :: "nat \<Rightarrow> nat \<Rightarrow> heap \<Rightarrow> (nat option \<times> heap) option" where
  "mem_calloc count sz h =
     (let alloc_size = count * sz
      in if alloc_size mod 2 ^ 16 \<noteq> alloc_size then Some (None, h)
         else Option.bind (mem_malloc alloc_size h)
                (\<lambda>(p, h'). case p of None \<Rightarrow> Some (None, h')
                   | Some r \<Rightarrow> Some (Some r, h'\<lparr>ram := memset (ram h') r 0 alloc_size\<rparr>)))"

section \<open>Fields\<close>

lemmas mem_field_defs = mem_next_def mem_prev_def mem_used_def set_mem_next_def set_mem_prev_def set_mem_used_def

lemma mem_same [mem_simps]:
  "mem_next (set_mem_next m p n) p = n mod 65536" "mem_prev (set_mem_prev m p n) p = n mod 65536"
  "mem_used (set_mem_used m p v) p = v"
  "mem_next (set_mem_prev m p n) p = mem_next m p" "mem_next (set_mem_used m p v) p = mem_next m p"
  "mem_prev (set_mem_next m p n) p = mem_prev m p" "mem_prev (set_mem_used m p v) p = mem_prev m p"
  "mem_used (set_mem_next m p n) p = mem_used m p" "mem_used (set_mem_prev m p n) p = mem_used m p"
  by (simp_all add: mem_field_defs mem_simps)

lemma mem_next_mod [simp]: "mem_next m p mod 65536 = mem_next m p"
  using le_nat_bound [of "mload m p 2"] by (simp add: mem_next_def)

lemma mem_other [mem_simps]:
  assumes "a + 8 \<le> b \<or> b + 8 \<le> a"
  shows "mem_next (set_mem_next m b n) a = mem_next m a" "mem_next (set_mem_prev m b n) a = mem_next m a"
    "mem_next (set_mem_used m b v) a = mem_next m a"
    "mem_prev (set_mem_next m b n) a = mem_prev m a" "mem_prev (set_mem_prev m b n) a = mem_prev m a"
    "mem_prev (set_mem_used m b v) a = mem_prev m a"
    "mem_used (set_mem_next m b n) a = mem_used m a" "mem_used (set_mem_prev m b n) a = mem_used m a"
    "mem_used (set_mem_used m b v) a = mem_used m a"
  using assms by (auto simp: mem_field_defs mem_simps)

lemma mem_set_out [mem_simps]:
  assumes "x < b \<or> b + 8 \<le> x"
  shows "set_mem_next m b n x = m x" "set_mem_prev m b n x = m x" "set_mem_used m b v x = m x"
  using assms by (auto simp: mem_field_defs mem_simps)

lemma mem_fields_cong:
  assumes "\<And>x. a \<le> x \<Longrightarrow> x < a + 8 \<Longrightarrow> m x = m' x"
  shows "mem_next m a = mem_next m' a" "mem_prev m a = mem_prev m' a" "mem_used m a = mem_used m' a"
proof -
  have "mload m a 2 = mload m' a 2" "mload m (a + 2) 2 = mload m' (a + 2) 2" "m (a + 4) = m' (a + 4)"
    using assms by (auto intro!: mload_cong)
  then show "mem_next m a = mem_next m' a" "mem_prev m a = mem_prev m' a" "mem_used m a = mem_used m' a"
    by (simp_all add: mem_field_defs)
qed

section \<open>The list of blocks\<close>

text \<open>
  \<open>hchain m a p bs\<close>: from \<open>a\<close> on lie the blocks \<open>bs\<close> (used flag and size), the first linked back to \<open>p\<close>. Sizes are
  multiples of 4, at least 12.
\<close>

type_synonym hblock = "bool \<times> nat"

fun hchain :: "mem \<Rightarrow> nat \<Rightarrow> nat \<Rightarrow> hblock list \<Rightarrow> bool" where
  "hchain m a p [] = True"
| "hchain m a p ((u, s) # bs) =
     (12 \<le> s \<and> s mod 4 = 0 \<and> a + 8 + s \<le> 10240 \<and> mem_next m a = a + 8 + s \<and> mem_prev m a = p \<and>
      mem_used m a = of_bool u \<and> hchain m (a + 8 + s) a bs)"

fun hend :: "nat \<Rightarrow> hblock list \<Rightarrow> nat" where
  "hend a [] = a"
| "hend a ((u, s) # bs) = hend (a + 8 + s) bs"

fun hlink :: "nat \<Rightarrow> nat \<Rightarrow> hblock list \<Rightarrow> nat" where
  "hlink a p [] = p"
| "hlink a p ((u, s) # bs) = hlink (a + 8 + s) a bs"

fun hheaders :: "nat \<Rightarrow> hblock list \<Rightarrow> nat set" where
  "hheaders a [] = {}"
| "hheaders a ((u, s) # bs) = {a..<a + 8} \<union> hheaders (a + 8 + s) bs"

text \<open>The bytes in use, and the first free block.\<close>

fun in_use :: "nat \<Rightarrow> hblock list \<Rightarrow> nat set" where
  "in_use a [] = {}"
| "in_use a ((u, s) # bs) = (if u then {a + 8..<a + 8 + s} else {}) \<union> in_use (a + 8 + s) bs"

fun first_free :: "nat \<Rightarrow> hblock list \<Rightarrow> nat" where
  "first_free a [] = a"
| "first_free a ((u, s) # bs) = (if u then first_free (a + 8 + s) bs else a)"

lemma hend_ge: "a \<le> hend a bs"
  by (induction a bs rule: hend.induct) auto

lemma hend_greater: "bs \<noteq> [] \<Longrightarrow> a + 8 \<le> hend a bs"
proof (induction a bs rule: hend.induct)
  case (2 a u s bs)
  then show ?case using hend_ge [of "a + 8 + s" bs] by simp
qed simp

lemma hend_room: "hend a bs = 10240 \<Longrightarrow> a \<noteq> 10240 \<Longrightarrow> a + 8 \<le> 10240"
  using hend_greater [of bs a] by (cases bs) auto

lemma hheaders_bounds: "x \<in> hheaders a bs \<Longrightarrow> a \<le> x \<and> x < hend a bs"
proof (induction a bs rule: hheaders.induct)
  case (2 a u s bs)
  then show ?case using hend_ge [of "a + 8 + s" bs] by auto
qed simp

lemma in_use_bounds: "x \<in> in_use a bs \<Longrightarrow> a + 8 \<le> x \<and> x < hend a bs"
proof (induction a bs rule: in_use.induct)
  case (2 a u s bs)
  then show ?case using hend_ge [of "a + 8 + s" bs] by (auto split: if_splits)
qed simp

lemma hchain_append [simp]: "hchain m a p (us @ vs) = (hchain m a p us \<and> hchain m (hend a us) (hlink a p us) vs)"
  by (induction m a p us rule: hchain.induct) auto

lemma hend_append [simp]: "hend a (us @ vs) = hend (hend a us) vs"
  by (induction a us rule: hend.induct) auto

lemma hlink_snoc [simp]: "hlink a p (us @ [b]) = hend a us"
  by (induction a p us rule: hlink.induct) (cases b, auto)+

lemma hheaders_append [simp]: "hheaders a (us @ vs) = hheaders a us \<union> hheaders (hend a us) vs"
  by (induction a us rule: hheaders.induct) auto

lemma in_use_append [simp]: "in_use a (us @ vs) = in_use a us \<union> in_use (hend a us) vs"
  by (induction a us rule: in_use.induct) auto

lemma first_free_append: "first_free a (us @ vs) = (if \<exists>b \<in> set us. \<not> fst b then first_free a us else first_free (hend a us) vs)"
  by (induction a us rule: first_free.induct) auto

lemma first_free_ge: "a \<le> first_free a bs"
  by (induction a bs rule: first_free.induct) auto

lemma first_free_less: "\<exists>b \<in> set bs. \<not> fst b \<Longrightarrow> first_free a bs + 8 \<le> hend a bs"
proof (induction a bs rule: first_free.induct)
  case (2 a u s bs)
  then show ?case using hend_ge [of "a + 8 + s" bs] by auto
qed simp

lemma hend_mod: "hchain m a p bs \<Longrightarrow> a mod 4 = 0 \<Longrightarrow> hend a bs mod 4 = 0"
proof (induction m a p bs rule: hchain.induct)
  case (2 m a p u s bs)
  then have "s mod 4 = 0" by simp
  with 2(3) have "(a + 8 + s) mod 4 = 0" by presburger
  with 2 show ?case by simp
qed simp

lemma hchain_cong: "(\<And>x. x \<in> hheaders a bs \<Longrightarrow> m' x = m x) \<Longrightarrow> hchain m' a p bs = hchain m a p bs"
proof (induction m a p bs rule: hchain.induct)
  case (2 m a p u s bs)
  have "mem_next m' a = mem_next m a" "mem_prev m' a = mem_prev m a" "mem_used m' a = mem_used m a"
    using 2(2) by (auto intro!: mem_fields_cong)
  with 2 show ?case by simp
qed simp

text \<open>Linking the block behind back to another one, if there is a block behind.\<close>

abbreviation relink :: "mem \<Rightarrow> nat \<Rightarrow> nat \<Rightarrow> mem" where
  "relink m b n \<equiv> (if b \<noteq> MEM_SIZE_ALIGNED then set_mem_prev m b n else m)"

lemma hchain_relink:
  assumes "hchain m b q vs" "hend b vs = 10240" "n < 65536"
  shows "hchain (relink m b n) b n vs"
proof (cases vs)
  case (Cons v vs')
  obtain u s where v: "v = (u, s)" by force
  have "b \<noteq> 10240" using assms(2) Cons hend_greater [of vs b] by auto
  moreover have "hchain (set_mem_prev m b n) (b + 8 + s) b vs'"
    using assms Cons v by (subst hchain_cong [where m = m]) (auto simp: mem_simps dest: hheaders_bounds)
  ultimately show ?thesis using assms Cons v by (simp add: mem_simps heap_consts)
qed (use assms in simp)

lemma relink_out [mem_simps]: "x < b \<or> b + 8 \<le> x \<Longrightarrow> relink m b n x = m x"
  by (simp add: mem_simps)

definition heap_blocks :: "mem \<Rightarrow> hblock list \<Rightarrow> bool" where
  "heap_blocks m bs \<longleftrightarrow> hchain m 0 0 bs \<and> hend 0 bs = 10240 \<and>
     mem_used m 10240 = 1 \<and> mem_next m 10240 = 10240 \<and> mem_prev m 10240 = 10240"

text \<open>Replacing blocks in the middle, as long as what lies behind is linked back.\<close>

lemma heap_blocks_replace:
  assumes "heap_blocks m (us @ mid @ vs)" "a = hend 0 us" "b = hend a mid"
    "hchain m' a (hlink 0 0 us) mid'" "hend a mid' = b" "hchain m' b (hlink a (hlink 0 0 us) mid') vs"
    "\<And>x. x < a \<or> 10240 \<le> x \<Longrightarrow> m' x = m x"
  shows "heap_blocks m' (us @ mid' @ vs)"
proof -
  have "mem_used m' 10240 = mem_used m 10240" "mem_next m' 10240 = mem_next m 10240" "mem_prev m' 10240 = mem_prev m 10240"
    using assms(7) by (auto intro!: mem_fields_cong)
  moreover have "hchain m' 0 0 us"
    using assms by (subst hchain_cong [where m = m]) (auto simp: heap_blocks_def dest: hheaders_bounds)
  ultimately show ?thesis using assms by (simp add: heap_blocks_def)
qed

text \<open>The first block of a list, as the code sees it.\<close>

lemma hchain_head:
  assumes "hchain m a p ((u, s) # bs)"
  shows "mem_next m a = a + 8 + s" "mem_prev m a = p" "mem_used m a = of_bool u" "a < 10240" "12 \<le> s"
  using assms by auto

lemma heap_blocks_split:
  assumes "heap_blocks m (us @ (u, s) # vs)" "a = hend 0 us"
  shows "hchain m a (hlink 0 0 us) ((u, s) # vs)" "hchain m (a + 8 + s) a vs" "hend (a + 8 + s) vs = 10240"
  using assms by (auto simp: heap_blocks_def)

definition join_forward :: "nat \<Rightarrow> hblock list \<Rightarrow> hblock list" where
  "join_forward s vs = (case vs of (False, t) # ws \<Rightarrow> (False, s + 8 + t) # ws | _ \<Rightarrow> (False, s) # vs)"

lemma join_forward_simps [simp]:
  "join_forward s [] = [(False, s)]" "join_forward s ((True, t) # ws) = (False, s) # (True, t) # ws"
  "join_forward s ((False, t) # ws) = (False, s + 8 + t) # ws"
  by (simp_all add: join_forward_def)

text \<open>A successor that is used or the end of the heap is not free.\<close>

lemma next_not_free:
  assumes "heap_blocks m (us @ (u, s) # vs)" "a = hend 0 us" "\<nexists>t ws. vs = (False, t) # ws"
  shows "mem_used m (a + 8 + s) = 1"
proof (cases vs)
  case Nil
  then have "a + 8 + s = 10240" using heap_blocks_split(3) [OF assms(1,2)] by simp
  moreover have "mem_used m 10240 = 1" using assms(1) by (simp add: heap_blocks_def)
  ultimately show ?thesis by metis
next
  case (Cons v ws)
  with assms(3) obtain t where "v = (True, t)" by (cases v) auto
  then show ?thesis using heap_blocks_split(2) [OF assms(1,2)] Cons by simp
qed

lemma plug_forward_joins:
  assumes "heap_blocks (ram h) (us @ (False, s) # vs)" "a = hend 0 us" "lfree h = first_free 0 (us @ (False, s) # vs)"
  defines "h' \<equiv> plug_forward (hend 0 us) h"
  shows "heap_blocks (ram h') (us @ join_forward s vs)" "lfree h' = first_free 0 (us @ join_forward s vs)"
    "in_use 0 (us @ join_forward s vs) = in_use 0 (us @ (False, s) # vs)"
    "\<forall>x \<in> in_use 0 (us @ (False, s) # vs). ram h' x = ram h x"
proof -
  let ?m = "ram h" and ?b = "a + 8 + s"
  note sp = heap_blocks_split [OF assms(1,2)]
  have "lfree h \<le> a" using first_free_less [of us 0] assms(2,3) by (cases "\<exists>b \<in> set us. \<not> fst b") (auto simp: first_free_append)
  then have lf: "lfree h \<noteq> ?b" by simp
  have goal: "heap_blocks (ram h') (us @ join_forward s vs) \<and> lfree h' = first_free 0 (us @ join_forward s vs) \<and>
    in_use 0 (us @ join_forward s vs) = in_use 0 (us @ (False, s) # vs) \<and>
    (\<forall>x \<in> in_use 0 (us @ (False, s) # vs). ram h' x = ram h x)"
  proof (cases "\<exists>t ws. vs = (False, t) # ws")
    case False
    then have "join_forward s vs = (False, s) # vs" by (auto simp: join_forward_def split: list.splits bool.splits)
    moreover have "h' = h" using next_not_free [OF assms(1,2) False] sp(1) assms(2) by (simp add: h'_def plug_forward_def)
    ultimately show ?thesis using assms by simp
  next
    case True
    then obtain t ws where vs: "vs = (False, t) # ws" by blast
    let ?c = "?b + 8 + t"
    have t: "mem_next ?m ?b = ?c" "mem_used ?m ?b = 0" "?b < 10240" "?c \<le> 10240" "hchain ?m ?c ?b ws" "hend ?c ws = 10240"
      "12 \<le> t" "t mod 4 = 0" "s mod 4 = 0" using sp vs by auto
    define m' where "m' = relink (set_mem_next ?m a ?c) ?c a"
    have h': "h' = \<lparr>ram = m', lfree = lfree h\<rparr>"
      using t sp(1) lf assms(2) by (auto simp: h'_def plug_forward_def m'_def mem_simps Let_def heap_consts)
    have s': "(s + 8 + t) mod 4 = 0" using t by presburger
    have "hchain (set_mem_next ?m a ?c) ?c ?b ws"
      using t by (subst hchain_cong [where m = ?m]) (auto simp: mem_simps dest: hheaders_bounds)
    then have r: "hchain m' ?c a ws" unfolding m'_def using t by (intro hchain_relink) auto
    have "heap_blocks m' (us @ [(False, s + 8 + t)] @ ws)"
    proof (rule heap_blocks_replace [where m = ?m and a = a and b = ?c])
      show "heap_blocks ?m (us @ [(False, s), (False, t)] @ ws)" using assms(1) vs by simp
      show "hchain m' a (hlink 0 0 us) [(False, s + 8 + t)]" using sp(1) t s' by (auto simp: m'_def mem_simps heap_consts)
      show "hchain m' ?c (hlink a (hlink 0 0 us) [(False, s + 8 + t)]) ws" using r by simp
      show "m' x = ?m x" if "x < a \<or> 10240 \<le> x" for x using that t hend_room [OF t(6)] by (auto simp: m'_def mem_simps heap_consts)
    qed (use assms(2) vs in simp_all)
    moreover have "m' x = ?m x" if "x \<in> in_use 0 us \<union> in_use ?c ws" for x
      using that in_use_bounds [of x 0 us] in_use_bounds [of x ?c ws] assms(2) by (auto simp: m'_def mem_simps)
    ultimately show ?thesis using vs h' assms(2,3) by (auto simp: first_free_append add_ac)
  qed
  then show "heap_blocks (ram h') (us @ join_forward s vs)" "lfree h' = first_free 0 (us @ join_forward s vs)"
    "in_use 0 (us @ join_forward s vs) = in_use 0 (us @ (False, s) # vs)"
    "\<forall>x \<in> in_use 0 (us @ (False, s) # vs). ram h' x = ram h x" by simp_all
qed

definition join_backward :: "hblock list \<Rightarrow> nat \<Rightarrow> hblock list \<Rightarrow> hblock list" where
  "join_backward us s vs =
     (if us \<noteq> [] \<and> \<not> fst (last us) then butlast us @ (False, snd (last us) + 8 + s) # vs else us @ (False, s) # vs)"

lemma join_backward_simps [simp]:
  "join_backward [] s vs = (False, s) # vs" "join_backward (us @ [(True, t)]) s vs = us @ (True, t) # (False, s) # vs"
  "join_backward (us @ [(False, t)]) s vs = us @ (False, t + 8 + s) # vs"
  by (simp_all add: join_backward_def)

text \<open>The state \<open>h'\<close> has the blocks \<open>bs'\<close>, the lowest free block is known, and the bytes used before are as they were.\<close>

definition heap_step :: "heap \<Rightarrow> hblock list \<Rightarrow> heap \<Rightarrow> hblock list \<Rightarrow> bool" where
  "heap_step h bs h' bs' \<longleftrightarrow> heap_blocks (ram h') bs' \<and> lfree h' = first_free 0 bs' \<and>
     (\<forall>x \<in> in_use 0 bs. ram h' x = ram h x)"

lemma plug_backward_joins:
  assumes "heap_blocks (ram h) (us @ (False, s) # vs)" "lfree h = first_free 0 (us @ (False, s) # vs)"
  shows "heap_step h (us @ (False, s) # vs) (plug_backward (hend 0 us) h) (join_backward us s vs)"
    "in_use 0 (join_backward us s vs) = in_use 0 (us @ (False, s) # vs)"
    "mem_used (ram (plug_backward (hend 0 us) h)) (hend 0 us) = 0"
proof -
  let ?m = "ram h" and ?a = "hend 0 us"
  define h' where "h' = plug_backward ?a h"
  note sp = heap_blocks_split [OF assms(1) refl]
  consider "us = []" | us' t where "us = us' @ [(True, t)]" | us' t where "us = us' @ [(False, t)]"
    by (cases us rule: rev_cases; metis (full_types) surj_pair)
  then have "heap_step h (us @ (False, s) # vs) h' (join_backward us s vs) \<and>
      in_use 0 (join_backward us s vs) = in_use 0 (us @ (False, s) # vs) \<and> mem_used (ram h') ?a = 0"
  proof cases
    case 1
    then have "h' = h" "mem_used ?m ?a = 0" using sp(1) by (simp_all add: h'_def plug_backward_def)
    with 1 assms show ?thesis by (simp add: heap_step_def)
  next
    case (2 us' t)
    then have "mem_used ?m (hend 0 us') = 1" "mem_prev ?m ?a = hend 0 us'" using assms(1) by (auto simp: heap_blocks_def)
    then have "h' = h" "mem_used ?m ?a = 0" using sp(1) by (simp_all add: h'_def plug_backward_def)
    with 2 assms show ?thesis by (simp add: heap_step_def)
  next
    case (3 us' t)
    let ?z = "hend 0 us'" and ?c = "?a + 8 + s"
    have z: "?a = ?z + 8 + t" "hlink 0 0 us = ?z" using 3 by simp_all
    have t: "mem_used ?m ?z = 0" "mem_prev ?m ?a = ?z" "mem_next ?m ?a = ?c" "12 \<le> t" "t mod 4 = 0" "s mod 4 = 0"
      "?c \<le> 10240" "hchain ?m ?c ?a vs" "hend ?c vs = 10240" "mem_prev ?m ?z = hlink 0 0 us'" "12 \<le> s"
      using assms(1) 3 sp by (auto simp: heap_blocks_def)
    have lf: "lfree h \<noteq> ?a"
      using first_free_less [of us 0] 3 assms(2) by (auto simp: first_free_append split: if_splits)
    define m' where "m' = relink (set_mem_next ?m ?z ?c) ?c ?z"
    have h': "h' = \<lparr>ram = m', lfree = lfree h\<rparr>"
      using t lf z(1) by (auto simp: h'_def plug_backward_def m'_def mem_simps Let_def heap_consts)
    have s': "(t + 8 + s) mod 4 = 0" using t by presburger
    have "hchain (set_mem_next ?m ?z ?c) ?c ?a vs"
      using t z(1) by (subst hchain_cong [where m = ?m]) (auto simp: mem_simps dest: hheaders_bounds)
    then have r: "hchain m' ?c ?z vs" unfolding m'_def using t z(1) by (intro hchain_relink) auto
    have "heap_blocks m' (us' @ [(False, t + 8 + s)] @ vs)"
    proof (rule heap_blocks_replace [where m = ?m and a = ?z and b = ?c])
      show "heap_blocks ?m (us' @ [(False, t), (False, s)] @ vs)" using assms(1) 3 by simp
      show "hchain m' ?z (hlink 0 0 us') [(False, t + 8 + s)]" using z t s' by (auto simp: m'_def mem_simps heap_consts)
      show "hchain m' ?c (hlink ?z (hlink 0 0 us') [(False, t + 8 + s)]) vs" using r by simp
      show "m' x = ?m x" if "x < ?z \<or> 10240 \<le> x" for x
        using that t z(1) hend_room [OF t(9)] by (auto simp: m'_def mem_simps heap_consts)
    qed (use z in simp_all)
    moreover have "m' x = ?m x" if "x \<in> in_use 0 us' \<union> in_use ?c vs" for x
      using that in_use_bounds [of x 0 us'] in_use_bounds [of x ?c vs] z(1) by (auto simp: m'_def mem_simps)
    moreover have "in_use ?c vs = in_use (?z + 8 + (t + 8 + s)) vs" by (simp add: z(1) add_ac)
    moreover have "first_free 0 (us' @ (False, t + 8 + s) # vs) = lfree h"
      using 3 assms(2) by (auto simp: first_free_append)
    moreover have "mem_used m' ?a = 0" using sp(1) z(1) by (simp add: m'_def mem_simps)
    ultimately show ?thesis using 3 h' by (auto simp: heap_step_def)
  qed
  then show "heap_step h (us @ (False, s) # vs) (plug_backward (hend 0 us) h) (join_backward us s vs)"
    "in_use 0 (join_backward us s vs) = in_use 0 (us @ (False, s) # vs)"
    "mem_used (ram (plug_backward (hend 0 us) h)) (hend 0 us) = 0" by (simp_all add: h'_def)
qed

section \<open>Freeing\<close>

text \<open>The invariant of the heap: no two neighbours are free, and \<open>lfree\<close> is the first free block, or the end.\<close>

abbreviation no_holes :: "hblock list \<Rightarrow> bool" where
  "no_holes \<equiv> successively (\<lambda>x y. fst x \<or> fst y)"

definition heap_ok :: "heap \<Rightarrow> hblock list \<Rightarrow> bool" where
  "heap_ok h bs \<longleftrightarrow> heap_blocks (ram h) bs \<and> lfree h = first_free 0 bs \<and> no_holes bs"

lemma mem_link_valid_block:
  assumes "heap_blocks (ram h) (us @ (u, s) # vs)"
  shows "mem_link_valid (hend 0 us) h"
proof -
  let ?m = "ram h" and ?a = "hend 0 us"
  note sp = heap_blocks_split [OF assms refl]
  have b: "?a + 8 + s \<le> 10240" "mem_next ?m ?a = ?a + 8 + s" "mem_prev ?m ?a = hlink 0 0 us" using sp by auto
  have n: "?a + 8 + s = 10240 \<or> mem_prev ?m (?a + 8 + s) = ?a"
  proof (cases vs)
    case Nil
    then show ?thesis using sp(3) by simp
  next
    case (Cons v ws)
    then show ?thesis using sp(2) by (cases v) simp
  qed
  show ?thesis
  proof (cases us rule: rev_cases)
    case Nil
    then show ?thesis using b n by (auto simp: mem_link_valid_def Let_def heap_consts)
  next
    case (snoc us' x)
    obtain f t where x: "x = (f, t)" by force
    then have "mem_next ?m (hend 0 us') = ?a" "hend 0 us' < 10240" using assms snoc by (auto simp: heap_blocks_def)
    then show ?thesis using b n snoc by (simp add: mem_link_valid_def Let_def heap_consts)
  qed
qed

definition free_blocks :: "hblock list \<Rightarrow> nat \<Rightarrow> hblock list \<Rightarrow> hblock list" where
  "free_blocks us s vs = (let r = join_forward s vs in join_backward us (snd (hd r)) (tl r))"

lemma join_forward_Cons: "join_forward s vs = (False, snd (hd (join_forward s vs))) # tl (join_forward s vs)"
  by (auto simp: join_forward_def split: list.splits bool.splits)

lemma no_holes_Cons: "no_holes ((False, s) # vs) = no_holes ((False, t) # vs)"
  by (cases vs) auto

lemma no_holes_free:
  assumes "no_holes (us @ (True, s) # vs)"
  shows "no_holes (free_blocks us s vs)"
proof -
  have f: "no_holes (join_forward s vs)"
  proof (cases vs)
    case (Cons v ws)
    then show ?thesis using assms no_holes_Cons [of "snd v" ws "s + 8 + snd v"]
      by (cases v; cases "fst v") (auto simp: successively_append_iff)
  qed simp
  obtain s' ws where r: "join_forward s vs = (False, s') # ws" using join_forward_Cons [of s vs] by metis
  have u: "no_holes us" using assms by (simp add: successively_append_iff)
  show ?thesis
  proof (cases us rule: rev_cases)
    case Nil
    then show ?thesis using f r by (simp add: free_blocks_def)
  next
    case (snoc us' x)
    then show ?thesis using f r u no_holes_Cons [of "snd x + 8 + s'" ws s']
      by (cases x; cases "fst x") (auto simp: free_blocks_def successively_append_iff)
  qed
qed

lemma in_use_join_forward: "in_use a (join_forward s vs) = in_use (a + 8 + s) vs"
  by (auto simp: join_forward_def add_ac split: list.splits bool.splits)

lemma mem_free_spec:
  assumes "heap_ok h (us @ (True, s) # vs)"
  shows "\<exists>h'. mem_free (Some (int (hend 0 us + 8))) h = Some h' \<and> heap_ok h' (free_blocks us s vs) \<and>
    in_use 0 (free_blocks us s vs) = in_use 0 us \<union> in_use (hend 0 us + 8 + s) vs \<and>
    (\<forall>x \<in> in_use 0 us \<union> in_use (hend 0 us + 8 + s) vs. ram h' x = ram h x) \<and> mem_used (ram h') (hend 0 us) = 0"
proof -
  let ?a = "hend 0 us" and ?m = "ram h"
  let ?fr = "us @ (False, s) # vs"
  have ok: "heap_blocks ?m (us @ (True, s) # vs)" "lfree h = first_free 0 (us @ (True, s) # vs)"
    using assms by (simp_all add: heap_ok_def)
  note sp = heap_blocks_split [OF ok(1) refl]
  have a: "?a mod 4 = 0" "?a + 8 + s \<le> 10240" "12 \<le> s" "mem_used ?m ?a = 1" "mem_next ?m ?a = ?a + 8 + s"
    using hend_mod [of ?m 0 0 us] ok(1) sp by (auto simp: heap_blocks_def)
  define h1 where "h1 = \<lparr>ram = set_mem_used ?m ?a 0, lfree = (if ?a < lfree h then ?a else lfree h)\<rparr>"
  have "heap_blocks (ram h1) (us @ [(False, s)] @ vs)"
  proof (rule heap_blocks_replace [where m = ?m and a = ?a and b = "?a + 8 + s"])
    show "heap_blocks ?m (us @ [(True, s)] @ vs)" using ok(1) by simp
    show "hchain (ram h1) ?a (hlink 0 0 us) [(False, s)]" using sp(1) by (auto simp: h1_def mem_simps)
    show "hchain (ram h1) (?a + 8 + s) (hlink ?a (hlink 0 0 us) [(False, s)]) vs"
      using sp(2) by (subst hchain_cong [where m = ?m]) (auto simp: h1_def mem_simps dest: hheaders_bounds)
  qed (use a in \<open>auto simp: h1_def mem_simps\<close>)
  moreover have l1: "lfree h1 = first_free 0 ?fr"
    using ok(2) first_free_less [of us 0] first_free_ge [of "?a + 8 + s" vs]
    by (cases "\<exists>b \<in> set us. \<not> fst b") (auto simp: h1_def first_free_append)
  ultimately have h1: "heap_blocks (ram h1) ?fr" by simp
  define h2 where "h2 = plug_forward ?a h1"
  note f = plug_forward_joins [OF h1 refl l1, folded h2_def]
  obtain s' ws where r: "join_forward s vs = (False, s') # ws" using join_forward_Cons [of s vs] by metis
  define h3 where "h3 = plug_backward ?a h2"
  note b = plug_backward_joins [of h2 us s' ws, folded h3_def, OF f(1,2) [unfolded r]]
  have fb: "free_blocks us s vs = join_backward us s' ws" by (simp add: free_blocks_def r)
  have int: "int (?a + 8) mod 4 = 0" using a(1) by presburger
  have "mem_free (Some (int (?a + 8))) h = plug_holes ?a h1"
    using a int mem_link_valid_block [OF ok(1)] by (simp add: mem_free_def heap_consts h1_def Let_def)
  also have "\<dots> = Some h3"
    using a h1 heap_blocks_split(1) [OF h1 refl] by (simp add: plug_holes_def h2_def h3_def heap_consts)
  finally have run: "mem_free (Some (int (?a + 8))) h = Some h3" .
  have u: "in_use 0 (free_blocks us s vs) = in_use 0 us \<union> in_use (?a + 8 + s) vs"
    using b(2) in_use_join_forward [of ?a s vs] by (simp add: fb r)
  have "ram h3 x = ?m x" if "x \<in> in_use 0 us \<union> in_use (?a + 8 + s) vs" for x
  proof -
    have "ram h1 x = ?m x"
      using that in_use_bounds [of x 0 us] in_use_bounds [of x "?a + 8 + s" vs] by (auto simp: h1_def mem_simps)
    moreover have "ram h2 x = ram h1 x" using f(4) that by auto
    moreover have "x \<in> in_use 0 (us @ (False, s') # ws)" using that f(3) r by auto
    then have "ram h3 x = ram h2 x" using b(1) by (simp add: heap_step_def)
    ultimately show ?thesis by simp
  qed
  moreover have "heap_ok h3 (free_blocks us s vs)"
    using b(1) no_holes_free [of us s vs] assms by (simp add: heap_ok_def heap_step_def fb)
  ultimately show ?thesis using run u b(3) by blast
qed

section \<open>Allocation\<close>

text \<open>
  The abstract allocator: the first free block that is large enough, split if the rest can hold a block of
  its own.
\<close>

definition fits :: "nat \<Rightarrow> hblock \<Rightarrow> bool" where "fits n b \<longleftrightarrow> \<not> fst b \<and> n \<le> snd b"

definition split_fit :: "nat \<Rightarrow> nat \<Rightarrow> hblock list" where
  "split_fit n s = (if n + 20 \<le> s then [(True, n), (False, s - n - 8)] else [(True, s)])"

definition alloc_blocks :: "nat \<Rightarrow> hblock list \<Rightarrow> (nat \<times> hblock list) option" where
  "alloc_blocks n bs =
     (let us = takeWhile (\<lambda>b. \<not> fits n b) bs
      in case dropWhile (\<lambda>b. \<not> fits n b) bs of
           [] \<Rightarrow> None
         | (u, s) # vs \<Rightarrow> Some (hend 0 us, us @ split_fit n s @ vs))"

lemma sub_le: "b \<le> a \<Longrightarrow> a < 2 ^ 16 \<Longrightarrow> sub64 a b = a - b" "b \<le> a \<Longrightarrow> a < 2 ^ 16 \<Longrightarrow> sub16 a b = a - b"
proof -
  assume "b \<le> a" "a < 2 ^ 16"
  then have "(of_nat a - of_nat b :: u64) = of_nat (a - b)" "(of_nat a - of_nat b :: u16) = of_nat (a - b)"
    by (simp_all add: of_nat_diff)
  then show "sub64 a b = a - b" "sub16 a b = a - b"
    using \<open>a < 2 ^ 16\<close> by (simp_all add: sub64_def sub16_def unsigned_of_nat take_bit_nat_eq_self)
qed

lemma lfree_loop_finds:
  assumes "heap_blocks m (us @ vs)"
  shows "lfree_loop m (hend 0 us) = Some (first_free (hend 0 us) vs)"
  using assms
proof (induction vs arbitrary: us)
  case Nil
  then have "hend 0 us = MEM_SIZE_ALIGNED" by (simp add: heap_blocks_def heap_consts)
  then show ?case by (subst lfree_loop.simps) simp
next
  case (Cons v vs)
  obtain u s where v: "v = (u, s)" by force
  note h = hchain_head [OF heap_blocks_split(1) [OF Cons.prems [unfolded v] refl]]
  have ih: "lfree_loop m (hend 0 us + 8 + s) = Some (first_free (hend 0 us + 8 + s) vs)"
    using Cons.IH [of "us @ [v]"] Cons.prems v by simp
  show ?case
  proof (cases u)
    case True
    then have "lfree_loop m (hend 0 us) = lfree_loop m (hend 0 us + 8 + s)"
      using h by (subst lfree_loop.simps) (simp add: heap_consts)
    then show ?thesis using True ih v by simp
  qed (use h v in \<open>subst lfree_loop.simps, simp\<close>)
qed

lemma first_free_mem: "heap_blocks m bs \<Longrightarrow> first_free 0 bs = 10240 \<or> mem_used m (first_free 0 bs) = 0"
proof -
  have "hchain m a p bs \<Longrightarrow> first_free a bs = hend a bs \<or> mem_used m (first_free a bs) = 0" for a p
    by (induction m a p bs rule: hchain.induct) auto
  from this [of 0 0] show "heap_blocks m bs \<Longrightarrow> ?thesis" by (auto simp: heap_blocks_def)
qed

text \<open>The bytes of the heap after a free block was taken, whether it is split or not.\<close>

lemma take_block_blocks:
  assumes "heap_blocks m (us @ (False, s) # vs)" "a = hend 0 us" "n \<le> s" "12 \<le> n" "n mod 4 = 0"
  defines "m' \<equiv> (if n + 20 \<le> s
     then relink (set_mem_used (set_mem_next (set_mem_prev (set_mem_next (set_mem_used m (a + 8 + n) 0) (a + 8 + n) (a + 8 + s))
            (a + 8 + n) a) a (a + 8 + n)) a 1) (a + 8 + s) (a + 8 + n)
     else set_mem_used m a 1)"
  shows "heap_blocks m' (us @ split_fit n s @ vs)" "\<And>x. x \<in> in_use 0 (us @ (False, s) # vs) \<Longrightarrow> m' x = m x"
proof -
  let ?c = "a + 8 + s" and ?p = "a + 8 + n"
  note sp = heap_blocks_split [OF assms(1,2)]
  have c: "?c \<le> 10240" "s mod 4 = 0" "mem_next m a = ?c" "mem_prev m a = hlink 0 0 us" using sp by auto
  have "heap_blocks m' (us @ split_fit n s @ vs)"
  proof (cases "n + 20 \<le> s")
    case True
    have s12: "12 \<le> s" using assms(3,4) by simp
    have s': "(s - n - 8) mod 4 = 0" "12 \<le> s - n - 8" "?p + 8 + (s - n - 8) = ?c" using True c(2) assms(5) by presburger+
    have "hchain (set_mem_used (set_mem_next (set_mem_prev (set_mem_next (set_mem_used m ?p 0) ?p ?c) ?p a) a ?p) a 1) ?c a vs"
      using sp(2) True by (subst hchain_cong [where m = m]) (auto simp: mem_simps dest: hheaders_bounds)
    then have r: "hchain m' ?c ?p vs" unfolding m'_def using True sp(3) c(1) by (simp only: if_True) (intro hchain_relink, auto)
    show ?thesis
    proof (rule heap_blocks_replace [where m = m and a = a and b = ?c])
      show "heap_blocks m (us @ [(False, s)] @ vs)" using assms(1) by simp
      show "hchain m' a (hlink 0 0 us) (split_fit n s)"
        using True c assms(4,5) s' s12 by (simp add: split_fit_def m'_def mem_simps heap_consts)
      show "hchain m' ?c (hlink a (hlink 0 0 us) (split_fit n s)) vs" using True r by (simp add: split_fit_def)
      show "hend a (split_fit n s) = ?c" using True s' by (simp add: split_fit_def)
      show "m' x = m x" if "x < a \<or> 10240 \<le> x" for x
        using that True c(1) hend_room [OF sp(3)] by (auto simp: m'_def mem_simps heap_consts)
    qed (use assms(2) in simp_all)
  next
    case False
    have "hchain (set_mem_used m a 1) ?c a vs"
      using sp(2) by (subst hchain_cong [where m = m]) (auto simp: mem_simps dest: hheaders_bounds)
    then have r: "hchain m' ?c a vs" and m': "m' = set_mem_used m a 1" using False by (simp_all add: m'_def)
    show ?thesis
    proof (rule heap_blocks_replace [where m = m and a = a and b = ?c])
      show "heap_blocks m (us @ [(False, s)] @ vs)" using assms(1) by simp
      show "hchain m' a (hlink 0 0 us) (split_fit n s)"
        using False c sp(1) by (simp add: split_fit_def m' mem_simps)
      show "hchain m' ?c (hlink a (hlink 0 0 us) (split_fit n s)) vs" using False r by (simp add: split_fit_def)
      show "m' x = m x" if "x < a \<or> 10240 \<le> x" for x using that c(1) by (auto simp: m' mem_simps)
    qed (use False assms(2) in \<open>simp_all add: split_fit_def\<close>)
  qed
  then show "heap_blocks m' (us @ split_fit n s @ vs)" .
  fix x assume "x \<in> in_use 0 (us @ (False, s) # vs)"
  then show "m' x = m x"
    using in_use_bounds [of x 0 us] in_use_bounds [of x ?c vs] assms(2,3) by (auto simp: m'_def mem_simps)
qed

lemma no_holes_take: "no_holes (us @ (False, s) # vs) \<Longrightarrow> no_holes (us @ split_fit n s @ vs)"
  by (cases vs) (auto simp: split_fit_def successively_append_iff)

lemma take_block_spec:
  assumes "heap_ok h (us @ (False, s) # vs)" "n \<le> s" "12 \<le> n" "n mod 4 = 0"
  shows "\<exists>h'. take_block n (hend 0 us) h = Some (Some (hend 0 us + 8), h') \<and> heap_ok h' (us @ split_fit n s @ vs) \<and>
    (\<forall>x \<in> in_use 0 (us @ (False, s) # vs). ram h' x = ram h x)"
proof -
  let ?m = "ram h" and ?a = "hend 0 us"
  let ?c = "?a + 8 + s" and ?p = "?a + 8 + n"
  have ok: "heap_blocks ?m (us @ (False, s) # vs)" "lfree h = first_free 0 (us @ (False, s) # vs)" "no_holes (us @ (False, s) # vs)"
    using assms(1) by (simp_all add: heap_ok_def)
  note sp = heap_blocks_split [OF ok(1) refl]
  have c: "?c \<le> 10240" "mem_next ?m ?a = ?c" using sp by auto
  have a: "?a mod 4 = 0" using hend_mod [of ?m 0 0 us] ok(1) by (simp add: heap_blocks_def)
  define m' where "m' = (if n + 20 \<le> s
     then relink (set_mem_used (set_mem_next (set_mem_prev (set_mem_next (set_mem_used ?m ?p 0) ?p ?c) ?p ?a) ?a ?p) ?a 1) ?c ?p
     else set_mem_used ?m ?a 1)"
  note bl = take_block_blocks [OF ok(1) refl assms(2-4), folded m'_def]
  define l where "l = first_free 0 (us @ split_fit n s @ vs)"
  have lf: "(if ?a = lfree h then lfree_loop m' ?a else Some (lfree h)) = Some l"
  proof (cases "\<exists>b \<in> set us. \<not> fst b")
    case True
    then show ?thesis using ok(2) first_free_less [OF True, of 0] by (simp add: l_def first_free_append)
  next
    case False
    then show ?thesis using ok(2) lfree_loop_finds [OF bl(1)] by (simp add: l_def first_free_append)
  qed
  have lu: "l = 10240 \<or> mem_used m' l = 0" unfolding l_def using bl(1) by (rule first_free_mem)
  have d: "sub64 ?c (?a + 8) = s" using c(1) by (subst sub_le) simp_all
  have split: "sub64 (mem_next ?m ?a) (?a + SIZEOF_STRUCT_MEM) \<ge> n + SIZEOF_STRUCT_MEM + MIN_SIZE_ALIGNED \<longleftrightarrow> n + 20 \<le> s"
    using d c(2) by (simp add: heap_consts add.commute)
  have new: "mem_next (set_mem_used (set_mem_next (set_mem_prev (set_mem_next (set_mem_used ?m ?p 0) ?p ?c) ?p ?a) ?a ?p) ?a 1) ?p = ?c"
    "mem_next (set_mem_used ?m ?p 0) ?a = ?c" "?p \<noteq> 10240" if "n + 20 \<le> s"
    using that c assms(3) by (simp_all add: mem_simps)
  have "take_block n ?a h = Some (Some (?a + 8), \<lparr>ram = m', lfree = l\<rparr>)"
  proof -
    have body: "(if sub64 (mem_next ?m ?a) (?a + SIZEOF_STRUCT_MEM) \<ge> n + SIZEOF_STRUCT_MEM + MIN_SIZE_ALIGNED
         then (let ptr2 = ?a + SIZEOF_STRUCT_MEM + n
               in if ptr2 = MEM_SIZE_ALIGNED then None
                  else
                    (let m1 = set_mem_used ?m ptr2 0;
                         m2 = set_mem_next m1 ptr2 (mem_next m1 ?a);
                         m3 = set_mem_prev m2 ptr2 ?a;
                         m4 = set_mem_next m3 ?a ptr2;
                         m5 = set_mem_used m4 ?a 1
                     in Some (if mem_next m5 ptr2 \<noteq> MEM_SIZE_ALIGNED then set_mem_prev m5 (mem_next m5 ptr2) ptr2 else m5)))
         else Some (set_mem_used ?m ?a 1)) = Some m'"
      unfolding split using new by (simp add: Let_def m'_def heap_consts)
    have "?a + SIZEOF_STRUCT_MEM + n \<le> MEM_SIZE_ALIGNED" "(?a + SIZEOF_STRUCT_MEM) mod MEM_ALIGNMENT = 0" "?a mod MEM_ALIGNMENT = 0"
      using c(1) assms(2) a by (simp_all add: heap_consts mod_add_left_eq) presburger
    then show ?thesis unfolding take_block_def Let_def [of "ram h"] body
      using lf lu by (auto simp: heap_consts split: if_splits)
  qed
  moreover have "heap_ok \<lparr>ram = m', lfree = l\<rparr> (us @ split_fit n s @ vs)"
    using bl(1) no_holes_take [OF ok(3)] by (simp add: heap_ok_def l_def)
  ultimately show ?thesis using bl(2) by auto
qed

lemma alloc_blocks_unfit: "\<forall>b \<in> set us. \<not> fits n b \<Longrightarrow> alloc_blocks n (us @ (u, s) # vs) =
    (if fits n (u, s) then Some (hend 0 us, us @ split_fit n s @ vs) else alloc_blocks n ((us @ [(u, s)]) @ vs))"
  by (simp add: alloc_blocks_def takeWhile_append2 dropWhile_append2)

lemma alloc_blocks_None: "\<forall>b \<in> set bs. \<not> fits n b \<Longrightarrow> alloc_blocks n bs = None"
proof -
  assume "\<forall>b \<in> set bs. \<not> fits n b"
  then have "dropWhile (\<lambda>b. \<not> fits n b) bs = []" by (simp add: dropWhile_eq_Nil_conv)
  then show ?thesis unfolding alloc_blocks_def by (simp only: Let_def list.case)
qed

lemma hchain_sizes: "hchain m a p bs \<Longrightarrow> b \<in> set bs \<Longrightarrow> a + 8 + snd b \<le> 10240"
  by (induction m a p bs rule: hchain.induct) fastforce+

lemma malloc_loop_spec:
  assumes "heap_ok h (us @ vs)" "\<forall>b \<in> set us. \<not> fits n b" "12 \<le> n" "n mod 4 = 0" "n \<le> 10240"
  shows "case alloc_blocks n (us @ vs) of None \<Rightarrow> malloc_loop n (hend 0 us) h = Some (None, h)
    | Some (a, bs') \<Rightarrow> \<exists>h'. malloc_loop n (hend 0 us) h = Some (Some (a + 8), h') \<and> heap_ok h' bs' \<and>
        (\<forall>x \<in> in_use 0 (us @ vs). ram h' x = ram h x)"
  using assms(1,2)
proof (induction vs arbitrary: us)
  case Nil
  then have "hend 0 us = 10240" by (simp add: heap_ok_def heap_blocks_def)
  then show ?case using Nil alloc_blocks_None [of us n] by (subst malloc_loop.simps) (auto simp: heap_consts)
next
  case (Cons v vs)
  obtain u s where v: "v = (u, s)" by force
  let ?a = "hend 0 us"
  have bl: "heap_blocks (ram h) (us @ (u, s) # vs)" using Cons.prems v by (simp add: heap_ok_def)
  note h = hchain_head [OF heap_blocks_split(1) [OF bl refl]]
  have b: "?a + 8 + s \<le> 10240" using heap_blocks_split(1) [OF bl refl] by simp
  have d: "sub64 (mem_next (ram h) ?a) (?a + SIZEOF_STRUCT_MEM) = s" using h(1) b by (subst sub_le) (simp_all add: heap_consts)
  have f: "mem_used (ram h) ?a = 0 \<and> sub64 (mem_next (ram h) ?a) (?a + SIZEOF_STRUCT_MEM) \<ge> n \<longleftrightarrow> fits n (u, s)"
    using h(3) d by (simp add: fits_def)
  show ?case
  proof (cases "fits n (u, s)")
    case True
    have "?a < MEM_SIZE_ALIGNED - n" using True b by (auto simp: fits_def heap_consts)
    then have "malloc_loop n ?a h = take_block n ?a h" using True f by (subst malloc_loop.simps) simp
    moreover have "u = False" "n \<le> s" using True by (simp_all add: fits_def)
    ultimately show ?thesis
      using take_block_spec [of h us s vs n] Cons.prems assms(3,4) v True by (simp add: alloc_blocks_unfit)
  next
    case nofit: False
    show ?thesis
    proof (cases "?a < MEM_SIZE_ALIGNED - n")
      case True
      then have l: "malloc_loop n ?a h = malloc_loop n (hend 0 (us @ [v])) h"
        using nofit f h(1) v by (subst malloc_loop.simps) auto
      have e: "us @ v # vs = (us @ [v]) @ vs" by simp
      show ?thesis unfolding l e by (rule Cons.IH) (use Cons.prems nofit v in auto)
    next
      case False
      have "\<not> fits n w" if "w \<in> set (v # vs)" for w
        using hchain_sizes [OF heap_blocks_split(1) [OF bl refl], of w] that v False by (auto simp: fits_def heap_consts)
      then have "alloc_blocks n (us @ v # vs) = None" using Cons.prems by (intro alloc_blocks_None) auto
      then show ?thesis using False by (subst malloc_loop.simps) simp
    qed
  qed
qed

lemma lfree_prefix: "\<exists>us vs. bs = us @ vs \<and> first_free 0 bs = hend 0 us \<and> (\<forall>b \<in> set us. fst b)"
proof -
  have "first_free a bs = hend a (takeWhile fst bs)" for a
    by (induction a bs rule: first_free.induct) auto
  moreover have "\<forall>b \<in> set (takeWhile fst bs). fst b" by (auto dest: set_takeWhileD)
  ultimately show ?thesis by (metis takeWhile_dropWhile_id)
qed

text \<open>The size of a block for a request, and which requests are refused at once.\<close>

definition request_size :: "nat \<Rightarrow> nat" where
  "request_size n = max ((n + 3) div 4 * 4) 12"

lemma request_size_ok: "12 \<le> request_size n" "request_size n mod 4 = 0" "n \<le> request_size n"
proof -
  have "(12 :: nat) mod 4 = 0" by simp
  then show "request_size n mod 4 = 0" by (simp add: request_size_def max_def)
qed (simp_all add: request_size_def le_max_iff_disj, presburger)

lemma size_check:
  assumes "n < 2 ^ 16"
  shows "(max (align_size n) MIN_SIZE_ALIGNED > MEM_SIZE_ALIGNED \<or> max (align_size n) MIN_SIZE_ALIGNED < n) \<longleftrightarrow> request_size n > 10240"
    "request_size n \<le> 10240 \<Longrightarrow> max (align_size n) MIN_SIZE_ALIGNED = request_size n"
proof -
  consider "(n + 3) div 4 * 4 < 65536" | "65533 \<le> n" "(n + 3) div 4 * 4 = 65536" using assms by fastforce
  then have "((max (align_size n) MIN_SIZE_ALIGNED > MEM_SIZE_ALIGNED \<or> max (align_size n) MIN_SIZE_ALIGNED < n) \<longleftrightarrow> request_size n > 10240) \<and>
    (request_size n \<le> 10240 \<longrightarrow> max (align_size n) MIN_SIZE_ALIGNED = request_size n)"
  proof cases
    case 1
    then have "max (align_size n) MIN_SIZE_ALIGNED = request_size n"
      by (simp add: align_size_def request_size_def heap_consts)
    then show ?thesis using request_size_ok(3) [of n] by (auto simp: heap_consts)
  next
    case 2
    then show ?thesis by (simp add: align_size_def request_size_def heap_consts)
  qed
  then show "(max (align_size n) MIN_SIZE_ALIGNED > MEM_SIZE_ALIGNED \<or> max (align_size n) MIN_SIZE_ALIGNED < n) \<longleftrightarrow> request_size n > 10240"
    "request_size n \<le> 10240 \<Longrightarrow> max (align_size n) MIN_SIZE_ALIGNED = request_size n" by simp_all
qed

lemma mem_malloc_spec:
  assumes "heap_ok h bs" "0 < n" "n < 2 ^ 16"
  shows "case (if request_size n \<le> 10240 then alloc_blocks (request_size n) bs else None) of
      None \<Rightarrow> mem_malloc n h = Some (None, h)
    | Some (a, bs') \<Rightarrow> \<exists>h'. mem_malloc n h = Some (Some (a + 8), h') \<and> heap_ok h' bs' \<and>
        (\<forall>x \<in> in_use 0 bs. ram h' x = ram h x)"
proof (cases "request_size n \<le> 10240")
  case True
  obtain us vs where u: "bs = us @ vs" "lfree h = hend 0 us" "\<forall>b \<in> set us. fst b"
    using lfree_prefix [of bs] assms(1) by (auto simp: heap_ok_def)
  have "mem_malloc n h = malloc_loop (request_size n) (hend 0 us) h"
    using True assms(2) size_check [OF assms(3)] u(2) by (simp add: mem_malloc_def Let_def)
  moreover have "\<forall>b \<in> set us. \<not> fits (request_size n) b" using u(3) by (auto simp: fits_def)
  ultimately show ?thesis
    using malloc_loop_spec [of h us vs "request_size n"] assms(1) u(1) True request_size_ok by (auto split: option.splits)
next
  case False
  then show ?thesis using assms(2) size_check(1) [OF assms(3)] by (simp add: mem_malloc_def Let_def)
qed

section \<open>Shrinking\<close>

text \<open>A new free block behind the first \<open>n\<close> bytes of a used one, up to \<open>c\<close>.\<close>

abbreviation cut_off :: "mem \<Rightarrow> nat \<Rightarrow> nat \<Rightarrow> nat \<Rightarrow> mem" where
  "cut_off m a n c \<equiv>
     relink (set_mem_next (set_mem_prev (set_mem_next (set_mem_used m (a + 8 + n) 0) (a + 8 + n) c) (a + 8 + n) a) a (a + 8 + n))
       c (a + 8 + n)"

lemma cut_off_blocks:
  assumes "heap_blocks m (us @ ((True, s) # mid) @ vs)" "a = hend 0 us" "c = hend a ((True, s) # mid)"
    "12 \<le> n" "n mod 4 = 0" "c = a + 8 + n + 8 + r" "12 \<le> r"
  shows "heap_blocks (cut_off m a n c) (us @ [(True, n), (False, r)] @ vs)"
    "\<And>x. x < a + 8 + n \<or> x \<in> in_use c vs \<Longrightarrow> a + 8 \<le> x \<or> x < a \<Longrightarrow> cut_off m a n c x = m x"
proof -
  let ?p = "a + 8 + n"
  define m' where "m' = cut_off m a n c"
  have ch: "hchain m a (hlink 0 0 us) ((True, s) # mid)" "hchain m c (hlink a (hlink 0 0 us) ((True, s) # mid)) vs" "hend c vs = 10240"
    using assms(1-3) by (auto simp: heap_blocks_def)
  have pr: "mem_prev m a = hlink 0 0 us" using ch(1) by simp
  have "hchain m 0 0 (us @ (True, s) # mid)" "hend 0 (us @ (True, s) # mid) = c"
    using assms(1-3) by (auto simp: heap_blocks_def)
  from hend_mod [OF this(1)] this(2) have c: "c mod 4 = 0" by simp
  have a: "a mod 4 = 0" using hend_mod [of m 0 0 us] assms(1,2) by (simp add: heap_blocks_def)
  have le: "c \<le> 10240" using hend_ge [of c vs] ch(3) by simp
  have r4: "r mod 4 = 0" using c a assms(5,6) by presburger
  have "hchain (set_mem_next (set_mem_prev (set_mem_next (set_mem_used m ?p 0) ?p c) ?p a) a ?p) c
      (hlink a (hlink 0 0 us) ((True, s) # mid)) vs"
    using ch(2) assms(6) by (subst hchain_cong [where m = m]) (auto simp: mem_simps dest: hheaders_bounds)
  then have rl: "hchain m' c ?p vs" unfolding m'_def using ch(3) assms(6) le by (intro hchain_relink) auto
  have u: "mem_used m a = 1" using ch(1) by simp
  have "heap_blocks m' (us @ [(True, n), (False, r)] @ vs)"
  proof (rule heap_blocks_replace [where m = m and a = a and b = c])
    show "heap_blocks m (us @ ((True, s) # mid) @ vs)" using assms(1) .
    show "hchain m' a (hlink 0 0 us) [(True, n), (False, r)]"
      using assms(4-7) r4 pr u le by (simp add: m'_def mem_simps heap_consts)
    show "hchain m' c (hlink a (hlink 0 0 us) [(True, n), (False, r)]) vs" using rl by simp
    show "hend a [(True, n), (False, r)] = c" using assms(6) by simp
    show "m' x = m x" if "x < a \<or> 10240 \<le> x" for x
      using that assms(6) le hend_room [OF ch(3)] by (auto simp: m'_def mem_simps heap_consts)
  qed (use assms(2,3) in simp_all)
  then show "heap_blocks (cut_off m a n c) (us @ [(True, n), (False, r)] @ vs)" by (simp add: m'_def)
  fix x assume "x < ?p \<or> x \<in> in_use c vs" "a + 8 \<le> x \<or> x < a"
  then show "cut_off m a n c x = m x"
    using in_use_bounds [of x c vs] assms(6) by (auto simp: mem_simps)
qed

definition trim_blocks :: "nat \<Rightarrow> nat \<Rightarrow> hblock list \<Rightarrow> hblock list" where
  "trim_blocks n s vs =
     (case vs of
        (False, t) # ws \<Rightarrow> if n = s then (True, s) # vs else (True, n) # (False, t + (s - n)) # ws
      | _ \<Rightarrow> if n + 20 \<le> s then (True, n) # (False, s - n - 8) # vs else (True, s) # vs)"

lemma mem_trim_spec:
  assumes "heap_ok h (us @ (True, s) # vs)" "new_size < 2 ^ 16" "request_size new_size \<le> s"
  defines "n \<equiv> request_size new_size" and "a \<equiv> hend 0 us"
  shows "if vs = [] \<and> n + 20 \<le> s then mem_trim (a + 8) new_size h = None
    else \<exists>h'. mem_trim (a + 8) new_size h = Some (Some (a + 8), h') \<and> heap_ok h' (us @ trim_blocks n s vs) \<and>
      (\<forall>x \<in> in_use 0 us \<union> {a + 8..<a + 8 + n} \<union> in_use (a + 8 + s) vs. ram h' x = ram h x)"
proof -
  let ?m = "ram h" and ?b = "a + 8 + s" and ?p = "a + 8 + n"
  have ok: "heap_blocks ?m (us @ (True, s) # vs)" "lfree h = first_free 0 (us @ (True, s) # vs)" "no_holes (us @ (True, s) # vs)"
    using assms(1) by (simp_all add: heap_ok_def)
  note sp = heap_blocks_split [OF ok(1) a_def [THEN meta_eq_to_obj_eq]]
  have b: "?b \<le> 10240" "mem_next ?m a = ?b" "s mod 4 = 0" using sp(1) by auto
  have n: "12 \<le> n" "n mod 4 = 0" "n \<le> s" using request_size_ok [of new_size] assms(3) by (simp_all add: n_def)
  have sz: "max (align_size new_size) MIN_SIZE_ALIGNED = n"
    using size_check(2) [OF assms(2)] n(3) b(1) by (simp add: n_def)
  have big: "\<not> n > MEM_SIZE_ALIGNED" "\<not> n < new_size" using n b request_size_ok(3) [of new_size] by (simp_all add: heap_consts n_def)
  have size: "sub16 (sub16 ?b a) SIZEOF_STRUCT_MEM = s" using b(1) by (simp add: sub_le heap_consts)
  have run: "mem_trim (a + 8) new_size h =
      (if n = s then Some (Some (a + 8), h)
       else if mem_used ?m ?b = 0
       then if ?b = 10240 then None
            else Some (Some (a + 8), \<lparr>ram = cut_off ?m a n (mem_next ?m ?b), lfree = (if lfree h = ?b then ?p else lfree h)\<rparr>)
       else if n + 20 \<le> s
       then if ?b = 10240 then None
            else Some (Some (a + 8), \<lparr>ram = cut_off ?m a n ?b, lfree = (if ?p < lfree h then ?p else lfree h)\<rparr>)
       else Some (Some (a + 8), h))"
    using sz big b(1,2) n(1,3) size unfolding mem_trim_def
    by (simp add: Let_def heap_consts mem_simps)
  show ?thesis
  proof (cases "\<exists>t ws. vs = (False, t) # ws")
    case True
    then obtain t ws where vs: "vs = (False, t) # ws" by blast
    then have t: "mem_used ?m ?b = 0" "mem_next ?m ?b = ?b + 8 + t" "?b \<noteq> 10240" "12 \<le> t" using sp(2) by auto
    show ?thesis
    proof (cases "n = s")
      case True
      then show ?thesis using assms(1) run vs by (simp add: trim_blocks_def)
    next
      case False
      let ?c = "?b + 8 + t" and ?r = "t + (s - n)"
      have c: "heap_blocks (cut_off ?m a n ?c) (us @ [(True, n), (False, ?r)] @ ws)"
        "\<And>x. x < ?p \<or> x \<in> in_use ?c ws \<Longrightarrow> a + 8 \<le> x \<or> x < a \<Longrightarrow> cut_off ?m a n ?c x = ?m x"
        using ok(1) vs n t False
        by (intro cut_off_blocks [where s = s and mid = "[(False, t)]" and r = ?r and us = us]; simp add: a_def)+
      have lf: "(if lfree h = ?b then ?p else lfree h) = first_free 0 (us @ (True, n) # (False, ?r) # ws)"
        using ok(2) vs first_free_less [of us 0] by (cases "\<exists>b \<in> set us. \<not> fst b") (auto simp: first_free_append a_def)
      have nh: "no_holes (us @ (True, n) # (False, ?r) # ws)"
        using ok(3) vs no_holes_Cons [of t ws ?r] by (auto simp: successively_append_iff)
      have fr: "\<forall>x \<in> in_use 0 us \<union> {a + 8..<a + 8 + n} \<union> in_use ?b vs. cut_off ?m a n ?c x = ?m x"
        using vs by (intro ballI c(2)) (fastforce simp: a_def dest: in_use_bounds)+
      have "mem_trim (a + 8) new_size h = Some (Some (a + 8), \<lparr>ram = cut_off ?m a n ?c, lfree = (if lfree h = ?b then ?p else lfree h)\<rparr>)"
        unfolding run t(2) using t(1,3) False by simp
      then show ?thesis using c(1) lf nh fr vs False by (simp add: heap_ok_def trim_blocks_def del: in_use.simps)
    qed
  next
    case False
    then have u: "mem_used ?m ?b = 1" using next_not_free [OF ok(1) a_def [THEN meta_eq_to_obj_eq]] by simp
    have e: "?b = 10240 \<longleftrightarrow> vs = []" using sp(2,3) hend_greater [of vs ?b] by (cases vs) auto
    have tb: "trim_blocks n s vs = (if n + 20 \<le> s then (True, n) # (False, s - n - 8) # vs else (True, s) # vs)"
      using False by (auto simp: trim_blocks_def split: list.splits bool.splits)
    show ?thesis
    proof (cases "n + 20 \<le> s")
      case True
      have c: "heap_blocks (cut_off ?m a n ?b) (us @ [(True, n), (False, s - n - 8)] @ vs)"
        "\<And>x. x < ?p \<or> x \<in> in_use ?b vs \<Longrightarrow> a + 8 \<le> x \<or> x < a \<Longrightarrow> cut_off ?m a n ?b x = ?m x"
        using ok(1) n True by (intro cut_off_blocks [where s = s and mid = "[]" and r = "s - n - 8" and us = us]; simp add: a_def)+
      have lf: "(if ?p < lfree h then ?p else lfree h) = first_free 0 (us @ (True, n) # (False, s - n - 8) # vs)"
        using ok(2) first_free_less [of us 0] first_free_ge [of ?b vs] True
        by (cases "\<exists>b \<in> set us. \<not> fst b") (auto simp: first_free_append a_def)
      have nh: "no_holes (us @ (True, n) # (False, s - n - 8) # vs)"
        using ok(3) False by (cases vs) (auto simp: successively_append_iff)
      have fr: "\<forall>x \<in> in_use 0 us \<union> {a + 8..<a + 8 + n} \<union> in_use ?b vs. cut_off ?m a n ?b x = ?m x"
        using True by (intro ballI c(2)) (fastforce simp: a_def dest: in_use_bounds)+
      have "mem_trim (a + 8) new_size h = (if ?b = 10240 then None
          else Some (Some (a + 8), \<lparr>ram = cut_off ?m a n ?b, lfree = (if ?p < lfree h then ?p else lfree h)\<rparr>))"
        unfolding run using u True by simp
      then show ?thesis using c(1) lf nh fr e True by (simp add: heap_ok_def tb)
    next
      case small: False
      then show ?thesis using run u assms(1) by (simp add: tb)
    qed
  qed
qed

section \<open>Start and sanity\<close>

lemma mem_init_ok: "heap_ok (mem_init m) [(False, 10232)]"
  by (simp add: heap_ok_def heap_blocks_def mem_init_def Let_def mem_simps heap_consts)

lemma sanity_loop_passes:
  assumes "heap_ok h (us @ vs)" "us \<noteq> []" "l = of_bool (fst (last us))"
  shows "sanity_loop h (hend 0 us) l = Some 10240"
  using assms
proof (induction vs arbitrary: us l)
  case Nil
  then have "hend 0 us = 10240" by (simp add: heap_ok_def heap_blocks_def)
  then show ?case by (subst sanity_loop.simps) (simp add: heap_consts)
next
  case (Cons v vs)
  obtain u s where v: "v = (u, s)" by force
  have bl: "heap_blocks (ram h) (us @ (u, s) # vs)" using Cons.prems v by (simp add: heap_ok_def)
  have ch: "hchain (ram h) 0 0 us" using bl by (simp add: heap_blocks_def)
  note h = hchain_head [OF heap_blocks_split(1) [OF bl refl]]
  have b: "hend 0 us + 8 + s \<le> 10240" using heap_blocks_split(1) [OF bl refl] by simp
  have "0 < hend 0 us" using Cons.prems(2) hend_greater [of us 0] by simp
  moreover have "hend 0 us mod 4 = 0" using hend_mod [OF ch] by simp
  moreover have "mem_prev (ram h) (hend 0 us) < 10240"
  proof -
    obtain us' f t where us: "us = us' @ [(f, t)]" using Cons.prems(2) by (metis rev_exhaust surj_pair)
    then show ?thesis using h(2) ch by simp
  qed
  moreover have "fst (last us) \<or> u"
    using Cons.prems(1,2) v by (auto simp: heap_ok_def successively_append_iff)
  ultimately have "sanity_loop h (hend 0 us) l = sanity_loop h (hend 0 (us @ [v])) (of_bool u)"
    using h b mem_link_valid_block [OF bl] Cons.prems(3) v
    by (subst sanity_loop.simps) (auto simp: heap_consts)
  then show ?case using Cons.IH [of "us @ [v]" "of_bool u"] Cons.prems(1) v by simp
qed

lemma mem_sanity_ok:
  assumes "heap_ok h bs"
  shows "mem_sanity h"
proof -
  obtain u s vs where bs: "bs = (u, s) # vs" using assms by (cases bs) (auto simp: heap_ok_def heap_blocks_def)
  have bl: "heap_blocks (ram h) ([] @ (u, s) # vs)" using assms bs by (simp add: heap_ok_def)
  have "sanity_loop h (hend 0 [(u, s)]) (of_bool u) = Some 10240"
    using assms bs by (intro sanity_loop_passes [where vs = vs]) simp_all
  then show ?thesis
    using hchain_head [OF heap_blocks_split(1) [OF bl refl]] heap_blocks_split(1) [OF bl refl] bl
    by (simp add: mem_sanity_def heap_blocks_def heap_consts)
qed

end
