(* ===== verification/Memp.thy ===== *)
theory Memp
  imports Lwip_Heap
begin

text \<open>
  The pools of lwIP (\<open>lwip/src/core/memp.c\<close>): elements of one size in an array, the free ones in a linked list whose
  links lie in the elements themselves. The map of links is that memory: what a program stores into an element it
  holds may change the link there. A failed assertion ends the program and is \<open>None\<close>. The guards around elements and
  the statistics are switched off or left out.
\<close>

section \<open>Model\<close>

record memp_desc =
  md_size :: nat
  md_num :: nat
  md_base :: nat

record memp_pool =
  mp_tab :: "nat option"
  mp_next :: "nat \<Rightarrow> nat option"

definition LWIP_MEM_ALIGN :: "nat \<Rightarrow> nat" where
  "LWIP_MEM_ALIGN a = (a + MEM_ALIGNMENT - 1) div MEM_ALIGNMENT * MEM_ALIGNMENT"

fun init_pool_loop :: "nat \<Rightarrow> nat \<Rightarrow> nat \<Rightarrow> memp_pool \<Rightarrow> memp_pool" where
  "init_pool_loop 0 sz memp mp = mp"
| "init_pool_loop (Suc n) sz memp mp =
     init_pool_loop n sz (memp + sz) \<lparr>mp_tab = Some memp, mp_next = (mp_next mp)(memp := mp_tab mp)\<rparr>"

definition memp_init_pool :: "memp_desc \<Rightarrow> memp_pool \<Rightarrow> memp_pool" where
  "memp_init_pool desc mp = init_pool_loop (md_num desc) (md_size desc) (LWIP_MEM_ALIGN (md_base desc)) (mp\<lparr>mp_tab := None\<rparr>)"

definition do_memp_malloc_pool :: "memp_pool \<Rightarrow> (nat option \<times> memp_pool) option" where
  "do_memp_malloc_pool mp =
     (case mp_tab mp of
        None \<Rightarrow> Some (None, mp)
      | Some memp \<Rightarrow>
          let mp1 = mp\<lparr>mp_tab := mp_next mp memp\<rparr>
          in if memp mod MEM_ALIGNMENT \<noteq> 0 then None else Some (Some memp, mp1))"

definition do_memp_free_pool :: "nat \<Rightarrow> memp_pool \<Rightarrow> memp_pool option" where
  "do_memp_free_pool memp mp =
     (if memp mod MEM_ALIGNMENT \<noteq> 0 then None
      else Some \<lparr>mp_tab = Some memp, mp_next = (mp_next mp)(memp := mp_tab mp)\<rparr>)"

text \<open>The pools of the program, by their number; \<open>memp_malloc_pool\<close> and \<open>memp_free_pool\<close> serve pools of the user.\<close>

definition memp_init :: "memp_desc list \<Rightarrow> memp_pool list \<Rightarrow> memp_pool list" where
  "memp_init memp_pools mps = map2 memp_init_pool memp_pools mps"

definition memp_malloc_pool :: "memp_pool option \<Rightarrow> (nat option \<times> memp_pool option) option" where
  "memp_malloc_pool desc =
     (case desc of None \<Rightarrow> None | Some mp \<Rightarrow> map_option (\<lambda>(p, mp'). (p, Some mp')) (do_memp_malloc_pool mp))"

definition memp_malloc :: "nat \<Rightarrow> memp_pool list \<Rightarrow> (nat option \<times> memp_pool list) option" where
  "memp_malloc t mps =
     (if \<not> t < length mps then Some (None, mps)
      else map_option (\<lambda>(p, mp'). (p, mps[t := mp'])) (do_memp_malloc_pool (mps ! t)))"

definition memp_free_pool :: "nat option \<Rightarrow> memp_pool option \<Rightarrow> memp_pool option option" where
  "memp_free_pool m desc =
     (case desc of None \<Rightarrow> None
      | Some mp \<Rightarrow> (case m of None \<Rightarrow> Some (Some mp) | Some memp \<Rightarrow> map_option Some (do_memp_free_pool memp mp)))"

definition memp_free :: "nat \<Rightarrow> nat option \<Rightarrow> memp_pool list \<Rightarrow> memp_pool list option" where
  "memp_free t m mps =
     (if \<not> t < length mps then Some mps
      else (case m of None \<Rightarrow> Some mps
            | Some memp \<Rightarrow> map_option (\<lambda>mp'. mps[t := mp']) (do_memp_free_pool memp (mps ! t))))"

text \<open>The check for a circle: a slow and a fast pointer.\<close>

partial_function (option) sanity_walk :: "(nat \<Rightarrow> nat option) \<Rightarrow> nat option \<Rightarrow> nat option \<Rightarrow> nat option" where
  "sanity_walk nx t h =
     (case t of None \<Rightarrow> Some 1
      | Some t' \<Rightarrow> (case h of None \<Rightarrow> Some 1
         | Some h' \<Rightarrow> if t' = h' then Some 0 else sanity_walk nx (nx t') (case nx h' of None \<Rightarrow> None | Some h2 \<Rightarrow> nx h2)))"

definition memp_sanity :: "memp_pool \<Rightarrow> nat option" where
  "memp_sanity mp = (case mp_tab mp of None \<Rightarrow> Some 1 | Some t \<Rightarrow> sanity_walk (mp_next mp) (Some t) (mp_next mp t))"

section \<open>The circle check\<close>

text \<open>The element \<open>k\<close> links behind the first one.\<close>

fun walk :: "(nat \<Rightarrow> nat option) \<Rightarrow> nat option \<Rightarrow> nat \<Rightarrow> nat option" where
  "walk nx p 0 = p"
| "walk nx p (Suc k) = Option.bind (walk nx p k) nx"

fun free_path :: "(nat \<Rightarrow> nat option) \<Rightarrow> nat option \<Rightarrow> nat list \<Rightarrow> bool" where
  "free_path nx p [] = (p = None)"
| "free_path nx p (x # xs) = (p = Some x \<and> free_path nx (nx x) xs)"

lemma walk_shift: "walk nx p (Suc k) = walk nx (Option.bind p nx) k"
  by (induction k) simp_all

lemma walk_add: "walk nx p (j + k) = walk nx (walk nx p j) k"
  by (induction k) simp_all

lemma walk_None: "walk nx None k = None"
  by (induction k) simp_all

lemma walk_end: "walk nx p k = None \<Longrightarrow> k \<le> l \<Longrightarrow> walk nx p l = None"
  using walk_add [of nx p k "l - k"] by (simp add: walk_None)

lemma free_path_iff: "free_path nx p xs \<longleftrightarrow> (\<forall>k. walk nx p k = (if k < length xs then Some (xs ! k) else None))"
proof (induction xs arbitrary: p)
  case Nil
  then show ?case using walk_None [of nx] by (metis free_path.simps(1) list.size(3) not_less_zero walk.simps(1))
next
  case (Cons x xs)
  have "free_path nx p (x # xs) \<longleftrightarrow> p = Some x \<and> (\<forall>k. walk nx (nx x) k = (if k < length xs then Some (xs ! k) else None))"
    using Cons by simp
  also have "\<dots> \<longleftrightarrow> (\<forall>k. walk nx p k = (if k < length (x # xs) then Some ((x # xs) ! k) else None))"
  proof (intro iffI allI, goal_cases)
    case (1 k)
    then show ?case by (cases k) (simp_all add: walk_shift del: walk.simps(2))
  next
    case 2
    have p: "p = Some x" using 2 [rule_format, of 0] by simp
    have "walk nx (nx x) k = (if k < length xs then Some (xs ! k) else None)" for k
      using 2 [rule_format, of "Suc k"] p by (simp add: walk_shift del: walk.simps(2))
    with p show ?case by simp
  qed
  finally show ?case .
qed

lemma sanity_walk_steps:
  "sanity_walk nx (walk nx p i) (walk nx p (2 * i + 1)) =
     (if walk nx p i = None \<or> walk nx p (2 * i + 1) = None then Some 1
      else if walk nx p i = walk nx p (2 * i + 1) then Some 0
      else sanity_walk nx (walk nx p (i + 1)) (walk nx p (2 * (i + 1) + 1)))"
proof -
  have w: "walk nx p (i + 1) = Option.bind (walk nx p i) nx"
    "walk nx p (2 * (i + 1) + 1) = Option.bind (Option.bind (walk nx p (2 * i + 1)) nx) nx" by simp_all
  show ?thesis unfolding w
    by (subst sanity_walk.simps) (cases "walk nx p i"; cases "walk nx p (2 * i + 1)"; auto split: option.splits)
qed

lemma walk_finite_path:
  assumes "free_path nx p xs"
  shows "sanity_walk nx (walk nx p i) (walk nx p (2 * i + 1)) = Some 1"
proof (induction "length xs - i" arbitrary: i)
  case 0
  then show ?case using assms by (subst sanity_walk_steps) (simp add: free_path_iff)
next
  case (Suc n)
  have "walk nx p i \<noteq> walk nx p (2 * i + 1)" if "walk nx p i \<noteq> None" "walk nx p (2 * i + 1) \<noteq> None"
  proof
    assume eq: "walk nx p i = walk nx p (2 * i + 1)"
    have "walk nx p i = walk nx p (i + k * (i + 1))" for k
    proof (induction k)
      case (Suc k)
      have "walk nx p (i + Suc k * (i + 1)) = walk nx (walk nx p (2 * i + 1)) (k * (i + 1))"
      proof -
        have "i + Suc k * (i + 1) = 2 * i + 1 + k * (i + 1)" by simp
        then show ?thesis by (simp only: walk_add)
      qed
      also have "\<dots> = walk nx p (i + k * (i + 1))" using eq walk_add [of nx p i "k * (i + 1)"] by simp
      finally show ?case using Suc by simp
    qed simp
    then have "walk nx p i = walk nx p (i + length xs * (i + 1))" .
    then show False using assms that(1) by (simp add: free_path_iff)
  qed
  moreover have "sanity_walk nx (walk nx p (i + 1)) (walk nx p (2 * (i + 1) + 1)) = Some 1"
    using Suc(2) by (intro Suc(1)) simp
  ultimately show ?case by (subst sanity_walk_steps) (simp del: walk.simps)
qed

text \<open>A list that never ends, over finitely many elements, runs into a circle.\<close>

lemma walk_meets:
  assumes "finite A" "\<And>k. walk nx p k \<in> Some ` A"
  obtains i where "walk nx p i = walk nx p (2 * i + 1)"
proof -
  have "\<not> inj (walk nx p)"
    using assms finite_subset [of "range (walk nx p)" "Some ` A"] by (auto dest: finite_imageD)
  then obtain m n where mn: "m < n" "walk nx p m = walk nx p n"
    unfolding inj_def by (metis linorder_neqE_nat)
  define d where "d = n - m"
  have d: "0 < d" "walk nx p (m + d) = walk nx p m" using mn by (simp_all add: d_def)
  have later: "walk nx p (k + d) = walk nx p k" if "m \<le> k" for k
  proof -
    have "walk nx p (m + d + (k - m)) = walk nx p (m + (k - m))" using d(2) by (simp only: walk_add)
    then show ?thesis using that by (simp add: add.commute add.left_commute)
  qed
  have turns: "walk nx p (k + j * d) = walk nx p k" if "m \<le> k" for j k
  proof (induction j)
    case (Suc j)
    have "walk nx p (k + Suc j * d) = walk nx p (k + j * d + d)" by (simp add: algebra_simps)
    then show ?case using later [of "k + j * d"] Suc that by simp
  qed simp
  define i where "i = (m + 1) * d - 1"
  have "(m + 1) * 1 \<le> (m + 1) * d" using d(1) by (intro mult_le_mono2) simp
  then have "m \<le> i" "i + (m + 1) * d = 2 * i + 1" by (simp_all add: i_def)
  then have "walk nx p i = walk nx p (2 * i + 1)" using turns [of i "m + 1"] by (simp only:)
  then show ?thesis by (rule that)
qed

lemma walk_circle:
  assumes "\<And>k. walk nx p k \<noteq> None" "walk nx p n = walk nx p (2 * n + 1)" "i \<le> n"
  shows "sanity_walk nx (walk nx p i) (walk nx p (2 * i + 1)) = Some 0"
  using assms(3)
proof (induction "n - i" arbitrary: i)
  case 0
  then have "i = n" by simp
  then show ?case using assms(1,2) by (subst sanity_walk_steps) (simp del: walk.simps)
next
  case (Suc k)
  then have "sanity_walk nx (walk nx p (i + 1)) (walk nx p (2 * (i + 1) + 1)) = Some 0" by (intro Suc.hyps(1)) simp_all
  then show ?case using assms(1) by (subst sanity_walk_steps) (simp del: walk.simps)
qed

lemma memp_sanity_start: "memp_sanity mp = sanity_walk (mp_next mp) (walk (mp_next mp) (mp_tab mp) 0) (walk (mp_next mp) (mp_tab mp) (2 * 0 + 1))"
  by (cases "mp_tab mp") (simp_all add: memp_sanity_def sanity_walk.simps [of _ None])

lemma endless_or_path:
  assumes "finite A" "\<And>k x. walk nx p k = Some x \<Longrightarrow> x \<in> A"
  shows "(\<exists>xs. free_path nx p xs) \<or> (\<forall>k. walk nx p k \<noteq> None)"
proof (cases "\<exists>k. walk nx p k = None")
  case True
  define n where "n = (LEAST k. walk nx p k = None)"
  have n: "walk nx p n = None" using True unfolding n_def by (rule LeastI_ex)
  have "walk nx p k \<noteq> None" if "k < n" for k using that not_less_Least unfolding n_def by blast
  then have "free_path nx p (map (\<lambda>k. the (walk nx p k)) [0..<n])"
    using walk_end [OF n] by (auto simp: free_path_iff)
  then show ?thesis by blast
qed simp

lemma free_path_not_endless: "free_path nx p xs \<Longrightarrow> \<exists>k. walk nx p k = None"
  by (auto simp: free_path_iff intro!: exI [of _ "length xs"])

lemma memp_sanity_spec:
  assumes "finite A" "\<And>k x. walk (mp_next mp) (mp_tab mp) k = Some x \<Longrightarrow> x \<in> A"
  shows "memp_sanity mp = Some (if \<exists>xs. free_path (mp_next mp) (mp_tab mp) xs then 1 else 0)"
proof (cases "\<exists>xs. free_path (mp_next mp) (mp_tab mp) xs")
  case True
  then obtain xs where "free_path (mp_next mp) (mp_tab mp) xs" by blast
  from walk_finite_path [OF this, of 0] True show ?thesis by (simp only: memp_sanity_start if_True)
next
  case False
  with endless_or_path [of A "mp_next mp" "mp_tab mp"] assms have e: "\<And>k. walk (mp_next mp) (mp_tab mp) k \<noteq> None" by blast
  then have "\<And>k. walk (mp_next mp) (mp_tab mp) k \<in> Some ` A" using assms(2) by (metis imageI not_None_eq)
  with walk_meets [OF assms(1)] obtain n where "walk (mp_next mp) (mp_tab mp) n = walk (mp_next mp) (mp_tab mp) (2 * n + 1)" by metis
  from walk_circle [OF e this, of 0] False show ?thesis by (simp only: memp_sanity_start if_False zero_le)
qed

section \<open>Pools\<close>

definition elements :: "memp_desc \<Rightarrow> nat set" where
  "elements desc = (\<lambda>i. LWIP_MEM_ALIGN (md_base desc) + i * md_size desc) ` {..<md_num desc}"

text \<open>Sizes are rounded up by the declaration of a pool, and a link fits.\<close>

definition desc_ok :: "memp_desc \<Rightarrow> bool" where
  "desc_ok desc \<longleftrightarrow> 8 \<le> md_size desc \<and> md_size desc mod 4 = 0"

definition pool_ok :: "memp_desc \<Rightarrow> memp_pool \<Rightarrow> nat set \<Rightarrow> bool" where
  "pool_ok desc mp held \<longleftrightarrow>
     (\<exists>xs. free_path (mp_next mp) (mp_tab mp) xs \<and> distinct xs \<and> set xs \<inter> held = {} \<and> set xs \<union> held = elements desc)"

lemma finite_elements [simp]: "finite (elements desc)"
  by (simp add: elements_def)

lemma card_elements: "desc_ok desc \<Longrightarrow> card (elements desc) = md_num desc"
  by (auto simp: elements_def desc_ok_def card_image inj_on_def)

lemma elements_aligned: "desc_ok desc \<Longrightarrow> p \<in> elements desc \<Longrightarrow> p mod MEM_ALIGNMENT = 0"
  by (auto simp: elements_def desc_ok_def LWIP_MEM_ALIGN_def heap_consts mod_add_eq mod_eq_0_iff_dvd)

lemma elements_apart:
  assumes "p \<in> elements desc" "q \<in> elements desc" "p \<noteq> q"
  shows "p + md_size desc \<le> q \<or> q + md_size desc \<le> p"
proof -
  obtain i j where ij: "p = LWIP_MEM_ALIGN (md_base desc) + i * md_size desc" "q = LWIP_MEM_ALIGN (md_base desc) + j * md_size desc"
    using assms(1,2) by (auto simp: elements_def)
  have "i * md_size desc + md_size desc \<le> j * md_size desc" if "i < j" for i j
    using mult_le_mono1 [of "Suc i" j "md_size desc"] that by simp
  moreover have "i < j \<or> j < i" using ij assms(3) by (cases i j rule: linorder_cases) auto
  ultimately show ?thesis using ij by fastforce
qed

lemma free_path_cong: "free_path nx p xs \<Longrightarrow> (\<And>x. x \<in> set xs \<Longrightarrow> nx' x = nx x) \<Longrightarrow> free_path nx' p xs"
  by (induction xs arbitrary: p) auto

lemma init_pool_loop_path:
  assumes "free_path (mp_next mp) (mp_tab mp) xs" "\<forall>x \<in> set xs. x < a" "0 < sz" "distinct xs"
  shows "\<exists>ys. free_path (mp_next (init_pool_loop n sz a mp)) (mp_tab (init_pool_loop n sz a mp)) ys \<and> distinct ys
     \<and> set ys = set xs \<union> (\<lambda>i. a + i * sz) ` {..<n}"
  using assms
proof (induction n arbitrary: a mp xs)
  case (Suc n)
  let ?mp = "\<lparr>mp_tab = Some a, mp_next = (mp_next mp)(a := mp_tab mp)\<rparr>"
  have "free_path ((mp_next mp)(a := mp_tab mp)) (mp_tab mp) xs"
    using Suc.prems(1,2) by (intro free_path_cong [OF Suc.prems(1)]) auto
  then have path: "free_path (mp_next ?mp) (mp_tab ?mp) (a # xs)" "\<forall>x \<in> set (a # xs). x < a + sz" "distinct (a # xs)"
    using Suc.prems(2-4) by auto
  have "(\<lambda>i. a + i * sz) ` {..<Suc n} = insert a ((\<lambda>i. a + sz + i * sz) ` {..<n})"
    unfolding lessThan_Suc_eq_insert_0 by (auto simp: image_image add.assoc)
  then show ?case using Suc.IH [OF path(1,2) Suc.prems(3) path(3)] by auto
qed auto

lemma memp_init_pool_ok: "desc_ok desc \<Longrightarrow> pool_ok desc (memp_init_pool desc mp) {}"
  using init_pool_loop_path [of "mp\<lparr>mp_tab := None\<rparr>" "[]" "LWIP_MEM_ALIGN (md_base desc)" "md_size desc" "md_num desc"]
  by (simp add: pool_ok_def memp_init_pool_def elements_def desc_ok_def)

lemma memp_malloc_spec:
  assumes "desc_ok desc" "pool_ok desc mp held"
  shows "if held = elements desc then do_memp_malloc_pool mp = Some (None, mp)
    else \<exists>p mp'. do_memp_malloc_pool mp = Some (Some p, mp') \<and> p \<in> elements desc - held \<and> pool_ok desc mp' (insert p held)"
proof -
  obtain xs where xs: "free_path (mp_next mp) (mp_tab mp) xs" "distinct xs" "set xs \<inter> held = {}" "set xs \<union> held = elements desc"
    using assms(2) by (auto simp: pool_ok_def)
  show ?thesis
  proof (cases xs)
    case Nil
    then show ?thesis using xs by (simp add: do_memp_malloc_pool_def)
  next
    case (Cons p ys)
    then have p: "p \<in> elements desc - held" using xs by auto
    then have "do_memp_malloc_pool mp = Some (Some p, mp\<lparr>mp_tab := mp_next mp p\<rparr>)"
      using xs(1) Cons elements_aligned [OF assms(1)] by (simp add: do_memp_malloc_pool_def)
    moreover have "pool_ok desc (mp\<lparr>mp_tab := mp_next mp p\<rparr>) (insert p held)"
      using xs Cons unfolding pool_ok_def by (intro exI [of _ ys]) auto
    ultimately show ?thesis using p by auto
  qed
qed

lemma memp_free_spec:
  assumes "desc_ok desc" "pool_ok desc mp held" "p \<in> held"
  shows "\<exists>mp'. do_memp_free_pool p mp = Some mp' \<and> pool_ok desc mp' (held - {p})"
proof -
  obtain xs where xs: "free_path (mp_next mp) (mp_tab mp) xs" "distinct xs" "set xs \<inter> held = {}" "set xs \<union> held = elements desc"
    using assms(2) by (auto simp: pool_ok_def)
  let ?mp = "\<lparr>mp_tab = Some p, mp_next = (mp_next mp)(p := mp_tab mp)\<rparr>"
  have "do_memp_free_pool p mp = Some ?mp"
    using elements_aligned [OF assms(1), of p] xs(4) assms(3) by (auto simp: do_memp_free_pool_def)
  moreover have "free_path (mp_next ?mp) (mp_tab mp) xs"
    using xs(1,3) assms(3) by (intro free_path_cong [OF xs(1)]) auto
  then have "pool_ok desc ?mp (held - {p})"
    using xs assms(3) unfolding pool_ok_def by (intro exI [of _ "p # xs"]) auto
  ultimately show ?thesis by blast
qed

lemma pool_store: "pool_ok desc mp held \<Longrightarrow> p \<in> held \<Longrightarrow> pool_ok desc (mp\<lparr>mp_next := (mp_next mp)(p := x)\<rparr>) held"
proof -
  assume a: "pool_ok desc mp held" "p \<in> held"
  then obtain xs where xs: "free_path (mp_next mp) (mp_tab mp) xs" "distinct xs" "set xs \<inter> held = {}" "set xs \<union> held = elements desc"
    by (auto simp: pool_ok_def)
  have "free_path ((mp_next mp)(p := x)) (mp_tab mp) xs"
    by (rule free_path_cong [OF xs(1)]) (use xs(3) a(2) in auto)
  with xs show ?thesis by (auto simp: pool_ok_def)
qed

text \<open>Freeing an element that is free already closes a circle.\<close>

lemma free_path_closed: "free_path nx p xs \<Longrightarrow> x \<in> set xs \<Longrightarrow> nx x = Some y \<Longrightarrow> y \<in> set xs"
proof (induction xs arbitrary: p)
  case (Cons z zs)
  then show ?case by (cases zs) auto
qed simp

lemma walk_closed: "p \<in> A \<Longrightarrow> (\<And>x y. x \<in> A \<Longrightarrow> nx x = Some y \<Longrightarrow> y \<in> A) \<Longrightarrow> walk nx (Some p) k = Some z \<Longrightarrow> z \<in> A"
  by (induction k arbitrary: z) (auto simp: bind_eq_Some_conv)

lemma circle_not_path:
  assumes "walk nx (Some p) (Suc c) = Some p"
  shows "\<not> free_path nx (Some p) ys"
proof
  assume path: "free_path nx (Some p) ys"
  have "walk nx (Some p) (j * Suc c) = Some p" for j
  proof (induction j)
    case (Suc j)
    have "walk nx (Some p) (Suc j * Suc c) = walk nx (walk nx (Some p) (j * Suc c)) (Suc c)"
      by (simp only: walk_add [symmetric] mult_Suc add.commute)
    then show ?case using Suc assms by simp
  qed simp
  from this [of "length ys"] path show False by (simp add: free_path_iff)
qed

lemma double_free_circle:
  assumes "free_path (mp_next mp) (mp_tab mp) xs" "distinct xs" "p \<in> set xs"
  shows "memp_sanity \<lparr>mp_tab = Some p, mp_next = (mp_next mp)(p := mp_tab mp)\<rparr> = Some 0" (is "memp_sanity ?mp = _")
proof -
  obtain us vs where xs: "xs = us @ p # vs" using split_list [OF assms(3)] by blast
  let ?nx = "(mp_next mp)(p := mp_tab mp)"
  have "walk ?nx (mp_tab mp) k = walk (mp_next mp) (mp_tab mp) k" if "k \<le> length us" for k
    using that
  proof (induction k)
    case (Suc k)
    then have "walk (mp_next mp) (mp_tab mp) k = Some (us ! k)" using assms(1) xs by (simp add: free_path_iff nth_append)
    moreover have "us ! k \<noteq> p" using Suc.prems assms(2) xs nth_mem [of k us] by auto
    ultimately show ?case using Suc by simp
  qed simp
  then have "walk ?nx (mp_tab mp) (length us) = Some p" using assms(1) xs by (simp add: free_path_iff)
  then have "walk ?nx (Some p) (Suc (length us)) = Some p" by (simp add: walk_shift del: walk.simps)
  then have "\<nexists>ys. free_path (mp_next ?mp) (mp_tab ?mp) ys" using circle_not_path by simp
  moreover have "x \<in> set xs" if "walk (mp_next ?mp) (mp_tab ?mp) k = Some x" for k x
  proof (rule walk_closed [of p "set xs"])
    show "walk ?nx (Some p) k = Some x" using that by simp
    show "y \<in> set xs" if "a \<in> set xs" "?nx a = Some y" for a y
      using that free_path_closed [OF assms(1)] assms(1) by (cases xs) (auto split: if_splits)
  qed (rule assms(3))
  ultimately show ?thesis using memp_sanity_spec [of "set xs" ?mp] by simp
qed

section \<open>Histories\<close>

text \<open>
  What the program does with a pool: it frees only elements it holds, and stores only into them, where it may
  overwrite the link.
\<close>

inductive pool_history :: "memp_desc \<Rightarrow> memp_pool \<Rightarrow> nat set \<Rightarrow> bool" for desc where
  start: "pool_history desc (memp_init_pool desc mp) {}"
| alloc: "pool_history desc mp held \<Longrightarrow> do_memp_malloc_pool mp = Some (Some p, mp') \<Longrightarrow> pool_history desc mp' (insert p held)"
| refused: "pool_history desc mp held \<Longrightarrow> do_memp_malloc_pool mp = Some (None, mp') \<Longrightarrow> pool_history desc mp' held"
| free: "pool_history desc mp held \<Longrightarrow> p \<in> held \<Longrightarrow> do_memp_free_pool p mp = Some mp' \<Longrightarrow> pool_history desc mp' (held - {p})"
| store: "pool_history desc mp held \<Longrightarrow> p \<in> held \<Longrightarrow> pool_history desc (mp\<lparr>mp_next := (mp_next mp)(p := x)\<rparr>) held"

lemma pool_history_ok: "pool_history desc mp held \<Longrightarrow> desc_ok desc \<Longrightarrow> pool_ok desc mp held"
proof (induction rule: pool_history.induct)
  case (alloc mp held p mp')
  then show ?case using memp_malloc_spec [of desc mp held] by (auto split: if_splits)
next
  case (refused mp held mp')
  then show ?case using memp_malloc_spec [of desc mp held] by (auto split: if_splits)
next
  case (free mp held p mp')
  then show ?case using memp_free_spec [of desc mp held p] by auto
qed (simp_all add: memp_init_pool_ok pool_store)

section \<open>Properties\<close>

text \<open>
  The circle check of a pool always ends on a list over finitely many elements, whatever its links are, and
  passes exactly if the list ends.
\<close>
theorem memp_sanity_exact:
  assumes "finite A" "\<And>k x. walk (mp_next mp) (mp_tab mp) k = Some x \<Longrightarrow> x \<in> A"
  shows "memp_sanity mp = Some (if \<exists>xs. free_path (mp_next mp) (mp_tab mp) xs then 1 else 0)"
  by (rule memp_sanity_spec [OF assms])

text \<open>A list of two elements, and one that runs into itself.\<close>

theorem memp_sanity_exact_witness:
  "memp_sanity \<lparr>mp_tab = Some 8, mp_next = (\<lambda>x. if x = 8 then Some 16 else None)\<rparr> = Some 1 \<and>
   memp_sanity \<lparr>mp_tab = Some 8, mp_next = (\<lambda>x. if x = 8 then Some 16 else Some 16)\<rparr> = Some 0"
proof -
  let ?m1 = "\<lparr>mp_tab = Some 8, mp_next = (\<lambda>x. if x = 8 then Some 16 else None)\<rparr> :: memp_pool"
  let ?m2 = "\<lparr>mp_tab = Some 8, mp_next = (\<lambda>x. if x = 8 then Some 16 else Some 16)\<rparr> :: memp_pool"
  have in1: "x \<in> {8, 16}" if "walk (mp_next ?m1) (mp_tab ?m1) k = Some x" for k x
    by (rule walk_closed [of 8 "{8, 16}" "mp_next ?m1" k]) (use that in \<open>auto split: if_splits\<close>)
  have in2: "x \<in> {8, 16}" if "walk (mp_next ?m2) (mp_tab ?m2) k = Some x" for k x
    by (rule walk_closed [of 8 "{8, 16}" "mp_next ?m2" k]) (use that in \<open>auto split: if_splits\<close>)
  have "free_path (mp_next ?m1) (mp_tab ?m1) [8, 16]" by simp
  then have path: "\<exists>xs. free_path (mp_next ?m1) (mp_tab ?m1) xs" by (rule exI)
  have circle: "\<nexists>xs. free_path (mp_next ?m2) (mp_tab ?m2) xs"
  proof
    assume "\<exists>xs. free_path (mp_next ?m2) (mp_tab ?m2) xs"
    then obtain k where "walk (mp_next ?m2) (Some 8) k = None" using free_path_not_endless by fastforce
    moreover have "walk (mp_next ?m2) (Some 8) k \<noteq> None" by (induction k) (auto simp: bind_eq_None_conv)
    ultimately show False by simp
  qed
  have "memp_sanity ?m1 = Some (if \<exists>xs. free_path (mp_next ?m1) (mp_tab ?m1) xs then 1 else 0)"
    by (rule memp_sanity_exact [of "{8, 16}", OF _ in1]) simp
  moreover have "memp_sanity ?m2 = Some (if \<exists>xs. free_path (mp_next ?m2) (mp_tab ?m2) xs then 1 else 0)"
    by (rule memp_sanity_exact [of "{8, 16}", OF _ in2]) simp
  ultimately show ?thesis unfolding if_P [OF path] if_not_P [OF circle] by (rule conjI)
qed

text \<open>
  C35. In every history of a pool the elements held are distinct, do not overlap and are aligned; an element is refused
  only if all are held, and otherwise one that is not held is given out; what is held can be freed. The circle check
  passes, and it fails after a free of an element that is free already.
\<close>
theorem pool_elements_exclusive:
  assumes "desc_ok desc" "pool_history desc mp held"
  shows "finite held \<and> card held \<le> md_num desc \<and>
    (\<forall>p \<in> held. p mod 4 = 0 \<and> (\<forall>q \<in> held. p \<noteq> q \<longrightarrow> p + md_size desc \<le> q \<or> q + md_size desc \<le> p)) \<and>
    (if card held = md_num desc then do_memp_malloc_pool mp = Some (None, mp)
     else \<exists>p mp'. do_memp_malloc_pool mp = Some (Some p, mp') \<and> p \<notin> held \<and> pool_history desc mp' (insert p held)) \<and>
    (\<forall>p \<in> held. do_memp_free_pool p mp \<noteq> None) \<and> memp_sanity mp = Some 1 \<and>
    (\<forall>p \<in> elements desc - held. \<exists>mp'. do_memp_free_pool p mp = Some mp' \<and> memp_sanity mp' = Some 0)"
proof -
  have ok: "pool_ok desc mp held" by (rule pool_history_ok [OF assms(2,1)])
  then obtain xs where xs: "free_path (mp_next mp) (mp_tab mp) xs" "distinct xs" "set xs \<inter> held = {}" "set xs \<union> held = elements desc"
    by (auto simp: pool_ok_def)
  have sub: "held \<subseteq> elements desc" using xs(4) by blast
  then have fin: "finite held" by (rule finite_subset [OF _ finite_elements])
  have card: "card held \<le> md_num desc" "card held = md_num desc \<longleftrightarrow> held = elements desc"
    using card_mono [OF _ sub] card_subset_eq [OF _ sub] card_elements [OF assms(1)] by auto
  have al: "p mod 4 = 0" if "p \<in> elements desc" for p using elements_aligned [OF assms(1) that] by (simp add: heap_consts)
  have sane: "memp_sanity mp = Some 1"
    using walk_finite_path [OF xs(1), of 0] by (simp only: memp_sanity_start)
  have twice: "\<exists>mp'. do_memp_free_pool p mp = Some mp' \<and> memp_sanity mp' = Some 0" if "p \<in> elements desc - held" for p
    using double_free_circle [OF xs(1,2), of p] that xs(4) al [of p] by (auto simp: do_memp_free_pool_def heap_consts)
  have "if card held = md_num desc then do_memp_malloc_pool mp = Some (None, mp)
     else \<exists>p mp'. do_memp_malloc_pool mp = Some (Some p, mp') \<and> p \<notin> held \<and> pool_history desc mp' (insert p held)"
  proof (cases "held = elements desc")
    case True
    then show ?thesis using memp_malloc_spec [OF assms(1) ok] card(2) by simp
  next
    case False
    then obtain p mp' where p: "do_memp_malloc_pool mp = Some (Some p, mp')" "p \<notin> held" using memp_malloc_spec [OF assms(1) ok] by auto
    then show ?thesis using False card(2) pool_history.alloc [OF assms(2) p(1)] by auto
  qed
  moreover have "\<forall>p \<in> held. do_memp_free_pool p mp \<noteq> None" using memp_free_spec [OF assms(1) ok] by fastforce
  moreover have "\<forall>p \<in> held. p mod 4 = 0 \<and> (\<forall>q \<in> held. p \<noteq> q \<longrightarrow> p + md_size desc \<le> q \<or> q + md_size desc \<le> p)"
    using sub al elements_apart [of _ desc] by blast
  ultimately show ?thesis using fin card(1) sane twice by blast
qed

theorem pool_elements_exclusive_witness:
  "\<exists>p mp'. do_memp_malloc_pool (memp_init_pool \<lparr>md_size = 24, md_num = 2, md_base = 3\<rparr> \<lparr>mp_tab = None, mp_next = (\<lambda>x. None)\<rparr>) = Some (Some p, mp')
     \<and> p mod 4 = 0 \<and> memp_sanity mp' = Some 1"
proof -
  let ?d = "\<lparr>md_size = 24, md_num = 2, md_base = 3\<rparr>"
  let ?mp = "memp_init_pool ?d \<lparr>mp_tab = None, mp_next = (\<lambda>x. None)\<rparr>"
  have ok: "desc_ok ?d" by (simp add: desc_ok_def)
  note fresh = pool_elements_exclusive [OF ok pool_history.start [of ?d "\<lparr>mp_tab = None, mp_next = (\<lambda>x. None)\<rparr>"]]
  have "\<exists>p mp'. do_memp_malloc_pool ?mp = Some (Some p, mp') \<and> p \<notin> {} \<and> pool_history ?d mp' (insert p {})"
    using fresh unfolding if_not_P [of "card {} = md_num ?d", simplified] by simp
  then obtain p mp' where p: "do_memp_malloc_pool ?mp = Some (Some p, mp')" "pool_history ?d mp' {p}" by blast
  note held = pool_elements_exclusive [OF ok p(2)]
  then have "p mod 4 = 0" "memp_sanity mp' = Some 1" by simp_all
  with p(1) show ?thesis by (intro exI conjI)
qed

end
