(* ===== verification/Lwip_Heap_Use.thy ===== *)
theory Lwip_Heap_Use
  imports Lwip_Heap
begin

text \<open>
  Using the heap of lwIP: histories of allocations, frees, shrinkings and stores into the blocks that are held,
  in any order, from \<open>mem_init\<close> on.
\<close>

section \<open>The blocks that are held\<close>

text \<open>The pointers to used blocks and the size of each.\<close>

fun used_map :: "nat \<Rightarrow> hblock list \<Rightarrow> nat \<Rightarrow> nat option" where
  "used_map a [] = Map.empty"
| "used_map a ((u, s) # bs) = (if u then (used_map (a + 8 + s) bs)(a + 8 \<mapsto> s) else used_map (a + 8 + s) bs)"

lemma used_map_bounds: "used_map a bs p = Some s \<Longrightarrow> a + 8 \<le> p \<and> p + s \<le> hend a bs"
proof (induction a bs rule: used_map.induct)
  case (2 a u t bs)
  then show ?case using hend_ge [of "a + 8 + t" bs] by (auto split: if_splits)
qed simp

lemma used_map_append: "used_map a (us @ vs) = used_map (hend a us) vs ++ used_map a us"
proof (induction a us rule: used_map.induct)
  case (2 a u s bs)
  then show ?case by (auto simp: fun_eq_iff map_add_def split: option.splits)
qed simp

lemma used_map_append_cases:
  "used_map a (us @ vs) p = (case used_map a us p of None \<Rightarrow> used_map (hend a us) vs p | Some s \<Rightarrow> Some s)"
  by (simp add: used_map_append map_add_def)

lemma used_map_split:
  "used_map a bs p = Some s \<Longrightarrow> \<exists>us vs. bs = us @ (True, s) # vs \<and> p = hend a us + 8"
proof (induction a bs rule: used_map.induct)
  case (2 a u t bs)
  show ?case
  proof (cases "u \<and> p = a + 8")
    case True
    then have "(u, t) # bs = [] @ (True, s) # bs \<and> p = hend a [] + 8" using "2.prems" by simp
    then show ?thesis by blast
  next
    case False
    then obtain us vs where "bs = us @ (True, s) # vs" "p = hend (a + 8 + t) us + 8"
      using 2 by (auto split: if_splits)
    then have "(u, t) # bs = ((u, t) # us) @ (True, s) # vs \<and> p = hend a ((u, t) # us) + 8" by simp
    then show ?thesis by blast
  qed
qed simp

lemma used_map_at: "used_map 0 (us @ (True, s) # vs) (hend 0 us + 8) = Some s"
  using used_map_bounds [of 0 us "hend 0 us + 8"] by (auto simp: used_map_append_cases split: option.splits)

lemma ex_upd: "f q = None \<Longrightarrow> (\<exists>p s. (f(q \<mapsto> t)) p = Some s \<and> P p s) \<longleftrightarrow> P q t \<or> (\<exists>p s. f p = Some s \<and> P p s)"
  by (auto, metis option.distinct(1))

lemma in_use_used_map: "x \<in> in_use a bs \<longleftrightarrow> (\<exists>p s. used_map a bs p = Some s \<and> p \<le> x \<and> x < p + s)"
proof (induction a bs rule: used_map.induct)
  case (2 a u s bs)
  show ?case
  proof (cases u)
    case True
    have "used_map (a + 8 + s) bs (a + 8) = None"
      using used_map_bounds [of "a + 8 + s" bs "a + 8"] by (cases "used_map (a + 8 + s) bs (a + 8)") auto
    then show ?thesis using 2 True ex_upd [of "used_map (a + 8 + s) bs" "a + 8" s] by auto
  qed (use 2 in simp)
qed simp

lemma in_use_held: "used_map a bs p = Some s \<Longrightarrow> n \<le> s \<Longrightarrow> p \<le> x \<Longrightarrow> x < p + n \<Longrightarrow> x \<in> in_use a bs"
  unfolding in_use_used_map by (intro exI [of _ p] exI [of _ s]) simp

lemma used_map_disjoint:
  assumes "used_map a bs p = Some s" "used_map a bs q = Some t" "p \<noteq> q"
  shows "p + s \<le> q \<or> q + t \<le> p"
  using assms
proof (induction a bs rule: used_map.induct)
  case (2 a u v bs)
  show ?case
  proof (cases "u \<and> (p = a + 8 \<or> q = a + 8)")
    case True
    then show ?thesis using "2.prems" used_map_bounds [of "a + 8 + v" bs p s] used_map_bounds [of "a + 8 + v" bs q t]
      by (auto split: if_splits)
  next
    case False
    then show ?thesis using 2 by (auto split: if_splits)
  qed
qed simp

text \<open>How the operations change it.\<close>

lemma used_map_replace:
  assumes "hend (hend 0 us) mid' = hend (hend 0 us) mid" "\<And>p. used_map (hend 0 us) mid' p = ((used_map (hend 0 us) mid)(q := r)) p"
    "hend 0 us + 8 \<le> q" "q < hend (hend 0 us) mid"
  shows "used_map 0 (us @ mid' @ vs) = (used_map 0 (us @ mid @ vs))(q := r)"
proof
  fix p
  have n: "used_map 0 us q = None" using used_map_bounds [of 0 us q] assms(3) by (cases "used_map 0 us q") auto
  have m: "used_map (hend (hend 0 us) mid) vs q = None"
    using used_map_bounds [of "hend (hend 0 us) mid" vs q] assms(4) by (cases "used_map (hend (hend 0 us) mid) vs q") auto
  show "used_map 0 (us @ mid' @ vs) p = ((used_map 0 (us @ mid @ vs))(q := r)) p"
    using assms(1,2) n m by (auto simp: used_map_append_cases split: option.splits)
qed

lemma used_map_free:
  "used_map 0 (free_blocks us s vs) = (used_map 0 (us @ (True, s) # vs))(hend 0 us + 8 := None)"
proof -
  let ?a = "hend 0 us"
  obtain s' ws where r: "join_forward s vs = (False, s') # ws" using join_forward_Cons [of s vs] by metis
  have "used_map ?a (join_forward s vs) = used_map (?a + 8 + s) vs"
    by (auto simp: join_forward_def add_ac split: list.splits bool.splits)
  then have f: "used_map (?a + 8 + s') ws = used_map (?a + 8 + s) vs" by (simp add: r)
  have b: "used_map 0 (join_backward us s' ws) = used_map 0 (us @ (False, s') # ws)"
  proof (cases us rule: rev_cases)
    case (snoc us' x)
    then show ?thesis by (cases x; cases "fst x") (simp_all add: used_map_append add_ac)
  qed simp
  have n: "used_map (?a + 8 + s) vs (?a + 8) = None" "used_map 0 us (?a + 8) = None"
    using used_map_bounds [of "?a + 8 + s" vs "?a + 8"] used_map_bounds [of 0 us "?a + 8"]
    by (auto intro: ccontr)
  have "free_blocks us s vs = join_backward us s' ws" by (simp add: free_blocks_def r)
  then show ?thesis using b f n by (auto simp: used_map_append_cases fun_eq_iff split: option.splits)
qed

lemma used_map_take:
  assumes "n \<le> s" "0 < n"
  obtains k where "n \<le> k" "k \<le> s"
    "used_map 0 (us @ split_fit n s @ vs) = (used_map 0 (us @ (False, s) # vs))(hend 0 us + 8 \<mapsto> k)"
proof -
  define k where "k = (if n + 20 \<le> s then n else s)"
  have "used_map 0 (us @ split_fit n s @ vs) = (used_map 0 (us @ [(False, s)] @ vs))(hend 0 us + 8 \<mapsto> k)"
    using assms by (intro used_map_replace) (auto simp: split_fit_def k_def)
  with that [of k] assms show ?thesis by (simp add: k_def)
qed

lemma used_map_trim:
  assumes "n \<le> s" "0 < n"
  obtains k where "n \<le> k"
    "used_map 0 (us @ trim_blocks n s vs) = (used_map 0 (us @ (True, s) # vs))(hend 0 us + 8 \<mapsto> k)"
proof (cases "\<exists>t ws. vs = (False, t) # ws \<and> n \<noteq> s")
  case True
  then obtain t ws where vs: "vs = (False, t) # ws" "n \<noteq> s" by blast
  have "used_map 0 (us @ [(True, n), (False, t + (s - n))] @ ws) = (used_map 0 (us @ [(True, s), (False, t)] @ ws))(hend 0 us + 8 \<mapsto> n)"
    using assms by (intro used_map_replace) auto
  then show ?thesis using that [of n] vs by (simp add: trim_blocks_def)
next
  case False
  show ?thesis
  proof (cases "trim_blocks n s vs = (True, s) # vs")
    case True
    have "used_map 0 (us @ (True, s) # vs) = (used_map 0 (us @ (True, s) # vs))(hend 0 us + 8 \<mapsto> s)"
      using used_map_at [of us s vs] by (simp add: fun_upd_idem)
    then show ?thesis using that [of s] True assms by simp
  next
    case cut: False
    then have t: "trim_blocks n s vs = [(True, n), (False, s - n - 8)] @ vs" "n + 20 \<le> s"
      using False by (auto simp: trim_blocks_def split: list.splits bool.splits if_splits)
    have "used_map 0 (us @ [(True, n), (False, s - n - 8)] @ vs) = (used_map 0 (us @ [(True, s)] @ vs))(hend 0 us + 8 \<mapsto> n)"
      using t(2) assms by (intro used_map_replace) auto
    then show ?thesis using that [of n] t by simp
  qed
qed

section \<open>Histories\<close>

text \<open>
  What the program does with the heap from \<open>mem_init\<close> on; \<open>held\<close> gives the requested size of every block it holds.
  It frees and shrinks only blocks it holds, and stores only into them.
\<close>

inductive heap_history :: "heap \<Rightarrow> (nat \<Rightarrow> nat option) \<Rightarrow> bool" where
  start: "heap_history (mem_init m) Map.empty"
| alloc: "heap_history h held \<Longrightarrow> 0 < n \<Longrightarrow> n < 2 ^ 16 \<Longrightarrow> mem_malloc n h = Some (Some p, h') \<Longrightarrow>
    heap_history h' (held(p \<mapsto> n))"
| refused: "heap_history h held \<Longrightarrow> 0 < n \<Longrightarrow> n < 2 ^ 16 \<Longrightarrow> mem_malloc n h = Some (None, h') \<Longrightarrow> heap_history h' held"
| free: "heap_history h held \<Longrightarrow> held p = Some n \<Longrightarrow> mem_free (Some (int p)) h = Some h' \<Longrightarrow> heap_history h' (held(p := None))"
| trim: "heap_history h held \<Longrightarrow> held p = Some n \<Longrightarrow> k \<le> n \<Longrightarrow> mem_trim p k h = Some (r, h') \<Longrightarrow> heap_history h' (held(p \<mapsto> k))"
| store: "heap_history h held \<Longrightarrow> held p = Some n \<Longrightarrow> p \<le> x \<Longrightarrow> x < p + n \<Longrightarrow> heap_history (h\<lparr>ram := (ram h)(x := b)\<rparr>) held"

text \<open>What is held are the used blocks, each at least as large as asked for.\<close>

definition holds :: "(nat \<Rightarrow> nat option) \<Rightarrow> hblock list \<Rightarrow> bool" where
  "holds held bs \<longleftrightarrow> (\<forall>p. rel_option (\<le>) (held p) (used_map 0 bs p))"

lemma holds_SomeD: "holds held bs \<Longrightarrow> held p = Some n \<Longrightarrow> \<exists>s. used_map 0 bs p = Some s \<and> n \<le> s"
  by (auto simp: holds_def option_rel_Some1 dest: spec [of _ p])

lemma holds_upd: "holds held bs \<Longrightarrow> used_map 0 bs' = (used_map 0 bs)(p \<mapsto> k) \<Longrightarrow> n \<le> k \<Longrightarrow> holds (held(p \<mapsto> n)) bs'"
  by (auto simp: holds_def)

lemma holds_del: "holds held bs \<Longrightarrow> used_map 0 bs' = (used_map 0 bs)(p := None) \<Longrightarrow> holds (held(p := None)) bs'"
  by (auto simp: holds_def)

text \<open>A store into a block in use leaves the headers alone.\<close>

lemma in_use_headers: "x \<in> in_use a bs \<Longrightarrow> x \<notin> hheaders a bs"
proof (induction a bs rule: in_use.induct)
  case (2 a u s bs)
  then show ?case using hheaders_bounds [of x "a + 8 + s" bs] in_use_bounds [of x "a + 8 + s" bs] by (auto split: if_splits)
qed simp

lemma heap_ok_store:
  assumes "heap_ok h bs" "x \<in> in_use 0 bs"
  shows "heap_ok (h\<lparr>ram := (ram h)(x := b)\<rparr>) bs"
proof -
  let ?m = "(ram h)(x := b)"
  have x: "x < 10240" using assms in_use_bounds [of x 0 bs] by (auto simp: heap_ok_def heap_blocks_def)
  have "hchain ?m 0 0 bs = hchain (ram h) 0 0 bs" using in_use_headers [OF assms(2)] by (intro hchain_cong) auto
  moreover have "mem_used ?m 10240 = mem_used (ram h) 10240" "mem_next ?m 10240 = mem_next (ram h) 10240"
    "mem_prev ?m 10240 = mem_prev (ram h) 10240" using x by (auto intro!: mem_fields_cong)
  ultimately show ?thesis using assms(1) by (simp add: heap_ok_def heap_blocks_def)
qed

text \<open>The operations on what is held, with their effect on the other blocks.\<close>

lemma mem_malloc_held:
  assumes "heap_ok h bs" "holds held bs" "0 < n" "n < 2 ^ 16"
  obtains "mem_malloc n h = Some (None, h)" "request_size n \<le> 10240 \<Longrightarrow> \<forall>b \<in> set bs. \<not> fits (request_size n) b"
  | p h' bs' where "mem_malloc n h = Some (Some p, h')" "heap_ok h' bs'" "holds (held(p \<mapsto> n)) bs'" "p mod 4 = 0"
    "\<forall>x \<in> in_use 0 bs. ram h' x = ram h x" "held p = None"
proof (cases "if request_size n \<le> 10240 then alloc_blocks (request_size n) bs else None")
  case None
  then have "mem_malloc n h = Some (None, h)" using mem_malloc_spec [OF assms(1,3,4)] by simp
  moreover have "\<forall>b \<in> set bs. \<not> fits (request_size n) b" if "request_size n \<le> 10240"
    using that None by (auto simp: alloc_blocks_def Let_def dropWhile_eq_Nil_conv split: list.splits)
  ultimately show thesis by (rule that(1))
next
  case (Some r)
  obtain a bs' where r: "r = (a, bs')" by force
  have al: "alloc_blocks (request_size n) bs = Some (a, bs')" using Some r by (auto split: if_splits)
  obtain h' where h': "mem_malloc n h = Some (Some (a + 8), h')" "heap_ok h' bs'" "\<forall>x \<in> in_use 0 bs. ram h' x = ram h x"
    using mem_malloc_spec [OF assms(1,3,4)] Some r by auto
  define us where "us = takeWhile (\<lambda>b. \<not> fits (request_size n) b) bs"
  obtain u s vs where dw: "dropWhile (\<lambda>b. \<not> fits (request_size n) b) bs = (u, s) # vs"
    "a = hend 0 us" "bs' = us @ split_fit (request_size n) s @ vs"
    using al by (auto simp: alloc_blocks_def Let_def us_def split: list.splits)
  have bs: "bs = us @ (u, s) # vs" unfolding us_def dw(1) [symmetric] by simp
  have "fits (request_size n) (u, s)" using hd_dropWhile [of "\<lambda>b. \<not> fits (request_size n) b" bs] dw(1) by auto
  then have f: "u = False" "request_size n \<le> s" by (auto simp: fits_def)
  obtain k where k: "request_size n \<le> k" "used_map 0 bs' = (used_map 0 bs)(a + 8 \<mapsto> k)"
    using used_map_take [of "request_size n" s us vs] f request_size_ok(1) [of n] bs dw(2,3) by auto
  have ho: "holds (held(a + 8 \<mapsto> n)) bs'" using holds_upd [OF assms(2) k(2)] k(1) request_size_ok(3) [of n] by simp
  have mo: "(a + 8) mod 4 = 0"
  proof -
    have "hchain (ram h) 0 0 us" using assms(1) bs by (simp add: heap_ok_def heap_blocks_def)
    from hend_mod [OF this] show ?thesis by (simp add: dw(2) mod_add_left_eq [symmetric])
  qed
  have he: "held (a + 8) = None"
  proof -
    have "used_map 0 us (a + 8) = None" "used_map (a + 8 + s) vs (a + 8) = None"
      using used_map_bounds [of 0 us "a + 8"] used_map_bounds [of "a + 8 + s" vs "a + 8"] dw(2) by (auto intro: ccontr)
    then have "used_map 0 bs (a + 8) = None" using bs f dw(2) by (simp add: used_map_append_cases)
    then show ?thesis using assms(2) holds_SomeD by (cases "held (a + 8)") fastforce+
  qed
  show thesis by (rule that(2) [OF h'(1,2) ho mo h'(3) he])
qed

lemma mem_free_held:
  assumes "heap_ok h bs" "holds held bs" "held p = Some n"
  obtains h' bs' where "mem_free (Some (int p)) h = Some h'" "heap_ok h' bs'" "holds (held(p := None)) bs'"
    "\<And>q k x. held q = Some k \<Longrightarrow> q \<noteq> p \<Longrightarrow> q \<le> x \<Longrightarrow> x < q + k \<Longrightarrow> ram h' x = ram h x"
    "mem_free (Some (int p)) h' = None"
proof -
  obtain s where s: "used_map 0 bs p = Some s" using holds_SomeD [OF assms(2,3)] by blast
  obtain us vs where bs: "bs = us @ (True, s) # vs" "p = hend 0 us + 8" using used_map_split [OF s] by auto
  obtain h' where h': "mem_free (Some (int p)) h = Some h'" "heap_ok h' (free_blocks us s vs)"
    "in_use 0 (free_blocks us s vs) = in_use 0 us \<union> in_use (hend 0 us + 8 + s) vs"
    "\<forall>x \<in> in_use 0 us \<union> in_use (hend 0 us + 8 + s) vs. ram h' x = ram h x"
    "mem_used (ram h') (hend 0 us) = 0"
    using mem_free_spec [of h us s vs] assms(1) bs by auto
  have "nat (int p - 8) = hend 0 us" using bs(2) by simp
  then have twice: "mem_free (Some (int p)) h' = None" using h'(5) by (simp add: mem_free_def heap_consts Let_def)
  note u = used_map_free [of us s vs, folded bs]
  have "ram h' x = ram h x" if q: "held q = Some k" "q \<noteq> p" "q \<le> x" "x < q + k" for q k x
  proof -
    obtain t where t: "used_map 0 bs q = Some t" "k \<le> t" using holds_SomeD [OF assms(2) q(1)] by blast
    then have "used_map 0 (free_blocks us s vs) q = Some t" using u q(2) bs(2) by simp
    then have "x \<in> in_use 0 (free_blocks us s vs)" using t(2) q(3,4) by (rule in_use_held)
    then show ?thesis using h'(3,4) by simp
  qed
  then show thesis using that [OF h'(1,2) holds_del [OF assms(2) u [folded bs(2)]]] twice by blast
qed

lemma request_size_le: "n \<le> s \<Longrightarrow> 12 \<le> s \<Longrightarrow> s mod 4 = 0 \<Longrightarrow> request_size n \<le> s"
proof -
  assume "n \<le> s" "12 \<le> s" "s mod 4 = 0"
  moreover have "(n + 3) div 4 * 4 \<le> s" using calculation by presburger
  ultimately show ?thesis by (simp add: request_size_def)
qed

lemma mem_trim_held:
  assumes "heap_ok h bs" "holds held bs" "held p = Some n" "k \<le> n" "mem_trim p k h = Some (r, h')"
  obtains bs' where "r = Some p" "heap_ok h' bs'" "holds (held(p \<mapsto> k)) bs'"
    "\<And>q j x. (held(p \<mapsto> k)) q = Some j \<Longrightarrow> q \<le> x \<Longrightarrow> x < q + j \<Longrightarrow> ram h' x = ram h x"
proof -
  obtain s where s: "used_map 0 bs p = Some s" "n \<le> s" using holds_SomeD [OF assms(2,3)] by blast
  obtain us vs where bs: "bs = us @ (True, s) # vs" "p = hend 0 us + 8" using used_map_split [OF s(1)] by auto
  have b: "12 \<le> s" "s mod 4 = 0" "s \<le> 10232" using assms(1) bs by (auto simp: heap_ok_def heap_blocks_def)
  then have rs: "request_size k \<le> s" using s(2) assms(4) by (intro request_size_le) auto
  have "k < 2 ^ 16" using assms(4) s(2) b(3) by simp
  from mem_trim_spec [of h us s vs k, OF _ this rs] assms(1,5) bs
  have t: "r = Some p" "heap_ok h' (us @ trim_blocks (request_size k) s vs)"
    "\<forall>x \<in> in_use 0 us \<union> {p..<p + request_size k} \<union> in_use (hend 0 us + 8 + s) vs. ram h' x = ram h x"
    by (auto split: if_splits)
  have "0 < request_size k" using request_size_ok(1) [of k] by simp
  then obtain j where j: "request_size k \<le> j" "used_map 0 (us @ trim_blocks (request_size k) s vs) = (used_map 0 bs)(p \<mapsto> j)"
    using used_map_trim [OF rs, of us vs thesis] bs by auto
  have ks: "k \<le> request_size k" by (rule request_size_ok(3))
  have "ram h' x = ram h x" if q: "(held(p \<mapsto> k)) q = Some i" "q \<le> x" "x < q + i" for q i x
  proof (cases "q = p")
    case True
    then show ?thesis using q ks t(3) by auto
  next
    case False
    then obtain t' where t': "used_map 0 bs q = Some t'" "i \<le> t'" using holds_SomeD [OF assms(2), of q] q(1) by auto
    then have x: "x \<in> in_use 0 bs" using q(2,3) by (rule in_use_held)
    have "x < p \<or> p + s \<le> x" using used_map_disjoint [OF t'(1) s(1) False] q(2,3) t'(2) by linarith
    then have "x \<in> in_use 0 us \<union> in_use (hend 0 us + 8 + s) vs" using x bs by auto
    then show ?thesis using t(3) by blast
  qed
  then show thesis using that [OF t(1,2) holds_upd [OF assms(2) j(2)]] ks j(1) by (meson order_trans)
qed

lemma history_ok: "heap_history h held \<Longrightarrow> \<exists>bs. heap_ok h bs \<and> holds held bs"
proof (induction rule: heap_history.induct)
  case (start m)
  then show ?case using mem_init_ok by (intro exI [of _ "[(False, 10232)]"]) (simp add: holds_def)
next
  case (alloc h held n p h')
  then obtain bs where bs: "heap_ok h bs" "holds held bs" by blast
  show ?case by (rule mem_malloc_held [OF bs alloc.hyps(2,3)]) (use alloc.hyps(4) in \<open>auto simp del: fun_upd_apply\<close>)
next
  case (refused h held n h')
  then obtain bs where bs: "heap_ok h bs" "holds held bs" by blast
  show ?case by (rule mem_malloc_held [OF bs refused.hyps(2,3)]) (use refused.hyps(4) bs in auto)
next
  case (free h held p n h')
  then obtain bs where bs: "heap_ok h bs" "holds held bs" by blast
  show ?case by (rule mem_free_held [OF bs free.hyps(2)]) (use free.hyps(3) in \<open>auto simp del: fun_upd_apply\<close>)
next
  case (trim h held p n k r h')
  then obtain bs where bs: "heap_ok h bs" "holds held bs" by blast
  show ?case by (rule mem_trim_held [OF bs trim.hyps(2-4)]) (auto simp del: fun_upd_apply)
next
  case (store h held p n x b)
  then obtain bs where bs: "heap_ok h bs" "holds held bs" by blast
  obtain s where "used_map 0 bs p = Some s" "n \<le> s" using holds_SomeD [OF bs(2) store.hyps(2)] by blast
  then have "x \<in> in_use 0 bs" using store.hyps(3,4) by (rule in_use_held)
  then show ?case using heap_ok_store [OF bs(1)] bs(2) by blast
qed

text \<open>With nothing held the heap is one free block again.\<close>

lemma nothing_used:
  assumes "heap_ok h bs" "\<And>p. used_map 0 bs p = None"
  shows "bs = [(False, 10232)]"
proof -
  have free: "\<not> fst b" if b: "b \<in> set bs" for b
  proof
    assume "fst b"
    then have "(True, snd b) \<in> set bs" using b by (cases b) simp
    then obtain us vs where "bs = us @ (True, snd b) # vs" by (blast dest: split_list)
    then show False using used_map_at [of us "snd b" vs] assms(2) [of "hend 0 us + 8"] by simp
  qed
  obtain u s vs where bs: "bs = (u, s) # vs" using assms(1) by (cases bs) (auto simp: heap_ok_def heap_blocks_def)
  have "vs = []"
  proof (cases vs)
    case (Cons w ws)
    then show ?thesis using assms(1) free [of "(u, s)"] free [of w] bs by (simp add: heap_ok_def)
  qed
  moreover have "\<not> u" using free [of "(u, s)"] bs by simp
  moreover have "hend 0 bs = 10240" using assms(1) by (simp add: heap_ok_def heap_blocks_def)
  ultimately show ?thesis using bs by simp
qed

text \<open>\<open>mem_calloc\<close> hands out zeroed bytes and refuses a size that does not fit in 16 bits.\<close>

lemma mem_calloc_zeroed:
  assumes "heap_ok h bs" "mem_calloc count sz h = Some (Some p, h')" "0 < count * sz"
  shows "count * sz < 2 ^ 16" "\<forall>x. p \<le> x \<and> x < p + count * sz \<longrightarrow> ram h' x = 0"
  using assms(2,3) by (auto simp: mem_calloc_def Let_def memset_def mod_eq_self_iff_div_eq_0 div_eq_0_iff split: if_splits option.splits
    bind_splits)

section \<open>Properties\<close>

text \<open>
  C33. The operations of lwIP's heap refine the abstract allocator on the list of blocks: \<open>mem_malloc\<close> takes the
  first free block that is large enough and splits it if the rest can be a block, or refuses without effect;
  \<open>mem_free\<close> joins the block with its free neighbours; \<open>mem_trim\<close> gives the end of a block to a free successor or
  to a new block. Links, the lowest free block and the absence of adjacent free blocks are kept.
\<close>
theorem mem_operations_refine:
  assumes "heap_ok h bs"
  shows "(\<forall>n. 0 < n \<and> n < 2 ^ 16 \<longrightarrow>
       (case (if request_size n \<le> 10240 then alloc_blocks (request_size n) bs else None) of
          None \<Rightarrow> mem_malloc n h = Some (None, h)
        | Some (a, bs') \<Rightarrow> \<exists>h'. mem_malloc n h = Some (Some (a + 8), h') \<and> heap_ok h' bs')) \<and>
    (\<forall>us s vs. bs = us @ (True, s) # vs \<longrightarrow>
       (\<exists>h'. mem_free (Some (int (hend 0 us + 8))) h = Some h' \<and> heap_ok h' (free_blocks us s vs))) \<and>
    (\<forall>us s vs k. bs = us @ (True, s) # vs \<and> k < 2 ^ 16 \<and> request_size k \<le> s \<and> (vs \<noteq> [] \<or> s < request_size k + 20) \<longrightarrow>
       (\<exists>h'. mem_trim (hend 0 us + 8) k h = Some (Some (hend 0 us + 8), h') \<and>
             heap_ok h' (us @ trim_blocks (request_size k) s vs)))"
proof (intro conjI allI impI)
  fix n :: nat assume n: "0 < n \<and> n < 2 ^ 16"
  show "case (if request_size n \<le> 10240 then alloc_blocks (request_size n) bs else None) of
      None \<Rightarrow> mem_malloc n h = Some (None, h)
    | Some (a, bs') \<Rightarrow> \<exists>h'. mem_malloc n h = Some (Some (a + 8), h') \<and> heap_ok h' bs'"
  proof (cases "if request_size n \<le> 10240 then alloc_blocks (request_size n) bs else None")
    case None
    then show ?thesis using mem_malloc_spec [OF assms, of n] n by (simp only: option.case)
  next
    case (Some r)
    then show ?thesis using mem_malloc_spec [OF assms, of n] n by (cases r) (simp only: option.case prod.case, blast)
  qed
next
  fix us s vs assume "bs = us @ (True, s) # vs"
  then show "\<exists>h'. mem_free (Some (int (hend 0 us + 8))) h = Some h' \<and> heap_ok h' (free_blocks us s vs)"
    using mem_free_spec [of h us s vs] assms by blast
next
  fix us s vs k assume a: "bs = us @ (True, s) # vs \<and> k < 2 ^ 16 \<and> request_size k \<le> s \<and> (vs \<noteq> [] \<or> s < request_size k + 20)"
  then show "\<exists>h'. mem_trim (hend 0 us + 8) k h = Some (Some (hend 0 us + 8), h') \<and>
      heap_ok h' (us @ trim_blocks (request_size k) s vs)"
    using mem_trim_spec [of h us s vs k] assms by (auto split: if_splits)
qed

theorem mem_operations_refine_witness:
  "\<exists>h. mem_malloc 50 (mem_init (\<lambda>x. 0)) = Some (Some 8, h) \<and> heap_ok h [(True, 52), (False, 10172)]"
proof -
  have "alloc_blocks (request_size 50) [(False, 10232)] = Some (0, [(True, 52), (False, 10172)])"
    by (simp add: alloc_blocks_def request_size_def fits_def split_fit_def)
  then show ?thesis using mem_operations_refine [OF mem_init_ok [of "\<lambda>x. 0"]] by (auto simp: request_size_def dest: spec [of _ 50])
qed

text \<open>
  C32. In every history of allocations, frees, shrinkings and stores the whole heap passes its own check, the
  blocks held are aligned, lie inside the heap and do not overlap, and when none is held any more the heap can
  serve the largest request again.
\<close>
theorem lwip_heap_blocks_apart:
  assumes "heap_history h held"
  shows "mem_sanity h \<and>
    (\<forall>p n. held p = Some n \<longrightarrow> p mod 4 = 0 \<and> p + n \<le> 10240) \<and>
    (\<forall>p q n k. held p = Some n \<and> held q = Some k \<and> p \<noteq> q \<longrightarrow> p + n \<le> q \<or> q + k \<le> p) \<and>
    (held = Map.empty \<longrightarrow> (\<exists>p h'. mem_malloc 10232 h = Some (Some p, h')))"
proof -
  obtain bs where bs: "heap_ok h bs" "holds held bs" using history_ok [OF assms] by blast
  have "p mod 4 = 0 \<and> p + n \<le> 10240" if q: "held p = Some n" for p n
  proof -
    obtain s where s: "used_map 0 bs p = Some s" "n \<le> s" using holds_SomeD [OF bs(2) q] by blast
    obtain us vs where u: "bs = us @ (True, s) # vs" "p = hend 0 us + 8" using used_map_split [OF s(1)] by auto
    have "hchain (ram h) 0 0 us" using bs(1) u by (simp add: heap_ok_def heap_blocks_def)
    then have "p mod 4 = 0" using hend_mod [of "ram h" 0 0 us] u(2) by (simp add: mod_add_left_eq [symmetric])
    then show ?thesis using used_map_bounds [OF s(1)] s(2) bs(1) by (simp add: heap_ok_def heap_blocks_def)
  qed
  moreover have "p + n \<le> q \<or> q + k \<le> p" if "held p = Some n" "held q = Some k" "p \<noteq> q" for p q n k
    using holds_SomeD [OF bs(2) that(1)] holds_SomeD [OF bs(2) that(2)] used_map_disjoint [OF _ _ that(3), of 0 bs] by fastforce
  moreover have "\<exists>p h'. mem_malloc 10232 h = Some (Some p, h')" if "held = Map.empty"
  proof -
    have "used_map 0 bs p = None" for p using bs(2) that by (simp add: holds_def)
    then have "bs = [(False, 10232)]" by (rule nothing_used [OF bs(1)])
    then show ?thesis using mem_malloc_spec [OF bs(1), of 10232]
      by (auto simp: alloc_blocks_def request_size_def fits_def)
  qed
  ultimately show ?thesis using mem_sanity_ok [OF bs(1)] by blast
qed

text \<open>
  C31. In every history the operations return, and no operation on another block changes a byte of a block that is
  held: allocation, freeing and shrinking keep all other payload, and shrinking keeps the part it leaves. A block
  freed twice in a row ends the program.
\<close>
theorem lwip_heap_keeps_payload:
  assumes "heap_history h held" "held q = Some k" "q \<le> x" "x < q + k"
  shows "(\<forall>n. 0 < n \<and> n < 2 ^ 16 \<longrightarrow> (\<exists>r h'. mem_malloc n h = Some (r, h') \<and> ram h' x = ram h x)) \<and>
    (\<forall>p n. held p = Some n \<and> p \<noteq> q \<longrightarrow>
       (\<exists>h'. mem_free (Some (int p)) h = Some h' \<and> ram h' x = ram h x \<and> mem_free (Some (int p)) h' = None)) \<and>
    (\<forall>p n j r h'. held p = Some n \<and> j \<le> n \<and> (p = q \<longrightarrow> x < q + j) \<and> mem_trim p j h = Some (r, h') \<longrightarrow>
       r = Some p \<and> ram h' x = ram h x)"
proof (intro conjI allI impI)
  obtain bs where bs: "heap_ok h bs" "holds held bs" using history_ok [OF assms(1)] by blast
  obtain s where "used_map 0 bs q = Some s" "k \<le> s" using holds_SomeD [OF bs(2) assms(2)] by blast
  then have x: "x \<in> in_use 0 bs" using assms(3,4) by (rule in_use_held)
  show "\<exists>r h'. mem_malloc n h = Some (r, h') \<and> ram h' x = ram h x" if "0 < n \<and> n < 2 ^ 16" for n
    by (rule mem_malloc_held [OF bs that [THEN conjunct1] that [THEN conjunct2]]) (use x in auto)
  show "\<exists>h'. mem_free (Some (int p)) h = Some h' \<and> ram h' x = ram h x \<and> mem_free (Some (int p)) h' = None"
    if p: "held p = Some n \<and> p \<noteq> q" for p n
    by (rule mem_free_held [OF bs p [THEN conjunct1]]) (use assms(2-4) p in blast)
  fix p n j r h' assume t: "held p = Some n \<and> j \<le> n \<and> (p = q \<longrightarrow> x < q + j) \<and> mem_trim p j h = Some (r, h')"
  then have *: "held p = Some n" "j \<le> n" "mem_trim p j h = Some (r, h')" by simp_all
  show "r = Some p" by (rule mem_trim_held [OF bs *])
  have "\<exists>i. (held(p \<mapsto> j)) q = Some i \<and> x < q + i" using t assms(2,4) by (cases "p = q") auto
  then obtain i where "(held(p \<mapsto> j)) q = Some i" "x < q + i" by blast
  then show "ram h' x = ram h x" using mem_trim_held [OF bs *] assms(3) by metis
qed

text \<open>
  Shrinking the last block of a heap that is full up to its end, by 20 bytes or more, ends the program at an
  assertion that the block has a successor, though the end of the heap is a valid one.
\<close>
theorem mem_trim_last_block_aborts:
  assumes "heap_ok h (us @ [(True, s)])" "k < 2 ^ 16" "request_size k + 20 \<le> s"
  shows "mem_trim (hend 0 us + 8) k h = None"
  using mem_trim_spec [of h us s "[]" k] assms by simp

theorem mem_trim_last_block_aborts_witness:
  "\<exists>h. mem_malloc 10232 (mem_init (\<lambda>x. 0)) = Some (Some 8, h) \<and> mem_trim 8 100 h = None"
proof -
  have "alloc_blocks (request_size 10232) [(False, 10232)] = Some (0, [(True, 10232)])"
    by (simp add: alloc_blocks_def request_size_def fits_def split_fit_def)
  then obtain h where h: "mem_malloc 10232 (mem_init (\<lambda>x. 0)) = Some (Some 8, h)" "heap_ok h [(True, 10232)]"
    using mem_malloc_spec [OF mem_init_ok [of "\<lambda>x. 0"], of 10232] by (auto simp: request_size_def)
  then show ?thesis using mem_trim_last_block_aborts [of h "[]" 10232 100] by (simp add: request_size_def)
qed

text \<open>A history of two allocations, for the witnesses.\<close>

lemma sample_history: "\<exists>h. heap_history h [8 \<mapsto> 50, 68 \<mapsto> 20]"
proof -
  have "alloc_blocks (request_size 50) [(False, 10232)] = Some (0, [(True, 52), (False, 10172)])"
    by (simp add: alloc_blocks_def request_size_def fits_def split_fit_def)
  then obtain h where h: "mem_malloc 50 (mem_init (\<lambda>x. 0)) = Some (Some 8, h)" "heap_ok h [(True, 52), (False, 10172)]"
    using mem_malloc_spec [OF mem_init_ok [of "\<lambda>x. 0"], of 50] by (auto simp: request_size_def)
  have "alloc_blocks (request_size 20) [(True, 52), (False, 10172)] = Some (60, [(True, 52), (True, 20), (False, 10144)])"
    by (simp add: alloc_blocks_def request_size_def fits_def split_fit_def)
  then obtain h2 where h2: "mem_malloc 20 h = Some (Some 68, h2)"
    using mem_malloc_spec [OF h(2), of 20] by (auto simp: request_size_def)
  have "heap_history h [8 \<mapsto> 50]" using alloc [OF start, of 50 _ 8 h] h(1) by simp
  from alloc [OF this _ _ h2] show ?thesis by auto
qed

theorem lwip_heap_blocks_apart_witness:
  "\<exists>h. heap_history h [8 \<mapsto> 50, 68 \<mapsto> 20] \<and> mem_sanity h"
  using sample_history lwip_heap_blocks_apart by blast

theorem lwip_heap_keeps_payload_witness:
  "\<exists>h h'. heap_history h [8 \<mapsto> 50, 68 \<mapsto> 20] \<and> mem_free (Some (int 68)) h = Some h' \<and> ram h' 30 = ram h 30"
proof -
  obtain h where h: "heap_history h [8 \<mapsto> 50, 68 \<mapsto> 20]" using sample_history by blast
  have "\<exists>h'. mem_free (Some (int 68)) h = Some h' \<and> ram h' 30 = ram h 30"
    using lwip_heap_keeps_payload [OF h, of 8 50 30, THEN conjunct2, THEN conjunct1, rule_format, of 68 20] by auto
  then show ?thesis using h by blast
qed

end
