(* ===== verification/Pbuf_Alloc.thy ===== *)
theory Pbuf_Alloc
  imports Memp Lwip_Heap_Use
begin

text \<open>
  Where packet buffers come from and go to (\<open>lwip/src/core/pbuf.c\<close>): the pool of buffers, the pool of bare nodes for
  referenced data, and the heap. A node carries the address of its element in the memory it was taken from, and the
  address of its payload; what lies at these addresses is kept in the theories on chains. The result \<open>None\<close> is a failed
  assertion, which ends the program. Custom buffers are freed by a function of their owner, an argument.
\<close>

unbundle bit_operations_syntax

section \<open>Model\<close>

definition SIZEOF_STRUCT_PBUF :: nat where "SIZEOF_STRUCT_PBUF = 24"
definition PBUF_POOL_BUFSIZE_ALIGNED :: nat where "PBUF_POOL_BUFSIZE_ALIGNED = 256"

lemmas pbuf_sizes = SIZEOF_STRUCT_PBUF_def PBUF_POOL_BUFSIZE_ALIGNED_def

datatype pbuf_layer = PBUF_TRANSPORT | PBUF_IP | PBUF_LINK | PBUF_RAW_TX | PBUF_RAW

text \<open>The headers of a layer: 14 bytes for the link, 40 for IP, 20 for the transport.\<close>

fun layer_offset :: "pbuf_layer \<Rightarrow> nat" where
  "layer_offset PBUF_TRANSPORT = 74"
| "layer_offset PBUF_IP = 54"
| "layer_offset PBUF_LINK = 14"
| "layer_offset PBUF_RAW_TX = 0"
| "layer_offset PBUF_RAW = 0"

definition PBUF_RAM :: u16 where "PBUF_RAM = 0x280"
definition PBUF_ROM :: u16 where "PBUF_ROM = 0x001"
definition PBUF_REF :: u16 where "PBUF_REF = 0x041"
definition PBUF_POOL :: u16 where "PBUF_POOL = 0x182"

lemmas pbuf_types = PBUF_RAM_def PBUF_ROM_def PBUF_REF_def PBUF_POOL_def

definition PBUF_FLAG_IS_CUSTOM :: u8 where "PBUF_FLAG_IS_CUSTOM = 2"

record bnode =
  bn_at :: nat
  bn_payload :: "nat option"
  bn_tot_len :: u16
  bn_len :: u16
  bn_type :: u8
  bn_flags :: u8
  bn_ref :: u8

record buf_state =
  bs_pool :: memp_pool
  bs_refs :: memp_pool
  bs_heap :: heap
  bs_ooseq_pending :: u8

definition pbuf_init_alloced_pbuf :: "nat \<Rightarrow> nat option \<Rightarrow> u16 \<Rightarrow> u16 \<Rightarrow> u16 \<Rightarrow> u8 \<Rightarrow> bnode" where
  "pbuf_init_alloced_pbuf p payload tot_len len type flags =
     \<lparr>bn_at = p, bn_payload = payload, bn_tot_len = tot_len, bn_len = len, bn_type = ucast type, bn_flags = flags, bn_ref = 1\<rparr>"

text \<open>\<open>pbuf_free\<close> on a chain: the sources the nodes go back to. The nodes that stay are returned.\<close>

definition return_node :: "(bnode \<Rightarrow> buf_state \<Rightarrow> buf_state option) \<Rightarrow> bnode \<Rightarrow> buf_state \<Rightarrow> buf_state option" where
  "return_node custom p st =
     (let alloc_src = bn_type p AND 0x0F
      in if bn_flags p AND PBUF_FLAG_IS_CUSTOM \<noteq> 0 then custom p st
         else if alloc_src = 2 then map_option (\<lambda>mp. st\<lparr>bs_pool := mp\<rparr>) (do_memp_free_pool (bn_at p) (bs_pool st))
         else if alloc_src = 1 then map_option (\<lambda>mp. st\<lparr>bs_refs := mp\<rparr>) (do_memp_free_pool (bn_at p) (bs_refs st))
         else if alloc_src = 0 then map_option (\<lambda>h. st\<lparr>bs_heap := h\<rparr>) (mem_free (Some (int (bn_at p))) (bs_heap st))
         else None)"

fun free_nodes :: "(bnode \<Rightarrow> buf_state \<Rightarrow> buf_state option) \<Rightarrow> bnode list \<Rightarrow> u8 \<Rightarrow> buf_state \<Rightarrow> (u8 \<times> bnode list \<times> buf_state) option" where
  "free_nodes custom [] count st = Some (count, [], st)"
| "free_nodes custom (p # ps) count st =
     (let ref = bn_ref p - 1
      in if \<not> bn_ref p > 0 then None
         else if ref = 0 then Option.bind (return_node custom p st) (free_nodes custom ps (count + 1))
         else Some (count, p\<lparr>bn_ref := ref\<rparr> # ps, st))"

definition free_chain :: "(bnode \<Rightarrow> buf_state \<Rightarrow> buf_state option) \<Rightarrow> bnode list \<Rightarrow> buf_state \<Rightarrow> (u8 \<times> bnode list \<times> buf_state) option" where
  "free_chain custom ps st = (if ps = [] then None else free_nodes custom ps 0 st)"

definition pbuf_pool_is_empty :: "buf_state \<Rightarrow> buf_state" where
  "pbuf_pool_is_empty st = st\<lparr>bs_ooseq_pending := 1\<rparr>"

text \<open>
  What the timers do about the shortage: the first of TCP's connections that holds segments out of order gives them up.
  \<open>tcp_free_ooseq\<close>, which is TCP's, is an argument.
\<close>

fun free_ooseq_loop :: "('p \<Rightarrow> bool) \<Rightarrow> ('p \<Rightarrow> buf_state \<Rightarrow> ('p \<times> buf_state) option) \<Rightarrow> 'p list \<Rightarrow> buf_state \<Rightarrow> ('p list \<times> buf_state) option" where
  "free_ooseq_loop has_ooseq tcp_free_ooseq [] st = Some ([], st)"
| "free_ooseq_loop has_ooseq tcp_free_ooseq (pcb # pcbs) st =
     (if has_ooseq pcb then map_option (\<lambda>(pcb', st'). (pcb' # pcbs, st')) (tcp_free_ooseq pcb st)
      else map_option (\<lambda>(pcbs', st'). (pcb # pcbs', st')) (free_ooseq_loop has_ooseq tcp_free_ooseq pcbs st))"

definition pbuf_free_ooseq :: "('p \<Rightarrow> bool) \<Rightarrow> ('p \<Rightarrow> buf_state \<Rightarrow> ('p \<times> buf_state) option) \<Rightarrow> 'p list \<Rightarrow> buf_state \<Rightarrow> ('p list \<times> buf_state) option" where
  "pbuf_free_ooseq has_ooseq tcp_free_ooseq pcbs st = free_ooseq_loop has_ooseq tcp_free_ooseq pcbs (st\<lparr>bs_ooseq_pending := 0\<rparr>)"

definition pbuf_alloc_reference :: "nat option \<Rightarrow> u16 \<Rightarrow> u16 \<Rightarrow> buf_state \<Rightarrow> (bnode list option \<times> buf_state) option" where
  "pbuf_alloc_reference payload plen type st =
     (if \<not> (type = PBUF_REF \<or> type = PBUF_ROM) then None
      else Option.bind (do_memp_malloc_pool (bs_refs st)) (\<lambda>(p, mp).
        let st1 = st\<lparr>bs_refs := mp\<rparr>
        in case p of None \<Rightarrow> Some (None, st1)
           | Some p \<Rightarrow> Some (Some [pbuf_init_alloced_pbuf p payload plen plen type 0], st1)))"

text \<open>The loop that chains buffers of the pool; \<open>ps\<close> are those it has so far.\<close>

partial_function (option) pool_loop ::
    "(bnode \<Rightarrow> buf_state \<Rightarrow> buf_state option) \<Rightarrow> bnode list \<Rightarrow> nat \<Rightarrow> u16 \<Rightarrow> buf_state \<Rightarrow> (bnode list option \<times> buf_state) option" where
  "pool_loop custom ps offset rem_len st =
     Option.bind (do_memp_malloc_pool (bs_pool st)) (\<lambda>(q, mp).
       let st1 = st\<lparr>bs_pool := mp\<rparr>
       in case q of
            None \<Rightarrow>
              (let st2 = pbuf_pool_is_empty st1
               in if ps = [] then Some (None, st2)
                  else Option.bind (free_chain custom ps st2) (\<lambda>(count, rest, st3). Some (None, st3)))
          | Some q \<Rightarrow>
              (let qlen = min rem_len (of_nat (PBUF_POOL_BUFSIZE_ALIGNED - LWIP_MEM_ALIGN offset));
                   payload = LWIP_MEM_ALIGN (q + SIZEOF_STRUCT_PBUF + offset);
                   p = pbuf_init_alloced_pbuf q (Some payload) rem_len qlen PBUF_POOL 0
               in if payload mod MEM_ALIGNMENT \<noteq> 0 then None
                  else if PBUF_POOL_BUFSIZE_ALIGNED = LWIP_MEM_ALIGN offset then None
                  else if rem_len - qlen > 0 then pool_loop custom (ps @ [p]) 0 (rem_len - qlen) st1
                  else Some (Some (ps @ [p]), st1)))"

definition pbuf_alloc ::
    "(bnode \<Rightarrow> buf_state \<Rightarrow> buf_state option) \<Rightarrow> pbuf_layer \<Rightarrow> u16 \<Rightarrow> u16 \<Rightarrow> buf_state \<Rightarrow> (bnode list option \<times> buf_state) option" where
  "pbuf_alloc custom layer plen type st =
     (let offset = layer_offset layer
      in if type = PBUF_REF \<or> type = PBUF_ROM then pbuf_alloc_reference None plen type st
         else if type = PBUF_POOL then pool_loop custom [] offset plen st
         else if type = PBUF_RAM
         then (let payload_len = (LWIP_MEM_ALIGN offset + LWIP_MEM_ALIGN (unat plen)) mod 2 ^ 16;
                   alloc_len = (LWIP_MEM_ALIGN SIZEOF_STRUCT_PBUF + payload_len) mod 2 ^ 16
               in if payload_len < LWIP_MEM_ALIGN (unat plen) \<or> alloc_len < LWIP_MEM_ALIGN (unat plen) then Some (None, st)
                  else Option.bind (mem_malloc alloc_len (bs_heap st)) (\<lambda>(p, h).
                    let st1 = st\<lparr>bs_heap := h\<rparr>
                    in case p of
                         None \<Rightarrow> Some (None, st1)
                       | Some p \<Rightarrow>
                           (let payload = LWIP_MEM_ALIGN (p + SIZEOF_STRUCT_PBUF + offset)
                            in if payload mod MEM_ALIGNMENT \<noteq> 0 then None
                               else Some (Some [pbuf_init_alloced_pbuf p (Some payload) plen plen PBUF_RAM 0], st1))))
         else None)"

definition pbuf_alloced_custom :: "pbuf_layer \<Rightarrow> u16 \<Rightarrow> u16 \<Rightarrow> nat \<Rightarrow> nat option \<Rightarrow> u16 \<Rightarrow> bnode option" where
  "pbuf_alloced_custom layer plen type p payload_mem payload_mem_len =
     (let offset = layer_offset layer
      in if LWIP_MEM_ALIGN offset + unat plen > unat payload_mem_len then None
         else (let payload = map_option (\<lambda>m. m + LWIP_MEM_ALIGN offset) payload_mem
               in Some (pbuf_init_alloced_pbuf p payload plen plen type PBUF_FLAG_IS_CUSTOM)))"

text \<open>Moving the payload pointer over headers, on the first node of a chain.\<close>

definition pbuf_add_header_impl :: "bnode \<Rightarrow> nat \<Rightarrow> bool \<Rightarrow> u8 \<times> bnode" where
  "pbuf_add_header_impl p inc force =
     (if inc > 0xFFFF then (1, p)
      else if inc = 0 then (0, p)
      else
        (let magnitude = of_nat inc :: u16;
             payload = map_option (\<lambda>a. int a - int inc) (bn_payload p);
             moved = p\<lparr>bn_payload := map_option nat payload, bn_len := bn_len p + magnitude, bn_tot_len := bn_tot_len p + magnitude\<rparr>
         in if magnitude + bn_tot_len p < magnitude then (1, p)
            else if bn_type p AND 0x80 \<noteq> 0
            then if (case payload of None \<Rightarrow> True | Some a \<Rightarrow> a < int (bn_at p + SIZEOF_STRUCT_PBUF)) then (1, p) else (0, moved)
            else if force then (0, moved) else (1, p)))"

definition pbuf_add_header :: "bnode \<Rightarrow> nat \<Rightarrow> u8 \<times> bnode" where
  "pbuf_add_header p inc = pbuf_add_header_impl p inc False"

definition pbuf_add_header_force :: "bnode \<Rightarrow> nat \<Rightarrow> u8 \<times> bnode" where
  "pbuf_add_header_force p inc = pbuf_add_header_impl p inc True"

definition drop_header :: "bnode \<Rightarrow> nat \<Rightarrow> u8 \<times> bnode" where
  "drop_header p dec =
     (if dec > 0xFFFF then (1, p)
      else if dec = 0 then (0, p)
      else
        (let magnitude = of_nat dec :: u16
         in if \<not> magnitude \<le> bn_len p then (1, p)
            else (0, p\<lparr>bn_payload := map_option (\<lambda>a. a + dec) (bn_payload p), bn_len := bn_len p - magnitude,
                       bn_tot_len := bn_tot_len p - magnitude\<rparr>)))"

definition pbuf_header_impl :: "bnode \<Rightarrow> int \<Rightarrow> bool \<Rightarrow> u8 \<times> bnode" where
  "pbuf_header_impl p inc force = (if inc < 0 then drop_header p (nat (- inc)) else pbuf_add_header_impl p (nat inc) force)"

definition pbuf_header :: "bnode \<Rightarrow> int \<Rightarrow> u8 \<times> bnode" where
  "pbuf_header p inc = pbuf_header_impl p inc False"

definition pbuf_header_force :: "bnode \<Rightarrow> int \<Rightarrow> u8 \<times> bnode" where
  "pbuf_header_force p inc = pbuf_header_impl p inc True"

section \<open>Alignment\<close>

lemma align_facts: "LWIP_MEM_ALIGN a mod 4 = 0" "a \<le> LWIP_MEM_ALIGN a" "LWIP_MEM_ALIGN a < a + 4"
  by (simp_all add: LWIP_MEM_ALIGN_def heap_consts)

lemma align_add: "a mod 4 = 0 \<Longrightarrow> LWIP_MEM_ALIGN (a + b) = a + LWIP_MEM_ALIGN b"
  by (simp add: LWIP_MEM_ALIGN_def heap_consts) presburger

lemma layer_small: "layer_offset l \<le> 74" "LWIP_MEM_ALIGN (layer_offset l) \<le> 76"
  by (cases l; simp add: LWIP_MEM_ALIGN_def heap_consts)+

section \<open>The pool of buffers\<close>

definition pool_desc :: "nat \<Rightarrow> memp_desc" where
  "pool_desc b = \<lparr>md_size = 280, md_num = 120, md_base = b\<rparr>"

lemma pool_desc_ok [simp]: "desc_ok (pool_desc b)"
  by (simp add: desc_ok_def pool_desc_def)

lemma pool_history_alloc:
  assumes "desc_ok d" "pool_history d mp held"
  shows "finite held \<and> (if card held = md_num d then do_memp_malloc_pool mp = Some (None, mp)
     else \<exists>p mp'. do_memp_malloc_pool mp = Some (Some p, mp') \<and> p \<notin> held \<and> p mod 4 = 0 \<and> pool_history d mp' (insert p held))"
proof -
  have ok: "pool_ok d mp held" by (rule pool_history_ok [OF assms(2,1)])
  then have sub: "held \<subseteq> elements d" by (auto simp: pool_ok_def)
  have full: "card held = md_num d \<longleftrightarrow> held = elements d"
    using card_subset_eq [OF _ sub] card_elements [OF assms(1)] by auto
  show ?thesis
  proof (cases "held = elements d")
    case True
    then show ?thesis using memp_malloc_spec [OF assms(1) ok] full by simp
  next
    case False
    then obtain p mp' where p: "do_memp_malloc_pool mp = Some (Some p, mp')" "p \<in> elements d - held"
      using memp_malloc_spec [OF assms(1) ok] by auto
    have "p mod 4 = 0" using elements_aligned [OF assms(1)] p(2) by (simp add: heap_consts)
    then show ?thesis using False full p pool_history.alloc [OF assms(2) p(1)] finite_subset [OF sub] by auto
  qed
qed

definition fresh_node :: "bnode \<Rightarrow> bool" where
  "fresh_node p \<longleftrightarrow> bn_type p = 0x82 \<and> bn_flags p = 0 \<and> bn_ref p = 1"

lemma free_nodes_fresh:
  assumes "desc_ok d" "pool_history d (bs_pool st) (held \<union> bn_at ` set ps)" "bn_at ` set ps \<inter> held = {}"
    "distinct (map bn_at ps)" "\<forall>p \<in> set ps. fresh_node p"
  shows "\<exists>mp. free_nodes custom ps c st = Some (c + of_nat (length ps), [], st\<lparr>bs_pool := mp\<rparr>) \<and> pool_history d mp held"
  using assms(2-)
proof (induction ps arbitrary: st c)
  case Nil
  then show ?case by (auto intro!: exI [of _ "bs_pool st"])
next
  case (Cons p ps)
  have held: "bn_at p \<in> held \<union> bn_at ` set (p # ps)" by simp
  obtain mp where mp: "do_memp_free_pool (bn_at p) (bs_pool st) = Some mp"
    using memp_free_spec [OF assms(1) pool_history_ok [OF Cons.prems(1) assms(1)] held] by blast
  have "held \<union> bn_at ` set (p # ps) - {bn_at p} = held \<union> bn_at ` set ps" using Cons.prems(2,3) by auto
  then have "pool_history d mp (held \<union> bn_at ` set ps)" using pool_history.free [OF Cons.prems(1) held mp] by simp
  then obtain mp' where mp': "free_nodes custom ps (c + 1) (st\<lparr>bs_pool := mp\<rparr>) = Some (c + 1 + of_nat (length ps), [], st\<lparr>bs_pool := mp'\<rparr>)"
    "pool_history d mp' held" using Cons.IH [of "st\<lparr>bs_pool := mp\<rparr>" "c + 1"] Cons.prems(2-) by auto
  have "free_nodes custom (p # ps) c st = free_nodes custom ps (c + 1) (st\<lparr>bs_pool := mp\<rparr>)"
    using Cons.prems(4) mp by (simp add: fresh_node_def return_node_def)
  then show ?case using mp' by (auto simp: add_ac)
qed

text \<open>How the pool lays a packet out: \<open>off\<close> bytes are left in front of the first payload.\<close>

fun laid_out :: "nat \<Rightarrow> nat \<Rightarrow> bnode list \<Rightarrow> bool" where
  "laid_out off rem [] = False"
| "laid_out off rem (p # ps) =
     (fresh_node p \<and> bn_at p mod 4 = 0 \<and> bn_payload p = Some (bn_at p + 24 + LWIP_MEM_ALIGN off) \<and>
      unat (bn_tot_len p) = rem \<and> unat (bn_len p) = min rem (256 - LWIP_MEM_ALIGN off) \<and>
      (if rem \<le> 256 - LWIP_MEM_ALIGN off then ps = [] else laid_out 0 (rem - (256 - LWIP_MEM_ALIGN off)) ps))"

definition pool_need :: "nat \<Rightarrow> nat \<Rightarrow> nat" where
  "pool_need off rem = max 1 ((rem + LWIP_MEM_ALIGN off + 255) div 256)"

lemma align_zero [simp]: "LWIP_MEM_ALIGN 0 = 0"
  by (simp add: LWIP_MEM_ALIGN_def heap_consts)

lemma pool_need_last: "LWIP_MEM_ALIGN off < 256 \<Longrightarrow> rem \<le> 256 - LWIP_MEM_ALIGN off \<Longrightarrow> pool_need off rem = 1"
  by (simp add: pool_need_def)

lemma pool_need_more:
  assumes "LWIP_MEM_ALIGN off < 256" "256 - LWIP_MEM_ALIGN off < rem"
  shows "pool_need off rem = Suc (pool_need 0 (rem - (256 - LWIP_MEM_ALIGN off)))"
proof -
  let ?r = "rem - (256 - LWIP_MEM_ALIGN off)"
  have "rem + LWIP_MEM_ALIGN off + 255 = 256 + (?r + 255)" using assms by simp
  then have "(rem + LWIP_MEM_ALIGN off + 255) div 256 = (256 + (?r + 255)) div 256" by (rule arg_cong)
  then have "(rem + LWIP_MEM_ALIGN off + 255) div 256 = Suc ((?r + 255) div 256)" by (simp only: div_add_self1 [of 256] Suc_eq_plus1_left)
  moreover have "1 \<le> (?r + 255) div 256" using assms by simp
  moreover have "pool_need 0 ?r = max 1 ((?r + 255) div 256)" by (simp only: pool_need_def align_zero add_0_right)
  ultimately show ?thesis by (simp only: pool_need_def max_def) simp
qed

lemma pool_need_pos: "1 \<le> pool_need off rem"
  by (simp add: pool_need_def)

lemma pool_loop_spec:
  assumes "desc_ok d" "LWIP_MEM_ALIGN off < 256" "pool_history d (bs_pool st) (held \<union> bn_at ` set us)"
    "bn_at ` set us \<inter> held = {}" "distinct (map bn_at us)" "\<forall>p \<in> set us. fresh_node p"
  shows "if card held + length us + pool_need off (unat rem) \<le> md_num d
    then \<exists>ps mp. pool_loop custom us off rem st = Some (Some (us @ ps), st\<lparr>bs_pool := mp\<rparr>) \<and> laid_out off (unat rem) ps \<and>
      distinct (map bn_at (us @ ps)) \<and> bn_at ` set (us @ ps) \<inter> held = {} \<and> pool_history d mp (held \<union> bn_at ` set (us @ ps))
    else \<exists>mp. pool_loop custom us off rem st = Some (None, st\<lparr>bs_pool := mp, bs_ooseq_pending := 1\<rparr>) \<and> pool_history d mp held"
  using assms(2-)
proof (induction "unat rem" arbitrary: us off rem st rule: less_induct)
  case less
  let ?held = "held \<union> bn_at ` set us"
  let ?A = "LWIP_MEM_ALIGN off"
  have "finite ?held" using pool_history_alloc [OF assms(1) less.prems(2)] by simp
  then have card: "card ?held = card held + length us"
    using less.prems(3,4) by (subst card_Un_disjoint) (auto simp: card_image distinct_map distinct_card)
  show ?case
  proof (cases "card ?held = md_num d")
    case True
    then have alloc: "do_memp_malloc_pool (bs_pool st) = Some (None, bs_pool st)"
      using pool_history_alloc [OF assms(1) less.prems(2)] by simp
    have "\<not> card held + length us + pool_need off (unat rem) \<le> md_num d" using True card pool_need_pos [of off "unat rem"] by simp
    moreover have "\<exists>mp. pool_loop custom us off rem st = Some (None, st\<lparr>bs_pool := mp, bs_ooseq_pending := 1\<rparr>) \<and> pool_history d mp held"
    proof (cases "us = []")
      case True
      then show ?thesis using alloc less.prems(2)
        by (subst pool_loop.simps) (auto simp: Let_def pbuf_pool_is_empty_def intro!: exI [of _ "bs_pool st"])
    next
      case False
      obtain mp where "free_nodes custom us 0 (st\<lparr>bs_ooseq_pending := 1\<rparr>) = Some (of_nat (length us), [], st\<lparr>bs_ooseq_pending := 1, bs_pool := mp\<rparr>)"
        "pool_history d mp held"
        using free_nodes_fresh [OF assms(1), of "st\<lparr>bs_ooseq_pending := 1\<rparr>" held us custom 0] less.prems(2-) by auto
      moreover have "st\<lparr>bs_ooseq_pending := 1, bs_pool := mp\<rparr> = st\<lparr>bs_pool := mp, bs_ooseq_pending := 1\<rparr>" by simp
      ultimately show ?thesis using alloc False
        by (intro exI [of _ mp]) (subst pool_loop.simps, simp add: Let_def pbuf_pool_is_empty_def free_chain_def)
    qed
    ultimately show ?thesis by simp
  next
    case False
    then obtain q mp where q: "do_memp_malloc_pool (bs_pool st) = Some (Some q, mp)" "q \<notin> ?held" "q mod 4 = 0"
      "pool_history d mp (insert q ?held)" using pool_history_alloc [OF assms(1) less.prems(2)] by auto
    have le: "card held + length us < md_num d"
    proof -
      have "?held \<subseteq> elements d" using pool_history_ok [OF less.prems(2) assms(1)] by (auto simp: pool_ok_def)
      from card_mono [OF finite_elements this] show ?thesis using False card card_elements [OF assms(1)] by simp
    qed
    define qlen where "qlen = min rem (of_nat (256 - ?A) :: u16)"
    define p where "p = pbuf_init_alloced_pbuf q (Some (q + 24 + ?A)) rem qlen PBUF_POOL 0"
    have qlen: "unat qlen = min (unat rem) (256 - ?A)"
      by (simp add: qlen_def min_def word_le_nat_alt unat_of_nat)
    have fresh: "fresh_node p" "bn_at p = q" "bn_payload p = Some (q + 24 + ?A)" "bn_tot_len p = rem" "bn_len p = qlen"
      by (simp_all add: p_def pbuf_init_alloced_pbuf_def fresh_node_def pbuf_types)
    have payload: "LWIP_MEM_ALIGN (q + 24 + off) = q + 24 + ?A" using q(3) by (intro align_add) presburger
    have al: "(q + 24 + ?A) mod 4 = 0" using payload align_facts(1) by metis
    have step: "pool_loop custom us off rem st =
        (if rem - qlen > 0 then pool_loop custom (us @ [p]) 0 (rem - qlen) (st\<lparr>bs_pool := mp\<rparr>)
         else Some (Some (us @ [p]), st\<lparr>bs_pool := mp\<rparr>))"
      using q(1) less.prems(1) al payload
      by (subst pool_loop.simps) (simp add: Let_def pbuf_sizes heap_consts qlen_def p_def)
    have rest: "unat (rem - qlen) = unat rem - (256 - ?A)" using qlen by (subst unat_minus_nat) auto
    have more: "rem - qlen > 0 \<longleftrightarrow> 256 - ?A < unat rem" by (simp add: unat_pos_iff rest)
    have us: "bn_at ` set (us @ [p]) \<inter> held = {}" "distinct (map bn_at (us @ [p]))" "\<forall>p \<in> set (us @ [p]). fresh_node p"
      "insert q ?held = held \<union> bn_at ` set (us @ [p])"
      using less.prems(3-) q(2) fresh by auto
    show ?thesis
    proof (cases "256 - ?A < unat rem")
      case True
      then have "unat (rem - qlen) < unat rem" using rest less.prems(1) by simp
      from less.hyps [OF this, of 0 "st\<lparr>bs_pool := mp\<rparr>" "us @ [p]"] us q(4)
      have ih: "if card held + length (us @ [p]) + pool_need 0 (unat rem - (256 - ?A)) \<le> md_num d
        then \<exists>ps mp'. pool_loop custom (us @ [p]) 0 (rem - qlen) (st\<lparr>bs_pool := mp\<rparr>) = Some (Some ((us @ [p]) @ ps), st\<lparr>bs_pool := mp'\<rparr>) \<and>
          laid_out 0 (unat rem - (256 - ?A)) ps \<and> distinct (map bn_at ((us @ [p]) @ ps)) \<and> bn_at ` set ((us @ [p]) @ ps) \<inter> held = {} \<and>
          pool_history d mp' (held \<union> bn_at ` set ((us @ [p]) @ ps))
        else \<exists>mp'. pool_loop custom (us @ [p]) 0 (rem - qlen) (st\<lparr>bs_pool := mp\<rparr>) = Some (None, st\<lparr>bs_pool := mp', bs_ooseq_pending := 1\<rparr>) \<and>
          pool_history d mp' held"
        by (simp add: rest cong: if_cong)
      have need: "card held + length (us @ [p]) + pool_need 0 (unat rem - (256 - ?A)) = card held + length us + pool_need off (unat rem)"
        using pool_need_more [OF less.prems(1) True] by simp
      have run: "pool_loop custom us off rem st = pool_loop custom (us @ [p]) 0 (rem - qlen) (st\<lparr>bs_pool := mp\<rparr>)"
        using step more True by simp
      show ?thesis
      proof (cases "card held + length us + pool_need off (unat rem) \<le> md_num d")
        case fits: True
        with ih need obtain ps mp' where ps: "pool_loop custom us off rem st = Some (Some (us @ p # ps), st\<lparr>bs_pool := mp'\<rparr>)"
          "laid_out 0 (unat rem - (256 - ?A)) ps" "distinct (map bn_at (us @ p # ps))" "bn_at ` set (us @ p # ps) \<inter> held = {}"
          "pool_history d mp' (held \<union> bn_at ` set (us @ p # ps))" unfolding run by auto
        have "laid_out off (unat rem) (p # ps)" using ps(2) fresh qlen True q(3) by simp
        with ps fits show ?thesis by (intro if_P [THEN iffD2]) (simp, blast)
      next
        case False
        with ih need show ?thesis unfolding run by simp
      qed
    next
      case False
      then have "pool_loop custom us off rem st = Some (Some (us @ [p]), st\<lparr>bs_pool := mp\<rparr>)" using step more by simp
      moreover have "laid_out off (unat rem) [p]" using fresh qlen False q(3) by simp
      moreover have "card held + length us + pool_need off (unat rem) \<le> md_num d"
        using le pool_need_last [OF less.prems(1)] False by simp
      ultimately show ?thesis using us q(4) by auto
    qed
  qed
qed

lemma laid_out_lengths:
  assumes "laid_out off rem ps" "LWIP_MEM_ALIGN off < 256"
  shows "sum_list (map (\<lambda>p. unat (bn_len p)) ps) = rem" "ps \<noteq> []" "unat (bn_tot_len (hd ps)) = rem"
    "\<forall>p \<in> set ps. \<exists>a. fresh_node p \<and> bn_payload p = Some a \<and> a mod 4 = 0 \<and> bn_at p + 24 \<le> a \<and> a + unat (bn_len p) \<le> bn_at p + 280"
    "bn_payload (hd ps) = Some (bn_at (hd ps) + 24 + LWIP_MEM_ALIGN off)"
proof -
  have "sum_list (map (\<lambda>p. unat (bn_len p)) ps) = rem \<and> ps \<noteq> [] \<and> unat (bn_tot_len (hd ps)) = rem \<and>
    (\<forall>p \<in> set ps. \<exists>a. fresh_node p \<and> bn_payload p = Some a \<and> a mod 4 = 0 \<and> bn_at p + 24 \<le> a \<and> a + unat (bn_len p) \<le> bn_at p + 280) \<and>
    bn_payload (hd ps) = Some (bn_at (hd ps) + 24 + LWIP_MEM_ALIGN off)"
    using assms
  proof (induction off rem ps rule: laid_out.induct)
    case (2 off rem p ps)
    have "(bn_at p + 24 + LWIP_MEM_ALIGN off) mod 4 = 0" 
    proof -
      have "bn_at p mod 4 = 0" using "2.prems"(1) by simp
      then show ?thesis using align_facts(1) [of off] by presburger
    qed
    then have one: "\<exists>a. fresh_node p \<and> bn_payload p = Some a \<and> a mod 4 = 0 \<and> bn_at p + 24 \<le> a \<and> a + unat (bn_len p) \<le> bn_at p + 280"
      using "2.prems" by (intro exI [of _ "bn_at p + 24 + LWIP_MEM_ALIGN off"]) auto
    show ?case
    proof (cases "rem \<le> 256 - LWIP_MEM_ALIGN off")
      case True
      then show ?thesis using "2.prems"(1) one by simp
    next
      case False
      then have "laid_out 0 (rem - (256 - LWIP_MEM_ALIGN off)) ps" using "2.prems"(1) by simp
      then show ?thesis using "2.IH" [OF False] "2.prems"(1) one False by simp
    qed
  qed simp
  then show "sum_list (map (\<lambda>p. unat (bn_len p)) ps) = rem" "ps \<noteq> []" "unat (bn_tot_len (hd ps)) = rem"
    "\<forall>p \<in> set ps. \<exists>a. fresh_node p \<and> bn_payload p = Some a \<and> a mod 4 = 0 \<and> bn_at p + 24 \<le> a \<and> a + unat (bn_len p) \<le> bn_at p + 280"
    "bn_payload (hd ps) = Some (bn_at (hd ps) + 24 + LWIP_MEM_ALIGN off)" by blast+
qed

text \<open>The lengths of a chain add up: the invariant of chains.\<close>

fun totals :: "bnode list \<Rightarrow> bool" where
  "totals [] = True"
| "totals (p # ps) = (unat (bn_tot_len p) = unat (bn_len p) + (case ps of [] \<Rightarrow> 0 | q # qs \<Rightarrow> unat (bn_tot_len q)) \<and> totals ps)"

lemma laid_out_totals: "laid_out off rem ps \<Longrightarrow> LWIP_MEM_ALIGN off < 256 \<Longrightarrow> totals ps"
proof (induction off rem ps rule: laid_out.induct)
  case (2 off rem p ps)
  show ?case
  proof (cases "rem \<le> 256 - LWIP_MEM_ALIGN off")
    case False
    then have l: "laid_out 0 (rem - (256 - LWIP_MEM_ALIGN off)) ps" using "2.prems"(1) by simp
    then obtain q qs where "ps = q # qs" using laid_out_lengths(2) by (metis align_zero neq_Nil_conv zero_less_numeral)
    then show ?thesis using "2.IH" [OF False l] laid_out_lengths(3) [OF l] "2.prems" False by simp
  qed (use 2 in simp)
qed simp

text \<open>At most one connection is asked to give up segments, the first that has some.\<close>

lemma pbuf_free_ooseq_first:
  assumes "\<forall>pcb \<in> set us. \<not> has_ooseq pcb"
  shows "pbuf_free_ooseq has_ooseq tcp_free_ooseq us st = Some (us, st\<lparr>bs_ooseq_pending := 0\<rparr>)"
    "has_ooseq pcb \<Longrightarrow> tcp_free_ooseq pcb (st\<lparr>bs_ooseq_pending := 0\<rparr>) = Some (pcb', st') \<Longrightarrow>
       pbuf_free_ooseq has_ooseq tcp_free_ooseq (us @ pcb # vs) st = Some (us @ pcb' # vs, st')"
  using assms unfolding pbuf_free_ooseq_def by (induction us) auto

section \<open>Headers\<close>

lemma add_header_room:
  assumes "bn_type p AND 0x80 \<noteq> 0" "bn_payload p = Some a" "bn_at p + 24 \<le> a" "unat (bn_tot_len p) + k < 2 ^ 16"
    "unat (bn_len p) \<le> unat (bn_tot_len p)"
  shows "if bn_at p + 24 + k \<le> a
    then \<exists>p'. pbuf_add_header p k = (0, p') \<and> bn_payload p' = Some (a - k) \<and> unat (bn_len p') = unat (bn_len p) + k \<and>
      unat (bn_tot_len p') = unat (bn_tot_len p) + k \<and> bn_at p' = bn_at p \<and> drop_header p' k = (0, p)
    else pbuf_add_header p k = (1, p)"
proof (cases "k = 0")
  case True
  then show ?thesis using assms(2,3) by (simp add: pbuf_add_header_def pbuf_add_header_impl_def drop_header_def)
next
  case False
  have k: "unat (of_nat k :: u16) = k" "k \<le> 0xFFFF" using assms(4) by (simp_all add: unat_of_nat)
  have sums: "unat (bn_tot_len p + of_nat k) = unat (bn_tot_len p) + k" "unat (bn_len p + of_nat k) = unat (bn_len p) + k"
    using assms(4,5) k(1) by (simp_all add: unat_word_ariths)
  have "\<not> (of_nat k :: u16) + bn_tot_len p < of_nat k" using sums(1) k(1) by (simp add: word_less_nat_alt add.commute)
  then have e: "pbuf_add_header p k = (if int a - int k < int (bn_at p + 24) then (1, p)
      else (0, p\<lparr>bn_payload := Some (nat (int a - int k)), bn_len := bn_len p + of_nat k, bn_tot_len := bn_tot_len p + of_nat k\<rparr>))"
    using False k(2) assms(1,2) by (simp add: pbuf_add_header_def pbuf_add_header_impl_def Let_def pbuf_sizes)
  show ?thesis
  proof (cases "bn_at p + 24 + k \<le> a")
    case True
    let ?p = "p\<lparr>bn_payload := Some (a - k), bn_len := bn_len p + of_nat k, bn_tot_len := bn_tot_len p + of_nat k\<rparr>"
    have "pbuf_add_header p k = (0, ?p)" using True by (simp add: e nat_diff_distrib)
    moreover have "of_nat k \<le> bn_len p + of_nat k" using sums(2) k(1) by (simp add: word_le_nat_alt)
    then have "drop_header ?p k = (0, p)" using False k(2) True assms(2) by (simp add: drop_header_def Let_def)
    ultimately show ?thesis using True sums by simp
  next
    case False
    then show ?thesis by (simp add: e)
  qed
qed

text \<open>What an allocation promises: room for the packet and for the headers of the layer.\<close>

definition packet_room :: "pbuf_layer \<Rightarrow> u16 \<Rightarrow> nat \<Rightarrow> bnode list \<Rightarrow> bool" where
  "packet_room l n sz ps \<longleftrightarrow>
     ps \<noteq> [] \<and> sum_list (map (\<lambda>p. unat (bn_len p)) ps) = unat n \<and> totals ps \<and> bn_tot_len (hd ps) = n \<and>
     (\<forall>p \<in> set ps. \<exists>a. bn_payload p = Some a \<and> a mod 4 = 0 \<and> bn_at p + 24 \<le> a \<and> a + unat (bn_len p) \<le> bn_at p + sz \<and> bn_ref p = 1) \<and>
     (\<forall>k \<le> layer_offset l. unat n + k < 2 ^ 16 \<longrightarrow> (\<exists>p. pbuf_add_header (hd ps) k = (0, p) \<and> drop_header p k = (0, hd ps)))"

lemma header_room:
  assumes "bn_type p AND 0x80 \<noteq> 0" "bn_payload p = Some (bn_at p + 24 + LWIP_MEM_ALIGN off)" "unat (bn_tot_len p) + k < 2 ^ 16"
    "unat (bn_len p) \<le> unat (bn_tot_len p)" "k \<le> off"
  shows "\<exists>p'. pbuf_add_header p k = (0, p') \<and> drop_header p' k = (0, p)"
proof -
  have "bn_at p + 24 + k \<le> bn_at p + 24 + LWIP_MEM_ALIGN off" using align_facts(2) [of off] assms(5) by simp
  then show ?thesis using add_header_room [OF assms(1,2) _ assms(3,4)] by auto
qed

lemma laid_out_room:
  assumes "laid_out (layer_offset l) (unat n) ps"
  shows "packet_room l n 280 ps"
proof -
  have small: "LWIP_MEM_ALIGN (layer_offset l) < 256" using layer_small(2) [of l] by simp
  note k = laid_out_lengths [OF assms small]
  have tot: "bn_tot_len (hd ps) = n" using k(3) by (simp add: word_unat_eq_iff)
  have hd: "hd ps \<in> set ps" using k(2) by simp
  have "totals ps" by (rule laid_out_totals [OF assms small])
  then have "unat (bn_len (hd ps)) \<le> unat (bn_tot_len (hd ps))" using k(2) by (cases ps) auto
  moreover have "bn_type (hd ps) AND 0x80 \<noteq> 0" using k(4) hd by (auto simp: fresh_node_def)
  ultimately have "\<forall>j \<le> layer_offset l. unat n + j < 2 ^ 16 \<longrightarrow> (\<exists>p. pbuf_add_header (hd ps) j = (0, p) \<and> drop_header p j = (0, hd ps))"
    using header_room [OF _ k(5)] tot by blast
  moreover have "\<forall>p \<in> set ps. \<exists>a. bn_payload p = Some a \<and> a mod 4 = 0 \<and> bn_at p + 24 \<le> a \<and> a + unat (bn_len p) \<le> bn_at p + 280 \<and> bn_ref p = 1"
    using k(4) by (fastforce simp: fresh_node_def)
  ultimately show ?thesis using k(1,2) \<open>totals ps\<close> tot by (simp only: packet_room_def simp_thms)
qed

definition ram_size :: "pbuf_layer \<Rightarrow> u16 \<Rightarrow> nat" where
  "ram_size l n = 24 + LWIP_MEM_ALIGN (layer_offset l) + LWIP_MEM_ALIGN (unat n)"

lemma heap_history_malloc:
  assumes "heap_history h held" "0 < n" "n < 2 ^ 16"
  obtains "mem_malloc n h = Some (None, h)"
  | p h' where "mem_malloc n h = Some (Some p, h')" "p mod 4 = 0" "held p = None" "heap_history h' (held(p \<mapsto> n))"
proof -
  obtain bs where bs: "heap_ok h bs" "holds held bs" using history_ok [OF assms(1)] by blast
  from bs assms(2,3) show ?thesis
  proof (cases rule: mem_malloc_held)
    case (2 p h' bs')
    show ?thesis by (rule that(2) [OF 2(1,4,6) heap_history.alloc [OF assms 2(1)]])
  qed (use that in blast)
qed

lemma ram_spec:
  assumes "heap_history (bs_heap st) held"
  shows "pbuf_alloc custom l n PBUF_RAM st = Some (None, st) \<and> (2 ^ 16 \<le> ram_size l n \<or> mem_malloc (ram_size l n) (bs_heap st) = Some (None, bs_heap st)) \<or>
    (\<exists>p h. pbuf_alloc custom l n PBUF_RAM st = Some (Some [p], st\<lparr>bs_heap := h\<rparr>) \<and> packet_room l n (ram_size l n) [p] \<and>
      held (bn_at p) = None \<and> heap_history h (held(bn_at p \<mapsto> ram_size l n)) \<and>
      (\<exists>h'. free_chain custom [p] (st\<lparr>bs_heap := h\<rparr>) = Some (1, [], st\<lparr>bs_heap := h'\<rparr>) \<and> heap_history h' held))"
proof -
  let ?A = "LWIP_MEM_ALIGN (layer_offset l)" and ?L = "LWIP_MEM_ALIGN (unat n)"
  have A: "?A \<le> 76" by (rule layer_small(2))
  have "unat n < 65536" using unat_less_u16 [of n] by simp
  then have L: "?L \<le> 65536" using align_facts [of "unat n"] by presburger
  have s24: "LWIP_MEM_ALIGN SIZEOF_STRUCT_PBUF = 24" by (simp add: LWIP_MEM_ALIGN_def heap_consts pbuf_sizes)
  have types: "PBUF_RAM \<noteq> PBUF_REF" "PBUF_RAM \<noteq> PBUF_ROM" "PBUF_RAM \<noteq> PBUF_POOL" by (simp_all add: pbuf_types)
  show ?thesis
  proof (cases "2 ^ 16 \<le> ram_size l n")
    case True
    have "(?A + ?L) mod 65536 < ?L \<or> (24 + (?A + ?L) mod 65536) mod 65536 < ?L"
    proof (cases "?A + ?L < 65536")
      case small: True
      then have "(24 + (?A + ?L)) mod 65536 = 24 + (?A + ?L) - 65536"
        using True by (simp add: ram_size_def mod_if)
      then show ?thesis using small A True by (simp add: ram_size_def)
    next
      case False
      then have "(?A + ?L) mod 65536 = ?A + ?L - 65536" using A L by (simp add: mod_if)
      moreover have "?A + ?L - 65536 < ?L" using A False by linarith
      ultimately show ?thesis by simp
    qed
    then have "pbuf_alloc custom l n PBUF_RAM st = Some (None, st)" using types by (auto simp: pbuf_alloc_def Let_def s24)
    then show ?thesis using True by blast
  next
    case False
    then have mods: "(?A + ?L) mod 2 ^ 16 = ?A + ?L" "(24 + (?A + ?L)) mod 2 ^ 16 = ram_size l n" by (simp_all add: ram_size_def)
    have e: "pbuf_alloc custom l n PBUF_RAM st = Option.bind (mem_malloc (ram_size l n) (bs_heap st)) (\<lambda>(p, h).
        case p of None \<Rightarrow> Some (None, st\<lparr>bs_heap := h\<rparr>)
        | Some p \<Rightarrow> (let payload = LWIP_MEM_ALIGN (p + SIZEOF_STRUCT_PBUF + layer_offset l)
            in if payload mod MEM_ALIGNMENT \<noteq> 0 then None
               else Some (Some [pbuf_init_alloced_pbuf p (Some payload) n n PBUF_RAM 0], st\<lparr>bs_heap := h\<rparr>)))"
      unfolding pbuf_alloc_def using types mods by (simp add: s24 Let_def) (simp add: ram_size_def)
    have "0 < ram_size l n" "ram_size l n < 2 ^ 16" using False by (simp_all add: ram_size_def)
    with assms show ?thesis
    proof (cases rule: heap_history_malloc)
      case 1
      then show ?thesis by (simp add: e)
    next
      case (2 q h)
      let ?p = "pbuf_init_alloced_pbuf q (Some (q + 24 + ?A)) n n PBUF_RAM 0"
      have al: "LWIP_MEM_ALIGN (q + 24 + layer_offset l) = q + 24 + ?A" using 2(2) by (intro align_add) presburger
      have al4: "(q + 24 + ?A) mod 4 = 0" using align_facts(1) [of "q + 24 + layer_offset l"] al by simp
      have run: "pbuf_alloc custom l n PBUF_RAM st = Some (Some [?p], st\<lparr>bs_heap := h\<rparr>)"
        using 2(1) al al4 by (simp add: e pbuf_sizes heap_consts)
      have node: "bn_at ?p = q" "bn_payload ?p = Some (q + 24 + ?A)" "bn_len ?p = n" "bn_tot_len ?p = n" "bn_type ?p = 0x80" "bn_flags ?p = 0" "bn_ref ?p = 1"
        by (simp_all add: pbuf_init_alloced_pbuf_def pbuf_types)
      have heads: "\<forall>k \<le> layer_offset l. unat n + k < 2 ^ 16 \<longrightarrow> (\<exists>p. pbuf_add_header ?p k = (0, p) \<and> drop_header p k = (0, ?p))"
        using header_room [of ?p "layer_offset l"] node by simp
      have room: "packet_room l n (ram_size l n) [?p]"
        unfolding packet_room_def using node heads al4 align_facts(2) [of "unat n"] by (simp add: ram_size_def)
      obtain h' where h': "mem_free (Some (int q)) h = Some h'"
      proof -
        obtain bs where bs: "heap_ok h bs" "holds (held(q \<mapsto> ram_size l n)) bs" using history_ok [OF 2(4)] by blast
        show ?thesis by (rule mem_free_held [OF bs, of q "ram_size l n"]) (use that in auto)
      qed
      have same: "(held(q \<mapsto> ram_size l n))(q := None) = held" using 2(3) by auto
      have "heap_history h' ((held(q \<mapsto> ram_size l n))(q := None))" by (rule heap_history.free [OF 2(4) _ h']) simp
      then have "heap_history h' held" by (simp only: same)
      moreover have "free_chain custom [?p] (st\<lparr>bs_heap := h\<rparr>) = Some (1, [], st\<lparr>bs_heap := h'\<rparr>)"
        using h' node by (simp add: free_chain_def return_node_def)
      ultimately show ?thesis using run room 2(3,4) node(1) by auto
    qed
  qed
qed

section \<open>Properties\<close>

text \<open>
  C34. An allocation gives a packet of the length asked for, whose buffers lie in memory that nobody else holds, inside
  their elements, with room for the headers of the layer: revealing any of them succeeds and hiding them again gives
  the node back. From the pool it succeeds exactly if enough buffers are free; otherwise what was taken goes back and
  the shortage is noted. From the heap it fails only if the size does not fit in 16 bits or the heap refuses. Freeing
  the packet leads back to what was held before.
\<close>
theorem pbuf_alloc_gives_room:
  assumes "pool_history (pool_desc b) (bs_pool st) pool" "heap_history (bs_heap st) held"
  shows "(if card pool + pool_need (layer_offset l) (unat n) \<le> 120
     then \<exists>ps mp. pbuf_alloc custom l n PBUF_POOL st = Some (Some ps, st\<lparr>bs_pool := mp\<rparr>) \<and> packet_room l n 280 ps \<and>
       distinct (map bn_at ps) \<and> bn_at ` set ps \<inter> pool = {} \<and> pool_history (pool_desc b) mp (pool \<union> bn_at ` set ps) \<and>
       (\<exists>mp'. free_chain custom ps (st\<lparr>bs_pool := mp\<rparr>) = Some (of_nat (length ps), [], st\<lparr>bs_pool := mp'\<rparr>) \<and>
          pool_history (pool_desc b) mp' pool)
     else \<exists>mp. pbuf_alloc custom l n PBUF_POOL st = Some (None, st\<lparr>bs_pool := mp, bs_ooseq_pending := 1\<rparr>) \<and>
       pool_history (pool_desc b) mp pool) \<and>
   (pbuf_alloc custom l n PBUF_RAM st = Some (None, st) \<and> (2 ^ 16 \<le> ram_size l n \<or> mem_malloc (ram_size l n) (bs_heap st) = Some (None, bs_heap st)) \<or>
    (\<exists>p h. pbuf_alloc custom l n PBUF_RAM st = Some (Some [p], st\<lparr>bs_heap := h\<rparr>) \<and> packet_room l n (ram_size l n) [p] \<and>
      held (bn_at p) = None \<and> heap_history h (held(bn_at p \<mapsto> ram_size l n)) \<and>
      (\<exists>h'. free_chain custom [p] (st\<lparr>bs_heap := h\<rparr>) = Some (1, [], st\<lparr>bs_heap := h'\<rparr>) \<and> heap_history h' held)))"
proof -
  have small: "LWIP_MEM_ALIGN (layer_offset l) < 256" using layer_small(2) [of l] by simp
  have num: "md_num (pool_desc b) = 120" by (simp add: pool_desc_def)
  have types: "PBUF_POOL \<noteq> PBUF_REF" "PBUF_POOL \<noteq> PBUF_ROM" by (simp_all add: pbuf_types)
  then have e: "pbuf_alloc custom l n PBUF_POOL st = pool_loop custom [] (layer_offset l) n st" by (simp add: pbuf_alloc_def Let_def)
  have loop: "if card pool + pool_need (layer_offset l) (unat n) \<le> 120
    then \<exists>ps mp. pool_loop custom [] (layer_offset l) n st = Some (Some ps, st\<lparr>bs_pool := mp\<rparr>) \<and> laid_out (layer_offset l) (unat n) ps \<and>
      distinct (map bn_at ps) \<and> bn_at ` set ps \<inter> pool = {} \<and> pool_history (pool_desc b) mp (pool \<union> bn_at ` set ps)
    else \<exists>mp. pool_loop custom [] (layer_offset l) n st = Some (None, st\<lparr>bs_pool := mp, bs_ooseq_pending := 1\<rparr>) \<and> pool_history (pool_desc b) mp pool"
    using pool_loop_spec [OF pool_desc_ok small, of b st pool "[]" n custom] assms(1) num by (simp cong: if_cong)
  have "if card pool + pool_need (layer_offset l) (unat n) \<le> 120
     then \<exists>ps mp. pbuf_alloc custom l n PBUF_POOL st = Some (Some ps, st\<lparr>bs_pool := mp\<rparr>) \<and> packet_room l n 280 ps \<and>
       distinct (map bn_at ps) \<and> bn_at ` set ps \<inter> pool = {} \<and> pool_history (pool_desc b) mp (pool \<union> bn_at ` set ps) \<and>
       (\<exists>mp'. free_chain custom ps (st\<lparr>bs_pool := mp\<rparr>) = Some (of_nat (length ps), [], st\<lparr>bs_pool := mp'\<rparr>) \<and>
          pool_history (pool_desc b) mp' pool)
     else \<exists>mp. pbuf_alloc custom l n PBUF_POOL st = Some (None, st\<lparr>bs_pool := mp, bs_ooseq_pending := 1\<rparr>) \<and>
       pool_history (pool_desc b) mp pool"
  proof (cases "card pool + pool_need (layer_offset l) (unat n) \<le> 120")
    case True
    then obtain ps mp where ps: "pool_loop custom [] (layer_offset l) n st = Some (Some ps, st\<lparr>bs_pool := mp\<rparr>)"
      "laid_out (layer_offset l) (unat n) ps" "distinct (map bn_at ps)" "bn_at ` set ps \<inter> pool = {}"
      "pool_history (pool_desc b) mp (pool \<union> bn_at ` set ps)" using loop by auto
    have fresh: "\<forall>p \<in> set ps. fresh_node p" "ps \<noteq> []" using laid_out_lengths [OF ps(2) small] by auto
    obtain mp' where "free_nodes custom ps 0 (st\<lparr>bs_pool := mp\<rparr>) = Some (0 + of_nat (length ps), [], st\<lparr>bs_pool := mp, bs_pool := mp'\<rparr>)"
      "pool_history (pool_desc b) mp' pool"
      using free_nodes_fresh [OF pool_desc_ok, of b "st\<lparr>bs_pool := mp\<rparr>" pool ps custom 0] ps(3-5) fresh(1) by auto
    then have "\<exists>mp'. free_chain custom ps (st\<lparr>bs_pool := mp\<rparr>) = Some (of_nat (length ps), [], st\<lparr>bs_pool := mp'\<rparr>) \<and> pool_history (pool_desc b) mp' pool"
      using fresh(2) by (simp add: free_chain_def) blast
    with True ps laid_out_room [OF ps(2)] show ?thesis unfolding e by auto
  next
    case False
    with loop show ?thesis unfolding e by simp
  qed
  then show ?thesis using ram_spec [OF assms(2), of custom l n] by (rule conjI)
qed

text \<open>600 bytes from the untouched pool, with room for the headers of all layers.\<close>

theorem pbuf_alloc_gives_room_witness:
  "\<exists>st ps st'. pbuf_alloc (\<lambda>p st. None) PBUF_TRANSPORT 600 PBUF_POOL st = Some (Some ps, st') \<and>
     sum_list (map (\<lambda>p. unat (bn_len p)) ps) = 600 \<and> (\<exists>p. pbuf_add_header (hd ps) 74 = (0, p) \<and> drop_header p 74 = (0, hd ps)) \<and>
     (\<exists>st''. free_chain (\<lambda>p st. None) ps st' = Some (of_nat (length ps), [], st''))"
proof -
  let ?mp = "memp_init_pool (pool_desc 4096) \<lparr>mp_tab = None, mp_next = (\<lambda>x. None)\<rparr>"
  let ?st = "\<lparr>bs_pool = ?mp, bs_refs = ?mp, bs_heap = mem_init (\<lambda>x. 0), bs_ooseq_pending = 0\<rparr>"
  have pool: "pool_history (pool_desc 4096) (bs_pool ?st) {}" using pool_history.start by simp
  have heap: "heap_history (bs_heap ?st) Map.empty" using heap_history.start by simp
  have need: "card ({} :: nat set) + pool_need (layer_offset PBUF_TRANSPORT) (unat (600 :: u16)) \<le> 120"
    by (simp add: pool_need_def LWIP_MEM_ALIGN_def heap_consts)
  note both = pbuf_alloc_gives_room [OF pool heap, where l = PBUF_TRANSPORT and n = 600 and custom = "\<lambda>p st. None"]
  obtain ps mp where ps: "pbuf_alloc (\<lambda>p st. None) PBUF_TRANSPORT 600 PBUF_POOL ?st = Some (Some ps, ?st\<lparr>bs_pool := mp\<rparr>)"
    "packet_room PBUF_TRANSPORT 600 280 ps"
    "\<exists>mp'. free_chain (\<lambda>p st. None) ps (?st\<lparr>bs_pool := mp\<rparr>) = Some (of_nat (length ps), [], ?st\<lparr>bs_pool := mp'\<rparr>)"
    using both [THEN conjunct1, unfolded if_P [OF need]] by (elim exE conjE) (rule that, assumption+, rule exI, assumption)
  have "\<exists>p. pbuf_add_header (hd ps) 74 = (0, p) \<and> drop_header p 74 = (0, hd ps)"
    using ps(2) by (simp add: packet_room_def)
  moreover have "sum_list (map (\<lambda>p. unat (bn_len p)) ps) = 600" using ps(2) by (simp add: packet_room_def)
  ultimately show ?thesis using ps(1,3) by blast
qed

end
