(* ===== verification/Pbuf_Copy.thy ===== *)
theory Pbuf_Copy
  imports Pbuf_Access
begin

text \<open>
  Copying between packet buffers (\<open>lwip/src/core/pbuf.c\<close>): both chains are walked at once. The result \<open>None\<close> is a
  failed assertion, which ends the program; a copy that the assertion after it finds to have left its node is \<open>None\<close>
  as well.
\<close>

section \<open>Model\<close>

text \<open>A difference of two numbers of type \<open>size_t\<close>.\<close>

definition size_diff :: "nat \<Rightarrow> nat \<Rightarrow> nat" where
  "size_diff a b = unat (of_nat a - of_nat b :: u64)"

text \<open>A chain whose first node claims to be a packet of its own but has a successor.\<close>

definition is_queue :: "pbuf list \<Rightarrow> bool" where
  "is_queue ps = (case ps of [] \<Rightarrow> False | p # qs \<Rightarrow> pb_len p = pb_tot_len p \<and> qs \<noteq> [])"

text \<open>How much the two nodes allow, and the position in either chain behind the copied bytes.\<close>

definition copy_amount :: "pbuf \<Rightarrow> nat \<Rightarrow> pbuf \<Rightarrow> nat \<Rightarrow> nat \<Rightarrow> nat" where
  "copy_amount t offset_to f offset_from copy_len =
     (let room = size_diff (unat (pb_len t)) offset_to;
          avail = size_diff (unat (pb_len f)) offset_from
      in min copy_len (if room \<ge> avail then avail else room))"

definition next_from :: "pbuf \<Rightarrow> pbuf list \<Rightarrow> nat \<Rightarrow> pbuf list \<times> nat" where
  "next_from f fs offset_from = (if offset_from \<ge> unat (pb_len f) then (fs, 0) else (f # fs, offset_from))"

definition next_to :: "pbuf \<Rightarrow> pbuf list \<Rightarrow> nat \<Rightarrow> pbuf list \<times> pbuf list \<times> nat" where
  "next_to t ts offset_to = (if offset_to = unat (pb_len t) then ([t], ts, 0) else ([], t # ts, offset_to))"

partial_function (option) copy_pbuf_loop ::
    "pbuf list \<Rightarrow> nat \<Rightarrow> pbuf list \<Rightarrow> nat \<Rightarrow> nat \<Rightarrow> (err_t \<times> pbuf list) option" where
  "copy_pbuf_loop p_to offset_to p_from offset_from copy_len =
     (case p_to of [] \<Rightarrow> None | t # ts \<Rightarrow> (case p_from of [] \<Rightarrow> None | f # fs \<Rightarrow>
        (let len = copy_amount t offset_to f offset_from copy_len;
             t1 = t\<lparr>pb_payload := blit (pb_payload t) offset_to (take len (drop offset_from (pb_payload f)))\<rparr>
         in if \<not> offset_to + len \<le> unat (pb_len t) \<or> \<not> offset_from + len \<le> unat (pb_len f) then None
            else (case next_from f fs (offset_from + len) of (p_from, offset_from) \<Rightarrow>
              if p_from = [] \<and> copy_len - len \<noteq> 0 then Some (ERR_ARG, t1 # ts)
              else (case next_to t1 ts (offset_to + len) of (past, p_to, offset_to) \<Rightarrow>
                if p_to = [] \<and> copy_len - len \<noteq> 0 then Some (ERR_ARG, past @ p_to)
                else if is_queue p_from then Some (ERR_VAL, past @ p_to)
                else if is_queue p_to then Some (ERR_VAL, past @ p_to)
                else if copy_len - len = 0 then Some (ERR_OK, past @ p_to)
                else Option.bind (copy_pbuf_loop p_to offset_to p_from offset_from (copy_len - len))
                       (\<lambda>(err, p_to'). Some (err, past @ p_to')))))))"

definition pbuf_copy_partial_pbuf :: "pbuf list \<Rightarrow> pbuf list \<Rightarrow> u16 \<Rightarrow> u16 \<Rightarrow> (err_t \<times> pbuf list) option" where
  "pbuf_copy_partial_pbuf p_to p_from copy_len offset =
     (if \<not> (p_from \<noteq> [] \<and> pb_tot_len (hd p_from) \<ge> copy_len) then Some (ERR_ARG, p_to)
      else if \<not> (p_to \<noteq> [] \<and> unat (pb_tot_len (hd p_to)) \<ge> unat offset + unat copy_len) then Some (ERR_ARG, p_to)
      else copy_pbuf_loop p_to (unat offset) p_from 0 (unat copy_len))"

definition pbuf_copy :: "pbuf list \<Rightarrow> pbuf list \<Rightarrow> (err_t \<times> pbuf list) option" where
  "pbuf_copy p_to p_from =
     (if p_from = [] then Some (ERR_ARG, p_to) else pbuf_copy_partial_pbuf p_to p_from (pb_tot_len (hd p_from)) 0)"

section \<open>The loop\<close>

text \<open>A packet, not a queue: no node claims all of the rest for itself.\<close>

fun one_packet :: "pbuf list \<Rightarrow> bool" where
  "one_packet [] = True"
| "one_packet (p # ps) = (\<not> is_queue (p # ps) \<and> one_packet ps)"

lemma one_packet_not_queue: "one_packet ps \<Longrightarrow> \<not> is_queue ps"
  by (cases ps) (auto simp: is_queue_def)

text \<open>In a chain with correct lengths that means that the last of several nodes is not empty.\<close>

lemma one_packet_iff:
  assumes "pchain_inv ps"
  shows "one_packet ps \<longleftrightarrow> length ps \<le> 1 \<or> pb_payload (last ps) \<noteq> []"
  using assms
proof (induction ps)
  case (Cons p ps)
  show ?case
  proof (cases ps)
    case (Cons q qs)
    have p: "unat (pb_tot_len p) = unat (pb_len p) + unat (pb_tot_len q)" "pchain_inv (q # qs)" using Cons.prems Cons by auto
    have "unat (pb_tot_len q) = 0 \<longleftrightarrow> chain_bytes (q # qs) = []" using pchain_tot_len [OF p(2)] by (metis length_0_conv)
    moreover have "pb_len p = pb_tot_len p \<longleftrightarrow> unat (pb_tot_len q) = 0" using p(1) by (metis add_cancel_right_right word_unat_eq_iff)
    ultimately have queue: "is_queue (p # ps) \<longleftrightarrow> chain_bytes (q # qs) = []" by (simp add: is_queue_def Cons)
    show ?thesis
    proof (cases qs)
      case Nil
      then show ?thesis using queue Cons by (auto simp: is_queue_def)
    next
      case (Cons r rs)
      have last: "chain_bytes (q # qs) = [] \<Longrightarrow> pb_payload (last (q # qs)) = []"
        by (auto simp: chain_bytes_def dest: last_in_set)
      from Cons show ?thesis using Cons.IH p(2) queue last \<open>ps = q # qs\<close> by auto
    qed
  qed (simp add: is_queue_def)
qed simp

lemma size_diff_le: "b \<le> a \<Longrightarrow> a < 2 ^ 64 \<Longrightarrow> size_diff a b = a - b"
  by (subst size_diff_def, subst unat_minus_nat) (simp_all add: unat_of_nat)

lemma is_queue_payload [simp]: "is_queue (p\<lparr>pb_payload := x\<rparr> # ps) = is_queue (p # ps)"
  by (simp add: is_queue_def)

text \<open>One pass of the loop inside both chains.\<close>

lemma copy_pbuf_step:
  assumes "unat (pb_len t) = length (pb_payload t)" "unat (pb_len f) = length (pb_payload f)"
    "o_to \<le> length (pb_payload t)" "o_from \<le> length (pb_payload f)" "one_packet (t # ts)" "one_packet (f # fs)"
    "len = min n (min (length (pb_payload t) - o_to) (length (pb_payload f) - o_from))"
    "t1 = t\<lparr>pb_payload := blit (pb_payload t) o_to (take len (drop o_from (pb_payload f)))\<rparr>"
    "next_from f fs (o_from + len) = (froms, o_from')" "next_to t1 ts (o_to + len) = (past, tos, o_to')"
    "n - len \<noteq> 0 \<longrightarrow> tos \<noteq> [] \<and> froms \<noteq> []"
  shows "copy_pbuf_loop (t # ts) o_to (f # fs) o_from n =
     (if n - len = 0 then Some (ERR_OK, t1 # ts)
      else Option.bind (copy_pbuf_loop tos o_to' froms o_from' (n - len)) (\<lambda>(err, p). Some (err, past @ p)))"
proof -
  have "length (pb_payload t) < 2 ^ 64" "length (pb_payload f) < 2 ^ 64"
    using unat_less_u16 [of "pb_len t"] unat_less_u16 [of "pb_len f"] assms(1,2) by simp_all
  then have l: "copy_amount t o_to f o_from n = len"
    using assms(1-4,7) by (auto simp: copy_amount_def size_diff_le Let_def)
  have b: "o_to + len \<le> unat (pb_len t)" "o_from + len \<le> unat (pb_len f)" using assms(1-4,7) by simp_all
  have "\<not> is_queue ts" "\<not> is_queue fs" "\<not> is_queue (t # ts)" "\<not> is_queue (f # fs)"
    using assms(5,6) one_packet_not_queue by auto
  then have q: "\<not> is_queue froms" "\<not> is_queue tos" "past @ tos = t1 # ts"
    using assms(8-10) by (auto simp: next_from_def next_to_def split: if_splits)
  show ?thesis
    using assms(11) q(3) by (subst copy_pbuf_loop.simps) (simp add: l b assms(8) [symmetric] assms(9,10) q(1,2) Let_def)
qed

lemma copy_pbuf_loop_spec:
  assumes "pchain_inv tos" "pchain_inv froms" "one_packet tos" "one_packet froms" "tos \<noteq> []" "froms \<noteq> []"
    "o_to \<le> unat (pb_len (hd tos))" "o_from \<le> unat (pb_len (hd froms))"
    "o_to + n \<le> length (chain_bytes tos)" "o_from + n \<le> length (chain_bytes froms)"
  shows "\<exists>tos'. copy_pbuf_loop tos o_to froms o_from n = Some (ERR_OK, tos') \<and> pb_shape tos' = pb_shape tos
     \<and> chain_bytes tos' = blit (chain_bytes tos) o_to (take n (drop o_from (chain_bytes froms)))"
  using assms
proof (induction "length tos + length froms" arbitrary: tos froms o_to o_from n rule: less_induct)
  case less
  obtain t ts f fs where c: "tos = t # ts" "froms = f # fs" using less.prems(5,6) by (meson neq_Nil_conv)
  have lens: "unat (pb_len t) = length (pb_payload t)" "unat (pb_len f) = length (pb_payload f)" using less.prems(1,2) c by auto
  have bounds: "o_to \<le> length (pb_payload t)" "o_from \<le> length (pb_payload f)" using less.prems(7,8) c lens by simp_all
  define len where "len = min n (min (length (pb_payload t) - o_to) (length (pb_payload f) - o_from))"
  define xs where "xs = take len (drop o_from (pb_payload f))"
  define t1 where "t1 = t\<lparr>pb_payload := blit (pb_payload t) o_to xs\<rparr>"
  obtain froms' o_from' where from': "next_from f fs (o_from + len) = (froms', o_from')" by force
  obtain past tos' o_to' where to': "next_to t1 ts (o_to + len) = (past, tos', o_to')" by (metis prod_cases3)
  have len: "len \<le> n" "o_to + len \<le> length (pb_payload t)" "o_from + len \<le> length (pb_payload f)" "length xs = len"
    using bounds by (auto simp: len_def xs_def)
  have t1: "pb_shape [t1] = pb_shape [t]" "length (pb_payload t1) = length (pb_payload t)" using len by (simp_all add: t1_def)
  have f_side: "drop o_from' (chain_bytes froms') = drop (o_from + len) (chain_bytes froms)" "one_packet froms'" "pchain_inv froms'"
    "o_from' + (n - len) \<le> length (chain_bytes froms')" "froms' \<noteq> [] \<Longrightarrow> o_from' \<le> unat (pb_len (hd froms'))"
    using from' less.prems(2,4,10) c len lens by (auto simp: next_from_def split: if_splits)
  have t_side: "pchain_inv tos'" "one_packet tos'" "o_to' + (n - len) \<le> length (chain_bytes tos')"
    "tos' \<noteq> [] \<Longrightarrow> o_to' \<le> unat (pb_len (hd tos'))" "past @ tos' = t1 # ts"
    "length (chain_bytes past) + o_to' = o_to + len"
    using to' less.prems(1,3,9) c len lens t1(2) by (auto simp: next_to_def t1_def split: if_splits)
  have all: "chain_bytes (t1 # ts) = blit (chain_bytes tos) o_to xs"
    using len c by (simp add: t1_def blit_append_left)
  have more: "n - len \<noteq> 0 \<longrightarrow> tos' \<noteq> [] \<and> froms' \<noteq> []" using t_side(3) f_side(4) by auto
  note step = copy_pbuf_step [OF lens bounds _ _ len_def t1_def [unfolded xs_def] from' to' more]
  have run: "copy_pbuf_loop tos o_to froms o_from n =
     (if n - len = 0 then Some (ERR_OK, t1 # ts)
      else Option.bind (copy_pbuf_loop tos' o_to' froms' o_from' (n - len)) (\<lambda>(err, p). Some (err, past @ p)))"
    using step less.prems(3,4) c by simp
  have xs: "take n (drop o_from (chain_bytes froms)) = xs @ take (n - len) (drop (o_from + len) (chain_bytes froms))"
  proof -
    have "take len (drop o_from (chain_bytes froms)) = xs" using len c by (simp add: xs_def)
    then show ?thesis using take_add [of len "n - len" "drop o_from (chain_bytes froms)"] len(1) by (simp add: add.commute)
  qed
  show ?case
  proof (cases "n - len = 0")
    case True
    then show ?thesis using run all xs t1(1) c by simp
  next
    case False
    have "length tos' + length froms' < length tos + length froms"
    proof -
      have "len = length (pb_payload t) - o_to \<or> len = length (pb_payload f) - o_from" using False by (auto simp: len_def min_def)
      then have "o_to + len = length (pb_payload t) \<or> o_from + len = length (pb_payload f)" using bounds by auto
      then show ?thesis using from' to' c lens t1(1) by (auto simp: next_from_def next_to_def split: if_splits)
    qed
    from less.hyps [OF this] f_side t_side more False
    obtain ts2 where ts2: "copy_pbuf_loop tos' o_to' froms' o_from' (n - len) = Some (ERR_OK, ts2)" "pb_shape ts2 = pb_shape tos'"
      "chain_bytes ts2 = blit (chain_bytes tos') o_to' (take (n - len) (drop o_from' (chain_bytes froms')))" by metis
    define ys where "ys = take (n - len) (drop (o_from + len) (chain_bytes froms))"
    have "chain_bytes (past @ ts2) = chain_bytes past @ blit (chain_bytes tos') o_to' ys"
      using ts2(3) f_side(1) by (simp add: ys_def)
    also have "\<dots> = blit (chain_bytes (past @ tos')) (o_to + len) ys"
      using t_side(6) by (simp add: blit_append_right flip: t_side(6))
    also have "\<dots> = blit (chain_bytes tos) o_to (xs @ ys)"
    proof -
      have "o_to + length xs \<le> length (chain_bytes tos)" using len c by simp
      then show ?thesis using blit_blit [of o_to xs "chain_bytes tos" ys] t_side(5) all len(4) by simp
    qed
    finally have bytes: "chain_bytes (past @ ts2) = blit (chain_bytes tos) o_to (take n (drop o_from (chain_bytes froms)))"
      by (simp only: xs ys_def)
    have "pb_shape (past @ ts2) = pb_shape (past @ tos')" using ts2(2) by simp
    also have "\<dots> = pb_shape tos" using t_side(5) t1(1) c by simp
    finally show ?thesis using run False ts2(1) bytes by simp
  qed
qed

text \<open>An offset behind the first node.\<close>

lemma copy_pbuf_loop_outside: "unat (pb_len t) < o_to \<Longrightarrow> froms \<noteq> [] \<Longrightarrow> copy_pbuf_loop (t # ts) o_to froms o_from n = None"
  by (subst copy_pbuf_loop.simps) (auto simp: Let_def split: list.splits)

lemma copy_partial_pbuf_spec:
  assumes "pchain_inv tos" "pchain_inv froms" "one_packet tos" "one_packet froms" "tos \<noteq> []" "froms \<noteq> []"
  shows "if unat n \<le> length (chain_bytes froms) \<and> unat off + unat n \<le> length (chain_bytes tos)
     then if off \<le> pb_len (hd tos)
       then \<exists>tos'. pbuf_copy_partial_pbuf tos froms n off = Some (ERR_OK, tos') \<and> pb_shape tos' = pb_shape tos \<and>
         chain_bytes tos' = blit (chain_bytes tos) (unat off) (take (unat n) (chain_bytes froms))
       else pbuf_copy_partial_pbuf tos froms n off = None
     else pbuf_copy_partial_pbuf tos froms n off = Some (ERR_ARG, tos)"
proof -
  obtain t ts f fs where c: "tos = t # ts" "froms = f # fs" using assms(5,6) by (meson neq_Nil_conv)
  have tot: "unat (pb_tot_len t) = length (chain_bytes tos)" "unat (pb_tot_len f) = length (chain_bytes froms)"
    using pchain_tot_len assms(1,2) c by metis+
  have e: "pbuf_copy_partial_pbuf tos froms n off =
     (if unat n \<le> length (chain_bytes froms) \<and> unat off + unat n \<le> length (chain_bytes tos)
      then copy_pbuf_loop tos (unat off) froms 0 (unat n) else Some (ERR_ARG, tos))"
    using c tot by (simp add: pbuf_copy_partial_pbuf_def word_le_nat_alt)
  have "unat (pb_len (hd tos)) < unat off \<Longrightarrow> copy_pbuf_loop tos (unat off) froms 0 (unat n) = None"
    using copy_pbuf_loop_outside c by simp
  then show ?thesis
    using copy_pbuf_loop_spec [OF assms, of "unat off" 0 "unat n"] by (simp add: e word_le_nat_alt not_le)
qed

section \<open>Properties\<close>

text \<open>
  C36. Copying between two packets copies bytes, wherever the two chains are cut: if the source has that many bytes and
  the destination room for them behind the offset, they replace the bytes there, and neither the lengths nor the
  other bytes change; otherwise nothing does. The offset must lie in the first buffer of the destination: beyond it,
  a copy within the lengths ends the program.
\<close>
theorem pbuf_copy_partial_pbuf_bytes:
  assumes "pchain_inv tos" "pchain_inv froms" "one_packet tos" "one_packet froms" "tos \<noteq> []" "froms \<noteq> []"
  shows "(if unat n \<le> length (chain_bytes froms) \<and> unat off + unat n \<le> length (chain_bytes tos)
     then if off \<le> pb_len (hd tos)
       then \<exists>tos'. pbuf_copy_partial_pbuf tos froms n off = Some (ERR_OK, tos') \<and> pb_shape tos' = pb_shape tos \<and>
         chain_bytes tos' = blit (chain_bytes tos) (unat off) (take (unat n) (chain_bytes froms))
       else pbuf_copy_partial_pbuf tos froms n off = None
     else pbuf_copy_partial_pbuf tos froms n off = Some (ERR_ARG, tos)) \<and>
   (if length (chain_bytes froms) \<le> length (chain_bytes tos)
     then \<exists>tos'. pbuf_copy tos froms = Some (ERR_OK, tos') \<and> pb_shape tos' = pb_shape tos \<and>
       chain_bytes tos' = chain_bytes froms @ drop (length (chain_bytes froms)) (chain_bytes tos)
     else pbuf_copy tos froms = Some (ERR_ARG, tos))"
proof -
  have tot: "unat (pb_tot_len (hd froms)) = length (chain_bytes froms)"
    using pchain_tot_len assms(2,6) by (metis list.collapse)
  have "pbuf_copy tos froms = pbuf_copy_partial_pbuf tos froms (pb_tot_len (hd froms)) 0" using assms(6) by (simp add: pbuf_copy_def)
  then have "if length (chain_bytes froms) \<le> length (chain_bytes tos)
     then \<exists>tos'. pbuf_copy tos froms = Some (ERR_OK, tos') \<and> pb_shape tos' = pb_shape tos \<and>
       chain_bytes tos' = chain_bytes froms @ drop (length (chain_bytes froms)) (chain_bytes tos)
     else pbuf_copy tos froms = Some (ERR_ARG, tos)"
    using copy_partial_pbuf_spec [OF assms, of "pb_tot_len (hd froms)" 0] tot by (simp add: blit_def cong: if_cong)
  then show ?thesis using copy_partial_pbuf_spec [OF assms, of n off] by (rule conjI [rotated])
qed

text \<open>Two bytes of a packet of three buffers, copied into one of two, and an offset in its second buffer.\<close>

definition copy_target :: "pbuf list" where
  "copy_target = [\<lparr>pb_payload = [0, 0], pb_tot_len = 5, pb_len = 2\<rparr>, \<lparr>pb_payload = [0, 0, 0], pb_tot_len = 3, pb_len = 3\<rparr>]"

lemma copy_target: "pchain_inv copy_target" "copy_target \<noteq> []" "chain_bytes copy_target = [0, 0, 0, 0, 0]"
  "one_packet copy_target" "one_packet pbuf_demo" "pb_len (hd copy_target) = 2"
  by (simp_all add: copy_target_def pbuf_demo_def is_queue_def)

theorem pbuf_copy_partial_pbuf_bytes_witness:
  "(\<exists>tos'. pbuf_copy_partial_pbuf copy_target pbuf_demo 3 1 = Some (ERR_OK, tos') \<and> chain_bytes tos' = [0, 1, 2, 3, 0]) \<and>
   pbuf_copy_partial_pbuf copy_target pbuf_demo 2 3 = None \<and>
   (\<exists>tos'. pbuf_copy copy_target pbuf_demo = Some (ERR_OK, tos') \<and> chain_bytes tos' = [1, 2, 3, 4, 5])"
proof -
  note k = pbuf_copy_partial_pbuf_bytes [OF copy_target(1) pbuf_demo(1) copy_target(4,5,2) pbuf_demo(2)]
  show ?thesis using k [of 3 1] k [of 2 3] by (auto simp: copy_target pbuf_demo blit_def cong: if_cong)
qed

end
