(* ===== verification/Pbuf_Clone.thy ===== *)
theory Pbuf_Clone
  imports Pbuf_Alloc Pbuf_Copy
begin

text \<open>
  Allocation and copying together (\<open>lwip/src/core/pbuf.c\<close>): a packet is its nodes, as \<open>Pbuf_Alloc\<close> sees them, and
  their bytes, as \<open>Pbuf_Copy\<close> sees them. What a new buffer holds before the copy is the content of memory, an argument.
\<close>

section \<open>Model\<close>

definition buffer_at :: "(nat \<Rightarrow> byte) \<Rightarrow> bnode \<Rightarrow> pbuf option" where
  "buffer_at memory p =
     map_option (\<lambda>a. \<lparr>pb_payload = map memory [a..<a + unat (bn_len p)], pb_tot_len = bn_tot_len p, pb_len = bn_len p\<rparr>) (bn_payload p)"

text \<open>A node without memory (\<open>PBUF_REF\<close>, \<open>PBUF_ROM\<close>) has a null pointer that the copy would follow.\<close>

definition pbuf_clone ::
    "(bnode \<Rightarrow> buf_state \<Rightarrow> buf_state option) \<Rightarrow> (nat \<Rightarrow> byte) \<Rightarrow> pbuf_layer \<Rightarrow> u16 \<Rightarrow> pbuf list \<Rightarrow> buf_state \<Rightarrow>
      ((bnode list \<times> pbuf list) option \<times> buf_state) option" where
  "pbuf_clone custom memory layer type p st =
     Option.bind (pbuf_alloc custom layer (pb_tot_len (hd p)) type st) (\<lambda>(q, st1).
       case q of
         None \<Rightarrow> Some (None, st1)
       | Some ns \<Rightarrow>
           Option.bind (those (map (buffer_at memory) ns)) (\<lambda>bufs.
             Option.bind (pbuf_copy bufs p) (\<lambda>(err, c).
               if err = ERR_OK then Some (Some (ns, c), st1) else None)))"

definition pbuf_coalesce ::
    "(bnode \<Rightarrow> buf_state \<Rightarrow> buf_state option) \<Rightarrow> (nat \<Rightarrow> byte) \<Rightarrow> pbuf_layer \<Rightarrow> bnode list \<times> pbuf list \<Rightarrow> buf_state \<Rightarrow>
      ((bnode list \<times> pbuf list) \<times> buf_state) option" where
  "pbuf_coalesce custom memory layer p st =
     (if length (snd p) \<le> 1 then Some (p, st)
      else Option.bind (pbuf_clone custom memory layer PBUF_RAM (snd p) st) (\<lambda>(q, st1).
        case q of
          None \<Rightarrow> Some (p, st1)
        | Some q \<Rightarrow> Option.bind (free_chain custom (fst p) st1) (\<lambda>(count, rest, st2). Some (q, st2))))"

section \<open>Lemmas\<close>

text \<open>A new buffer of the heap takes the bytes of a packet.\<close>

lemma clone_into_ram:
  assumes "pchain_inv c" "one_packet c" "c \<noteq> []" "bn_payload q = Some a" "bn_len q = pb_tot_len (hd c)" "bn_tot_len q = pb_tot_len (hd c)"
    "pbuf_alloc custom l (pb_tot_len (hd c)) PBUF_RAM st = Some (Some [q], st1)"
  shows "\<exists>b. pbuf_clone custom memory l PBUF_RAM c st = Some (Some ([q], [b]), st1) \<and> pb_payload b = chain_bytes c
    \<and> pb_len b = pb_tot_len (hd c) \<and> pb_tot_len b = pb_tot_len (hd c)"
proof -
  let ?n = "pb_tot_len (hd c)"
  let ?b = "\<lparr>pb_payload = map memory [a..<a + unat ?n], pb_tot_len = ?n, pb_len = ?n\<rparr>"
  have tot: "unat ?n = length (chain_bytes c)" using pchain_tot_len assms(1,3) by (metis list.collapse)
  have b: "pchain_inv [?b]" "one_packet [?b]" "length (chain_bytes [?b]) = length (chain_bytes c)" using tot by (simp_all add: is_queue_def)
  obtain c' where c': "pbuf_copy [?b] c = Some (ERR_OK, c')" "pb_shape c' = pb_shape [?b]" "chain_bytes c' = chain_bytes c"
  proof -
    have "pbuf_copy [?b] c = pbuf_copy_partial_pbuf [?b] c ?n 0" using assms(3) by (simp add: pbuf_copy_def)
    then show ?thesis
      using copy_partial_pbuf_spec [OF b(1) assms(1) b(2) assms(2) _ assms(3), of ?n 0] tot b(3) that by (auto simp: blit_def)
  qed
  obtain x where x: "c' = [x]" "pb_len x = ?n" "pb_tot_len x = ?n" using c'(2) by (auto simp: shape_Cons pb_shape_def)
  have "pbuf_clone custom memory l PBUF_RAM c st = Some (Some ([q], c'), st1)"
    using assms(4-7) c'(1) by (simp add: pbuf_clone_def buffer_at_def)
  then show ?thesis using x c'(3) by auto
qed

section \<open>Properties\<close>

text \<open>
  C37. Coalescing a packet of several pool buffers gives one buffer of the heap with the same bytes and returns the old
  buffers to their pool; if the heap refuses, the packet stays as it was.
\<close>
theorem pbuf_coalesce_keeps_bytes:
  assumes "pool_history d (bs_pool st) pool" "desc_ok d" "heap_history (bs_heap st) held"
    "pchain_inv c" "one_packet c" "1 < length c" "length ns = length c"
    "bn_at ` set ns \<subseteq> pool" "distinct (map bn_at ns)" "\<forall>p \<in> set ns. fresh_node p"
  shows "pbuf_coalesce custom memory l (ns, c) st = Some ((ns, c), st) \<and>
      (2 ^ 16 \<le> ram_size l (pb_tot_len (hd c)) \<or>
       mem_malloc (ram_size l (pb_tot_len (hd c))) (bs_heap st) = Some (None, bs_heap st)) \<or>
    (\<exists>q b st'. pbuf_coalesce custom memory l (ns, c) st = Some (([q], [b]), st') \<and> pb_payload b = chain_bytes c \<and> pchain_inv [b] \<and>
       held (bn_at q) = None \<and> heap_history (bs_heap st') (held(bn_at q \<mapsto> ram_size l (pb_tot_len (hd c)))) \<and>
       pool_history d (bs_pool st') (pool - bn_at ` set ns))"
proof -
  let ?n = "pb_tot_len (hd c)"
  have c: "c \<noteq> []" "ns \<noteq> []" using assms(6,7) by auto
  have tot: "unat ?n = length (chain_bytes c)" using pchain_tot_len assms(4) c(1) by (metis list.collapse)
  consider (refused) "pbuf_alloc custom l ?n PBUF_RAM st = Some (None, st)"
      "2 ^ 16 \<le> ram_size l ?n \<or> mem_malloc (ram_size l ?n) (bs_heap st) = Some (None, bs_heap st)"
    | (room) q h where "pbuf_alloc custom l ?n PBUF_RAM st = Some (Some [q], st\<lparr>bs_heap := h\<rparr>)" "packet_room l ?n (ram_size l ?n) [q]"
      "held (bn_at q) = None" "heap_history h (held(bn_at q \<mapsto> ram_size l ?n))"
    using ram_spec [OF assms(3), of custom l ?n] by blast
  then show ?thesis
  proof cases
    case refused
    then have "pbuf_coalesce custom memory l (ns, c) st = Some ((ns, c), st)"
      using assms(6) by (simp add: pbuf_coalesce_def pbuf_clone_def)
    then show ?thesis using refused(2) by blast
  next
    case room
    obtain a where q: "bn_payload q = Some a" "bn_tot_len q = ?n" "unat (bn_len q) = unat ?n"
      using room(2) by (auto simp: packet_room_def)
    then have "bn_len q = ?n" by (simp add: word_unat_eq_iff)
    from clone_into_ram [OF assms(4,5) c(1) q(1) this q(2) room(1), of memory] obtain b where
      b: "pbuf_clone custom memory l PBUF_RAM c st = Some (Some ([q], [b]), st\<lparr>bs_heap := h\<rparr>)" "pb_payload b = chain_bytes c"
        "pb_len b = ?n" "pb_tot_len b = ?n" by blast
    have "pool - bn_at ` set ns \<union> bn_at ` set ns = pool" using assms(8) by blast
    then have "pool_history d (bs_pool (st\<lparr>bs_heap := h\<rparr>)) (pool - bn_at ` set ns \<union> bn_at ` set ns)" using assms(1) by simp
    from free_nodes_fresh [OF assms(2) this _ assms(9,10), of custom 0] obtain mp where
      mp: "free_nodes custom ns 0 (st\<lparr>bs_heap := h\<rparr>) = Some (of_nat (length ns), [], st\<lparr>bs_heap := h, bs_pool := mp\<rparr>)"
        "pool_history d mp (pool - bn_at ` set ns)" by auto
    have "pbuf_coalesce custom memory l (ns, c) st = Some (([q], [b]), st\<lparr>bs_heap := h, bs_pool := mp\<rparr>)"
      using assms(6) b(1) mp(1) c(2) by (simp add: pbuf_coalesce_def free_chain_def)
    moreover have "pchain_inv [b]" using b tot by simp
    moreover have "heap_history (bs_heap (st\<lparr>bs_heap := h, bs_pool := mp\<rparr>)) (held(bn_at q \<mapsto> ram_size l ?n))"
      "pool_history d (bs_pool (st\<lparr>bs_heap := h, bs_pool := mp\<rparr>)) (pool - bn_at ` set ns)" using room(4) mp(2) by simp_all
    ultimately show ?thesis using b(2) room(3) by blast
  qed
qed

text \<open>Two buffers of a fresh pool and a fresh heap.\<close>

theorem pbuf_coalesce_keeps_bytes_witness:
  "\<exists>st ns q b st'. length ns = 2 \<and> pbuf_coalesce (\<lambda>p st. None) (\<lambda>x. 0) PBUF_RAW (ns, copy_target) st = Some (([q], [b]), st') \<and>
     pb_payload b = chain_bytes copy_target"
proof -
  let ?d = "pool_desc 4096"
  let ?mp = "memp_init_pool ?d \<lparr>mp_tab = None, mp_next = (\<lambda>x. None)\<rparr>"
  have num: "md_num ?d = 120" by (simp add: pool_desc_def)
  have "pool_history ?d ?mp {}" by (rule pool_history.start)
  with pool_history_alloc [OF pool_desc_ok this] obtain p mp1 where p: "pool_history ?d mp1 {p}" by (auto simp: num)
  with pool_history_alloc [OF pool_desc_ok p] obtain q mp2 where q: "pool_history ?d mp2 {q, p}" "q \<noteq> p" by (auto simp: num)
  let ?st = "\<lparr>bs_pool = mp2, bs_refs = ?mp, bs_heap = mem_init (\<lambda>x. 0), bs_ooseq_pending = 0\<rparr>"
  let ?node = "\<lambda>a. \<lparr>bn_at = a, bn_payload = Some (a + 24), bn_tot_len = 0, bn_len = 0, bn_type = 0x82, bn_flags = 0, bn_ref = 1\<rparr>"
  let ?ns = "[?node p, ?node q]"
  have ns: "bn_at ` set ?ns \<subseteq> {q, p}" "distinct (map bn_at ?ns)" "\<forall>p \<in> set ?ns. fresh_node p"
    using q(2) by (auto simp: fresh_node_def)
  have c: "length copy_target = 2" "pb_tot_len (hd copy_target) = 5" by (simp_all add: copy_target_def)
  have sz: "ram_size PBUF_RAW 5 = 32" by (simp add: ram_size_def LWIP_MEM_ALIGN_def heap_consts)
  have "Lwip_Heap.alloc_blocks (request_size 32) [(False, 10232)] = Some (0, [(True, 32), (False, 10192)])"
    by (simp add: Lwip_Heap.alloc_blocks_def request_size_def fits_def split_fit_def)
  then obtain h where "mem_malloc 32 (mem_init (\<lambda>x. 0)) = Some (Some 8, h)"
    using mem_malloc_spec [OF mem_init_ok, of 32 "\<lambda>x. 0"] by (auto simp: request_size_def)
  then have room: "\<not> (2 ^ 16 \<le> ram_size PBUF_RAW (pb_tot_len (hd copy_target)) \<or>
      mem_malloc (ram_size PBUF_RAW (pb_tot_len (hd copy_target))) (bs_heap ?st) = Some (None, bs_heap ?st))"
    by (simp add: c sz)
  have heap: "heap_history (bs_heap ?st) Map.empty" using heap_history.start by simp
  have pool: "pool_history ?d (bs_pool ?st) {q, p}" using q(1) by simp
  have len: "1 < length copy_target" "length ?ns = length copy_target" using c by simp_all
  from pbuf_coalesce_keeps_bytes [OF pool pool_desc_ok heap copy_target(1,4) len ns, of "\<lambda>p st. None" "\<lambda>x. 0" PBUF_RAW] room
  obtain q b st' where "pbuf_coalesce (\<lambda>p st. None) (\<lambda>x. 0) PBUF_RAW (?ns, copy_target) ?st = Some (([q], [b]), st')"
    "pb_payload b = chain_bytes copy_target" by blast
  moreover have "length ?ns = 2" by simp
  ultimately show ?thesis by blast
qed

end
