(* ===== verification/Inet_Chksum.thy ===== *)
theory Inet_Chksum
  imports Pbuf Byte_Order
begin

text \<open>
  The Internet checksum (\<open>lwip/src/core/inet_chksum.c\<close>) on a little-endian host: the three versions of
  \<open>lwip_standard_chksum\<close> that \<open>LWIP_CHKSUM_ALGORITHM\<close> chooses from (the second is the default), the checksum of
  a packet in a chain and the one with a pseudo header. The data is its list of bytes; what the code reads
  from the address of the data is its alignment.
\<close>

section \<open>Model\<close>

definition FOLD_U32T :: "u32 \<Rightarrow> u32" where
  "FOLD_U32T u = drop_bit 16 u + (u AND 0x0000ffff)"

definition SWAP_BYTES_IN_WORD :: "u32 \<Rightarrow> u32" where
  "SWAP_BYTES_IN_WORD w = push_bit 8 (w AND 0xff) OR drop_bit 8 (w AND 0xff00)"

text \<open>A 16 bit word in memory.\<close>

definition le16 :: "u8 \<Rightarrow> u8 \<Rightarrow> u16" where "le16 a b = ucast a OR push_bit 8 (ucast b)"

text \<open>Version 1: octets in network order.\<close>

fun chksum1_loop :: "byte list \<Rightarrow> u32 \<Rightarrow> u32 \<times> byte list" where
  "chksum1_loop (a # b # bs) acc = chksum1_loop bs (acc + ucast (push_bit 8 (ucast a) OR ucast b :: u16))"
| "chksum1_loop bs acc = (acc, bs)"

definition lwip_standard_chksum_1 :: "byte list \<Rightarrow> u16" where
  "lwip_standard_chksum_1 data =
     (let (acc, rest) = chksum1_loop data 0;
          acc1 = (case rest of [] \<Rightarrow> acc | a # _ \<Rightarrow> acc + ucast (push_bit 8 (ucast a) :: u16));
          acc2 = FOLD_U32T acc1;
          acc3 = (if acc2 AND 0xffff0000 \<noteq> 0 then FOLD_U32T acc2 else acc2)
      in lwip_htons (ucast acc3))"

text \<open>Version 2: words in host order, an odd start is undone by a swap.\<close>

fun word_loop :: "byte list \<Rightarrow> u32 \<Rightarrow> u32 \<times> byte list" where
  "word_loop (a # b # bs) acc = word_loop bs (acc + ucast (le16 a b))"
| "word_loop bs acc = (acc, bs)"

definition odd_start :: "bool \<Rightarrow> byte list \<Rightarrow> u16 \<times> byte list" where
  "odd_start is_odd data = (if is_odd \<and> data \<noteq> [] then (le16 0 (hd data), tl data) else (0, data))"

definition odd_end :: "u16 \<Rightarrow> byte list \<Rightarrow> u16" where
  "odd_end t rest = (case rest of [] \<Rightarrow> t | a # _ \<Rightarrow> (t AND 0xff00) OR ucast a)"

definition lwip_standard_chksum_2 :: "bool \<Rightarrow> byte list \<Rightarrow> u16" where
  "lwip_standard_chksum_2 is_odd data =
     (let (t, data1) = odd_start is_odd data;
          (acc, rest) = word_loop data1 0;
          sum1 = FOLD_U32T (FOLD_U32T (acc + ucast (odd_end t rest)))
      in ucast (if is_odd then SWAP_BYTES_IN_WORD sum1 else sum1))"

text \<open>Version 3: two 32 bit words a round with the carry added back, by the alignment modulo 4.\<close>

definition add_back :: "u32 \<Rightarrow> u32 \<Rightarrow> u32" where
  "add_back acc w = (let tmp = acc + w in if tmp < acc then tmp + 1 else tmp)"

definition le32 :: "u8 \<Rightarrow> u8 \<Rightarrow> u8 \<Rightarrow> u8 \<Rightarrow> u32" where
  "le32 a b c d = join_octets a b c d"

fun long_loop :: "byte list \<Rightarrow> u32 \<Rightarrow> u32 \<times> byte list" where
  "long_loop (a # b # c # d # e # f # g # h # bs) acc = long_loop bs (add_back (add_back acc (le32 a b c d)) (le32 e f g h))"
| "long_loop bs acc = (acc, bs)"

definition short_start :: "bool \<Rightarrow> byte list \<Rightarrow> u32 \<times> byte list" where
  "short_start unaligned data =
     (case data of a # b # bs \<Rightarrow> if unaligned then (ucast (le16 a b), bs) else (0, data) | _ \<Rightarrow> (0, data))"

definition lwip_standard_chksum_3 :: "nat \<Rightarrow> byte list \<Rightarrow> u16" where
  "lwip_standard_chksum_3 address data =
     (let is_odd = (address mod 2 = 1);
          (t, data1) = odd_start is_odd data;
          address1 = (if is_odd \<and> data \<noteq> [] then Suc address else address);
          (sum1, data2) = short_start (address1 mod 4 \<noteq> 0) data1;
          (sum2, data3) = long_loop data2 sum1;
          (sum3, rest) = word_loop data3 (FOLD_U32T sum2);
          sum4 = FOLD_U32T (FOLD_U32T (sum3 + ucast (odd_end t rest)))
      in ucast (if is_odd then SWAP_BYTES_IN_WORD sum4 else sum4))"

section \<open>Checksums of packets\<close>

text \<open>\<open>LWIP_CHKSUM\<close> is version 2; a packet in a chain is the list of its buffers with the addresses of their data.\<close>

definition LWIP_CHKSUM :: "nat \<Rightarrow> byte list \<Rightarrow> u16" where
  "LWIP_CHKSUM address data = lwip_standard_chksum_2 (address mod 2 = 1) data"

definition inet_chksum :: "nat \<Rightarrow> byte list \<Rightarrow> u16" where
  "inet_chksum address data = ucast (NOT (ucast (LWIP_CHKSUM address data) :: u32))"

fun chain_loop :: "(nat \<times> pbuf) list \<Rightarrow> u32 \<Rightarrow> bool \<Rightarrow> u32 \<times> bool" where
  "chain_loop [] acc swapped = (acc, swapped)"
| "chain_loop ((address, q) # qs) acc swapped =
     (let acc1 = acc + ucast (LWIP_CHKSUM address (take (unat (pb_len q)) (pb_payload q)));
          acc2 = FOLD_U32T acc1
      in if pb_len q mod 2 \<noteq> 0 then chain_loop qs (SWAP_BYTES_IN_WORD acc2) (\<not> swapped)
         else chain_loop qs acc2 swapped)"

definition inet_chksum_pbuf :: "(nat \<times> pbuf) list \<Rightarrow> u16" where
  "inet_chksum_pbuf p =
     (let (acc, swapped) = chain_loop p 0 False;
          acc1 = (if swapped then SWAP_BYTES_IN_WORD acc else acc)
      in ucast (NOT (acc1 AND 0xffff)))"

definition pseudo_end :: "u8 \<Rightarrow> u16 \<Rightarrow> u32 \<Rightarrow> u16" where
  "pseudo_end proto proto_len acc =
     (let acc1 = acc + ucast (lwip_htons (ucast proto));
          acc2 = acc1 + ucast (lwip_htons proto_len);
          acc3 = FOLD_U32T acc2;
          acc4 = FOLD_U32T acc3
      in ucast (NOT (acc4 AND 0xffff)))"

definition inet_cksum_pseudo_base :: "(nat \<times> pbuf) list \<Rightarrow> u8 \<Rightarrow> u16 \<Rightarrow> u32 \<Rightarrow> u16" where
  "inet_cksum_pseudo_base p proto proto_len acc =
     (let (acc1, swapped) = chain_loop p acc False
      in pseudo_end proto proto_len (if swapped then SWAP_BYTES_IN_WORD acc1 else acc1))"

definition add_address :: "u32 \<Rightarrow> u32 \<Rightarrow> u32" where
  "add_address addr acc = acc + (addr AND 0xffff) + (drop_bit 16 addr AND 0xffff)"

definition inet_chksum_pseudo :: "(nat \<times> pbuf) list \<Rightarrow> u8 \<Rightarrow> u16 \<Rightarrow> u32 \<Rightarrow> u32 \<Rightarrow> u16" where
  "inet_chksum_pseudo p proto proto_len src dest =
     inet_cksum_pseudo_base p proto proto_len (FOLD_U32T (FOLD_U32T (add_address dest (add_address src 0))))"

fun add_parts :: "u32 list \<Rightarrow> u32 list \<Rightarrow> u32 \<Rightarrow> u32" where
  "add_parts (s # src) (d # dest) acc = add_parts src dest (add_address d (add_address s acc))"
| "add_parts src dest acc = acc"

definition ip6_chksum_pseudo :: "(nat \<times> pbuf) list \<Rightarrow> u8 \<Rightarrow> u16 \<Rightarrow> u32 list \<Rightarrow> u32 list \<Rightarrow> u16" where
  "ip6_chksum_pseudo p proto proto_len src dest =
     inet_cksum_pseudo_base p proto proto_len (FOLD_U32T (FOLD_U32T (add_parts src dest 0)))"

text \<open>
  The checksum over the first \<open>chksum_len\<close> bytes only, as UDP-Lite needs it; the assertion left in the loop
  ends the program (\<open>None\<close>).
\<close>

fun partial_loop :: "(nat \<times> pbuf) list \<Rightarrow> u16 \<Rightarrow> u32 \<Rightarrow> bool \<Rightarrow> (u32 \<times> bool) option" where
  "partial_loop [] chksum_len acc swapped = Some (acc, swapped)"
| "partial_loop ((address, q) # qs) chksum_len acc swapped =
     (if chksum_len > 0 then
        let chklen = (if pb_len q > chksum_len then chksum_len else pb_len q);
            acc1 = acc + ucast (LWIP_CHKSUM address (take (unat chklen) (pb_payload q)));
            remaining = chksum_len - chklen
        in if remaining < 0x7fff then
             let acc2 = FOLD_U32T acc1
             in if pb_len q mod 2 \<noteq> 0 then partial_loop qs remaining (SWAP_BYTES_IN_WORD acc2) (\<not> swapped)
                else partial_loop qs remaining acc2 swapped
           else None
      else Some (acc, swapped))"

definition inet_cksum_pseudo_partial_base :: "(nat \<times> pbuf) list \<Rightarrow> u8 \<Rightarrow> u16 \<Rightarrow> u16 \<Rightarrow> u32 \<Rightarrow> u16 option" where
  "inet_cksum_pseudo_partial_base p proto proto_len chksum_len acc =
     (case partial_loop p chksum_len acc False of
        None \<Rightarrow> None
      | Some (acc1, swapped) \<Rightarrow> Some (pseudo_end proto proto_len (if swapped then SWAP_BYTES_IN_WORD acc1 else acc1)))"

definition inet_chksum_pseudo_partial :: "(nat \<times> pbuf) list \<Rightarrow> u8 \<Rightarrow> u16 \<Rightarrow> u16 \<Rightarrow> u32 \<Rightarrow> u32 \<Rightarrow> u16 option" where
  "inet_chksum_pseudo_partial p proto proto_len chksum_len src dest =
     inet_cksum_pseudo_partial_base p proto proto_len chksum_len (FOLD_U32T (FOLD_U32T (add_address dest (add_address src 0))))"

definition ip6_chksum_pseudo_partial :: "(nat \<times> pbuf) list \<Rightarrow> u8 \<Rightarrow> u16 \<Rightarrow> u16 \<Rightarrow> u32 list \<Rightarrow> u32 list \<Rightarrow> u16 option" where
  "ip6_chksum_pseudo_partial p proto proto_len chksum_len src dest =
     inet_cksum_pseudo_partial_base p proto proto_len chksum_len (FOLD_U32T (FOLD_U32T (add_parts src dest 0)))"

section \<open>Sums modulo 65535\<close>

text \<open>
  The ones' complement sum of RFC 1071 as a number: the words of the data in host order, the last byte padded
  with zero. \<open>rep x n\<close>: \<open>x\<close> stands for the sum \<open>n\<close>, that is, they agree modulo 65535 and in being zero.
\<close>

fun le_sum :: "byte list \<Rightarrow> nat" where
  "le_sum [] = 0"
| "le_sum [a] = unat a"
| "le_sum (a # b # bs) = unat a + 256 * unat b + le_sum bs"

definition rep :: "nat \<Rightarrow> nat \<Rightarrow> bool" where
  "rep x n \<longleftrightarrow> x mod 65535 = n mod 65535 \<and> (x = 0 \<longleftrightarrow> n = 0)"

definition canon :: "nat \<Rightarrow> nat" where
  "canon n = (if n = 0 then 0 else (n - 1) mod 65535 + 1)"

lemma rep_refl [simp]: "rep n n" by (simp add: rep_def)

lemma rep_trans: "rep x y \<Longrightarrow> rep y z \<Longrightarrow> rep x z" by (simp add: rep_def)

lemma rep_add: "rep x m \<Longrightarrow> rep y n \<Longrightarrow> rep (x + y) (m + n)"
  unfolding rep_def by (metis add_is_0 mod_add_cong)

lemma rep_times: "rep x n \<Longrightarrow> rep (256 * x) (256 * n)"
  unfolding rep_def by (metis mod_mult_cong mult_eq_0_iff)

lemma rep_65536: "rep (65536 * n) n"
proof -
  have "65536 * n = n + n * 65535" by simp
  then have "65536 * n mod 65535 = n mod 65535" by (simp only: mod_mult_self1)
  then show ?thesis by (simp add: rep_def)
qed

lemma rep_fold: "rep (n div 65536 + n mod 65536) n"
proof -
  have "rep (n div 65536 + n mod 65536) (65536 * (n div 65536) + n mod 65536)"
    by (intro rep_add rep_refl) (use rep_65536 in \<open>simp add: rep_def\<close>)
  then show ?thesis by simp
qed

lemma rep_canon:
  assumes "rep x n" "x \<le> 65535"
  shows "x = canon n"
proof (cases "n = 0")
  case False
  then have x: "0 < x" using assms(1) by (auto simp: rep_def)
  have "(x - 1) mod 65535 = (n - 1) mod 65535"
  proof -
    have "int (x mod 65535) = int (n mod 65535)" using assms(1) by (simp only: rep_def)
    then have "int x mod 65535 = int n mod 65535" by (simp only: zmod_int of_nat_numeral)
    then have "(int x - 1) mod 65535 = (int n - 1) mod 65535" by (intro mod_diff_cong refl)
    then have "int ((x - 1) mod 65535) = int ((n - 1) mod 65535)" using x False by (simp add: zmod_int of_nat_diff)
    then show ?thesis by (simp only: of_nat_eq_iff)
  qed
  moreover have "(x - 1) mod 65535 = x - 1" using assms(2) x by simp
  ultimately show ?thesis using False x by (simp add: canon_def)
qed (use assms in \<open>simp add: rep_def canon_def\<close>)

lemma canon_rep: "rep (canon n) n"
proof (cases n)
  case (Suc m)
  then have "canon n = Suc (m mod 65535)" by (simp add: canon_def)
  then show ?thesis by (simp only: Suc rep_def mod_Suc_eq nat.distinct simp_thms)
qed (simp add: canon_def)

section \<open>The building blocks\<close>

lemma unat_low_half: "unat (u AND 0x0000ffff) = unat u mod 65536" for u :: u32
proof -
  have "(0x0000ffff :: u32) = mask 16" by (simp add: mask_eq_exp_minus_1)
  then have "u AND 0x0000ffff = take_bit 16 u" by (simp only: take_bit_eq_mask)
  then show ?thesis by (simp add: unsigned_take_bit_eq take_bit_eq_mod [where ?'a = nat])
qed

lemma unat_high_half: "unat (drop_bit 16 u) = unat u div 65536" for u :: u32
  by (simp add: unat_drop_bit_eq drop_bit_eq_div [where ?'a = nat])

lemma halves:
  fixes n :: nat
  assumes "n < 2 ^ 32"
  shows "n div 65536 < 65536" "n mod 65536 < 65536" "n = 65536 * (n div 65536) + n mod 65536"
  using assms by simp_all

lemma unat_less_u32: "unat u < 2 ^ 32" for u :: u32
  using unsigned_less [of u, where ?'a = nat] by simp

lemma unat_fold: "unat (FOLD_U32T u) = unat u div 65536 + unat u mod 65536"
proof -
  have "unat u div 65536 + unat u mod 65536 < 2 ^ 32" using halves(1,2) [OF unat_less_u32 [of u]] by simp
  then show ?thesis by (simp add: FOLD_U32T_def unat_word_ariths unat_low_half unat_high_half)
qed

lemma fold_rep: "rep (unat (FOLD_U32T u)) (unat u)"
  by (simp add: unat_fold rep_fold)

lemma fold_bounds:
  "unat (FOLD_U32T u) \<le> 131070" "unat u \<le> 131070 \<Longrightarrow> unat (FOLD_U32T u) \<le> 65535" "unat u < 65536 \<Longrightarrow> FOLD_U32T u = u"
proof -
  note h = halves [OF unat_less_u32 [of u]]
  show "unat (FOLD_U32T u) \<le> 131070" unfolding unat_fold using h(1,2) by linarith
  show "unat (FOLD_U32T u) \<le> 65535" if "unat u \<le> 131070"
  proof -
    have "unat u div 65536 \<le> 1" using that by simp
    moreover have "unat u mod 65536 \<le> 65534" if "unat u div 65536 = 1" using that h(3) \<open>unat u \<le> 131070\<close> by linarith
    ultimately show ?thesis unfolding unat_fold using h(2) by (cases "unat u div 65536 = 1") linarith+
  qed
  show "unat u < 65536 \<Longrightarrow> FOLD_U32T u = u" by (simp add: word_eq_iff_unat unat_fold)
qed

lemma fold_fold: "rep (unat (FOLD_U32T (FOLD_U32T u))) (unat u)" "unat (FOLD_U32T (FOLD_U32T u)) \<le> 65535"
  by (rule rep_trans [OF fold_rep fold_rep]) (rule fold_bounds(2) [OF fold_bounds(1)])

lemma byte_or: "(ucast a OR push_bit 8 (ucast b) :: u16) = ucast a + push_bit 8 (ucast b)" for a b :: u8
  by (rule disjunctive_add [symmetric]) (auto simp: bit_simps dest: bit_imp_le_length)

lemma unat_le16: "unat (le16 a b) = unat a + 256 * unat b"
proof -
  have "unat (push_bit 8 (ucast b :: u16)) = 256 * unat b"
    using unat_less_u8 [of b] by (simp add: push_bit_eq_mult unat_word_ariths unsigned_ucast_eq take_bit_nat_eq_self)
  moreover have "unat (ucast a :: u16) = unat a" using unat_less_u8 [of a] by (simp add: unsigned_ucast_eq take_bit_nat_eq_self)
  moreover have "unat a + 256 * unat b < 2 ^ 16" using unat_less_u8 [of a] unat_less_u8 [of b] by simp
  ultimately show ?thesis by (simp add: le16_def byte_or unat_word_ariths)
qed

lemma swap_le16:
  assumes "unat w \<le> 65535"
  shows "unat (SWAP_BYTES_IN_WORD w) = 256 * (unat w mod 256) + unat w div 256"
proof -
  have d: "push_bit 8 (w AND 0xff) OR drop_bit 8 (w AND 0xff00) = push_bit 8 (w AND 0xff) + drop_bit 8 (w AND 0xff00)"
    unfolding byte_masks by (rule disjunctive_add [symmetric]) (auto simp: bit_simps)
  have "unat (w AND 0xff) = unat w mod 256" unfolding byte_masks
    by (simp add: unsigned_take_bit_eq take_bit_eq_mod [where ?'a = nat] flip: take_bit_eq_mask)
  then have l: "unat (push_bit 8 (w AND 0xff)) = 256 * (unat w mod 256)"
    by (simp add: push_bit_eq_mult unat_word_ariths)
  have "drop_bit 8 (w AND 0xff00) = take_bit 8 (drop_bit 8 w)"
    unfolding byte_masks by (rule bit_word_eqI) (auto simp: bit_simps)
  then have r: "unat (drop_bit 8 (w AND 0xff00)) = unat w div 256"
    using assms by (simp add: unsigned_take_bit_eq unat_drop_bit_eq drop_bit_eq_div [where ?'a = nat] take_bit_eq_mod [where ?'a = nat])
  have "256 * (unat w mod 256) + unat w div 256 < 2 ^ 32" using assms by simp
  then show ?thesis unfolding SWAP_BYTES_IN_WORD_def d using l r by (simp add: unat_word_ariths)
qed

lemma swap_num:
  assumes "n \<le> 65535"
  shows "rep (256 * (n mod 256) + n div 256) (256 * n)" "256 * (n mod 256) + n div 256 \<le> 65535"
proof -
  have "rep (256 * (n mod 256) + n div 256) (256 * (n mod 256) + 65536 * (n div 256))"
    by (intro rep_add rep_refl) (use rep_65536 in \<open>simp add: rep_def\<close>)
  moreover have "256 * (n mod 256) + 65536 * (n div 256) = 256 * n" using mult_div_mod_eq [of 256 n] by linarith
  ultimately show "rep (256 * (n mod 256) + n div 256) (256 * n)" by (simp only:)
  have "n div 256 \<le> 255" using assms by simp
  moreover have "n mod 256 \<le> 255" using mod_less_divisor [of 256 n] by simp
  ultimately show "256 * (n mod 256) + n div 256 \<le> 65535" by simp
qed

lemma swap_rep:
  assumes "unat w \<le> 65535"
  shows "rep (unat (SWAP_BYTES_IN_WORD w)) (256 * unat w)" "unat (SWAP_BYTES_IN_WORD w) \<le> 65535"
  using swap_num [OF assms] by (simp_all only: swap_le16 [OF assms])

section \<open>The loops\<close>

lemma le_sum_bound: "2 * le_sum data \<le> 65535 * Suc (length data)"
proof (induction data rule: le_sum.induct)
  case (2 a)
  then show ?case using unat_less_u8 [of a] by simp
next
  case (3 a b bs)
  then show ?case using unat_less_u8 [of a] unat_less_u8 [of b] by simp
qed simp

lemma le_sum_Cons: "rep (le_sum (a # bs)) (unat a + 256 * le_sum bs)"
proof (induction bs arbitrary: a rule: le_sum.induct)
  case (3 b c bs)
  have "rep (le_sum (c # bs)) (unat c + 256 * le_sum bs)" by (rule "3.IH")
  have "rep (le_sum (a # b # c # bs)) (unat a + 256 * unat b + (unat c + 256 * le_sum bs))"
    using rep_add [OF rep_refl [of "unat a + 256 * unat b"] \<open>rep (le_sum (c # bs)) _\<close>] by simp
  moreover have "rep (unat a + 256 * unat b + (unat c + 256 * le_sum bs)) (unat a + 256 * (unat b + 256 * unat c + le_sum bs))"
  proof -
    have "rep (unat a + 256 * unat b + (unat c + 256 * le_sum bs)) (unat a + 256 * unat b + (65536 * unat c + 256 * le_sum bs))"
      by (intro rep_add rep_refl) (use rep_65536 in \<open>simp add: rep_def\<close>)
    then show ?thesis by (simp add: algebra_simps)
  qed
  ultimately show ?case using rep_trans by simp
qed (use rep_refl in \<open>simp_all\<close>)

lemma le_sum_append: "even (length xs) \<Longrightarrow> le_sum (xs @ ys) = le_sum xs + le_sum ys"
  by (induction xs rule: le_sum.induct) auto

lemma word_loop_spec:
  assumes "unat acc + le_sum bs < 2 ^ 32"
  shows "\<exists>acc' rest. word_loop bs acc = (acc', rest) \<and> unat acc' + le_sum rest = unat acc + le_sum bs
    \<and> (rest = [] \<and> even (length bs) \<or> (\<exists>a. rest = [a] \<and> odd (length bs)))"
  using assms
proof (induction bs acc rule: word_loop.induct)
  case (1 a b bs acc)
  have "unat (ucast (le16 a b) :: u32) = unat a + 256 * unat b" by (simp add: unat_ucast_u16_u32 unat_le16)
  then have "unat (acc + ucast (le16 a b)) = unat acc + unat a + 256 * unat b" using "1.prems" by (simp add: unat_word_ariths)
  with 1 show ?case by auto
qed simp_all

lemma unat_join_octets:
  "unat (join_octets a b c d) = unat a + 256 * unat b + 65536 * (unat c + 256 * unat d)"
proof -
  let ?lo = "ucast (le16 a b) :: u32" and ?hi = "ucast (le16 c d) :: u32"
  have "join_octets a b c d = ?lo OR push_bit 16 ?hi"
    by (rule bit_word_eqI) (auto simp: bit_join_octets le16_def bit_simps not_less dest: bit_imp_le_length)
  also have "\<dots> = ?lo + push_bit 16 ?hi"
    by (rule disjunctive_add [symmetric]) (auto simp: bit_simps dest: bit_imp_le_length)
  finally have e: "join_octets a b c d = ?lo + push_bit 16 ?hi" .
  have l: "unat ?lo = unat (le16 a b)" and h: "unat ?hi = unat (le16 c d)" by (rule unat_ucast_u16_u32)+
  have "unat (push_bit 16 ?hi) = 65536 * unat (le16 c d)"
    using unat_less_u16 [of "le16 c d"] by (simp add: push_bit_eq_mult unat_word_ariths h)
  then show ?thesis using unat_less_u16 [of "le16 a b"] unat_less_u16 [of "le16 c d"] e l
    by (simp add: unat_word_ariths unat_le16)
qed

lemma join_octets_sum: "rep (unat (join_octets a b c d)) (unat a + 256 * unat b + (unat c + 256 * unat d))"
proof -
  have n: "unat (join_octets a b c d) = unat a + 256 * unat b + 65536 * (unat c + 256 * unat d)"
    by (simp add: unat_join_octets)
  show ?thesis unfolding n by (intro rep_add rep_refl rep_65536)
qed

lemma odd_end_spec:
  assumes "rest = [] \<or> (\<exists>b. rest = [b])"
  shows "unat (odd_end (le16 0 a) rest) = 256 * unat a + le_sum rest"
proof -
  have "(le16 0 a AND 0xff00) OR ucast b = le16 b a" for b
    unfolding byte_masks le16_def by (rule bit_word_eqI) (auto simp: bit_simps dest: bit_imp_le_length)
  then show ?thesis using assms by (auto simp: odd_end_def unat_le16)
qed

lemma le16_zero: "le16 0 0 = 0" by (simp add: le16_def)

text \<open>The end shared by the versions 2 and 3.\<close>

lemma finish_sum:
  assumes "rep (if is_odd then 256 * unat u else unat u) n"
  shows "(ucast (if is_odd then SWAP_BYTES_IN_WORD (FOLD_U32T (FOLD_U32T u)) else FOLD_U32T (FOLD_U32T u)) :: u16) = of_nat (canon n)"
proof -
  let ?f = "FOLD_U32T (FOLD_U32T u)"
  let ?w = "if is_odd then SWAP_BYTES_IN_WORD ?f else ?f"
  have "rep (unat ?w) (if is_odd then 256 * unat u else unat u)"
    using rep_trans [OF swap_rep(1) [OF fold_fold(2)] rep_times [OF fold_fold(1)]] fold_fold(1) by simp
  then have "rep (unat ?w) n" using assms by (rule rep_trans)
  moreover have "unat ?w \<le> 65535" using swap_rep(2) [OF fold_fold(2)] fold_fold(2) by simp
  ultimately have "unat ?w = canon n" by (rule rep_canon)
  then have "(of_nat (unat ?w) :: u16) = of_nat (canon n)" by (simp only:)
  then show ?thesis by (simp only: of_nat_unat)
qed

lemma swap_out: "rep (256 * (256 * n)) n"
  using rep_65536 [of n] by simp

section \<open>The versions\<close>

text \<open>The byte taken at an odd start, and what it changes of the sum.\<close>

lemma odd_start_spec:
  obtains a data1 where "odd_start is_odd data = (le16 0 a, data1)" "length data1 \<le> length data"
    "rep (if is_odd then 256 * (256 * unat a + le_sum data1) else 256 * unat a + le_sum data1) (le_sum data)"
proof (cases "is_odd \<and> data \<noteq> []")
  case True
  then obtain a bs where data: "data = a # bs" by (cases data) auto
  have "rep (256 * (256 * unat a) + 256 * le_sum bs) (unat a + 256 * le_sum bs)"
    by (intro rep_add swap_out rep_refl)
  moreover have "rep (unat a + 256 * le_sum bs) (le_sum data)" using le_sum_Cons [of a bs] by (simp add: data rep_def)
  ultimately have "rep (256 * (256 * unat a + le_sum bs)) (le_sum data)"
    using rep_trans by (simp only: add_mult_distrib2)
  then show ?thesis using that [of a bs] True by (simp add: odd_start_def data)
next
  case False
  then show ?thesis using that [of 0 data] by (auto simp: odd_start_def le16_zero)
qed

lemma chksum2_spec:
  assumes "length data \<le> 0xffff"
  shows "lwip_standard_chksum_2 is_odd data = of_nat (canon (le_sum data))"
proof -
  obtain a data1 where s: "odd_start is_odd data = (le16 0 a, data1)" and len: "length data1 \<le> length data"
    and n: "rep (if is_odd then 256 * (256 * unat a + le_sum data1) else 256 * unat a + le_sum data1) (le_sum data)"
    by (rule odd_start_spec)
  have b: "le_sum data1 + 65536 < 2 ^ 32" using le_sum_bound [of data1] len assms by simp
  then obtain acc rest where w: "word_loop data1 0 = (acc, rest)" "unat acc + le_sum rest = le_sum data1"
    and r: "rest = [] \<or> (\<exists>b. rest = [b])" using word_loop_spec [of 0 data1] by fastforce
  have "256 * unat a \<le> 65280" using unat_less_u8 [of a] by simp
  then have "unat (acc + ucast (odd_end (le16 0 a) rest)) = 256 * unat a + le_sum data1"
    using b w(2) odd_end_spec [OF r, of a] by (simp add: unat_word_ariths unat_ucast_u16_u32)
  then have "rep (if is_odd then 256 * unat (acc + ucast (odd_end (le16 0 a) rest)) else unat (acc + ucast (odd_end (le16 0 a) rest))) (le_sum data)"
    using n by (simp only:)
  then show ?thesis unfolding lwip_standard_chksum_2_def s w(1) Let_def prod.case by (rule finish_sum)
qed

lemma add_back_rep: "rep (unat (add_back acc w)) (unat acc + unat w)"
proof (cases "unat acc + unat w < 2 ^ 32")
  case True
  then have "unat (acc + w) = unat acc + unat w" by (simp add: unat_word_ariths)
  then show ?thesis by (simp add: add_back_def Let_def word_less_nat_alt)
next
  case False
  have l: "unat acc < 2 ^ 32" "unat w < 2 ^ 32" by (rule unat_less_u32)+
  have t: "unat (acc + w) = unat acc + unat w - 2 ^ 32"
    using False l by (simp add: unat_word_ariths mod_if)
  then have lt: "acc + w < acc" using False l by (simp add: word_less_nat_alt)
  have u: "unat (acc + w + 1) = unat acc + unat w - 2 ^ 32 + 1"
    using False l t by (simp add: unat_word_ariths(1) [of "acc + w" 1])
  obtain k where k: "unat acc + unat w = 4294967296 + k" using False le_Suc_ex by (auto simp: not_less)
  have "4294967296 + k = Suc k + 65537 * 65535" by simp
  then have "(4294967296 + k) mod 65535 = Suc k mod 65535" by (simp only: mod_mult_self1)
  then have "rep (Suc k) (unat acc + unat w)" unfolding k by (simp add: rep_def)
  then show ?thesis using lt u k by (simp add: add_back_def Let_def)
qed

lemma long_loop_spec:
  "\<exists>acc' rest. long_loop bs acc = (acc', rest) \<and> rep (unat acc' + le_sum rest) (unat acc + le_sum bs) \<and> length rest < 8"
proof (induction bs acc rule: long_loop.induct)
  case (1 a b c d e f g h bs acc)
  let ?acc = "add_back (add_back acc (le32 a b c d)) (le32 e f g h)"
  let ?m = "unat a + 256 * unat b + (unat c + 256 * unat d)" and ?n = "unat e + 256 * unat f + (unat g + 256 * unat h)"
  have "rep (unat (add_back acc (le32 a b c d))) (unat acc + ?m)"
    unfolding le32_def by (rule rep_trans [OF add_back_rep rep_add [OF rep_refl join_octets_sum]])
  then have "rep (unat (add_back acc (le32 a b c d)) + unat (le32 e f g h)) (unat acc + ?m + ?n)"
    by (intro rep_add) (simp_all add: le32_def join_octets_sum)
  then have "rep (unat ?acc + le_sum bs) (unat acc + ?m + ?n + le_sum bs)"
    by (intro rep_add [OF rep_trans [OF add_back_rep] rep_refl])
  moreover have "unat acc + ?m + ?n + le_sum bs = unat acc + le_sum (a # b # c # d # e # f # g # h # bs)" by simp
  ultimately have "rep (unat ?acc + le_sum bs) (unat acc + le_sum (a # b # c # d # e # f # g # h # bs))" by (simp only:)
  then show ?case using "1.IH" rep_trans by (simp only: long_loop.simps) blast
qed simp_all

lemma short_start_spec:
  obtains acc data2 where "short_start unaligned data = (acc, data2)" "unat acc + le_sum data2 = le_sum data"
proof (cases data rule: le_sum.cases)
  case (3 a b bs)
  then show ?thesis using that by (cases unaligned) (simp_all add: short_start_def unat_ucast_u16_u32 unat_le16)
qed (use that in \<open>simp_all add: short_start_def\<close>)

lemma chksum3_spec: "lwip_standard_chksum_3 address data = of_nat (canon (le_sum data))"
proof -
  define is_odd where "is_odd \<longleftrightarrow> address mod 2 = 1"
  obtain a data1 where s: "odd_start is_odd data = (le16 0 a, data1)" and len: "length data1 \<le> length data"
    and n: "rep (if is_odd then 256 * (256 * unat a + le_sum data1) else 256 * unat a + le_sum data1) (le_sum data)"
    by (rule odd_start_spec)
  define address1 where "address1 = (if is_odd \<and> data \<noteq> [] then Suc address else address)"
  obtain sum1 data2 where s1: "short_start (address1 mod 4 \<noteq> 0) data1 = (sum1, data2)" "unat sum1 + le_sum data2 = le_sum data1"
    by (rule short_start_spec)
  obtain sum2 data3 where s2: "long_loop data2 sum1 = (sum2, data3)" "rep (unat sum2 + le_sum data3) (unat sum1 + le_sum data2)"
    "length data3 < 8" using long_loop_spec by blast
  have small: "unat (FOLD_U32T sum2) + le_sum data3 \<le> 131070 + 262140"
    proof -
    have "65535 * Suc (length data3) \<le> 524280" using s2(3) by simp
    then have "le_sum data3 \<le> 262140" using le_sum_bound [of data3] by simp
    then show ?thesis using fold_bounds(1) [of sum2] by simp
  qed
  then obtain sum3 rest where s3: "word_loop data3 (FOLD_U32T sum2) = (sum3, rest)" "unat sum3 + le_sum rest = unat (FOLD_U32T sum2) + le_sum data3"
    and r: "rest = [] \<or> (\<exists>b. rest = [b])" using word_loop_spec [of "FOLD_U32T sum2" data3] by fastforce
  have "256 * unat a \<le> 65280" using unat_less_u8 [of a] by simp
  then have u: "unat (sum3 + ucast (odd_end (le16 0 a) rest)) = 256 * unat a + (unat (FOLD_U32T sum2) + le_sum data3)"
    using small s3(2) odd_end_spec [OF r, of a] by (simp add: unat_word_ariths unat_ucast_u16_u32)
  have "rep (unat (FOLD_U32T sum2) + le_sum data3) (le_sum data1)"
    using rep_trans [OF rep_add [OF fold_rep rep_refl] s2(2)] s1(2) by simp
  then have v: "rep (unat (sum3 + ucast (odd_end (le16 0 a) rest))) (256 * unat a + le_sum data1)"
    unfolding u by (intro rep_add rep_refl)
  have "rep (if is_odd then 256 * unat (sum3 + ucast (odd_end (le16 0 a) rest)) else unat (sum3 + ucast (odd_end (le16 0 a) rest))) (le_sum data)"
    by (rule rep_trans [OF _ n]) (cases is_odd; simp only: if_True if_False v rep_times [OF v] simp_thms)
  then show ?thesis
    unfolding lwip_standard_chksum_3_def Let_def is_odd_def [symmetric] s prod.case address1_def [symmetric] s1(1) s2(1) s3(1)
    by (rule finish_sum)
qed

text \<open>Version 1: the words in network order, swapped at the end.\<close>

fun be_sum :: "byte list \<Rightarrow> nat" where
  "be_sum [] = 0"
| "be_sum [a] = 256 * unat a"
| "be_sum (a # b # bs) = 256 * unat a + unat b + be_sum bs"

lemma be_sum_swap: "rep (256 * be_sum data) (le_sum data)"
proof (induction data rule: be_sum.induct)
  case (3 a b bs)
  have "rep (256 * (256 * unat a) + 256 * unat b + 256 * be_sum bs) (unat a + 256 * unat b + le_sum bs)"
    by (intro rep_add swap_out rep_refl 3)
  then show ?case by (simp add: algebra_simps)
qed (use swap_out in \<open>simp_all\<close>)

lemma be_sum_bound: "be_sum data \<le> 65280 * length data"
proof (induction data rule: be_sum.induct)
  case (2 a)
  then show ?case using unat_less_u8 [of a] by simp
next
  case (3 a b bs)
  then show ?case using unat_less_u8 [of a] unat_less_u8 [of b] by simp
qed simp

lemma htons_num: "unat (lwip_htons w) = 256 * (unat w mod 256) + unat w div 256"
proof -
  have "lwip_htons w = le16 (ucast (drop_bit 8 w)) (ucast w)"
    unfolding lwip_htons_def byte_masks le16_def by (rule bit_word_eqI) (auto simp: bit_simps)
  moreover have "unat (ucast (drop_bit 8 w) :: u8) = unat w div 256"
    using unat_less_u16 [of w] by (simp add: unsigned_ucast_eq unat_drop_bit_eq drop_bit_eq_div [where ?'a = nat] take_bit_eq_mod [where ?'a = nat])
  moreover have "unat (ucast w :: u8) = unat w mod 256"
    by (simp add: unsigned_ucast_eq take_bit_eq_mod [where ?'a = nat])
  ultimately show ?thesis by (simp add: unat_le16)
qed

lemma chksum1_loop_spec:
  assumes "unat acc + be_sum bs < 2 ^ 32"
  shows "\<exists>acc' rest. chksum1_loop bs acc = (acc', rest) \<and> unat acc' + be_sum rest = unat acc + be_sum bs
    \<and> (rest = [] \<or> (\<exists>a. rest = [a]))"
  using assms
proof (induction bs acc rule: chksum1_loop.induct)
  case (1 a b bs acc)
  have "(push_bit 8 (ucast a) OR ucast b :: u16) = le16 b a" by (simp add: le16_def or.commute)
  then have "unat (acc + ucast (push_bit 8 (ucast a) OR ucast b :: u16)) = unat acc + (256 * unat a + unat b)"
    using "1.prems" by (simp add: unat_word_ariths unat_ucast_u16_u32 unat_le16)
  with 1 show ?case by auto
qed simp_all

lemma high_half_zero: "w AND 0xffff0000 = 0 \<longleftrightarrow> unat w < 65536" for w :: u32
proof -
  have m: "(0xffff0000 :: u32) = push_bit 16 (mask 16)" by (simp add: mask_eq_exp_minus_1 push_bit_eq_mult)
  have "w AND 0xffff0000 = push_bit 16 (drop_bit 16 w)"
    unfolding m by (rule bit_word_eqI) (auto simp: bit_simps)
  moreover have "unat (push_bit 16 (drop_bit 16 w)) = 65536 * (unat w div 65536)"
    using halves(1,3) [OF unat_less_u32 [of w]] by (simp add: push_bit_eq_mult unat_word_ariths unat_high_half)
  ultimately have "w AND 0xffff0000 = 0 \<longleftrightarrow> 65536 * (unat w div 65536) = 0" by (simp only: word_eq_iff_unat unsigned_0)
  then show ?thesis by (simp add: div_eq_0_iff)
qed

lemma chksum1_spec:
  assumes "length data \<le> 0xffff"
  shows "lwip_standard_chksum_1 data = of_nat (canon (le_sum data))"
proof -
  have b: "be_sum data < 2 ^ 32" using be_sum_bound [of data] assms by simp
  then obtain acc rest where l: "chksum1_loop data 0 = (acc, rest)" "unat acc + be_sum rest = be_sum data"
    and r: "rest = [] \<or> (\<exists>a. rest = [a])" using chksum1_loop_spec [of 0 data] by auto
  define acc1 where "acc1 = (case rest of [] \<Rightarrow> acc | a # _ \<Rightarrow> acc + ucast (push_bit 8 (ucast a) :: u16))"
  have "unat (ucast (push_bit 8 (ucast a) :: u16) :: u32) = 256 * unat a" for a :: u8
    using unat_le16 [of 0 a] by (simp add: unat_ucast_u16_u32 le16_def)
  then have acc1: "unat acc1 = be_sum data" using r l(2) b by (auto simp: acc1_def unat_word_ariths)
  have two: "(if FOLD_U32T acc1 AND 0xffff0000 \<noteq> 0 then FOLD_U32T (FOLD_U32T acc1) else FOLD_U32T acc1) = FOLD_U32T (FOLD_U32T acc1)"
    using fold_bounds(3) [of "FOLD_U32T acc1"] by (auto simp: high_half_zero)
  let ?w = "ucast (FOLD_U32T (FOLD_U32T acc1)) :: u16"
  have w: "unat ?w = unat (FOLD_U32T (FOLD_U32T acc1))"
    using fold_fold(2) [of acc1] by (simp add: unsigned_ucast_eq take_bit_nat_eq_self)
  then have "rep (256 * unat ?w) (256 * be_sum data)" using rep_times [OF fold_fold(1) [of acc1]] acc1 by simp
  moreover have "rep (unat (lwip_htons ?w)) (256 * unat ?w)" unfolding htons_num
    using fold_fold(2) [of acc1] by (intro swap_num(1)) (simp add: w)
  ultimately have "rep (unat (lwip_htons ?w)) (le_sum data)" using be_sum_swap rep_trans by blast
  moreover have "unat (lwip_htons ?w) \<le> 65535" using unat_less_u16 [of "lwip_htons ?w"] by simp
  ultimately have "unat (lwip_htons ?w) = canon (le_sum data)" by (rule rep_canon)
  then have "(of_nat (unat (lwip_htons ?w)) :: u16) = of_nat (canon (le_sum data))" by (simp only:)
  then have "lwip_htons ?w = of_nat (canon (le_sum data))" by (simp only: of_nat_unat ucast_id)
  then show ?thesis unfolding lwip_standard_chksum_1_def l(1) Let_def prod.case acc1_def [symmetric] two .
qed

section \<open>Chains\<close>

text \<open>What a partial sum over bytes before an odd or even position stands for.\<close>

definition turned :: "bool \<Rightarrow> nat \<Rightarrow> nat" where
  "turned swapped n = (if swapped then 256 * n else n)"

lemma turned_rep: "rep x n \<Longrightarrow> rep (turned swapped x) (turned swapped n)"
  by (simp add: turned_def rep_times)

lemma turned_add: "turned swapped (m + n) = turned swapped m + turned swapped n"
  by (simp add: turned_def)

lemma turned_twice: "rep (turned swapped (256 * n)) (turned (\<not> swapped) n)"
  using swap_out [of n] by (cases swapped) (simp_all add: turned_def)

lemma le_sum_append_odd: "odd (length xs) \<Longrightarrow> rep (le_sum (xs @ ys)) (le_sum xs + 256 * le_sum ys)"
proof (induction xs rule: le_sum.induct)
  case (2 a)
  then show ?case using le_sum_Cons [of a ys] by simp
next
  case (3 a b bs)
  then have "rep (unat a + 256 * unat b + le_sum (bs @ ys)) (unat a + 256 * unat b + (le_sum bs + 256 * le_sum ys))"
    by (intro rep_add rep_refl) simp
  then show ?case by (simp add: algebra_simps)
qed simp

lemma le_sum_split: "rep (le_sum (xs @ ys)) (le_sum xs + turned (odd (length xs)) (le_sum ys))"
  using le_sum_append_odd [of xs ys] le_sum_append [of xs ys] by (simp add: turned_def)

lemma after_node:
  assumes "unat acc \<le> 65535"
  shows "rep (turned (swapped \<noteq> is_odd) (unat (if is_odd then SWAP_BYTES_IN_WORD acc else acc) + n)) (turned swapped (unat acc + turned is_odd n))"
    "unat (if is_odd then SWAP_BYTES_IN_WORD acc else acc) \<le> 65535"
proof -
  show "rep (turned (swapped \<noteq> is_odd) (unat (if is_odd then SWAP_BYTES_IN_WORD acc else acc) + n)) (turned swapped (unat acc + turned is_odd n))"
  proof (cases is_odd)
    case True
    have "rep (turned (\<not> swapped) (unat (SWAP_BYTES_IN_WORD acc))) (turned (\<not> swapped) (256 * unat acc))"
      by (rule turned_rep [OF swap_rep(1) [OF assms]])
    then have a: "rep (turned (\<not> swapped) (unat (SWAP_BYTES_IN_WORD acc))) (turned swapped (unat acc))"
      using turned_twice [of "\<not> swapped" "unat acc"] rep_trans by simp
    have b: "rep (turned (\<not> swapped) n) (turned swapped (256 * n))"
      using turned_twice [of swapped n] by (simp only: rep_def)
    show ?thesis using rep_add [OF a b] True by (simp add: turned_add turned_def [of True])
  qed (simp add: turned_def [of False])
  show "unat (if is_odd then SWAP_BYTES_IN_WORD acc else acc) \<le> 65535"
    using assms swap_rep(2) [OF assms] by simp
qed

text \<open>One buffer: its sum is added and folded, and turned if its length is odd.\<close>

lemma node_sum:
  assumes "length data \<le> 0xffff" "unat acc \<le> 65535"
  shows "rep (unat (FOLD_U32T (acc + ucast (LWIP_CHKSUM address data)))) (unat acc + le_sum data)"
    "unat (FOLD_U32T (acc + ucast (LWIP_CHKSUM address data))) \<le> 65535"
proof -
  let ?c = "LWIP_CHKSUM address data"
  have c: "?c = of_nat (canon (le_sum data))" by (simp add: LWIP_CHKSUM_def chksum2_spec [OF assms(1)])
  have "canon (le_sum data) \<le> 65535" by (simp add: canon_def Suc_le_eq)
  then have u: "unat ?c = canon (le_sum data)" by (simp add: c unsigned_of_nat take_bit_nat_eq_self)
  have "rep (canon (le_sum data)) (le_sum data)" by (rule canon_rep)
  then have r: "rep (unat acc + unat ?c) (unat acc + le_sum data)" unfolding u by (intro rep_add rep_refl)
  have s: "unat (acc + ucast ?c) = unat acc + unat ?c"
    using assms(2) unat_less_u16 [of ?c] by (simp add: unat_word_ariths unat_ucast_u16_u32)
  show "rep (unat (FOLD_U32T (acc + ucast ?c))) (unat acc + le_sum data)"
    by (rule rep_trans [OF fold_rep]) (simp add: s r)
  show "unat (FOLD_U32T (acc + ucast ?c)) \<le> 65535"
    using assms(2) unat_less_u16 [of ?c] by (intro fold_bounds(2)) (simp add: s)
qed

lemma odd_len: "pb_len q mod 2 = 0 \<longleftrightarrow> even (unat (pb_len q))" "pb_len q mod 2 = 1 \<longleftrightarrow> odd (unat (pb_len q))"
  by (simp_all add: word_eq_iff_unat unat_mod odd_iff_mod_2_eq_one even_iff_mod_2_eq_zero)

lemma chain_step:
  assumes "length data \<le> 0xffff" "unat acc \<le> 65535"
    and "acc1 = FOLD_U32T (acc + ucast (LWIP_CHKSUM address data))"
    and "rest = [] \<or> is_odd = odd (length data)"
  shows "rep (turned (swapped \<noteq> is_odd) (unat (if is_odd then SWAP_BYTES_IN_WORD acc1 else acc1) + le_sum rest))
      (turned swapped (unat acc + le_sum (data @ rest)))"
    "unat (if is_odd then SWAP_BYTES_IN_WORD acc1 else acc1) \<le> 65535"
proof -
  note n = node_sum [OF assms(1,2), of address, folded assms(3)]
  have "rep (unat acc1 + turned is_odd (le_sum rest)) (unat acc + le_sum data + turned is_odd (le_sum rest))"
    by (intro rep_add n(1) rep_refl)
  moreover have "rep (unat acc + le_sum data + turned is_odd (le_sum rest)) (unat acc + le_sum (data @ rest))"
  proof (cases "rest = []")
    case False
    then have "rep (le_sum data + turned is_odd (le_sum rest)) (le_sum (data @ rest))"
      using le_sum_split [of data rest] assms(4) by (simp add: rep_def)
    then show ?thesis unfolding add.assoc by (intro rep_add rep_refl)
  qed (simp add: turned_def)
  ultimately have "rep (turned swapped (unat acc1 + turned is_odd (le_sum rest))) (turned swapped (unat acc + le_sum (data @ rest)))"
    by (intro turned_rep) (rule rep_trans)
  then show "rep (turned (swapped \<noteq> is_odd) (unat (if is_odd then SWAP_BYTES_IN_WORD acc1 else acc1) + le_sum rest))
      (turned swapped (unat acc + le_sum (data @ rest)))"
    by (rule rep_trans [OF after_node(1) [OF n(2)]])
  show "unat (if is_odd then SWAP_BYTES_IN_WORD acc1 else acc1) \<le> 65535" by (rule after_node(2) [OF n(2)])
qed

text \<open>The chain of an addressed list of buffers.\<close>

definition packet :: "(nat \<times> pbuf) list \<Rightarrow> byte list" where
  "packet p = chain_bytes (map snd p)"

lemma packet_simps [simp]: "packet [] = []" "packet ((address, q) # qs) = pb_payload q @ packet qs"
  by (simp_all add: packet_def)

lemma chain_head:
  assumes "pchain_inv (map snd ((address, q) # qs))"
  shows "take (unat (pb_len q)) (pb_payload q) = pb_payload q" "length (pb_payload q) = unat (pb_len q)"
    "length (pb_payload q) \<le> 0xffff" "pchain_inv (map snd qs)"
  using assms unat_less_u16 [of "pb_len q"] by simp_all

lemma chain_loop_spec:
  assumes "pchain_inv (map snd p)" "unat acc \<le> 65535"
  shows "\<exists>acc' swapped'. chain_loop p acc swapped = (acc', swapped') \<and> unat acc' \<le> 65535
    \<and> rep (turned swapped' (unat acc')) (turned swapped (unat acc + le_sum (packet p)))"
  using assms
proof (induction p acc swapped rule: chain_loop.induct)
  case (2 address q qs acc swapped)
  let ?acc1 = "FOLD_U32T (acc + ucast (LWIP_CHKSUM address (pb_payload q)))"
  let ?odd = "odd (length (pb_payload q))"
  note h = chain_head [OF "2.prems"(1)]
  note c1 = chain_step(1) [where rest = "packet qs" and is_odd = "?odd" and swapped = swapped and address = address, OF h(3) "2.prems"(2) refl disjI2 [OF refl]]
  note c2 = chain_step(2) [where rest = "packet qs" and is_odd = "?odd" and address = address, OF h(3) "2.prems"(2) refl disjI2 [OF refl]]
  have l: "chain_loop ((address, q) # qs) acc swapped = chain_loop qs (if ?odd then SWAP_BYTES_IN_WORD ?acc1 else ?acc1) (swapped \<noteq> ?odd)"
    using h(1,2) by (simp add: odd_len Let_def)
  have "\<exists>acc' swapped'. chain_loop qs (if ?odd then SWAP_BYTES_IN_WORD ?acc1 else ?acc1) (swapped \<noteq> ?odd) = (acc', swapped') \<and> unat acc' \<le> 65535
    \<and> rep (turned swapped' (unat acc')) (turned (swapped \<noteq> ?odd) (unat (if ?odd then SWAP_BYTES_IN_WORD ?acc1 else ?acc1) + le_sum (packet qs)))"
    using "2.IH"(1) [OF refl refl _ h(4)] "2.IH"(2) [OF refl refl _ h(4)] c2 by (cases ?odd) (simp_all add: odd_len h(1,2) flip: h(2))
  then show ?case unfolding l packet_simps using rep_trans c1 by blast
qed simp


lemma partial_loop_spec:
  assumes "pchain_inv (map snd p)" "unat acc \<le> 65535" "unat chksum_len < 0x7fff"
  shows "\<exists>acc' swapped'. partial_loop p chksum_len acc swapped = Some (acc', swapped') \<and> unat acc' \<le> 65535
    \<and> rep (turned swapped' (unat acc')) (turned swapped (unat acc + le_sum (take (unat chksum_len) (packet p))))"
  using assms
proof (induction p chksum_len acc swapped rule: partial_loop.induct)
  case (2 address q qs chksum_len acc swapped)
  note h = chain_head [OF "2.prems"(1)]
  define chklen where "chklen = (if pb_len q > chksum_len then chksum_len else pb_len q)"
  define data where "data = take (unat chklen) (pb_payload q)"
  define acc1 where "acc1 = FOLD_U32T (acc + ucast (LWIP_CHKSUM address data))"
  define is_odd where "is_odd = odd (unat (pb_len q))"
  define remaining where "remaining = chksum_len - chklen"
  have chk: "unat chklen = min (unat chksum_len) (unat (pb_len q))" by (simp add: chklen_def word_less_nat_alt)
  have rem: "unat remaining = unat chksum_len - unat (pb_len q)"
    using chk by (simp add: remaining_def unat_sub word_le_nat_alt)
  then have small: "unat remaining < 0x7fff" using "2.prems"(3) by simp
  have len: "length data \<le> 0xffff" using h(3) by (simp add: data_def)
  have d: "data @ take (unat remaining) (packet qs) = take (unat chksum_len) (packet ((address, q) # qs))"
    by (simp add: data_def chk rem h(2) min_def)
  have o: "take (unat remaining) (packet qs) = [] \<or> is_odd = odd (length data)"
    by (cases "unat (pb_len q) \<le> unat chksum_len") (simp_all add: data_def chk rem is_odd_def h(2))
  note c1 = chain_step(1) [where swapped = swapped, OF len "2.prems"(2) acc1_def o, unfolded d]
  note c2 = chain_step(2) [OF len "2.prems"(2) acc1_def o]
  show ?case
  proof (cases "chksum_len > 0")
    case True
    have l: "partial_loop ((address, q) # qs) chksum_len acc swapped =
      partial_loop qs remaining (if is_odd then SWAP_BYTES_IN_WORD acc1 else acc1) (swapped \<noteq> is_odd)"
      unfolding partial_loop.simps(2) Let_def chklen_def [symmetric] data_def [symmetric] acc1_def [symmetric] remaining_def [symmetric]
      using True small by (simp add: word_less_nat_alt is_odd_def odd_len)
    note ih = "2.IH" [OF True chklen_def refl remaining_def _ refl]
    have "\<exists>acc' swapped'. partial_loop qs remaining (if is_odd then SWAP_BYTES_IN_WORD acc1 else acc1) (swapped \<noteq> is_odd) = Some (acc', swapped')
      \<and> unat acc' \<le> 65535 \<and> rep (turned swapped' (unat acc')) (turned (swapped \<noteq> is_odd)
        (unat (if is_odd then SWAP_BYTES_IN_WORD acc1 else acc1) + le_sum (take (unat remaining) (packet qs))))"
      using ih(1) [OF _ _ h(4) _ small] ih(2) [OF _ _ h(4) _ small] c2 small
      by (cases is_odd) (simp_all add: is_odd_def odd_len acc1_def data_def word_less_nat_alt)
    then show ?thesis unfolding l using rep_trans c1 by blast
  qed (use "2.prems"(2) in \<open>simp add: word_gt_0\<close>)
qed simp

text \<open>The specification: the complement of the sum modulo 65535 (RFC 1071).\<close>

definition internet_checksum :: "byte list \<Rightarrow> u16" where
  "internet_checksum data = NOT (of_nat (canon (le_sum data)))"

lemma complement:
  fixes w :: u32
  assumes "rep (unat w) (le_sum data)" "unat w \<le> 65535"
  shows "(ucast (NOT (w AND 0xffff)) :: u16) = internet_checksum data"
proof -
  have m: "(0xffff :: u32) = mask 16" by (simp add: mask_eq_exp_minus_1)
  have "(ucast (NOT (w AND mask 16)) :: u16) = NOT (ucast w)"
    by (rule bit_word_eqI) (auto simp: bit_simps)
  then have "(ucast (NOT (w AND 0xffff)) :: u16) = NOT (ucast w)" unfolding m .
  also have "ucast w = (of_nat (unat w) :: u16)" by simp
  also have "unat w = canon (le_sum data)" by (rule rep_canon [OF assms])
  finally show ?thesis by (simp only: internet_checksum_def)
qed

lemma unswapped:
  assumes "rep (turned swapped (unat acc)) n" "unat acc \<le> 65535"
  shows "rep (unat (if swapped then SWAP_BYTES_IN_WORD acc else acc)) n"
    "unat (if swapped then SWAP_BYTES_IN_WORD acc else acc) \<le> 65535"
proof -
  show "rep (unat (if swapped then SWAP_BYTES_IN_WORD acc else acc)) n"
    using assms(1) rep_trans [OF swap_rep(1) [OF assms(2)]] by (simp add: turned_def split: if_splits)
  show "unat (if swapped then SWAP_BYTES_IN_WORD acc else acc) \<le> 65535" using swap_rep(2) [OF assms(2)] assms(2) by simp
qed

lemma inet_chksum_spec:
  assumes "length data \<le> 0xffff"
  shows "inet_chksum address data = internet_checksum data"
proof -
  have "(ucast (NOT (ucast w :: u32)) :: u16) = NOT w" for w :: u16
    by (rule bit_word_eqI) (simp add: bit_simps)
  then show ?thesis by (simp only: inet_chksum_def LWIP_CHKSUM_def chksum2_spec [OF assms] internet_checksum_def)
qed

lemma inet_chksum_pbuf_spec:
  assumes "pchain_inv (map snd p)"
  shows "inet_chksum_pbuf p = internet_checksum (packet p)"
proof -
  obtain acc swapped where l: "chain_loop p 0 False = (acc, swapped)" "unat acc \<le> 65535"
    and r: "rep (turned swapped (unat acc)) (le_sum (packet p))"
    using chain_loop_spec [OF assms, of 0 False] by (auto simp: turned_def)
  show ?thesis unfolding inet_chksum_pbuf_def l(1) prod.case Let_def by (rule complement [OF unswapped [OF r l(2)]])
qed

section \<open>Pseudo headers\<close>

text \<open>The pseudo headers of RFC 793 and RFC 8200 as bytes; addresses are in network order in memory.\<close>

definition pseudo_header :: "u32 \<Rightarrow> u32 \<Rightarrow> u8 \<Rightarrow> u16 \<Rightarrow> byte list" where
  "pseudo_header src dest proto proto_len =
     octets src @ octets dest @ [0, proto, ucast (drop_bit 8 proto_len), ucast proto_len]"

definition pseudo_header6 :: "u32 list \<Rightarrow> u32 list \<Rightarrow> u8 \<Rightarrow> u16 \<Rightarrow> byte list" where
  "pseudo_header6 src dest proto proto_len =
     concat (map octets src) @ concat (map octets dest) @ [0, 0, ucast (drop_bit 8 proto_len), ucast proto_len, 0, 0, 0, proto]"

lemma unat_high_byte: "unat (ucast (drop_bit 8 w) :: u8) = unat w div 256" for w :: u16
  using unat_less_u16 [of w] by (simp add: unsigned_ucast_eq unat_drop_bit_eq drop_bit_eq_div [where ?'a = nat] take_bit_eq_mod [where ?'a = nat])

lemma unat_low_byte: "unat (ucast w :: u8) = unat w mod 256" for w :: u16
  by (simp add: unsigned_ucast_eq take_bit_eq_mod [where ?'a = nat])

lemma octets_sum: "le_sum (octets w) = unat w mod 65536 + unat w div 65536"
proof -
  define lo hi where lo: "lo = unat (octet 0 w) + 256 * unat (octet 1 w)" and hi: "hi = unat (octet 2 w) + 256 * unat (octet 3 w)"
  have "unat w = lo + 65536 * hi" using unat_join_octets [of "octet 0 w" "octet 1 w" "octet 2 w" "octet 3 w"]
    by (simp only: join_octets_octets lo hi)
  moreover have "lo < 65536" using unat_less_u8 [of "octet 0 w"] unat_less_u8 [of "octet 1 w"] by (simp add: lo)
  ultimately have "unat w mod 65536 = lo" "unat w div 65536 = hi" by simp_all
  then show ?thesis by (simp add: octets_def lo hi)
qed

lemma octets_sum_bound: "le_sum (octets w) \<le> 131070"
  using halves(1,2) [OF unat_less_u32 [of w]] by (simp add: octets_sum)

lemma add_address_spec:
  assumes "unat acc + 131070 < 2 ^ 32"
  shows "unat (add_address addr acc) = unat acc + le_sum (octets addr)"
proof -
  have "unat (drop_bit 16 addr AND 0xffff) = unat addr div 65536"
    using halves(1) [OF unat_less_u32 [of addr]] by (simp add: unat_low_half unat_high_half)
  then show ?thesis using assms octets_sum_bound [of addr]
    by (simp add: add_address_def octets_sum unat_word_ariths unat_low_half)
qed

lemma add_parts_spec:
  assumes "length src = length dest" "unat acc + 262140 * length src < 2 ^ 32"
  shows "unat (add_parts src dest acc) = unat acc + le_sum (concat (map octets src)) + le_sum (concat (map octets dest))"
  using assms
proof (induction src dest acc rule: add_parts.induct)
  case (1 s src d dest acc)
  have s: "unat (add_address s acc) = unat acc + le_sum (octets s)" using "1.prems" by (intro add_address_spec) simp
  then have d: "unat (add_address d (add_address s acc)) = unat acc + le_sum (octets s) + le_sum (octets d)"
    using "1.prems" octets_sum_bound [of s] by (subst add_address_spec) simp_all
  have "even (length (octets w))" for w by (simp add: octets_def)
  then show ?case using "1.IH" "1.prems" octets_sum_bound [of s] octets_sum_bound [of d] by (simp add: d le_sum_append)
qed simp_all

lemma pseudo_end_spec:
  assumes "rep (unat acc) n" "unat acc \<le> 65535"
    and "n + (256 * unat proto + unat (lwip_htons proto_len)) = le_sum data"
  shows "pseudo_end proto proto_len acc = internet_checksum data"
proof -
  define sum2 where "sum2 = acc + ucast (lwip_htons (ucast proto)) + ucast (lwip_htons proto_len)"
  have "unat (ucast proto :: u16) = unat proto" using unat_less_u8 [of proto] by (simp add: unsigned_ucast_eq take_bit_nat_eq_self)
  then have p: "unat (lwip_htons (ucast proto)) = 256 * unat proto" using unat_less_u8 [of proto] by (simp add: htons_num)
  have "unat sum2 = unat acc + (256 * unat proto + unat (lwip_htons proto_len))"
    using assms(2) unat_less_u8 [of proto] unat_less_u16 [of "lwip_htons proto_len"]
    by (simp add: sum2_def unat_word_ariths unat_ucast_u16_u32 p)
  then have "rep (unat sum2) (le_sum data)" using rep_add [OF assms(1) rep_refl [of "256 * unat proto + unat (lwip_htons proto_len)"]] assms(3) by (simp only:)
  then have "rep (unat (FOLD_U32T (FOLD_U32T sum2))) (le_sum data)" using rep_trans [OF fold_fold(1)] by blast
  then show ?thesis unfolding pseudo_end_def Let_def sum2_def [symmetric] by (rule complement) (rule fold_fold(2))
qed

lemma header_sum:
  "le_sum (pseudo_header src dest proto proto_len @ data) =
     le_sum (octets src) + le_sum (octets dest) + le_sum data + (256 * unat proto + unat (lwip_htons proto_len))"
proof -
  define h l :: u8 where h: "h = ucast (drop_bit 8 proto_len)" and l: "l = ucast proto_len"
  have "unat h = unat proto_len div 256" "unat l = unat proto_len mod 256" unfolding h l by (rule unat_high_byte unat_low_byte)+
  moreover have "even (length (octets w))" for w by (simp add: octets_def)
  ultimately show ?thesis unfolding pseudo_header_def h [symmetric] l [symmetric] by (simp add: le_sum_append htons_num)
qed

lemma header6_sum:
  "le_sum (pseudo_header6 src dest proto proto_len @ data) =
     le_sum (concat (map octets src)) + le_sum (concat (map octets dest)) + le_sum data + (256 * unat proto + unat (lwip_htons proto_len))"
proof -
  define h l :: u8 where h: "h = ucast (drop_bit 8 proto_len)" and l: "l = ucast proto_len"
  have "unat h = unat proto_len div 256" "unat l = unat proto_len mod 256" unfolding h l by (rule unat_high_byte unat_low_byte)+
  moreover have "even (length (concat (map octets ws)))" for ws by (induction ws) (simp_all add: octets_def)
  ultimately show ?thesis unfolding pseudo_header6_def h [symmetric] l [symmetric] by (simp add: le_sum_append htons_num)
qed

lemma pseudo_base_spec:
  assumes "pchain_inv (map snd p)" "unat start = n"
    and "n + le_sum (packet p) + (256 * unat proto + unat (lwip_htons proto_len)) = le_sum data"
  shows "inet_cksum_pseudo_base p proto proto_len (FOLD_U32T (FOLD_U32T start)) = internet_checksum data"
proof -
  obtain acc swapped where l: "chain_loop p (FOLD_U32T (FOLD_U32T start)) False = (acc, swapped)" "unat acc \<le> 65535"
    and r: "rep (turned swapped (unat acc)) (unat (FOLD_U32T (FOLD_U32T start)) + le_sum (packet p))"
    using chain_loop_spec [where swapped = False, OF assms(1) fold_fold(2) [of start]] by (auto simp: turned_def)
  have "rep (turned swapped (unat acc)) (n + le_sum (packet p))"
    using rep_trans [OF r rep_add [OF fold_fold(1) rep_refl]] assms(2) by simp
  note u = unswapped [OF this l(2)]
  show ?thesis unfolding inet_cksum_pseudo_base_def l(1) prod.case Let_def by (rule pseudo_end_spec [OF u assms(3)])
qed

lemma partial_base_spec:
  assumes "pchain_inv (map snd p)" "unat start = n" "unat chksum_len < 0x7fff"
    and "n + le_sum (take (unat chksum_len) (packet p)) + (256 * unat proto + unat (lwip_htons proto_len)) = le_sum data"
  shows "inet_cksum_pseudo_partial_base p proto proto_len chksum_len (FOLD_U32T (FOLD_U32T start)) = Some (internet_checksum data)"
proof -
  obtain acc swapped where l: "partial_loop p chksum_len (FOLD_U32T (FOLD_U32T start)) False = Some (acc, swapped)" "unat acc \<le> 65535"
    and r: "rep (turned swapped (unat acc)) (unat (FOLD_U32T (FOLD_U32T start)) + le_sum (take (unat chksum_len) (packet p)))"
    using partial_loop_spec [where swapped = False, OF assms(1) fold_fold(2) [of start] assms(3)] by (auto simp: turned_def)
  have "rep (turned swapped (unat acc)) (n + le_sum (take (unat chksum_len) (packet p)))"
    using rep_trans [OF r rep_add [OF fold_fold(1) rep_refl]] assms(2) by simp
  note u = unswapped [OF this l(2)]
  show ?thesis unfolding inet_cksum_pseudo_partial_base_def l(1) option.case prod.case by (simp only: pseudo_end_spec [OF u assms(4)])
qed

section \<open>Results\<close>

text \<open>
  C39. The versions of the checksum agree on all data that fits an IP packet, at every address, and so do the
  checksum of a packet cut into a chain of buffers, wherever they are cut, and that of its bytes.
\<close>

theorem lwip_standard_chksum_versions:
  assumes "length data \<le> 0xffff" "pchain_inv (map snd p)" "chain_bytes (map snd p) = data"
  shows "lwip_standard_chksum_1 data = lwip_standard_chksum_2 is_odd data
    \<and> lwip_standard_chksum_3 address data = lwip_standard_chksum_2 is_odd data
    \<and> inet_chksum_pbuf p = inet_chksum address data
    \<and> inet_chksum address data = NOT (lwip_standard_chksum_1 data)"
  using assms(3)
  by (simp add: chksum1_spec [OF assms(1)] chksum2_spec [OF assms(1)] chksum3_spec inet_chksum_pbuf_spec [OF assms(2)]
      inet_chksum_spec [OF assms(1)] internet_checksum_def packet_def)

text \<open>A buffer with given bytes.\<close>

definition buf :: "byte list \<Rightarrow> nat \<Rightarrow> pbuf" where
  "buf bytes behind = \<lparr>pb_payload = bytes, pb_tot_len = of_nat (length bytes + behind), pb_len = of_nat (length bytes)\<rparr>"

theorem lwip_standard_chksum_versions_witness:
  "inet_chksum_pbuf [(1, buf [0x45, 0x00, 0xff] 2), (4, buf [0xff, 0x03] 0)] = inet_chksum 7 [0x45, 0x00, 0xff, 0xff, 0x03]
    \<and> lwip_standard_chksum_3 7 [0x45, 0x00, 0xff, 0xff, 0x03] = 0x0048"
proof -
  have "length ([0x45, 0x00, 0xff, 0xff, 0x03] :: byte list) \<le> 0xffff" by simp
  moreover have "pchain_inv (map snd [(1, buf [0x45, 0x00, 0xff] 2), (4, buf [0xff, 0x03] 0)])"
    by (simp add: buf_def)
  moreover have "chain_bytes (map snd [(1, buf [0x45, 0x00, 0xff] 2), (4, buf [0xff, 0x03] 0)]) = [0x45, 0x00, 0xff, 0xff, 0x03]"
    by (simp add: buf_def)
  moreover have "lwip_standard_chksum_3 7 [0x45, 0x00, 0xff, 0xff, 0x03] = 0x0048" by code_simp
  ultimately show ?thesis using lwip_standard_chksum_versions by blast
qed

lemma unat_complement: "unat (NOT w) = 65535 - unat w" for w :: u16
proof -
  have "NOT w = - 1 - w" by (simp add: not_eq_complement)
  then have "unat (NOT w) = unat (- 1 :: u16) - unat w" by (simp add: unat_sub)
  then show ?thesis by (simp add: unsigned_minus_1_eq_mask mask_eq_exp_minus_1)
qed

text \<open>
  A packet that carries its own checksum sums to zero at the receiver, whatever the addresses it is read from.
\<close>

theorem inet_chksum_verifies:
  assumes "even (length pre)" "length pre + 2 + length post \<le> 0xffff"
    and "c = inet_chksum address (pre @ [0, 0] @ post)"
  shows "inet_chksum address' (pre @ [ucast c, ucast (drop_bit 8 c)] @ post) = 0"
proof -
  let ?s = "le_sum pre + le_sum post"
  define l h :: u8 where l: "l = ucast c" and h: "h = ucast (drop_bit 8 c)"
  have "c = internet_checksum (pre @ [0, 0] @ post)" using assms(2,3) inet_chksum_spec by simp
  then have c: "c = NOT (of_nat (canon ?s))" using assms(1) by (simp add: internet_checksum_def le_sum_append)
  have s: "canon ?s \<le> 65535" by (simp add: canon_def Suc_le_eq)
  have "unat c = 65535 - canon ?s" using s
    by (simp add: c unat_complement unsigned_of_nat take_bit_nat_eq_self)
  moreover have "unat l + 256 * unat h = unat c"
    unfolding l h unat_high_byte [of c] unat_low_byte [of c] using mult_div_mod_eq [of 256 "unat c"] by simp
  ultimately have "le_sum (pre @ [l, h] @ post) = ?s + (65535 - canon ?s)" using assms(1) by (simp add: le_sum_append)
  moreover have "rep (canon ?s + (65535 - canon ?s)) (?s + (65535 - canon ?s))"
    by (intro rep_add canon_rep rep_refl)
  ultimately have "rep 65535 (le_sum (pre @ [l, h] @ post))" using s by simp
  then have "65535 = canon (le_sum (pre @ [l, h] @ post))" by (rule rep_canon) simp
  then have "internet_checksum (pre @ [l, h] @ post) = NOT (of_nat 65535)" by (simp only: internet_checksum_def)
  also have "\<dots> = 0" by simp
  finally show ?thesis using assms(2) inet_chksum_spec by (simp add: l h)
qed

theorem inet_chksum_verifies_witness:
  "inet_chksum 3 ([0x45, 0x00] @ [ucast (0xfbb9 :: u16), ucast (drop_bit 8 (0xfbb9 :: u16))] @ [0x01, 0x04]) = 0"
  by (rule inet_chksum_verifies [where address = 2]) (simp, simp, code_simp)

text \<open>
  C40. The checksums with a pseudo header are those of the pseudo header followed by the packet (by its first
  \<open>chksum_len\<close> bytes in the partial version, whose assertion fails if more than 32766 bytes remain).
\<close>

theorem inet_chksum_pseudo_header:
  assumes "pchain_inv (map snd p)" "length src6 = length dest6" "length src6 = 4"
  shows "inet_chksum_pseudo p proto proto_len src dest = internet_checksum (pseudo_header src dest proto proto_len @ packet p)
    \<and> ip6_chksum_pseudo p proto proto_len src6 dest6 = internet_checksum (pseudo_header6 src6 dest6 proto proto_len @ packet p)
    \<and> (unat chksum_len < 0x7fff \<longrightarrow>
        inet_chksum_pseudo_partial p proto proto_len chksum_len src dest =
          Some (internet_checksum (pseudo_header src dest proto proto_len @ take (unat chksum_len) (packet p)))
      \<and> ip6_chksum_pseudo_partial p proto proto_len chksum_len src6 dest6 =
          Some (internet_checksum (pseudo_header6 src6 dest6 proto proto_len @ take (unat chksum_len) (packet p))))
    \<and> (p \<noteq> [] \<and> unat (pb_len (snd (hd p))) + 0x7fff \<le> unat chksum_len \<longrightarrow>
        inet_chksum_pseudo_partial p proto proto_len chksum_len src dest = None)"
proof -
  have four: "unat (add_address dest (add_address src 0)) = le_sum (octets src) + le_sum (octets dest)"
    using octets_sum_bound [of src] by (simp add: add_address_spec)
  have six: "unat (add_parts src6 dest6 0) = le_sum (concat (map octets src6)) + le_sum (concat (map octets dest6))"
    using assms(2,3) by (simp add: add_parts_spec)
  have "inet_chksum_pseudo_partial p proto proto_len chksum_len src dest = None"
    if long: "p \<noteq> []" "unat (pb_len (snd (hd p))) + 0x7fff \<le> unat chksum_len"
  proof -
    obtain a q qs where p: "p = (a, q) # qs" using long(1) by (cases p) auto
    then have "pb_len q < chksum_len" using long(2) by (simp add: word_less_nat_alt)
    then have "\<not> chksum_len < pb_len q" "chksum_len > 0" "\<not> chksum_len - pb_len q < 0x7fff"
      using long(2) p by (auto simp: word_less_nat_alt unat_sub word_le_nat_alt)
    then show ?thesis by (simp add: p inet_chksum_pseudo_partial_def inet_cksum_pseudo_partial_base_def Let_def)
  qed
  then show ?thesis
    by (auto simp: inet_chksum_pseudo_def ip6_chksum_pseudo_def inet_chksum_pseudo_partial_def ip6_chksum_pseudo_partial_def
        header_sum header6_sum intro!: pseudo_base_spec [OF assms(1) four] pseudo_base_spec [OF assms(1) six]
        partial_base_spec [OF assms(1) four] partial_base_spec [OF assms(1) six])
qed

theorem inet_chksum_pseudo_header_witness:
  "inet_chksum_pseudo [(0, buf [0x12, 0x34, 0x56] 1), (6, buf [0x78] 0)] 6 4 0x0100007f 0x0200007f = 0x4599
    \<and> internet_checksum (pseudo_header 0x0100007f 0x0200007f 6 4 @ [0x12, 0x34, 0x56, 0x78]) = 0x4599"
proof -
  have "pchain_inv (map snd [(0 :: nat, buf [0x12, 0x34, 0x56] 1), (6, buf [0x78] 0)])" by (simp add: buf_def)
  from inet_chksum_pseudo_header [OF this, of "[0, 0, 0, 1]" "[0, 0, 0, 2]" 6 4 "0x0100007f" "0x0200007f"]
  have "inet_chksum_pseudo [(0, buf [0x12, 0x34, 0x56] 1), (6, buf [0x78] 0)] 6 4 0x0100007f 0x0200007f =
    internet_checksum (pseudo_header 0x0100007f 0x0200007f 6 4 @ [0x12, 0x34, 0x56, 0x78])" by (simp add: buf_def)
  moreover have "inet_chksum_pseudo [(0, buf [0x12, 0x34, 0x56] 1), (6, buf [0x78] 0)] 6 4 0x0100007f 0x0200007f = 0x4599" by code_simp
  ultimately show ?thesis by simp
qed

end
