(* ===== verification/Timeouts.thy ===== *)
theory Timeouts
  imports Prelude "HOL-Library.Multiset"
begin

text \<open>
  The timers of lwIP (\<open>lwip/src/core/timeouts.c\<close>), which the main loop of the stack process runs in every round
  (\<open>lwip/custom/init.c\<close>). The linked list of timeouts is a list; \<open>pool\<close> counts the free elements of the memory
  pool they come from. Times are 32 bit milliseconds that wrap. Handlers are named by their function: the TCP
  timer, the cyclic timers of the table, and functions of others. A failed assertion is \<open>None\<close>.
\<close>

section \<open>Model\<close>

definition LWIP_MAX_TIMEOUT :: u32 where "LWIP_MAX_TIMEOUT = 0x7fffffff"

definition TIME_LESS_THAN :: "u32 \<Rightarrow> u32 \<Rightarrow> bool" where
  "TIME_LESS_THAN t compare_to \<longleftrightarrow> t - compare_to > LWIP_MAX_TIMEOUT"

datatype timeout_handler = Tcpip_Tcp_Timer | Lwip_Cyclic_Timer | User_Handler nat

record sys_timeo =
  to_time :: u32
  to_h :: "timeout_handler option"
  to_arg :: nat

record 'w timers =
  next_timeout :: "sys_timeo list"
  current_timeout_due_time :: u32
  tcpip_tcp_timer_active :: bool
  pool :: nat
  world :: 'w

text \<open>What the file takes from elsewhere: the clock, the tables and the handlers it calls.\<close>

record 'w timer_env =
  env_now :: "'w \<Rightarrow> u32 \<times> 'w"
  env_tcp_tmr :: "'w timers \<Rightarrow> 'w timers option"
  env_tcp_pcbs :: "'w \<Rightarrow> bool"
  env_cyclic :: "(u32 \<times> ('w timers \<Rightarrow> 'w timers option)) list"
  env_free_ooseq :: "'w timers \<Rightarrow> 'w timers"
  env_user :: "nat \<Rightarrow> nat \<Rightarrow> 'w timers \<Rightarrow> 'w timers option"

text \<open>Set in \<open>lwipopts.h\<close>; the 250 ms of \<open>tcp_priv.h\<close> are the default of a build that does not.\<close>

definition TCP_TMR_INTERVAL :: u32 where "TCP_TMR_INTERVAL = 1"

definition sys_now :: "'w timer_env \<Rightarrow> 'w timers \<Rightarrow> u32 \<times> 'w timers" where
  "sys_now env st = (case env_now env (world st) of (t, w) \<Rightarrow> (t, st\<lparr>world := w\<rparr>))"

fun insert_after :: "sys_timeo \<Rightarrow> sys_timeo list \<Rightarrow> sys_timeo list" where
  "insert_after timeout [] = []"
| "insert_after timeout [t] = [t, timeout]"
| "insert_after timeout (t # t' # ts) =
     (if TIME_LESS_THAN (to_time timeout) (to_time t') then t # timeout # t' # ts
      else t # insert_after timeout (t' # ts))"

definition insert_timeout :: "sys_timeo \<Rightarrow> sys_timeo list \<Rightarrow> sys_timeo list" where
  "insert_timeout timeout ts =
     (case ts of
        [] \<Rightarrow> [timeout]
      | t # _ \<Rightarrow> if TIME_LESS_THAN (to_time timeout) (to_time t) then timeout # ts else insert_after timeout ts)"

definition sys_timeout_abs :: "u32 \<Rightarrow> timeout_handler option \<Rightarrow> nat \<Rightarrow> 'w timers \<Rightarrow> 'w timers option" where
  "sys_timeout_abs abs_time handler arg st =
     (if pool st = 0 then None
      else Some (st\<lparr>pool := pool st - 1,
        next_timeout := insert_timeout \<lparr>to_time = abs_time, to_h = handler, to_arg = arg\<rparr> (next_timeout st)\<rparr>))"

definition sys_timeout :: "'w timer_env \<Rightarrow> u32 \<Rightarrow> timeout_handler option \<Rightarrow> nat \<Rightarrow> 'w timers \<Rightarrow> 'w timers option" where
  "sys_timeout env msecs handler arg st =
     (if msecs \<le> 0xffffffff div 4
      then (case sys_now env st of (now, st1) \<Rightarrow> sys_timeout_abs (now + msecs) handler arg st1)
      else None)"

definition tcpip_tcp_timer :: "'w timer_env \<Rightarrow> 'w timers \<Rightarrow> 'w timers option" where
  "tcpip_tcp_timer env st =
     Option.bind (env_tcp_tmr env st) (\<lambda>st1.
       if env_tcp_pcbs env (world st1) then sys_timeout env TCP_TMR_INTERVAL (Some Tcpip_Tcp_Timer) 0 st1
       else Some (st1\<lparr>tcpip_tcp_timer_active := False\<rparr>))"

definition tcp_timer_needed :: "'w timer_env \<Rightarrow> 'w timers \<Rightarrow> 'w timers option" where
  "tcp_timer_needed env st =
     (if \<not> tcpip_tcp_timer_active st \<and> env_tcp_pcbs env (world st)
      then sys_timeout env TCP_TMR_INTERVAL (Some Tcpip_Tcp_Timer) 0 (st\<lparr>tcpip_tcp_timer_active := True\<rparr>)
      else Some st)"

text \<open>The argument of a cyclic timer points into the table.\<close>

definition lwip_cyclic_timer :: "'w timer_env \<Rightarrow> nat \<Rightarrow> 'w timers \<Rightarrow> 'w timers option" where
  "lwip_cyclic_timer env i st =
     (case env_cyclic env ! i of (interval_ms, handler) \<Rightarrow>
        Option.bind (handler st) (\<lambda>st1.
          (case sys_now env st1 of (now, st2) \<Rightarrow>
            (let next_timeout_time = current_timeout_due_time st2 + interval_ms
             in if TIME_LESS_THAN next_timeout_time now
                then sys_timeout_abs (now + interval_ms) (Some Lwip_Cyclic_Timer) i st2
                else sys_timeout_abs next_timeout_time (Some Lwip_Cyclic_Timer) i st2))))"

definition run_handler :: "'w timer_env \<Rightarrow> timeout_handler \<Rightarrow> nat \<Rightarrow> 'w timers \<Rightarrow> 'w timers option" where
  "run_handler env h arg st =
     (case h of Tcpip_Tcp_Timer \<Rightarrow> tcpip_tcp_timer env st | Lwip_Cyclic_Timer \<Rightarrow> lwip_cyclic_timer env arg st
      | User_Handler n \<Rightarrow> env_user env n arg st)"

text \<open>The TCP timer, entry 0 of the table, is started on demand.\<close>

fun init_loop :: "'w timer_env \<Rightarrow> nat \<Rightarrow> (u32 \<times> ('w timers \<Rightarrow> 'w timers option)) list \<Rightarrow> 'w timers \<Rightarrow> 'w timers option" where
  "init_loop env i [] st = Some st"
| "init_loop env i ((interval_ms, handler) # cs) st =
     Option.bind (sys_timeout env interval_ms (Some Lwip_Cyclic_Timer) i st) (init_loop env (Suc i) cs)"

definition sys_timeouts_init :: "'w timer_env \<Rightarrow> 'w timers \<Rightarrow> 'w timers option" where
  "sys_timeouts_init env st = init_loop env 1 (tl (env_cyclic env)) st"

fun remove_timeout :: "timeout_handler option \<Rightarrow> nat \<Rightarrow> sys_timeo list \<Rightarrow> bool \<times> sys_timeo list" where
  "remove_timeout handler arg [] = (False, [])"
| "remove_timeout handler arg (t # ts) =
     (if to_h t = handler \<and> to_arg t = arg then (True, ts)
      else (case remove_timeout handler arg ts of (found, ts') \<Rightarrow> (found, t # ts')))"

definition sys_untimeout :: "timeout_handler option \<Rightarrow> nat \<Rightarrow> 'w timers \<Rightarrow> 'w timers" where
  "sys_untimeout handler arg st =
     (case remove_timeout handler arg (next_timeout st) of (found, ts) \<Rightarrow>
        st\<lparr>next_timeout := ts, pool := (if found then pool st + 1 else pool st)\<rparr>)"

partial_function (option) check_loop :: "'w timer_env \<Rightarrow> u32 \<Rightarrow> 'w timers \<Rightarrow> 'w timers option" where
  "check_loop env now st =
     (let st0 = env_free_ooseq env st
      in case next_timeout st0 of
           [] \<Rightarrow> Some st0
         | t # ts \<Rightarrow>
             if TIME_LESS_THAN now (to_time t) then Some st0
             else (let st1 = st0\<lparr>next_timeout := ts, current_timeout_due_time := to_time t, pool := pool st0 + 1\<rparr>
                   in Option.bind (case to_h t of None \<Rightarrow> Some st1 | Some h \<Rightarrow> run_handler env h (to_arg t) st1)
                        (\<lambda>st2. check_loop env now st2)))"

definition sys_check_timeouts :: "'w timer_env \<Rightarrow> 'w timers \<Rightarrow> 'w timers option" where
  "sys_check_timeouts env st = (case sys_now env st of (now, st1) \<Rightarrow> check_loop env now st1)"

definition sys_restart_timeouts :: "'w timer_env \<Rightarrow> 'w timers \<Rightarrow> 'w timers" where
  "sys_restart_timeouts env st =
     (case next_timeout st of
        [] \<Rightarrow> st
      | t # _ \<Rightarrow>
          (case sys_now env st of (now, st1) \<Rightarrow>
            (let base = to_time t
             in st1\<lparr>next_timeout := map (\<lambda>t. t\<lparr>to_time := (to_time t - base) + now\<rparr>) (next_timeout st1)\<rparr>)))"

definition SYS_TIMEOUTS_SLEEPTIME_INFINITE :: u32 where "SYS_TIMEOUTS_SLEEPTIME_INFINITE = 0xFFFFFFFF"

definition sys_timeouts_sleeptime :: "'w timer_env \<Rightarrow> 'w timers \<Rightarrow> (u32 \<times> 'w timers) option" where
  "sys_timeouts_sleeptime env st =
     (case next_timeout st of
        [] \<Rightarrow> Some (SYS_TIMEOUTS_SLEEPTIME_INFINITE, st)
      | t # _ \<Rightarrow>
          (case sys_now env st of (now, st1) \<Rightarrow>
            if TIME_LESS_THAN (to_time t) now then Some (0, st1)
            else (let ret = to_time t - now in if ret \<le> LWIP_MAX_TIMEOUT then Some (ret, st1) else None)))"

section \<open>Times around a point in time\<close>

text \<open>The signed distance of a time from \<open>b\<close>; times within 2^30 of \<open>b\<close> compare like their distances.\<close>

definition rel :: "u32 \<Rightarrow> u32 \<Rightarrow> int" where "rel b t = sint (t - b)"

definition near :: "u32 \<Rightarrow> u32 \<Rightarrow> bool" where "near b t \<longleftrightarrow> \<bar>rel b t\<bar> < 2 ^ 30"

lemma sint_shift: "sint (w :: u32) = (uint w + 2 ^ 31) mod 2 ^ 32 - 2 ^ 31"
  by (simp add: sint_uint signed_take_bit_eq_take_bit_shift take_bit_eq_mod)

lemma mod_eq_minus: "2147483648 \<le> u \<Longrightarrow> u < 4294967296 \<Longrightarrow> (u + 2147483648) mod 4294967296 = u - (2147483648 :: int)"
  using mod_add_self2 [of "u - 2147483648" 4294967296] by (simp add: add.commute)

lemma sint_of_int_u32: "- (2 ^ 31) \<le> i \<Longrightarrow> i < 2 ^ 31 \<Longrightarrow> sint (of_int i :: u32) = i"
  by (simp add: sint_shift unsigned_of_int take_bit_eq_mod mod_add_left_eq)

lemma uint_of_int_u32: "0 \<le> i \<Longrightarrow> i < 2 ^ 32 \<Longrightarrow> uint (of_int i :: u32) = i"
  by (simp add: unsigned_of_int take_bit_eq_mod)

lemma time_less_sint: "TIME_LESS_THAN s t \<longleftrightarrow> sint (s - t) < 0"
proof -
  have "0x7fffffff < s - t \<longleftrightarrow> 2 ^ 31 \<le> uint (s - t)" by (simp add: word_less_def) linarith
  moreover have "0 \<le> uint (s - t)" "uint (s - t) < 2 ^ 32" using uint_lt2p [of "s - t"] by simp_all
  moreover have "(uint (s - t) + 2 ^ 31) mod 2 ^ 32
      = (if uint (s - t) < 2 ^ 31 then uint (s - t) + 2 ^ 31 else uint (s - t) - 2 ^ 31)"
    using calculation(2,3) by (cases "uint (s - t) < 2 ^ 31") (simp_all add: mod_pos_pos_trivial mod_eq_minus)
  ultimately show ?thesis by (auto simp: TIME_LESS_THAN_def LWIP_MAX_TIMEOUT_def sint_shift)
qed

lemma time_less_rel:
  assumes "near b s" "near b t"
  shows "TIME_LESS_THAN s t \<longleftrightarrow> rel b s < rel b t"
proof -
  have "s - t = of_int (rel b s - rel b t)" by (simp add: rel_def)
  moreover have "sint (of_int (rel b s - rel b t) :: u32) = rel b s - rel b t"
    using assms by (intro sint_of_int_u32) (auto simp: near_def abs_less_iff)
  ultimately show ?thesis by (simp add: time_less_sint)
qed

section \<open>Order of the list\<close>

lemma insert_after_eq:
  "ts \<noteq> [] \<Longrightarrow> \<not> TIME_LESS_THAN (to_time x) (to_time (hd ts)) \<Longrightarrow>
   insert_after x ts = takeWhile (\<lambda>t. \<not> TIME_LESS_THAN (to_time x) (to_time t)) ts
     @ x # dropWhile (\<lambda>t. \<not> TIME_LESS_THAN (to_time x) (to_time t)) ts"
  by (induction x ts rule: insert_after.induct) auto

lemma insert_timeout_eq:
  "insert_timeout x ts = takeWhile (\<lambda>t. \<not> TIME_LESS_THAN (to_time x) (to_time t)) ts
     @ x # dropWhile (\<lambda>t. \<not> TIME_LESS_THAN (to_time x) (to_time t)) ts"
  using insert_after_eq [of ts x] by (cases ts) (auto simp: insert_timeout_def)

definition ordered_from :: "u32 \<Rightarrow> sys_timeo list \<Rightarrow> bool" where
  "ordered_from b ts \<longleftrightarrow> (\<forall>t \<in> set ts. near b (to_time t)) \<and> sorted (map (\<lambda>t. rel b (to_time t)) ts)"

lemma insert_timeout_insort:
  assumes "ordered_from b ts" "near b (to_time x)"
  shows "insert_timeout x ts = takeWhile (\<lambda>t. rel b (to_time t) \<le> rel b (to_time x)) ts
     @ x # dropWhile (\<lambda>t. rel b (to_time t) \<le> rel b (to_time x)) ts"
proof -
  have c: "\<not> TIME_LESS_THAN (to_time x) (to_time t) \<longleftrightarrow> rel b (to_time t) \<le> rel b (to_time x)" if "t \<in> set ts" for t
    using assms that by (auto simp: ordered_from_def time_less_rel)
  show ?thesis unfolding insert_timeout_eq
    by (intro arg_cong2 [where f = append] arg_cong2 [where f = Cons] takeWhile_cong dropWhile_cong) (auto simp: c)
qed

lemma ordered_from_insert:
  assumes "ordered_from b ts" "near b (to_time x)"
  shows "ordered_from b (insert_timeout x ts)"
proof -
  let ?P = "\<lambda>t. rel b (to_time t) \<le> rel b (to_time x)"
  have s: "sorted (map (\<lambda>t. rel b (to_time t)) ts)" and n: "\<forall>t \<in> set ts. near b (to_time t)"
    using assms by (simp_all add: ordered_from_def)
  have "sorted (map (\<lambda>t. rel b (to_time t)) (takeWhile ?P us @ x # dropWhile ?P us))"
    if "sorted (map (\<lambda>t. rel b (to_time t)) us)" for us
    using that
  proof (induction us)
    case (Cons t us)
    then show ?case by (cases "?P t") (auto dest: set_takeWhileD set_dropWhileD)
  qed simp
  from this [OF s] n assms(2) show ?thesis
    by (auto simp: ordered_from_def insert_timeout_insort [OF assms] dest: set_takeWhileD set_dropWhileD)
qed

lemma rel_add:
  assumes "- (2 ^ 31) \<le> rel b t" "rel b t + uint m < 2 ^ 31"
  shows "rel b (t + m) = rel b t + uint m"
proof -
  have "t + m - b = of_int (rel b t + uint m)" by (simp add: rel_def)
  then show ?thesis using assms unfolding rel_def [of b "t + m"]
    by (metis sint_of_int_u32 add_increasing2 unsigned_greater_eq)
qed

section \<open>Serving the timers that are due\<close>

text \<open>
  During a call the clock reads times from \<open>now\<close> on, less than 2^29 ms after \<open>b\<close>; the functions called by the
  handlers leave the timers alone. \<open>W\<close> are the worlds of the call.
\<close>

definition leaves_timers :: "('w \<Rightarrow> bool) \<Rightarrow> ('w timers \<Rightarrow> 'w timers option) \<Rightarrow> bool" where
  "leaves_timers W f \<longleftrightarrow> (\<forall>st. W (world st) \<longrightarrow> (\<exists>w. f st = Some (st\<lparr>world := w\<rparr>) \<and> W w))"

definition env_ok :: "('w \<Rightarrow> bool) \<Rightarrow> u32 \<Rightarrow> u32 \<Rightarrow> 'w timer_env \<Rightarrow> bool" where
  "env_ok W b now env \<longleftrightarrow>
     (\<forall>w. W w \<longrightarrow> rel b now \<le> rel b (fst (env_now env w)) \<and> rel b (fst (env_now env w)) \<le> 2 ^ 29
            \<and> W (snd (env_now env w))) \<and>
     leaves_timers W (env_tcp_tmr env) \<and> leaves_timers W (Some \<circ> env_free_ooseq env) \<and>
     (\<forall>n arg. leaves_timers W (env_user env n arg)) \<and>
     (\<forall>(interval_ms, handler) \<in> set (env_cyclic env). 0 < interval_ms \<and> interval_ms \<le> 2 ^ 28 \<and> leaves_timers W handler)"

definition timer_ok :: "u32 \<Rightarrow> 'w timer_env \<Rightarrow> sys_timeo \<Rightarrow> bool" where
  "timer_ok b env t \<longleftrightarrow> - (2 ^ 29) \<le> rel b (to_time t) \<and> rel b (to_time t) < 2 ^ 30 \<and>
     (to_h t = Some Lwip_Cyclic_Timer \<longrightarrow> to_arg t < length (env_cyclic env))"

abbreviation is_tcp :: "sys_timeo \<Rightarrow> bool" where "is_tcp t \<equiv> to_h t = Some Tcpip_Tcp_Timer"

definition cyclic_timers :: "'w timers \<Rightarrow> nat multiset" where
  "cyclic_timers st = image_mset to_arg (filter_mset (\<lambda>t. to_h t = Some Lwip_Cyclic_Timer) (mset (next_timeout st)))"

definition timers_ok :: "u32 \<Rightarrow> 'w timer_env \<Rightarrow> 'w timers \<Rightarrow> bool" where
  "timers_ok b env st \<longleftrightarrow> ordered_from b (next_timeout st) \<and> (\<forall>t \<in> set (next_timeout st). timer_ok b env t) \<and>
     size (filter_mset is_tcp (mset (next_timeout st))) = of_bool (tcpip_tcp_timer_active st)"

lemma mset_insert_timeout [simp]: "mset (insert_timeout x ts) = add_mset x (mset ts)"
  by (metis insert_timeout_eq mset.simps(2) mset_append takeWhile_dropWhile_id union_mset_add_mset_right)

lemma timer_ok_near: "timer_ok b env t \<Longrightarrow> near b (to_time t)"
  by (auto simp: timer_ok_def near_def)

definition lateness :: "u32 \<Rightarrow> u32 \<Rightarrow> sys_timeo \<Rightarrow> nat" where
  "lateness b now t = nat (rel b now + 1 - rel b (to_time t))"

definition late :: "u32 \<Rightarrow> u32 \<Rightarrow> 'w timers \<Rightarrow> nat" where
  "late b now st = \<Sum>\<^sub># (image_mset (lateness b now) (mset (next_timeout st)))"

lemma timers_ok_insert:
  assumes "timers_ok b env st" "timer_ok b env x" "next_timeout st' = insert_timeout x (next_timeout st)"
    "\<not> is_tcp x" "tcpip_tcp_timer_active st' = tcpip_tcp_timer_active st"
  shows "timers_ok b env st'"
  using assms ordered_from_insert [of b "next_timeout st" x] timer_ok_near [of b env x]
  by (auto simp: timers_ok_def simp flip: set_mset_mset)

lemma lateness_less:
  assumes "rel b (to_time t) \<le> rel b now" "rel b (to_time t) < rel b (to_time x)" 
  shows "lateness b now x < lateness b now t"
  using assms by (auto simp: lateness_def)

text \<open>Times set by the handlers: \<open>interval\<close> after a reading of the clock, or after the due time.\<close>

lemma rel_after:
  assumes "- (2 ^ 29) \<le> rel b s" "rel b s \<le> 2 ^ 29" "interval \<le> 2 ^ 28"
  shows "rel b (s + interval) = rel b s + uint interval" "uint interval \<le> 2 ^ 28"
proof -
  show "uint interval \<le> 2 ^ 28" using assms(3) by (simp add: word_le_def)
  then show "rel b (s + interval) = rel b s + uint interval" using assms by (intro rel_add) simp_all
qed

lemma timer_ok_after:
  assumes "- (2 ^ 29) \<le> rel b s" "rel b s \<le> 2 ^ 29" "interval \<le> 2 ^ 28"
    "h = Some Lwip_Cyclic_Timer \<longrightarrow> i < length (env_cyclic env)"
  shows "timer_ok b env \<lparr>to_time = s + interval, to_h = h, to_arg = i\<rparr>"
  using assms rel_after [OF assms(1-3)] add_increasing2 [OF unsigned_greater_eq [of interval]]
  by (auto simp: timer_ok_def)

text \<open>
  The state a handler leaves, compared with the one it was called in: time has passed, and either no timer was
  added, or the one it serves again, at a later time; only a cyclic timer can be set to the very time \<open>now\<close>.
\<close>

inductive rearmed :: "('w \<Rightarrow> bool) \<Rightarrow> u32 \<Rightarrow> u32 \<Rightarrow> 'w timer_env \<Rightarrow> sys_timeo \<Rightarrow> 'w timers \<Rightarrow> 'w timers \<Rightarrow> bool"
  for W b now env t st where
  stopped: "W w \<Longrightarrow> to_h t \<noteq> Some Lwip_Cyclic_Timer \<Longrightarrow> a = (tcpip_tcp_timer_active st \<and> \<not> is_tcp t) \<Longrightarrow>
    rearmed W b now env t st (st\<lparr>world := w, tcpip_tcp_timer_active := a\<rparr>)"
| again: "W w \<Longrightarrow> to_h x = to_h t \<Longrightarrow> is_tcp t \<or> to_arg x = to_arg t \<Longrightarrow> timer_ok b env x \<Longrightarrow>
    rel b (to_time t) < rel b (to_time x) \<Longrightarrow> rel b now \<le> rel b (to_time x) \<Longrightarrow>
    to_h x = Some Lwip_Cyclic_Timer \<or> is_tcp x \<and> rel b now < rel b (to_time x) \<Longrightarrow>
    rearmed W b now env t st (st\<lparr>world := w, pool := pool st - 1, next_timeout := insert_timeout x (next_timeout st)\<rparr>)"

lemma sys_now_env:
  assumes "env_ok W b now env" "W (world st)"
  obtains t w where "sys_now env st = (t, st\<lparr>world := w\<rparr>)" "W w" "rel b now \<le> rel b t" "rel b t \<le> 2 ^ 29"
  using assms by (cases "env_now env (world st)") (auto simp: env_ok_def sys_now_def)

lemma tcpip_tcp_timer_rearmed:
  assumes env: "env_ok W b now env" and "W (world st)" "0 < pool st" "- (2 ^ 29) \<le> rel b now"
    "is_tcp t" "rel b (to_time t) \<le> rel b now"
  shows "\<exists>st'. tcpip_tcp_timer env st = Some st' \<and> rearmed W b now env t st st'"
proof -
  obtain w1 where w1: "env_tcp_tmr env st = Some (st\<lparr>world := w1\<rparr>)" "W w1"
    using assms by (auto simp: env_ok_def leaves_timers_def)
  show ?thesis
  proof (cases "env_tcp_pcbs env w1")
    case True
    obtain n w2 where n: "sys_now env (st\<lparr>world := w1\<rparr>) = (n, st\<lparr>world := w2\<rparr>)" "W w2" "rel b now \<le> rel b n"
        "rel b n \<le> 2 ^ 29"
      using w1 by (auto intro: sys_now_env [OF env, of "st\<lparr>world := w1\<rparr>"])
    let ?x = "\<lparr>to_time = n + TCP_TMR_INTERVAL, to_h = Some Tcpip_Tcp_Timer, to_arg = 0\<rparr>"
    have i: "TCP_TMR_INTERVAL \<le> 2 ^ 28" "0 < uint TCP_TMR_INTERVAL" by (simp_all add: TCP_TMR_INTERVAL_def)
    have x: "timer_ok b env ?x" "rel b (to_time ?x) = rel b n + uint TCP_TMR_INTERVAL"
      using timer_ok_after [of b n TCP_TMR_INTERVAL "Some Tcpip_Tcp_Timer"] rel_after(1) [of b n TCP_TMR_INTERVAL] n i assms
      by auto
    have "tcpip_tcp_timer env st = Some (st\<lparr>world := w2, pool := pool st - 1, next_timeout := insert_timeout ?x (next_timeout st)\<rparr>)"
      using True w1 n assms by (simp add: tcpip_tcp_timer_def sys_timeout_def sys_timeout_abs_def TCP_TMR_INTERVAL_def)
    moreover have "rearmed W b now env t st (st\<lparr>world := w2, pool := pool st - 1, next_timeout := insert_timeout ?x (next_timeout st)\<rparr>)"
      using x i n assms by (intro again) simp_all
    ultimately show ?thesis by blast
  next
    case False
    then have "tcpip_tcp_timer env st = Some (st\<lparr>world := w1, tcpip_tcp_timer_active := False\<rparr>)"
      using w1 by (simp add: tcpip_tcp_timer_def)
    then show ?thesis using w1 assms stopped [of W w1 t False st b now env] by auto
  qed
qed

lemma lwip_cyclic_timer_rearmed:
  assumes env: "env_ok W b now env" and "W (world st)" "0 < pool st" "- (2 ^ 29) \<le> rel b now"
    "to_h t = Some Lwip_Cyclic_Timer" "timer_ok b env t" "rel b (to_time t) \<le> rel b now"
    "current_timeout_due_time st = to_time t"
  shows "\<exists>st'. lwip_cyclic_timer env (to_arg t) st = Some st' \<and> rearmed W b now env t st st'"
proof -
  obtain interval handler where c: "env_cyclic env ! to_arg t = (interval, handler)" "to_arg t < length (env_cyclic env)"
    using assms by (cases "env_cyclic env ! to_arg t") (auto simp: timer_ok_def)
  then have "(interval, handler) \<in> set (env_cyclic env)" by (metis nth_mem)
  then have h: "0 < interval" "interval \<le> 2 ^ 28" "leaves_timers W handler"
    using env by (auto simp: env_ok_def)
  then obtain w1 where w1: "handler st = Some (st\<lparr>world := w1\<rparr>)" "W w1"
    using assms by (auto simp: leaves_timers_def)
  obtain n w2 where n: "sys_now env (st\<lparr>world := w1\<rparr>) = (n, st\<lparr>world := w2\<rparr>)" "W w2" "rel b now \<le> rel b n"
      "rel b n \<le> 2 ^ 29"
    using w1 by (auto intro: sys_now_env [OF env, of "st\<lparr>world := w1\<rparr>"])
  define s where "s = (if TIME_LESS_THAN (to_time t + interval) n then n else to_time t)"
  let ?x = "\<lparr>to_time = s + interval, to_h = Some Lwip_Cyclic_Timer, to_arg = to_arg t\<rparr>"
  have i: "0 < uint interval" using h by (simp add: word_less_def)
  have s: "- (2 ^ 29) \<le> rel b s" "rel b s \<le> 2 ^ 29" "rel b (to_time t) \<le> rel b s"
    using assms n by (auto simp: s_def timer_ok_def)
  then have x: "timer_ok b env ?x" "rel b (to_time ?x) = rel b s + uint interval"
    using timer_ok_after [of b s interval "Some Lwip_Cyclic_Timer" "to_arg t"] rel_after(1) [of b s interval] h c by auto
  have "near b (to_time t + interval)" "near b n"
    using timer_ok_after [of b "to_time t" interval None] assms(4,6,7) n h by (auto simp: near_def timer_ok_def)
  then have "rel b n \<le> rel b (to_time t + interval)" if "s = to_time t" "s \<noteq> n"
    using that by (auto simp: s_def time_less_rel split: if_splits)
  then have y: "rel b now \<le> rel b (to_time ?x)"
    using x(2) n i rel_after(1) [of b s interval] s h by (cases "s = n") (auto simp: s_def split: if_splits)
  have "lwip_cyclic_timer env (to_arg t) st
      = Some (st\<lparr>world := w2, pool := pool st - 1, next_timeout := insert_timeout ?x (next_timeout st)\<rparr>)"
    using c w1 n assms by (simp add: lwip_cyclic_timer_def sys_timeout_abs_def s_def Let_def)
  moreover have "rearmed W b now env t st (st\<lparr>world := w2, pool := pool st - 1, next_timeout := insert_timeout ?x (next_timeout st)\<rparr>)"
    using x y i s n assms by (intro again) simp_all
  ultimately show ?thesis by blast
qed

lemma handler_rearmed:
  assumes env: "env_ok W b now env" and "W (world st)" "0 < pool st" "- (2 ^ 29) \<le> rel b now"
    "timer_ok b env t" "rel b (to_time t) \<le> rel b now" "current_timeout_due_time st = to_time t"
  shows "\<exists>st'. (case to_h t of None \<Rightarrow> Some st | Some h \<Rightarrow> run_handler env h (to_arg t) st) = Some st' \<and>
    rearmed W b now env t st st'"
proof (cases "to_h t")
  case None
  then show ?thesis using assms stopped [of W "world st" t "tcpip_tcp_timer_active st" st b now env] by auto
next
  case (Some h)
  show ?thesis
  proof (cases h)
    case Tcpip_Tcp_Timer
    then show ?thesis using Some tcpip_tcp_timer_rearmed [OF env] assms by (simp add: run_handler_def)
  next
    case Lwip_Cyclic_Timer
    then show ?thesis using Some lwip_cyclic_timer_rearmed [OF env] assms by (simp add: run_handler_def)
  next
    case (User_Handler n)
    have "leaves_timers W (env_user env n (to_arg t))" using env by (simp add: env_ok_def)
    then obtain w where "env_user env n (to_arg t) st = Some (st\<lparr>world := w\<rparr>)" "W w"
      using assms by (auto simp: leaves_timers_def)
    then show ?thesis using Some User_Handler stopped [of W w t "tcpip_tcp_timer_active st" st b now env]
      by (auto simp: run_handler_def)
  qed
qed

text \<open>What a round of the loop keeps, and what it brings nearer.\<close>

definition progress :: "u32 \<Rightarrow> u32 \<Rightarrow> 'w timer_env \<Rightarrow> 'w timers \<Rightarrow> 'w timers \<Rightarrow> bool" where
  "progress b now env st st' \<longleftrightarrow> timers_ok b env st' \<and> cyclic_timers st' = cyclic_timers st \<and>
     pool st' + length (next_timeout st') = pool st + length (next_timeout st)"

lemma length_insert_timeout [simp]: "length (insert_timeout x ts) = Suc (length ts)"
  by (metis mset_insert_timeout size_add_mset size_mset)

lemma round_progress:
  assumes "timers_ok b env st" "next_timeout st = t # ts" "rel b (to_time t) \<le> rel b now"
    "rearmed W b now env t (st\<lparr>world := w, next_timeout := ts, current_timeout_due_time := to_time t, pool := pool st + 1\<rparr>) st'"
  shows "W (world st')" "progress b now env st st'" "late b now st' < late b now st"
proof -
  have o: "ordered_from b ts" "\<forall>t \<in> set ts. timer_ok b env t" "0 < lateness b now t"
    using assms(1-3) by (auto simp: timers_ok_def ordered_from_def lateness_def)
  have tcp: "size (filter_mset is_tcp (mset ts)) + of_bool (is_tcp t) = of_bool (tcpip_tcp_timer_active st)"
    using assms(1,2) by (cases "tcpip_tcp_timer_active st") (auto simp: timers_ok_def split: if_splits)
  have "W (world st') \<and> progress b now env st st' \<and> late b now st' < late b now st"
    using assms(4)
  proof (cases rule: rearmed.cases)
    case (again w x)
    have x: "ordered_from b (insert_timeout x ts)" "set (insert_timeout x ts) = insert x (set ts)" "lateness b now x < lateness b now t"
      using again o assms by (auto simp: ordered_from_insert timer_ok_near lateness_less simp flip: set_mset_mset)
    then have "progress b now env st st'" using again o tcp assms(2)
      by (auto simp: progress_def timers_ok_def cyclic_timers_def split: if_splits)
    then show ?thesis using again x assms(2) by (simp add: late_def)
  next
    case (stopped w a)
    have "size (filter_mset is_tcp (mset ts)) = of_bool a"
      using tcp stopped by (cases "tcpip_tcp_timer_active st") (auto split: if_splits)
    then have "progress b now env st st'" using stopped o assms(2)
      by (simp add: progress_def timers_ok_def cyclic_timers_def)
    then show ?thesis using stopped o assms(2) by (simp add: late_def)
  qed
  then show "W (world st')" "progress b now env st st'" "late b now st' < late b now st" by simp_all
qed

text \<open>
  The calls of handlers. \<open>log\<close> reads off the world which of them were called, in order: every handler adds itself,
  and the clock and the freeing of out-of-sequence data add nothing.
\<close>

datatype timer_call = Called_Tcp | Called_Cyclic nat | Called_User nat nat

definition calls :: "sys_timeo \<Rightarrow> timer_call list" where
  "calls t = (case to_h t of
     None \<Rightarrow> []
   | Some Tcpip_Tcp_Timer \<Rightarrow> [Called_Tcp]
   | Some Lwip_Cyclic_Timer \<Rightarrow> [Called_Cyclic (to_arg t)]
   | Some (User_Handler n) \<Rightarrow> [Called_User n (to_arg t)])"

definition records :: "('w \<Rightarrow> timer_call list) \<Rightarrow> ('w \<Rightarrow> bool) \<Rightarrow> ('w timers \<Rightarrow> 'w timers option) \<Rightarrow> timer_call list \<Rightarrow> bool" where
  "records log W f cs \<longleftrightarrow> (\<forall>st st'. W (world st) \<longrightarrow> f st = Some st' \<longrightarrow> log (world st') = log (world st) @ cs)"

definition env_logs :: "('w \<Rightarrow> timer_call list) \<Rightarrow> ('w \<Rightarrow> bool) \<Rightarrow> 'w timer_env \<Rightarrow> bool" where
  "env_logs log W env \<longleftrightarrow>
     (\<forall>w. W w \<longrightarrow> log (snd (env_now env w)) = log w) \<and> records log W (Some \<circ> env_free_ooseq env) [] \<and>
     records log W (env_tcp_tmr env) [Called_Tcp] \<and>
     (\<forall>i < length (env_cyclic env). records log W (snd (env_cyclic env ! i)) [Called_Cyclic i]) \<and>
     (\<forall>n arg. records log W (env_user env n arg) [Called_User n arg])"

lemma sys_timeout_world:
  "sys_timeout_abs s h arg st = Some st' \<Longrightarrow> world st' = world st"
  "sys_timeout env msecs h arg st = Some st' \<Longrightarrow> world st' = snd (env_now env (world st))"
  by (auto simp: sys_timeout_def sys_timeout_abs_def sys_now_def split: if_splits prod.splits)

lemma tcpip_tcp_timer_logged:
  assumes "env_ok W b now env" "env_logs log W env" "W (world st)" "tcpip_tcp_timer env st = Some st'"
  shows "log (world st') = log (world st) @ [Called_Tcp]"
proof -
  obtain w where w: "env_tcp_tmr env st = Some (st\<lparr>world := w\<rparr>)" "W w"
    using assms by (auto simp: env_ok_def leaves_timers_def)
  moreover have "log w = log (world st) @ [Called_Tcp]"
    using assms(2,3) w(1) by (auto simp: env_logs_def records_def)
  ultimately show ?thesis using assms
    by (auto simp: tcpip_tcp_timer_def env_logs_def dest: sys_timeout_world split: if_splits)
qed

lemma lwip_cyclic_timer_logged:
  assumes "env_ok W b now env" "env_logs log W env" "W (world st)" "i < length (env_cyclic env)"
    "lwip_cyclic_timer env i st = Some st'"
  shows "log (world st') = log (world st) @ [Called_Cyclic i]"
proof -
  obtain interval handler where c: "env_cyclic env ! i = (interval, handler)" by fastforce
  then have "(interval, handler) \<in> set (env_cyclic env)" using assms(4) by (metis nth_mem)
  then have "leaves_timers W handler" using assms(1) by (auto simp: env_ok_def)
  then obtain w where w: "handler st = Some (st\<lparr>world := w\<rparr>)" "W w"
    using assms(3) by (auto simp: leaves_timers_def)
  have "records log W (snd (env_cyclic env ! i)) [Called_Cyclic i]" using assms(2,4) unfolding env_logs_def by blast
  then have "log w = log (world st) @ [Called_Cyclic i]"
    using assms(3) w(1) by (auto simp: records_def c)
  moreover have "log (world st') = log (snd (env_now env w))"
    using assms(5) w c by (auto simp: lwip_cyclic_timer_def sys_now_def Let_def dest: sys_timeout_world split: if_splits prod.splits)
  ultimately show ?thesis using assms(2) w by (simp add: env_logs_def)
qed

lemma handler_logged:
  assumes "env_ok W b now env" "env_logs log W env" "W (world st)" "timer_ok b env t"
    "(case to_h t of None \<Rightarrow> Some st | Some h \<Rightarrow> run_handler env h (to_arg t) st) = Some st'"
  shows "log (world st') = log (world st) @ calls t"
proof (cases "to_h t")
  case (Some h)
  show ?thesis
  proof (cases h)
    case (User_Handler n)
    have "records log W (env_user env n (to_arg t)) [Called_User n (to_arg t)]" using assms(2) by (simp add: env_logs_def)
    then show ?thesis using Some User_Handler assms(3,5) by (auto simp: records_def run_handler_def calls_def)
  qed (use Some assms in \<open>auto simp: run_handler_def calls_def timer_ok_def
      intro: tcpip_tcp_timer_logged lwip_cyclic_timer_logged\<close>)
qed (use assms in \<open>simp add: calls_def\<close>)

text \<open>What the loop serves: what is due, and cyclic timers that were set to the very time \<open>now\<close>.\<close>

abbreviation due :: "u32 \<Rightarrow> u32 \<Rightarrow> sys_timeo \<Rightarrow> bool" where
  "due b now t \<equiv> rel b (to_time t) \<le> rel b now"

definition serves :: "('w \<Rightarrow> timer_call list) \<Rightarrow> u32 \<Rightarrow> u32 \<Rightarrow> 'w timers \<Rightarrow> 'w timers \<Rightarrow> sys_timeo list \<Rightarrow> sys_timeo list \<Rightarrow> bool" where
  "serves log b now st st' served again \<longleftrightarrow>
     sorted (map (\<lambda>t. rel b (to_time t)) served) \<and>
     mset served = mset (filter (due b now) (next_timeout st)) + mset again \<and>
     (\<forall>t \<in> set again. to_h t = Some Lwip_Cyclic_Timer \<and> rel b (to_time t) = rel b now) \<and>
     log (world st') = log (world st) @ concat (map calls served) \<and>
     mset (filter (\<lambda>t. \<not> due b now t) (next_timeout st)) \<subseteq># mset (next_timeout st')"

lemma round_serves:
  assumes "rearmed W b now env t (st\<lparr>world := w, next_timeout := ts, current_timeout_due_time := d, pool := n\<rparr>) st1"
    "next_timeout st = t # ts" "due b now t" "\<forall>u \<in> set ts. rel b (to_time t) \<le> rel b (to_time u)"
    "log (world st1) = log (world st) @ calls t" "serves log b now st1 st' served again"
  shows "\<exists>again'. serves log b now st st' (t # served) again'"
proof -
  obtain xs where xs: "mset (next_timeout st1) = mset ts + mset xs" "\<forall>x \<in> set xs. rel b now \<le> rel b (to_time x)"
      "\<forall>x \<in> set xs. due b now x \<longrightarrow> to_h x = Some Lwip_Cyclic_Timer"
    using assms(1)
  proof (cases rule: rearmed.cases)
    case (stopped w a)
    then show ?thesis using that [of "[]"] by simp
  next
    case (again w x)
    then show ?thesis using that [of "[x]"] by auto
  qed
  have split: "mset (filter P (next_timeout st1)) = mset (filter P ts) + mset (filter P xs)" for P
    using xs(1) by (metis mset_append mset_filter filter_append)
  have m: "mset served = mset (filter (due b now) ts) + mset (filter (due b now) xs @ again)"
    using assms(6) split [of "due b now"] by (simp add: serves_def)
  have n: "\<forall>x \<in> set (filter (due b now) xs @ again). to_h x = Some Lwip_Cyclic_Timer \<and> rel b (to_time x) = rel b now"
    using assms(6) xs(2,3) by (auto simp: serves_def)
  have first: "\<forall>u \<in> set served. rel b (to_time t) \<le> rel b (to_time u)"
  proof
    fix u assume "u \<in> set served"
    then have "u \<in># mset served" by simp
    then have "u \<in> set (filter (due b now) ts) \<or> u \<in> set (filter (due b now) xs @ again)"
      by (simp only: m union_iff set_mset_mset)
    then show "rel b (to_time t) \<le> rel b (to_time u)"
    proof
      assume "u \<in> set (filter (due b now) ts)"
      then show ?thesis using assms(4) by simp
    next
      assume "u \<in> set (filter (due b now) xs @ again)"
      then show ?thesis using bspec [OF n] assms(3) by metis
    qed
  qed
  have rest: "mset (filter (\<lambda>t. \<not> due b now t) ts) \<subseteq># mset (next_timeout st')"
  proof (rule subset_mset.order_trans)
    show "mset (filter (\<lambda>t. \<not> due b now t) ts) \<subseteq># mset (filter (\<lambda>t. \<not> due b now t) (next_timeout st1))"
      unfolding split by (rule mset_subset_eq_add_left)
    show "mset (filter (\<lambda>t. \<not> due b now t) (next_timeout st1)) \<subseteq># mset (next_timeout st')"
      using assms(6) by (simp add: serves_def)
  qed
  have "serves log b now st st' (t # served) (filter (due b now) xs @ again)"
    unfolding serves_def
  proof (intro conjI)
    show "sorted (map (\<lambda>t. rel b (to_time t)) (t # served))" using first assms(6) by (auto simp: serves_def)
    show "mset (t # served) = mset (filter (due b now) (next_timeout st)) + mset (filter (due b now) xs @ again)"
      using assms(2,3) by (simp add: m del: mset_append)
    show "log (world st') = log (world st) @ concat (map calls (t # served))"
      using assms(5,6) by (simp add: serves_def)
    show "mset (filter (\<lambda>t. \<not> due b now t) (next_timeout st)) \<subseteq># mset (next_timeout st')"
      using rest assms(2,3) by simp
  qed (rule n)
  then show ?thesis ..
qed

lemma check_loop_returns:
  assumes env: "env_ok W b now env" "env_logs log W env" and "- (2 ^ 29) \<le> rel b now" "rel b now \<le> 2 ^ 29"
    "W (world st)" "timers_ok b env st"
  shows "\<exists>st' served again. check_loop env now st = Some st' \<and> W (world st') \<and> progress b now env st st' \<and>
    (\<forall>t \<in> set (next_timeout st'). rel b now < rel b (to_time t)) \<and> serves log b now st st' served again"
  using assms(5,6)
proof (induction "late b now st" arbitrary: st rule: less_induct)
  case less
  obtain w where w: "env_free_ooseq env st = st\<lparr>world := w\<rparr>" "W w"
    using env less by (auto simp: env_ok_def leaves_timers_def)
  have lw: "log w = log (world st)"
    using env(2) less.prems(1) w(1) by (auto simp: env_logs_def records_def)
  have n: "near b now" using assms by (simp add: near_def)
  show ?case
  proof (cases "next_timeout st = [] \<or> rel b now < rel b (to_time (hd (next_timeout st)))")
    case True
    have later: "\<forall>t \<in> set (next_timeout st). rel b now < rel b (to_time t)"
      using True less.prems(2) by (cases "next_timeout st") (auto simp: timers_ok_def ordered_from_def)
    then have "filter (due b now) (next_timeout st) = []" "filter (\<lambda>t. \<not> due b now t) (next_timeout st) = next_timeout st"
      by (auto simp: filter_empty_conv filter_id_conv)
    then have "serves log b now st (st\<lparr>world := w\<rparr>) [] []" using lw by (simp add: serves_def)
    moreover have "check_loop env now st = Some (st\<lparr>world := w\<rparr>)"
      using True w(1) n less.prems(2)
      by (subst check_loop.simps; cases "next_timeout st") (auto simp: timers_ok_def time_less_rel timer_ok_near)
    moreover have "progress b now env st (st\<lparr>world := w\<rparr>)"
      using less.prems(2) by (simp add: progress_def timers_ok_def cyclic_timers_def)
    ultimately show ?thesis using w(2) later by (intro exI conjI) simp_all
  next
    case False
    then obtain t ts where Cons: "next_timeout st = t # ts" "due b now t" by (cases "next_timeout st") auto
    have t: "timer_ok b env t" "\<forall>u \<in> set ts. rel b (to_time t) \<le> rel b (to_time u)"
      using less Cons by (auto simp: timers_ok_def ordered_from_def)
    have c: "\<not> TIME_LESS_THAN now (to_time t)" using Cons(2) t n by (simp add: time_less_rel timer_ok_near)
    define st1 where "st1 = st\<lparr>world := w, next_timeout := ts, current_timeout_due_time := to_time t, pool := pool st + 1\<rparr>"
    obtain st2 where st2: "(case to_h t of None \<Rightarrow> Some st1 | Some h \<Rightarrow> run_handler env h (to_arg t) st1) = Some st2"
        "rearmed W b now env t st1 st2"
      using handler_rearmed [OF env(1), of st1 t] w t Cons assms by (auto simp: st1_def)
    note p = round_progress [OF less.prems(2) Cons st2(2) [unfolded st1_def]]
    have "timers_ok b env st2" using p(2) by (simp add: progress_def)
    from less.hyps [OF p(3,1) this] obtain st' served again where ih: "check_loop env now st2 = Some st'" "W (world st')"
        "progress b now env st2 st'" "\<forall>t \<in> set (next_timeout st'). rel b now < rel b (to_time t)"
        "serves log b now st2 st' served again" by blast
    have "log (world st2) = log (world st) @ calls t"
      using handler_logged [OF env _ t(1) st2(1)] w lw by (simp add: st1_def)
    from round_serves [OF st2(2) [unfolded st1_def] Cons t(2) this ih(5)]
    obtain again' where "serves log b now st st' (t # served) again'" by blast
    moreover have "check_loop env now st = Some st'"
      using w Cons c st2 ih(1) by (subst check_loop.simps) (cases "to_h t"; simp add: Let_def st1_def)
    moreover have "progress b now env st st'" using p(2) ih(3) by (simp add: progress_def)
    ultimately show ?thesis using ih(2,4) by blast
  qed
qed

section \<open>The operations on the list\<close>

lemma sys_timeout_abs_ok:
  assumes "timers_ok b env st" "timer_ok b env \<lparr>to_time = s, to_h = h, to_arg = arg\<rparr>" "0 < pool st" "h \<noteq> Some Tcpip_Tcp_Timer"
  obtains st' where "sys_timeout_abs s h arg st = Some st'" "timers_ok b env st'" "pool st' = pool st - 1"
    "cyclic_timers st' = (if h = Some Lwip_Cyclic_Timer then add_mset arg (cyclic_timers st) else cyclic_timers st)"
    "next_timeout st' = insert_timeout \<lparr>to_time = s, to_h = h, to_arg = arg\<rparr> (next_timeout st)" "world st' = world st"
proof
  let ?st' = "st\<lparr>pool := pool st - 1, next_timeout := insert_timeout \<lparr>to_time = s, to_h = h, to_arg = arg\<rparr> (next_timeout st)\<rparr>"
  show "sys_timeout_abs s h arg st = Some ?st'" using assms by (simp add: sys_timeout_abs_def)
  show "timers_ok b env ?st'" using assms by (intro timers_ok_insert [OF assms(1,2)]) simp_all
qed (simp_all add: cyclic_timers_def)

lemma sys_timeout_ok:
  assumes "timers_ok b env st" "- (2 ^ 29) \<le> rel b (fst (env_now env (world st)))" "rel b (fst (env_now env (world st))) \<le> 2 ^ 29"
    "msecs \<le> 2 ^ 28" "0 < pool st" "h \<noteq> Some Tcpip_Tcp_Timer" "h = Some Lwip_Cyclic_Timer \<longrightarrow> arg < length (env_cyclic env)"
  obtains st' where "sys_timeout env msecs h arg st = Some st'" "timers_ok b env st'" "pool st' = pool st - 1"
    "cyclic_timers st' = (if h = Some Lwip_Cyclic_Timer then add_mset arg (cyclic_timers st) else cyclic_timers st)"
    "next_timeout st' = insert_timeout \<lparr>to_time = fst (env_now env (world st)) + msecs, to_h = h, to_arg = arg\<rparr> (next_timeout st)"
    "world st' = snd (env_now env (world st))"
proof -
  obtain now w where n: "env_now env (world st) = (now, w)" by (cases "env_now env (world st)")
  have "msecs \<le> 0x3fffffff" using assms(4) by (rule order_trans) simp
  then have *: "sys_timeout env msecs h arg st = sys_timeout_abs (now + msecs) h arg (st\<lparr>world := w\<rparr>)"
    by (simp add: sys_timeout_def sys_now_def n)
  have "timers_ok b env (st\<lparr>world := w\<rparr>)" using assms(1) by (simp add: timers_ok_def)
  moreover have "timer_ok b env \<lparr>to_time = now + msecs, to_h = h, to_arg = arg\<rparr>"
    using assms n by (intro timer_ok_after) auto
  ultimately obtain st' where st': "sys_timeout_abs (now + msecs) h arg (st\<lparr>world := w\<rparr>) = Some st'" "timers_ok b env st'"
    "pool st' = pool st - 1"
    "cyclic_timers st' = (if h = Some Lwip_Cyclic_Timer then add_mset arg (cyclic_timers (st\<lparr>world := w\<rparr>)) else cyclic_timers (st\<lparr>world := w\<rparr>))"
    "next_timeout st' = insert_timeout \<lparr>to_time = now + msecs, to_h = h, to_arg = arg\<rparr> (next_timeout st)" "world st' = w"
    using assms by (auto elim!: sys_timeout_abs_ok [of b env "st\<lparr>world := w\<rparr>" "now + msecs" h arg])
  show thesis using that [of st'] st' by (simp add: * n cyclic_timers_def)
qed

lemma remove_timeout_mset:
  "remove_timeout h arg ts = (found, ts') \<Longrightarrow>
   if found then \<exists>t. mset ts = add_mset t (mset ts') \<and> to_h t = h \<and> to_arg t = arg
   else ts' = ts \<and> (\<forall>t \<in> set ts. to_h t \<noteq> h \<or> to_arg t \<noteq> arg)"
  by (induction ts arbitrary: found ts') (auto split: if_splits prod.splits)

lemma remove_timeout_subseq: "set (snd (remove_timeout h arg ts)) \<subseteq> set ts"
  "sorted (map f ts) \<Longrightarrow> sorted (map f (snd (remove_timeout h arg ts)))"
proof -
  show s: "set (snd (remove_timeout h arg ts)) \<subseteq> set ts" for ts by (induction ts) (auto split: prod.splits)
  show "sorted (map f ts) \<Longrightarrow> sorted (map f (snd (remove_timeout h arg ts)))"
    by (induction ts) (use s in \<open>force split: prod.splits\<close>)+
qed

lemma sys_untimeout_ok:
  assumes "timers_ok b env st" "h \<noteq> Some Tcpip_Tcp_Timer"
  shows "timers_ok b env (sys_untimeout h arg st)"
    "pool (sys_untimeout h arg st) + length (next_timeout (sys_untimeout h arg st)) = pool st + length (next_timeout st)"
proof -
  obtain found ts where r: "remove_timeout h arg (next_timeout st) = (found, ts)"
    by (cases "remove_timeout h arg (next_timeout st)")
  note m = remove_timeout_mset [OF r]
  have "ordered_from b ts" "\<forall>t \<in> set ts. timer_ok b env t"
    using assms remove_timeout_subseq [where h = h and arg = arg and ts = "next_timeout st"] r by (auto simp: timers_ok_def ordered_from_def)
  moreover have "filter_mset is_tcp (mset ts) = filter_mset is_tcp (mset (next_timeout st)) \<and>
      length (next_timeout st) = length ts + of_bool found"
  proof (cases found)
    case True
    then obtain t where "mset (next_timeout st) = add_mset t (mset ts)" "to_h t = h" using m by auto
    then show ?thesis using True assms(2) by (simp flip: size_mset)
  qed (use m in simp)
  note rest = this
  ultimately show "timers_ok b env (sys_untimeout h arg st)"
    using assms(1) by (simp add: timers_ok_def sys_untimeout_def r)
  show "pool (sys_untimeout h arg st) + length (next_timeout (sys_untimeout h arg st)) = pool st + length (next_timeout st)"
    using rest by (simp add: sys_untimeout_def r)
qed

section \<open>Properties\<close>

text \<open>
  C38. \<open>sys_check_timeouts\<close> returns, whatever is due, and calls the handler of every timer that was due when it was
  called, in order of expiry, once per timer and nothing else, but for a cyclic timer that falls due again at that
  very time; \<open>log\<close> is what the handlers record of their calls. No due timer is left, the others stay set and in
  order of expiry across a wrap of the clock, no cyclic timer is lost, the TCP timer is set exactly while it is
  marked active, and every element taken from the pool is in the list. The handlers' own functions are taken to
  leave the timers alone.
\<close>
theorem sys_check_timeouts_serves_due:
  assumes "now = fst (env_now env (world st))" "env_ok W b now env" "env_logs log W env" "- (2 ^ 29) \<le> rel b now"
    "W (world st)" "timers_ok b env st"
  shows "\<exists>st' served again. sys_check_timeouts env st = Some st' \<and>
    sorted (map (\<lambda>t. rel b (to_time t)) served) \<and>
    mset served = mset (filter (due b now) (next_timeout st)) + mset again \<and>
    (\<forall>t \<in> set again. to_h t = Some Lwip_Cyclic_Timer \<and> rel b (to_time t) = rel b now) \<and>
    log (world st') = log (world st) @ concat (map calls served) \<and>
    mset (filter (\<lambda>t. \<not> due b now t) (next_timeout st)) \<subseteq># mset (next_timeout st') \<and>
    (\<forall>t \<in> set (next_timeout st'). rel b now < rel b (to_time t)) \<and>
    timers_ok b env st' \<and> cyclic_timers st' = cyclic_timers st \<and>
    pool st' + length (next_timeout st') = pool st + length (next_timeout st)"
proof -
  obtain w where n: "env_now env (world st) = (now, w)" using assms(1) by (cases "env_now env (world st)") simp
  have w: "W w" "rel b now \<le> 2 ^ 29" "log w = log (world st)"
    using assms n by (auto simp: env_ok_def env_logs_def dest: spec [where x = "world st"])
  have "timers_ok b env (st\<lparr>world := w\<rparr>)" using assms(6) by (simp add: timers_ok_def)
  then have "\<exists>st' served again. check_loop env now (st\<lparr>world := w\<rparr>) = Some st' \<and> W (world st') \<and>
      progress b now env (st\<lparr>world := w\<rparr>) st' \<and> (\<forall>t \<in> set (next_timeout st'). rel b now < rel b (to_time t)) \<and>
      serves log b now (st\<lparr>world := w\<rparr>) st' served again"
    using assms w by (intro check_loop_returns) simp_all
  then show ?thesis using n w(3)
    by (auto simp: sys_check_timeouts_def sys_now_def progress_def cyclic_timers_def serves_def)
qed

text \<open>
  Two cyclic timers and the TCP timer around a wrap of the clock, which stands at 10; the world is the list of the
  calls. The cyclic timer of 12 ms that was due at \<open>- 2\<close> falls due again at 10.
\<close>

definition note_call :: "timer_call \<Rightarrow> timer_call list timers \<Rightarrow> timer_call list timers option" where
  "note_call c st = Some (st\<lparr>world := world st @ [c]\<rparr>)"

definition sample_env :: "timer_call list timer_env" where
  "sample_env = \<lparr>env_now = Pair 10, env_tcp_tmr = note_call Called_Tcp, env_tcp_pcbs = \<lambda>w. True,
     env_cyclic = [(1, note_call (Called_Cyclic 0)), (100, note_call (Called_Cyclic 1)), (12, note_call (Called_Cyclic 2))],
     env_free_ooseq = id, env_user = \<lambda>n arg. note_call (Called_User n arg)\<rparr>"

definition sample_timers :: "timer_call list timers" where
  "sample_timers = \<lparr>next_timeout = [\<lparr>to_time = - 5, to_h = Some Tcpip_Tcp_Timer, to_arg = 0\<rparr>,
       \<lparr>to_time = - 2, to_h = Some Lwip_Cyclic_Timer, to_arg = 2\<rparr>, \<lparr>to_time = 70, to_h = Some Lwip_Cyclic_Timer, to_arg = 1\<rparr>],
     current_timeout_due_time = 0, tcpip_tcp_timer_active = True, pool = 14, world = []\<rparr>"

lemma sample_env_ok: "env_ok (\<lambda>w. True) 0 10 sample_env"
proof -
  have "\<exists>w. st = st\<lparr>world := w\<rparr>" for st :: "timer_call list timers" by (rule exI [of _ "world st"]) simp
  then show ?thesis by (auto simp: env_ok_def sample_env_def leaves_timers_def note_call_def rel_def sint_shift)
qed

lemma sample_env_logs: "env_logs id (\<lambda>w. True) sample_env"
  by (auto simp: env_logs_def sample_env_def records_def note_call_def less_Suc_eq numeral_3_eq_3)

lemma sample_timers_ok: "timers_ok 0 sample_env sample_timers"
  by (simp add: timers_ok_def sample_timers_def ordered_from_def near_def rel_def timer_ok_def sint_shift sample_env_def)

theorem sys_check_timeouts_serves_due_witness:
  "\<exists>st' served again. sys_check_timeouts sample_env sample_timers = Some st' \<and> timers_ok 0 sample_env st' \<and>
    world st' = concat (map calls served) \<and>
    mset served = {#\<lparr>to_time = - 5, to_h = Some Tcpip_Tcp_Timer, to_arg = 0\<rparr>,
      \<lparr>to_time = - 2, to_h = Some Lwip_Cyclic_Timer, to_arg = 2\<rparr>#} + mset again \<and>
    (\<forall>t \<in> set (next_timeout st'). 10 < rel 0 (to_time t)) \<and> cyclic_timers st' = {#1, 2#} \<and>
    pool st' + length (next_timeout st') = 17"
proof -
  have "fst (env_now sample_env (world sample_timers)) = 10" "rel 0 10 = 10" "cyclic_timers sample_timers = {#1, 2#}"
    "pool sample_timers + length (next_timeout sample_timers) = 17" "world sample_timers = []"
    "filter (due 0 10) (next_timeout sample_timers) = [\<lparr>to_time = - 5, to_h = Some Tcpip_Tcp_Timer, to_arg = 0\<rparr>,
      \<lparr>to_time = - 2, to_h = Some Lwip_Cyclic_Timer, to_arg = 2\<rparr>]"
    by (simp_all add: sample_env_def sample_timers_def rel_def sint_shift cyclic_timers_def)
  then show ?thesis
    using sys_check_timeouts_serves_due [of 10 sample_env sample_timers "\<lambda>w. True" 0 id]
      sample_env_ok sample_env_logs sample_timers_ok by auto
qed

primrec polls :: "nat \<Rightarrow> 'w timer_env \<Rightarrow> 'w timers \<Rightarrow> 'w timers option" where
  "polls 0 env st = Some st"
| "polls (Suc n) env st = Option.bind (sys_check_timeouts env st) (polls n env)"

text \<open>The clock: the reading of each poll and the reading after the handler that it calls.\<close>

definition pop_reading :: "u32 list \<Rightarrow> u32 \<times> u32 list" where
  "pop_reading rs = (case rs of [] \<Rightarrow> (0, []) | r # rs \<Rightarrow> (r, rs))"

fun in_time :: "u32 \<Rightarrow> u32 \<Rightarrow> (u32 \<times> u32) list \<Rightarrow> bool" where
  "in_time interval d [] = True"
| "in_time interval d ((polled, handled) # rs) \<longleftrightarrow>
     polled - d < interval \<and> handled - d \<le> interval \<and> in_time interval (d + interval) rs"

lemma diff_range:
  assumes "0 \<le> x" "x \<le> y" "y < (2 :: int) ^ 31"
  shows "sint (of_int (x - y) :: u32) = x - y" "sint (of_int (y - x) :: u32) = y - x"
  by (rule sint_of_int_u32; use assms in simp)+

lemma in_time_less:
  assumes "interval \<le> 2 ^ 28"
  shows "polled - d < interval \<Longrightarrow> \<not> TIME_LESS_THAN polled d"
    "polled - d < interval \<Longrightarrow> TIME_LESS_THAN polled (d + interval)"
    "h - d \<le> interval \<Longrightarrow> \<not> TIME_LESS_THAN (d + interval) h"
proof -
  have i: "uint interval \<le> 2 ^ 28" using assms by (simp add: word_le_def)
  show "\<not> TIME_LESS_THAN polled d" if "polled - d < interval"
    using that i by (simp add: TIME_LESS_THAN_def LWIP_MAX_TIMEOUT_def word_less_def)
  { assume p: "polled - d < interval"
    have "polled - (d + interval) = of_int (uint (polled - d) - uint interval)" by simp
    moreover have "sint (of_int (uint (polled - d) - uint interval) :: u32) = uint (polled - d) - uint interval"
      using p i by (intro diff_range) (simp_all add: word_less_def)
    ultimately show "TIME_LESS_THAN polled (d + interval)" using p by (simp add: time_less_sint word_less_def diff_diff_eq) }
  { assume h: "h - d \<le> interval"
    have e: "d + interval - h = interval - (h - d)" by simp
    have "sint (interval - (h - d)) = uint interval - uint (h - d)"
      using diff_range(2) [of "uint (h - d)" "uint interval"] h i by (simp add: word_le_def)
    then show "\<not> TIME_LESS_THAN (d + interval) h" using h unfolding time_less_sint e by (simp add: word_le_def) }
qed

text \<open>
  A cyclic timer does not drift. However late within its interval each poll comes and however long its handler
  takes within the interval, after \<open>n\<close> polls it is due exactly \<open>n\<close> intervals after it first was.
\<close>
theorem lwip_cyclic_timer_keeps_phase:
  assumes "env_now env = pop_reading" "env_free_ooseq env = id" "env_cyclic env ! i = (interval, Some)" "interval \<le> 2 ^ 28"
    "next_timeout st = [\<lparr>to_time = d, to_h = Some Lwip_Cyclic_Timer, to_arg = i\<rparr>]"
    "world st = concat (map (\<lambda>(polled, handled). [polled, handled]) rs)" "in_time interval d rs"
  shows "\<exists>st'. polls (length rs) env st = Some st' \<and> pool st' = pool st \<and>
    next_timeout st' = [\<lparr>to_time = d + of_nat (length rs) * interval, to_h = Some Lwip_Cyclic_Timer, to_arg = i\<rparr>]"
  using assms(5-7)
proof (induction rs arbitrary: st d)
  case (Cons r rs)
  obtain p h where r: "r = (p, h)" by (cases r)
  note less = in_time_less [OF assms(4)]
  let ?st1 = "st\<lparr>next_timeout := [\<lparr>to_time = d + interval, to_h = Some Lwip_Cyclic_Timer, to_arg = i\<rparr>],
     current_timeout_due_time := d, world := concat (map (\<lambda>(polled, handled). [polled, handled]) rs)\<rparr>"
  have "sys_check_timeouts env st = Some ?st1"
    using Cons.prems assms(1-3) less r
    by (simp add: sys_check_timeouts_def sys_now_def pop_reading_def check_loop.simps run_handler_def
      lwip_cyclic_timer_def sys_timeout_abs_def insert_timeout_def Let_def)
  moreover have "in_time interval (d + interval) rs" using Cons.prems r by simp
  ultimately show ?case using Cons.IH [of ?st1 "d + interval"] by (simp add: algebra_simps)
qed simp

theorem lwip_cyclic_timer_keeps_phase_witness:
  "\<exists>st'. polls 2 (\<lparr>env_now = pop_reading, env_tcp_tmr = Some, env_tcp_pcbs = \<lambda>w. True,
     env_cyclic = [(250, Some), (100, Some)], env_free_ooseq = id, env_user = \<lambda>n arg. Some\<rparr>)
     \<lparr>next_timeout = [\<lparr>to_time = - 50, to_h = Some Lwip_Cyclic_Timer, to_arg = 1\<rparr>], current_timeout_due_time = 0,
      tcpip_tcp_timer_active = False, pool = 3, world = [20, 45, 51, 130]\<rparr> = Some st' \<and> pool st' = 3 \<and>
     next_timeout st' = [\<lparr>to_time = 150, to_h = Some Lwip_Cyclic_Timer, to_arg = 1\<rparr>]"
  using lwip_cyclic_timer_keeps_phase [where rs = "[(20, 45), (51, 130)]" and interval = 100 and d = "- 50" and i = 1
      and env = "\<lparr>env_now = pop_reading, env_tcp_tmr = Some, env_tcp_pcbs = \<lambda>w. True,
        env_cyclic = [(250, Some), (100, Some)], env_free_ooseq = id, env_user = \<lambda>n arg. Some\<rparr>"
      and st = "\<lparr>next_timeout = [\<lparr>to_time = - 50, to_h = Some Lwip_Cyclic_Timer, to_arg = 1\<rparr>], current_timeout_due_time = 0,
        tcpip_tcp_timer_active = False, pool = 3, world = [20, 45, 51, 130]\<rparr>"]
  by (simp add: numeral_2_eq_2 [symmetric])

lemma init_loop_ok:
  assumes "\<forall>(interval_ms, handler) \<in> set cs. interval_ms \<le> 2 ^ 28" "i + length cs \<le> length (env_cyclic env)"
    "\<forall>w. W w \<longrightarrow> - (2 ^ 29) \<le> rel b (fst (env_now env w)) \<and> rel b (fst (env_now env w)) \<le> 2 ^ 29 \<and> W (snd (env_now env w))"
    "W (world st)" "timers_ok b env st" "length cs \<le> pool st"
  shows "\<exists>st'. init_loop env i cs st = Some st' \<and> timers_ok b env st' \<and> pool st' + length cs = pool st \<and>
    cyclic_timers st' = cyclic_timers st + mset [i ..< i + length cs]"
  using assms
proof (induction env i cs st rule: init_loop.induct)
  case (2 env i interval handler cs st)
  obtain st1 where st1: "sys_timeout env interval (Some Lwip_Cyclic_Timer) i st = Some st1" "timers_ok b env st1"
      "pool st1 = pool st - 1" "cyclic_timers st1 = add_mset i (cyclic_timers st)" "world st1 = snd (env_now env (world st))"
    using "2.prems" by (auto elim!: sys_timeout_ok [of b env st interval "Some Lwip_Cyclic_Timer" i])
  have "\<exists>st'. init_loop env (Suc i) cs st1 = Some st' \<and> timers_ok b env st' \<and> pool st' + length cs = pool st1 \<and>
    cyclic_timers st' = cyclic_timers st1 + mset [Suc i ..< Suc i + length cs]"
    using "2.prems" st1 by (intro "2.IH") auto
  then show ?case using st1 "2.prems"(6) by (auto simp: upt_conv_Cons simp del: mset_upt upt_Suc)
qed simp

text \<open>
  After \<open>sys_timeouts_init\<close> the invariant of the timers holds: every cyclic timer of the table but that of TCP is
  set once, in order of expiry, and the TCP timer is neither set nor marked.
\<close>
theorem sys_timeouts_init_establishes:
  assumes "\<forall>(interval_ms, handler) \<in> set (env_cyclic env). interval_ms \<le> 2 ^ 28" "env_cyclic env \<noteq> []"
    "\<forall>w. W w \<longrightarrow> - (2 ^ 29) \<le> rel b (fst (env_now env w)) \<and> rel b (fst (env_now env w)) \<le> 2 ^ 29 \<and> W (snd (env_now env w))"
    "W (world st)" "next_timeout st = []" "\<not> tcpip_tcp_timer_active st" "length (env_cyclic env) \<le> pool st"
  shows "\<exists>st'. sys_timeouts_init env st = Some st' \<and> timers_ok b env st' \<and>
    cyclic_timers st' = mset [1 ..< length (env_cyclic env)] \<and> pool st' + length (env_cyclic env) = Suc (pool st)"
proof -
  obtain c cs where c: "env_cyclic env = c # cs" using assms(2) by (cases "env_cyclic env") auto
  have "\<exists>st'. init_loop env 1 cs st = Some st' \<and> timers_ok b env st' \<and> pool st' + length cs = pool st \<and>
      cyclic_timers st' = cyclic_timers st + mset [1 ..< 1 + length cs]"
    using assms c by (intro init_loop_ok [where W = W]) (auto simp: timers_ok_def ordered_from_def)
  then show ?thesis using assms(5) c by (auto simp: sys_timeouts_init_def cyclic_timers_def simp del: mset_upt upt_Suc)
qed

theorem sys_timeouts_init_establishes_witness:
  "\<exists>st'. sys_timeouts_init sample_env (sample_timers\<lparr>next_timeout := [], tcpip_tcp_timer_active := False\<rparr>) = Some st' \<and>
    timers_ok 0 sample_env st' \<and> cyclic_timers st' = {#1, Suc 1#} \<and> pool st' + 3 = 15"
proof -
  let ?st = "sample_timers\<lparr>next_timeout := [], tcpip_tcp_timer_active := False\<rparr>"
  have "length (env_cyclic sample_env) = 3" "\<forall>(interval_ms, handler) \<in> set (env_cyclic sample_env). interval_ms \<le> 2 ^ 28" "\<forall>w. fst (env_now sample_env w) = 10"
    "rel 0 10 = 10" "pool ?st = 14" "mset [1 ..< 3] = {#1, Suc 1#}"
    by (simp_all add: sample_env_def sample_timers_def rel_def sint_shift upt_rec)
  then show ?thesis using sys_timeouts_init_establishes [of sample_env "\<lambda>w. True" 0 ?st] by fastforce
qed

text \<open>
  A process that sleeps for \<open>sys_timeouts_sleeptime\<close> wakes when the first timer is due, not earlier and not
  later; it does not sleep when one is overdue.
\<close>
theorem sys_timeouts_sleeptime_exact:
  assumes "timers_ok b env st" "next_timeout st = t # ts" "- (2 ^ 29) \<le> rel b (fst (env_now env (world st)))"
    "rel b (fst (env_now env (world st))) \<le> 2 ^ 29"
  shows "\<exists>ret st'. sys_timeouts_sleeptime env st = Some (ret, st') \<and> next_timeout st' = next_timeout st \<and>
    (if rel b (to_time t) \<le> rel b (fst (env_now env (world st))) then ret = 0
     else \<forall>k \<le> ret. TIME_LESS_THAN (fst (env_now env (world st)) + k) (to_time t) \<longleftrightarrow> k < ret)"
proof -
  obtain now w where n: "env_now env (world st) = (now, w)" by (cases "env_now env (world st)")
  have t: "- (2 ^ 29) \<le> rel b (to_time t)" "rel b (to_time t) < 2 ^ 30" "near b now" "near b (to_time t)"
    using assms n by (auto simp: timers_ok_def timer_ok_def near_def)
  have c: "TIME_LESS_THAN (to_time t) now \<longleftrightarrow> rel b (to_time t) < rel b now" using t by (simp add: time_less_rel)
  have d: "to_time t - now = of_int (rel b (to_time t) - rel b now)" by (simp add: rel_def)
  show ?thesis
  proof (cases "rel b (to_time t) < rel b now")
    case True
    then show ?thesis using c n assms by (simp add: sys_timeouts_sleeptime_def sys_now_def)
  next
    case False
    have u: "uint (to_time t - now) = rel b (to_time t) - rel b now"
      unfolding d using False t assms n by (intro uint_of_int_u32) simp_all
    then have "to_time t - now \<le> LWIP_MAX_TIMEOUT"
      using False t assms n by (simp add: LWIP_MAX_TIMEOUT_def word_le_def)
    then have "sys_timeouts_sleeptime env st = Some (to_time t - now, st\<lparr>world := w\<rparr>)"
      using c n False assms by (simp add: sys_timeouts_sleeptime_def sys_now_def)
    moreover have "TIME_LESS_THAN (now + k) (to_time t) \<longleftrightarrow> k < to_time t - now" if "k \<le> to_time t - now" for k
    proof -
      have e: "now + k - to_time t = k - (to_time t - now)" by (simp add: algebra_simps)
      have "uint (to_time t - now) < 2 ^ 31" using u t assms n by simp
      then have "sint (k - (to_time t - now)) = uint k - uint (to_time t - now)"
        using diff_range(1) [of "uint k" "uint (to_time t - now)"] that by (simp add: word_le_def)
      then show ?thesis unfolding time_less_sint e by (simp add: word_less_def)
    qed
    ultimately show ?thesis using n False u by (auto simp: unsigned_eq_0_iff)
  qed
qed

theorem sys_timeouts_sleeptime_exact_witness:
  "\<exists>ret st'. sys_timeouts_sleeptime (sample_env\<lparr>env_now := Pair (- 8)\<rparr>) sample_timers = Some (ret, st') \<and>
    next_timeout st' = next_timeout sample_timers \<and> (\<forall>k \<le> ret. TIME_LESS_THAN (- 8 + k) (- 5) \<longleftrightarrow> k < ret)"
proof -
  let ?env = "sample_env\<lparr>env_now := Pair (- 8)\<rparr>"
  have ok: "timers_ok 0 ?env sample_timers" using sample_timers_ok by (simp add: timers_ok_def timer_ok_def)
  have st: "next_timeout sample_timers = \<lparr>to_time = - 5, to_h = Some Tcpip_Tcp_Timer, to_arg = 0\<rparr> # tl (next_timeout sample_timers)"
    by (simp add: sample_timers_def)
  have now: "fst (env_now ?env (world sample_timers)) = - 8" "rel 0 (- 8) = - 8" "rel 0 (- 5) = - 5"
    by (simp_all add: rel_def sint_shift)
  have bounds: "- (2 ^ 29) \<le> rel 0 (fst (env_now ?env (world sample_timers)))"
    "rel 0 (fst (env_now ?env (world sample_timers))) \<le> 2 ^ 29" unfolding now by simp_all
  from sys_timeouts_sleeptime_exact [OF ok st bounds] show ?thesis unfolding now by (simp add: now)
qed

text \<open>After \<open>sys_restart_timeouts\<close> the first timer is due at once and the distances between the timers are as before.\<close>

lemma sys_restart_timeouts_distances:
  assumes "next_timeout st \<noteq> []" "i < length (next_timeout st)" "j < length (next_timeout st)"
    "st' = sys_restart_timeouts env st"
  shows "to_time (next_timeout st' ! 0) = fst (env_now env (world st))"
    "to_time (next_timeout st' ! i) - to_time (next_timeout st' ! j) = to_time (next_timeout st ! i) - to_time (next_timeout st ! j)"
  using assms by (auto simp: sys_restart_timeouts_def sys_now_def neq_Nil_conv nth_Cons split: prod.splits nat.splits)

text \<open>\<open>tcp_timer_needed\<close> keeps the TCP timer set exactly while it is marked.\<close>

lemma tcp_timer_needed_ok:
  assumes "env_ok W b now env" "W (world st)" "- (2 ^ 29) \<le> rel b now" "timers_ok b env st" "0 < pool st"
  shows "\<exists>st'. tcp_timer_needed env st = Some st' \<and> timers_ok b env st' \<and>
    (env_tcp_pcbs env (world st) \<longrightarrow> tcpip_tcp_timer_active st')"
proof (cases "\<not> tcpip_tcp_timer_active st \<and> env_tcp_pcbs env (world st)")
  case True
  obtain n w where n: "sys_now env (st\<lparr>tcpip_tcp_timer_active := True\<rparr>) = (n, st\<lparr>tcpip_tcp_timer_active := True, world := w\<rparr>)"
      "rel b now \<le> rel b n" "rel b n \<le> 2 ^ 29"
    using assms by (auto intro: sys_now_env [OF assms(1), of "st\<lparr>tcpip_tcp_timer_active := True\<rparr>"])
  let ?x = "\<lparr>to_time = n + TCP_TMR_INTERVAL, to_h = Some Tcpip_Tcp_Timer, to_arg = 0\<rparr>"
  have x: "timer_ok b env ?x" using n assms by (intro timer_ok_after) (auto simp: TCP_TMR_INTERVAL_def)
  have "tcp_timer_needed env st = Some (st\<lparr>tcpip_tcp_timer_active := True, world := w, pool := pool st - 1,
      next_timeout := insert_timeout ?x (next_timeout st)\<rparr>)"
    using True n assms by (simp add: tcp_timer_needed_def sys_timeout_def sys_timeout_abs_def TCP_TMR_INTERVAL_def)
  moreover have "ordered_from b (insert_timeout ?x (next_timeout st))"
    using assms x by (intro ordered_from_insert) (auto simp: timers_ok_def dest: timer_ok_near)
  then have "timers_ok b env (st\<lparr>tcpip_tcp_timer_active := True, world := w, pool := pool st - 1,
      next_timeout := insert_timeout ?x (next_timeout st)\<rparr>)"
    using assms(4) True x by (auto simp: timers_ok_def simp flip: set_mset_mset)
  ultimately show ?thesis by auto
qed (use assms in \<open>auto simp: tcp_timer_needed_def\<close>)

end
