(* ===== verification/Spec2Isabelle.thy ===== *)
theory Spec2Isabelle
  imports Ring_Buffer_SPSC Result_Types System Client_Wait Ip4_Addr Lwip_Text Pbuf_Chain Pbuf_Refs Pbuf_Clone Inet_Chksum Timeouts
begin

text \<open>
  Verification of pifus, a TCP/IP stack in a process of its own whose applications reach it through shared
  memory. Paths are relative to \<open>src/\<close>.

  \<^bold>\<open>The program.\<close> An application links the library of \<open>api/\<close>. \<open>pifus_initialize\<close> creates the region of the
  application, \<open>pifus_socket\<close> one region per socket; the stack (\<open>lwip/custom/stack\<close>) discovers both by name. A
  socket region (\<open>struct pifus_socket\<close>) holds the submission queue, the completion queue, the queues of pending
  writes and receive requests and a buffer of received bytes. The application puts an operation into the
  submission queue and raises its futex. Three priority threads of the stack move submissions to the ring of
  their priority in the transmit queue, at most ten unserved ones per socket. The main loop serves the transmit
  queue in the thread of lwIP: a handler per operation calls lwIP and answers at once, later from a callback
  of lwIP, or asks to be tried again. Results go into the completion queue, whose futex wakes the application.
  Payload lies in blocks of the application's region, handed over by offset.

  \<^bold>\<open>Correspondence.\<close>
  \<^item> \<open>Ring_Buffer\<close>: the macros of \<open>api/src/pifus_ring_buffer.c\<close>, once for every element type; \<open>Ring_Buffer_SPSC\<close>
    cuts put and get into their single accesses to shared memory. \<open>Byte_Buffer\<close>: \<open>pifus_byte_buffer.c\<close>.
    \<open>Prio_Ring\<close>: \<open>pifus_priority_aware_ring_buffer.c\<close>.
  \<^item> \<open>Memory\<close>, \<open>Shmem\<close>: the block allocator of \<open>api/src/pifus_shmem.c\<close> on the bytes of a region; \<open>Shm_Region\<close>:
    the names, opening and mapping of regions in the same file.
  \<^item> \<open>Operations\<close>, \<open>Socket\<close>: \<open>pifus_operation.h\<close>, \<open>pifus_shmem.h\<close>, \<open>pifus_qos.c\<close>, \<open>pifus_ip.c\<close>, and
    \<open>enqueue_in_cqueue\<close> of the stack.
  \<^item> \<open>Client_Socket\<close>: \<open>api/src/pifus_socket.c\<close>; \<open>Client_Wait\<close>: its \<open>pifus_socket_wait\<close> in steps between those of the
    stack's deliveries. \<open>Client_Callback\<close>: \<open>api/src/pifus.c\<close>.
  \<^item> \<open>Stack_State\<close>: the variables of \<open>stack.c\<close> and the interface of lwIP. \<open>Tcp_Connection\<close>, \<open>Tcp_Write\<close>,
    \<open>Tcp_Recv\<close>: \<open>lwip/custom/stack/src/tcp/*.c\<close>. \<open>Stack\<close>: dispatch and main loop of \<open>stack.c\<close>.
  \<^item> \<open>Linked_List\<close>, \<open>Prio_Thread\<close>, \<open>Discovery\<close>, \<open>Futex\<close>: \<open>list/linked_list.c\<close>, \<open>prio_thread.c\<close>, \<open>discovery.c\<close>
    of the stack and \<open>api/include/utils/futex.h\<close>.
  \<^item> \<open>Stack_Steps\<close>: applications, priority threads, main loop and callbacks as interleaved steps; \<open>Result_Types\<close>:
    the union of results along them. \<open>System\<close>: a write and the creation of a socket across both processes.
  \<^item> Of lwIP itself: \<open>Pbuf\<close>, \<open>Pbuf_Access\<close>, \<open>Pbuf_Chain\<close>, \<open>Pbuf_Refs\<close>, \<open>Pbuf_Alloc\<close>, \<open>Pbuf_Copy\<close>, \<open>Pbuf_Clone\<close>
    (\<open>core/pbuf.c\<close>), \<open>Memp\<close> (\<open>core/memp.c\<close>), \<open>Byte_Order\<close>, \<open>Lwip_Text\<close> (\<open>core/def.c\<close>), \<open>Ip4_Addr\<close>
    (\<open>core/ipv4/ip4_addr.c\<close>), \<open>Inet_Chksum\<close> (\<open>core/inet_chksum.c\<close>),
    \<open>Timeouts\<close> (\<open>core/timeouts.c\<close>), \<open>Lwip_Heap\<close> and its histories \<open>Lwip_Heap_Use\<close> (\<open>core/mem.c\<close>).

  A \<open>struct\<close> is a record with its fields, a \<open>w\<close> bit integer a word, an array a list, a pointer into an array an
  index. A pointer to a region or a socket is a number with a map to contents. Calls of \<open>exit\<close>, dereferences
  of NULL and uses of indeterminate values are the \<open>Fault\<close> of the type \<open>res\<close>; on heaps of nodes an access to a
  freed node is \<open>None\<close>. The functions of lwIP that pifus calls are the fields of the record \<open>lwip_api\<close>, an
  argument of every handler; kernel answers (\<open>futex_waitv\<close>, refusals of \<open>shm_open\<close>), \<open>malloc\<close>, the answer
  of \<open>mem_trim\<close> to \<open>pbuf_realloc\<close> and the user's
  callback are arguments too. What they rely on of these is stated as hypotheses.

  \<^bold>\<open>Interfaces.\<close> Locales state the contracts a component relies on: \<open>Bounded_Queue\<close>, \<open>Byte_Stream\<close>,
  \<open>Service_Queue\<close>, \<open>Region_Allocator\<close>, \<open>Iterated_List\<close>; \<open>Ring_Buffer\<close>, \<open>Byte_Buffer\<close>, \<open>Prio_Ring\<close>, \<open>Shmem\<close> and
  \<open>Linked_List\<close> interpret them on the model of the code. \<open>Prelude\<close>, \<open>Cyclic_Path\<close>, \<open>Decimal\<close> and \<open>C_String\<close> hold
  what several components share.

  \<^bold>\<open>Results.\<close>
  \<^item> Queues: every history of operations is first-in first-out, with one producer and one consumer also when
    their accesses interleave; scans end; the transmit queue serves by priority.
  \<^item> Allocator: allocation refines the list of blocks and hands out fresh bytes; freeing refines it exactly when
    no block follows a merged successor, and otherwise can destroy other payload.
  \<^item> Stack: the main loop returns and serves fifty operations or all; received bytes reach the requests in
    order, each for its size modulo 65536; acknowledgements are accounted; every branch of the handlers.
  \<^item> Threads: submissions move in order within the limits; new sockets reach the thread of their priority, but those that
    overflow its queue never do; in every interleaving no operation is lost, the futexes tell what waits, and each result has the union member
    written that its code stands for.
  \<^item> Application: submissions and results; no interleaving loses the wake-up of a waiting caller; a write reaches
    lwIP in place, and taking its result releases its block.
  \<^item> lwIP: the functions on chains act on their bytes, reference counts count references, the versions of the
    checksum agree and a packet with its checksum verifies, addresses survive printing and reading,
    the handler of every due timer is called in order and cyclic timers do not drift; in every history of the heap its blocks stay apart
    and keep their contents, and a pool hands out no element twice; allocating a packet buffer gives room of the
    asked length or, on shortage, gives back what it took; copying and merging keep the bytes.

  \<^bold>\<open>Bounds and loops.\<close> Loops that could run for ever are \<open>partial_function (option)\<close>, and the results say that
  they return; no fuel is used. Queue sizes are those of \<open>pifus_constants.h\<close>; counters wrap at their width. The
  size of a region is 1000000 bytes, of a socket table 127 entries, of the table of
  applications 100, of lwIP's heap 10240 bytes, of the pool of packet buffers 120 buffers of 256 bytes.

  \<^bold>\<open>Not modelled.\<close> Logging and the system calls behind futexes (no effect on the program's memory), the start of
  lwIP and of the network interface (\<open>lwip/custom/init.c\<close>, \<open>default_netif.c\<close>: calls with constants), benchmarks and
  examples, and the rest of lwIP, which is vendored; of \<open>pbuf.c\<close> and
  \<open>memp.c\<close> the statistics and the functions the configuration switches off. UDP operations
  exist in the interface, but the stack ends on them. \<open>asprintf\<close> is taken to succeed. Accesses beyond an array
  are excluded by hypotheses on indices. A single access to a shared word is atomic.
\<close>

end
